(* ===== verification/Prelude.thy ===== *)
theory Prelude
  imports
    Main
    "HOL-Library.Word"
    "HOL-Library.List_Lexorder"
    "HOL-Library.Sublist"
begin

text \<open>
  Shared vocabulary of the development: machine types, the outcome type of stateful code
  that may fail, and 64-bit arithmetic on naturals.
\<close>

unbundle bit_operations_syntax

section \<open>Machine types\<close>

type_synonym byte = "8 word"
type_synonym bytes = "byte list"
type_synonym u16 = "16 word"
type_synonym u32 = "32 word"
type_synonym u64 = "64 word"

named_theorems codec_simps \<open>laws of encoders and decoders\<close>
named_theorems step_defs \<open>definitions of the operations of a component\<close>

section \<open>Outcomes of stateful operations\<close>

text \<open>
  A Go method with a pointer receiver changes its receiver also on the paths that return an
  error, so an outcome carries the state in both cases: \<open>(s, Inl e)\<close> is a return with the
  error \<open>e\<close>, \<open>(s, Inr a)\<close> a return with the results \<open>a\<close> and a nil error.
\<close>

type_synonym ('s, 'e, 'a) outcome = "'s \<times> ('e + 'a)"

definition andThen :: "('s, 'e, 'a) outcome \<Rightarrow> ('s \<Rightarrow> 'a \<Rightarrow> ('s, 'e, 'b) outcome) \<Rightarrow> ('s, 'e, 'b) outcome" where
  "andThen r f = (case r of (s, Inl e) \<Rightarrow> (s, Inl e) | (s, Inr a) \<Rightarrow> f s a)"

lemma andThen_simps [simp]:
  "andThen (s, Inl e) f = (s, Inl e)"
  "andThen (s, Inr a) f = f s a"
  by (simp_all add: andThen_def)

lemma andThen_split:
  "P (andThen r f) = ((\<forall>s e. r = (s, Inl e) \<longrightarrow> P (s, Inl e)) \<and> (\<forall>s a. r = (s, Inr a) \<longrightarrow> P (f s a)))"
  by (cases r; cases "snd r") auto

lemma andThen_split_asm:
  "P (andThen r f) = (\<not> ((\<exists>s e. r = (s, Inl e) \<and> \<not> P (s, Inl e)) \<or> (\<exists>s a. r = (s, Inr a) \<and> \<not> P (f s a))))"
  by (cases r; cases "snd r") auto

lemmas andThen_splits = andThen_split andThen_split_asm

lemma andThen_okE:
  assumes "andThen r f = (t, Inr b)"
  obtains s a where "r = (s, Inr a)" and "f s a = (t, Inr b)"
  using assms by (cases r; cases "snd r") auto

text \<open>The same for functions that have no state: the result type \<open>'e + 'a\<close>.\<close>

definition bindR :: "'e + 'a \<Rightarrow> ('a \<Rightarrow> 'e + 'b) \<Rightarrow> 'e + 'b" where
  "bindR r f = (case r of Inl e \<Rightarrow> Inl e | Inr a \<Rightarrow> f a)"

lemma bindR_simps [simp]: "bindR (Inl e) f = Inl e" "bindR (Inr a) f = f a"
  by (simp_all add: bindR_def)

lemma bindR_okE:
  assumes "bindR r f = Inr b"
  obtains a where "r = Inr a" and "f a = Inr b"
  using assms by (cases r) auto

section \<open>Unsigned 64-bit arithmetic on naturals\<close>

text \<open>
  Log indexes and terms are \<open>uint64\<close> in the code. Where they index slices the model keeps
  them as \<open>nat\<close> below \<open>2 ^ 64\<close> and writes the wrap-around of \<open>+\<close> and \<open>-\<close> out.
\<close>

definition maxU64 :: nat where
  "maxU64 = 2 ^ 64 - 1"

definition add64 :: "nat \<Rightarrow> nat \<Rightarrow> nat" where
  "add64 a b = (a + b) mod 2 ^ 64"

definition sub64 :: "nat \<Rightarrow> nat \<Rightarrow> nat" where
  "sub64 a b = (a + 2 ^ 64 - b) mod 2 ^ 64"

lemma add64_exact: "a + b \<le> maxU64 \<Longrightarrow> add64 a b = a + b"
  by (simp add: add64_def maxU64_def)

lemma sub64_exact: "b \<le> a \<Longrightarrow> a \<le> maxU64 \<Longrightarrow> sub64 a b = a - b"
proof -
  assume le: "b \<le> a" and bound: "a \<le> maxU64"
  have "a + 2 ^ 64 - b = (a - b) + 2 ^ 64" using le by simp
  moreover have "a - b < 2 ^ 64" using bound by (simp add: maxU64_def)
  ultimately show ?thesis
    unfolding sub64_def by (metis mod_add_self2 mod_less)
qed

lemma add64_bound [simp]: "add64 a b \<le> maxU64"
proof -
  have "add64 a b < 2 ^ 64" by (simp add: add64_def)
  then show ?thesis by (simp add: maxU64_def)
qed

end
