(* ===== verification/Byte_Codec.thy ===== *)
theory Byte_Codec
  imports Prelude
begin

text \<open>
  The parts of Go's standard library that every format of the repository is built from:
  fixed-width integers (\<open>encoding/binary\<close> in both byte orders), LEB128 varints
  (\<open>binary.AppendUvarint\<close>, \<open>binary.Uvarint\<close>) and byte-string comparison
  (\<open>bytes.Compare\<close>), each with the round-trip or order law the components rely on.
\<close>

section \<open>Fixed-width integers as bytes (\<open>encoding/binary\<close>)\<close>

text \<open>\<open>le_put n w\<close> is the little-endian encoding of the low \<open>n\<close> bytes of \<open>w\<close>.\<close>

primrec le_put :: "nat \<Rightarrow> 'a::len word \<Rightarrow> bytes" where
  "le_put 0 w = []"
| "le_put (Suc n) w = ucast w # le_put n (drop_bit 8 w)"

primrec le_get :: "bytes \<Rightarrow> 'a::len word" where
  "le_get [] = 0"
| "le_get (b # bs) = ucast b OR push_bit 8 (le_get bs)"

definition be_put :: "nat \<Rightarrow> 'a::len word \<Rightarrow> bytes" where
  "be_put n w = rev (le_put n w)"

definition be_get :: "bytes \<Rightarrow> 'a::len word" where
  "be_get bs = le_get (rev bs)"

lemma length_le_put [simp]: "length (le_put n w) = n"
  by (induction n arbitrary: w) simp_all

lemma length_be_put [simp]: "length (be_put n w) = n"
  by (simp add: be_put_def)

lemma le_get_put: "le_get (le_put n w) = take_bit (8 * n) w"
proof (induction n arbitrary: w)
  case 0
  then show ?case by simp
next
  case (Suc n)
  show ?case
    by (rule bit_eqI) (auto simp: Suc bit_simps)
qed

lemma le_put_get:
  "8 * length bs \<le> LENGTH('a) \<Longrightarrow> le_put (length bs) (le_get bs :: 'a::len word) = bs"
proof (induction bs)
  case Nil
  then show ?case by simp
next
  case (Cons b bs)
  have "8 \<le> LENGTH('a)" using Cons.prems by simp
  then have "ucast (ucast b OR push_bit 8 (le_get bs) :: 'a word) = b"
    by (intro bit_word_eqI) (auto simp: bit_simps)
  moreover have "drop_bit 8 (ucast b OR push_bit 8 (le_get bs) :: 'a word) = take_bit (LENGTH('a) - 8) (le_get bs)"
    by (intro bit_word_eqI) (auto simp: bit_simps dest: bit_imp_le_length)
  moreover have "take_bit (LENGTH('a) - 8) (le_get bs :: 'a word) = le_get bs"
  proof -
    have "take_bit (8 * length bs) (le_get bs :: 'a word) = le_get bs"
      using Cons by (metis le_get_put add_leD2 length_Cons mult_Suc_right)
    moreover have "8 * length bs \<le> LENGTH('a) - 8" using Cons.prems by simp
    ultimately show ?thesis by (metis min.absorb2 take_bit_take_bit)
  qed
  ultimately show ?case using Cons by simp
qed

lemma le_get_put_full [codec_simps]:
  "8 * n = LENGTH('a) \<Longrightarrow> le_get (le_put n (w :: 'a::len word)) = w"
  by (simp add: le_get_put take_bit_word_eq_self)

lemma be_get_put_full [codec_simps]:
  "8 * n = LENGTH('a) \<Longrightarrow> be_get (be_put n (w :: 'a::len word)) = w"
  by (simp add: be_get_def be_put_def le_get_put_full)

lemma be_put_get:
  "8 * length bs \<le> LENGTH('a) \<Longrightarrow> be_put (length bs) (be_get bs :: 'a::len word) = bs"
  using le_put_get [of "rev bs", where 'a = 'a] by (simp add: be_put_def be_get_def)

lemmas u64_codec [simp] =
  le_get_put_full [of 8, where 'a = 64, simplified]
  be_get_put_full [of 8, where 'a = 64, simplified]

lemmas u32_codec [simp] =
  le_get_put_full [of 4, where 'a = 32, simplified]
  be_get_put_full [of 4, where 'a = 32, simplified]

lemmas u16_codec [simp] =
  le_get_put_full [of 2, where 'a = 16, simplified]
  be_get_put_full [of 2, where 'a = 16, simplified]

text \<open>The other direction, at a slice of known length.\<close>

lemma u64_put_get [simp]:
  "length bs = 8 \<Longrightarrow> le_put 8 (le_get bs :: u64) = bs"
  "length bs = 8 \<Longrightarrow> be_put 8 (be_get bs :: u64) = bs"
  using le_put_get [of bs, where 'a = 64] be_put_get [of bs, where 'a = 64] by simp_all

lemma u32_put_get [simp]:
  "length bs = 4 \<Longrightarrow> le_put 4 (le_get bs :: u32) = bs"
  "length bs = 4 \<Longrightarrow> be_put 4 (be_get bs :: u32) = bs"
  using le_put_get [of bs, where 'a = 32] be_put_get [of bs, where 'a = 32] by simp_all

text \<open>A length that fits the width survives the conversion \<open>uint32(len(x))\<close>.\<close>

lemma unat_of_nat_u32 [simp]: "n < 2 ^ 32 \<Longrightarrow> unat (word_of_nat n :: u32) = n"
  by (simp add: unat_of_nat take_bit_nat_eq_self)

lemma unat_of_nat_u64 [simp]: "n < 2 ^ 64 \<Longrightarrow> unat (word_of_nat n :: u64) = n"
  by (simp add: unat_of_nat take_bit_nat_eq_self)

text \<open>The room left below the maximum of a counter.\<close>

lemma unat_max_u64: "unat (-1 :: u64) = 18446744073709551615"
  by (simp add: unsigned_minus_1_eq_mask mask_eq_exp_minus_1)

lemma unat_max_minus: "unat (-1 - a :: u64) = 18446744073709551615 - unat a"
  using word_order.extremum [of a] by (simp add: unat_sub_if_size unat_max_u64 word_le_nat_alt)

text \<open>Incrementing a counter below its maximum.\<close>

lemma unat_inc: "(x :: u64) \<noteq> - 1 \<Longrightarrow> unat (x + 1) = unat x + 1"
  by (metis Suc_eq_plus1 add.commute add_eq_0_iff unatSuc)

lemma less_inc: "(x :: u64) \<noteq> - 1 \<Longrightarrow> x < x + 1"
  by (simp add: word_less_nat_alt unat_inc)

lemma less_inc_iff: "(x :: u64) \<noteq> - 1 \<Longrightarrow> y < x + 1 \<longleftrightarrow> y \<le> x"
  by (simp add: word_less_nat_alt word_le_nat_alt unat_inc less_Suc_eq_le)

lemma inc_le_iff: "(x :: u64) \<noteq> - 1 \<Longrightarrow> x + 1 \<le> y \<longleftrightarrow> x < y"
  by (simp add: word_less_nat_alt word_le_nat_alt unat_inc Suc_le_eq)

section \<open>Slices\<close>

text \<open>\<open>b[i:j]\<close> for \<open>i \<le> j \<le> len b\<close>.\<close>

definition slice :: "nat \<Rightarrow> nat \<Rightarrow> 'a list \<Rightarrow> 'a list" where
  "slice i j xs = take (j - i) (drop i xs)"

lemma length_slice [simp]: "length (slice i j xs) = min (j - i) (length xs - i)"
  by (simp add: slice_def)

lemma slice_append_left [simp]: "j \<le> length xs \<Longrightarrow> slice i j (xs @ ys) = slice i j xs"
  by (simp add: slice_def)

lemma slice_append_right [simp]:
  "length xs \<le> i \<Longrightarrow> slice i j (xs @ ys) = slice (i - length xs) (j - length xs) ys"
  by (simp add: slice_def diff_le_mono diff_diff_left)

lemma slice_all [simp]: "length xs \<le> j \<Longrightarrow> slice 0 j xs = xs"
  by (simp add: slice_def)

lemma slice_split: "i \<le> j \<Longrightarrow> slice i j xs @ drop j xs = drop i xs"
  by (metis append_take_drop_id drop_drop le_add_diff_inverse2 slice_def)

lemma drop_offset_step: "drop off xs = ys @ rest \<Longrightarrow> drop (off + length ys) xs = rest"
  by (metis add.commute append_eq_conv_conj drop_drop)

lemma drop_offset_le: "drop off xs = ys @ rest \<Longrightarrow> off \<le> length xs \<Longrightarrow> off + length ys \<le> length xs"
  by (drule arg_cong [where f = length]) simp

section \<open>Byte-string comparison (\<open>bytes.Compare\<close>)\<close>

fun compareBytes :: "bytes \<Rightarrow> bytes \<Rightarrow> int" where
  "compareBytes [] [] = 0"
| "compareBytes [] (_ # _) = -1"
| "compareBytes (_ # _) [] = 1"
| "compareBytes (a # as) (b # bs) =
     (if a < b then -1 else if a > b then 1 else compareBytes as bs)"

lemma compareBytes_eq: "compareBytes a b = (if a < b then -1 else if a = b then 0 else 1)"
  by (induction a b rule: compareBytes.induct) auto

lemma compareBytes_simps [simp]:
  "compareBytes a b < 0 \<longleftrightarrow> a < b"
  "compareBytes a b \<le> 0 \<longleftrightarrow> a \<le> b"
  "0 < compareBytes a b \<longleftrightarrow> b < a"
  "0 \<le> compareBytes a b \<longleftrightarrow> b \<le> a"
  "compareBytes a b = 0 \<longleftrightarrow> a = b"
  by (auto simp: compareBytes_eq)

section \<open>Varints (\<open>binary.AppendUvarint\<close>, \<open>binary.Uvarint\<close>)\<close>

lemma unat_drop_bit_7: "unat (drop_bit 7 x :: u64) = unat x div 128"
  using unat_drop_bit_eq [of 7 x] drop_bit_eq_div [of 7 "unat x"] by simp

function putUvarint :: "u64 \<Rightarrow> bytes" where
  "putUvarint x = (if x \<ge> 0x80 then (ucast x OR 0x80) # putUvarint (drop_bit 7 x) else [ucast x])"
  by pat_completeness auto
termination
proof (relation "measure unat")
  fix x :: u64
  assume "0x80 \<le> x"
  then have "128 \<le> unat x" by (simp add: word_le_nat_alt)
  then show "(drop_bit 7 x, x) \<in> measure unat"
    by (simp add: unat_drop_bit_7 del: drop_bit_numeral_minus_bit1)
qed simp

declare putUvarint.simps [simp del]

lemma putUvarint_small: "x < 0x80 \<Longrightarrow> putUvarint x = [ucast x]"
  by (metis leD putUvarint.simps)

definition uvarintLen :: "u64 \<Rightarrow> nat" where
  "uvarintLen x = length (putUvarint x)"

text \<open>
  The result pair of \<open>binary.Uvarint\<close>: the value and the number of bytes read, where
  \<open>0\<close> means that the buffer is too short and a negative count that the value overflows.
\<close>

fun uvarintLoop :: "nat \<Rightarrow> u64 \<Rightarrow> nat \<Rightarrow> bytes \<Rightarrow> u64 \<times> int" where
  "uvarintLoop i x s [] = (0, 0)"
| "uvarintLoop i x s (b # bs) =
     (if i = 10 then (0, - (int i + 1))
      else if b < 0x80 then
        (if i = 9 \<and> b > 1 then (0, - (int i + 1))
         else (x OR push_bit s (ucast b), int i + 1))
      else uvarintLoop (i + 1) (x OR push_bit s (ucast (b AND 0x7f))) (s + 7) bs)"

definition uvarint :: "bytes \<Rightarrow> u64 \<times> int" where
  "uvarint bs = uvarintLoop 0 0 0 bs"

text \<open>Both directions are proved over the value that a byte string denotes.\<close>

fun uvarintVal :: "bytes \<Rightarrow> nat" where
  "uvarintVal [] = 0"
| "uvarintVal (b # bs) = unat b mod 128 + 128 * uvarintVal bs"

fun isUvarint :: "bytes \<Rightarrow> bool" where
  "isUvarint [] = False"
| "isUvarint [b] = (b < 0x80)"
| "isUvarint (b # bs) = (b \<ge> 0x80 \<and> isUvarint bs)"

lemma unat_mod_128: "unat (b :: 'a::len word) mod 128 = unat (take_bit 7 b)"
  by (simp add: unsigned_take_bit_eq take_bit_eq_mod [of 7 "unat b"])

lemma byte_0x80: "(0x80 :: byte) = push_bit 7 1"
  by simp

lemma low_bits_of_continuation: "unat (ucast (x :: u64) OR 0x80 :: byte) mod 128 = unat x mod 128"
proof -
  have "take_bit 7 (ucast x OR 0x80 :: byte) = ucast (take_bit 7 x)"
    unfolding byte_0x80 by (rule bit_word_eqI) (auto simp: bit_simps)
  then have "unat (take_bit 7 (ucast x OR 0x80 :: byte)) = take_bit 8 (unat (take_bit 7 x))"
    by (simp add: unsigned_ucast_eq)
  also have "\<dots> = unat (take_bit 7 x)"
    by (simp add: unsigned_take_bit_eq)
  finally show ?thesis by (simp add: unat_mod_128)
qed

lemma continuation_ge: "(0x80 :: byte) \<le> ucast (x :: u64) OR 0x80"
  using word_and_le1 [of "0x80 :: byte" "ucast x OR 0x80"] by (simp add: bit.conj_disj_distrib2 word_bw_comms)

lemma unat_ucast_small: "(x :: u64) < 0x80 \<Longrightarrow> unat (ucast x :: byte) = unat x"
  by (simp add: unsigned_ucast_eq take_bit_nat_eq_self word_less_nat_alt)

lemma putUvarint_denotes: "isUvarint (putUvarint x) \<and> uvarintVal (putUvarint x) = unat x"
proof (induction x rule: putUvarint.induct)
  case (1 x)
  show ?case
  proof (cases "x \<ge> 0x80")
    case True
    note ih = 1 [OF True]
    obtain d ds where d: "putUvarint (drop_bit 7 x) = d # ds"
      using ih by (cases "putUvarint (drop_bit 7 x)") auto
    have "unat x mod 128 + 128 * unat (drop_bit 7 x) = unat x"
      by (simp only: unat_drop_bit_7) simp
    with True ih d show ?thesis
      by (simp add: putUvarint.simps [of x] low_bits_of_continuation continuation_ge
            del: drop_bit_numeral_minus_bit1)
  next
    case False
    then have "x < 0x80" by simp
    moreover have "isUvarint [ucast x]"
      using \<open>x < 0x80\<close> by (simp add: word_less_nat_alt unat_ucast_small)
    ultimately show ?thesis
      using False by (simp add: putUvarint.simps [of x] unat_ucast_small word_less_nat_alt)
  qed
qed

lemma unat_add_exact: "unat (x :: u64) + unat y < 2 ^ 64 \<Longrightarrow> unat (x + y) = unat x + unat y"
  by (rule unat_add_lem [THEN iffD1]) simp

lemma unat_or_push_bit:
  assumes "unat (acc :: u64) < 2 ^ s" and "n * 2 ^ s < 2 ^ 64"
  shows "unat (acc OR push_bit s (word_of_nat n)) = unat acc + n * 2 ^ s"
proof -
  have small: "take_bit s acc = acc"
    using assms(1) by (intro word_unat_eq_iff [THEN iffD2]) (simp add: unsigned_take_bit_eq take_bit_nat_eq_self)
  have "acc AND push_bit s (word_of_nat n) = take_bit s acc AND push_bit s (word_of_nat n)"
    by (simp add: small)
  also have "\<dots> = 0"
    by (rule bit_word_eqI) (auto simp: bit_simps)
  finally have disj: "acc OR push_bit s (word_of_nat n) = acc + push_bit s (word_of_nat n)"
    by (simp add: disjunctive_add_eq_or)
  have push: "push_bit s (word_of_nat n) = (word_of_nat (n * 2 ^ s) :: u64)"
    by (simp add: push_bit_eq_mult)
  have word: "unat (word_of_nat (n * 2 ^ s) :: u64) = n * 2 ^ s"
    using assms(2) by (rule unat_of_nat_u64)
  have "unat acc + n * 2 ^ s < 2 ^ 64"
  proof (cases n)
    case 0
    then show ?thesis using unsigned_less [of acc, where ?'a = nat] by simp
  next
    case (Suc m)
    then have "2 ^ s dvd n * 2 ^ s" and "(2 :: nat) ^ s < 2 ^ 64"
      using assms(2) by auto
    then have "s < 64" by (intro power_less_imp_less_exp [of "2 :: nat" s 64]) auto
    then have "(2 :: nat) ^ 64 = 2 ^ (64 - s) * 2 ^ s"
      by (simp flip: power_add)
    then have "n < 2 ^ (64 - s)" using assms(2) by (metis mult_less_cancel2)
    then have "n * 2 ^ s + 2 ^ s \<le> 2 ^ (64 - s) * 2 ^ s"
      by (metis Suc_leI add.commute mult_Suc mult_le_mono1)
    then show ?thesis using assms(1) \<open>2 ^ 64 = 2 ^ (64 - s) * 2 ^ s\<close> by linarith
  qed
  then have "unat (acc + word_of_nat (n * 2 ^ s)) = unat acc + unat (word_of_nat (n * 2 ^ s) :: u64)"
    by (intro unat_add_exact) (simp only: word)
  then show ?thesis unfolding disj [unfolded push, symmetric] push word .
qed

lemma byte_low_bits: "ucast (b AND 0x7f :: byte) = (word_of_nat (unat b mod 128) :: u64)"
proof -
  have "b AND 0x7f = take_bit 7 b"
    by (simp add: take_bit_eq_mask mask_eq_exp_minus_1)
  then show ?thesis
    by (simp add: unat_mod_128)
qed

lemma word_of_nat_unat: "word_of_nat (unat (w :: u64)) = w"
  by simp

lemma byte_as_nat: "ucast (b :: byte) = (word_of_nat (unat b) :: u64)"
  by simp

lemma uvarintLoop_accepts:
  assumes "isUvarint ds" and "i + length ds \<le> 10" and "unat acc < 2 ^ (7 * i)"
    and "uvarintVal ds * 2 ^ (7 * i) < 2 ^ 64"
  shows "uvarintLoop i acc (7 * i) (ds @ rest) =
    (word_of_nat (unat acc + uvarintVal ds * 2 ^ (7 * i)), int (i + length ds))"
  using assms
proof (induction ds arbitrary: i acc rule: isUvarint.induct)
  case 1
  then show ?case by simp
next
  case (2 b)
  have small: "unat b < 128" using "2.prems" by (simp add: word_less_nat_alt)
  then have bound: "unat b * 2 ^ (7 * i) < 2 ^ 64" using "2.prems" by simp
  have nine: "\<not> (i = 9 \<and> b > 1)"
  proof
    assume h: "i = 9 \<and> b > 1"
    then have "unat b * 2 ^ 63 < 2 ^ 64" using bound by simp
    moreover have "2 \<le> unat b" using h by (simp add: word_less_nat_alt)
    ultimately show False by simp
  qed
  have "acc OR push_bit (7 * i) (ucast b) = word_of_nat (unat acc + unat b * 2 ^ (7 * i))"
    using unat_or_push_bit [OF "2.prems"(3) bound] by (metis byte_as_nat word_of_nat_unat)
  with small nine "2.prems" show ?case
    by (simp add: word_less_nat_alt)
next
  case (3 b d ds)
  let ?m = "unat b mod 128"
  let ?acc = "acc OR push_bit (7 * i) (ucast (b AND 0x7f))"
  have cont: "b \<ge> 0x80" and more: "isUvarint (d # ds)" using "3.prems"(1) by auto
  have val: "uvarintVal (b # d # ds) = ?m + 128 * uvarintVal (d # ds)" by simp
  have shift: "(2 :: nat) ^ (7 * (i + 1)) = 128 * 2 ^ (7 * i)" by (simp add: power_add)
  have "?m * 2 ^ (7 * i) \<le> uvarintVal (b # d # ds) * 2 ^ (7 * i)"
    unfolding val by simp
  then have bound: "?m * 2 ^ (7 * i) < 2 ^ 64" using "3.prems"(4) by linarith
  have acc: "unat ?acc = unat acc + ?m * 2 ^ (7 * i)"
    unfolding byte_low_bits using "3.prems"(3) bound by (rule unat_or_push_bit)
  have "?m * 2 ^ (7 * i) \<le> 127 * 2 ^ (7 * i)"
    using mod_less_divisor [of 128 "unat b"] by (intro mult_le_mono1) linarith
  then have lim: "unat ?acc < 2 ^ (7 * (i + 1))"
    using "3.prems"(3) unfolding acc shift by linarith
  have rest: "uvarintVal (d # ds) * 2 ^ (7 * (i + 1)) < 2 ^ 64"
    using "3.prems"(4) unfolding val shift by (simp add: algebra_simps)
  have "uvarintLoop (i + 1) ?acc (7 * (i + 1)) ((d # ds) @ rest) =
     (word_of_nat (unat ?acc + uvarintVal (d # ds) * 2 ^ (7 * (i + 1))), int (i + 1 + length (d # ds)))"
    using more "3.prems"(2) lim rest by (intro "3.IH") auto
  moreover have "unat ?acc + uvarintVal (d # ds) * 2 ^ (7 * (i + 1)) =
     unat acc + uvarintVal (b # d # ds) * 2 ^ (7 * i)"
    unfolding acc val shift by (simp add: algebra_simps)
  moreover have "uvarintLoop i acc (7 * i) ((b # d # ds) @ rest) =
     uvarintLoop (i + 1) ?acc (7 * (i + 1)) ((d # ds) @ rest)"
    using leD [OF cont] "3.prems"(2) by (simp add: add.commute)
  moreover have "i + 1 + length (d # ds) = i + length (b # d # ds)" by simp
  ultimately show ?case by presburger
qed

lemma uvarintVal_length: "isUvarint ds \<Longrightarrow> uvarintVal ds < 128 ^ length ds"
proof (induction ds rule: isUvarint.induct)
  case (3 b d ds)
  then have "uvarintVal (d # ds) + 1 \<le> 128 ^ length (d # ds)" by simp
  then have "128 * uvarintVal (d # ds) + 128 \<le> 128 ^ length (b # d # ds)" by simp
  then show ?case using mod_less_divisor [of 128 "unat b"] by simp
qed (auto simp: word_less_nat_alt)

lemma putUvarint_length_le: "unat x < 128 ^ n \<Longrightarrow> 0 < n \<Longrightarrow> length (putUvarint x) \<le> n"
proof (induction x arbitrary: n rule: putUvarint.induct)
  case (1 x)
  show ?case
  proof (cases "x \<ge> 0x80")
    case True
    then have "128 \<le> unat x" by (simp add: word_le_nat_alt)
    then obtain m where m: "n = Suc m" "0 < m"
      using "1.prems" by (cases n; cases "n - 1") auto
    have "unat (drop_bit 7 x) < 128 ^ m"
      using "1.prems" m by (simp only: unat_drop_bit_7) (simp add: div_less_iff_less_mult mult.commute)
    with "1.IH" [OF True] m have "length (putUvarint (drop_bit 7 x)) \<le> m" by blast
    then show ?thesis using True m by (simp add: putUvarint.simps [of x] del: drop_bit_numeral_minus_bit1)
  next
    case False
    then show ?thesis using "1.prems" by (simp add: putUvarint.simps [of x])
  qed
qed

lemma putUvarint_length_max: "length (putUvarint x) \<le> 10"
  using putUvarint_length_le [of x 10] unsigned_less [of x, where ?'a = nat] by simp

lemma putUvarint_nonempty [simp]: "putUvarint x \<noteq> []"
  using putUvarint_denotes [of x] by auto

lemma uvarintLen_pos: "1 \<le> uvarintLen x" and uvarintLen_le: "uvarintLen x \<le> 10"
  using putUvarint_length_max [of x] by (simp_all add: uvarintLen_def Suc_le_eq)

text \<open>Reading back what was appended returns the value and its exact width.\<close>

theorem uvarint_putUvarint [codec_simps]:
  "uvarint (putUvarint x @ rest) = (x, int (uvarintLen x))"
proof -
  have "uvarintLoop 0 0 (7 * 0) (putUvarint x @ rest) =
    (word_of_nat (unat (0 :: u64) + uvarintVal (putUvarint x) * 2 ^ (7 * 0)), int (0 + length (putUvarint x)))"
    using putUvarint_denotes [of x] putUvarint_length_max [of x] unsigned_less [of x, where ?'a = nat]
    by (intro uvarintLoop_accepts) auto
  then show ?thesis
    using putUvarint_denotes [of x] by (simp add: uvarint_def uvarintLen_def)
qed

lemma shift_bound: "n < 128 \<Longrightarrow> i < 9 \<or> i = 9 \<and> n \<le> 1 \<Longrightarrow> n * 2 ^ (7 * i) < (2 :: nat) ^ 64"
proof -
  assume n: "n < 128" and i: "i < 9 \<or> i = 9 \<and> n \<le> 1"
  show ?thesis
  proof (cases "i < 9")
    case True
    have "n * 2 ^ (7 * i) < 2 ^ 7 * 2 ^ (7 * i)" using n by simp
    also have "\<dots> = 2 ^ (7 * i + 7)" by (simp add: power_add)
    also have "\<dots> \<le> 2 ^ 64" using True by (intro power_increasing) auto
    finally show ?thesis .
  next
    case False
    then have "i = 9" and "n \<le> 1" using i by auto
    then show ?thesis by (cases n) auto
  qed
qed

lemma uvarintLoop_sound:
  assumes "uvarintLoop i acc (7 * i) bs = (v, w)" and "w > 0" and "unat acc < 2 ^ (7 * i)"
    and "i \<le> 10"
  shows "\<exists>ds rest. bs = ds @ rest \<and> isUvarint ds \<and> w = int (i + length ds) \<and>
    unat v = unat acc + uvarintVal ds * 2 ^ (7 * i)"
  using assms
proof (induction bs arbitrary: i acc)
  case Nil
  then show ?case by auto
next
  case (Cons b bs)
  have i: "i < 10" using Cons.prems by (cases "i = 10") auto
  show ?case
  proof (cases "b < 0x80")
    case True
    then have small: "unat b < 128" by (simp add: word_less_nat_alt)
    have v: "\<not> (i = 9 \<and> b > 1)" "v = acc OR push_bit (7 * i) (ucast b)" "w = int i + 1"
      using Cons.prems True i by (auto split: if_splits)
    have "i < 9 \<or> i = 9 \<and> unat b \<le> 1"
      using v(1) i by (auto simp: word_less_nat_alt not_less)
    then have "unat b * 2 ^ (7 * i) < 2 ^ 64" using small by (intro shift_bound) auto
    then have "unat v = unat acc + unat b * 2 ^ (7 * i)"
      unfolding v(2) byte_as_nat using Cons.prems(3) by (intro unat_or_push_bit) auto
    then show ?thesis
      using True v(3) small by (intro exI [of _ "[b]"] exI [of _ bs]) auto
  next
    case False
    let ?m = "unat b mod 128"
    let ?acc = "acc OR push_bit (7 * i) (ucast (b AND 0x7f))"
    have step: "uvarintLoop (i + 1) ?acc (7 * (i + 1)) bs = (v, w)"
      using Cons.prems(1) False i by (auto simp: add.commute)
    show ?thesis
    proof (cases "i = 9")
      case True
      with step Cons.prems(2) show ?thesis by (cases bs) auto
    next
      case False
      then have bound: "?m * 2 ^ (7 * i) < 2 ^ 64" using i by (intro shift_bound) auto
      have acc: "unat ?acc = unat acc + ?m * 2 ^ (7 * i)"
        unfolding byte_low_bits using Cons.prems(3) bound by (rule unat_or_push_bit)
      have shift: "(2 :: nat) ^ (7 * (i + 1)) = 128 * 2 ^ (7 * i)" by (simp add: power_add)
      have "?m * 2 ^ (7 * i) \<le> 127 * 2 ^ (7 * i)"
        using mod_less_divisor [of 128 "unat b"] by (intro mult_le_mono1) linarith
      then have "unat ?acc < 2 ^ (7 * (i + 1))"
        using Cons.prems(3) unfolding acc shift by linarith
      with Cons.IH [OF step Cons.prems(2)] i obtain ds rest where
        ds: "bs = ds @ rest" "isUvarint ds" "w = int (i + 1 + length ds)"
          "unat v = unat ?acc + uvarintVal ds * 2 ^ (7 * (i + 1))"
        by auto
      have "unat v = unat acc + uvarintVal (b # ds) * 2 ^ (7 * i)"
        unfolding ds(4) acc shift by (simp add: algebra_simps)
      moreover have "isUvarint (b # ds)"
        using ds(2) \<open>\<not> b < 0x80\<close> by (cases ds) auto
      ultimately show ?thesis
        using ds by (intro exI [of _ "b # ds"] exI [of _ rest]) auto
    qed
  qed
qed

lemma mod_128_inj:
  "(a :: nat) mod 128 = b mod 128 \<Longrightarrow> 128 \<le> b \<Longrightarrow> b < 256 \<Longrightarrow> 128 \<le> a \<Longrightarrow> a < 256 \<Longrightarrow> a = b"
  by (simp add: le_mod_geq)

lemma putUvarint_unique:
  "isUvarint ds \<Longrightarrow> unat v = uvarintVal ds \<Longrightarrow> length ds = uvarintLen v \<Longrightarrow> ds = putUvarint v"
proof (induction ds arbitrary: v rule: isUvarint.induct)
  case 1
  then show ?case by simp
next
  case (2 b)
  have b: "unat b < 128" "unat v = unat b"
    using "2.prems"(1,2) by (auto simp: word_less_nat_alt)
  then have "v < 0x80" by (simp add: word_less_nat_alt)
  moreover from this b have "b = ucast v"
    using unat_ucast_small [of v] by (simp add: word_unat_eq_iff)
  ultimately show ?case by (simp add: putUvarint_small)
next
  case (3 b d ds)
  have "v \<ge> 0x80"
  proof (rule ccontr)
    assume "\<not> v \<ge> 0x80"
    with "3.prems"(3) show False by (simp add: uvarintLen_def putUvarint.simps [of v])
  qed
  then have put: "putUvarint v = (ucast v OR 0x80) # putUvarint (drop_bit 7 v)"
    by (subst putUvarint.simps) simp
  have "unat (drop_bit 7 v) = uvarintVal (d # ds)"
    using "3.prems"(2) by (simp only: unat_drop_bit_7) simp
  moreover have "length (d # ds) = uvarintLen (drop_bit 7 v)"
    using "3.prems"(3) put unfolding uvarintLen_def by (simp only: list.size)
  ultimately have "d # ds = putUvarint (drop_bit 7 v)"
    using "3.prems"(1) by (intro "3.IH") auto
  moreover have "b = ucast v OR 0x80"
  proof -
    have "unat (ucast v OR 0x80 :: byte) mod 128 = unat b mod 128"
      unfolding low_bits_of_continuation using "3.prems"(2)
      by (metis mod_mod_trivial mod_mult_self2 uvarintVal.simps(2))
    moreover have "128 \<le> unat b" and "unat b < 256"
      using "3.prems"(1) unsigned_less [of b, where ?'a = nat] by (auto simp: word_le_nat_alt)
    moreover have "128 \<le> unat (ucast v OR 0x80 :: byte)" and "unat (ucast v OR 0x80 :: byte) < 256"
      using continuation_ge [of v] unsigned_less [of "ucast v OR 0x80 :: byte", where ?'a = nat]
      by (auto simp: word_le_nat_alt)
    ultimately have "unat (ucast v OR 0x80 :: byte) = unat b"
      by (rule mod_128_inj)
    then show ?thesis by (simp add: word_unat_eq_iff)
  qed
  ultimately show ?case using put by simp
qed

text \<open>
  Conversely, a read that reports the canonical width has consumed exactly the bytes that
  appending the value would have produced.
\<close>

theorem uvarint_canonical:
  assumes "uvarint bs = (v, w)" and "w = int (uvarintLen v)"
  shows "\<exists>rest. bs = putUvarint v @ rest"
proof -
  have "uvarintLoop 0 0 (7 * 0) bs = (v, w)" using assms(1) by (simp add: uvarint_def)
  moreover have "w > 0" using assms(2) uvarintLen_pos [of v] by simp
  ultimately obtain ds rest where
    "bs = ds @ rest" "isUvarint ds" "w = int (length ds)" "unat v = uvarintVal ds"
    using uvarintLoop_sound [of 0 0 bs v w] by auto
  then show ?thesis using assms(2) putUvarint_unique [of ds v] by auto
qed

end
