(* ===== verification/Internal_Key.thy ===== *)
theory Internal_Key
  imports Byte_Codec
begin

text \<open>
  \<open>internal/storage/internal_key.go\<close>: the versioned key of every sorted storage component,
  its self-parsing encoding and the one comparator. The comparator is shown to be a linear
  order and becomes the \<open>linorder\<close> instance of the key type, so that the tables above it
  use the library's theory of sorted lists.
\<close>

section \<open>Keys\<close>

text \<open>\<open>ValueKind\<close> is a \<open>uint8\<close> whose values are part of the on-disk format.\<close>

type_synonym ValueKind = byte

definition KindDelete :: ValueKind where "KindDelete = 0"
definition KindValue :: ValueKind where "KindValue = 1"
definition KindTxnAbort :: ValueKind where "KindTxnAbort = 2"
definition KindIntent :: ValueKind where "KindIntent = 3"

lemmas kind_defs = KindDelete_def KindValue_def KindTxnAbort_def KindIntent_def

definition kindValid :: "ValueKind \<Rightarrow> bool" where
  "kindValid k \<longleftrightarrow> k \<le> KindIntent"

definition carriesValue :: "ValueKind \<Rightarrow> bool" where
  "carriesValue k \<longleftrightarrow> k = KindValue \<or> k = KindIntent"

datatype InternalKey = InternalKey (userKey: bytes) (sequence: u64) (kind: ValueKind)

datatype key_error = ErrInternalKeyTooShort | ErrInvalidValueKind

definition internalKeyTrailerLen :: nat where
  "internalKeyTrailerLen = 9"

definition newInternalKey :: "bytes \<Rightarrow> u64 \<Rightarrow> ValueKind \<Rightarrow> key_error + InternalKey" where
  "newInternalKey user seq k =
     (if \<not> kindValid k then Inl ErrInvalidValueKind else Inr (InternalKey user seq k))"

definition encodeInternalKey :: "InternalKey \<Rightarrow> bytes" where
  "encodeInternalKey k = userKey k @ be_put 8 (NOT (sequence k)) @ [kind k]"

definition decodeInternalKey :: "bytes \<Rightarrow> key_error + InternalKey" where
  "decodeInternalKey encoded =
     (if length encoded < internalKeyTrailerLen then Inl ErrInternalKeyTooShort
      else
        let trailer = length encoded - internalKeyTrailerLen;
            k = encoded ! (length encoded - 1)
        in if \<not> kindValid k then Inl ErrInvalidValueKind
           else Inr (InternalKey (take trailer encoded)
                       (NOT (be_get (slice trailer (trailer + 8) encoded))) k))"

definition compareInternal :: "InternalKey \<Rightarrow> InternalKey \<Rightarrow> int" where
  "compareInternal a b =
     (let userOrder = compareBytes (userKey a) (userKey b) in
      if userOrder \<noteq> 0 then userOrder
      else if sequence a > sequence b then -1
      else if sequence a < sequence b then 1
      else if kind a < kind b then -1
      else if kind a > kind b then 1
      else 0)"

lemma kindValid_iff: "kindValid k \<longleftrightarrow> k \<in> {KindDelete, KindValue, KindTxnAbort, KindIntent}"
proof -
  have "kindValid k \<longleftrightarrow> unat k \<le> 3"
    by (simp add: kindValid_def kind_defs word_le_nat_alt)
  also have "\<dots> \<longleftrightarrow> unat k \<in> {0, 1, 2, 3}" by auto
  also have "\<dots> \<longleftrightarrow> k \<in> {0, 1, 2, 3}"
    by (auto simp: word_unat_eq_iff)
  finally show ?thesis by (simp add: kind_defs)
qed

section \<open>Encoding\<close>

lemma length_encodeInternalKey: "length (encodeInternalKey k) = length (userKey k) + 9"
  by (simp add: encodeInternalKey_def)

lemma decode_encode_internal_key:
  assumes "kindValid (kind k)"
  shows "decodeInternalKey (encodeInternalKey k) = Inr k"
proof -
  have "length (encodeInternalKey k) = length (userKey k) + 9"
    by (simp add: encodeInternalKey_def)
  then show ?thesis
    using assms unfolding decodeInternalKey_def internalKeyTrailerLen_def
    by (simp add: encodeInternalKey_def nth_append)
qed

lemma encode_decode_internal_key:
  assumes "decodeInternalKey bs = Inr k"
  shows "encodeInternalKey k = bs \<and> kindValid (kind k)"
proof -
  let ?t = "length bs - 9"
  have len: "9 \<le> length bs"
    and k: "k = InternalKey (take ?t bs) (NOT (be_get (slice ?t (?t + 8) bs))) (bs ! (length bs - 1))"
    and valid: "kindValid (bs ! (length bs - 1))"
    using assms by (auto simp: decodeInternalKey_def internalKeyTrailerLen_def Let_def split: if_splits)
  have "drop ?t bs = slice ?t (?t + 8) bs @ [bs ! (length bs - 1)]"
  proof (rule nth_equalityI)
    show "length (drop ?t bs) = length (slice ?t (?t + 8) bs @ [bs ! (length bs - 1)])"
      using len by simp
    fix i assume "i < length (drop ?t bs)"
    then have "i < 8 \<or> i = 8" by auto
    then show "drop ?t bs ! i = (slice ?t (?t + 8) bs @ [bs ! (length bs - 1)]) ! i"
      using len by (auto simp: slice_def nth_append)
  qed
  then have "take ?t bs @ slice ?t (?t + 8) bs @ [bs ! (length bs - 1)] = bs"
    by (metis append_take_drop_id)
  then show ?thesis
    using len valid by (simp add: encodeInternalKey_def k)
qed

section \<open>Order\<close>

instantiation InternalKey :: linorder
begin

definition less_eq_InternalKey :: "InternalKey \<Rightarrow> InternalKey \<Rightarrow> bool" where
  "a \<le> b \<longleftrightarrow> compareInternal a b \<le> 0"

definition less_InternalKey :: "InternalKey \<Rightarrow> InternalKey \<Rightarrow> bool" where
  "a < b \<longleftrightarrow> compareInternal a b < 0"

lemma compareInternal_less:
  "compareInternal a b < 0 \<longleftrightarrow>
    userKey a < userKey b \<or> userKey a = userKey b \<and>
      (sequence a > sequence b \<or> sequence a = sequence b \<and> kind a < kind b)"
  by (auto simp: compareInternal_def Let_def)

lemma compareInternal_eq_0: "compareInternal a b = 0 \<longleftrightarrow> a = b"
  by (cases a; cases b) (auto simp: compareInternal_def Let_def)

lemma compareInternal_le: "compareInternal a b \<le> 0 \<longleftrightarrow> compareInternal a b < 0 \<or> a = b"
  using compareInternal_eq_0 [of a b] by linarith

instance
proof
  fix x y z :: InternalKey
  show "x < y \<longleftrightarrow> x \<le> y \<and> \<not> y \<le> x"
    unfolding less_InternalKey_def less_eq_InternalKey_def compareInternal_le compareInternal_less
    by auto
  show "x \<le> x"
    by (simp add: less_eq_InternalKey_def compareInternal_le)
  show "x \<le> y \<Longrightarrow> y \<le> z \<Longrightarrow> x \<le> z"
    unfolding less_eq_InternalKey_def compareInternal_le compareInternal_less by auto
  show "x \<le> y \<Longrightarrow> y \<le> x \<Longrightarrow> x = y"
    unfolding less_eq_InternalKey_def compareInternal_le compareInternal_less by auto
  show "x \<le> y \<or> y \<le> x"
    unfolding less_eq_InternalKey_def compareInternal_le compareInternal_less
    by (cases x; cases y) auto
qed

end

lemma InternalKey_less_iff:
  "a < b \<longleftrightarrow> userKey a < userKey b \<or> userKey a = userKey b \<and>
      (sequence a > sequence b \<or> sequence a = sequence b \<and> kind a < kind b)"
  by (simp add: less_InternalKey_def compareInternal_less)

lemma compareInternal_order [simp]:
  "compareInternal a b < 0 \<longleftrightarrow> a < b"
  "compareInternal a b \<le> 0 \<longleftrightarrow> a \<le> b"
  "compareInternal a b = 0 \<longleftrightarrow> a = b"
  by (simp_all add: less_InternalKey_def less_eq_InternalKey_def compareInternal_eq_0)

lemma compareInternal_ge [simp]: "0 \<le> compareInternal a b \<longleftrightarrow> b \<le> a"
  using compareInternal_order(1) [of a b] by (metis not_le not_less)

end
