(* ===== verification/Write_Batch.thy ===== *)
theory Write_Batch
  imports Internal_Key
begin

text \<open>
  \<open>internal/storage/batch.go\<close> (with \<open>limits.go\<close> and \<open>errors.go\<close>): the atomic write batch, the
  payload of one WAL record. The two directions of the codec are proved: a batch that encodes
  decodes to itself, and only canonical byte strings decode.
\<close>

section \<open>Batches and their errors\<close>

definition MaxRecordSize :: nat where
  "MaxRecordSize = 67108864"

definition batchHeaderLen :: nat where
  "batchHeaderLen = 12"

record Mutation =
  mKey :: bytes
  mValue :: bytes
  mKind :: ValueKind

record WriteBatch =
  firstSequence :: u64
  mutations :: "Mutation list"

datatype length_error = errTruncatedLength | errOverflowLength | errNonCanonicalLength | errOutOfBoundsLength

text \<open>
  \<open>ErrInvalidBatch\<close> always carries its cause; the argument of a cause is the number of the
  mutation the message names.
\<close>

datatype invalid_cause =
    HeaderTruncated | CountZero | SequenceWraps | CountExceedsBytes
  | KindTruncated nat | KindInvalid nat ValueKind
  | KeyLength nat length_error | ValueLength nat length_error | TrailingBytes nat

datatype batch_error =
    ErrEmptyBatch | ErrBatchTooLarge | ErrSequenceOverflow
  | ErrMutationKind nat ValueKind | ErrInvalidBatch invalid_cause

section \<open>Encoding\<close>

definition lengthPrefixed :: "bytes \<Rightarrow> bytes" where
  "lengthPrefixed xs = putUvarint (word_of_nat (length xs)) @ xs"

definition encodeMutation :: "Mutation \<Rightarrow> bytes" where
  "encodeMutation m = [mKind m] @ lengthPrefixed (mKey m) @
     (if carriesValue (mKind m) then lengthPrefixed (mValue m) else [])"

fun batchSize :: "nat \<Rightarrow> nat \<Rightarrow> Mutation list \<Rightarrow> batch_error + nat" where
  "batchSize i sz [] = Inr sz"
| "batchSize i sz (m # ms) =
     (if \<not> kindValid (mKind m) then Inl (ErrMutationKind i (mKind m))
      else
        let keySize = 1 + uvarintLen (word_of_nat (length (mKey m))) + length (mKey m) in
        if keySize > MaxRecordSize - sz then Inl ErrBatchTooLarge
        else if carriesValue (mKind m) then
          let valueSize = uvarintLen (word_of_nat (length (mValue m))) + length (mValue m) in
          if valueSize > MaxRecordSize - (sz + keySize) then Inl ErrBatchTooLarge
          else batchSize (i + 1) (sz + keySize + valueSize) ms
        else batchSize (i + 1) (sz + keySize) ms)"

definition encodeWriteBatch :: "WriteBatch \<Rightarrow> batch_error + bytes" where
  "encodeWriteBatch batch =
     (let count = length (mutations batch) in
      if count = 0 then Inl ErrEmptyBatch
      else if count > 4294967295 then Inl ErrBatchTooLarge
      else if unat (firstSequence batch) > maxU64 - (count - 1) then Inl ErrSequenceOverflow
      else bindR (batchSize 0 batchHeaderLen (mutations batch)) (\<lambda>_.
        Inr (le_put 8 (firstSequence batch) @ le_put 4 (word_of_nat count :: u32) @
             concat (map encodeMutation (mutations batch)))))"

section \<open>Decoding\<close>

definition decodeLengthPrefixed :: "bytes \<Rightarrow> nat \<Rightarrow> length_error + (bytes \<times> nat)" where
  "decodeLengthPrefixed encoded offset =
     (let (len, width) = uvarint (drop offset encoded) in
      if width = 0 then Inl errTruncatedLength
      else if width < 0 then Inl errOverflowLength
      else if width \<noteq> int (uvarintLen len) then Inl errNonCanonicalLength
      else
        let start = offset + nat width; remaining = length encoded - start in
        if unat len > remaining then Inl errOutOfBoundsLength
        else Inr (slice start (start + unat len) encoded, start + unat len))"

text \<open>The loop over the declared count: \<open>left\<close> iterations remain, \<open>i\<close> is the mutation number.\<close>

fun decodeMutations :: "bytes \<Rightarrow> nat \<Rightarrow> nat \<Rightarrow> nat \<Rightarrow> batch_error + (Mutation list \<times> nat)" where
  "decodeMutations encoded 0 i offset = Inr ([], offset)"
| "decodeMutations encoded (Suc left) i offset =
     (if offset \<ge> length encoded then Inl (ErrInvalidBatch (KindTruncated i))
      else
        let k = encoded ! offset in
        if \<not> kindValid k then Inl (ErrInvalidBatch (KindInvalid i k))
        else case decodeLengthPrefixed encoded (offset + 1) of
          Inl e \<Rightarrow> Inl (ErrInvalidBatch (KeyLength i e))
        | Inr (key, next) \<Rightarrow>
            (case (if carriesValue k then decodeLengthPrefixed encoded next else Inr ([], next)) of
               Inl e \<Rightarrow> Inl (ErrInvalidBatch (ValueLength i e))
             | Inr (val, next') \<Rightarrow>
                 bindR (decodeMutations encoded left (i + 1) next') (\<lambda>(ms, end).
                   Inr (\<lparr>mKey = key, mValue = val, mKind = k\<rparr> # ms, end))))"

definition decodeWriteBatch :: "bytes \<Rightarrow> batch_error + WriteBatch" where
  "decodeWriteBatch encoded =
     (if length encoded > MaxRecordSize then Inl ErrBatchTooLarge
      else if length encoded < batchHeaderLen then Inl (ErrInvalidBatch HeaderTruncated)
      else
        let first = le_get (slice 0 8 encoded) :: u64;
            count = unat (le_get (slice 8 12 encoded) :: u32) in
        if count = 0 then Inl (ErrInvalidBatch CountZero)
        else if unat first > maxU64 - (count - 1) then Inl (ErrInvalidBatch SequenceWraps)
        else if count > (length encoded - batchHeaderLen) div 2
          then Inl (ErrInvalidBatch CountExceedsBytes)
        else bindR (decodeMutations encoded count 0 batchHeaderLen) (\<lambda>(ms, offset).
          if offset \<noteq> length encoded then Inl (ErrInvalidBatch (TrailingBytes (length encoded - offset)))
          else Inr \<lparr>firstSequence = first, mutations = ms\<rparr>))"

section \<open>Length-prefixed fields\<close>

lemma decodeLengthPrefixed_iff:
  assumes "offset \<le> length encoded" and "length encoded < 2 ^ 64"
  shows "decodeLengthPrefixed encoded offset = Inr (xs, next) \<longleftrightarrow>
    (\<exists>rest. drop offset encoded = lengthPrefixed xs @ rest \<and> next = offset + length (lengthPrefixed xs))"
    (is "?lhs \<longleftrightarrow> ?rhs")
proof
  assume ?lhs
  obtain len width where uv: "uvarint (drop offset encoded) = (len, width)"
    by (cases "uvarint (drop offset encoded)")
  with \<open>?lhs\<close> have w: "width = int (uvarintLen len)"
    and bound: "unat len \<le> length encoded - (offset + uvarintLen len)"
    and xs: "xs = slice (offset + uvarintLen len) (offset + uvarintLen len + unat len) encoded"
    and n: "next = offset + uvarintLen len + unat len"
    by (auto simp: decodeLengthPrefixed_def Let_def split: if_splits)
  obtain rest where rest: "drop offset encoded = putUvarint len @ rest"
    using uvarint_canonical [OF uv w] by blast
  have tail: "drop (offset + uvarintLen len) encoded = rest"
    using drop_offset_step [OF rest] by (simp add: uvarintLen_def)
  have "length xs = unat len" using bound by (simp add: xs)
  moreover have "rest = xs @ drop (unat len) rest"
    using tail by (simp add: xs slice_def)
  ultimately show ?rhs
    using rest n by (auto simp: lengthPrefixed_def uvarintLen_def intro!: exI [of _ "drop (unat len) rest"])
next
  assume ?rhs
  then obtain rest where rest: "drop offset encoded = lengthPrefixed xs @ rest"
    and n: "next = offset + length (lengthPrefixed xs)" by blast
  let ?len = "word_of_nat (length xs) :: u64"
  have le: "length (lengthPrefixed xs) \<le> length encoded - offset"
    using arg_cong [OF rest, of length] by simp
  then have "length xs < 2 ^ 64" using assms by (simp add: lengthPrefixed_def)
  then have len: "unat ?len = length xs" by (rule unat_of_nat_u64)
  have uv: "uvarint (drop offset encoded) = (?len, int (uvarintLen ?len))"
    unfolding rest lengthPrefixed_def append_assoc by (rule uvarint_putUvarint)
  have "drop (offset + uvarintLen ?len) encoded = xs @ rest"
    using drop_offset_step [of offset encoded "putUvarint ?len" "xs @ rest"] rest
    by (simp add: lengthPrefixed_def uvarintLen_def)
  then have "slice (offset + uvarintLen ?len) (offset + uvarintLen ?len + length xs) encoded = xs"
    by (simp add: slice_def)
  then show ?lhs
    using uv len le n assms(1) uvarintLen_pos [of ?len]
    by (simp add: decodeLengthPrefixed_def lengthPrefixed_def uvarintLen_def Let_def)
qed

section \<open>Round trip and canonicity\<close>

definition stripValue :: "Mutation \<Rightarrow> Mutation" where
  "stripValue m = m\<lparr>mValue := (if carriesValue (mKind m) then mValue m else [])\<rparr>"

lemma length_encodeMutation_ge: "2 \<le> length (encodeMutation m)"
  using uvarintLen_pos [of "word_of_nat (length (mKey m))"]
  by (simp add: encodeMutation_def lengthPrefixed_def uvarintLen_def)

lemma length_concat_encode_ge: "2 * length ms \<le> length (concat (map encodeMutation ms))"
proof (induction ms)
  case (Cons m ms)
  then show ?case using length_encodeMutation_ge [of m] by simp
qed simp

lemma batchSize_iff:
  "sz \<le> MaxRecordSize \<Longrightarrow>
   batchSize i sz ms = Inr t \<longleftrightarrow>
     (\<forall>m \<in> set ms. kindValid (mKind m)) \<and> t \<le> MaxRecordSize \<and>
     t = sz + length (concat (map encodeMutation ms))"
proof (induction ms arbitrary: i sz)
  case Nil
  then show ?case by auto
next
  case (Cons m ms)
  let ?k = "1 + length (lengthPrefixed (mKey m))"
  let ?v = "length (lengthPrefixed (mValue m))"
  show ?case
  proof (cases "carriesValue (mKind m)")
    case True
    show ?thesis
      using Cons.IH [of "sz + ?k + ?v" "i + 1"] Cons.prems True
      by (auto simp: encodeMutation_def lengthPrefixed_def uvarintLen_def Let_def algebra_simps)
  next
    case False
    show ?thesis
      using Cons.IH [of "sz + ?k" "i + 1"] Cons.prems False
      by (auto simp: encodeMutation_def lengthPrefixed_def uvarintLen_def Let_def algebra_simps)
  qed
qed

lemma decodeMutations_encode:
  assumes "length encoded < 2 ^ 64"
  shows "off \<le> length encoded \<Longrightarrow> drop off encoded = concat (map encodeMutation ms) @ rest \<Longrightarrow>
    \<forall>m \<in> set ms. kindValid (mKind m) \<Longrightarrow>
    decodeMutations encoded (length ms) i off =
      Inr (map stripValue ms, off + length (concat (map encodeMutation ms)))"
proof (induction ms arbitrary: i off)
  case Nil
  then show ?case by simp
next
  case (Cons m ms)
  define tl1 where "tl1 = (if carriesValue (mKind m) then lengthPrefixed (mValue m) else [])"
  define tl2 where "tl2 = concat (map encodeMutation ms) @ rest"
  have d0: "drop off encoded = [mKind m] @ lengthPrefixed (mKey m) @ tl1 @ tl2"
    using Cons.prems(2) by (simp add: encodeMutation_def [of m] tl1_def tl2_def)
  then have k: "off < length encoded" "encoded ! off = mKind m"
    by (cases "off < length encoded"; simp add: hd_drop_conv_nth [symmetric])+
  have d1: "drop (off + 1) encoded = lengthPrefixed (mKey m) @ tl1 @ tl2"
    using drop_offset_step [OF d0] by simp
  let ?n1 = "off + 1 + length (lengthPrefixed (mKey m))"
  have d2: "drop ?n1 encoded = tl1 @ tl2" by (rule drop_offset_step [OF d1])
  have n1: "?n1 \<le> length encoded" using drop_offset_le [OF d1] k by simp
  let ?n2 = "?n1 + length tl1"
  have d3: "drop ?n2 encoded = tl2" by (rule drop_offset_step [OF d2])
  have n2: "?n2 \<le> length encoded" by (rule drop_offset_le [OF d2 n1])
  have key: "decodeLengthPrefixed encoded (off + 1) = Inr (mKey m, ?n1)"
    using d1 k assms by (subst decodeLengthPrefixed_iff) auto
  have val: "(if carriesValue (mKind m) then decodeLengthPrefixed encoded ?n1 else Inr ([], ?n1)) =
     Inr (mValue (stripValue m), ?n2)"
    using d2 n1 assms by (auto simp: tl1_def stripValue_def decodeLengthPrefixed_iff)
  have "decodeMutations encoded (length ms) (i + 1) ?n2 =
     Inr (map stripValue ms, ?n2 + length (concat (map encodeMutation ms)))"
    using Cons.prems(3) n2 d3 by (intro Cons.IH) (auto simp: tl2_def)
  moreover have "?n2 = off + length (encodeMutation m)"
    by (simp add: encodeMutation_def tl1_def)
  moreover have "\<lparr>mKey = mKey m, mValue = mValue (stripValue m), mKind = mKind m\<rparr> = stripValue m"
    by (simp add: stripValue_def)
  ultimately show ?case
    using Cons.prems(3) k key val by (cases "carriesValue (mKind m)") (simp_all add: Let_def)
qed

lemma decodeMutations_sound:
  assumes "length encoded < 2 ^ 64"
  shows "off \<le> length encoded \<Longrightarrow> decodeMutations encoded n i off = Inr (ms, fin) \<Longrightarrow>
    length ms = n \<and> (\<forall>m \<in> set ms. kindValid (mKind m) \<and> stripValue m = m) \<and>
    (\<exists>rest. drop off encoded = concat (map encodeMutation ms) @ rest) \<and>
    fin = off + length (concat (map encodeMutation ms))"
proof (induction n arbitrary: i off ms fin)
  case 0
  then show ?case by simp
next
  case (Suc n)
  define k where "k = encoded ! off"
  have off: "off < length encoded" and kv: "kindValid k"
    using Suc.prems(2) by (auto simp: k_def Let_def split: if_splits)
  obtain key n1 where key: "decodeLengthPrefixed encoded (off + 1) = Inr (key, n1)"
    using Suc.prems(2) by (auto simp: k_def Let_def split: if_splits sum.splits)
  obtain val n2 where val:
    "(if carriesValue k then decodeLengthPrefixed encoded n1 else Inr ([], n1)) = Inr (val, n2)"
    using Suc.prems(2) key by (auto simp: k_def Let_def split: if_splits sum.splits)
  define m where "m = \<lparr>mKey = key, mValue = val, mKind = k\<rparr>"
  obtain ms' where rec: "decodeMutations encoded n (i + 1) n2 = Inr (ms', fin)" and ms: "ms = m # ms'"
    using Suc.prems(2) off kv key val
    by (cases "carriesValue k") (auto simp: k_def m_def Let_def elim!: bindR_okE split: if_splits)
  obtain r1 where r1: "drop (off + 1) encoded = lengthPrefixed key @ r1"
    and n1: "n1 = off + 1 + length (lengthPrefixed key)"
    using key off assms by (subst (asm) decodeLengthPrefixed_iff) auto
  have n1_le: "n1 \<le> length encoded" using drop_offset_le [OF r1] off n1 by simp
  define v where "v = (if carriesValue k then lengthPrefixed val else [])"
  obtain r2 where r2: "drop n1 encoded = v @ r2" and n2: "n2 = n1 + length v"
    and strip: "stripValue m = m"
    using val n1_le assms
    by (cases "carriesValue k") (auto simp: v_def m_def stripValue_def decodeLengthPrefixed_iff)
  have n2_le: "n2 \<le> length encoded" using drop_offset_le [OF r2 n1_le] n2 by simp
  from Suc.IH [OF n2_le rec] obtain r3 where
    ih: "length ms' = n" "\<forall>m \<in> set ms'. kindValid (mKind m) \<and> stripValue m = m"
      "drop n2 encoded = concat (map encodeMutation ms') @ r3"
      "fin = n2 + length (concat (map encodeMutation ms'))" by blast
  have "drop off encoded = [k] @ lengthPrefixed key @ v @ drop n2 encoded"
    using off r1 r2 n1 n2 drop_offset_step [OF r1] drop_offset_step [OF r2]
    by (simp add: k_def Cons_nth_drop_Suc [symmetric])
  moreover have "encodeMutation m = [k] @ lengthPrefixed key @ v"
    by (simp add: encodeMutation_def m_def v_def)
  ultimately show ?case
    using ih kv strip ms n1 n2 by (auto simp: m_def)
qed

lemma encodeWriteBatch_Inr:
  "encodeWriteBatch b = Inr bs \<longleftrightarrow>
    mutations b \<noteq> [] \<and> length (mutations b) \<le> 4294967295 \<and>
    unat (firstSequence b) \<le> maxU64 - (length (mutations b) - 1) \<and>
    (\<forall>m \<in> set (mutations b). kindValid (mKind m)) \<and> length bs \<le> MaxRecordSize \<and>
    bs = le_put 8 (firstSequence b) @ le_put 4 (word_of_nat (length (mutations b)) :: u32) @
         concat (map encodeMutation (mutations b))"
proof -
  let ?body = "concat (map encodeMutation (mutations b))"
  have "batchHeaderLen \<le> MaxRecordSize" by (simp add: batchHeaderLen_def MaxRecordSize_def)
  note iff = batchSize_iff [OF this, of 0 "mutations b"]
  have "(\<exists>t. batchSize 0 batchHeaderLen (mutations b) = Inr t) \<longleftrightarrow>
    (\<forall>m \<in> set (mutations b). kindValid (mKind m)) \<and> batchHeaderLen + length ?body \<le> MaxRecordSize"
    unfolding iff by auto
  then show ?thesis
    by (cases "batchSize 0 batchHeaderLen (mutations b)")
      (auto simp: encodeWriteBatch_def Let_def batchHeaderLen_def)
qed

lemma write_batch_roundtrip:
  assumes "encodeWriteBatch b = Inr bs"
  shows "decodeWriteBatch bs = Inr (b\<lparr>mutations := map stripValue (mutations b)\<rparr>)"
proof -
  let ?ms = "mutations b"
  let ?body = "concat (map encodeMutation ?ms)"
  from assms have ne: "?ms \<noteq> []" and cnt: "length ?ms < 2 ^ 32"
    and seq: "unat (firstSequence b) \<le> maxU64 - (length ?ms - 1)"
    and valid: "\<forall>m \<in> set ?ms. kindValid (mKind m)" and size: "length bs \<le> MaxRecordSize"
    and bs: "bs = (le_put 8 (firstSequence b) @ le_put 4 (word_of_nat (length ?ms) :: u32)) @ ?body"
    by (auto simp: encodeWriteBatch_Inr)
  have len: "length bs = 12 + length ?body" by (simp add: bs)
  have count: "unat (le_get (slice 8 12 bs) :: u32) = length ?ms"
    using cnt by (simp add: bs)
  have first: "le_get (slice 0 8 bs) = firstSequence b" by (simp add: bs)
  have "decodeMutations bs (length ?ms) 0 12 = Inr (map stripValue ?ms, 12 + length ?body)"
    using size valid by (intro decodeMutations_encode [where rest = "[]"]) (auto simp: bs MaxRecordSize_def)
  then show ?thesis
    using ne seq size len count first length_concat_encode_ge [of ?ms]
    by (simp add: decodeWriteBatch_def Let_def batchHeaderLen_def)
qed

lemma write_batch_canonical:
  assumes "decodeWriteBatch bs = Inr b"
  shows "encodeWriteBatch b = Inr bs \<and> map stripValue (mutations b) = mutations b"
proof -
  let ?count = "unat (le_get (slice 8 12 bs) :: u32)"
  have size: "length bs \<le> MaxRecordSize" "12 \<le> length bs"
    using assms by (auto simp: decodeWriteBatch_def batchHeaderLen_def Let_def split: if_splits)
  from assms obtain ms off where
    ms: "decodeMutations bs ?count 0 12 = Inr (ms, off)" and off: "off = length bs"
    and b: "b = \<lparr>firstSequence = le_get (slice 0 8 bs), mutations = ms\<rparr>"
    and cnt: "?count \<noteq> 0" "unat (le_get (slice 0 8 bs) :: u64) \<le> maxU64 - (?count - 1)"
    by (auto simp: decodeWriteBatch_def batchHeaderLen_def Let_def elim!: bindR_okE split: if_splits)
  have lim: "length bs < 2 ^ 64" using size by (simp add: MaxRecordSize_def)
  from decodeMutations_sound [OF lim size(2) ms] obtain rest where
    len: "length ms = ?count" and valid: "\<forall>m \<in> set ms. kindValid (mKind m)"
    and strip: "\<forall>m \<in> set ms. stripValue m = m"
    and body: "drop 12 bs = concat (map encodeMutation ms) @ rest"
    and fin: "off = 12 + length (concat (map encodeMutation ms))" by blast
  have "rest = []"
    using arg_cong [OF body, of length] fin off size by simp
  have "bs = slice 0 8 bs @ slice 8 12 bs @ drop 12 bs"
    using slice_split [of 0 8 bs] slice_split [of 8 12 bs] by simp
  also have "\<dots> = le_put 8 (firstSequence b) @ le_put 4 (word_of_nat ?count :: u32) @
      concat (map encodeMutation ms)"
    using size body \<open>rest = []\<close> by (simp add: b)
  finally have "encodeWriteBatch b = Inr bs"
    using size cnt len valid unsigned_less [of "le_get (slice 8 12 bs) :: u32", where ?'a = nat]
    by (auto simp: encodeWriteBatch_Inr b)
  then show ?thesis using strip by (simp add: b map_idI)
qed

text \<open>
  C39. The write-batch codec is exact: bytes decode to a batch precisely when they are its encoding
  and the batch is normal, that is, its marker kinds (tombstones and aborts) carry no value. First
  sequence, order and contents of the mutations survive, and no two byte strings denote one batch.
\<close>

theorem write_batch_codec_exact:
  "decodeWriteBatch bs = Inr b \<longleftrightarrow>
     encodeWriteBatch b = Inr bs \<and> map stripValue (mutations b) = mutations b"
proof
  assume "encodeWriteBatch b = Inr bs \<and> map stripValue (mutations b) = mutations b"
  then show "decodeWriteBatch bs = Inr b" using write_batch_roundtrip [of b bs] by simp
qed (rule write_batch_canonical)

end
