(* ===== verification/Timestamps.thy ===== *)
theory Timestamps
  imports Byte_Codec
begin

text \<open>
  \<open>internal/mvcc/timestamp.go\<close>: hybrid-logical-clock timestamps (48 bits of physical
  milliseconds, 16 logical bits) and the range-scoped clock that issues them. The wall clock
  is the injected \<open>clock.Clock\<close>; its reading in milliseconds is an argument of \<open>clockNow\<close>.
\<close>

section \<open>Timestamps\<close>

type_synonym Timestamp = u64

datatype ts_error = ErrInvalidTimestamp | ErrTimestampExhausted

definition LogicalBits :: nat where "LogicalBits = 16"
definition MaxLogical :: u16 where "MaxLogical = 0xffff"
definition MaxPhysical :: u64 where "MaxPhysical = 0xffffffffffff"

definition newTimestamp :: "u64 \<Rightarrow> u16 \<Rightarrow> ts_error + Timestamp" where
  "newTimestamp physical logical =
     (if physical > MaxPhysical then Inl ErrInvalidTimestamp
      else Inr (push_bit LogicalBits physical OR ucast logical))"

definition physicalOf :: "Timestamp \<Rightarrow> u64" where
  "physicalOf t = drop_bit LogicalBits t"

definition logicalOf :: "Timestamp \<Rightarrow> u16" where
  "logicalOf t = ucast t"

definition encodeTimestamp :: "Timestamp \<Rightarrow> bytes \<Rightarrow> bytes" where
  "encodeTimestamp t dst = dst @ be_put 8 t"

definition decodeTimestamp :: "bytes \<Rightarrow> ts_error + Timestamp" where
  "decodeTimestamp encoded =
     (if length encoded \<noteq> 8 then Inl ErrInvalidTimestamp else Inr (be_get encoded))"

definition nextAfter :: "Timestamp \<Rightarrow> ts_error + Timestamp" where
  "nextAfter t = (if t = NOT 0 then Inl ErrTimestampExhausted else Inr (t + 1))"

section \<open>The clock\<close>

record HLC =
  lastIssued :: Timestamp

definition newClock :: "bool \<Rightarrow> Timestamp \<Rightarrow> ts_error + HLC" where
  "newClock havePhysical floor =
     (if \<not> havePhysical then Inl ErrInvalidTimestamp else Inr \<lparr>lastIssued = floor\<rparr>)"

definition clockObserve :: "Timestamp \<Rightarrow> HLC \<Rightarrow> HLC" where
  "clockObserve t c = (if t > lastIssued c then c\<lparr>lastIssued := t\<rparr> else c)"

definition clockNow :: "int \<Rightarrow> HLC \<Rightarrow> (HLC, ts_error, Timestamp) outcome" where
  "clockNow millis c =
     (if millis < 0 \<or> (word_of_int millis :: u64) > MaxPhysical then (c, Inl ErrTimestampExhausted)
      else
        let physical = word_of_int millis;
            lastPhysical = physicalOf (lastIssued c);
            lastLogical = logicalOf (lastIssued c) in
        if physical > lastPhysical then
          let t = push_bit LogicalBits physical; t' = (if t = 0 then 1 else t) in
          (c\<lparr>lastIssued := t'\<rparr>, Inr t')
        else if lastLogical \<noteq> MaxLogical then
          (c\<lparr>lastIssued := lastIssued c + 1\<rparr>, Inr (lastIssued c + 1))
        else if lastPhysical = MaxPhysical then (c, Inl ErrTimestampExhausted)
        else
          let t = push_bit LogicalBits (lastPhysical + 1) in
          (c\<lparr>lastIssued := t\<rparr>, Inr t))"

section \<open>Layout of a timestamp\<close>

lemma unat_physicalOf: "unat (physicalOf t) = unat t div 2 ^ 16"
  using unat_drop_bit_eq [of 16 t] drop_bit_eq_div [of 16 "unat t"]
  by (simp add: physicalOf_def LogicalBits_def)

lemma unat_logicalOf: "unat (logicalOf t) = unat t mod 2 ^ 16"
  by (simp add: logicalOf_def unsigned_ucast_eq take_bit_eq_mod)

lemma physicalOf_bound: "physicalOf t \<le> MaxPhysical"
proof -
  have "unat t < 2 ^ 64" using unsigned_less [of t, where ?'a = nat] by simp
  then have "unat t div 2 ^ 16 \<le> 2 ^ 48 - 1" by simp
  then show ?thesis
    by (simp add: word_le_nat_alt unat_physicalOf MaxPhysical_def)
qed

lemma unat_push_physical: "p \<le> MaxPhysical \<Longrightarrow> unat (push_bit LogicalBits p) = unat p * 2 ^ 16"
proof -
  assume "p \<le> MaxPhysical"
  then have "unat p * 2 ^ 16 < 2 ^ 64" by (simp add: word_le_nat_alt MaxPhysical_def)
  then show ?thesis
    using unat_or_push_bit [of 0 16 "unat p"] by (simp add: LogicalBits_def)
qed

lemma logical_max: "logicalOf t = MaxLogical \<longleftrightarrow> unat t mod 2 ^ 16 = 2 ^ 16 - 1"
  unfolding word_unat_eq_iff unat_logicalOf by (simp add: MaxLogical_def)

lemma logicalOf_max: "logicalOf (- 1) = MaxLogical"
  by (simp add: word_unat_eq_iff unat_logicalOf MaxLogical_def unsigned_minus_1_eq_mask mask_eq_exp_minus_1)

lemma physicalOf_max: "physicalOf (- 1) = MaxPhysical"
  by (simp add: word_unat_eq_iff unat_physicalOf MaxPhysical_def unsigned_minus_1_eq_mask mask_eq_exp_minus_1)

lemma timestamp_order:
  "t < t' \<longleftrightarrow> physicalOf t < physicalOf t' \<or> physicalOf t = physicalOf t' \<and> logicalOf t < logicalOf t'"
  (is "?lhs \<longleftrightarrow> ?rhs")
proof -
  have "a < b \<longleftrightarrow> a div d < b div d \<or> a div d = b div d \<and> a mod d < b mod d" if "0 < d" for a b d :: nat
    using that by (metis div_le_mono div_mult_mod_eq le_antisym linorder_not_less nat_add_left_cancel_less nat_less_le)
  from this [of "2 ^ 16" "unat t" "unat t'"] show ?thesis
    unfolding word_less_nat_alt word_unat_eq_iff unat_physicalOf unat_logicalOf by simp
qed

lemma newTimestamp_fields:
  assumes "newTimestamp p l = Inr t"
  shows "physicalOf t = p \<and> logicalOf t = l"
proof -
  have p: "p \<le> MaxPhysical" and t: "t = push_bit 16 p OR ucast l"
    using assms by (auto simp: newTimestamp_def LogicalBits_def split: if_splits)
  have "unat p * 2 ^ 16 < 2 ^ 64" using p by (simp add: word_le_nat_alt MaxPhysical_def)
  moreover have ucast: "unat (ucast l :: u64) = unat l"
    using unsigned_less [of l, where ?'a = nat] by (simp add: unsigned_ucast_eq take_bit_nat_eq_self)
  moreover have "unat l < 2 ^ 16" using unsigned_less [of l, where ?'a = nat] by simp
  ultimately have "unat t = unat l + unat p * 2 ^ 16"
    using unat_or_push_bit [of "ucast l" 16 "unat p"] by (simp add: t or.commute)
  then show ?thesis
    using \<open>unat l < 2 ^ 16\<close> unfolding word_unat_eq_iff unat_physicalOf unat_logicalOf by simp
qed

section \<open>What the clock promises\<close>

lemma word_nonzero_push: "physical > physicalOf t \<Longrightarrow> physical \<le> MaxPhysical \<Longrightarrow> push_bit LogicalBits physical > t"
proof -
  assume less: "physical > physicalOf t" and le: "physical \<le> MaxPhysical"
  have "unat t div 2 ^ 16 < unat physical"
    using less by (simp add: word_less_nat_alt unat_physicalOf)
  then have "unat t < unat physical * 2 ^ 16"
    by (simp add: div_less_iff_less_mult)
  then show ?thesis using unat_push_physical [OF le] by (simp add: word_less_nat_alt)
qed

lemma physicalOf_push: "p \<le> MaxPhysical \<Longrightarrow> physicalOf (push_bit LogicalBits p) = p"
  by (simp add: word_unat_eq_iff unat_physicalOf unat_push_physical)

lemma clockNow_ok:
  assumes "clockNow millis c = (c', Inr t)"
  shows "lastIssued c < t \<and> c' = c\<lparr>lastIssued := t\<rparr> \<and> word_of_int millis \<le> physicalOf t"
proof -
  let ?p = "word_of_int millis :: u64" and ?last = "lastIssued c"
  have p: "?p \<le> MaxPhysical"
    using assms by (auto simp: clockNow_def split: if_splits)
  consider (physical) "?p > physicalOf ?last" "t = push_bit LogicalBits ?p"
    | (logical) "?p \<le> physicalOf ?last" "logicalOf ?last \<noteq> MaxLogical" "t = ?last + 1"
    | (carry) "?p \<le> physicalOf ?last" "physicalOf ?last \<noteq> MaxPhysical"
        "t = push_bit LogicalBits (physicalOf ?last + 1)"
    using assms word_nonzero_push [of ?last ?p] p
    by (auto simp: clockNow_def Let_def not_less split: if_splits)
  then have "?last < t \<and> ?p \<le> physicalOf t"
  proof cases
    case physical
    then show ?thesis using p word_nonzero_push physicalOf_push by auto
  next
    case logical
    have "?last \<noteq> - 1" using logical(2) logicalOf_max by auto
    then have "unat (?last + 1) = unat ?last + 1" by (rule unat_inc)
    moreover have "unat ?last mod 2 ^ 16 \<noteq> 2 ^ 16 - 1" using logical(2) by (simp add: logical_max)
    ultimately have "unat (?last + 1) div 2 ^ 16 = unat ?last div 2 ^ 16"
      by (simp add: div_Suc mod_Suc)
    then have "physicalOf (?last + 1) = physicalOf ?last"
      by (simp add: word_unat_eq_iff unat_physicalOf)
    then show ?thesis using logical \<open>unat (?last + 1) = unat ?last + 1\<close> by (simp add: word_less_nat_alt)
  next
    case carry
    have lt: "physicalOf ?last < MaxPhysical" using carry(2) physicalOf_bound [of ?last] by simp
    then have "unat (physicalOf ?last + 1) = unat (physicalOf ?last) + 1"
      by (intro unat_inc) auto
    then have up: "physicalOf ?last < physicalOf ?last + 1" "physicalOf ?last + 1 \<le> MaxPhysical"
      using lt by (auto simp: word_less_nat_alt word_le_nat_alt)
    then show ?thesis
      using carry word_nonzero_push [of ?last "physicalOf ?last + 1"] physicalOf_push by auto
  qed
  moreover have "c' = c\<lparr>lastIssued := t\<rparr>"
    using assms by (auto simp: clockNow_def Let_def split: if_splits)
  ultimately show ?thesis by simp
qed

lemma timestamp_eqI: "physicalOf t = physicalOf t' \<Longrightarrow> logicalOf t = logicalOf t' \<Longrightarrow> t = t'"
  using timestamp_order [of t t'] timestamp_order [of t' t] by auto

lemma clockNow_error:
  assumes "clockNow millis c = (c', Inl e)"
  shows "c' = c \<and> e = ErrTimestampExhausted \<and>
    (millis < 0 \<or> word_of_int millis > MaxPhysical \<or> lastIssued c = - 1)"
  using assms timestamp_eqI [of "lastIssued c" "- 1"]
  by (auto simp: clockNow_def Let_def physicalOf_max logicalOf_max split: if_splits)

lemma clockObserve_ge: "lastIssued c \<le> lastIssued (clockObserve t c) \<and> t \<le> lastIssued (clockObserve t c)"
  by (auto simp: clockObserve_def)

text \<open>A history of calls on one clock and what each call saw or issued, in order.\<close>

datatype clock_call = CallObserve Timestamp | CallNow int

datatype clock_event = Observed (stamp: Timestamp) | Issued (stamp: Timestamp)

fun clockRun :: "clock_call list \<Rightarrow> HLC \<Rightarrow> clock_event list" where
  "clockRun [] c = []"
| "clockRun (CallObserve t # calls) c = Observed t # clockRun calls (clockObserve t c)"
| "clockRun (CallNow millis # calls) c =
     (case clockNow millis c of
        (c', Inl _) \<Rightarrow> clockRun calls c'
      | (c', Inr t) \<Rightarrow> Issued t # clockRun calls c')"

definition above :: "clock_event \<Rightarrow> clock_event \<Rightarrow> bool" where
  "above earlier later \<longleftrightarrow> (case later of Issued t \<Rightarrow> stamp earlier < t | Observed _ \<Rightarrow> True)"

lemma clockRun_above_floor:
  "e \<in> set (clockRun calls c) \<Longrightarrow> f \<le> lastIssued c \<Longrightarrow> above (Observed f) e"
proof (induction calls c arbitrary: f rule: clockRun.induct)
  case (1 c)
  then show ?case by simp
next
  case (2 t calls c)
  have "f \<le> lastIssued (clockObserve t c)" using clockObserve_ge [of c t] "2.prems" by force
  then show ?case using 2 by (auto simp: above_def)
next
  case (3 millis calls c)
  show ?case
  proof (cases "clockNow millis c")
    case (Pair c' r)
    show ?thesis
    proof (cases r)
      case (Inl x)
      then show ?thesis using 3 Pair clockNow_error [of millis c c' x] by auto
    next
      case (Inr t)
      note now = clockNow_ok [of millis c c' t]
      have "f \<le> lastIssued c'" using now Pair Inr "3.prems" by auto
      then show ?thesis using 3 Pair Inr now by (auto simp: above_def)
    qed
  qed
qed

text \<open>
  C40. The hybrid logical clock never repeats or goes back: in any history of \<open>Now\<close> and
  \<open>Observe\<close> calls, whatever the wall clock reads (also when it jumps backwards), every issued
  timestamp is strictly greater than every timestamp issued or observed before it.
\<close>

theorem clock_strictly_increasing: "sorted_wrt above (clockRun calls c)"
proof (induction calls c rule: clockRun.induct)
  case (1 c)
  then show ?case by simp
next
  case (2 t calls c)
  then show ?case
    using clockRun_above_floor [of _ calls "clockObserve t c" t] clockObserve_ge [of c t]
    by (auto simp: above_def split: clock_event.splits)
next
  case (3 millis calls c)
  show ?case
  proof (cases "clockNow millis c")
    case (Pair c' r)
    show ?thesis
    proof (cases r)
      case (Inl x)
      then show ?thesis using 3 Pair by auto
    next
      case (Inr t)
      have "above (Issued t) e" if "e \<in> set (clockRun calls c')" for e
        using clockRun_above_floor [OF that, of t] clockNow_ok [of millis c c' t] Pair Inr
        by (auto simp: above_def split: clock_event.splits)
      then show ?thesis using 3 Pair Inr by auto
    qed
  qed
qed

end
