(* ===== verification/Txn_Types.thy ===== *)
theory Txn_Types
  imports Byte_Codec
begin

text \<open>
  \<open>internal/txn/types.go\<close>: the values of the transaction protocol that replicated ranges and
  the coordinator share: identities, statuses, records, operations, intents and writes.
\<close>

section \<open>Identities, statuses, records\<close>

definition IDSize :: nat where "IDSize = 16"
definition MaxWrites :: nat where "MaxWrites = 1024"
definition MaxParticipants :: nat where "MaxParticipants = 64"
definition MaxWriteBytes :: nat where "MaxWriteBytes = 8388608"

datatype txn_error =
    ErrInvalid | ErrTooLarge | ErrProtocolConflict | ErrWriteConflict | ErrIntentConflict
  | ErrAlreadyCommitted | ErrAlreadyAborted | ErrClosed | ErrReadOnly

text \<open>An identity is an array of \<open>IDSize\<close> bytes.\<close>

type_synonym TxnID = bytes

definition idZero :: "TxnID \<Rightarrow> bool" where
  "idZero x \<longleftrightarrow> x = replicate IDSize 0"

datatype Status = StatusPending | StatusCommitted | StatusAborted

definition statusTerminal :: "Status \<Rightarrow> bool" where
  "statusTerminal s \<longleftrightarrow> s = StatusCommitted \<or> s = StatusAborted"

datatype ParticipantStatus =
  ParticipantPrepared | ParticipantRejected | ParticipantCommitted | ParticipantAborted

record Participant =
  rangeID :: u64
  generation :: u64

record Write =
  wKey :: bytes
  wValue :: bytes
  wDelete :: bool

record Record =
  rID :: TxnID
  rStatus :: Status
  rReadTime :: u64
  rCommitTime :: u64
  rEpoch :: u64
  rHome :: Participant
  rParticipants :: "Participant list"

record ParticipantRecord =
  pID :: TxnID
  pStatus :: ParticipantStatus
  pReadTime :: u64
  pCommitTime :: u64
  pEpoch :: u64
  pHome :: Participant
  pWrites :: "Write list"
  pReason :: string

text \<open>\<open>OperationType\<close> is a byte of the wire format.\<close>

type_synonym OperationType = byte

definition OpCreate :: OperationType where "OpCreate = 1"
definition OpPrepare :: OperationType where "OpPrepare = 2"
definition OpCommit :: OperationType where "OpCommit = 3"
definition OpAbort :: OperationType where "OpAbort = 4"
definition OpTakeover :: OperationType where "OpTakeover = 5"
definition OpResolveCommit :: OperationType where "OpResolveCommit = 6"
definition OpResolveAbort :: OperationType where "OpResolveAbort = 7"

lemmas op_defs = OpCreate_def OpPrepare_def OpCommit_def OpAbort_def OpTakeover_def
  OpResolveCommit_def OpResolveAbort_def

record Operation =
  oType :: OperationType
  oID :: TxnID
  oReadTime :: u64
  oCommitTime :: u64
  oEpoch :: u64
  oHome :: Participant
  oParticipants :: "Participant list"
  oWrites :: "Write list"

record Intent =
  iID :: TxnID
  iReadTime :: u64
  iCommitTime :: u64
  iEpoch :: u64
  iHome :: Participant
  iDelete :: bool
  iValue :: bytes

section \<open>Equality of protocol values\<close>

fun equalWrites :: "Write list \<Rightarrow> Write list \<Rightarrow> bool" where
  "equalWrites [] [] = True"
| "equalWrites (l # ls) (r # rs) =
     (\<not> (wDelete l \<noteq> wDelete r \<or> wKey l \<noteq> wKey r \<or> wValue l \<noteq> wValue r) \<and> equalWrites ls rs)"
| "equalWrites _ _ = False"

definition equalRecord :: "Record \<Rightarrow> Record \<Rightarrow> bool" where
  "equalRecord l r \<longleftrightarrow>
     \<not> (rID l \<noteq> rID r \<or> rStatus l \<noteq> rStatus r \<or> rReadTime l \<noteq> rReadTime r \<or>
        rCommitTime l \<noteq> rCommitTime r \<or> rEpoch l \<noteq> rEpoch r \<or> rHome l \<noteq> rHome r \<or>
        length (rParticipants l) \<noteq> length (rParticipants r)) \<and>
     (\<forall>i < length (rParticipants l). rParticipants l ! i = rParticipants r ! i)"

lemma equalWrites_eq: "equalWrites ls rs \<longleftrightarrow> ls = rs"
  by (induction ls rs rule: equalWrites.induct) auto

lemma equalRecord_eq: "equalRecord l r \<longleftrightarrow> l = r"
  by (auto simp: equalRecord_def intro!: Record.equality nth_equalityI)

end
