(* ===== verification/Txn_Codec.thy ===== *)
theory Txn_Codec
  imports Txn_Types
begin

text \<open>
  \<open>internal/txn/codec.go\<close>: the canonical encodings of transaction operations and of
  provisional intents, and the validation both directions share. Both codecs are shown to be
  exact inverses: what encodes decodes to itself, and only canonical bytes decode.
\<close>

definition operationMagic :: bytes where "operationMagic = [0x52, 0x56, 0x54, 0x58]"
definition intentMagic :: bytes where "intentMagic = [0x52, 0x56, 0x49, 0x4e]"
definition codecVersion :: byte where "codecVersion = 1"
definition opHeaderSize :: nat where "opHeaderSize = 72"
definition intentHeaderSize :: nat where "intentHeaderSize = 64"

lemmas codec_consts = operationMagic_def intentMagic_def codecVersion_def opHeaderSize_def
  intentHeaderSize_def MaxWriteBytes_def MaxWrites_def MaxParticipants_def IDSize_def

section \<open>Validation\<close>

fun validateParticipants :: "Participant option \<Rightarrow> Participant list \<Rightarrow> bool" where
  "validateParticipants prev [] = True"
| "validateParticipants prev (p # ps) =
     (if rangeID p = 0 \<or> generation p = 0 \<or> (case prev of None \<Rightarrow> False | Some q \<Rightarrow> rangeID q \<ge> rangeID p) then False
      else validateParticipants (Some p) ps)"

fun validateWrites :: "nat \<Rightarrow> Write option \<Rightarrow> Write list \<Rightarrow> txn_error + unit" where
  "validateWrites sofar prev [] = Inr ()"
| "validateWrites sofar prev (w # ws) =
     (if wDelete w \<and> wValue w \<noteq> [] \<or> (case prev of None \<Rightarrow> False | Some q \<Rightarrow> compareBytes (wKey q) (wKey w) \<ge> 0)
      then Inl ErrInvalid
      else
        let sofar' = sofar + (length (wKey w) + length (wValue w)) in
        if sofar' > MaxWriteBytes then Inl ErrTooLarge else validateWrites sofar' (Some w) ws)"

definition validateOperation :: "Operation \<Rightarrow> txn_error + unit" where
  "validateOperation op =
     (if idZero (oID op) \<or> oEpoch op = 0 \<or> rangeID (oHome op) = 0 \<or> generation (oHome op) = 0 \<or>
         oReadTime op = 0 \<or> oCommitTime op \<le> oReadTime op then Inl ErrInvalid
      else if \<not> (if oType op = OpCreate then oParticipants op \<noteq> [] \<and> oWrites op = []
                 else if oType op = OpPrepare then oParticipants op = [] \<and> oWrites op \<noteq> []
                 else if oType op \<in> {OpCommit, OpAbort, OpTakeover, OpResolveCommit, OpResolveAbort}
                   then oParticipants op = [] \<and> oWrites op = []
                 else False) then Inl ErrInvalid
      else if length (oParticipants op) > MaxParticipants \<or> length (oWrites op) > MaxWrites
        then Inl ErrTooLarge
      else if \<not> validateParticipants None (oParticipants op) then Inl ErrInvalid
      else validateWrites 0 None (oWrites op))"

section \<open>Operations\<close>

definition encodeParticipant :: "Participant \<Rightarrow> bytes" where
  "encodeParticipant p = be_put 8 (rangeID p) @ be_put 8 (generation p)"

definition encodeWrite :: "Write \<Rightarrow> bytes" where
  "encodeWrite w = [if wDelete w then 1 else 0] @
     be_put 4 (word_of_nat (length (wKey w)) :: u32) @ be_put 4 (word_of_nat (length (wValue w)) :: u32) @
     wKey w @ wValue w"

definition opHeader :: "Operation \<Rightarrow> bytes" where
  "opHeader op = operationMagic @ [codecVersion, oType op, 0, 0] @ oID op @
     be_put 8 (oReadTime op) @ be_put 8 (oCommitTime op) @ be_put 8 (oEpoch op) @
     be_put 8 (rangeID (oHome op)) @ be_put 8 (generation (oHome op)) @
     be_put 4 (word_of_nat (length (oParticipants op)) :: u32) @
     be_put 4 (word_of_nat (length (oWrites op)) :: u32)"

definition operationSize :: "Operation \<Rightarrow> nat" where
  "operationSize op = opHeaderSize + length (oParticipants op) * 16 +
     sum_list (map (\<lambda>w. 9 + length (wKey w) + length (wValue w)) (oWrites op))"

definition encodeOperation :: "Operation \<Rightarrow> txn_error + bytes" where
  "encodeOperation op =
     bindR (validateOperation op) (\<lambda>_.
       if operationSize op > MaxWriteBytes then Inl ErrTooLarge
       else Inr (opHeader op @ concat (map encodeParticipant (oParticipants op)) @
                 concat (map encodeWrite (oWrites op))))"

fun decodeParticipants :: "bytes \<Rightarrow> nat \<Rightarrow> nat \<Rightarrow> Participant list \<times> nat" where
  "decodeParticipants encoded 0 offset = ([], offset)"
| "decodeParticipants encoded (Suc n) offset =
     (let p = \<lparr>rangeID = be_get (slice offset (offset + 8) encoded),
               generation = be_get (slice (offset + 8) (offset + 16) encoded)\<rparr>;
          (ps, end) = decodeParticipants encoded n (offset + 16)
      in (p # ps, end))"

fun decodeWrites :: "bytes \<Rightarrow> nat \<Rightarrow> nat \<Rightarrow> txn_error + (Write list \<times> nat)" where
  "decodeWrites encoded 0 offset = Inr ([], offset)"
| "decodeWrites encoded (Suc n) offset =
     (if length encoded - offset < 9 then Inl ErrInvalid
      else
        let flags = encoded ! offset in
        if flags > 1 then Inl ErrInvalid
        else
          let keyLength = unat (be_get (slice (offset + 1) (offset + 5) encoded) :: u32);
              valueLength = unat (be_get (slice (offset + 5) (offset + 9) encoded) :: u32);
              offset = offset + 9;
              remaining = length encoded - offset in
          if keyLength > remaining \<or> valueLength > remaining - keyLength then Inl ErrInvalid
          else
            let keyEnd = offset + keyLength; valueEnd = keyEnd + valueLength in
            bindR (decodeWrites encoded n valueEnd) (\<lambda>(ws, end).
              Inr (\<lparr>wKey = slice offset keyEnd encoded, wValue = slice keyEnd valueEnd encoded,
                    wDelete = (flags = 1)\<rparr> # ws, end)))"

definition decodeOperation :: "bytes \<Rightarrow> txn_error + Operation" where
  "decodeOperation encoded =
     (if length encoded < opHeaderSize \<or> length encoded > MaxWriteBytes \<or>
         slice 0 4 encoded \<noteq> operationMagic \<or> encoded ! 4 \<noteq> codecVersion \<or>
         encoded ! 6 \<noteq> 0 \<or> encoded ! 7 \<noteq> 0 then Inl ErrInvalid
      else
        let participantCount = unat (be_get (slice 64 68 encoded) :: u32);
            writeCount = unat (be_get (slice 68 72 encoded) :: u32) in
        if participantCount > MaxParticipants \<or> writeCount > MaxWrites then Inl ErrTooLarge
        else if participantCount > (length encoded - opHeaderSize) div 16 then Inl ErrInvalid
        else
          let (ps, offset) = decodeParticipants encoded participantCount opHeaderSize in
          bindR (decodeWrites encoded writeCount offset) (\<lambda>(ws, offset).
            if offset \<noteq> length encoded then Inl ErrInvalid
            else
              let op = \<lparr>oType = encoded ! 5, oID = slice 8 24 encoded,
                        oReadTime = be_get (slice 24 32 encoded),
                        oCommitTime = be_get (slice 32 40 encoded),
                        oEpoch = be_get (slice 40 48 encoded),
                        oHome = \<lparr>rangeID = be_get (slice 48 56 encoded),
                                 generation = be_get (slice 56 64 encoded)\<rparr>,
                        oParticipants = ps, oWrites = ws\<rparr>
              in bindR (validateOperation op) (\<lambda>_. Inr op)))"

section \<open>Intents\<close>

definition intentFieldsInvalid :: "Intent \<Rightarrow> bool" where
  "intentFieldsInvalid i \<longleftrightarrow>
     idZero (iID i) \<or> iReadTime i = 0 \<or> iCommitTime i \<le> iReadTime i \<or> iEpoch i = 0 \<or>
     rangeID (iHome i) = 0 \<or> generation (iHome i) = 0 \<or> iDelete i \<and> iValue i \<noteq> []"

definition intentHeader :: "Intent \<Rightarrow> bytes" where
  "intentHeader i = intentMagic @ [codecVersion, if iDelete i then 1 else 0, 0, 0] @ iID i @
     be_put 8 (iReadTime i) @ be_put 8 (iCommitTime i) @ be_put 8 (iEpoch i) @
     be_put 8 (rangeID (iHome i)) @ be_put 8 (generation (iHome i))"

definition encodeIntent :: "Intent \<Rightarrow> txn_error + bytes" where
  "encodeIntent i =
     (if intentFieldsInvalid i \<or> length (iValue i) > MaxWriteBytes then Inl ErrInvalid
      else Inr (intentHeader i @ iValue i))"

definition decodeIntent :: "bytes \<Rightarrow> txn_error + Intent" where
  "decodeIntent encoded =
     (if length encoded < intentHeaderSize \<or> length encoded > intentHeaderSize + MaxWriteBytes \<or>
         slice 0 4 encoded \<noteq> intentMagic \<or> encoded ! 4 \<noteq> codecVersion \<or> encoded ! 5 > 1 \<or>
         encoded ! 6 \<noteq> 0 \<or> encoded ! 7 \<noteq> 0 then Inl ErrInvalid
      else
        let i = \<lparr>iID = slice 8 24 encoded,
                 iReadTime = be_get (slice 24 32 encoded), iCommitTime = be_get (slice 32 40 encoded),
                 iEpoch = be_get (slice 40 48 encoded),
                 iHome = \<lparr>rangeID = be_get (slice 48 56 encoded), generation = be_get (slice 56 64 encoded)\<rparr>,
                 iDelete = (encoded ! 5 = 1), iValue = drop intentHeaderSize encoded\<rparr>
        in if intentFieldsInvalid i then Inl ErrInvalid else Inr i)"

section \<open>Intents round trip\<close>

lemma slice_nth_head: "i < length xs \<Longrightarrow> slice i (i + 1) xs = [xs ! i]"
  by (simp add: slice_def take_Suc_conv_app_nth hd_drop_conv_nth take_Suc)

lemma byte_flag: "(b :: byte) \<le> 1 \<Longrightarrow> (if b = 1 then 1 else 0) = b"
  by (auto simp: word_le_nat_alt word_unat_eq_iff)

lemma length_intentHeader: "length (iID i) = IDSize \<Longrightarrow> length (intentHeader i) = intentHeaderSize"
  by (simp add: intentHeader_def codec_consts)

lemma intent_roundtrip:
  assumes "length (iID i) = IDSize" and "encodeIntent i = Inr bs"
  shows "decodeIntent bs = Inr i"
proof -
  have ok: "\<not> intentFieldsInvalid i" "length (iValue i) \<le> MaxWriteBytes" "bs = intentHeader i @ iValue i"
    using assms(2) by (auto simp: encodeIntent_def split: if_splits)
  have id: "length (iID i) = 16" using assms(1) by (simp add: IDSize_def)
  have h: "length (intentHeader i) = 64"
    using length_intentHeader [OF assms(1)] by (simp add: intentHeaderSize_def)
  have fields: "slice 0 4 bs = intentMagic" "bs ! 4 = codecVersion" "bs ! 5 = (if iDelete i then 1 else 0)"
    "bs ! 6 = 0" "bs ! 7 = 0" "slice 8 24 bs = iID i"
    "be_get (slice 24 32 bs) = iReadTime i" "be_get (slice 32 40 bs) = iCommitTime i"
    "be_get (slice 40 48 bs) = iEpoch i" "be_get (slice 48 56 bs) = rangeID (iHome i)"
    "be_get (slice 56 64 bs) = generation (iHome i)" "drop 64 bs = iValue i"
    by (simp_all add: ok(3) intentHeader_def intentMagic_def id nth_append slice_def)
  have "length bs = 64 + length (iValue i)" using h ok(3) by simp
  then show ?thesis
    using ok(1,2) by (simp add: decodeIntent_def fields intentHeaderSize_def intentFieldsInvalid_def Let_def)
qed

lemma header8: "8 \<le> length xs \<Longrightarrow> slice 4 8 xs = [xs ! 4, xs ! 5, xs ! 6, xs ! 7]"
  by (rule nth_equalityI) (auto simp: slice_def less_Suc_eq numeral_eq_Suc)

lemma intent_canonical:
  assumes "decodeIntent bs = Inr i"
  shows "encodeIntent i = Inr bs \<and> length (iID i) = IDSize"
proof -
  have len: "64 \<le> length bs" "length bs \<le> 64 + MaxWriteBytes"
    and magic: "slice 0 4 bs = intentMagic" "bs ! 4 = codecVersion" "bs ! 5 \<le> 1" "bs ! 6 = 0" "bs ! 7 = 0"
    and valid: "\<not> intentFieldsInvalid i"
    and i: "i = \<lparr>iID = slice 8 24 bs, iReadTime = be_get (slice 24 32 bs),
      iCommitTime = be_get (slice 32 40 bs), iEpoch = be_get (slice 40 48 bs),
      iHome = \<lparr>rangeID = be_get (slice 48 56 bs), generation = be_get (slice 56 64 bs)\<rparr>,
      iDelete = (bs ! 5 = 1), iValue = drop 64 bs\<rparr>"
    using assms by (auto simp: decodeIntent_def intentHeaderSize_def Let_def split: if_splits)
  have "bs = slice 0 4 bs @ slice 4 8 bs @ slice 8 24 bs @ slice 24 32 bs @ slice 32 40 bs @
     slice 40 48 bs @ slice 48 56 bs @ slice 56 64 bs @ drop 64 bs"
    using slice_split [of 0 4 bs] slice_split [of 4 8 bs] slice_split [of 8 24 bs]
      slice_split [of 24 32 bs] slice_split [of 32 40 bs] slice_split [of 40 48 bs]
      slice_split [of 48 56 bs] slice_split [of 56 64 bs] by simp
  also have "\<dots> = intentHeader i @ iValue i"
    using len magic byte_flag [of "bs ! 5"] by (simp add: intentHeader_def i header8)
  finally show ?thesis
    using len valid by (simp add: encodeIntent_def i IDSize_def)
qed

section \<open>Operations round trip\<close>

lemma slice_drop: "slice (off + i) (off + j) xs = slice i j (drop off xs)"
  by (simp add: slice_def add.commute)

lemma slice_drop0: "slice off (off + j) xs = slice 0 j (drop off xs)"
  using slice_drop [of off 0 j xs] by simp

lemma length_encodeParticipant [simp]: "length (encodeParticipant p) = 16"
  by (simp add: encodeParticipant_def)

lemma decodeParticipants_encode:
  "drop off encoded = concat (map encodeParticipant ps) @ rest \<Longrightarrow>
   decodeParticipants encoded (length ps) off = (ps, off + 16 * length ps)"
proof (induction ps arbitrary: off)
  case Nil
  then show ?case by simp
next
  case (Cons p ps)
  have d: "drop off encoded = encodeParticipant p @ concat (map encodeParticipant ps) @ rest"
    using Cons.prems by simp
  have "drop (off + 16) encoded = concat (map encodeParticipant ps) @ rest"
    using drop_offset_step [OF d] by simp
  from Cons.IH [OF this] show ?case
    by (simp add: slice_drop slice_drop0 d encodeParticipant_def add.assoc)
qed

lemma decodeParticipants_sound:
  "off + 16 * n \<le> length encoded \<Longrightarrow> decodeParticipants encoded n off = (ps, fin) \<Longrightarrow>
   length ps = n \<and> fin = off + 16 * n \<and>
   drop off encoded = concat (map encodeParticipant ps) @ drop fin encoded"
proof (induction n arbitrary: off ps fin)
  case 0
  then show ?case by simp
next
  case (Suc n)
  obtain ps' where rec: "decodeParticipants encoded n (off + 16) = (ps', fin)"
    and ps: "ps = \<lparr>rangeID = be_get (slice off (off + 8) encoded),
               generation = be_get (slice (off + 8) (off + 16) encoded)\<rparr> # ps'"
    using Suc.prems(2) by (auto simp: Let_def split: prod.splits)
  have "off + 16 + 16 * n \<le> length encoded" using Suc.prems(1) by simp
  note ih = Suc.IH [OF this rec]
  have "drop off encoded = slice off (off + 8) encoded @ slice (off + 8) (off + 16) encoded @ drop (off + 16) encoded"
    using slice_split [of off "off + 8" encoded] slice_split [of "off + 8" "off + 16" encoded] by simp
  then show ?case
    using ih Suc.prems(1) by (auto simp: ps encodeParticipant_def)
qed

lemma decodeWrites_encode:
  "off \<le> length encoded \<Longrightarrow> drop off encoded = concat (map encodeWrite ws) @ rest \<Longrightarrow>
   length encoded < 2 ^ 32 \<Longrightarrow>
   decodeWrites encoded (length ws) off = Inr (ws, off + length (concat (map encodeWrite ws)))"
proof (induction ws arbitrary: off)
  case Nil
  then show ?case by simp
next
  case (Cons w ws)
  let ?tail = "concat (map encodeWrite ws) @ rest"
  let ?k = "length (wKey w)" and ?v = "length (wValue w)"
  have d: "drop off encoded = encodeWrite w @ ?tail" using Cons.prems by simp
  have n: "off + length (encodeWrite w) \<le> length encoded"
    using drop_offset_le [OF d Cons.prems(1)] .
  have lens: "?k < 2 ^ 32" "?v < 2 ^ 32" and enough: "off + 9 + ?k + ?v \<le> length encoded"
    using n Cons.prems(3) by (auto simp: encodeWrite_def)
  have "encoded ! off = (drop off encoded) ! 0" using enough by simp
  then have flag: "encoded ! off = (if wDelete w then 1 else 0)" by (simp add: d encodeWrite_def)
  have keyLength: "unat (be_get (slice (off + 1) (off + 5) encoded) :: u32) = ?k"
    unfolding slice_drop d using lens by (simp add: encodeWrite_def slice_def)
  have valueLength: "unat (be_get (slice (off + 5) (off + 9) encoded) :: u32) = ?v"
    unfolding slice_drop d using lens by (simp add: encodeWrite_def slice_def)
  have key: "slice (off + 9) (off + 9 + ?k) encoded = wKey w"
    unfolding add.assoc slice_drop d by (simp add: encodeWrite_def slice_def)
  have val: "slice (off + 9 + ?k) (off + 9 + ?k + ?v) encoded = wValue w"
    unfolding add.assoc slice_drop d by (simp add: encodeWrite_def slice_def)
  have fin: "off + 9 + ?k + ?v = off + length (encodeWrite w)" by (simp add: encodeWrite_def)
  have "drop (off + length (encodeWrite w)) encoded = ?tail" by (rule drop_offset_step [OF d])
  from Cons.IH [OF n this Cons.prems(3)]
  have rec: "decodeWrites encoded (length ws) (off + 9 + ?k + ?v) =
     Inr (ws, off + length (encodeWrite w) + length (concat (map encodeWrite ws)))"
    unfolding fin .
  have "\<not> length encoded - off < 9" "\<not> length encoded - (off + 9) < ?k"
    "\<not> length encoded - (off + 9 + ?k) < ?v" using enough by arith+
  then show ?case
    by (simp add: Let_def flag keyLength [simplified] valueLength key val rec)
qed

lemma decodeWrites_sound:
  "off \<le> length encoded \<Longrightarrow> decodeWrites encoded n off = Inr (ws, fin) \<Longrightarrow>
   length ws = n \<and> fin \<le> length encoded \<and>
   drop off encoded = concat (map encodeWrite ws) @ drop fin encoded"
proof (induction n arbitrary: off ws fin)
  case 0
  then show ?case by simp
next
  case (Suc n)
  define kl vl where "kl = (be_get (slice (off + 1) (off + 5) encoded) :: u32)"
    and "vl = (be_get (slice (off + 5) (off + 9) encoded) :: u32)"
  define k v where "k = off + 9 + unat kl" and "v = k + unat vl"
  define w where "w = \<lparr>wKey = slice (off + 9) k encoded, wValue = slice k v encoded,
    wDelete = (encoded ! off = 1)\<rparr>"
  obtain ws' where rec: "decodeWrites encoded n v = Inr (ws', fin)" and ws: "ws = w # ws'"
    and flag: "encoded ! off \<le> 1" and v: "v \<le> length encoded"
    using Suc.prems unfolding decodeWrites.simps Let_def kl_def [symmetric] vl_def [symmetric]
    by (auto simp: k_def v_def w_def elim!: bindR_okE split: if_splits)
  note ih = Suc.IH [OF v rec]
  have le: "off + 9 \<le> k" "k \<le> v" by (simp_all add: k_def v_def)
  have "length (wKey w) = unat kl" "length (wValue w) = unat vl"
    using v le by (simp_all add: w_def k_def v_def)
  then have lens: "be_put 4 (word_of_nat (length (wKey w)) :: u32) = slice (off + 1) (off + 5) encoded"
    "be_put 4 (word_of_nat (length (wValue w)) :: u32) = slice (off + 5) (off + 9) encoded"
    using v le by (simp_all add: kl_def vl_def)
  have "drop off encoded = [encoded ! off] @ slice (off + 1) (off + 5) encoded @
     slice (off + 5) (off + 9) encoded @ slice (off + 9) k encoded @ slice k v encoded @ drop v encoded"
    using v le slice_split [of "off + 1" "off + 5" encoded] slice_split [of "off + 5" "off + 9" encoded]
      slice_split [of "off + 9" k encoded] slice_split [of k v encoded]
    by (simp add: Cons_nth_drop_Suc [symmetric])
  also have "\<dots> = encodeWrite w @ drop v encoded"
    unfolding encodeWrite_def lens using byte_flag [OF flag] by (simp add: w_def)
  finally show ?case using ih ws by simp
qed

lemma length_opHeader: "length (oID op) = IDSize \<Longrightarrow> length (opHeader op) = opHeaderSize"
  by (simp add: opHeader_def codec_consts)

lemma length_concat_encodeParticipant: "length (concat (map encodeParticipant ps)) = 16 * length ps"
  by (induction ps) simp_all

lemma length_concat_encodeWrite:
  "length (concat (map encodeWrite ws)) = sum_list (map (\<lambda>w. 9 + length (wKey w) + length (wValue w)) ws)"
  by (induction ws) (simp_all add: encodeWrite_def)

lemma validateOperation_counts:
  "validateOperation op = Inr u \<Longrightarrow>
   length (oParticipants op) \<le> MaxParticipants \<and> length (oWrites op) \<le> MaxWrites"
  by (auto simp: validateOperation_def split: if_splits)

lemma operation_roundtrip:
  assumes "length (oID op) = IDSize" and "encodeOperation op = Inr bs"
  shows "decodeOperation bs = Inr op"
proof -
  let ?ps = "oParticipants op" and ?ws = "oWrites op"
  let ?P = "concat (map encodeParticipant ?ps)" and ?W = "concat (map encodeWrite ?ws)"
  have valid: "validateOperation op = Inr ()" and size: "operationSize op \<le> MaxWriteBytes"
    and bs: "bs = opHeader op @ ?P @ ?W"
    using assms(2) by (auto simp: encodeOperation_def elim!: bindR_okE split: if_splits)
  have id: "length (oID op) = 16" using assms(1) by (simp add: IDSize_def)
  have h: "length (opHeader op) = 72"
    using length_opHeader [OF assms(1)] by (simp add: opHeaderSize_def)
  have counts: "length ?ps \<le> MaxParticipants" "length ?ws \<le> MaxWrites"
    using validateOperation_counts [OF valid] by auto
  then have small: "length ?ps < 2 ^ 32" "length ?ws < 2 ^ 32" by (simp_all add: codec_consts)
  have fields: "slice 0 4 bs = operationMagic" "bs ! 4 = codecVersion" "bs ! 5 = oType op"
    "bs ! 6 = 0" "bs ! 7 = 0" "slice 8 24 bs = oID op"
    "be_get (slice 24 32 bs) = oReadTime op" "be_get (slice 32 40 bs) = oCommitTime op"
    "be_get (slice 40 48 bs) = oEpoch op" "be_get (slice 48 56 bs) = rangeID (oHome op)"
    "be_get (slice 56 64 bs) = generation (oHome op)"
    by (simp_all add: bs opHeader_def operationMagic_def id nth_append slice_def)
  have cnt: "unat (be_get (slice 64 68 bs) :: u32) = length ?ps"
    "unat (be_get (slice 68 72 bs) :: u32) = length ?ws"
    using small by (simp_all add: bs opHeader_def operationMagic_def id slice_def)
  have len: "length bs = 72 + 16 * length ?ps + length ?W"
    by (simp add: bs h length_concat_encodeParticipant)
  then have total: "length bs \<le> MaxWriteBytes"
    using size by (simp add: operationSize_def opHeaderSize_def length_concat_encodeWrite)
  have "drop 72 bs = ?P @ ?W" by (simp add: bs h)
  then have ps: "decodeParticipants bs (length ?ps) 72 = (?ps, 72 + 16 * length ?ps)"
    by (rule decodeParticipants_encode)
  have "drop (72 + 16 * length ?ps) bs = ?W @ []"
    by (simp add: bs h length_concat_encodeParticipant)
  then have ws: "decodeWrites bs (length ?ws) (72 + 16 * length ?ps) = Inr (?ws, length bs)"
    using total len decodeWrites_encode [of "72 + 16 * length ?ps" bs ?ws "[]"] by (simp add: codec_consts)
  have rebuild: "\<lparr>oType = oType op, oID = oID op, oReadTime = oReadTime op, oCommitTime = oCommitTime op,
    oEpoch = oEpoch op, oHome = \<lparr>rangeID = rangeID (oHome op), generation = generation (oHome op)\<rparr>,
    oParticipants = ?ps, oWrites = ?ws\<rparr> = op" by simp
  show ?thesis
    using counts len total valid
    by (simp add: decodeOperation_def fields cnt ps ws opHeaderSize_def Let_def rebuild del: Operation.surjective)
qed

lemma operation_canonical:
  assumes "decodeOperation bs = Inr op"
  shows "encodeOperation op = Inr bs \<and> length (oID op) = IDSize"
proof -
  define np nw where "np = (be_get (slice 64 68 bs) :: u32)" and "nw = (be_get (slice 68 72 bs) :: u32)"
  have len: "72 \<le> length bs" "length bs \<le> MaxWriteBytes"
    and magic: "slice 0 4 bs = operationMagic" "bs ! 4 = codecVersion" "bs ! 6 = 0" "bs ! 7 = 0"
    and np: "unat np \<le> (length bs - 72) div 16"
    using assms by (auto simp: decodeOperation_def opHeaderSize_def np_def Let_def split: if_splits)
  obtain ps off where ps: "decodeParticipants bs (unat np) 72 = (ps, off)" by fastforce
  have "72 + 16 * unat np \<le> length bs" using np len by linarith
  note P = decodeParticipants_sound [OF this ps]
  obtain ws where ws: "decodeWrites bs (unat nw) off = Inr (ws, length bs)"
    and valid: "validateOperation op = Inr ()"
    and op: "op = \<lparr>oType = bs ! 5, oID = slice 8 24 bs, oReadTime = be_get (slice 24 32 bs),
      oCommitTime = be_get (slice 32 40 bs), oEpoch = be_get (slice 40 48 bs),
      oHome = \<lparr>rangeID = be_get (slice 48 56 bs), generation = be_get (slice 56 64 bs)\<rparr>,
      oParticipants = ps, oWrites = ws\<rparr>"
    using assms ps
    by (auto simp: decodeOperation_def opHeaderSize_def np_def nw_def Let_def elim!: bindR_okE split: if_splits)
  have "off \<le> length bs" using P \<open>72 + 16 * unat np \<le> length bs\<close> by simp
  note W = decodeWrites_sound [OF this ws]
  have "bs = slice 0 4 bs @ slice 4 8 bs @ slice 8 24 bs @ slice 24 32 bs @ slice 32 40 bs @
     slice 40 48 bs @ slice 48 56 bs @ slice 56 64 bs @ slice 64 68 bs @ slice 68 72 bs @ drop 72 bs"
    using slice_split [of 0 4 bs] slice_split [of 4 8 bs] slice_split [of 8 24 bs]
      slice_split [of 24 32 bs] slice_split [of 32 40 bs] slice_split [of 40 48 bs]
      slice_split [of 48 56 bs] slice_split [of 56 64 bs] slice_split [of 64 68 bs]
      slice_split [of 68 72 bs] by simp
  moreover have "opHeader op = slice 0 4 bs @ slice 4 8 bs @ slice 8 24 bs @ slice 24 32 bs @
     slice 32 40 bs @ slice 40 48 bs @ slice 48 56 bs @ slice 56 64 bs @ slice 64 68 bs @ slice 68 72 bs"
    using len magic P W by (simp add: opHeader_def op header8 np_def nw_def)
  ultimately have bs: "bs = opHeader op @ concat (map encodeParticipant ps) @ concat (map encodeWrite ws)"
    using P W by simp
  have id: "length (oID op) = IDSize" using len by (simp add: op IDSize_def)
  have "operationSize op = length bs"
    using arg_cong [OF bs, of length] length_opHeader [OF id]
    by (simp add: operationSize_def length_concat_encodeParticipant length_concat_encodeWrite op opHeaderSize_def)
  moreover have "oParticipants op = ps" "oWrites op = ws" by (simp_all add: op)
  ultimately show ?thesis
    using valid len(2) id by (simp add: encodeOperation_def bs [symmetric])
qed

text \<open>
  C38. The transaction-operation codec is exact: bytes decode to an operation precisely when they
  are the encoding of that operation. So every operation that validates survives the log
  unchanged, and no two byte strings denote the same operation.
\<close>

theorem operation_codec_exact:
  "decodeOperation bs = Inr op \<longleftrightarrow> encodeOperation op = Inr bs \<and> length (oID op) = IDSize"
  using operation_roundtrip operation_canonical by blast

text \<open>
  The same for provisional intents, the values a prepared transaction leaves at its keys.
\<close>

theorem intent_codec_exact:
  "decodeIntent bs = Inr i \<longleftrightarrow> encodeIntent i = Inr bs \<and> length (iID i) = IDSize"
  using intent_roundtrip intent_canonical by blast

end
