(* ===== verification/Range_Command.thy ===== *)
theory Range_Command
  imports Internal_Key Txn_Codec
begin

text \<open>
  \<open>internal/replicatedrange/split.go\<close> and \<open>command.go\<close>: the commands a replicated range puts in
  its Raft log. A split operation travels as the value of a \<open>CommandSplit\<close>, a transaction
  operation as the value of a \<open>CommandTxn...\<close>; plain writes carry an optional MVCC timestamp.
  Both layers of encoding are shown to be exact inverses on what the validators accept.
\<close>

section \<open>Split operations\<close>

type_synonym SplitOperationType = byte

definition SplitOpBegin :: SplitOperationType where "SplitOpBegin = 1"
definition SplitOpBootstrapBarrier :: SplitOperationType where "SplitOpBootstrapBarrier = 2"
definition SplitOpBootstrapVersion :: SplitOperationType where "SplitOpBootstrapVersion = 3"
definition SplitOpReplayVersion :: SplitOperationType where "SplitOpReplayVersion = 4"
definition SplitOpReplayAdvance :: SplitOperationType where "SplitOpReplayAdvance = 5"
definition SplitOpFinalFence :: SplitOperationType where "SplitOpFinalFence = 6"
definition SplitOpActivate :: SplitOperationType where "SplitOpActivate = 7"
definition SplitOpRetire :: SplitOperationType where "SplitOpRetire = 8"
definition SplitOpAbort :: SplitOperationType where "SplitOpAbort = 9"

lemmas split_op_defs = SplitOpBegin_def SplitOpBootstrapBarrier_def SplitOpBootstrapVersion_def
  SplitOpReplayVersion_def SplitOpReplayAdvance_def SplitOpFinalFence_def SplitOpActivate_def
  SplitOpRetire_def SplitOpAbort_def

datatype command_error = ErrInvalidCommand | ErrUnsupportedCommand | ErrCommandTooLarge

text \<open>The digests are arrays of \<open>sha256.Size\<close> bytes.\<close>

definition sha256Size :: nat where "sha256Size = 32"

record SplitOperation =
  sType :: SplitOperationType
  sSplitID :: u64
  sEpoch :: u64
  sParentRangeID :: u64
  sParentGeneration :: u64
  sParentIndex :: u64
  sTimestamp :: u64
  sKind :: ValueKind
  sCommandDigest :: bytes
  sImageDigest :: bytes
  sValue :: bytes

definition splitOperationMagic :: bytes where "splitOperationMagic = [0x52, 0x56, 0x53, 0x50]"

definition validateSplitOperation :: "SplitOperation \<Rightarrow> command_error + unit" where
  "validateSplitOperation op =
     (if sType op < SplitOpBegin \<or> sType op > SplitOpAbort \<or> sSplitID op = 0 \<or> sEpoch op = 0 \<or>
         sParentRangeID op = 0 \<or> sParentGeneration op = 0 then Inl ErrInvalidCommand
      else if sType op = SplitOpBootstrapVersion \<or> sType op = SplitOpReplayVersion then
        if sTimestamp op = 0 \<or> sKind op > KindIntent then Inl ErrInvalidCommand
        else if sType op = SplitOpReplayVersion \<and>
          (sParentIndex op = 0 \<or> sCommandDigest op = replicate sha256Size 0) then Inl ErrInvalidCommand
        else Inr ()
      else if sValue op \<noteq> [] \<or> sKind op \<noteq> 0 \<or>
        sTimestamp op \<noteq> 0 \<and> sType op \<noteq> SplitOpBootstrapBarrier \<and> sType op \<noteq> SplitOpReplayAdvance
        then Inl ErrInvalidCommand
      else Inr ())"

definition splitHeader :: "SplitOperation \<Rightarrow> bytes" where
  "splitHeader op = splitOperationMagic @ [1, sType op, sKind op, 0] @
     le_put 8 (sSplitID op) @ le_put 8 (sEpoch op) @ le_put 8 (sParentRangeID op) @
     le_put 8 (sParentGeneration op) @ le_put 8 (sParentIndex op) @ le_put 8 (sTimestamp op) @
     sCommandDigest op @ sImageDigest op @ le_put 4 (word_of_nat (length (sValue op)) :: u32)"

definition encodeSplitOperation :: "SplitOperation \<Rightarrow> command_error + bytes" where
  "encodeSplitOperation op =
     bindR (validateSplitOperation op) (\<lambda>_. Inr (splitHeader op @ sValue op))"

definition decodeSplitOperation :: "bytes \<Rightarrow> command_error + SplitOperation" where
  "decodeSplitOperation data =
     (if length data < 124 \<or> slice 0 4 data \<noteq> splitOperationMagic \<or> data ! 4 \<noteq> 1 \<or> data ! 7 \<noteq> 0
      then Inl ErrInvalidCommand
      else if unat (le_get (slice 120 124 data) :: u32) \<noteq> length data - 124 then Inl ErrInvalidCommand
      else
        let op = \<lparr>sType = data ! 5, sSplitID = le_get (slice 8 16 data), sEpoch = le_get (slice 16 24 data),
                  sParentRangeID = le_get (slice 24 32 data),
                  sParentGeneration = le_get (slice 32 40 data),
                  sParentIndex = le_get (slice 40 48 data), sTimestamp = le_get (slice 48 56 data),
                  sKind = data ! 6, sCommandDigest = slice 56 88 data, sImageDigest = slice 88 120 data,
                  sValue = drop 124 data\<rparr>
        in bindR (validateSplitOperation op) (\<lambda>_. Inr op))"

text \<open>The bytes \<open>SplitDigest\<close> feeds to the hash; the hash itself is a parameter.\<close>

definition splitDigest :: "(bytes \<Rightarrow> bytes) \<Rightarrow> SplitOperation list \<Rightarrow> bytes" where
  "splitDigest sha256 versions = sha256 (concat (map (\<lambda>v.
     le_put 8 (word_of_nat (length (sValue v)) :: u64) @ le_put 8 (sTimestamp v) @ [sKind v] @ sValue v)
     versions))"

section \<open>Commands\<close>

type_synonym CommandType = byte

definition CommandPut :: CommandType where "CommandPut = 1"
definition CommandDelete :: CommandType where "CommandDelete = 2"
definition CommandTxnBarrier :: CommandType where "CommandTxnBarrier = 3"
definition CommandTxnCreate :: CommandType where "CommandTxnCreate = 4"
definition CommandTxnPrepare :: CommandType where "CommandTxnPrepare = 5"
definition CommandTxnCommit :: CommandType where "CommandTxnCommit = 6"
definition CommandTxnAbort :: CommandType where "CommandTxnAbort = 7"
definition CommandTxnTakeover :: CommandType where "CommandTxnTakeover = 8"
definition CommandTxnResolveCommit :: CommandType where "CommandTxnResolveCommit = 9"
definition CommandTxnResolveAbort :: CommandType where "CommandTxnResolveAbort = 10"
definition CommandSplit :: CommandType where "CommandSplit = 11"

lemmas command_type_defs = CommandPut_def CommandDelete_def CommandTxnBarrier_def CommandTxnCreate_def
  CommandTxnPrepare_def CommandTxnCommit_def CommandTxnAbort_def CommandTxnTakeover_def
  CommandTxnResolveCommit_def CommandTxnResolveAbort_def CommandSplit_def

record Command =
  cType :: CommandType
  cKey :: bytes
  cValue :: bytes
  cTimestamp :: u64

definition commandMagic :: bytes where "commandMagic = [0x52, 0x56, 0x43, 0x4d]"
definition commandHeaderSize :: nat where "commandHeaderSize = 16"
definition mvccCommandHeaderSize :: nat where "mvccCommandHeaderSize = 24"
definition commandVersion :: byte where "commandVersion = 1"
definition mvccCommandVersion :: byte where "mvccCommandVersion = 2"

text \<open>Bounds the codec takes from the log (\<open>raft/types.go\<close>) and the tables (\<open>sstable/format.go\<close>).\<close>

definition MaxCommandBytes :: nat where "MaxCommandBytes = 16777216"
definition MaxUserKeySize :: nat where "MaxUserKeySize = 1048576"
definition MaxValueSize :: nat where "MaxValueSize = 67108864"

lemmas command_consts = commandHeaderSize_def mvccCommandHeaderSize_def commandVersion_def
  mvccCommandVersion_def MaxCommandBytes_def MaxUserKeySize_def MaxValueSize_def

definition headerSizeOf :: "u64 \<Rightarrow> nat" where
  "headerSizeOf ts = (if ts \<noteq> 0 then mvccCommandHeaderSize else commandHeaderSize)"

definition wantOperation :: "CommandType \<Rightarrow> OperationType" where
  "wantOperation t =
     (if t = CommandTxnCreate then OpCreate else if t = CommandTxnPrepare then OpPrepare
      else if t = CommandTxnCommit then OpCommit else if t = CommandTxnAbort then OpAbort
      else if t = CommandTxnTakeover then OpTakeover
      else if t = CommandTxnResolveCommit then OpResolveCommit
      else if t = CommandTxnResolveAbort then OpResolveAbort else 0)"

definition validateCommand :: "Command \<Rightarrow> command_error + unit" where
  "validateCommand c =
     (if cType c < CommandPut \<or> cType c > CommandSplit then Inl ErrInvalidCommand
      else if length (cKey c) > MaxUserKeySize \<or> length (cValue c) > MaxValueSize then Inl ErrCommandTooLarge
      else if length (cKey c) > MaxCommandBytes - headerSizeOf (cTimestamp c) \<or>
        length (cValue c) > MaxCommandBytes - headerSizeOf (cTimestamp c) - length (cKey c)
        then Inl ErrCommandTooLarge
      else if (cType c = CommandDelete \<or> cType c = CommandTxnBarrier) \<and> cValue c \<noteq> []
        then Inl ErrInvalidCommand
      else if cType c \<ge> CommandTxnBarrier \<and> cType c < CommandSplit \<and> cTimestamp c = 0
        then Inl ErrInvalidCommand
      else if cType c > CommandTxnBarrier \<and> cType c < CommandSplit then
        case decodeOperation (cValue c) of
          Inl _ \<Rightarrow> Inl ErrInvalidCommand
        | Inr op \<Rightarrow>
            if oType op \<noteq> wantOperation (cType c) \<or> oCommitTime op \<noteq> cTimestamp c
            then Inl ErrInvalidCommand else Inr ()
      else if cType c = CommandSplit then
        case decodeSplitOperation (cValue c) of
          Inl _ \<Rightarrow> Inl ErrInvalidCommand
        | Inr op \<Rightarrow> if sTimestamp op \<noteq> cTimestamp c then Inl ErrInvalidCommand else Inr ()
      else Inr ())"

definition commandHeader :: "Command \<Rightarrow> bytes" where
  "commandHeader c =
     (let lengths = le_put 4 (word_of_nat (length (cKey c)) :: u32) @
                    le_put 4 (word_of_nat (length (cValue c)) :: u32) in
      if cTimestamp c \<noteq> 0
      then commandMagic @ [mvccCommandVersion, cType c, 0, 0] @ be_put 8 (cTimestamp c) @ lengths
      else commandMagic @ [commandVersion, cType c, 0, 0] @ lengths)"

definition encodeCommand :: "Command \<Rightarrow> command_error + bytes" where
  "encodeCommand c = bindR (validateCommand c) (\<lambda>_. Inr (commandHeader c @ cKey c @ cValue c))"

definition decodeCommandBody :: "bytes \<Rightarrow> nat \<Rightarrow> nat \<Rightarrow> u64 \<Rightarrow> command_error + Command" where
  "decodeCommandBody encoded headerSize lengthOffset ts =
     (let keyLength = unat (le_get (slice lengthOffset (lengthOffset + 4) encoded) :: u32);
          valueLength = unat (le_get (slice (lengthOffset + 4) (lengthOffset + 8) encoded) :: u32) in
      if keyLength > MaxUserKeySize \<or> valueLength > MaxValueSize then Inl ErrCommandTooLarge
      else if keyLength + valueLength > MaxCommandBytes - headerSize then Inl ErrCommandTooLarge
      else if keyLength + valueLength \<noteq> length encoded - headerSize then Inl ErrInvalidCommand
      else
        let keyEnd = headerSize + keyLength;
            c = \<lparr>cType = encoded ! 5, cKey = slice headerSize keyEnd encoded,
                 cValue = drop keyEnd encoded, cTimestamp = ts\<rparr>
        in bindR (validateCommand c) (\<lambda>_. Inr c))"

definition decodeCommand :: "bytes \<Rightarrow> command_error + Command" where
  "decodeCommand encoded =
     (if length encoded < commandHeaderSize \<or> slice 0 4 encoded \<noteq> commandMagic then Inl ErrInvalidCommand
      else if encoded ! 4 \<noteq> commandVersion \<and> encoded ! 4 \<noteq> mvccCommandVersion then Inl ErrUnsupportedCommand
      else if encoded ! 6 \<noteq> 0 \<or> encoded ! 7 \<noteq> 0 then Inl ErrInvalidCommand
      else if encoded ! 4 = mvccCommandVersion then
        if length encoded < mvccCommandHeaderSize then Inl ErrInvalidCommand
        else
          let ts = be_get (slice 8 16 encoded) :: u64 in
          if ts = 0 then Inl ErrInvalidCommand
          else decodeCommandBody encoded mvccCommandHeaderSize 16 ts
      else decodeCommandBody encoded commandHeaderSize 8 0)"

section \<open>Split operations round trip\<close>

text \<open>
  The digests are fixed arrays in the code, and the length field is 32 bits wide: these are the
  ranges of a Go value that the command bound admits.
\<close>

definition splitShape :: "SplitOperation \<Rightarrow> bool" where
  "splitShape op \<longleftrightarrow> length (sCommandDigest op) = sha256Size \<and> length (sImageDigest op) = sha256Size \<and>
     length (sValue op) < 2 ^ 32"

lemma split_operation_roundtrip:
  assumes "splitShape op" and "encodeSplitOperation op = Inr bs"
  shows "decodeSplitOperation bs = Inr op"
proof -
  have valid: "validateSplitOperation op = Inr ()" and bs: "bs = splitHeader op @ sValue op"
    using assms(2) by (auto simp: encodeSplitOperation_def elim!: bindR_okE)
  have shape: "length (sCommandDigest op) = 32" "length (sImageDigest op) = 32" "length (sValue op) < 2 ^ 32"
    using assms(1) by (auto simp: splitShape_def sha256Size_def)
  have fields: "slice 0 4 bs = splitOperationMagic" "bs ! 4 = 1" "bs ! 5 = sType op" "bs ! 6 = sKind op"
    "bs ! 7 = 0" "le_get (slice 8 16 bs) = sSplitID op" "le_get (slice 16 24 bs) = sEpoch op"
    "le_get (slice 24 32 bs) = sParentRangeID op" "le_get (slice 32 40 bs) = sParentGeneration op"
    "le_get (slice 40 48 bs) = sParentIndex op" "le_get (slice 48 56 bs) = sTimestamp op"
    "slice 56 88 bs = sCommandDigest op" "slice 88 120 bs = sImageDigest op" "drop 124 bs = sValue op"
    by (simp_all add: bs splitHeader_def splitOperationMagic_def shape nth_append slice_def)
  have len: "unat (le_get (slice 120 124 bs) :: u32) = length (sValue op)"
    using shape by (simp add: bs splitHeader_def splitOperationMagic_def slice_def)
  have n: "length bs = 124 + length (sValue op)"
    by (simp add: bs splitHeader_def splitOperationMagic_def shape)
  have rebuild: "\<lparr>sType = sType op, sSplitID = sSplitID op, sEpoch = sEpoch op,
    sParentRangeID = sParentRangeID op, sParentGeneration = sParentGeneration op,
    sParentIndex = sParentIndex op, sTimestamp = sTimestamp op, sKind = sKind op,
    sCommandDigest = sCommandDigest op, sImageDigest = sImageDigest op, sValue = sValue op\<rparr> = op" by simp
  show ?thesis
    using valid n by (simp add: decodeSplitOperation_def fields len Let_def rebuild)
qed

lemma split_operation_canonical:
  assumes "decodeSplitOperation bs = Inr op"
  shows "encodeSplitOperation op = Inr bs \<and> splitShape op"
proof -
  have len: "124 \<le> length bs" "unat (le_get (slice 120 124 bs) :: u32) = length bs - 124"
    and magic: "slice 0 4 bs = splitOperationMagic" "bs ! 4 = 1" "bs ! 7 = 0"
    and valid: "validateSplitOperation op = Inr ()"
    and op: "op = \<lparr>sType = bs ! 5, sSplitID = le_get (slice 8 16 bs), sEpoch = le_get (slice 16 24 bs),
                  sParentRangeID = le_get (slice 24 32 bs), sParentGeneration = le_get (slice 32 40 bs),
                  sParentIndex = le_get (slice 40 48 bs), sTimestamp = le_get (slice 48 56 bs),
                  sKind = bs ! 6, sCommandDigest = slice 56 88 bs, sImageDigest = slice 88 120 bs,
                  sValue = drop 124 bs\<rparr>"
    using assms by (auto simp: decodeSplitOperation_def Let_def elim!: bindR_okE split: if_splits)
  have size: "word_of_nat (length bs - 124) = (le_get (slice 120 124 bs) :: u32)"
    unfolding len(2) [symmetric] by simp
  have "length bs - 124 < 2 ^ 32"
    unfolding len(2) [symmetric] by (rule order_less_le_trans [OF unsigned_less]) simp
  then have shape: "splitShape op" using len by (simp add: splitShape_def op sha256Size_def)
  have "bs = slice 0 4 bs @ slice 4 8 bs @ slice 8 16 bs @ slice 16 24 bs @ slice 24 32 bs @
     slice 32 40 bs @ slice 40 48 bs @ slice 48 56 bs @ slice 56 88 bs @ slice 88 120 bs @
     slice 120 124 bs @ drop 124 bs"
    using slice_split [of 0 4 bs] slice_split [of 4 8 bs] slice_split [of 8 16 bs]
      slice_split [of 16 24 bs] slice_split [of 24 32 bs] slice_split [of 32 40 bs]
      slice_split [of 40 48 bs] slice_split [of 48 56 bs] slice_split [of 56 88 bs]
      slice_split [of 88 120 bs] slice_split [of 120 124 bs] by simp
  also have "\<dots> = splitHeader op @ sValue op"
    using len(1) magic by (simp add: splitHeader_def op header8 size)
  finally show ?thesis
    using valid shape by (simp add: encodeSplitOperation_def)
qed

section \<open>Commands round trip\<close>

lemma validateCommand_bounds:
  assumes "validateCommand c = Inr u"
  shows "length (cKey c) \<le> MaxUserKeySize" "length (cValue c) \<le> MaxValueSize"
    "length (cKey c) + length (cValue c) \<le> MaxCommandBytes - headerSizeOf (cTimestamp c)"
  using assms by (auto simp: validateCommand_def split: if_splits)

lemma decodeCommandBody_encode:
  assumes valid: "validateCommand c = Inr ()"
    and bs: "bs = h @ le_put 4 (word_of_nat (length (cKey c)) :: u32) @
               le_put 4 (word_of_nat (length (cValue c)) :: u32) @ cKey c @ cValue c"
    and h: "length h = n" "headerSizeOf (cTimestamp c) = n + 8" "bs ! 5 = cType c"
  shows "decodeCommandBody bs (n + 8) n (cTimestamp c) = Inr c"
proof -
  note bounds = validateCommand_bounds [OF valid]
  have small: "length (cKey c) < 2 ^ 32" "length (cValue c) < 2 ^ 32"
    using bounds by (simp_all add: command_consts)
  have k: "unat (le_get (slice n (n + 4) bs) :: u32) = length (cKey c)"
    and v: "unat (le_get (slice (n + 4) (n + 8) bs) :: u32) = length (cValue c)"
    using small h(1) by (simp_all add: bs slice_def)
  have body: "slice (n + 8) (n + 8 + length (cKey c)) bs = cKey c"
    "drop (n + 8 + length (cKey c)) bs = cValue c"
    using h(1) by (simp_all add: bs slice_def)
  have len: "length bs = n + 8 + (length (cKey c) + length (cValue c))" using h(1) by (simp add: bs)
  have rebuild: "\<lparr>cType = cType c, cKey = cKey c, cValue = cValue c, cTimestamp = cTimestamp c\<rparr> = c" by simp
  show ?thesis
    using bounds valid len by (simp add: decodeCommandBody_def k v body h Let_def rebuild)
qed

lemma command_roundtrip:
  assumes "encodeCommand c = Inr bs"
  shows "decodeCommand bs = Inr c"
proof -
  have valid: "validateCommand c = Inr ()" and bs: "bs = commandHeader c @ cKey c @ cValue c"
    using assms by (auto simp: encodeCommand_def elim!: bindR_okE)
  have magic: "slice 0 4 bs = commandMagic" "bs ! 4 = (if cTimestamp c \<noteq> 0 then 2 else 1)"
    "bs ! 5 = cType c" "bs ! 6 = 0" "bs ! 7 = 0"
    by (simp_all add: bs commandHeader_def Let_def commandMagic_def command_consts slice_def)
  show ?thesis
  proof (cases "cTimestamp c = 0")
    case True
    let ?h = "commandMagic @ [1, cType c, 0, 0]"
    have "decodeCommandBody bs (8 + 8) 8 (cTimestamp c) = Inr c"
      by (rule decodeCommandBody_encode [OF valid, of _ ?h])
        (use True magic(3) in \<open>simp_all add: bs commandHeader_def Let_def headerSizeOf_def command_consts commandMagic_def\<close>)
    moreover have "16 \<le> length bs" using True by (simp add: bs commandHeader_def Let_def commandMagic_def)
    ultimately show ?thesis using True magic by (simp add: decodeCommand_def command_consts)
  next
    case False
    let ?h = "commandMagic @ [2, cType c, 0, 0] @ be_put 8 (cTimestamp c)"
    have "decodeCommandBody bs (16 + 8) 16 (cTimestamp c) = Inr c"
      by (rule decodeCommandBody_encode [OF valid, of _ ?h])
        (use False magic(3) in \<open>simp_all add: bs commandHeader_def Let_def headerSizeOf_def command_consts commandMagic_def\<close>)
    moreover have "24 \<le> length bs" "be_get (slice 8 16 bs) = cTimestamp c"
      using False by (simp_all add: bs commandHeader_def Let_def commandMagic_def slice_def)
    ultimately show ?thesis using False magic by (simp add: decodeCommand_def command_consts)
  qed
qed

lemma decodeCommandBody_sound:
  assumes "decodeCommandBody bs (n + 8) n ts = Inr c" and "n + 8 \<le> length bs"
  shows "validateCommand c = Inr () \<and> cTimestamp c = ts \<and> cType c = bs ! 5 \<and>
    drop n bs = le_put 4 (word_of_nat (length (cKey c)) :: u32) @
      le_put 4 (word_of_nat (length (cValue c)) :: u32) @ cKey c @ cValue c"
proof -
  define kl vl where "kl = (le_get (slice n (n + 4) bs) :: u32)" and "vl = (le_get (slice (n + 4) (n + 8) bs) :: u32)"
  have tot: "unat kl + unat vl = length bs - (n + 8)" and valid: "validateCommand c = Inr ()"
    and c: "c = \<lparr>cType = bs ! 5, cKey = slice (n + 8) (n + 8 + unat kl) bs,
                cValue = drop (n + 8 + unat kl) bs, cTimestamp = ts\<rparr>"
    using assms(1) by (auto simp: decodeCommandBody_def kl_def vl_def Let_def elim!: bindR_okE split: if_splits)
  have "length (cKey c) = unat kl" "length (cValue c) = unat vl"
    using tot assms(2) by (simp_all add: c)
  then have "le_put 4 (word_of_nat (length (cKey c)) :: u32) = slice n (n + 4) bs"
    "le_put 4 (word_of_nat (length (cValue c)) :: u32) = slice (n + 4) (n + 8) bs"
    using assms(2) by (simp_all add: kl_def vl_def)
  moreover have "drop n bs = slice n (n + 4) bs @ slice (n + 4) (n + 8) bs @ cKey c @ cValue c"
    using slice_split [of n "n + 4" bs] slice_split [of "n + 4" "n + 8" bs]
      slice_split [of "n + 8" "n + 8 + unat kl" bs] tot assms(2) by (simp add: c)
  ultimately show ?thesis using valid by (simp add: c)
qed

lemma command_canonical:
  assumes "decodeCommand bs = Inr c"
  shows "encodeCommand c = Inr bs"
proof -
  have magic: "16 \<le> length bs" "slice 0 4 bs = commandMagic" "bs ! 6 = 0" "bs ! 7 = 0"
    using assms by (auto simp: decodeCommand_def command_consts split: if_splits)
  have pre: "bs = slice 0 4 bs @ slice 4 8 bs @ drop 8 bs"
    using slice_split [of 0 4 bs] slice_split [of 4 8 bs] by simp
  show ?thesis
  proof (cases "bs ! 4 = 2")
    case True
    then have len: "24 \<le> length bs" and ts: "be_get (slice 8 16 bs) \<noteq> (0 :: u64)"
      and body: "decodeCommandBody bs (16 + 8) 16 (be_get (slice 8 16 bs)) = Inr c"
      using assms by (auto simp: decodeCommand_def command_consts Let_def split: if_splits)
    from decodeCommandBody_sound [OF body] len
    have b: "validateCommand c = Inr ()" "cTimestamp c = be_get (slice 8 16 bs)" "cType c = bs ! 5"
      "drop 16 bs = le_put 4 (word_of_nat (length (cKey c)) :: u32) @
        le_put 4 (word_of_nat (length (cValue c)) :: u32) @ cKey c @ cValue c" by simp_all
    have "drop 8 bs = slice 8 16 bs @ drop 16 bs" using slice_split [of 8 16 bs] by simp
    also have "slice 8 16 bs = be_put 8 (cTimestamp c)" using len b(2) by simp
    finally have "bs = commandHeader c @ cKey c @ cValue c"
      using pre magic True ts b(2) unfolding commandHeader_def Let_def b(3,4)
      by (simp add: header8 mvccCommandVersion_def)
    then show ?thesis using b(1) by (simp add: encodeCommand_def)
  next
    case False
    then have one: "bs ! 4 = 1" and body: "decodeCommandBody bs (8 + 8) 8 0 = Inr c"
      using assms by (auto simp: decodeCommand_def command_consts Let_def split: if_splits)
    from decodeCommandBody_sound [OF body] magic(1)
    have b: "validateCommand c = Inr ()" "cTimestamp c = 0" "cType c = bs ! 5"
      "drop 8 bs = le_put 4 (word_of_nat (length (cKey c)) :: u32) @
        le_put 4 (word_of_nat (length (cValue c)) :: u32) @ cKey c @ cValue c" by simp_all
    have "bs = commandHeader c @ cKey c @ cValue c"
      using pre magic one b(2) unfolding commandHeader_def Let_def b(3,4)
      by (simp add: header8 commandVersion_def)
    then show ?thesis using b(1) by (simp add: encodeCommand_def)
  qed
qed

text \<open>
  C37. The replicated command codec is exact: bytes decode to a command precisely when they are the
  encoding of it, whichever of the two header versions is used. The log entry of a command is
  therefore a faithful and unique copy of it on every replica.
\<close>

theorem command_codec_exact: "decodeCommand bs = Inr c \<longleftrightarrow> encodeCommand c = Inr bs"
  using command_roundtrip command_canonical by blast

text \<open>
  The split-operation codec is exact on values of the struct's shape: both digests have 32
  bytes and the value fits the 32-bit length field.
\<close>

theorem split_codec_exact:
  "decodeSplitOperation bs = Inr op \<longleftrightarrow> encodeSplitOperation op = Inr bs \<and> splitShape op"
  using split_operation_roundtrip split_operation_canonical by blast

end
