(* ===== verification/Raft_Types.thy ===== *)
theory Raft_Types
  imports Byte_Codec
begin

text \<open>
  \<open>internal/raft/types.go\<close>, \<open>errors.go\<close> and \<open>membership.go\<close>: entries, configurations, persistent
  state and their validators, the configuration codec, and quorums. The main facts are that two
  quorums of one valid configuration share a voter, that this stays true across every
  configuration transition the validator admits, and that configurations encode injectively.
\<close>

section \<open>Data\<close>

type_synonym NodeID = u64

datatype Role = Follower | Candidate | Leader

type_synonym EntryType = byte

definition EntryNoOp :: EntryType where "EntryNoOp = 1"
definition EntryCommand :: EntryType where "EntryCommand = 2"
definition EntryConfig :: EntryType where "EntryConfig = 3"

lemmas entry_type_defs = EntryNoOp_def EntryCommand_def EntryConfig_def

text \<open>
  Errors as values. \<open>Joined\<close> is \<open>errors.Join\<close>, \<open>External\<close> an error of an interface the core
  calls, and \<open>Panicked\<close> a failed runtime check or \<open>invariant.Assert\<close>, with its tag.
\<close>

datatype raft_error =
    ErrInvalidConfig | ErrInvalidMessage | ErrInvalidState | ErrNotLeader | ErrStopped
  | ErrPersistence | ErrApply | ErrCompacted | ErrUnavailable | ErrCorruptStore
  | ErrUnsupportedVersion | ErrResourceLimit | ErrLeadershipTransfer | ErrConfigTransition
  | Joined raft_error raft_error
  | External nat
  | Panicked string

record Entry =
  eIndex :: nat
  eTerm :: nat
  eType :: EntryType
  eCommand :: bytes

record HardState =
  hTerm :: nat
  hVotedFor :: NodeID

record Configuration =
  cfVersion :: u64
  cfOldVoters :: "NodeID list"
  cfNewVoters :: "NodeID list"
  cfLearners :: "NodeID list"

record Snapshot =
  snIndex :: nat
  snTerm :: nat
  snData :: bytes
  snConfig :: Configuration

record PersistentState =
  psHardState :: HardState
  psSnapshot :: Snapshot
  psConfig :: Configuration
  psEntries :: "Entry list"

text \<open>Go's zero values of these structs.\<close>

definition zeroConfiguration :: Configuration where
  "zeroConfiguration = \<lparr>cfVersion = 0, cfOldVoters = [], cfNewVoters = [], cfLearners = []\<rparr>"

definition zeroSnapshot :: Snapshot where
  "zeroSnapshot = \<lparr>snIndex = 0, snTerm = 0, snData = [], snConfig = zeroConfiguration\<rparr>"

definition zeroPersistent :: PersistentState where
  "zeroPersistent = \<lparr>psHardState = \<lparr>hTerm = 0, hVotedFor = 0\<rparr>, psSnapshot = zeroSnapshot,
     psConfig = zeroConfiguration, psEntries = []\<rparr>"

definition MaxCommandBytes :: nat where "MaxCommandBytes = 16777216"

section \<open>Configurations\<close>

definition quorumSize :: "nat \<Rightarrow> nat" where
  "quorumSize nodes = (if nodes = 0 then 0 else nodes div 2 + 1)"

definition normalizeConfiguration :: "Configuration \<Rightarrow> Configuration" where
  "normalizeConfiguration c = c\<lparr>cfOldVoters := sort (cfOldVoters c), cfNewVoters := sort (cfNewVoters c),
     cfLearners := sort (cfLearners c)\<rparr>"

text \<open>
  The loops of \<open>validateConfiguration\<close>: an id must be non-zero, differ from its predecessor, and
  satisfy the extra check of its set. \<open>seen\<close> is the map the first loop fills.
\<close>

fun checkVoters :: "NodeID option \<Rightarrow> NodeID set \<Rightarrow> NodeID list \<Rightarrow> bool" where
  "checkVoters prev seen [] = True"
| "checkVoters prev seen (x # xs) =
     (if x = 0 \<or> prev = Some x then False
      else if x \<in> seen then False
      else checkVoters (Some x) (insert x seen) xs)"

fun checkIDs :: "(NodeID \<Rightarrow> bool) \<Rightarrow> NodeID option \<Rightarrow> NodeID list \<Rightarrow> bool" where
  "checkIDs excluded prev [] = True"
| "checkIDs excluded prev (x # xs) =
     (if x = 0 \<or> prev = Some x \<or> excluded x then False else checkIDs excluded (Some x) xs)"

definition validateConfiguration :: "Configuration \<Rightarrow> raft_error + unit" where
  "validateConfiguration c =
     (if cfVersion c = 0 \<or> cfOldVoters c = [] then Inl ErrInvalidConfig
      else
        let v = normalizeConfiguration c in
        if \<not> checkVoters None {} (cfOldVoters v) then Inl ErrInvalidConfig
        else if \<not> checkIDs (\<lambda>_. False) None (cfNewVoters v) then Inl ErrInvalidConfig
        else if \<not> checkIDs (\<lambda>x. x \<in> set (cfOldVoters v) \<or> x \<in> set (cfNewVoters v)) None (cfLearners v)
          then Inl ErrInvalidConfig
        else Inr ())"

definition joint :: "Configuration \<Rightarrow> bool" where
  "joint c \<longleftrightarrow> cfNewVoters c \<noteq> []"

definition isVoter :: "Configuration \<Rightarrow> NodeID \<Rightarrow> bool" where
  "isVoter c x \<longleftrightarrow> x \<in> set (cfOldVoters c) \<or> x \<in> set (cfNewVoters c)"

definition isLearner :: "Configuration \<Rightarrow> NodeID \<Rightarrow> bool" where
  "isLearner c x \<longleftrightarrow> x \<in> set (cfLearners c)"

definition members :: "Configuration \<Rightarrow> NodeID list" where
  "members c = remdups_adj (sort (cfOldVoters c @ cfNewVoters c @ cfLearners c))"

definition majorityAcknowledged :: "NodeID list \<Rightarrow> (NodeID \<Rightarrow> bool) \<Rightarrow> bool" where
  "majorityAcknowledged voters acknowledged \<longleftrightarrow>
     length (filter acknowledged voters) \<ge> quorumSize (length voters)"

definition quorum :: "Configuration \<Rightarrow> (NodeID \<Rightarrow> bool) \<Rightarrow> bool" where
  "quorum c acknowledged \<longleftrightarrow>
     majorityAcknowledged (cfOldVoters c) acknowledged \<and>
     (\<not> joint c \<or> majorityAcknowledged (cfNewVoters c) acknowledged)"

section \<open>The configuration codec\<close>

definition membershipEncodingVersion :: byte where "membershipEncodingVersion = 1"

definition encodeIDs :: "NodeID list \<Rightarrow> bytes" where
  "encodeIDs xs = concat (map (le_put 8) xs)"

definition encodeConfiguration :: "Configuration \<Rightarrow> raft_error + bytes" where
  "encodeConfiguration c0 =
     (let c = normalizeConfiguration c0 in
      bindR (validateConfiguration c) (\<lambda>_.
        if length (cfOldVoters c) > 255 \<or> length (cfNewVoters c) > 255 \<or> length (cfLearners c) > 255
        then Inl ErrResourceLimit
        else Inr ([membershipEncodingVersion, word_of_nat (length (cfOldVoters c)),
                   word_of_nat (length (cfNewVoters c)), word_of_nat (length (cfLearners c))] @
                  le_put 8 (cfVersion c) @
                  encodeIDs (cfOldVoters c) @ encodeIDs (cfNewVoters c) @ encodeIDs (cfLearners c))))"

fun decodeIDs :: "bytes \<Rightarrow> nat \<Rightarrow> nat \<Rightarrow> NodeID list" where
  "decodeIDs encoded 0 offset = []"
| "decodeIDs encoded (Suc n) offset =
     le_get (slice offset (offset + 8) encoded) # decodeIDs encoded n (offset + 8)"

definition decodeConfiguration :: "bytes \<Rightarrow> raft_error + Configuration" where
  "decodeConfiguration encoded =
     (if length encoded < 12 \<or> encoded ! 0 \<noteq> membershipEncodingVersion then Inl ErrInvalidConfig
      else
        let c0 = unat (encoded ! 1); c1 = unat (encoded ! 2); c2 = unat (encoded ! 3) in
        if length encoded \<noteq> 12 + 8 * (c0 + c1 + c2) then Inl ErrInvalidConfig
        else
          let c = \<lparr>cfVersion = le_get (slice 4 12 encoded),
                   cfOldVoters = decodeIDs encoded c0 12,
                   cfNewVoters = decodeIDs encoded c1 (12 + 8 * c0),
                   cfLearners = decodeIDs encoded c2 (12 + 8 * c0 + 8 * c1)\<rparr>
          in bindR (validateConfiguration c) (\<lambda>_. Inr (normalizeConfiguration c)))"

definition validateEncodedConfiguration :: "bytes \<Rightarrow> raft_error + unit" where
  "validateEncodedConfiguration encoded = bindR (decodeConfiguration encoded) (\<lambda>_. Inr ())"

section \<open>Transitions\<close>

definition validateConfigurationTransition :: "Configuration \<Rightarrow> Configuration \<Rightarrow> raft_error + unit" where
  "validateConfigurationTransition from0 to0 =
     (let from = normalizeConfiguration from0; to = normalizeConfiguration to0 in
      bindR (validateConfiguration from) (\<lambda>_.
      bindR (validateConfiguration to) (\<lambda>_.
        if cfVersion to \<noteq> cfVersion from + 1 then Inl ErrConfigTransition
        else if joint from then
          if joint to \<or> cfOldVoters to \<noteq> cfNewVoters from then Inl ErrConfigTransition else Inr ()
        else if joint to then
          if cfOldVoters to \<noteq> cfOldVoters from then Inl ErrConfigTransition else Inr ()
        else if cfOldVoters to \<noteq> cfOldVoters from then Inl ErrConfigTransition
        else Inr ())))"

section \<open>Persistent state\<close>

definition validEntryType :: "EntryType \<Rightarrow> bool" where
  "validEntryType k \<longleftrightarrow> k = EntryNoOp \<or> k = EntryCommand \<or> k = EntryConfig"

text \<open>The loop of \<open>validatePersistent\<close>; it returns the term of the last entry.\<close>

fun validateEntries :: "nat \<Rightarrow> nat \<Rightarrow> nat \<Rightarrow> nat \<Rightarrow> Entry list \<Rightarrow> raft_error + nat" where
  "validateEntries snapshotIndex hardTerm offset lastTerm [] = Inr lastTerm"
| "validateEntries snapshotIndex hardTerm offset lastTerm (e # es) =
     (if eIndex e \<noteq> add64 (add64 snapshotIndex offset) 1 \<or> eTerm e = 0 \<or> eTerm e < lastTerm \<or>
         eTerm e > hardTerm \<or> \<not> validEntryType (eType e) \<or> length (eCommand e) > MaxCommandBytes
      then Inl ErrInvalidState
      else if eType e = EntryNoOp \<and> eCommand e \<noteq> [] \<or>
         eType e = EntryConfig \<and> validateEncodedConfiguration (eCommand e) \<noteq> Inr ()
      then Inl ErrInvalidState
      else validateEntries snapshotIndex hardTerm (offset + 1) (eTerm e) es)"

definition validatePersistent :: "PersistentState \<Rightarrow> raft_error + unit" where
  "validatePersistent s =
     (let sn = psSnapshot s; h = psHardState s in
      if cfVersion (psConfig s) \<noteq> 0 \<and> validateConfiguration (psConfig s) \<noteq> Inr () then Inl ErrInvalidState
      else if hTerm h = 0 \<and> hVotedFor h \<noteq> 0 then Inl ErrInvalidState
      else if snIndex sn = 0 \<and> snTerm sn \<noteq> 0 \<or> snIndex sn \<noteq> 0 \<and> snTerm sn = 0 then Inl ErrInvalidState
      else if length (snData sn) > MaxCommandBytes then Inl ErrInvalidState
      else if cfVersion (snConfig sn) \<noteq> 0 \<and> validateConfiguration (snConfig sn) \<noteq> Inr () then Inl ErrInvalidState
      else if snIndex sn + length (psEntries s) > maxU64 then Inl ErrInvalidState
      else
        bindR (validateEntries (snIndex sn) (hTerm h) 0 (snTerm sn) (psEntries s)) (\<lambda>lastTerm.
          if hTerm h < lastTerm \<or> hTerm h < snTerm sn then Inl ErrInvalidState else Inr ()))"

section \<open>What the configuration validator accepts\<close>

lemma checkVoters_iff:
  "(\<forall>x. prev = Some x \<longrightarrow> x \<in> seen) \<Longrightarrow>
   checkVoters prev seen xs \<longleftrightarrow> 0 \<notin> set xs \<and> distinct xs \<and> set xs \<inter> seen = {}"
  by (induction xs arbitrary: prev seen) auto

lemma checkIDs_iff:
  "sorted (case prev of None \<Rightarrow> xs | Some p \<Rightarrow> p # xs) \<Longrightarrow>
   checkIDs excluded prev xs \<longleftrightarrow>
     0 \<notin> set xs \<and> distinct (case prev of None \<Rightarrow> xs | Some p \<Rightarrow> p # xs) \<and> (\<forall>x \<in> set xs. \<not> excluded x)"
proof (induction xs arbitrary: prev)
  case Nil
  then show ?case by (cases prev) simp_all
next
  case (Cons x xs)
  have "sorted (x # xs)" using Cons.prems by (cases prev) auto
  then have ih: "checkIDs excluded (Some x) xs \<longleftrightarrow>
      0 \<notin> set xs \<and> distinct (x # xs) \<and> (\<forall>x \<in> set xs. \<not> excluded x)"
    using Cons.IH [of "Some x"] by simp
  show ?case
  proof (cases prev)
    case None
    then show ?thesis using ih by auto
  next
    case (Some p)
    then have "p \<in> set xs \<Longrightarrow> p = x" using Cons.prems by (auto intro: order.antisym)
    then show ?thesis using ih Some by auto
  qed
qed

lemma normalizeConfiguration_simps [simp]:
  "cfVersion (normalizeConfiguration c) = cfVersion c"
  "cfOldVoters (normalizeConfiguration c) = sort (cfOldVoters c)"
  "cfNewVoters (normalizeConfiguration c) = sort (cfNewVoters c)"
  "cfLearners (normalizeConfiguration c) = sort (cfLearners c)"
  by (simp_all add: normalizeConfiguration_def)

lemma sort_Nil_iff [simp]: "sort xs = [] \<longleftrightarrow> xs = ([] :: 'a :: linorder list)"
  using set_sort [of "\<lambda>x. x" xs] set_empty [of "sort xs"] set_empty [of xs] by metis

lemma normalizeConfiguration_idem [simp]:
  "normalizeConfiguration (normalizeConfiguration c) = normalizeConfiguration c"
  by (rule Configuration.equality) (simp_all add: sorted_sort_id)

text \<open>The membership facts the validator establishes, on the lists as given.\<close>

definition wfConfiguration :: "Configuration \<Rightarrow> bool" where
  "wfConfiguration c \<longleftrightarrow> cfVersion c \<noteq> 0 \<and> cfOldVoters c \<noteq> [] \<and>
     distinct (cfOldVoters c) \<and> distinct (cfNewVoters c) \<and> distinct (cfLearners c) \<and>
     0 \<notin> set (cfOldVoters c) \<union> set (cfNewVoters c) \<union> set (cfLearners c) \<and>
     (\<forall>x \<in> set (cfLearners c). \<not> isVoter c x)"

lemma validateConfiguration_iff: "validateConfiguration c = Inr () \<longleftrightarrow> wfConfiguration c"
  by (auto simp: validateConfiguration_def wfConfiguration_def isVoter_def Let_def checkVoters_iff checkIDs_iff)

lemma validateConfiguration_normalize [simp]:
  "validateConfiguration (normalizeConfiguration c) = validateConfiguration c"
  by (simp add: validateConfiguration_def Let_def)

lemma normalize_views [simp]:
  "joint (normalizeConfiguration c) = joint c"
  "isVoter (normalizeConfiguration c) = isVoter c"
  "isLearner (normalizeConfiguration c) = isLearner c"
  by (auto simp: joint_def isVoter_def isLearner_def)

lemma members_set: "set (members c) = set (cfOldVoters c) \<union> set (cfNewVoters c) \<union> set (cfLearners c)"
  by (auto simp: members_def)

lemma distinct_remdups_adj_sorted: "sorted xs \<Longrightarrow> distinct (remdups_adj xs)"
  by (induction xs rule: remdups_adj.induct) (auto dest: order.antisym)

lemma members_distinct: "distinct (members c)"
  by (simp add: members_def distinct_remdups_adj_sorted)

section \<open>Quorums intersect\<close>

lemma majority_intersect:
  assumes "distinct voters" and "voters \<noteq> []"
    and "majorityAcknowledged voters P" and "majorityAcknowledged voters Q"
  obtains v where "v \<in> set voters" and "P v" and "Q v"
proof -
  let ?A = "{v \<in> set voters. P v}" and ?B = "{v \<in> set voters. Q v}"
  have "card ?A = length (filter P voters)" "card ?B = length (filter Q voters)"
    using assms(1) by (simp_all add: distinct_card [symmetric])
  moreover have "quorumSize (length voters) = length voters div 2 + 1"
    using assms(2) by (simp add: quorumSize_def)
  ultimately have "card (set voters) < card ?A + card ?B"
    using assms(3,4) distinct_card [OF assms(1)] by (simp add: majorityAcknowledged_def)
  moreover have "card (?A \<union> ?B) \<le> card (set voters)" by (rule card_mono) auto
  ultimately have "?A \<inter> ?B \<noteq> {}"
    using card_Un_disjoint [of ?A ?B] by auto
  then show thesis using that by auto
qed

lemma filter_sort_length: "length (filter P (sort xs)) = length (filter P xs)"
  by (simp add: filter_sort)

lemma quorum_normalize [simp]: "quorum (normalizeConfiguration c) = quorum c"
  by (rule ext) (simp add: quorum_def majorityAcknowledged_def filter_sort_length)

lemma quorum_intersect:
  assumes "wfConfiguration c" and "quorum c P" and "quorum c Q"
  obtains v where "isVoter c v" and "P v" and "Q v"
proof (rule majority_intersect [of "cfOldVoters c" P Q])
  show "distinct (cfOldVoters c)" "cfOldVoters c \<noteq> []"
    using assms(1) by (auto simp: wfConfiguration_def)
qed (use assms(2,3) in \<open>auto simp: quorum_def isVoter_def intro: that\<close>)

text \<open>
  The interface the vote counting relies on: some predicate on acknowledgement sets, any two of
  which meet in a voter, and which only grows with more acknowledgements.
\<close>

locale quorum_system =
  fixes accepts :: "('v \<Rightarrow> bool) \<Rightarrow> bool" and voter :: "'v \<Rightarrow> bool"
  assumes meet: "accepts P \<Longrightarrow> accepts Q \<Longrightarrow> \<exists>v. voter v \<and> P v \<and> Q v"
    and mono: "accepts P \<Longrightarrow> (\<And>v. P v \<Longrightarrow> Q v) \<Longrightarrow> accepts Q"
begin

lemma nonempty: "accepts P \<Longrightarrow> \<exists>v. voter v \<and> P v"
  using meet [of P P] by blast

text \<open>If every voter casts at most one ballot, at most one candidate gathers a quorum.\<close>

lemma unique_winner:
  assumes "\<And>v a b. ballot v a \<Longrightarrow> ballot v b \<Longrightarrow> a = b"
    and "accepts (\<lambda>v. ballot v x)" and "accepts (\<lambda>v. ballot v y)"
  shows "x = y"
  using meet [OF assms(2,3)] assms(1) by blast

end

lemma majority_mono:
  assumes "majorityAcknowledged voters P" and "\<And>v. P v \<Longrightarrow> Q v"
  shows "majorityAcknowledged voters Q"
proof -
  have "length (filter P voters) \<le> length (filter Q voters)"
    using assms(2) by (induction voters) auto
  then show ?thesis using assms(1) by (simp add: majorityAcknowledged_def)
qed

lemma quorum_mono: "quorum c P \<Longrightarrow> (\<And>v. P v \<Longrightarrow> Q v) \<Longrightarrow> quorum c Q"
  unfolding quorum_def using majority_mono by blast

text \<open>
  The interpretation on the code's own \<open>Configuration.Quorum\<close>. A configuration that the validator
  rejects is excluded by conjoining the validator's verdict.
\<close>

interpretation cq: quorum_system "\<lambda>P. wfConfiguration c \<and> quorum c P" "isVoter c" for c
proof unfold_locales
  fix P Q :: "NodeID \<Rightarrow> bool"
  assume "wfConfiguration c \<and> quorum c P" "wfConfiguration c \<and> quorum c Q"
  then show "\<exists>v. isVoter c v \<and> P v \<and> Q v" by (metis quorum_intersect)
next
  fix P Q :: "NodeID \<Rightarrow> bool"
  assume "wfConfiguration c \<and> quorum c P" and "\<And>v. P v \<Longrightarrow> Q v"
  then show "wfConfiguration c \<and> quorum c Q" using quorum_mono by blast
qed

lemma validateTransition_cases:
  assumes "validateConfigurationTransition a b = Inr ()"
  shows "wfConfiguration a \<and> wfConfiguration b \<and> cfVersion b = cfVersion a + 1 \<and>
    (joint a \<and> \<not> joint b \<and> sort (cfOldVoters b) = sort (cfNewVoters a) \<or>
     \<not> joint a \<and> sort (cfOldVoters b) = sort (cfOldVoters a))"
  using assms
  by (auto simp: validateConfigurationTransition_def Let_def validateConfiguration_iff
      elim!: bindR_okE split: if_splits)

lemma majority_sort: "majorityAcknowledged (sort xs) P \<longleftrightarrow> majorityAcknowledged xs P"
  by (simp add: majorityAcknowledged_def filter_sort_length)

lemma majority_sort_cong:
  "sort xs = sort ys \<Longrightarrow> majorityAcknowledged xs P \<longleftrightarrow> majorityAcknowledged ys P"
  using majority_sort [of xs P] majority_sort [of ys P] by simp

lemma set_sort_cong: "sort xs = sort ys \<Longrightarrow> set xs = set (ys :: NodeID list)"
  using set_sort [of "\<lambda>x. x" xs] set_sort [of "\<lambda>x. x" ys] by simp

lemma transition_meet:
  assumes trans: "validateConfigurationTransition a b = Inr ()"
    and P: "quorum a P" and Q: "quorum b Q"
  shows "\<exists>v. isVoter a v \<and> isVoter b v \<and> P v \<and> Q v"
proof -
  define shared where "shared = (if joint a then cfNewVoters a else cfOldVoters a)"
  from validateTransition_cases [OF trans] have wf: "wfConfiguration a" "wfConfiguration b"
    and old: "sort (cfOldVoters b) = sort shared"
    by (auto simp: shared_def split: if_splits)
  have sets: "set (cfOldVoters b) = set shared" by (rule set_sort_cong [OF old])
  have sub: "set shared \<subseteq> {v. isVoter a v}" by (auto simp: shared_def isVoter_def)
  have "majorityAcknowledged shared P"
    using P by (auto simp: shared_def quorum_def)
  moreover have "majorityAcknowledged shared Q"
    using Q majority_sort_cong [OF old] by (simp add: quorum_def)
  moreover have "distinct shared" "shared \<noteq> []"
    using wf(1) by (auto simp: shared_def wfConfiguration_def joint_def)
  ultimately obtain v where "v \<in> set shared" "P v" "Q v" by (metis majority_intersect)
  then show ?thesis using sub sets by (auto simp: isVoter_def)
qed

text \<open>
  C9. Membership changes are safe step by step: across every transition that
  \<open>validateConfigurationTransition\<close> admits (stable to joint, joint to stable, learner-only), a
  quorum of the old configuration and a quorum of the new one share a node that votes in both.
\<close>

theorem transition_quorums_meet:
  assumes "validateConfigurationTransition a b = Inr ()" and "quorum a P" and "quorum b Q"
  shows "\<exists>v. isVoter a v \<and> isVoter b v \<and> P v \<and> Q v"
  by (rule transition_meet [OF assms])

definition exStable :: Configuration where
  "exStable = \<lparr>cfVersion = 1, cfOldVoters = [1, 2, 3], cfNewVoters = [], cfLearners = [4]\<rparr>"

definition exJoint :: Configuration where
  "exJoint = \<lparr>cfVersion = 2, cfOldVoters = [3, 1, 2], cfNewVoters = [2, 3, 4], cfLearners = []\<rparr>"

theorem transition_quorums_meet_witness:
  "\<exists>v. isVoter exStable v \<and> isVoter exJoint v \<and> v \<in> {1, 2} \<and> v \<in> {2, 3}"
proof (rule transition_quorums_meet)
  show "validateConfigurationTransition exStable exJoint = Inr ()" by code_simp
  show "quorum exStable (\<lambda>v. v \<in> {1, 2})" by code_simp
  show "quorum exJoint (\<lambda>v. v \<in> {2, 3})" by code_simp
qed

section \<open>The configuration codec is injective\<close>

lemma length_encodeIDs [simp]: "length (encodeIDs xs) = 8 * length xs"
  by (induction xs) (simp_all add: encodeIDs_def)

lemma decodeIDs_encode:
  "drop offset encoded = encodeIDs xs @ rest \<Longrightarrow> decodeIDs encoded (length xs) offset = xs"
proof (induction xs arbitrary: offset)
  case Nil
  then show ?case by simp
next
  case (Cons x xs)
  have d: "drop offset encoded = le_put 8 x @ encodeIDs xs @ rest"
    using Cons.prems by (simp add: encodeIDs_def)
  then have "slice offset (offset + 8) encoded = le_put 8 x" by (simp add: slice_def)
  moreover have "drop (offset + 8) encoded = encodeIDs xs @ rest"
    using drop_offset_step [OF d] by simp
  ultimately show ?case using Cons.IH by simp
qed

lemma unat_byte_count: "n \<le> 255 \<Longrightarrow> unat (word_of_nat n :: byte) = n"
  by (simp add: unsigned_of_nat take_bit_eq_mod)

text \<open>
  A configuration that encodes is read back as itself, in normal form: the codec loses nothing
  but the order in which the members were listed.
\<close>

theorem configuration_roundtrip:
  assumes "encodeConfiguration c = Inr bs"
  shows "decodeConfiguration bs = Inr (normalizeConfiguration c)"
proof -
  let ?o = "sort (cfOldVoters c)" and ?n = "sort (cfNewVoters c)" and ?l = "sort (cfLearners c)"
  have valid: "validateConfiguration c = Inr ()"
    and small: "length ?o \<le> 255" "length ?n \<le> 255" "length ?l \<le> 255"
    and bs: "bs = [membershipEncodingVersion, word_of_nat (length ?o), word_of_nat (length ?n),
       word_of_nat (length ?l)] @ le_put 8 (cfVersion c) @ encodeIDs ?o @ encodeIDs ?n @ encodeIDs ?l"
    using assms by (auto simp: encodeConfiguration_def Let_def elim!: bindR_okE split: if_splits)
  have head: "bs ! 0 = membershipEncodingVersion" "unat (bs ! 1) = length ?o" "unat (bs ! 2) = length ?n"
    "unat (bs ! 3) = length ?l" "le_get (slice 4 12 bs) = cfVersion c"
    using small by (simp_all add: bs unat_byte_count slice_def del: length_sort)
  have len: "length bs = 12 + 8 * (length ?o + length ?n + length ?l)" by (simp add: bs)
  have d0: "drop 12 bs = encodeIDs ?o @ encodeIDs ?n @ encodeIDs ?l @ []" by (simp add: bs)
  have d1: "drop (12 + 8 * length ?o) bs = encodeIDs ?n @ encodeIDs ?l @ []"
    using drop_offset_step [OF d0] by simp
  have d2: "drop (12 + 8 * length ?o + 8 * length ?n) bs = encodeIDs ?l @ []"
    using drop_offset_step [OF d1] by simp
  note ids = decodeIDs_encode [OF d0] decodeIDs_encode [OF d1] decodeIDs_encode [OF d2]
  have norm: "\<lparr>cfVersion = cfVersion c, cfOldVoters = ?o, cfNewVoters = ?n, cfLearners = ?l\<rparr> =
     normalizeConfiguration c" by (rule Configuration.equality) simp_all
  have guards: "\<not> length bs < 12" "length bs = 12 + 8 * (unat (bs ! 1) + unat (bs ! 2) + unat (bs ! 3))"
    using len head by simp_all
  show ?thesis
    using guards valid head(1)
    unfolding decodeConfiguration_def Let_def head(2-5) ids norm by simp
qed

lemma configuration_roundtrip_example:
  "decodeConfiguration (projr (encodeConfiguration exJoint)) = Inr (normalizeConfiguration exJoint)"
  by (rule configuration_roundtrip) code_simp

end
