(* ===== verification/Range_Machine.thy ===== *)
theory Range_Machine
  imports Range_Command Write_Batch Timestamps Raft_Types
begin

text \<open>
  \<open>internal/replicatedrange/state_machine.go\<close>: the state machine a replicated range runs under
  its Raft group. It keeps the transaction records this range is home of, the prepare records of
  transactions it participates in, and the state of a split, and hands writes to the storage
  engine. The engine is the \<open>EngineOps\<close> argument of every operation, one field per method of
  \<open>*engine.Engine\<close> that the code calls; SHA-256 is an argument as well. Observation hooks are
  dropped. The lifecycle byte keeps the value zero of machines that were constructed directly.
\<close>

section \<open>State\<close>

datatype engine_error =
    EngClosed | EngNotFound | EngInvalidOptions | EngInvalidRange | EngCorruption | EngDuplicateEntry
  | EngUnresolvedIntent | EngWrongMode | EngAlreadyApplied | EngConflictingApply | EngApplyOrder
  | EngOther string

datatype machine_error =
    MCommand command_error | MTxn txn_error | MEngine engine_error | ErrKeyOutOfRange
  | ErrMVCCRegression | ErrRangeNotServing | ErrSplitFenced | ErrSplitReplayOrder

record MVCCEntry =
  meKey :: bytes
  meValue :: bytes
  meTimestamp :: u64
  meKind :: ValueKind

record 'eng EngineOps =
  opDurableApplied :: "'eng \<Rightarrow> engine_error + u64"
  opApplyCommitted :: "'eng \<Rightarrow> u64 \<Rightarrow> u64 \<Rightarrow> bytes \<Rightarrow> Mutation \<Rightarrow> ('eng, engine_error, unit) outcome"
  opApplyMVCC :: "'eng \<Rightarrow> u64 \<Rightarrow> u64 \<Rightarrow> u64 \<Rightarrow> bytes \<Rightarrow> Mutation \<Rightarrow> ('eng, engine_error, unit) outcome"
  opApplyPrepared :: "'eng \<Rightarrow> u64 \<Rightarrow> u64 \<Rightarrow> u64 \<Rightarrow> bytes \<Rightarrow> Mutation list \<Rightarrow> ('eng, engine_error, unit) outcome"
  opResolve :: "'eng \<Rightarrow> u64 \<Rightarrow> u64 \<Rightarrow> u64 \<Rightarrow> bytes \<Rightarrow> Mutation list \<Rightarrow> ('eng, engine_error, unit) outcome"
  opAdvance :: "'eng \<Rightarrow> u64 \<Rightarrow> ('eng, engine_error, unit) outcome"
  opGet :: "'eng \<Rightarrow> bytes \<Rightarrow> u64 \<Rightarrow> engine_error + MVCCEntry"

type_synonym Lifecycle = byte

definition LifecycleActive :: Lifecycle where "LifecycleActive = 1"
definition LifecycleShadow :: Lifecycle where "LifecycleShadow = 2"
definition LifecycleRetired :: Lifecycle where "LifecycleRetired = 3"
definition LifecycleLearner :: Lifecycle where "LifecycleLearner = 4"

lemmas lifecycle_defs = LifecycleActive_def LifecycleShadow_def LifecycleRetired_def LifecycleLearner_def

record 'eng stateMachine =
  smEngine :: 'eng
  smContainsKey :: "(bytes \<Rightarrow> bool) option"
  smMvcc :: bool
  smMaxApplied :: Timestamp
  smSafeRead :: Timestamp
  smClock :: HLC
  smRangeID :: u64
  smGeneration :: u64
  smRecords :: "TxnID \<rightharpoonup> Record"
  smParticipants :: "TxnID \<rightharpoonup> ParticipantRecord"
  smLifecycle :: Lifecycle
  smSplitID :: u64
  smSplitEpoch :: u64
  smTxnFence :: bool
  smUserFence :: bool
  smBootstrapIndex :: u64
  smBootstrapSplitID :: u64
  smBootstrapParentID :: u64
  smBootstrapParentGen :: u64
  smBootstrapImage :: bytes
  smFenceIndex :: u64
  smParentReplayThrough :: u64
  smProvenance :: "u64 \<rightharpoonup> bytes"
  smBootstrapSeen :: "bytes set"

type_synonym ('eng, 'a) mstep = "('eng stateMachine, machine_error, 'a) outcome"

definition observe :: "Timestamp \<Rightarrow> 'eng stateMachine \<Rightarrow> 'eng stateMachine" where
  "observe t m = m\<lparr>smClock := clockObserve t (smClock m)\<rparr>"

definition containsKey :: "'eng stateMachine \<Rightarrow> bytes \<Rightarrow> bool" where
  "containsKey m k = (case smContainsKey m of None \<Rightarrow> True | Some f \<Rightarrow> f k)"

text \<open>A call of an engine method that changes the engine; \<open>ErrAlreadyApplied\<close> counts as success where the code says so.\<close>

definition onEngine :: "('eng, engine_error, unit) outcome \<Rightarrow> 'eng stateMachine \<Rightarrow> ('eng, unit) mstep" where
  "onEngine r m = (m\<lparr>smEngine := fst r\<rparr>, case snd r of Inl e \<Rightarrow> Inl (MEngine e) | Inr _ \<Rightarrow> Inr ())"

definition orApplied :: "('eng, unit) mstep \<Rightarrow> ('eng, unit) mstep" where
  "orApplied r = (fst r, if snd r = Inl (MEngine EngAlreadyApplied) then Inr () else snd r)"

definition advanceMetadata :: "'eng EngineOps \<Rightarrow> u64 \<Rightarrow> bool \<Rightarrow> 'eng stateMachine \<Rightarrow> ('eng, unit) mstep" where
  "advanceMetadata ops index alreadyDurable m =
     (if alreadyDurable then (m, Inr ()) else onEngine (opAdvance ops (smEngine m) index) m)"

section \<open>Transactions\<close>

definition applyCreate :: "Operation \<Rightarrow> 'eng stateMachine \<Rightarrow> ('eng, unit) mstep" where
  "applyCreate op m =
     (if rangeID (oHome op) \<noteq> smRangeID m \<or> generation (oHome op) > smGeneration m then (m, Inl ErrKeyOutOfRange)
      else
        let want = \<lparr>rID = oID op, rStatus = StatusPending, rReadTime = oReadTime op, rCommitTime = oCommitTime op,
                    rEpoch = oEpoch op, rHome = oHome op, rParticipants = oParticipants op\<rparr> in
        case smRecords m (oID op) of
          Some existing \<Rightarrow> if equalRecord existing want then (m, Inr ()) else (m, Inl (MTxn ErrProtocolConflict))
        | None \<Rightarrow> (m\<lparr>smRecords := (smRecords m)(oID op \<mapsto> want)\<rparr>, Inr ()))"

definition applyDecision :: "Operation \<Rightarrow> Status \<Rightarrow> 'eng stateMachine \<Rightarrow> ('eng, unit) mstep" where
  "applyDecision op status m =
     (case smRecords m (oID op) of
        None \<Rightarrow> (m, Inl (MTxn ErrProtocolConflict))
      | Some rec \<Rightarrow>
          if rHome rec \<noteq> oHome op \<or> rReadTime rec \<noteq> oReadTime op \<or> rCommitTime rec \<noteq> oCommitTime op
          then (m, Inl (MTxn ErrProtocolConflict))
          else if oEpoch op < rEpoch rec then (m, Inr ())
          else if oEpoch op \<noteq> rEpoch rec then (m, Inl (MTxn ErrProtocolConflict))
          else if rStatus rec = status then (m, Inr ())
          else if statusTerminal (rStatus rec) then (m, Inl (MTxn ErrProtocolConflict))
          else (m\<lparr>smRecords := (smRecords m)(oID op \<mapsto> rec\<lparr>rStatus := status\<rparr>)\<rparr>, Inr ()))"

definition applyTakeover :: "Operation \<Rightarrow> 'eng stateMachine \<Rightarrow> ('eng, unit) mstep" where
  "applyTakeover op m =
     (case smRecords m (oID op) of
        None \<Rightarrow> (m, Inl (MTxn ErrProtocolConflict))
      | Some rec \<Rightarrow>
          if rStatus rec \<noteq> StatusPending \<or> rHome rec \<noteq> oHome op \<or> rReadTime rec \<noteq> oReadTime op \<or> rCommitTime rec \<noteq> oCommitTime op
          then (m, Inl (MTxn ErrProtocolConflict))
          else if oEpoch op = rEpoch rec then (m, Inr ())
          else if oEpoch op \<noteq> rEpoch rec + 1 then (m, Inr ())
          else (m\<lparr>smRecords := (smRecords m)(oID op \<mapsto> rec\<lparr>rEpoch := oEpoch op\<rparr>)\<rparr>, Inr ()))"

text \<open>The conflict scan of a prepare: a newer committed version or an intent on a written key.\<close>

fun prepareConflict :: "'eng EngineOps \<Rightarrow> 'eng \<Rightarrow> u64 \<Rightarrow> Write list \<Rightarrow> engine_error + bool" where
  "prepareConflict ops eng readTime [] = Inr False"
| "prepareConflict ops eng readTime (w # ws) =
     (case opGet ops eng (wKey w) (NOT 0) of
        Inl e \<Rightarrow> if e \<noteq> EngNotFound then Inl e else prepareConflict ops eng readTime ws
      | Inr selected \<Rightarrow>
          if meKind selected = KindIntent \<or> meTimestamp selected > readTime then Inr True
          else prepareConflict ops eng readTime ws)"

fun intentMutations :: "Operation \<Rightarrow> Write list \<Rightarrow> txn_error + Mutation list" where
  "intentMutations op [] = Inr []"
| "intentMutations op (w # ws) =
     bindR (encodeIntent \<lparr>iID = oID op, iReadTime = oReadTime op, iCommitTime = oCommitTime op, iEpoch = oEpoch op,
                          iHome = oHome op, iDelete = wDelete w, iValue = wValue w\<rparr>) (\<lambda>value.
     bindR (intentMutations op ws) (\<lambda>rest.
       Inr (\<lparr>mKey = wKey w, mValue = value, mKind = KindIntent\<rparr> # rest)))"

definition setParticipant :: "TxnID \<Rightarrow> ParticipantRecord \<Rightarrow> 'eng stateMachine \<Rightarrow> 'eng stateMachine" where
  "setParticipant i p m = m\<lparr>smParticipants := (smParticipants m)(i \<mapsto> p)\<rparr>"

definition preparedRecord :: "Operation \<Rightarrow> ParticipantRecord" where
  "preparedRecord op = \<lparr>pID = oID op, pStatus = ParticipantPrepared, pReadTime = oReadTime op, pCommitTime = oCommitTime op,
     pEpoch = oEpoch op, pHome = oHome op, pWrites = oWrites op, pReason = []\<rparr>"

definition conflictReason :: string where
  "conflictReason = ''newer committed write or foreign intent''"

text \<open>The first prepare of a transaction on this range.\<close>

definition firstPrepare :: "'eng EngineOps \<Rightarrow> u64 \<Rightarrow> u64 \<Rightarrow> bytes \<Rightarrow> Operation \<Rightarrow> bool \<Rightarrow> 'eng stateMachine \<Rightarrow> ('eng, unit) mstep" where
  "firstPrepare ops index trm command op alreadyDurable m =
     (if alreadyDurable then (setParticipant (oID op) (preparedRecord op) m, Inr ())
      else
        case prepareConflict ops (smEngine m) (oReadTime op) (oWrites op) of
          Inl e \<Rightarrow> (m, Inl (MEngine e))
        | Inr True \<Rightarrow>
            advanceMetadata ops index False (setParticipant (oID op)
              ((preparedRecord op)\<lparr>pStatus := ParticipantRejected, pReason := conflictReason\<rparr>) m)
        | Inr False \<Rightarrow>
            (case intentMutations op (oWrites op) of
               Inl e \<Rightarrow> (m, Inl (MTxn e))
             | Inr ms \<Rightarrow>
                 andThen (orApplied (onEngine (opApplyPrepared ops (smEngine m) index trm (oCommitTime op) command ms) m)) (\<lambda>m _.
                   (setParticipant (oID op) (preparedRecord op) (m\<lparr>smMaxApplied := max (smMaxApplied m) (oCommitTime op)\<rparr>), Inr ()))))"

definition applyPrepare :: "'eng EngineOps \<Rightarrow> u64 \<Rightarrow> u64 \<Rightarrow> bytes \<Rightarrow> Operation \<Rightarrow> bool \<Rightarrow> 'eng stateMachine \<Rightarrow> ('eng, unit) mstep" where
  "applyPrepare ops index trm command op alreadyDurable m =
     (if \<not> list_all (\<lambda>w. containsKey m (wKey w)) (oWrites op) then (m, Inl ErrKeyOutOfRange)
      else case smParticipants m (oID op) of
        Some p \<Rightarrow>
          if (pStatus p = ParticipantCommitted \<or> pStatus p = ParticipantAborted) \<and> oEpoch op \<le> pEpoch p
          then advanceMetadata ops index alreadyDurable m
          else if pReadTime p = oReadTime op \<and> pCommitTime p = oCommitTime op \<and> pEpoch p = oEpoch op \<and>
            pHome p = oHome op \<and> equalWrites (pWrites p) (oWrites op)
          then advanceMetadata ops index alreadyDurable m
          else (m, Inl (MTxn ErrProtocolConflict))
      | None \<Rightarrow> firstPrepare ops index trm command op alreadyDurable m)"

definition resolutionMutation :: "ParticipantStatus \<Rightarrow> Write \<Rightarrow> Mutation" where
  "resolutionMutation status w =
     (if status = ParticipantCommitted then
        if wDelete w then \<lparr>mKey = wKey w, mValue = [], mKind = KindDelete\<rparr>
        else \<lparr>mKey = wKey w, mValue = wValue w, mKind = KindValue\<rparr>
      else \<lparr>mKey = wKey w, mValue = [], mKind = KindTxnAbort\<rparr>)"

definition applyResolution :: "'eng EngineOps \<Rightarrow> u64 \<Rightarrow> u64 \<Rightarrow> bytes \<Rightarrow> Operation \<Rightarrow> ParticipantStatus \<Rightarrow> bool \<Rightarrow> 'eng stateMachine \<Rightarrow> ('eng, unit) mstep" where
  "applyResolution ops index trm command op status alreadyDurable m =
     (case smParticipants m (oID op) of
        None \<Rightarrow>
          advanceMetadata ops index alreadyDurable (setParticipant (oID op)
            \<lparr>pID = oID op, pStatus = status, pReadTime = oReadTime op, pCommitTime = oCommitTime op, pEpoch = oEpoch op,
             pHome = oHome op, pWrites = [], pReason = []\<rparr> m)
      | Some p \<Rightarrow>
          let resolved = p\<lparr>pStatus := status, pEpoch := oEpoch op\<rparr> in
          if pReadTime p \<noteq> oReadTime op \<or> pCommitTime p \<noteq> oCommitTime op \<or> pHome p \<noteq> oHome op
          then (m, Inl (MTxn ErrProtocolConflict))
          else if oEpoch op < pEpoch p then advanceMetadata ops index alreadyDurable m
          else if pStatus p = status then advanceMetadata ops index alreadyDurable m
          else if pStatus p = ParticipantCommitted \<or> pStatus p = ParticipantAborted
          then (m, Inl (MTxn ErrProtocolConflict))
          else if pStatus p = ParticipantRejected
          then advanceMetadata ops index alreadyDurable (setParticipant (oID op) resolved m)
          else
            andThen
              (if alreadyDurable then (m, Inr ())
               else orApplied (onEngine (opResolve ops (smEngine m) index trm (pCommitTime p) command
                      (map (resolutionMutation status) (pWrites p))) m))
              (\<lambda>m _. (setParticipant (oID op) resolved m, Inr ())))"

definition applyTransaction :: "'eng EngineOps \<Rightarrow> u64 \<Rightarrow> u64 \<Rightarrow> bytes \<Rightarrow> Command \<Rightarrow> bool \<Rightarrow> 'eng stateMachine \<Rightarrow> ('eng, unit) mstep" where
  "applyTransaction ops index trm raw command alreadyDurable m0 =
     (let m = observe (cTimestamp command) m0; t = cType command in
      if t = CommandTxnBarrier
      then advanceMetadata ops index alreadyDurable (m\<lparr>smSafeRead := max (smSafeRead m) (cTimestamp command)\<rparr>)
      else case decodeOperation (cValue command) of
        Inl e \<Rightarrow> (m, Inl (MTxn e))
      | Inr op \<Rightarrow>
          andThen
            (if t = CommandTxnCreate then applyCreate op m
             else if t = CommandTxnPrepare then applyPrepare ops index trm raw op alreadyDurable m
             else if t = CommandTxnCommit then applyDecision op StatusCommitted m
             else if t = CommandTxnAbort then applyDecision op StatusAborted m
             else if t = CommandTxnTakeover then applyTakeover op m
             else if t = CommandTxnResolveCommit
               then applyResolution ops index trm raw op ParticipantCommitted alreadyDurable m
             else if t = CommandTxnResolveAbort
               then applyResolution ops index trm raw op ParticipantAborted alreadyDurable m
             else (m, Inl (MCommand ErrInvalidCommand)))
            (\<lambda>m _.
              if t = CommandTxnPrepare \<or> t = CommandTxnResolveCommit \<or> t = CommandTxnResolveAbort then (m, Inr ())
              else advanceMetadata ops index alreadyDurable m))"

section \<open>Splits\<close>

definition zeroDigest :: bytes where "zeroDigest = replicate sha256Size 0"

definition splitBegin :: "SplitOperation \<Rightarrow> 'eng stateMachine \<Rightarrow> ('eng, unit) mstep" where
  "splitBegin op m =
     (if smLifecycle m \<noteq> LifecycleActive \<or> smUserFence m \<and> smSplitID m \<noteq> sSplitID op then (m, Inl ErrRangeNotServing)
      else (m\<lparr>smSplitID := sSplitID op, smTxnFence := True\<rparr>, Inr ()))"

definition shadowBarrier :: "SplitOperation \<Rightarrow> 'eng stateMachine \<Rightarrow> ('eng, unit) mstep" where
  "shadowBarrier op m0 =
     andThen
       (if smBootstrapSplitID m0 = 0 then
          if sParentIndex op = 0 \<or> sTimestamp op = 0 \<or> sImageDigest op = zeroDigest
          then (m0, Inl (MCommand ErrInvalidCommand))
          else (m0\<lparr>smBootstrapSplitID := sSplitID op, smBootstrapParentID := sParentRangeID op,
                  smBootstrapParentGen := sParentGeneration op, smBootstrapImage := sImageDigest op\<rparr>, Inr ())
        else if smBootstrapIndex m0 \<noteq> sParentIndex op \<or>
          sImageDigest op \<noteq> zeroDigest \<and> smBootstrapImage m0 \<noteq> sImageDigest op
          then (m0, Inl ErrSplitFenced)
        else (m0, Inr ()))
       (\<lambda>m _. (m\<lparr>smSplitID := sSplitID op, smBootstrapIndex := sParentIndex op,
                 smParentReplayThrough := max (smParentReplayThrough m) (sParentIndex op),
                 smSafeRead := max (smSafeRead m) (sTimestamp op)\<rparr>, Inr ()))"

definition splitBarrier :: "u64 \<Rightarrow> SplitOperation \<Rightarrow> 'eng stateMachine \<Rightarrow> ('eng, unit) mstep" where
  "splitBarrier index op m0 =
     andThen
       (if smLifecycle m0 = LifecycleActive then
          if \<not> smTxnFence m0 then (m0, Inl ErrSplitFenced) else (m0\<lparr>smBootstrapIndex := index\<rparr>, Inr ())
        else if smLifecycle m0 = LifecycleShadow then shadowBarrier op m0
        else (m0, Inl ErrRangeNotServing))
       (\<lambda>m _. (observe (sTimestamp op) m, Inr ()))"

definition installVersion :: "'eng EngineOps \<Rightarrow> u64 \<Rightarrow> u64 \<Rightarrow> bytes \<Rightarrow> bytes \<Rightarrow> SplitOperation \<Rightarrow> bool \<Rightarrow> 'eng stateMachine \<Rightarrow> ('eng, unit) mstep" where
  "installVersion ops index trm raw key op alreadyDurable m0 =
     (if alreadyDurable then (m0, Inr ())
      else andThen
        (orApplied (onEngine (opApplyPrepared ops (smEngine m0) index trm (sTimestamp op) raw
           [\<lparr>mKey = key, mValue = sValue op, mKind = sKind op\<rparr>]) m0))
        (\<lambda>m _. (observe (sTimestamp op) (m\<lparr>smMaxApplied := max (smMaxApplied m) (sTimestamp op)\<rparr>), Inr ())))"

definition splitVersion :: "'eng EngineOps \<Rightarrow> (bytes \<Rightarrow> bytes) \<Rightarrow> u64 \<Rightarrow> u64 \<Rightarrow> bytes \<Rightarrow> bytes \<Rightarrow> SplitOperation \<Rightarrow> bool \<Rightarrow> 'eng stateMachine \<Rightarrow> ('eng, unit) mstep" where
  "splitVersion ops sha256 index trm raw key op alreadyDurable m =
     (if smLifecycle m \<noteq> LifecycleShadow \<or> sKind op = KindIntent then (m, Inl ErrSplitFenced)
      else if sType op = SplitOpBootstrapVersion then
        if sImageDigest op \<noteq> smBootstrapImage m then (m, Inl ErrSplitFenced)
        else if sha256 raw \<in> smBootstrapSeen m then advanceMetadata ops index alreadyDurable m
        else installVersion ops index trm raw key op alreadyDurable
               (m\<lparr>smBootstrapSeen := insert (sha256 raw) (smBootstrapSeen m)\<rparr>)
      else if sParentIndex op \<noteq> smParentReplayThrough m + 1 then
        if smProvenance m (sParentIndex op) = Some (sCommandDigest op)
        then advanceMetadata ops index alreadyDurable m
        else (m, Inl ErrSplitReplayOrder)
      else installVersion ops index trm raw key op alreadyDurable
             (m\<lparr>smProvenance := (smProvenance m)(sParentIndex op \<mapsto> sCommandDigest op),
               smParentReplayThrough := sParentIndex op\<rparr>))"

definition replayAdvance :: "SplitOperation \<Rightarrow> 'eng stateMachine \<Rightarrow> ('eng, unit) mstep" where
  "replayAdvance op m =
     (if smLifecycle m \<noteq> LifecycleShadow \<or> sParentIndex op \<noteq> smParentReplayThrough m + 1 then (m, Inl ErrSplitReplayOrder)
      else (observe (sTimestamp op) (m\<lparr>smParentReplayThrough := sParentIndex op,
              smSafeRead := max (smSafeRead m) (sTimestamp op)\<rparr>), Inr ()))"

definition finalFence :: "u64 \<Rightarrow> 'eng stateMachine \<Rightarrow> ('eng, unit) mstep" where
  "finalFence index m =
     (if smLifecycle m \<noteq> LifecycleActive \<or> \<not> smTxnFence m then (m, Inl ErrSplitFenced)
      else (m\<lparr>smUserFence := True, smFenceIndex := index\<rparr>, Inr ()))"

definition splitActivate :: "'eng stateMachine \<Rightarrow> ('eng, unit) mstep" where
  "splitActivate m =
     (if smLifecycle m = LifecycleActive \<and> smSplitID m = 0 then (m, Inr ())
      else if smLifecycle m \<noteq> LifecycleShadow \<or> smParentReplayThrough m = 0 then (m, Inl ErrSplitFenced)
      else (m\<lparr>smLifecycle := LifecycleActive, smSplitID := 0, smSplitEpoch := 0\<rparr>, Inr ()))"

definition splitRetire :: "'eng stateMachine \<Rightarrow> ('eng, unit) mstep" where
  "splitRetire m =
     (if smLifecycle m = LifecycleRetired then (m, Inr ())
      else if smLifecycle m \<noteq> LifecycleActive \<or> \<not> smUserFence m then (m, Inl ErrSplitFenced)
      else (m\<lparr>smLifecycle := LifecycleRetired\<rparr>, Inr ()))"

definition splitAbort :: "'eng stateMachine \<Rightarrow> ('eng, unit) mstep" where
  "splitAbort m =
     (if smUserFence m \<or> smLifecycle m \<noteq> LifecycleActive then (m, Inl ErrSplitFenced)
      else (m\<lparr>smSplitID := 0, smSplitEpoch := 0, smBootstrapIndex := 0, smTxnFence := False\<rparr>, Inr ()))"

definition applySplitOp :: "'eng EngineOps \<Rightarrow> (bytes \<Rightarrow> bytes) \<Rightarrow> u64 \<Rightarrow> u64 \<Rightarrow> bytes \<Rightarrow> bytes \<Rightarrow> SplitOperation \<Rightarrow> bool \<Rightarrow> 'eng stateMachine \<Rightarrow> ('eng, unit) mstep" where
  "applySplitOp ops sha256 index trm raw key op alreadyDurable m =
     (let t = sType op in
      if t = SplitOpBootstrapVersion \<or> t = SplitOpReplayVersion
      then splitVersion ops sha256 index trm raw key op alreadyDurable m
      else
        andThen
          (if t = SplitOpBegin then splitBegin op m
           else if t = SplitOpBootstrapBarrier then splitBarrier index op m
           else if t = SplitOpReplayAdvance then replayAdvance op m
           else if t = SplitOpFinalFence then finalFence index m
           else if t = SplitOpActivate then splitActivate m
           else if t = SplitOpRetire then splitRetire m
           else if t = SplitOpAbort then splitAbort m
           else (m, Inl (MCommand ErrInvalidCommand)))
          (\<lambda>m _. advanceMetadata ops index alreadyDurable m))"

definition applySplit :: "'eng EngineOps \<Rightarrow> (bytes \<Rightarrow> bytes) \<Rightarrow> u64 \<Rightarrow> u64 \<Rightarrow> bytes \<Rightarrow> Command \<Rightarrow> bool \<Rightarrow> 'eng stateMachine \<Rightarrow> ('eng, unit) mstep" where
  "applySplit ops sha256 index trm raw command alreadyDurable m =
     (case decodeSplitOperation (cValue command) of
        Inl e \<Rightarrow> (m, Inl (MCommand e))
      | Inr op \<Rightarrow>
          if smSplitID m \<noteq> 0 \<and> (smSplitID m \<noteq> sSplitID op \<or> sEpoch op < smSplitEpoch m) then (m, Inl ErrSplitFenced)
          else if smLifecycle m = LifecycleShadow \<and> smBootstrapSplitID m \<noteq> 0 \<and>
            (smBootstrapSplitID m \<noteq> sSplitID op \<or> smBootstrapParentID m \<noteq> sParentRangeID op \<or>
             smBootstrapParentGen m \<noteq> sParentGeneration op) then (m, Inl ErrSplitFenced)
          else applySplitOp ops sha256 index trm raw (cKey command) op alreadyDurable
                 (if sEpoch op > smSplitEpoch m then m\<lparr>smSplitEpoch := sEpoch op\<rparr> else m))"

section \<open>Apply\<close>

definition applyWrite :: "'eng EngineOps \<Rightarrow> u64 \<Rightarrow> u64 \<Rightarrow> bytes \<Rightarrow> Command \<Rightarrow> bool \<Rightarrow> 'eng stateMachine \<Rightarrow> ('eng, unit) mstep" where
  "applyWrite ops index trm raw command alreadyDurable m0 =
     (if smMvcc m0 \<and> \<not> alreadyDurable \<and> cTimestamp command \<le> smMaxApplied m0 then (m0, Inl ErrMVCCRegression)
      else if cType command \<noteq> CommandPut \<and> cType command \<noteq> CommandDelete then (m0, Inl (MCommand ErrInvalidCommand))
      else
        let mutation = \<lparr>mKey = cKey command, mValue = cValue command,
                        mKind = (if cType command = CommandPut then KindValue else KindDelete)\<rparr> in
        andThen
          (orApplied (onEngine
             (if smMvcc m0 then opApplyMVCC ops (smEngine m0) index trm (cTimestamp command) raw mutation
              else opApplyCommitted ops (smEngine m0) index trm raw mutation) m0))
          (\<lambda>m _. if smMvcc m \<and> \<not> alreadyDurable
                 then (observe (cTimestamp command) (m\<lparr>smMaxApplied := cTimestamp command\<rparr>), Inr ())
                 else (m, Inr ())))"

definition machineApply :: "'eng EngineOps \<Rightarrow> (bytes \<Rightarrow> bytes) \<Rightarrow> Entry \<Rightarrow> 'eng stateMachine \<Rightarrow> ('eng, unit) mstep" where
  "machineApply ops sha256 e m0 =
     (let m = (if smLifecycle m0 = 0 then m0\<lparr>smLifecycle := LifecycleActive\<rparr> else m0);
          index = word_of_nat (eIndex e) :: u64; trm = word_of_nat (eTerm e) :: u64; raw = eCommand e in
      case decodeCommand raw of
        Inl err \<Rightarrow> (m, Inl (MCommand err))
      | Inr command \<Rightarrow>
          if \<not> containsKey m (cKey command) then (m, Inl ErrKeyOutOfRange)
          else if cType command \<noteq> CommandSplit \<and> smMvcc m \<noteq> (cTimestamp command \<noteq> 0) then (m, Inl (MCommand ErrInvalidCommand))
          else case opDurableApplied ops (smEngine m) of
            Inl err \<Rightarrow> (m, Inl (MEngine err))
          | Inr frontier \<Rightarrow>
              let alreadyDurable = (index \<le> frontier) in
              if cType command = CommandSplit then applySplit ops sha256 index trm raw command alreadyDurable m
              else if smLifecycle m \<noteq> LifecycleActive \<and> smLifecycle m \<noteq> LifecycleLearner \<or> smUserFence m
                then (m, Inl ErrRangeNotServing)
              else if cType command \<ge> CommandTxnBarrier then
                if smTxnFence m \<and> (cType command = CommandTxnCreate \<or> cType command = CommandTxnPrepare)
                then (m, Inl ErrSplitFenced)
                else applyTransaction ops index trm raw command alreadyDurable m
              else applyWrite ops index trm raw command alreadyDurable m)"

section \<open>What no command undoes\<close>

text \<open>
  \<open>machineLe m m'\<close> collects what only moves forward: a record keeps its identity, times, home and
  participants, its epoch does not decrease, and once decided it does not change; a participant
  record likewise; the watermarks and the clock do not decrease; a fence stays up, a retired
  range stays retired, and a lifecycle that is set stays set.
\<close>

definition mapLe :: "('v \<Rightarrow> 'v \<Rightarrow> bool) \<Rightarrow> ('k \<rightharpoonup> 'v) \<Rightarrow> ('k \<rightharpoonup> 'v) \<Rightarrow> bool" where
  "mapLe le f g \<longleftrightarrow> (\<forall>k v. f k = Some v \<longrightarrow> (\<exists>v'. g k = Some v' \<and> le v v'))"

definition recordLe :: "Record \<Rightarrow> Record \<Rightarrow> bool" where
  "recordLe r r' \<longleftrightarrow> rID r' = rID r \<and> rReadTime r' = rReadTime r \<and> rCommitTime r' = rCommitTime r \<and> rHome r' = rHome r \<and>
     rParticipants r' = rParticipants r \<and> rEpoch r \<le> rEpoch r' \<and> (statusTerminal (rStatus r) \<longrightarrow> r' = r)"

definition participantTerminal :: "ParticipantStatus \<Rightarrow> bool" where
  "participantTerminal s \<longleftrightarrow> s = ParticipantCommitted \<or> s = ParticipantAborted"

definition participantLe :: "ParticipantRecord \<Rightarrow> ParticipantRecord \<Rightarrow> bool" where
  "participantLe p p' \<longleftrightarrow> pID p' = pID p \<and> pReadTime p' = pReadTime p \<and> pCommitTime p' = pCommitTime p \<and> pHome p' = pHome p \<and>
     pWrites p' = pWrites p \<and> pEpoch p \<le> pEpoch p' \<and> (participantTerminal (pStatus p) \<longrightarrow> p' = p)"

definition machineLe :: "'eng stateMachine \<Rightarrow> 'eng stateMachine \<Rightarrow> bool" where
  "machineLe m m' \<longleftrightarrow> mapLe recordLe (smRecords m) (smRecords m') \<and> mapLe participantLe (smParticipants m) (smParticipants m') \<and>
     smMaxApplied m \<le> smMaxApplied m' \<and> smSafeRead m \<le> smSafeRead m' \<and>
     lastIssued (smClock m) \<le> lastIssued (smClock m') \<and> (smUserFence m \<longrightarrow> smUserFence m') \<and>
     (smLifecycle m = LifecycleRetired \<longrightarrow> smLifecycle m' = LifecycleRetired) \<and>
     (smLifecycle m \<noteq> 0 \<longrightarrow> smLifecycle m' \<noteq> 0)"

lemma mapLe_refl: "(\<And>v. le v v) \<Longrightarrow> mapLe le f f"
  by (simp add: mapLe_def)

lemma mapLe_trans: "mapLe le f g \<Longrightarrow> mapLe le g h \<Longrightarrow> (\<And>a b c. le a b \<Longrightarrow> le b c \<Longrightarrow> le a c) \<Longrightarrow> mapLe le f h"
  unfolding mapLe_def by metis

lemma mapLe_upd: "(\<And>v. le v v) \<Longrightarrow> (\<And>v. f k = Some v \<Longrightarrow> le v w) \<Longrightarrow> mapLe le f (f(k \<mapsto> w))"
  by (simp add: mapLe_def)

lemma recordLe_refl [simp]: "recordLe r r"
  by (simp add: recordLe_def)

lemma recordLe_trans: "recordLe a b \<Longrightarrow> recordLe b c \<Longrightarrow> recordLe a c"
  unfolding recordLe_def by (metis order_trans)

lemma participantLe_refl [simp]: "participantLe p p"
  by (simp add: participantLe_def)

lemma participantLe_trans: "participantLe a b \<Longrightarrow> participantLe b c \<Longrightarrow> participantLe a c"
  unfolding participantLe_def by (metis order_trans)

lemma machineLe_refl [simp]: "machineLe m m"
  by (simp add: machineLe_def mapLe_refl)

lemma machineLe_trans:
  assumes "machineLe a b" and "machineLe b c"
  shows "machineLe a c"
proof -
  have "mapLe recordLe (smRecords a) (smRecords c)"
    by (rule mapLe_trans [of _ _ "smRecords b"]) (use assms in \<open>auto simp: machineLe_def intro: recordLe_trans\<close>)
  moreover have "mapLe participantLe (smParticipants a) (smParticipants c)"
    by (rule mapLe_trans [of _ _ "smParticipants b"]) (use assms in \<open>auto simp: machineLe_def intro: participantLe_trans\<close>)
  moreover have h: "smMaxApplied a \<le> smMaxApplied b" "smMaxApplied b \<le> smMaxApplied c" "smSafeRead a \<le> smSafeRead b" "smSafeRead b \<le> smSafeRead c"
    "lastIssued (smClock a) \<le> lastIssued (smClock b)" "lastIssued (smClock b) \<le> lastIssued (smClock c)"
    "smUserFence a \<longrightarrow> smUserFence c" "smLifecycle a = LifecycleRetired \<longrightarrow> smLifecycle c = LifecycleRetired"
    "smLifecycle a \<noteq> 0 \<longrightarrow> smLifecycle c \<noteq> 0"
    using assms by (simp_all add: machineLe_def)
  ultimately show ?thesis
    unfolding machineLe_def using order_trans [OF h(1,2)] order_trans [OF h(3,4)] order_trans [OF h(5,6)] by blast
qed

lemma machineLe_seq:
  "machineLe m (fst r) \<Longrightarrow> (\<And>s a. r = (s, Inr a) \<Longrightarrow> machineLe s (fst (f s a))) \<Longrightarrow> machineLe m (fst (andThen r f))"
  by (cases r; cases "snd r") (auto intro: machineLe_trans)

text \<open>Fields on which \<open>machineLe\<close> does not depend, and the ways it is allowed to move.\<close>

lemma machineLe_engine [simp]: "machineLe m (n\<lparr>smEngine := e\<rparr>) = machineLe m n"
  by (simp add: machineLe_def)

lemma clockObserve_le: "lastIssued c \<le> lastIssued (clockObserve t c)"
  using clockObserve_ge by blast

lemma machineLe_observe: "machineLe m n \<Longrightarrow> machineLe m (observe t n)"
  by (auto simp: machineLe_def observe_def intro: order_trans [OF _ clockObserve_le])

lemma machineLe_onEngine: "machineLe m (fst (onEngine r m))" "machineLe m (fst (orApplied (onEngine r m)))"
  by (simp_all add: onEngine_def orApplied_def)

lemma machineLe_advance: "machineLe m n \<Longrightarrow> machineLe m (fst (advanceMetadata ops i b n))"
  by (simp add: advanceMetadata_def onEngine_def)

lemma machineLe_maxApplied: "smMaxApplied m \<le> t \<Longrightarrow> machineLe m (m\<lparr>smMaxApplied := t\<rparr>)"
  by (simp add: machineLe_def mapLe_refl)

lemma machineLe_safeRead: "smSafeRead m \<le> t \<Longrightarrow> machineLe m (m\<lparr>smSafeRead := t\<rparr>)"
  by (simp add: machineLe_def mapLe_refl)

lemma machineLe_record:
  "(\<And>r. smRecords m t = Some r \<Longrightarrow> recordLe r r') \<Longrightarrow> machineLe m (m\<lparr>smRecords := (smRecords m)(t \<mapsto> r')\<rparr>)"
  by (simp add: machineLe_def mapLe_refl mapLe_upd)

lemma machineLe_participant:
  "(\<And>p. smParticipants m t = Some p \<Longrightarrow> participantLe p p') \<Longrightarrow> machineLe m (setParticipant t p' m)"
  by (simp add: machineLe_def mapLe_refl mapLe_upd setParticipant_def)

section \<open>Every command moves forward\<close>

lemma applyCreate_le: "machineLe m (fst (applyCreate op m))"
  by (auto simp: applyCreate_def Let_def intro!: machineLe_record split: option.split)

lemma applyDecision_le: "machineLe m (fst (applyDecision op s m))"
  by (auto simp: applyDecision_def recordLe_def intro!: machineLe_record split: option.split)

lemma epoch_next:
  assumes "(e :: u64) = r + 1" and "e \<noteq> 0"
  shows "r \<le> e"
proof -
  have "r \<noteq> - 1" using assms by auto
  then have "unat e = unat r + 1" using unat_inc assms(1) by simp
  then show ?thesis by (simp add: word_le_nat_alt)
qed

lemma decodeOperation_epoch: "decodeOperation bs = Inr op \<Longrightarrow> oEpoch op \<noteq> 0"
  by (auto simp: decodeOperation_def validateOperation_def Let_def elim!: bindR_okE split: if_splits prod.splits)

lemma applyTakeover_le: "oEpoch op \<noteq> 0 \<Longrightarrow> machineLe m (fst (applyTakeover op m))"
  by (auto simp: applyTakeover_def recordLe_def statusTerminal_def intro!: machineLe_record epoch_next split: option.split)

lemma machineLe_maxApplied_max: "machineLe m (m\<lparr>smMaxApplied := max (smMaxApplied m) t\<rparr>)"
  by (rule machineLe_maxApplied) simp

lemma firstPrepare_le:
  assumes "smParticipants m (oID op) = None"
  shows "machineLe m (fst (firstPrepare ops i t c op b m))"
proof -
  have set_le: "machineLe m (setParticipant (oID op) p m)" for p
    by (rule machineLe_participant) (simp add: assms)
  have "machineLe m (fst (andThen (orApplied (onEngine r m)) (\<lambda>m _.
      (setParticipant (oID op) p (m\<lparr>smMaxApplied := max (smMaxApplied m) t\<rparr>), Inr ()))))" for r p t
  proof (rule machineLe_seq [OF machineLe_onEngine(2)])
    fix s :: "'a stateMachine" and a
    assume "orApplied (onEngine r m) = (s, Inr a)"
    then have "s = m\<lparr>smEngine := fst r\<rparr>" by (auto simp: orApplied_def onEngine_def)
    then have "machineLe (s\<lparr>smMaxApplied := max (smMaxApplied s) t\<rparr>) (setParticipant (oID op) p (s\<lparr>smMaxApplied := max (smMaxApplied s) t\<rparr>))"
      using assms by (intro machineLe_participant) simp
    from machineLe_trans [OF machineLe_maxApplied_max this]
    show "machineLe s (fst (setParticipant (oID op) p (s\<lparr>smMaxApplied := max (smMaxApplied s) t\<rparr>), Inr ()))" by simp
  qed
  then show ?thesis
    using set_le by (simp add: firstPrepare_def machineLe_advance split: sum.split bool.split)
qed

lemma applyPrepare_le: "machineLe m (fst (applyPrepare ops i t c op b m))"
  by (simp add: applyPrepare_def firstPrepare_le machineLe_advance split: option.split)

lemma resolved_le:
  assumes "smParticipants m k = Some p" and "\<not> participantTerminal (pStatus p)" and "\<not> e < pEpoch p"
  shows "machineLe m (setParticipant k (p\<lparr>pStatus := s, pEpoch := e\<rparr>) m)"
  by (rule machineLe_participant) (use assms in \<open>simp add: participantLe_def\<close>)

lemma applyResolution_le: "machineLe m (fst (applyResolution ops i t c op s b m))"
proof (cases "smParticipants m (oID op)")
  case None
  have "machineLe m (setParticipant (oID op) p m)" for p
    by (rule machineLe_participant) (simp add: None)
  then show ?thesis by (simp add: applyResolution_def None machineLe_advance)
next
  case (Some p)
  let ?res = "p\<lparr>pStatus := s, pEpoch := oEpoch op\<rparr>"
  have "machineLe m (fst (andThen (orApplied (onEngine r m)) (\<lambda>m _. (setParticipant (oID op) ?res m, Inr ()))))"
    if "\<not> participantTerminal (pStatus p)" "\<not> oEpoch op < pEpoch p" for r
  proof (rule machineLe_seq [OF machineLe_onEngine(2)])
    fix n :: "'a stateMachine" and a
    assume "orApplied (onEngine r m) = (n, Inr a)"
    then have "n = m\<lparr>smEngine := fst r\<rparr>" by (auto simp: orApplied_def onEngine_def)
    then show "machineLe n (fst (setParticipant (oID op) ?res n, Inr ()))"
      using resolved_le [of n "oID op" p] Some that by simp
  qed
  then show ?thesis
    using resolved_le [OF Some] Some
    by (simp add: applyResolution_def Let_def machineLe_advance participantTerminal_def)
qed

lemma applyTransaction_le: "machineLe m (fst (applyTransaction ops i t raw c b m))"
proof -
  have o: "machineLe m (observe (cTimestamp c) m)" by (rule machineLe_observe) simp
  have tail: "machineLe n (fst (if q then (n, Inr ()) else advanceMetadata ops i b n))" for n q
    by (simp add: machineLe_advance)
  have "machineLe (observe (cTimestamp c) m) (fst (andThen
      (if cType c = CommandTxnCreate then applyCreate op (observe (cTimestamp c) m)
       else if cType c = CommandTxnPrepare then applyPrepare ops i t raw op b (observe (cTimestamp c) m)
       else if cType c = CommandTxnCommit then applyDecision op StatusCommitted (observe (cTimestamp c) m)
       else if cType c = CommandTxnAbort then applyDecision op StatusAborted (observe (cTimestamp c) m)
       else if cType c = CommandTxnTakeover then applyTakeover op (observe (cTimestamp c) m)
       else if cType c = CommandTxnResolveCommit then applyResolution ops i t raw op ParticipantCommitted b (observe (cTimestamp c) m)
       else if cType c = CommandTxnResolveAbort then applyResolution ops i t raw op ParticipantAborted b (observe (cTimestamp c) m)
       else (observe (cTimestamp c) m, Inl (MCommand ErrInvalidCommand)))
      (\<lambda>m _. if q then (m, Inr ()) else advanceMetadata ops i b m)))" if "oEpoch op \<noteq> 0" for op q
    by (rule machineLe_seq [OF _ tail])
      (use that in \<open>simp add: applyCreate_le applyPrepare_le applyDecision_le applyTakeover_le applyResolution_le\<close>)
  note op_le = machineLe_trans [OF o this]
  let ?o = "observe (cTimestamp c) m"
  show ?thesis
  proof (cases "cType c = CommandTxnBarrier")
    case True
    have "machineLe m (?o\<lparr>smSafeRead := max (smSafeRead ?o) (cTimestamp c)\<rparr>)"
      by (rule machineLe_trans [OF o machineLe_safeRead]) simp
    then show ?thesis using True by (simp add: applyTransaction_def Let_def machineLe_advance)
  next
    case False
    show ?thesis
    proof (cases "decodeOperation (cValue c)")
      case (Inl e)
      then show ?thesis using False o by (simp add: applyTransaction_def Let_def)
    next
      case (Inr op)
      show ?thesis using False op_le [OF decodeOperation_epoch [OF Inr]] by (simp add: applyTransaction_def Let_def Inr)
    qed
  qed
qed

text \<open>The split fields are not watched, so a step that only changes them moves forward.\<close>

lemma machineLe_split_fields:
  "smRecords n = smRecords m \<Longrightarrow> smParticipants n = smParticipants m \<Longrightarrow> smMaxApplied n = smMaxApplied m \<Longrightarrow>
   smSafeRead m \<le> smSafeRead n \<Longrightarrow> smClock n = smClock m \<Longrightarrow> (smUserFence m \<Longrightarrow> smUserFence n) \<Longrightarrow>
   (smLifecycle m = LifecycleRetired \<Longrightarrow> smLifecycle n = LifecycleRetired) \<Longrightarrow>
   (smLifecycle m \<noteq> 0 \<Longrightarrow> smLifecycle n \<noteq> 0) \<Longrightarrow> machineLe m n"
  by (simp add: machineLe_def mapLe_refl)

lemma split_steps_le:
  "machineLe m (fst (splitBegin op m))" "machineLe m (fst (finalFence i m))" "machineLe m (fst (splitActivate m))"
  "machineLe m (fst (splitRetire m))" "machineLe m (fst (splitAbort m))" "machineLe m (fst (shadowBarrier op m))"
  by (auto simp: splitBegin_def finalFence_def splitActivate_def splitRetire_def splitAbort_def shadowBarrier_def lifecycle_defs
      intro!: machineLe_split_fields)

lemma replayAdvance_le: "machineLe m (fst (replayAdvance op m))"
  by (auto simp: replayAdvance_def intro!: machineLe_observe machineLe_split_fields)

lemma splitBarrier_le: "machineLe m (fst (splitBarrier i op m))"
  unfolding splitBarrier_def
proof (rule machineLe_seq)
  show "machineLe m (fst (if smLifecycle m = LifecycleActive then
      if \<not> smTxnFence m then (m, Inl ErrSplitFenced) else (m\<lparr>smBootstrapIndex := i\<rparr>, Inr ())
    else if smLifecycle m = LifecycleShadow then shadowBarrier op m else (m, Inl ErrRangeNotServing)))"
    by (auto simp: split_steps_le intro!: machineLe_split_fields)
qed (simp add: machineLe_observe)

lemma installVersion_le:
  assumes "machineLe m n"
  shows "machineLe m (fst (installVersion ops i t raw key op b n))"
proof -
  have "machineLe n (fst (andThen (orApplied (onEngine r n))
      (\<lambda>m _. (observe (sTimestamp op) (m\<lparr>smMaxApplied := max (smMaxApplied m) (sTimestamp op)\<rparr>), Inr ()))))" for r
    by (rule machineLe_seq [OF machineLe_onEngine(2)]) (simp add: machineLe_observe machineLe_maxApplied_max)
  from machineLe_trans [OF assms this] show ?thesis using assms by (simp add: installVersion_def)
qed

lemma splitVersion_le: "machineLe m (fst (splitVersion ops sha i t raw key op b m))"
  unfolding splitVersion_def
  by (auto intro!: installVersion_le machineLe_advance machineLe_split_fields)

lemma applySplitOp_le: "machineLe m (fst (applySplitOp ops sha i t raw key op b m))"
proof -
  have adv: "machineLe n (fst (advanceMetadata ops i b n))" for n by (simp add: machineLe_advance)
  show ?thesis
    unfolding applySplitOp_def Let_def
    by (auto simp: splitVersion_le split_steps_le replayAdvance_le splitBarrier_le intro!: machineLe_seq adv)
qed

lemma applySplit_le: "machineLe m (fst (applySplit ops sha i t raw c b m))"
proof -
  have "machineLe m (fst (applySplitOp ops sha i t raw (cKey c) op b n))"
    if "n = m \<or> n = m\<lparr>smSplitEpoch := sEpoch op\<rparr>" for op n
  proof (rule machineLe_trans [OF _ applySplitOp_le])
    show "machineLe m n" using that by (auto intro!: machineLe_split_fields)
  qed
  then show ?thesis by (auto simp: applySplit_def split: sum.split)
qed

lemma applyWrite_le: "machineLe m (fst (applyWrite ops i t raw c b m))"
proof -
  have "machineLe m (fst (andThen (orApplied (onEngine r m)) (\<lambda>m _. if smMvcc m \<and> \<not> b
      then (observe (cTimestamp c) (m\<lparr>smMaxApplied := cTimestamp c\<rparr>), Inr ()) else (m, Inr ()))))"
    if "\<not> (smMvcc m \<and> \<not> b \<and> cTimestamp c \<le> smMaxApplied m)" for r
  proof (rule machineLe_seq [OF machineLe_onEngine(2)])
    fix s :: "'a stateMachine" and a
    assume "orApplied (onEngine r m) = (s, Inr a)"
    then have "smMvcc s = smMvcc m" "smMaxApplied s = smMaxApplied m" by (auto simp: orApplied_def onEngine_def)
    then show "machineLe s (fst (if smMvcc s \<and> \<not> b
        then (observe (cTimestamp c) (s\<lparr>smMaxApplied := cTimestamp c\<rparr>), Inr ()) else (s, Inr ())))"
      using that by (auto intro!: machineLe_observe machineLe_maxApplied)
  qed
  then show ?thesis by (simp add: applyWrite_def Let_def)
qed

lemma machineApply_le: "machineLe m (fst (machineApply ops sha e m))"
proof -
  define n where "n = (if smLifecycle m = 0 then m\<lparr>smLifecycle := LifecycleActive\<rparr> else m)"
  have n: "machineLe m n" by (auto simp: n_def lifecycle_defs intro!: machineLe_split_fields)
  have "machineLe n (fst (machineApply ops sha e m))"
    unfolding machineApply_def n_def [symmetric] Let_def
    by (simp add: applySplit_le applyTransaction_le applyWrite_le split: sum.split)
  then show ?thesis by (rule machineLe_trans [OF n])
qed

end
