(* ===== verification/Raft_Node.thy ===== *)
theory Raft_Node
  imports Raft_Types
begin

text \<open>
  \<open>internal/raft/node.go\<close>: the deterministic Raft core. A node is a record; each method is a
  function from the node to an outcome, that is the node after the call together with the
  returned error or results. The three collaborators are the interfaces \<open>Store\<close>,
  \<open>StateMachine\<close> and the random source, collected in the record \<open>Env\<close>. Maps that can be nil
  in the code are options here, so that a write to a nil map is a panic of the model too.
\<close>

section \<open>Messages\<close>

type_synonym MessageType = byte

definition RequestVote :: MessageType where "RequestVote = 1"
definition RequestVoteResponse :: MessageType where "RequestVoteResponse = 2"
definition AppendEntries :: MessageType where "AppendEntries = 3"
definition AppendEntriesResponse :: MessageType where "AppendEntriesResponse = 4"
definition InstallSnapshot :: MessageType where "InstallSnapshot = 5"
definition InstallSnapshotResponse :: MessageType where "InstallSnapshotResponse = 6"
definition TimeoutNow :: MessageType where "TimeoutNow = 7"

lemmas message_type_defs = RequestVote_def RequestVoteResponse_def AppendEntries_def
  AppendEntriesResponse_def InstallSnapshot_def InstallSnapshotResponse_def TimeoutNow_def

record Message =
  mgType :: MessageType
  mgFrom :: NodeID
  mgTo :: NodeID
  mgTerm :: nat
  mgCandidateLastIndex :: nat
  mgCandidateLastTerm :: nat
  mgVoteGranted :: bool
  mgPrevLogIndex :: nat
  mgPrevLogTerm :: nat
  mgEntries :: "Entry list"
  mgLeaderCommit :: nat
  mgSuccess :: bool
  mgMatchIndex :: nat
  mgRejectHint :: nat
  mgSnapshot :: Snapshot

definition newMessage :: "MessageType \<Rightarrow> NodeID \<Rightarrow> NodeID \<Rightarrow> nat \<Rightarrow> Message" where
  "newMessage t from to term = \<lparr>mgType = t, mgFrom = from, mgTo = to, mgTerm = term,
     mgCandidateLastIndex = 0, mgCandidateLastTerm = 0, mgVoteGranted = False,
     mgPrevLogIndex = 0, mgPrevLogTerm = 0, mgEntries = [], mgLeaderCommit = 0, mgSuccess = False,
     mgMatchIndex = 0, mgRejectHint = 0, mgSnapshot = zeroSnapshot\<rparr>"

lemma newMessage_simps [simp]:
  "mgType (newMessage t f d k) = t" "mgFrom (newMessage t f d k) = f"
  "mgTo (newMessage t f d k) = d" "mgTerm (newMessage t f d k) = k"
  "mgCandidateLastIndex (newMessage t f d k) = 0" "mgCandidateLastTerm (newMessage t f d k) = 0"
  "mgVoteGranted (newMessage t f d k) = False" "mgPrevLogIndex (newMessage t f d k) = 0"
  "mgPrevLogTerm (newMessage t f d k) = 0" "mgEntries (newMessage t f d k) = []"
  "mgLeaderCommit (newMessage t f d k) = 0" "mgSuccess (newMessage t f d k) = False"
  "mgMatchIndex (newMessage t f d k) = 0" "mgRejectHint (newMessage t f d k) = 0"
  "mgSnapshot (newMessage t f d k) = zeroSnapshot"
  by (simp_all add: newMessage_def)

definition validMessageType :: "MessageType \<Rightarrow> bool" where
  "validMessageType k \<longleftrightarrow> RequestVote \<le> k \<and> k \<le> TimeoutNow"

section \<open>The node and its environment\<close>

record ('st, 'sm) Env =
  envLoad :: "'st \<Rightarrow> raft_error + PersistentState"
  envSave :: "'st \<Rightarrow> PersistentState \<Rightarrow> ('st, raft_error, unit) outcome"
  envApply :: "'sm \<Rightarrow> Entry \<Rightarrow> ('sm, raft_error, unit) outcome"
  envSnapshot :: "'sm \<Rightarrow> ('sm, raft_error, bytes) outcome"
  envRestore :: "'sm \<Rightarrow> bytes \<Rightarrow> ('sm, raft_error, unit) outcome"
  envUint64N :: "nat \<Rightarrow> nat \<Rightarrow> nat"

text \<open>\<open>envUint64N k span\<close> is the value of the \<open>k\<close>-th draw of the node's random source.\<close>

record ('st, 'sm) Node =
  nId :: NodeID
  nPeers :: "NodeID list"
  nConfiguration :: Configuration
  nElectionMin :: nat
  nElectionMax :: nat
  nHeartbeatInterval :: nat
  nDraws :: nat
  nStore :: 'st
  nStateMachine :: 'sm
  nPersistent :: PersistentState
  nRole :: Role
  nLeaderID :: NodeID
  nCommitIndex :: nat
  nLastApplied :: nat
  nElectionElapsed :: nat
  nElectionTimeout :: nat
  nHeartbeatElapsed :: nat
  nTransferElapsed :: nat
  nTransferring :: bool
  nVotes :: "(NodeID \<rightharpoonup> bool) option"
  nNextIndex :: "(NodeID \<rightharpoonup> nat) option"
  nMatchIndex :: "(NodeID \<rightharpoonup> nat) option"
  nStopped :: bool
  nFatal :: "raft_error option"

type_synonym ('st, 'sm, 'a) step = "(('st, 'sm) Node, raft_error, 'a) outcome"

abbreviation nEntries :: "('st, 'sm) Node \<Rightarrow> Entry list" where
  "nEntries n \<equiv> psEntries (nPersistent n)"

abbreviation nSnapshot :: "('st, 'sm) Node \<Rightarrow> Snapshot" where
  "nSnapshot n \<equiv> psSnapshot (nPersistent n)"

abbreviation nHard :: "('st, 'sm) Node \<Rightarrow> HardState" where
  "nHard n \<equiv> psHardState (nPersistent n)"

text \<open>Reading a Go map yields the zero value for an absent key or a nil map.\<close>

definition mapIndex :: "(NodeID \<rightharpoonup> nat) option \<Rightarrow> NodeID \<Rightarrow> nat" where
  "mapIndex m k = (case m of None \<Rightarrow> 0 | Some f \<Rightarrow> (case f k of None \<Rightarrow> 0 | Some v \<Rightarrow> v))"

definition mapVote :: "(NodeID \<rightharpoonup> bool) option \<Rightarrow> NodeID \<Rightarrow> bool" where
  "mapVote m k = (case m of None \<Rightarrow> False | Some f \<Rightarrow> f k = Some True)"

definition panic :: "string \<Rightarrow> ('st, 'sm) Node \<Rightarrow> ('st, 'sm, 'a) step" where
  "panic tag n = (n, Inl (Panicked tag))"

definition setMatch :: "NodeID \<Rightarrow> nat \<Rightarrow> ('st, 'sm) Node \<Rightarrow> ('st, 'sm, unit) step" where
  "setMatch peer v n =
     (case nMatchIndex n of None \<Rightarrow> panic ''nil map'' n
      | Some f \<Rightarrow> (n\<lparr>nMatchIndex := Some (f(peer \<mapsto> v))\<rparr>, Inr ()))"

definition setNext :: "NodeID \<Rightarrow> nat \<Rightarrow> ('st, 'sm) Node \<Rightarrow> ('st, 'sm, unit) step" where
  "setNext peer v n =
     (case nNextIndex n of None \<Rightarrow> panic ''nil map'' n
      | Some f \<Rightarrow> (n\<lparr>nNextIndex := Some (f(peer \<mapsto> v))\<rparr>, Inr ()))"

definition isPanic :: "raft_error \<Rightarrow> bool" where
  "isPanic e \<longleftrightarrow> (case e of Panicked _ \<Rightarrow> True | _ \<Rightarrow> False)"

section \<open>Log access\<close>

definition nTerm :: "('st, 'sm) Node \<Rightarrow> nat" where
  "nTerm n = hTerm (nHard n)"

definition lastIndex :: "('st, 'sm) Node \<Rightarrow> nat" where
  "lastIndex n = (if nEntries n = [] then snIndex (nSnapshot n) else eIndex (last (nEntries n)))"

definition lastTerm :: "('st, 'sm) Node \<Rightarrow> nat" where
  "lastTerm n = (if nEntries n = [] then snTerm (nSnapshot n) else eTerm (last (nEntries n)))"

definition entrySlot :: "('st, 'sm) Node \<Rightarrow> nat \<Rightarrow> raft_error + Entry" where
  "entrySlot n index =
     (let k = index - snIndex (nSnapshot n) - 1 in
      if k < length (nEntries n) then Inr (nEntries n ! k) else Inl (Panicked ''index out of range''))"

definition termAt :: "('st, 'sm) Node \<Rightarrow> nat \<Rightarrow> raft_error + nat" where
  "termAt n index =
     (if index = snIndex (nSnapshot n) then Inr (snTerm (nSnapshot n))
      else if index < snIndex (nSnapshot n) then Inl ErrCompacted
      else if index > lastIndex n then Inl ErrUnavailable
      else bindR (entrySlot n index) (\<lambda>e. Inr (eTerm e)))"

definition entryAt :: "('st, 'sm) Node \<Rightarrow> nat \<Rightarrow> raft_error + Entry" where
  "entryAt n index =
     (if index \<le> snIndex (nSnapshot n) then Inl ErrCompacted
      else if index > lastIndex n then Inl ErrUnavailable
      else entrySlot n index)"

definition entriesFrom :: "('st, 'sm) Node \<Rightarrow> nat \<Rightarrow> raft_error + Entry list" where
  "entriesFrom n index =
     (if index \<le> snIndex (nSnapshot n) then Inl ErrCompacted
      else if index > add64 (lastIndex n) 1 then Inl ErrUnavailable
      else if index = add64 (lastIndex n) 1 then Inr []
      else
        let k = index - snIndex (nSnapshot n) - 1 in
        if k \<le> length (nEntries n) then Inr (drop k (nEntries n)) else Inl (Panicked ''slice bounds out of range''))"

fun firstIndexOfTerm :: "('st, 'sm) Node \<Rightarrow> nat \<Rightarrow> nat \<Rightarrow> nat" where
  "firstIndexOfTerm n 0 term = 0"
| "firstIndexOfTerm n (Suc index) term =
     (if Suc index > snIndex (nSnapshot n) then
        case termAt n index of
          Inl _ \<Rightarrow> Suc index
        | Inr previous \<Rightarrow> if previous \<noteq> term then Suc index else firstIndexOfTerm n index term
      else Suc index)"

definition logUpToDate :: "('st, 'sm) Node \<Rightarrow> nat \<Rightarrow> nat \<Rightarrow> bool" where
  "logUpToDate n index term \<longleftrightarrow> term > lastTerm n \<or> term = lastTerm n \<and> index \<ge> lastIndex n"

section \<open>Persistence, failure, timers\<close>

definition failNode :: "raft_error \<Rightarrow> ('st, 'sm) Node \<Rightarrow> ('st, 'sm, 'a) step" where
  "failNode e n = (n\<lparr>nFatal := Some e, nStopped := True\<rparr>, Inl e)"

definition saveState :: "('st, 'sm) Env \<Rightarrow> PersistentState \<Rightarrow> ('st, 'sm) Node \<Rightarrow> ('st, 'sm, unit) step" where
  "saveState env s n =
     (case envSave env (nStore n) s of
        (st, Inl e) \<Rightarrow> failNode (Joined ErrPersistence e) (n\<lparr>nStore := st\<rparr>)
      | (st, Inr _) \<Rightarrow> (n\<lparr>nStore := st\<rparr>, Inr ()))"

definition persist :: "('st, 'sm) Env \<Rightarrow> ('st, 'sm) Node \<Rightarrow> ('st, 'sm, unit) step" where
  "persist env n = saveState env (nPersistent n) n"

definition usable :: "('st, 'sm) Node \<Rightarrow> raft_error option" where
  "usable n = (case nFatal n of Some e \<Rightarrow> Some (Joined ErrStopped e)
     | None \<Rightarrow> if nStopped n then Some ErrStopped else None)"

definition guardUsable :: "('st, 'sm) Node \<Rightarrow> ('st, 'sm, 'a) step \<Rightarrow> ('st, 'sm, 'a) step" where
  "guardUsable n k = (case usable n of Some e \<Rightarrow> (n, Inl e) | None \<Rightarrow> k)"

definition resetElectionTimer :: "('st, 'sm) Env \<Rightarrow> ('st, 'sm) Node \<Rightarrow> ('st, 'sm) Node" where
  "resetElectionTimer env n =
     (let span = add64 (sub64 (nElectionMax n) (nElectionMin n)) 1 in
      if span > 1
      then n\<lparr>nElectionElapsed := 0,
             nElectionTimeout := add64 (nElectionMin n) (envUint64N env (nDraws n) span),
             nDraws := nDraws n + 1\<rparr>
      else n\<lparr>nElectionElapsed := 0, nElectionTimeout := nElectionMin n\<rparr>)"

definition becomeFollower :: "('st, 'sm) Env \<Rightarrow> NodeID \<Rightarrow> ('st, 'sm) Node \<Rightarrow> ('st, 'sm) Node" where
  "becomeFollower env leader n =
     resetElectionTimer env (n\<lparr>nRole := Follower, nLeaderID := leader, nVotes := None,
       nNextIndex := None, nMatchIndex := None, nHeartbeatElapsed := 0,
       nTransferring := False, nTransferElapsed := 0\<rparr>)"

definition setEntries :: "Entry list \<Rightarrow> ('st, 'sm) Node \<Rightarrow> ('st, 'sm) Node" where
  "setEntries es n = n\<lparr>nPersistent := (nPersistent n)\<lparr>psEntries := es\<rparr>\<rparr>"

definition setHard :: "nat \<Rightarrow> NodeID \<Rightarrow> ('st, 'sm) Node \<Rightarrow> ('st, 'sm) Node" where
  "setHard t v n = n\<lparr>nPersistent := (nPersistent n)\<lparr>psHardState := \<lparr>hTerm = t, hVotedFor = v\<rparr>\<rparr>\<rparr>"

section \<open>Replication messages\<close>

definition replicationMessage :: "('st, 'sm) Node \<Rightarrow> NodeID \<Rightarrow> raft_error + Message" where
  "replicationMessage n peer =
     (let nxt = mapIndex (nNextIndex n) peer in
      if nxt \<le> snIndex (nSnapshot n) then
        Inr ((newMessage InstallSnapshot (nId n) peer (nTerm n))
               \<lparr>mgSnapshot := nSnapshot n, mgLeaderCommit := nCommitIndex n\<rparr>)
      else
        case termAt n (nxt - 1) of
          Inl _ \<Rightarrow> Inl (Panicked ''RAFT-3'')
        | Inr previousTerm \<Rightarrow>
            (case entriesFrom n nxt of
               Inl _ \<Rightarrow> Inl (Panicked ''RAFT-3'')
             | Inr es \<Rightarrow>
                 Inr ((newMessage AppendEntries (nId n) peer (nTerm n))
                        \<lparr>mgPrevLogIndex := nxt - 1, mgPrevLogTerm := previousTerm, mgEntries := es,
                         mgLeaderCommit := nCommitIndex n\<rparr>)))"

fun replicationLoop :: "('st, 'sm) Node \<Rightarrow> NodeID list \<Rightarrow> raft_error + Message list" where
  "replicationLoop n [] = Inr []"
| "replicationLoop n (p # ps) =
     (if p \<noteq> nId n
      then bindR (replicationMessage n p) (\<lambda>m. bindR (replicationLoop n ps) (\<lambda>ms. Inr (m # ms)))
      else replicationLoop n ps)"

definition replicationMessages :: "('st, 'sm) Node \<Rightarrow> ('st, 'sm, Message list) step" where
  "replicationMessages n = (n, replicationLoop n (nPeers n))"

definition sendReplication :: "('st, 'sm) Node \<Rightarrow> NodeID \<Rightarrow> ('st, 'sm, Message list) step" where
  "sendReplication n peer = (n, bindR (replicationMessage n peer) (\<lambda>m. Inr [m]))"

section \<open>Applying committed entries\<close>

definition addPeer :: "nat \<Rightarrow> nat \<Rightarrow> NodeID \<Rightarrow> (NodeID \<rightharpoonup> nat) \<times> (NodeID \<rightharpoonup> nat) \<Rightarrow>
    (NodeID \<rightharpoonup> nat) \<times> (NodeID \<rightharpoonup> nat)" where
  "addPeer nxt match peer fg =
     (case fg of (f, g) \<Rightarrow> if f peer = None then (f(peer \<mapsto> nxt), g(peer \<mapsto> match)) else (f, g))"

definition installConfiguration :: "('st, 'sm) Env \<Rightarrow> Configuration \<Rightarrow> ('st, 'sm) Node \<Rightarrow> ('st, 'sm, unit) step" where
  "installConfiguration env c n0 =
     (let n = n0\<lparr>nConfiguration := normalizeConfiguration c,
                 nPeers := members (normalizeConfiguration c)\<rparr> in
      andThen
        (if nRole n = Leader then
           case (nNextIndex n, nMatchIndex n) of
             (Some f, Some g) \<Rightarrow>
               let (f1, g1) = fold (addPeer (add64 (lastIndex n) 1) (snIndex (nSnapshot n))) (nPeers n) (f, g);
                   gone = (\<lambda>p. f1 p \<noteq> None \<and> p \<notin> set (nPeers n))
               in (n\<lparr>nNextIndex := Some (\<lambda>p. if gone p then None else f1 p),
                     nMatchIndex := Some (\<lambda>p. if gone p then None else g1 p)\<rparr>, Inr ())
           | _ \<Rightarrow> panic ''nil map'' n
         else (n, Inr ()))
        (\<lambda>n _. if \<not> isVoter (nConfiguration n) (nId n) \<and> nRole n \<noteq> Follower
               then (becomeFollower env 0 n, Inr ()) else (n, Inr ())))"

definition applyEntry :: "('st, 'sm) Env \<Rightarrow> Entry \<Rightarrow> ('st, 'sm) Node \<Rightarrow> ('st, 'sm, unit) step" where
  "applyEntry env e n =
     (if eType e = EntryCommand then
        case envApply env (nStateMachine n) e of
          (sm, Inl err) \<Rightarrow> failNode (Joined ErrApply err) (n\<lparr>nStateMachine := sm\<rparr>)
        | (sm, Inr _) \<Rightarrow> (n\<lparr>nStateMachine := sm\<rparr>, Inr ())
      else if eType e = EntryConfig then
        case decodeConfiguration (eCommand e) of
          Inl err \<Rightarrow> failNode (Joined ErrApply (Joined ErrConfigTransition err)) n
        | Inr c \<Rightarrow>
            if cfVersion c > cfVersion (nConfiguration n) then
              if validateConfigurationTransition (nConfiguration n) c \<noteq> Inr ()
              then failNode (Joined ErrApply ErrConfigTransition) n
              else
                andThen (installConfiguration env c n) (\<lambda>n _.
                  persist env (n\<lparr>nPersistent := (nPersistent n)\<lparr>psConfig := c\<rparr>\<rparr>))
            else (n, Inr ())
      else (n, Inr ()))"

definition applyNext :: "('st, 'sm) Env \<Rightarrow> ('st, 'sm) Node \<Rightarrow> ('st, 'sm, unit) step" where
  "applyNext env n =
     (let index = nLastApplied n + 1 in
      case entryAt n index of
        Inl err \<Rightarrow> if isPanic err then (n, Inl err) else failNode (Joined ErrApply err) n
      | Inr e \<Rightarrow> andThen (applyEntry env e n) (\<lambda>n _. (n\<lparr>nLastApplied := index\<rparr>, Inr ())))"

text \<open>
  Helpers that leave the indexes of a node alone; they carry the termination proof of the apply
  loop and most frame conditions below.
\<close>

lemma resetElectionTimer_frame [simp]:
  "nId (resetElectionTimer env n) = nId n"
  "nPeers (resetElectionTimer env n) = nPeers n"
  "nConfiguration (resetElectionTimer env n) = nConfiguration n"
  "nStore (resetElectionTimer env n) = nStore n"
  "nStateMachine (resetElectionTimer env n) = nStateMachine n"
  "nPersistent (resetElectionTimer env n) = nPersistent n"
  "nRole (resetElectionTimer env n) = nRole n"
  "nLeaderID (resetElectionTimer env n) = nLeaderID n"
  "nCommitIndex (resetElectionTimer env n) = nCommitIndex n"
  "nLastApplied (resetElectionTimer env n) = nLastApplied n"
  "nVotes (resetElectionTimer env n) = nVotes n"
  "nNextIndex (resetElectionTimer env n) = nNextIndex n"
  "nMatchIndex (resetElectionTimer env n) = nMatchIndex n"
  "nStopped (resetElectionTimer env n) = nStopped n"
  "nFatal (resetElectionTimer env n) = nFatal n"
  by (simp_all add: resetElectionTimer_def Let_def)

lemma becomeFollower_frame [simp]:
  "nId (becomeFollower env l n) = nId n"
  "nPeers (becomeFollower env l n) = nPeers n"
  "nConfiguration (becomeFollower env l n) = nConfiguration n"
  "nStore (becomeFollower env l n) = nStore n"
  "nStateMachine (becomeFollower env l n) = nStateMachine n"
  "nPersistent (becomeFollower env l n) = nPersistent n"
  "nRole (becomeFollower env l n) = Follower"
  "nLeaderID (becomeFollower env l n) = l"
  "nCommitIndex (becomeFollower env l n) = nCommitIndex n"
  "nLastApplied (becomeFollower env l n) = nLastApplied n"
  "nVotes (becomeFollower env l n) = None"
  "nNextIndex (becomeFollower env l n) = None"
  "nMatchIndex (becomeFollower env l n) = None"
  "nStopped (becomeFollower env l n) = nStopped n"
  "nFatal (becomeFollower env l n) = nFatal n"
  by (simp_all add: becomeFollower_def)

lemma saveState_frame:
  assumes "saveState env s n = (n', r)"
  shows "\<exists>st f b. n' = n\<lparr>nStore := st, nFatal := f, nStopped := b\<rparr>"
proof -
  obtain st x where "envSave env (nStore n) s = (st, x)" by fastforce
  with assms have "n' = n\<lparr>nStore := st, nFatal := nFatal n, nStopped := nStopped n\<rparr> \<or>
      (\<exists>e. n' = n\<lparr>nStore := st, nFatal := Some e, nStopped := True\<rparr>)"
    by (auto simp: saveState_def failNode_def split: sum.splits)
  then show ?thesis by blast
qed

lemma installConfiguration_indexes:
  "installConfiguration env c n = (n', r) \<Longrightarrow>
   nCommitIndex n' = nCommitIndex n \<and> nLastApplied n' = nLastApplied n"
  by (auto simp: installConfiguration_def Let_def panic_def split: if_splits option.splits prod.splits)

lemma applyEntry_indexes:
  "applyEntry env e n = (n', r) \<Longrightarrow>
   nCommitIndex n' = nCommitIndex n \<and> nLastApplied n' = nLastApplied n"
  by (auto simp: applyEntry_def failNode_def persist_def dest!: installConfiguration_indexes saveState_frame
      split: if_splits sum.splits prod.splits andThen_splits)

lemma applyNext_ok:
  "applyNext env n = (n', Inr u) \<Longrightarrow>
   nCommitIndex n' = nCommitIndex n \<and> nLastApplied n' = Suc (nLastApplied n)"
  by (auto simp: applyNext_def Let_def failNode_def dest: applyEntry_indexes elim!: andThen_okE
      split: sum.splits if_splits)

function applyCommitted :: "('st, 'sm) Env \<Rightarrow> ('st, 'sm) Node \<Rightarrow> ('st, 'sm, unit) step" where
  "applyCommitted env n =
     (if nLastApplied n < nCommitIndex n then
        case applyNext env n of
          (n', Inl e) \<Rightarrow> (n', Inl e)
        | (n', Inr _) \<Rightarrow> applyCommitted env n'
      else if nLastApplied n \<le> nCommitIndex n then (n, Inr ())
      else panic ''RAFT-7'' n)"
  by pat_completeness auto

termination applyCommitted
  by (relation "measure (\<lambda>(env, n). nCommitIndex n - nLastApplied n)") (auto dest!: applyNext_ok [OF sym])

declare applyCommitted.simps [simp del]

fun advanceCommitLoop :: "('st, 'sm) Env \<Rightarrow> ('st, 'sm) Node \<Rightarrow> nat \<Rightarrow> ('st, 'sm, unit) step" where
  "advanceCommitLoop env n 0 = (n, Inr ())"
| "advanceCommitLoop env n (Suc i) =
     (let index = Suc i in
      if index > nCommitIndex n then
        case termAt n index of
          Inl e \<Rightarrow> (n, Inl e)
        | Inr term \<Rightarrow>
            if term \<noteq> nTerm n then advanceCommitLoop env n i
            else if quorum (nConfiguration n) (\<lambda>peer. mapIndex (nMatchIndex n) peer \<ge> index)
              then applyCommitted env (n\<lparr>nCommitIndex := index\<rparr>)
            else advanceCommitLoop env n i
      else (n, Inr ()))"

definition advanceCommit :: "('st, 'sm) Env \<Rightarrow> ('st, 'sm) Node \<Rightarrow> ('st, 'sm, unit) step" where
  "advanceCommit env n = (if nRole n \<noteq> Leader then (n, Inr ()) else advanceCommitLoop env n (lastIndex n))"

section \<open>Proposals\<close>

text \<open>
  The three proposals and the leader's first no-op share one tail: append an entry, persist,
  record the leader's own progress, try to commit, replicate.
\<close>

definition appendOwn :: "('st, 'sm) Env \<Rightarrow> EntryType \<Rightarrow> bytes \<Rightarrow> ('st, 'sm) Node \<Rightarrow> ('st, 'sm, nat \<times> Message list) step" where
  "appendOwn env kind command n =
     (let e = \<lparr>eIndex = add64 (lastIndex n) 1, eTerm = nTerm n, eType = kind, eCommand = command\<rparr> in
      andThen (persist env (setEntries (nEntries n @ [e]) n)) (\<lambda>n _.
      andThen (setMatch (nId n) (eIndex e) n) (\<lambda>n _.
      andThen (setNext (nId n) (add64 (eIndex e) 1) n) (\<lambda>n _.
      andThen (advanceCommit env n) (\<lambda>n _.
      andThen (replicationMessages n) (\<lambda>n ms. (n, Inr (eIndex e, ms))))))))"

definition proposeConfiguration :: "('st, 'sm) Env \<Rightarrow> Configuration \<Rightarrow> ('st, 'sm) Node \<Rightarrow> ('st, 'sm, nat \<times> Message list) step" where
  "proposeConfiguration env c n = guardUsable n
     (if nRole n \<noteq> Leader then (n, Inl ErrNotLeader)
      else if nTransferring n then (n, Inl ErrLeadershipTransfer)
      else case validateConfigurationTransition (nConfiguration n) c of
        Inl e \<Rightarrow> (n, Inl e)
      | Inr _ \<Rightarrow>
          if list_ex (\<lambda>e. eIndex e > nCommitIndex n \<and> eType e = EntryConfig) (nEntries n)
          then (n, Inl ErrConfigTransition)
          else (case encodeConfiguration c of
                  Inl e \<Rightarrow> (n, Inl e)
                | Inr encoded \<Rightarrow> appendOwn env EntryConfig encoded n))"

definition propose :: "('st, 'sm) Env \<Rightarrow> bytes \<Rightarrow> ('st, 'sm) Node \<Rightarrow> ('st, 'sm, nat \<times> Message list) step" where
  "propose env command n = guardUsable n
     (if nRole n \<noteq> Leader then (n, Inl ErrNotLeader)
      else if nTransferring n then (n, Inl ErrLeadershipTransfer)
      else if length command > MaxCommandBytes then (n, Inl ErrResourceLimit)
      else if lastIndex n = maxU64 then (n, Inl ErrResourceLimit)
      else appendOwn env EntryCommand command n)"

definition proposeNoOp :: "('st, 'sm) Env \<Rightarrow> ('st, 'sm) Node \<Rightarrow> ('st, 'sm, nat \<times> Message list) step" where
  "proposeNoOp env n = guardUsable n
     (if nRole n \<noteq> Leader then (n, Inl ErrNotLeader)
      else if nTransferring n then (n, Inl ErrLeadershipTransfer)
      else if lastIndex n = maxU64 then (n, Inl ErrResourceLimit)
      else appendOwn env EntryNoOp [] n)"

section \<open>Elections\<close>

definition leaderState :: "('st, 'sm) Node \<Rightarrow> ('st, 'sm) Node" where
  "leaderState n = n\<lparr>nRole := Leader, nLeaderID := nId n, nVotes := None, nHeartbeatElapsed := 0,
     nNextIndex := Some (\<lambda>p. if p \<in> set (nPeers n) then Some (add64 (lastIndex n) 1) else None),
     nMatchIndex := Some (\<lambda>p. if p \<in> set (nPeers n) then Some (snIndex (nSnapshot n)) else None)\<rparr>"

definition becomeLeader :: "('st, 'sm) Env \<Rightarrow> ('st, 'sm) Node \<Rightarrow> ('st, 'sm, Message list) step" where
  "becomeLeader env n =
     (if lastIndex n = maxU64 then failNode ErrResourceLimit n
      else andThen (appendOwn env EntryNoOp [] (leaderState n)) (\<lambda>n r. (n, Inr (snd r))))"

definition voteRequest :: "('st, 'sm) Node \<Rightarrow> NodeID \<Rightarrow> Message" where
  "voteRequest n peer = (newMessage RequestVote (nId n) peer (nTerm n))
     \<lparr>mgCandidateLastIndex := lastIndex n, mgCandidateLastTerm := lastTerm n\<rparr>"

definition candidateState :: "('st, 'sm) Env \<Rightarrow> ('st, 'sm) Node \<Rightarrow> ('st, 'sm) Node" where
  "candidateState env n = resetElectionTimer env ((setHard (add64 (nTerm n) 1) (nId n) n)
     \<lparr>nVotes := Some [nId n \<mapsto> True], nNextIndex := None, nMatchIndex := None\<rparr>)"

definition startElection :: "('st, 'sm) Env \<Rightarrow> ('st, 'sm) Node \<Rightarrow> ('st, 'sm, Message list) step" where
  "startElection env n =
     (if \<not> isVoter (nConfiguration n) (nId n) then (n, Inr [])
      else
        let n = n\<lparr>nRole := Candidate, nLeaderID := 0\<rparr> in
        if nTerm n = maxU64 then failNode ErrResourceLimit n
        else
          andThen (persist env (candidateState env n)) (\<lambda>n _.
            if quorum (nConfiguration n) (\<lambda>x. x = nId n) then becomeLeader env n
            else (n, Inr (map (voteRequest n)
                   (filter (\<lambda>p. p \<noteq> nId n \<and> isVoter (nConfiguration n) p) (members (nConfiguration n)))))))"

definition advanceTerm :: "('st, 'sm) Env \<Rightarrow> nat \<Rightarrow> ('st, 'sm) Node \<Rightarrow> ('st, 'sm, unit) step" where
  "advanceTerm env term n =
     (if \<not> term > nTerm n then panic ''RAFT-6'' n
      else persist env (becomeFollower env 0 (setHard term 0 n)))"

definition tickTransfer :: "('st, 'sm) Node \<Rightarrow> ('st, 'sm) Node" where
  "tickTransfer n =
     (if nTransferring n then
        let elapsed = add64 (nTransferElapsed n) 1 in
        if elapsed \<ge> nElectionTimeout n then n\<lparr>nTransferring := False, nTransferElapsed := 0\<rparr>
        else n\<lparr>nTransferElapsed := elapsed\<rparr>
      else n)"

definition tick :: "('st, 'sm) Env \<Rightarrow> ('st, 'sm) Node \<Rightarrow> ('st, 'sm, Message list) step" where
  "tick env n = guardUsable n
     (if nRole n = Leader then
        let n = tickTransfer n; elapsed = add64 (nHeartbeatElapsed n) 1 in
        if elapsed < nHeartbeatInterval n then (n\<lparr>nHeartbeatElapsed := elapsed\<rparr>, Inr [])
        else replicationMessages (n\<lparr>nHeartbeatElapsed := 0\<rparr>)
      else if \<not> isVoter (nConfiguration n) (nId n) then (n\<lparr>nElectionElapsed := 0\<rparr>, Inr [])
      else
        let n = n\<lparr>nElectionElapsed := add64 (nElectionElapsed n) 1\<rparr> in
        if nElectionElapsed n < nElectionTimeout n then (n, Inr []) else startElection env n)"

definition transferLeadership :: "NodeID \<Rightarrow> ('st, 'sm) Node \<Rightarrow> ('st, 'sm, Message list) step" where
  "transferLeadership target n = guardUsable n
     (if nRole n \<noteq> Leader \<or> target = nId n \<or> \<not> isVoter (nConfiguration n) target \<or>
         mapIndex (nMatchIndex n) target < lastIndex n then (n, Inl ErrLeadershipTransfer)
      else (n\<lparr>nTransferring := True, nTransferElapsed := 0\<rparr>,
            Inr [newMessage TimeoutNow (nId n) target (nTerm n)]))"

definition stop :: "('st, 'sm) Node \<Rightarrow> ('st, 'sm) Node" where
  "stop n = n\<lparr>nStopped := True\<rparr>"

section \<open>Vote handlers\<close>

definition handleTimeoutNow :: "('st, 'sm) Env \<Rightarrow> Message \<Rightarrow> ('st, 'sm) Node \<Rightarrow> ('st, 'sm, Message list) step" where
  "handleTimeoutNow env m n =
     (if mgTerm m \<noteq> nTerm n \<or> nRole n \<noteq> Follower \<or> nLeaderID n \<noteq> mgFrom m \<or>
         \<not> isVoter (nConfiguration n) (nId n) then (n, Inr [])
      else startElection env n)"

definition voteResponse :: "('st, 'sm) Node \<Rightarrow> NodeID \<Rightarrow> bool \<Rightarrow> Message" where
  "voteResponse n to granted = (newMessage RequestVoteResponse (nId n) to (nTerm n))\<lparr>mgVoteGranted := granted\<rparr>"

definition grantsVote :: "('st, 'sm) Node \<Rightarrow> Message \<Rightarrow> bool" where
  "grantsVote n m \<longleftrightarrow>
     isVoter (nConfiguration n) (nId n) \<and> isVoter (nConfiguration n) (mgFrom m) \<and> mgTerm m = nTerm n \<and>
     logUpToDate n (mgCandidateLastIndex m) (mgCandidateLastTerm m) \<and>
     (hVotedFor (nHard n) = 0 \<or> hVotedFor (nHard n) = mgFrom m)"

definition handleRequestVote :: "('st, 'sm) Env \<Rightarrow> Message \<Rightarrow> ('st, 'sm) Node \<Rightarrow> ('st, 'sm, Message list) step" where
  "handleRequestVote env m n =
     (if mgCandidateLastTerm m > mgTerm m then (n, Inl ErrInvalidMessage)
      else if grantsVote n m then
        andThen
          (if hVotedFor (nHard n) \<noteq> mgFrom m then persist env (setHard (nTerm n) (mgFrom m) n) else (n, Inr ()))
          (\<lambda>n _. let n = resetElectionTimer env n in (n, Inr [voteResponse n (mgFrom m) True]))
      else (n, Inr [voteResponse n (mgFrom m) False]))"

definition recordVote :: "Message \<Rightarrow> ('st, 'sm) Node \<Rightarrow> ('st, 'sm, unit) step" where
  "recordVote m n =
     (if mgVoteGranted m then
        case nVotes n of None \<Rightarrow> panic ''nil map'' n
        | Some f \<Rightarrow> (n\<lparr>nVotes := Some (f(mgFrom m \<mapsto> True))\<rparr>, Inr ())
      else (n, Inr ()))"

definition handleVoteResponse :: "('st, 'sm) Env \<Rightarrow> Message \<Rightarrow> ('st, 'sm) Node \<Rightarrow> ('st, 'sm, Message list) step" where
  "handleVoteResponse env m n =
     (if mgTerm m < nTerm n \<or> nRole n \<noteq> Candidate \<or> mgTerm m \<noteq> nTerm n then (n, Inr [])
      else
        andThen (recordVote m n) (\<lambda>n _.
          if quorum (nConfiguration n) (mapVote (nVotes n)) then becomeLeader env n else (n, Inr [])))"

section \<open>Append handlers\<close>

fun validateAppendEntries :: "nat \<Rightarrow> nat \<Rightarrow> nat \<Rightarrow> nat \<Rightarrow> Entry list \<Rightarrow> bool" where
  "validateAppendEntries prevIndex msgTerm offset previousTerm [] = True"
| "validateAppendEntries prevIndex msgTerm offset previousTerm (e # es) =
     (if eIndex e \<noteq> add64 (add64 prevIndex offset) 1 \<or> eTerm e = 0 \<or> eTerm e < previousTerm \<or>
         eTerm e > msgTerm \<or> \<not> validEntryType (eType e) \<or> length (eCommand e) > MaxCommandBytes \<or>
         eType e = EntryNoOp \<and> eCommand e \<noteq> [] then False
      else validateAppendEntries prevIndex msgTerm (offset + 1) (eTerm e) es)"

definition validateAppend :: "Message \<Rightarrow> bool" where
  "validateAppend m \<longleftrightarrow>
     \<not> mgPrevLogIndex m + length (mgEntries m) > maxU64 \<and>
     validateAppendEntries (mgPrevLogIndex m) (mgTerm m) 0 (mgPrevLogTerm m) (mgEntries m)"

definition appendResponse :: "('st, 'sm) Node \<Rightarrow> NodeID \<Rightarrow> bool \<Rightarrow> nat \<Rightarrow> nat \<Rightarrow> Message" where
  "appendResponse n to success match hint = (newMessage AppendEntriesResponse (nId n) to (nTerm n))
     \<lparr>mgSuccess := success, mgMatchIndex := match, mgRejectHint := hint\<rparr>"

text \<open>
  The merge loop of \<open>handleAppendEntries\<close>. It skips entries the log already has, and at the first
  missing or conflicting one replaces the rest of the log; the flag tells whether it changed
  anything.
\<close>

fun mergeEntries :: "('st, 'sm) Node \<Rightarrow> Entry list \<Rightarrow> ('st, 'sm, bool) step" where
  "mergeEntries n [] = (n, Inr False)"
| "mergeEntries n (incoming # rest) =
     (case entryAt n (eIndex incoming) of
        Inr local \<Rightarrow>
          if eTerm local = eTerm incoming then
            if eType local = eType incoming \<and> eCommand local = eCommand incoming
            then mergeEntries n rest else panic ''RAFT-3'' n
          else if eIndex incoming \<le> nCommitIndex n then panic ''RAFT-4'' n
          else
            (setEntries (take (eIndex incoming - snIndex (nSnapshot n) - 1) (nEntries n) @ incoming # rest) n,
             Inr True)
      | Inl e \<Rightarrow>
          if e \<noteq> ErrUnavailable then (n, Inl e)
          else (setEntries (nEntries n @ incoming # rest) n, Inr True))"

definition followerCommit :: "('st, 'sm) Env \<Rightarrow> Message \<Rightarrow> nat \<Rightarrow> ('st, 'sm) Node \<Rightarrow> ('st, 'sm, unit) step" where
  "followerCommit env m lastCovered n =
     (if mgLeaderCommit m > nCommitIndex n
      then applyCommitted env (n\<lparr>nCommitIndex := min (mgLeaderCommit m) lastCovered\<rparr>)
      else (n, Inr ()))"

definition acceptAppend :: "('st, 'sm) Env \<Rightarrow> Message \<Rightarrow> ('st, 'sm) Node \<Rightarrow> ('st, 'sm, Message list) step" where
  "acceptAppend env m n =
     andThen (mergeEntries n (mgEntries m)) (\<lambda>n changed.
     andThen (if changed then persist env n else (n, Inr ())) (\<lambda>n _.
       let lastCovered = add64 (mgPrevLogIndex m) (length (mgEntries m)) in
       andThen (followerCommit env m lastCovered n) (\<lambda>n _.
         (n, Inr [appendResponse n (mgFrom m) True lastCovered 0]))))"

definition handleAppendEntries :: "('st, 'sm) Env \<Rightarrow> Message \<Rightarrow> ('st, 'sm) Node \<Rightarrow> ('st, 'sm, Message list) step" where
  "handleAppendEntries env m n =
     (if mgTerm m < nTerm n
      then (n, Inr [appendResponse n (mgFrom m) False 0 (add64 (lastIndex n) 1)])
      else if nRole n = Leader \<and> mgFrom m \<noteq> nId n then panic ''RAFT-1'' n
      else
        let n = (if nRole n \<noteq> Follower \<or> nLeaderID n \<noteq> mgFrom m then becomeFollower env (mgFrom m) n
                 else resetElectionTimer env n);
            boundary = snIndex (nSnapshot n) in
        if \<not> validateAppend m then (n, Inl ErrInvalidMessage)
        else if mgPrevLogIndex m < boundary then
          (n, Inr [appendResponse n (mgFrom m) False 0 (if boundary < maxU64 then boundary + 1 else boundary)])
        else
          (case termAt n (mgPrevLogIndex m) of
             Inl e \<Rightarrow>
               if e = ErrUnavailable
               then (n, Inr [appendResponse n (mgFrom m) False 0 (add64 (lastIndex n) 1)])
               else (n, Inl e)
           | Inr previousTerm \<Rightarrow>
               if previousTerm \<noteq> mgPrevLogTerm m then
                 (n, Inr [appendResponse n (mgFrom m) False 0 (firstIndexOfTerm n (mgPrevLogIndex m) previousTerm)])
               else acceptAppend env m n))"

definition recordMatch :: "Message \<Rightarrow> ('st, 'sm) Node \<Rightarrow> ('st, 'sm, unit) step" where
  "recordMatch m n =
     (if mgMatchIndex m > mapIndex (nMatchIndex n) (mgFrom m) then
        andThen (setMatch (mgFrom m) (mgMatchIndex m) n) (\<lambda>n _.
          setNext (mgFrom m) (add64 (mgMatchIndex m) 1) n)
      else (n, Inr ()))"

definition nextAfterReject :: "Message \<Rightarrow> ('st, 'sm) Node \<Rightarrow> nat" where
  "nextAfterReject m n =
     (let current = mapIndex (nNextIndex n) (mgFrom m);
          hint = mgRejectHint m;
          maximumNext = (if lastIndex n < maxU64 then lastIndex n + 1 else lastIndex n) in
      if hint > current \<and> hint \<le> maximumNext then hint
      else if hint = 0 \<or> hint \<ge> current then (if current > 1 then current - 1 else 1)
      else hint)"

definition handleAppendResponse :: "('st, 'sm) Env \<Rightarrow> Message \<Rightarrow> ('st, 'sm) Node \<Rightarrow> ('st, 'sm, Message list) step" where
  "handleAppendResponse env m n =
     (if mgTerm m < nTerm n \<or> nRole n \<noteq> Leader \<or> mgTerm m \<noteq> nTerm n then (n, Inr [])
      else if mgSuccess m then
        if mgMatchIndex m > lastIndex n then (n, Inl ErrInvalidMessage)
        else
          andThen (recordMatch m n) (\<lambda>n _.
            let before = nCommitIndex n in
            andThen (advanceCommit env n) (\<lambda>n _.
              if nCommitIndex n \<noteq> before then replicationMessages n else (n, Inr [])))
      else
        andThen (setNext (mgFrom m) (nextAfterReject m n) n) (\<lambda>n _. sendReplication n (mgFrom m)))"

section \<open>Snapshot handlers\<close>

definition snapshotResponse :: "('st, 'sm) Node \<Rightarrow> NodeID \<Rightarrow> bool \<Rightarrow> nat \<Rightarrow> Message" where
  "snapshotResponse n to success match = (newMessage InstallSnapshotResponse (nId n) to (nTerm n))
     \<lparr>mgSuccess := success, mgMatchIndex := match\<rparr>"

definition snapshotMessageInvalid :: "Message \<Rightarrow> bool" where
  "snapshotMessageInvalid m \<longleftrightarrow>
     (let sn = mgSnapshot m in
      snIndex sn = 0 \<or> snTerm sn = 0 \<or> snTerm sn > mgTerm m \<or> length (snData sn) > MaxCommandBytes \<or>
      cfVersion (snConfig sn) \<noteq> 0 \<and> validateConfiguration (snConfig sn) \<noteq> Inr ())"

text \<open>The log suffix kept under an installed snapshot whose boundary matches the log.\<close>

definition retainedSuffix :: "('st, 'sm) Node \<Rightarrow> Snapshot \<Rightarrow> raft_error + Entry list" where
  "retainedSuffix n sn =
     (case termAt n (snIndex sn) of
        Inl e \<Rightarrow> if isPanic e then Inl e else Inr []
      | Inr term \<Rightarrow> if term = snTerm sn then entriesFrom n (add64 (snIndex sn) 1) else Inr [])"

definition snapshotCandidate :: "Snapshot \<Rightarrow> Entry list \<Rightarrow> PersistentState \<Rightarrow> PersistentState" where
  "snapshotCandidate sn kept p = p\<lparr>psSnapshot := sn, psEntries := kept,
     psConfig := (if cfVersion (snConfig sn) > cfVersion (psConfig p) then snConfig sn else psConfig p)\<rparr>"

definition adoptSnapshot :: "('st, 'sm) Env \<Rightarrow> Message \<Rightarrow> PersistentState \<Rightarrow> ('st, 'sm) Node \<Rightarrow> ('st, 'sm, Message list) step" where
  "adoptSnapshot env m candidate n =
     (let sn = mgSnapshot m in
      andThen
        (if cfVersion (psConfig candidate) > cfVersion (nConfiguration n)
         then installConfiguration env (psConfig candidate) n else (n, Inr ()))
        (\<lambda>n _.
          let n = n\<lparr>nCommitIndex := max (nCommitIndex n) (snIndex sn), nLastApplied := snIndex sn\<rparr>
          in (n, Inr [snapshotResponse n (mgFrom m) True (snIndex sn)])))"

definition installSnapshot :: "('st, 'sm) Env \<Rightarrow> Message \<Rightarrow> ('st, 'sm) Node \<Rightarrow> ('st, 'sm, Message list) step" where
  "installSnapshot env m n =
     (case retainedSuffix n (mgSnapshot m) of
        Inl e \<Rightarrow> (n, Inl e)
      | Inr kept \<Rightarrow>
          let candidate = snapshotCandidate (mgSnapshot m) kept (nPersistent n) in
          andThen (saveState env candidate n) (\<lambda>n _.
            (case envRestore env (nStateMachine n) (snData (mgSnapshot m)) of
               (sm, Inl e) \<Rightarrow> failNode (Joined ErrApply e) (n\<lparr>nStateMachine := sm\<rparr>)
             | (sm, Inr _) \<Rightarrow>
                 adoptSnapshot env m candidate (n\<lparr>nStateMachine := sm, nPersistent := candidate\<rparr>))))"

definition handleInstallSnapshot :: "('st, 'sm) Env \<Rightarrow> Message \<Rightarrow> ('st, 'sm) Node \<Rightarrow> ('st, 'sm, Message list) step" where
  "handleInstallSnapshot env m n =
     (if mgTerm m < nTerm n
      then (n, Inr [snapshotResponse n (mgFrom m) False (snIndex (nSnapshot n))])
      else if snapshotMessageInvalid m then (n, Inl ErrInvalidMessage)
      else if nRole n = Leader \<and> mgFrom m \<noteq> nId n then panic ''RAFT-1'' n
      else
        let n = becomeFollower env (mgFrom m) n; i = snIndex (mgSnapshot m) in
        if i \<le> snIndex (nSnapshot n) \<or> i \<le> nCommitIndex n
        then (n, Inr [snapshotResponse n (mgFrom m) True (min (max i (snIndex (nSnapshot n))) (lastIndex n))])
        else installSnapshot env m n)"

definition handleSnapshotResponse :: "('st, 'sm) Env \<Rightarrow> Message \<Rightarrow> ('st, 'sm) Node \<Rightarrow> ('st, 'sm, Message list) step" where
  "handleSnapshotResponse env m n =
     (if mgTerm m < nTerm n \<or> nRole n \<noteq> Leader \<or> mgTerm m \<noteq> nTerm n then (n, Inr [])
      else if \<not> mgSuccess m then (n, Inr [])
      else if mgMatchIndex m > lastIndex n then (n, Inl ErrInvalidMessage)
      else
        let match = max (mapIndex (nMatchIndex n) (mgFrom m)) (mgMatchIndex m) in
        andThen (setMatch (mgFrom m) match n) (\<lambda>n _.
        andThen (setNext (mgFrom m) (add64 match 1) n) (\<lambda>n _.
          sendReplication n (mgFrom m))))"

definition machineSnapshot :: "('st, 'sm) Env \<Rightarrow> ('st, 'sm) Node \<Rightarrow> ('st, 'sm, bytes) step" where
  "machineSnapshot env n =
     (case envSnapshot env (nStateMachine n) of
        (sm, Inl e) \<Rightarrow> (n\<lparr>nStateMachine := sm\<rparr>, Inl (Joined ErrApply e))
      | (sm, Inr data) \<Rightarrow> (n\<lparr>nStateMachine := sm\<rparr>, Inr data))"

definition compactLog :: "('st, 'sm) Env \<Rightarrow> Snapshot \<Rightarrow> ('st, 'sm) Node \<Rightarrow> ('st, 'sm, Snapshot) step" where
  "compactLog env sn n =
     (case entriesFrom n (add64 (snIndex sn) 1) of
        Inl e \<Rightarrow> (n, Inl e)
      | Inr remaining \<Rightarrow>
          let candidate = (nPersistent n)\<lparr>psSnapshot := sn, psEntries := remaining\<rparr> in
          andThen (saveState env candidate n) (\<lambda>n _. (n\<lparr>nPersistent := candidate\<rparr>, Inr sn)))"

definition createSnapshot :: "('st, 'sm) Env \<Rightarrow> ('st, 'sm) Node \<Rightarrow> ('st, 'sm, Snapshot) step" where
  "createSnapshot env n = guardUsable n
     (if nLastApplied n = 0 \<or> nLastApplied n \<le> snIndex (nSnapshot n) then (n, Inl ErrUnavailable)
      else case termAt n (nLastApplied n) of
        Inl e \<Rightarrow> (n, Inl e)
      | Inr term \<Rightarrow>
          andThen (machineSnapshot env n) (\<lambda>n data.
            compactLog env \<lparr>snIndex = nLastApplied n, snTerm = term, snData = data, snConfig = nConfiguration n\<rparr> n))"

section \<open>Dispatch and construction\<close>

definition dispatch :: "('st, 'sm) Env \<Rightarrow> Message \<Rightarrow> ('st, 'sm) Node \<Rightarrow> ('st, 'sm, Message list) step" where
  "dispatch env m n =
     (if mgType m = RequestVote then handleRequestVote env m n
      else if mgType m = RequestVoteResponse then handleVoteResponse env m n
      else if mgType m = AppendEntries then handleAppendEntries env m n
      else if mgType m = AppendEntriesResponse then handleAppendResponse env m n
      else if mgType m = InstallSnapshot then handleInstallSnapshot env m n
      else if mgType m = InstallSnapshotResponse then handleSnapshotResponse env m n
      else if mgType m = TimeoutNow then handleTimeoutNow env m n
      else (n, Inl ErrInvalidMessage))"

definition stepMessage :: "('st, 'sm) Env \<Rightarrow> Message \<Rightarrow> ('st, 'sm) Node \<Rightarrow> ('st, 'sm, Message list) step" where
  "stepMessage env m n = guardUsable n
     (if mgTo m \<noteq> nId n \<or> mgFrom m = 0 \<or> mgFrom m \<notin> set (nPeers n) \<or> \<not> validMessageType (mgType m)
      then (n, Inl ErrInvalidMessage)
      else andThen (if mgTerm m > nTerm n then advanceTerm env (mgTerm m) n else (n, Inr ()))
             (\<lambda>n _. dispatch env m n))"

record Config =
  cgID :: NodeID
  cgPeers :: "NodeID list"
  cgElectionTimeoutMin :: nat
  cgElectionTimeoutMax :: nat
  cgHeartbeatInterval :: nat
  cgInitialConfig :: Configuration
  cgBootstrapLearner :: bool

definition validateConfig :: "Config \<Rightarrow> raft_error + unit" where
  "validateConfig c =
     (if cgID c = 0 \<or> cgElectionTimeoutMin c = 0 \<or> cgElectionTimeoutMax c < cgElectionTimeoutMin c \<or>
         cgHeartbeatInterval c = 0 \<or> cgHeartbeatInterval c \<ge> cgElectionTimeoutMin c \<or> cgPeers c = []
      then Inl ErrInvalidConfig
      else if hd (sort (cgPeers c)) = 0 \<or> cgID c \<notin> set (cgPeers c) then Inl ErrInvalidConfig
      else if remdups_adj (sort (cgPeers c)) \<noteq> sort (cgPeers c) then Inl ErrInvalidConfig
      else Inr ())"

definition initialNode :: "Config \<Rightarrow> Configuration \<Rightarrow> PersistentState \<Rightarrow> 'st \<Rightarrow> 'sm \<Rightarrow> ('st, 'sm) Node" where
  "initialNode cfg initial state st sm =
     \<lparr>nId = cgID cfg, nPeers = members initial, nConfiguration = initial,
      nElectionMin = cgElectionTimeoutMin cfg, nElectionMax = cgElectionTimeoutMax cfg,
      nHeartbeatInterval = cgHeartbeatInterval cfg, nDraws = 0, nStore = st, nStateMachine = sm,
      nPersistent = state\<lparr>psConfig := initial\<rparr>, nRole = Follower, nLeaderID = 0,
      nCommitIndex = snIndex (psSnapshot state), nLastApplied = snIndex (psSnapshot state),
      nElectionElapsed = 0, nElectionTimeout = 0, nHeartbeatElapsed = 0, nTransferElapsed = 0,
      nTransferring = False, nVotes = None, nNextIndex = None, nMatchIndex = None,
      nStopped = False, nFatal = None\<rparr>"

definition initialConfiguration :: "Config \<Rightarrow> PersistentState \<Rightarrow> Configuration" where
  "initialConfiguration cfg state = normalizeConfiguration
     (if cfVersion (psConfig state) \<noteq> 0 then psConfig state
      else if cfVersion (cgInitialConfig cfg) = 0
        then \<lparr>cfVersion = 1, cfOldVoters = cgPeers cfg, cfNewVoters = [], cfLearners = []\<rparr>
      else cgInitialConfig cfg)"

definition newNode :: "('st, 'sm) Env \<Rightarrow> Config \<Rightarrow> 'st \<Rightarrow> 'sm \<Rightarrow> raft_error + ('st, 'sm) Node" where
  "newNode env cfg st sm =
     bindR (validateConfig cfg) (\<lambda>_.
     bindR (envLoad env st) (\<lambda>state.
     bindR (validatePersistent state) (\<lambda>_.
       let initial = initialConfiguration cfg state in
       if validateConfiguration initial \<noteq> Inr () \<or>
          \<not> cgBootstrapLearner cfg \<and> \<not> isVoter initial (cgID cfg) \<and> \<not> isLearner initial (cgID cfg)
       then Inl ErrInvalidConfig
       else if hVotedFor (psHardState state) \<noteq> 0 \<and> \<not> isVoter initial (hVotedFor (psHardState state))
       then Inl ErrInvalidState
       else if snIndex (psSnapshot state) \<noteq> 0 then
         case envRestore env sm (snData (psSnapshot state)) of
           (_, Inl e) \<Rightarrow> Inl (Joined ErrApply e)
         | (sm', Inr _) \<Rightarrow> Inr (resetElectionTimer env (initialNode cfg initial state st sm'))
       else Inr (resetElectionTimer env (initialNode cfg initial state st sm)))))"

lemma newNode_okE:
  assumes "newNode env cfg st sm = Inr n"
  obtains state sm' where "envLoad env st = Inr state" and "validateConfig cfg = Inr ()"
    and "validatePersistent state = Inr ()" and "wfConfiguration (initialConfiguration cfg state)"
    and "n = resetElectionTimer env (initialNode cfg (initialConfiguration cfg state) state st sm')"
  using assms
  by (auto simp: newNode_def Let_def validateConfiguration_iff elim!: bindR_okE split: if_splits prod.splits sum.splits)

end
