(* ===== verification/Range_Properties.thy ===== *)
theory Range_Properties
  imports Range_Machine Raft_Node
begin

text \<open>
  What a replicated range promises over any sequence of committed commands, whatever its engine
  does: transaction decisions are final, participant outcomes are final, and a fenced range takes
  no more writes. Two theorems show where replay of the log and the admission of commands go
  wrong. The engine is a parameter throughout; the example engine serves the witnesses only.
\<close>

section \<open>Sequences of commands\<close>

primrec machineRun :: "'eng EngineOps \<Rightarrow> (bytes \<Rightarrow> bytes) \<Rightarrow> Entry list \<Rightarrow> 'eng stateMachine \<Rightarrow> 'eng stateMachine" where
  "machineRun ops sha [] m = m"
| "machineRun ops sha (e # es) m = machineRun ops sha es (fst (machineApply ops sha e m))"

lemma machineRun_le: "machineLe m (machineRun ops sha es m)"
proof (induction es arbitrary: m)
  case (Cons e es)
  from machineLe_trans [OF machineApply_le Cons.IH] show ?case by simp
qed simp

lemma mapLe_some: "mapLe le f g \<Longrightarrow> f k = Some v \<Longrightarrow> \<exists>v'. g k = Some v' \<and> le v v'"
  by (simp add: mapLe_def)

text \<open>
  C12. A transaction decision is final: once the record of a transaction is committed or aborted on
  its home range, no sequence of further commands, whether they succeed or fail and whatever the
  engine does, changes the record in any way; in particular a committed transaction is never
  aborted and an aborted one never committed.
\<close>

theorem decision_final:
  assumes "smRecords m t = Some r" and "statusTerminal (rStatus r)"
  shows "smRecords (machineRun ops sha es m) t = Some r"
proof -
  have "mapLe recordLe (smRecords m) (smRecords (machineRun ops sha es m))"
    using machineRun_le [of m ops sha es] by (simp add: machineLe_def)
  from mapLe_some [OF this assms(1)] show ?thesis using assms(2) by (auto simp: recordLe_def)
qed

text \<open>
  C13. A participant's outcome is final and its writes are fixed: once a participant record exists,
  its times, home and writes never change and its epoch never decreases, and once it is committed
  or aborted nothing changes it.
\<close>

theorem participant_final:
  assumes "smParticipants m t = Some p"
  shows "\<exists>p'. smParticipants (machineRun ops sha es m) t = Some p' \<and> pWrites p' = pWrites p \<and>
    pReadTime p' = pReadTime p \<and> pCommitTime p' = pCommitTime p \<and> pHome p' = pHome p \<and> pEpoch p \<le> pEpoch p' \<and>
    (participantTerminal (pStatus p) \<longrightarrow> p' = p)"
proof -
  have "mapLe participantLe (smParticipants m) (smParticipants (machineRun ops sha es m))"
    using machineRun_le [of m ops sha es] by (simp add: machineLe_def)
  from mapLe_some [OF this assms(1)] show ?thesis by (auto simp: participantLe_def)
qed

text \<open>
  C15. The watermarks that certify historical reads never move again: over any sequence of commands
  the largest applied timestamp, the safe read timestamp and the range clock do not decrease.
\<close>

theorem watermarks_monotone:
  "smMaxApplied m \<le> smMaxApplied (machineRun ops sha es m) \<and> smSafeRead m \<le> smSafeRead (machineRun ops sha es m) \<and>
   lastIssued (smClock m) \<le> lastIssued (smClock (machineRun ops sha es m))"
  using machineRun_le [of m ops sha es] by (simp add: machineLe_def)

lemma finalFence_fences:
  assumes "decodeCommand (eCommand f) = Inr c" and "cType c = CommandSplit" and "decodeSplitOperation (cValue c) = Inr op"
    and "sType op = SplitOpFinalFence" and "machineApply ops sha f m0 = (m, Inr ())"
  shows "smUserFence m" and "smLifecycle m \<noteq> 0"
  using assms
  by (auto simp: machineApply_def applySplit_def applySplitOp_def finalFence_def advanceMetadata_def onEngine_def
      split_op_defs lifecycle_defs Let_def elim!: andThen_okE split: if_splits sum.splits)

text \<open>
  C14. The final fence is a point of no return. Once an entry with the split operation
  \<open>SplitOpFinalFence\<close> has been applied, and whatever entries follow it, applying an entry
  that does not carry a split command is an error and leaves the whole machine exactly as it
  was: the engine, the transaction state, the watermarks, the clock and the lifecycle.
\<close>

theorem fence_is_final:
  assumes "decodeCommand (eCommand f) = Inr c" and "cType c = CommandSplit" and "decodeSplitOperation (cValue c) = Inr op"
    and "sType op = SplitOpFinalFence" and "machineApply ops sha f m0 = (m, Inr ())"
    and "\<forall>c'. decodeCommand (eCommand e) = Inr c' \<longrightarrow> cType c' \<noteq> CommandSplit"
  shows "\<exists>err. machineApply ops sha e (machineRun ops sha es m) = (machineRun ops sha es m, Inl err)"
proof -
  have "smUserFence (machineRun ops sha es m)" "smLifecycle (machineRun ops sha es m) \<noteq> 0"
    using machineRun_le [of m ops sha es] finalFence_fences [OF assms(1-5)] by (simp_all add: machineLe_def)
  then show ?thesis
    using assms(6) by (auto simp: machineApply_def Let_def split: sum.split)
qed

section \<open>Examples\<close>

text \<open>An engine that is a list of versions, newest first, with a durable frontier.\<close>

record exEngine =
  exFrontier :: u64
  exVersions :: "MVCCEntry list"

definition exPut :: "u64 \<Rightarrow> Mutation list \<Rightarrow> exEngine \<Rightarrow> exEngine" where
  "exPut ts ms e = e\<lparr>exVersions := map (\<lambda>m. \<lparr>meKey = mKey m, meValue = mValue m, meTimestamp = ts, meKind = mKind m\<rparr>) ms @ exVersions e\<rparr>"

definition exOps :: "exEngine EngineOps" where
  "exOps = \<lparr>opDurableApplied = (\<lambda>e. Inr (exFrontier e)),
     opApplyCommitted = (\<lambda>e i t raw m. (exPut i [m] e, Inr ())),
     opApplyMVCC = (\<lambda>e i t ts raw m. (exPut ts [m] e, Inr ())),
     opApplyPrepared = (\<lambda>e i t ts raw ms. (exPut ts ms e, Inr ())),
     opResolve = (\<lambda>e i t ts raw ms. (exPut ts ms e, Inr ())),
     opAdvance = (\<lambda>e i. (e, Inr ())),
     opGet = (\<lambda>e k t. case filter (\<lambda>v. meKey v = k \<and> meTimestamp v \<le> t) (exVersions e) of
        [] \<Rightarrow> Inl EngNotFound | v # _ \<Rightarrow> Inr v)\<rparr>"

definition exSha :: "bytes \<Rightarrow> bytes" where "exSha b = take 32 (b @ replicate 32 0)"

definition exFresh :: "exEngine \<Rightarrow> exEngine stateMachine" where
  "exFresh eng = \<lparr>smEngine = eng, smContainsKey = None, smMvcc = True, smMaxApplied = 0, smSafeRead = 0,
     smClock = \<lparr>lastIssued = 0\<rparr>, smRangeID = 1, smGeneration = 1, smRecords = Map.empty, smParticipants = Map.empty,
     smLifecycle = LifecycleActive, smSplitID = 0, smSplitEpoch = 0, smTxnFence = False, smUserFence = False,
     smBootstrapIndex = 0, smBootstrapSplitID = 0, smBootstrapParentID = 0, smBootstrapParentGen = 0,
     smBootstrapImage = replicate 32 0, smFenceIndex = 0, smParentReplayThrough = 0, smProvenance = Map.empty,
     smBootstrapSeen = {}\<rparr>"

definition exTxn :: TxnID where "exTxn = [0, 0, 0, 0, 0, 0, 0, 0, 0, 0, 0, 0, 0, 0, 0, 7]"

definition exHome :: Participant where "exHome = \<lparr>rangeID = 1, generation = 1\<rparr>"

definition exOp :: "OperationType \<Rightarrow> Operation" where
  "exOp t = \<lparr>oType = t, oID = exTxn, oReadTime = 10, oCommitTime = 20, oEpoch = 1, oHome = exHome,
     oParticipants = (if t = OpCreate then [exHome] else []),
     oWrites = (if t = OpPrepare then [\<lparr>wKey = [1], wValue = [9], wDelete = False\<rparr>] else [])\<rparr>"

definition exCommand :: "CommandType \<Rightarrow> Command" where
  "exCommand t = (let op = exOp (wantOperation t) in
     \<lparr>cType = t, cKey = [1],
      cValue = opHeader op @ concat (map encodeParticipant (oParticipants op)) @ concat (map encodeWrite (oWrites op)),
      cTimestamp = 20\<rparr>)"

definition exEntry :: "nat \<Rightarrow> CommandType \<Rightarrow> Entry" where
  "exEntry i t = \<lparr>eIndex = i, eTerm = 1, eType = EntryCommand,
     eCommand = commandHeader (exCommand t) @ cKey (exCommand t) @ cValue (exCommand t)\<rparr>"

lemma exTxn_nonzero: "\<not> idZero exTxn"
proof
  assume "idZero exTxn"
  then have "last exTxn = last (replicate 16 0)" by (simp only: idZero_def IDSize_def)
  then have "last exTxn = 0" by (simp add: last_replicate)
  then show False by (simp add: exTxn_def)
qed

lemma exOp_valid:
  "t \<in> {OpCreate, OpPrepare, OpCommit, OpAbort, OpResolveCommit, OpResolveAbort} \<Longrightarrow> validateOperation (exOp t) = Inr ()"
  unfolding op_defs
  by (elim insertE emptyE) (simp_all add: validateOperation_def exOp_def exHome_def exTxn_nonzero op_defs
      MaxParticipants_def MaxWrites_def MaxWriteBytes_def)

lemma exOp_decodes:
  assumes "t \<in> {OpCreate, OpPrepare, OpCommit, OpAbort, OpResolveCommit, OpResolveAbort}"
  shows "decodeOperation (opHeader (exOp t) @ concat (map encodeParticipant (oParticipants (exOp t))) @
    concat (map encodeWrite (oWrites (exOp t)))) = Inr (exOp t)"
proof (rule operation_roundtrip)
  have "operationSize (exOp t) \<le> MaxWriteBytes"
    by (simp add: operationSize_def exOp_def MaxWriteBytes_def codec_consts)
  then show "encodeOperation (exOp t) = Inr (opHeader (exOp t) @ concat (map encodeParticipant (oParticipants (exOp t))) @
      concat (map encodeWrite (oWrites (exOp t))))"
    using exOp_valid [OF assms] by (simp add: encodeOperation_def)
qed (simp add: exOp_def exTxn_def IDSize_def)

lemma exCommand_valid:
  assumes "t \<in> {CommandTxnCreate, CommandTxnPrepare, CommandTxnCommit, CommandTxnAbort, CommandTxnResolveCommit, CommandTxnResolveAbort}"
  shows "decodeCommand (eCommand (exEntry i t)) = Inr (exCommand t)"
proof (rule command_roundtrip)
  have want: "wantOperation t \<in> {OpCreate, OpPrepare, OpCommit, OpAbort, OpResolveCommit, OpResolveAbort}"
    using assms by (auto simp: wantOperation_def command_type_defs)
  have v: "decodeOperation (cValue (exCommand t)) = Inr (exOp (wantOperation t))"
    using exOp_decodes [OF want] by (simp add: exCommand_def Let_def)
  have len: "length (cValue (exCommand t)) \<le> 100"
    by (simp add: exCommand_def Let_def length_opHeader exOp_def exTxn_def IDSize_def opHeaderSize_def encodeWrite_def)
  have "cType (exCommand t) = t" "cKey (exCommand t) = [1]" "cTimestamp (exCommand t) = 20"
    "oType (exOp (wantOperation t)) = wantOperation t" "oCommitTime (exOp (wantOperation t)) = 20"
    by (simp_all add: exCommand_def exOp_def Let_def)
  moreover have "CommandTxnBarrier < t" "t < CommandSplit" "CommandPut \<le> t" "t \<noteq> CommandDelete" "t \<noteq> CommandTxnBarrier"
    using assms by (auto simp: command_type_defs)
  ultimately have "validateCommand (exCommand t) = Inr ()"
    using v len
    by (simp add: validateCommand_def headerSizeOf_def command_consts not_less)
  then show "encodeCommand (exCommand t) = Inr (eCommand (exEntry i t))"
    by (simp add: encodeCommand_def exEntry_def)
qed

definition exStore :: exEngine where
  "exStore = \<lparr>exFrontier = 0, exVersions = [\<lparr>meKey = [1], meValue = [5], meTimestamp = 50, meKind = KindValue\<rparr>]\<rparr>"

definition exRaw :: "CommandType \<Rightarrow> bytes" where
  "exRaw t = commandHeader (exCommand t) @ cKey (exCommand t) @ cValue (exCommand t)"

definition exTypes :: "CommandType set" where
  "exTypes = {CommandTxnCreate, CommandTxnPrepare, CommandTxnCommit, CommandTxnAbort, CommandTxnResolveCommit, CommandTxnResolveAbort}"

text \<open>One command of the example transaction on a serving machine.\<close>

lemma exApply:
  assumes t: "t \<in> exTypes" and m: "smLifecycle m = LifecycleActive" "\<not> smUserFence m" "smContainsKey m = None" "smMvcc m"
    "\<not> (smTxnFence m \<and> (t = CommandTxnCreate \<or> t = CommandTxnPrepare))"
  defines "n \<equiv> observe 20 m" and "op \<equiv> exOp (wantOperation t)" and "b i \<equiv> word_of_nat i \<le> exFrontier (smEngine m)"
  shows "machineApply exOps exSha (exEntry i t) m =
    andThen
      (if t = CommandTxnCreate then applyCreate op n
       else if t = CommandTxnPrepare then applyPrepare exOps (word_of_nat i) 1 (exRaw t) op (b i) n
       else if t = CommandTxnCommit then applyDecision op StatusCommitted n
       else if t = CommandTxnAbort then applyDecision op StatusAborted n
       else if t = CommandTxnResolveCommit then applyResolution exOps (word_of_nat i) 1 (exRaw t) op ParticipantCommitted (b i) n
       else applyResolution exOps (word_of_nat i) 1 (exRaw t) op ParticipantAborted (b i) n)
      (\<lambda>m _. if t = CommandTxnPrepare \<or> t = CommandTxnResolveCommit \<or> t = CommandTxnResolveAbort then (m, Inr ())
         else advanceMetadata exOps (word_of_nat i) (b i) m)"
proof -
  have c: "cType (exCommand t) = t" "cKey (exCommand t) = [1]" "cTimestamp (exCommand t) = 20"
    by (simp_all add: exCommand_def Let_def)
  have v: "decodeOperation (cValue (exCommand t)) = Inr op"
    using exOp_decodes [of "wantOperation t"] t
    by (auto simp: exCommand_def Let_def op_def wantOperation_def command_type_defs exTypes_def)
  have e: "eIndex (exEntry i t) = i" "eTerm (exEntry i t) = 1" "eCommand (exEntry i t) = exRaw t"
    by (simp_all add: exEntry_def exRaw_def)
  have d: "decodeCommand (exRaw t) = Inr (exCommand t)"
    using exCommand_valid [of t i] t by (simp add: exTypes_def e)
  have f: "opDurableApplied exOps = (\<lambda>e. Inr (exFrontier e))" by (simp add: exOps_def)
  have ty: "t \<noteq> CommandSplit" "CommandTxnBarrier \<le> t" "t \<noteq> CommandTxnBarrier" "t \<noteq> CommandTxnTakeover"
    "t \<notin> {CommandTxnCreate, CommandTxnPrepare, CommandTxnCommit, CommandTxnAbort, CommandTxnResolveCommit} \<Longrightarrow> t = CommandTxnResolveAbort"
    using t by (auto simp: exTypes_def command_type_defs)
  have l: "LifecycleActive \<noteq> 0" by (simp add: lifecycle_defs)
  have "machineApply exOps exSha (exEntry i t) m = applyTransaction exOps (word_of_nat i) 1 (exRaw t) (exCommand t) (b i) m"
    using m ty l by (auto simp: machineApply_def e d c f Let_def containsKey_def b_def)
  then show ?thesis
    using ty by (auto simp: applyTransaction_def c v Let_def n_def)
qed

lemmas machine_eval = applyCreate_def applyDecision_def applyPrepare_def applyResolution_def firstPrepare_def
  Let_def containsKey_def observe_def clockObserve_def advanceMetadata_def onEngine_def orApplied_def setParticipant_def preparedRecord_def
  resolutionMutation_def exOps_def exPut_def exOp_def exHome_def exFresh_def exStore_def
  command_type_defs wantOperation_def op_defs kind_defs exTypes_def statusTerminal_def

lemma exFresh_serving:
  "smLifecycle (exFresh e) = LifecycleActive" "\<not> smUserFence (exFresh e)" "smContainsKey (exFresh e) = None" "smMvcc (exFresh e)"
  "\<not> smTxnFence (exFresh e)" "smEngine (exFresh e) = e"
  by (simp_all add: exFresh_def)

definition exRecord :: "Status \<Rightarrow> Record" where
  "exRecord s = \<lparr>rID = exTxn, rStatus = s, rReadTime = 10, rCommitTime = 20, rEpoch = 1, rHome = exHome, rParticipants = [exHome]\<rparr>"

definition exDecided :: "exEngine stateMachine" where
  "exDecided = machineRun exOps exSha [exEntry 1 CommandTxnCreate, exEntry 2 CommandTxnCommit] (exFresh exStore)"

lemma exCreate: "machineApply exOps exSha (exEntry 1 CommandTxnCreate) (exFresh exStore) =
   ((observe 20 (exFresh exStore))\<lparr>smRecords := [exTxn \<mapsto> exRecord StatusPending]\<rparr>, Inr ())"
  by (subst exApply) (simp_all add: exFresh_serving exTypes_def, simp add: machine_eval exRecord_def)

lemma exDecided_record: "smRecords exDecided exTxn = Some (exRecord StatusCommitted)"
proof -
  let ?m = "(observe 20 (exFresh exStore))\<lparr>smRecords := [exTxn \<mapsto> exRecord StatusPending]\<rparr>"
  have "smRecords (fst (machineApply exOps exSha (exEntry 2 CommandTxnCommit) ?m)) exTxn = Some (exRecord StatusCommitted)"
    by (subst exApply) (simp_all add: exFresh_serving exTypes_def observe_def, simp add: machine_eval exRecord_def)
  then show ?thesis by (simp add: exDecided_def exCreate [simplified])
qed

theorem decision_final_witness:
  "smRecords (machineRun exOps exSha [exEntry 3 CommandTxnAbort] exDecided) exTxn = Some (exRecord StatusCommitted)"
  by (rule decision_final [OF exDecided_record]) (simp add: exRecord_def statusTerminal_def)

definition exPrepared :: "u64 \<Rightarrow> exEngine stateMachine" where
  "exPrepared frontier = fst (machineApply exOps exSha (exEntry 5 CommandTxnPrepare) (exFresh (exStore\<lparr>exFrontier := frontier\<rparr>)))"

lemma exPrepared_rejected: "exPrepared 0 = setParticipant exTxn
    ((preparedRecord (exOp OpPrepare))\<lparr>pStatus := ParticipantRejected, pReason := conflictReason\<rparr>) (observe 20 (exFresh exStore))"
  unfolding exPrepared_def by (subst exApply) (simp_all add: exFresh_serving exTypes_def, simp add: machine_eval)

theorem participant_final_witness:
  "\<exists>p'. smParticipants (machineRun exOps exSha [exEntry 6 CommandTxnResolveAbort] (exPrepared 0)) exTxn = Some p' \<and>
     pWrites p' = [\<lparr>wKey = [1], wValue = [9], wDelete = False\<rparr>]"
proof -
  have "smParticipants (exPrepared 0) exTxn = Some ((preparedRecord (exOp OpPrepare))\<lparr>pStatus := ParticipantRejected, pReason := conflictReason\<rparr>)"
    by (simp add: exPrepared_rejected setParticipant_def)
  from participant_final [OF this, of exOps exSha "[exEntry 6 CommandTxnResolveAbort]"] show ?thesis
    by (auto simp: preparedRecord_def exOp_def)
qed

section \<open>Replaying a rejected prepare\<close>

text \<open>An entry that a serving multi-version range takes as a transaction command.\<close>

definition carries :: "'eng stateMachine \<Rightarrow> Entry \<Rightarrow> CommandType \<Rightarrow> Operation \<Rightarrow> bool" where
  "carries m e t op \<longleftrightarrow>
     (case decodeCommand (eCommand e) of
        Inl _ \<Rightarrow> False
      | Inr c \<Rightarrow> cType c = t \<and> cTimestamp c \<noteq> 0 \<and> containsKey m (cKey c) \<and> decodeOperation (cValue c) = Inr op)"

definition serving :: "'eng stateMachine \<Rightarrow> bool" where
  "serving m \<longleftrightarrow> smLifecycle m = LifecycleActive \<and> \<not> smUserFence m \<and> \<not> smTxnFence m \<and> smMvcc m"

text \<open>The index at which the entry is applied.\<close>

definition appliedAt :: "Entry \<Rightarrow> u64" where
  "appliedAt e = word_of_nat (eIndex e)"

lemma serving_prepare:
  assumes "serving m" and "carries m e CommandTxnPrepare op" and "opDurableApplied ops (smEngine m) = Inr a"
  shows "\<exists>ts. machineApply ops sha e m =
    applyPrepare ops (appliedAt e) (word_of_nat (eTerm e)) (eCommand e) op (appliedAt e \<le> a) (observe ts m)"
proof -
  obtain c where c: "decodeCommand (eCommand e) = Inr c" "cType c = CommandTxnPrepare" "cTimestamp c \<noteq> 0"
      "containsKey m (cKey c)" "decodeOperation (cValue c) = Inr op"
    using assms(2) by (auto simp: carries_def split: sum.splits)
  have "machineApply ops sha e m = andThen
      (applyPrepare ops (appliedAt e) (word_of_nat (eTerm e)) (eCommand e) op (appliedAt e \<le> a) (observe (cTimestamp c) m)) (\<lambda>m _. (m, Inr ()))"
    using assms(1,3) c
    by (simp add: serving_def machineApply_def applyTransaction_def appliedAt_def command_type_defs lifecycle_defs Let_def)
  moreover have "andThen r (\<lambda>m _. (m, Inr ())) = r" for r :: "('a, unit) mstep"
    by (cases r; cases "snd r") auto
  ultimately show ?thesis by auto
qed

lemma serving_resolve:
  assumes "serving m" and "carries m e CommandTxnResolveCommit op" and "opDurableApplied ops (smEngine m) = Inr a"
  shows "\<exists>ts. machineApply ops sha e m =
    applyResolution ops (appliedAt e) (word_of_nat (eTerm e)) (eCommand e) op ParticipantCommitted (appliedAt e \<le> a) (observe ts m)"
proof -
  obtain c where c: "decodeCommand (eCommand e) = Inr c" "cType c = CommandTxnResolveCommit" "cTimestamp c \<noteq> 0"
      "containsKey m (cKey c)" "decodeOperation (cValue c) = Inr op"
    using assms(2) by (auto simp: carries_def split: sum.splits)
  have "machineApply ops sha e m = andThen
      (applyResolution ops (appliedAt e) (word_of_nat (eTerm e)) (eCommand e) op ParticipantCommitted (appliedAt e \<le> a) (observe (cTimestamp c) m))
      (\<lambda>m _. (m, Inr ()))"
    using assms(1,3) c
    by (simp add: serving_def machineApply_def applyTransaction_def appliedAt_def command_type_defs lifecycle_defs Let_def)
  moreover have "andThen r (\<lambda>m _. (m, Inr ())) = r" for r :: "('a, unit) mstep"
    by (cases r; cases "snd r") auto
  ultimately show ?thesis by auto
qed

lemma observe_fields [simp]:
  "smEngine (observe t m) = smEngine m" "smParticipants (observe t m) = smParticipants m" "serving (observe t m) = serving m"
  "containsKey (observe t m) = containsKey m" "carries (observe t m) = carries m"
proof -
  show k: "containsKey (observe t m) = containsKey m" by (simp add: observe_def containsKey_def fun_eq_iff)
  show "carries (observe t m) = carries m" by (simp add: carries_def k fun_eq_iff split: sum.split)
qed (simp_all add: observe_def serving_def)

lemma engine_fields [simp]:
  "serving (m\<lparr>smEngine := x\<rparr>) = serving m" "containsKey (m\<lparr>smEngine := x\<rparr>) = containsKey m"
  "carries (m\<lparr>smEngine := x\<rparr>) = carries m"
proof -
  show k: "containsKey (m\<lparr>smEngine := x\<rparr>) = containsKey m" by (simp add: containsKey_def fun_eq_iff)
  show "carries (m\<lparr>smEngine := x\<rparr>) = carries m" by (simp add: carries_def k fun_eq_iff split: sum.split)
qed (simp add: serving_def)

lemma participant_fields [simp]:
  "serving (setParticipant t p m) = serving m" "containsKey (setParticipant t p m) = containsKey m"
  "carries (setParticipant t p m) = carries m" "smEngine (setParticipant t p m) = smEngine m"
  "smParticipants (setParticipant t p m) = (smParticipants m)(t \<mapsto> p)"
proof -
  show k: "containsKey (setParticipant t p m) = containsKey m" by (simp add: setParticipant_def containsKey_def fun_eq_iff)
  show "carries (setParticipant t p m) = carries m" by (simp add: carries_def k fun_eq_iff split: sum.split)
qed (simp_all add: setParticipant_def serving_def)

text \<open>
  C16. Replay does not repeat a rejection, whatever the engine. Let a serving range without a
  record of a transaction apply the prepare of that transaction and then its commit
  resolution. On a replica that applies the prepare for the first time, its index above the
  durable frontier, and whose engine finds a conflict, the prepare is recorded as rejected,
  and the resolution only advances the engine's applied index. On a replica that replays the
  same two entries after a restart with a durable frontier that covers the prepare, the
  conflict check is skipped, the prepare is recorded as prepared, and the resolution makes the
  engine write the values of the transaction.
\<close>

theorem rejected_prepare_replays_as_prepared:
  assumes "serving m" and "smParticipants m (oID op) = None" and "list_all (\<lambda>w. containsKey m (wKey w)) (oWrites op)"
    and "carries m e CommandTxnPrepare op" and "carries m e' CommandTxnResolveCommit op'"
    and "oID op' = oID op" and "oReadTime op' = oReadTime op" and "oCommitTime op' = oCommitTime op"
    and "oHome op' = oHome op" and "oEpoch op \<le> oEpoch op'"
    and "opDurableApplied ops live = Inr a" and "a < appliedAt e"
    and "prepareConflict ops live (oReadTime op) (oWrites op) = Inr True"
    and "opAdvance ops live (appliedAt e) = (live', Inr ())" and "opDurableApplied ops live' = Inr a'" and "a' < appliedAt e'"
    and "opDurableApplied ops restarted = Inr b" and "appliedAt e \<le> b" and "b < appliedAt e'"
  shows "map_option pStatus (smParticipants (machineRun ops sha [e] (m\<lparr>smEngine := live\<rparr>)) (oID op)) = Some ParticipantRejected \<and>
    smEngine (machineRun ops sha [e, e'] (m\<lparr>smEngine := live\<rparr>)) = fst (opAdvance ops live' (appliedAt e')) \<and>
    map_option pStatus (smParticipants (machineRun ops sha [e] (m\<lparr>smEngine := restarted\<rparr>)) (oID op)) = Some ParticipantPrepared \<and>
    smEngine (machineRun ops sha [e, e'] (m\<lparr>smEngine := restarted\<rparr>)) =
      fst (opResolve ops restarted (appliedAt e') (word_of_nat (eTerm e')) (oCommitTime op) (eCommand e')
        (map (resolutionMutation ParticipantCommitted) (oWrites op)))"
proof -
  let ?p = "(preparedRecord op)\<lparr>pStatus := ParticipantRejected, pReason := conflictReason\<rparr>"
  have p: "pReadTime (preparedRecord op) = oReadTime op'" "pCommitTime (preparedRecord op) = oCommitTime op'"
    "pHome (preparedRecord op) = oHome op'" "\<not> oEpoch op' < pEpoch (preparedRecord op)"
    "pStatus (preparedRecord op) = ParticipantPrepared" "pWrites (preparedRecord op) = oWrites op"
    using assms(7-10) by (simp_all add: preparedRecord_def not_less)
  have above: "\<not> appliedAt e \<le> a" "\<not> appliedAt e' \<le> a'" "\<not> appliedAt e' \<le> b"
    using assms(12,16,19) by (simp_all add: not_le)
  obtain ts where "machineApply ops sha e (m\<lparr>smEngine := live\<rparr>) =
      applyPrepare ops (appliedAt e) (word_of_nat (eTerm e)) (eCommand e) op (appliedAt e \<le> a) (observe ts (m\<lparr>smEngine := live\<rparr>))"
    using serving_prepare [of "m\<lparr>smEngine := live\<rparr>" e op ops a sha] assms(1,4,11) by auto
  then have live: "fst (machineApply ops sha e (m\<lparr>smEngine := live\<rparr>)) =
      (setParticipant (oID op) ?p (observe ts (m\<lparr>smEngine := live\<rparr>)))\<lparr>smEngine := live'\<rparr>" (is "_ = ?live")
    using assms(2,3,13,14) above by (simp add: applyPrepare_def firstPrepare_def advanceMetadata_def onEngine_def)
  obtain ts' where "machineApply ops sha e' ?live =
      applyResolution ops (appliedAt e') (word_of_nat (eTerm e')) (eCommand e') op' ParticipantCommitted (appliedAt e' \<le> a') (observe ts' ?live)"
    using serving_resolve [of ?live e' op' ops a' sha] assms(1,5,15) by auto
  then have live': "smEngine (fst (machineApply ops sha e' ?live)) = fst (opAdvance ops live' (appliedAt e'))"
    using assms(6) above p by (simp add: applyResolution_def Let_def advanceMetadata_def onEngine_def)
  obtain us where "machineApply ops sha e (m\<lparr>smEngine := restarted\<rparr>) =
      applyPrepare ops (appliedAt e) (word_of_nat (eTerm e)) (eCommand e) op (appliedAt e \<le> b) (observe us (m\<lparr>smEngine := restarted\<rparr>))"
    using serving_prepare [of "m\<lparr>smEngine := restarted\<rparr>" e op ops b sha] assms(1,4,17) by auto
  then have again: "fst (machineApply ops sha e (m\<lparr>smEngine := restarted\<rparr>)) =
      setParticipant (oID op) (preparedRecord op) (observe us (m\<lparr>smEngine := restarted\<rparr>))" (is "_ = ?again")
    using assms(2,3,18) by (simp add: applyPrepare_def firstPrepare_def)
  obtain us' where "machineApply ops sha e' ?again =
      applyResolution ops (appliedAt e') (word_of_nat (eTerm e')) (eCommand e') op' ParticipantCommitted (appliedAt e' \<le> b) (observe us' ?again)"
    using serving_resolve [of ?again e' op' ops b sha] assms(1,5,17) by auto
  then have again': "smEngine (fst (machineApply ops sha e' ?again)) =
      fst (opResolve ops restarted (appliedAt e') (word_of_nat (eTerm e')) (oCommitTime op) (eCommand e')
        (map (resolutionMutation ParticipantCommitted) (oWrites op)))"
    using assms(6,8) above p by (simp add: applyResolution_def Let_def onEngine_def orApplied_def andThen_def split: sum.split)
  show ?thesis using live live' again again' p(5) by simp
qed

theorem rejected_prepare_replays_as_prepared_witness:
  "map_option pStatus (smParticipants (machineRun exOps exSha [exEntry 5 CommandTxnPrepare] (exFresh exStore)) exTxn) = Some ParticipantRejected \<and>
   exVersions (smEngine (machineRun exOps exSha [exEntry 5 CommandTxnPrepare, exEntry 6 CommandTxnResolveCommit] (exFresh exStore))) =
     exVersions exStore \<and>
   exVersions (smEngine (machineRun exOps exSha [exEntry 5 CommandTxnPrepare, exEntry 6 CommandTxnResolveCommit]
     (exFresh (exStore\<lparr>exFrontier := 5\<rparr>)))) =
     \<lparr>meKey = [1], meValue = [9], meTimestamp = 20, meKind = KindValue\<rparr> # exVersions exStore"
proof -
  have c: "carries (exFresh x) (exEntry i t) t (exOp (wantOperation t))" if "t \<in> exTypes" for x i t
  proof -
    have "wantOperation t \<in> {OpCreate, OpPrepare, OpCommit, OpAbort, OpResolveCommit, OpResolveAbort}"
      using that by (auto simp: wantOperation_def command_type_defs exTypes_def)
    then have "decodeOperation (cValue (exCommand t)) = Inr (exOp (wantOperation t))"
      using exOp_decodes by (simp add: exCommand_def Let_def)
    moreover have "cType (exCommand t) = t" "cTimestamp (exCommand t) \<noteq> 0" by (simp_all add: exCommand_def Let_def)
    ultimately show ?thesis
      using exCommand_valid [of t i] that by (simp add: carries_def exTypes_def containsKey_def exFresh_def)
  qed
  have e: "(exFresh exStore)\<lparr>smEngine := x\<rparr> = exFresh x" for x by (simp add: exFresh_def)
  have w: "wantOperation CommandTxnPrepare = OpPrepare" "wantOperation CommandTxnResolveCommit = OpResolveCommit"
    by (simp_all add: wantOperation_def command_type_defs)
  have "serving (exFresh exStore)" by (simp add: serving_def exFresh_def)
  moreover have "smParticipants (exFresh exStore) (oID (exOp OpPrepare)) = None" by (simp add: exFresh_def)
  moreover have "list_all (\<lambda>w. containsKey (exFresh exStore) (wKey w)) (oWrites (exOp OpPrepare))"
    by (simp add: list_all_iff containsKey_def exFresh_def)
  moreover have "carries (exFresh exStore) (exEntry 5 CommandTxnPrepare) CommandTxnPrepare (exOp OpPrepare)"
    "carries (exFresh exStore) (exEntry 6 CommandTxnResolveCommit) CommandTxnResolveCommit (exOp OpResolveCommit)"
    using c [of CommandTxnPrepare] c [of CommandTxnResolveCommit] by (simp_all add: exTypes_def w)
  moreover have "prepareConflict exOps exStore (oReadTime (exOp OpPrepare)) (oWrites (exOp OpPrepare)) = Inr True"
    by (simp add: exOps_def exStore_def exOp_def)
  moreover have "exStore\<lparr>exFrontier := 5\<rparr> = x \<Longrightarrow> opDurableApplied exOps x = Inr 5" "opDurableApplied exOps exStore = Inr 0"
    "opAdvance exOps x i = (x, Inr ())" "opResolve exOps x i t ts raw ms = (exPut ts ms x, Inr ())" for x i t ts raw ms
    by (auto simp: exOps_def exStore_def)
  moreover have "appliedAt (exEntry 5 t) = 5" "appliedAt (exEntry 6 t) = 6" for t by (simp_all add: appliedAt_def exEntry_def)
  moreover have "exVersions (exPut 20 (map (resolutionMutation ParticipantCommitted) (oWrites (exOp OpPrepare))) (exStore\<lparr>exFrontier := 5\<rparr>)) =
      \<lparr>meKey = [1], meValue = [9], meTimestamp = 20, meKind = KindValue\<rparr> # exVersions exStore"
    by (simp add: exPut_def exOp_def resolutionMutation_def)
  moreover have "oID (exOp t) = exTxn" "oReadTime (exOp t) = 10" "oCommitTime (exOp t) = 20" "oHome (exOp t) = exHome" "oEpoch (exOp t) = 1" for t
    by (simp_all add: exOp_def)
  ultimately show ?thesis
    using rejected_prepare_replays_as_prepared [of "exFresh exStore" "exOp OpPrepare" "exEntry 5 CommandTxnPrepare"
        "exEntry 6 CommandTxnResolveCommit" "exOp OpResolveCommit" exOps exStore 0 exStore 0 "exStore\<lparr>exFrontier := 5\<rparr>" 5 exSha]
    by (simp add: e del: machineRun.simps)
qed

section \<open>A split fence in the log\<close>





definition exBegin :: SplitOperation where
  "exBegin = \<lparr>sType = SplitOpBegin, sSplitID = 9, sEpoch = 1, sParentRangeID = 1, sParentGeneration = 1, sParentIndex = 0,
     sTimestamp = 0, sKind = 0, sCommandDigest = zeroDigest, sImageDigest = zeroDigest, sValue = []\<rparr>"

definition exSplit :: Command where
  "exSplit = \<lparr>cType = CommandSplit, cKey = [], cValue = splitHeader exBegin, cTimestamp = 0\<rparr>"

definition exSplitEntry :: Entry where
  "exSplitEntry = \<lparr>eIndex = 1, eTerm = 1, eType = EntryCommand, eCommand = commandHeader exSplit @ cValue exSplit\<rparr>"

lemma exBegin_decodes: "decodeSplitOperation (cValue exSplit) = Inr exBegin"
proof -
  have "encodeSplitOperation exBegin = Inr (splitHeader exBegin)"
    by (simp add: encodeSplitOperation_def validateSplitOperation_def exBegin_def split_op_defs)
  moreover have "splitShape exBegin" by (simp add: splitShape_def exBegin_def zeroDigest_def)
  ultimately show ?thesis using split_operation_roundtrip by (simp add: exSplit_def)
qed

lemma exSplit_decodes: "decodeCommand (eCommand exSplitEntry) = Inr exSplit"
proof (rule command_roundtrip)
  have "length (cValue exSplit) = 124"
    by (simp add: exSplit_def splitHeader_def exBegin_def zeroDigest_def sha256Size_def splitOperationMagic_def)
  moreover have "cType exSplit = CommandSplit" "cKey exSplit = []" "cTimestamp exSplit = 0" "sTimestamp exBegin = 0"
    by (simp_all add: exSplit_def exBegin_def)
  ultimately have "validateCommand exSplit = Inr ()"
    using exBegin_decodes by (simp add: validateCommand_def command_consts headerSizeOf_def command_type_defs)
  then show "encodeCommand exSplit = Inr (eCommand exSplitEntry)"
    by (simp add: encodeCommand_def exSplitEntry_def exSplit_def)
qed

definition exFenced :: "exEngine stateMachine" where
  "exFenced = fst (machineApply exOps exSha exSplitEntry (exFresh exStore))"





text \<open>The same split carried to its final fence.\<close>

definition exFence :: SplitOperation where
  "exFence = exBegin\<lparr>sType := SplitOpFinalFence\<rparr>"

definition exFenceCommand :: Command where
  "exFenceCommand = exSplit\<lparr>cValue := splitHeader exFence\<rparr>"

definition exFenceEntry :: Entry where
  "exFenceEntry = \<lparr>eIndex = 2, eTerm = 1, eType = EntryCommand, eCommand = commandHeader exFenceCommand @ cValue exFenceCommand\<rparr>"

lemma exFence_decodes: "decodeSplitOperation (cValue exFenceCommand) = Inr exFence"
proof -
  have "encodeSplitOperation exFence = Inr (splitHeader exFence)"
    by (simp add: encodeSplitOperation_def validateSplitOperation_def exFence_def exBegin_def split_op_defs)
  moreover have "splitShape exFence" by (simp add: splitShape_def exFence_def exBegin_def zeroDigest_def)
  ultimately show ?thesis using split_operation_roundtrip by (simp add: exFenceCommand_def)
qed

lemma exFenceCommand_decodes: "decodeCommand (eCommand exFenceEntry) = Inr exFenceCommand"
proof (rule command_roundtrip)
  have "length (cValue exFenceCommand) = 124"
    by (simp add: exFenceCommand_def splitHeader_def exFence_def exBegin_def zeroDigest_def sha256Size_def splitOperationMagic_def)
  moreover have "cType exFenceCommand = CommandSplit" "cKey exFenceCommand = []" "cTimestamp exFenceCommand = 0" "sTimestamp exFence = 0"
    by (simp_all add: exFenceCommand_def exSplit_def exFence_def exBegin_def)
  ultimately have "validateCommand exFenceCommand = Inr ()"
    using exFence_decodes by (simp add: validateCommand_def command_consts headerSizeOf_def command_type_defs)
  then show "encodeCommand exFenceCommand = Inr (eCommand exFenceEntry)"
    by (simp add: encodeCommand_def exFenceEntry_def exFenceCommand_def exSplit_def)
qed

lemma exFenced_fields:
  "exFenced = (exFresh exStore)\<lparr>smSplitEpoch := 1, smSplitID := 9, smTxnFence := True\<rparr>"
proof -
  have "cType exSplit = CommandSplit" "cKey exSplit = []" "sType exBegin = SplitOpBegin" "sSplitID exBegin = 9" "sEpoch exBegin = 1"
    and "eIndex exSplitEntry = 1" "eTerm exSplitEntry = 1"
    by (simp_all add: exSplit_def exBegin_def exSplitEntry_def)
  then show ?thesis
    by (simp add: exFenced_def machineApply_def exSplit_decodes Let_def containsKey_def exFresh_def exOps_def exStore_def
        lifecycle_defs applySplit_def exBegin_decodes applySplitOp_def splitBegin_def split_op_defs advanceMetadata_def onEngine_def)
qed

lemma exFence_applies:
  "machineApply exOps exSha exFenceEntry exFenced = (exFenced\<lparr>smUserFence := True, smFenceIndex := 2\<rparr>, Inr ())"
proof -
  have "cType exFenceCommand = CommandSplit" "cKey exFenceCommand = []" "sType exFence = SplitOpFinalFence" "sSplitID exFence = 9"
    "sEpoch exFence = 1" and "eIndex exFenceEntry = 2" "eTerm exFenceEntry = 1"
    by (simp_all add: exFenceCommand_def exSplit_def exFence_def exBegin_def exFenceEntry_def)
  then show ?thesis
    by (simp add: exFenced_fields machineApply_def exFenceCommand_decodes Let_def containsKey_def exFresh_def exOps_def exStore_def
        lifecycle_defs applySplit_def exFence_decodes applySplitOp_def finalFence_def split_op_defs advanceMetadata_def onEngine_def)
qed

theorem fence_is_final_witness:
  "\<exists>m err. machineApply exOps exSha exFenceEntry exFenced = (m, Inr ()) \<and>
    machineApply exOps exSha (exEntry 3 CommandTxnCommit) m = (m, Inl err)"
proof -
  have "decodeCommand (eCommand (exEntry 3 CommandTxnCommit)) = Inr (exCommand CommandTxnCommit)" by (rule exCommand_valid) simp
  then have "\<forall>c. decodeCommand (eCommand (exEntry 3 CommandTxnCommit)) = Inr c \<longrightarrow> cType c \<noteq> CommandSplit"
    by (simp add: exCommand_def Let_def command_type_defs)
  from fence_is_final [OF exFenceCommand_decodes _ exFence_decodes _ exFence_applies this, of "[]"]
  show ?thesis using exFence_applies by (auto simp: exFenceCommand_def exSplit_def exFence_def)
qed

end
