(* ===== verification/Raft_Store.thy ===== *)
theory Raft_Store
  imports Raft_Node
begin

text \<open>
  The \<open>Store\<close> interface of \<open>internal/raft/types.go\<close> as a locale, its in-memory implementation
  \<open>memory_store.go\<close>, and the node-level facts that rest on the interface alone: the hard state
  only moves forward, and an operation that returns without stopping the node leaves in the store
  exactly the term, vote, snapshot and log the node has in memory. The public methods of a node
  are collected in the datatype \<open>Call\<close> so that a history is a list of calls.
\<close>

section \<open>Calls\<close>

datatype Call =
    CallTick
  | CallStep Message
  | CallPropose bytes
  | CallProposeNoOp
  | CallProposeConfiguration Configuration
  | CallTransferLeadership NodeID
  | CallCreateSnapshot
  | CallStop

definition dropIndex :: "('st, 'sm, nat \<times> Message list) step \<Rightarrow> ('st, 'sm, Message list) step" where
  "dropIndex r = andThen r (\<lambda>n a. (n, Inr (snd a)))"

fun runCall :: "('st, 'sm) Env \<Rightarrow> Call \<Rightarrow> ('st, 'sm) Node \<Rightarrow> ('st, 'sm, Message list) step" where
  "runCall env CallTick n = tick env n"
| "runCall env (CallStep m) n = stepMessage env m n"
| "runCall env (CallPropose c) n = dropIndex (propose env c n)"
| "runCall env CallProposeNoOp n = dropIndex (proposeNoOp env n)"
| "runCall env (CallProposeConfiguration c) n = dropIndex (proposeConfiguration env c n)"
| "runCall env (CallTransferLeadership t) n = transferLeadership t n"
| "runCall env CallCreateSnapshot n = andThen (createSnapshot env n) (\<lambda>n _. (n, Inr []))"
| "runCall env CallStop n = (stop n, Inr [])"

text \<open>Terms on the wire are 64-bit.\<close>

fun callTyped :: "Call \<Rightarrow> bool" where
  "callTyped (CallStep m) = (mgTerm m \<le> maxU64)"
| "callTyped _ = True"

section \<open>The interface\<close>

text \<open>
  What a store keeps of a state: everything but the listing order of configuration members, which
  a store may normalise.
\<close>

definition sameDurable :: "PersistentState \<Rightarrow> PersistentState \<Rightarrow> bool" where
  "sameDurable q p \<longleftrightarrow> psHardState q = psHardState p \<and> psEntries q = psEntries p \<and>
     snIndex (psSnapshot q) = snIndex (psSnapshot p) \<and> snTerm (psSnapshot q) = snTerm (psSnapshot p) \<and>
     snData (psSnapshot q) = snData (psSnapshot p)"

lemma sameDurable_refl [simp]: "sameDurable p p"
  by (simp add: sameDurable_def)

lemma sameDurable_config [simp]: "sameDurable q (p\<lparr>psConfig := c\<rparr>) = sameDurable q p"
  by (simp add: sameDurable_def)

locale raft_store =
  fixes load :: "'st \<Rightarrow> raft_error + PersistentState"
    and save :: "'st \<Rightarrow> PersistentState \<Rightarrow> ('st, raft_error, unit) outcome"
  assumes saved: "hTerm (psHardState p) \<le> maxU64 \<Longrightarrow> save st p = (st', Inr u) \<Longrightarrow>
      \<exists>q. load st' = Inr q \<and> sameDurable q p"
    and failed: "hTerm (psHardState p) \<le> maxU64 \<Longrightarrow> save st p = (st', Inl e) \<Longrightarrow>
      load st' = load st \<or> (\<exists>q. load st' = Inr q \<and> sameDurable q p)"
    and validated: "save st p = (st', Inr u) \<Longrightarrow> validatePersistent p = Inr ()"

section \<open>The memory store\<close>

record MemoryStore =
  msState :: PersistentState
  msSaveErr :: "raft_error option"
  msSaveHook :: "(PersistentState \<Rightarrow> raft_error option) option"

definition newMemoryStore :: MemoryStore where
  "newMemoryStore = \<lparr>msState = zeroPersistent, msSaveErr = None, msSaveHook = None\<rparr>"

definition newMemoryStoreFrom :: "PersistentState \<Rightarrow> raft_error + MemoryStore" where
  "newMemoryStoreFrom s = bindR (validatePersistent s) (\<lambda>_.
     Inr \<lparr>msState = s, msSaveErr = None, msSaveHook = None\<rparr>)"

definition memLoad :: "MemoryStore \<Rightarrow> raft_error + PersistentState" where
  "memLoad st = Inr (msState st)"

definition memSave :: "MemoryStore \<Rightarrow> PersistentState \<Rightarrow> (MemoryStore, raft_error, unit) outcome" where
  "memSave st s =
     (case validatePersistent s of Inl e \<Rightarrow> (st, Inl e)
      | Inr _ \<Rightarrow>
          (case (case msSaveHook st of None \<Rightarrow> None | Some hook \<Rightarrow> hook s) of
             Some e \<Rightarrow> (st, Inl e)
           | None \<Rightarrow>
               (case msSaveErr st of Some e \<Rightarrow> (st, Inl e) | None \<Rightarrow> (st\<lparr>msState := s\<rparr>, Inr ()))))"

definition setSaveError :: "raft_error option \<Rightarrow> MemoryStore \<Rightarrow> MemoryStore" where
  "setSaveError e st = st\<lparr>msSaveErr := e\<rparr>"

definition setSaveHook :: "(PersistentState \<Rightarrow> raft_error option) option \<Rightarrow> MemoryStore \<Rightarrow> MemoryStore" where
  "setSaveHook h st = st\<lparr>msSaveHook := h\<rparr>"

interpretation mem: raft_store memLoad memSave
  by unfold_locales (auto simp: memLoad_def memSave_def split: sum.splits option.splits)

section \<open>Hard states only move forward\<close>

definition hardLe :: "HardState \<Rightarrow> HardState \<Rightarrow> bool" where
  "hardLe a b \<longleftrightarrow> hTerm a < hTerm b \<or>
     hTerm a = hTerm b \<and> (hVotedFor a = hVotedFor b \<or> hVotedFor a = 0)"

lemma hardLe_refl [simp]: "hardLe a a"
  by (simp add: hardLe_def)

lemma hardLe_trans: "hardLe a b \<Longrightarrow> hardLe b c \<Longrightarrow> hardLe a c"
  by (auto simp: hardLe_def)

text \<open>
  \<open>ready\<close> is what holds between calls: no fatal error, a 64-bit term, and the store holds what
  memory holds. \<open>goodOk n n'\<close> and \<open>goodErr n n'\<close> are the effect of a call that returned results
  or an error.
\<close>

definition durable :: "('st, 'sm) Env \<Rightarrow> ('st, 'sm) Node \<Rightarrow> bool" where
  "durable env n \<longleftrightarrow>
     (case envLoad env (nStore n) of Inl _ \<Rightarrow> False | Inr q \<Rightarrow> sameDurable q (nPersistent n))"

definition ready :: "('st, 'sm) Env \<Rightarrow> ('st, 'sm) Node \<Rightarrow> bool" where
  "ready env n \<longleftrightarrow> nFatal n = None \<and> nTerm n \<le> maxU64 \<and> durable env n"

definition storedLe :: "('st, 'sm) Env \<Rightarrow> ('st, 'sm) Node \<Rightarrow> ('st, 'sm) Node \<Rightarrow> bool" where
  "storedLe env n n' \<longleftrightarrow>
     (case envLoad env (nStore n') of Inl _ \<Rightarrow> False
      | Inr q \<Rightarrow> hardLe (nHard n) (psHardState q) \<and> hTerm (psHardState q) \<le> maxU64)"

definition goodOk :: "('st, 'sm) Env \<Rightarrow> ('st, 'sm) Node \<Rightarrow> ('st, 'sm) Node \<Rightarrow> bool" where
  "goodOk env n n' \<longleftrightarrow> nId n' = nId n \<and> ready env n' \<and> hardLe (nHard n) (nHard n')"

definition goodErr :: "('st, 'sm) Env \<Rightarrow> ('st, 'sm) Node \<Rightarrow> ('st, 'sm) Node \<Rightarrow> bool" where
  "goodErr env n n' \<longleftrightarrow> nId n' = nId n \<and> storedLe env n n' \<and> (nFatal n' = None \<longrightarrow> goodOk env n n')"

definition good :: "('st, 'sm) Env \<Rightarrow> ('st, 'sm) Node \<Rightarrow> ('st, 'sm, 'a) step \<Rightarrow> bool" where
  "good env n r = (case r of (n', Inl e) \<Rightarrow> goodErr env n n' | (n', Inr a) \<Rightarrow> goodOk env n n')"

lemma good_simps [simp]:
  "good env n (n', Inl e) = goodErr env n n'"
  "good env n (n', Inr a) = goodOk env n n'"
  by (simp_all add: good_def)

lemma goodOk_storedLe: "goodOk env n n' \<Longrightarrow> storedLe env n n'"
  by (auto simp: goodOk_def storedLe_def ready_def durable_def sameDurable_def nTerm_def split: sum.splits)

lemma goodOk_goodErr: "goodOk env n n' \<Longrightarrow> goodErr env n n'"
  by (simp add: goodErr_def goodOk_storedLe) (simp add: goodOk_def)

lemma goodOk_trans: "goodOk env n s \<Longrightarrow> goodOk env s t \<Longrightarrow> goodOk env n t"
  by (auto simp: goodOk_def intro: hardLe_trans)

lemma goodErr_trans: "goodOk env n s \<Longrightarrow> goodErr env s t \<Longrightarrow> goodErr env n t"
  by (auto simp: goodErr_def storedLe_def goodOk_def split: sum.splits intro: hardLe_trans)

lemma good_trans: "goodOk env n s \<Longrightarrow> good env s r \<Longrightarrow> good env n r"
  by (auto simp: good_def split: sum.splits prod.splits intro: goodOk_trans goodErr_trans)

lemma good_andThen:
  "good env n r \<Longrightarrow> (\<And>s a. r = (s, Inr a) \<Longrightarrow> goodOk env n s \<Longrightarrow> good env n (f s a)) \<Longrightarrow>
   good env n (andThen r f)"
  by (cases r; cases "snd r") auto

text \<open>Changes to the volatile fields are good steps.\<close>

definition sameStored :: "('st, 'sm) Node \<Rightarrow> ('st, 'sm) Node \<Rightarrow> bool" where
  "sameStored n n' \<longleftrightarrow> nId n' = nId n \<and> nStore n' = nStore n \<and> nPersistent n' = nPersistent n \<and> nFatal n' = nFatal n"

lemma goodOk_volatile: "ready env n \<Longrightarrow> sameStored n n' \<Longrightarrow> goodOk env n n'"
  by (auto simp: goodOk_def ready_def durable_def nTerm_def sameStored_def split: sum.splits)

lemma goodOk_volatile_trans: "goodOk env n s \<Longrightarrow> sameStored s n' \<Longrightarrow> goodOk env n n'"
  by (auto simp: goodOk_def ready_def durable_def nTerm_def sameStored_def split: sum.splits)

lemma goodOk_refl: "ready env n \<Longrightarrow> goodOk env n n"
  by (simp add: goodOk_def)

lemma goodOk_ready: "goodOk env n n' \<Longrightarrow> ready env n'"
  by (simp add: goodOk_def)

locale raft_env = raft_store "envLoad env" "envSave env" for env :: "('st, 'sm) Env"
begin

lemma good_saveState:
  assumes "ready env n" and "nId n1 = nId n" "nStore n1 = nStore n"
    and "hardLe (nHard n) (psHardState p)" and "hTerm (psHardState p) \<le> maxU64"
    and "saveState env p n1 = (n', r)"
  shows "storedLe env n n' \<and> nId n' = nId n \<and>
    (r = Inr () \<and> (\<exists>st q. n' = n1\<lparr>nStore := st\<rparr> \<and> envLoad env st = Inr q \<and> sameDurable q p) \<or>
     (\<exists>e. r = Inl e) \<and> nFatal n' \<noteq> None)"
proof (cases "envSave env (nStore n) p")
  case (Pair st res)
  show ?thesis
  proof (cases res)
    case (Inr u)
    from saved [OF assms(5) Pair [unfolded Inr]]
    obtain q where "envLoad env st = Inr q" "sameDurable q p" by blast
    then show ?thesis
      using assms Pair Inr by (auto simp: saveState_def storedLe_def sameDurable_def)
  next
    case (Inl e)
    have n': "n' = n1\<lparr>nStore := st, nFatal := Some (Joined ErrPersistence e), nStopped := True\<rparr>"
      "r = Inl (Joined ErrPersistence e)"
      using assms(3,6) Pair Inl by (auto simp: saveState_def failNode_def)
    have "storedLe env n n'"
      using failed [OF assms(5) Pair [unfolded Inl]] assms(1,4,5)
      by (auto simp: n' storedLe_def ready_def durable_def sameDurable_def nTerm_def split: sum.splits)
    then show ?thesis using n' assms(2) by simp
  qed
qed

lemma good_persist:
  assumes "ready env n" and "nId n1 = nId n" "nStore n1 = nStore n" "nFatal n1 = None"
    and "hardLe (nHard n) (nHard n1)" and "nTerm n1 \<le> maxU64"
  shows "good env n (persist env n1)"
proof (cases "persist env n1")
  case (Pair n' r)
  with good_saveState [OF assms(1-3,5) assms(6) [unfolded nTerm_def] Pair [unfolded persist_def]] assms
  show ?thesis
    by (auto simp: goodErr_def goodOk_def ready_def durable_def nTerm_def)
qed

end

section \<open>Every method is a good step\<close>

lemma good_seq:
  assumes "good env n r" and "\<And>s a. ready env s \<Longrightarrow> good env s (f s a)"
  shows "good env n (andThen r f)"
  by (rule good_andThen [OF assms(1)]) (blast intro: good_trans assms(2) goodOk_ready)

lemma good_volatile: "ready env n \<Longrightarrow> sameStored n n' \<Longrightarrow> good env n (n', r)"
  by (cases r) (simp_all add: goodOk_volatile goodOk_goodErr)

lemma sameStored_refl [simp]: "sameStored n n"
  by (simp add: sameStored_def)

lemma sameStored_trans: "sameStored a b \<Longrightarrow> sameStored b c \<Longrightarrow> sameStored a c"
  by (simp add: sameStored_def)

lemma sameStored_timers [simp]:
  "sameStored n (resetElectionTimer env n1) = sameStored n n1"
  "sameStored n (becomeFollower env l n1) = sameStored n n1"
  by (simp_all add: sameStored_def)

lemma good_fail:
  assumes "ready env n" and "nId n1 = nId n" "nStore n1 = nStore n" "nPersistent n1 = nPersistent n"
  shows "good env n (failNode e n1)"
  using goodOk_storedLe [OF goodOk_refl [OF assms(1)]] assms(2-)
  by (auto simp: failNode_def goodErr_def storedLe_def split: sum.splits)

lemma good_panic [simp]: "ready env n \<Longrightarrow> good env n (panic t n)"
  by (simp add: panic_def goodOk_goodErr goodOk_refl)

lemma good_setMatch: "ready env n \<Longrightarrow> good env n (setMatch p v n)"
  by (auto simp: setMatch_def sameStored_def intro!: goodOk_volatile split: option.splits)

lemma good_setNext: "ready env n \<Longrightarrow> good env n (setNext p v n)"
  by (auto simp: setNext_def sameStored_def intro!: goodOk_volatile split: option.splits)

lemma good_send: "ready env n \<Longrightarrow> good env n (sendReplication n p)" "ready env n \<Longrightarrow> good env n (replicationMessages n)"
  by (simp_all add: sendReplication_def replicationMessages_def good_volatile)

lemma installConfiguration_sameStored: "sameStored n (fst (installConfiguration env c n))"
  by (auto simp: installConfiguration_def Let_def panic_def sameStored_def
      split: if_splits option.splits prod.splits)

lemma good_installConfiguration: "ready env n \<Longrightarrow> good env n (installConfiguration env c n)"
  by (metis good_volatile installConfiguration_sameStored prod.collapse)

lemma applyCommitted_rule [case_names step]:
  assumes "\<And>n. (\<And>n' u. nLastApplied n < nCommitIndex n \<Longrightarrow> applyNext env n = (n', Inr u) \<Longrightarrow> P n') \<Longrightarrow> P n"
  shows "P n"
proof (induction "nCommitIndex n - nLastApplied n" arbitrary: n rule: less_induct)
  case less
  show ?case
  proof (rule assms)
    fix n' u
    assume lt: "nLastApplied n < nCommitIndex n" and nxt: "applyNext env n = (n', Inr u)"
    show "P n'" by (rule less) (use lt applyNext_ok [OF nxt] in simp)
  qed
qed

lemma candidateState_frame [simp]:
  "nId (candidateState env n) = nId n" "nStore (candidateState env n) = nStore n"
  "nFatal (candidateState env n) = nFatal n" "nConfiguration (candidateState env n) = nConfiguration n"
  "nRole (candidateState env n) = nRole n" "nPeers (candidateState env n) = nPeers n"
  "nCommitIndex (candidateState env n) = nCommitIndex n" "nLastApplied (candidateState env n) = nLastApplied n"
  "nVotes (candidateState env n) = Some [nId n \<mapsto> True]"
  "nPersistent (candidateState env n) =
     (nPersistent n)\<lparr>psHardState := \<lparr>hTerm = add64 (nTerm n) 1, hVotedFor = nId n\<rparr>\<rparr>"
  by (simp_all add: candidateState_def setHard_def)

lemma mergeEntries_frame:
  "mergeEntries n es = (n', r) \<Longrightarrow>
   (r = Inr True \<longrightarrow> (\<exists>xs. n' = setEntries xs n)) \<and> (r \<noteq> Inr True \<longrightarrow> n' = n)"
  by (induction n es rule: mergeEntries.induct)
    (auto simp: panic_def split: sum.splits if_splits)

lemma andThen_assoc: "andThen (andThen r f) g = andThen r (\<lambda>s a. andThen (f s a) g)"
  by (cases r; cases "snd r") auto

lemma sameStored_tickTransfer: "sameStored n (tickTransfer n)"
  by (simp add: tickTransfer_def sameStored_def Let_def)

context raft_env
begin

lemma good_applyEntry:
  assumes "ready env n"
  shows "good env n (applyEntry env e n)"
proof -
  have install: "good env n (andThen (installConfiguration env c n) (\<lambda>n _.
      persist env (n\<lparr>nPersistent := (nPersistent n)\<lparr>psConfig := c\<rparr>\<rparr>)))" for c
    using assms
    by (intro good_seq good_installConfiguration good_persist) (auto simp: ready_def nTerm_def)
  show ?thesis
    using assms install
    by (auto simp: applyEntry_def sameStored_def goodOk_refl intro!: good_fail goodOk_volatile
        split: sum.splits prod.splits)
qed

lemma good_applyNext: "ready env n \<Longrightarrow> good env n (applyNext env n)"
  by (auto simp: applyNext_def Let_def sameStored_def
      intro!: good_fail good_seq good_applyEntry good_volatile goodOk_volatile goodOk_goodErr goodOk_refl split: sum.splits)

lemma good_applyCommitted: "ready env n \<Longrightarrow> good env n (applyCommitted env n)"
proof (induction n rule: applyCommitted_rule [of env])
  case (step n)
  note nxt = good_applyNext [OF step.prems]
  show ?case
  proof (cases "nLastApplied n < nCommitIndex n")
    case True
    obtain n' r where r: "applyNext env n = (n', r)" by fastforce
    have "good env n (applyCommitted env n')" if "r = Inr ()"
      using nxt step.IH [OF True] r that by (metis good_simps(2) good_trans goodOk_ready)
    then show ?thesis
      using True nxt r by (auto simp: applyCommitted.simps [of env n] split: sum.splits)
  next
    case False
    then show ?thesis using step.prems by (simp add: applyCommitted.simps [of env n] goodOk_refl)
  qed
qed

lemma good_advanceCommitLoop: "ready env n \<Longrightarrow> good env n (advanceCommitLoop env n i)"
proof (induction i)
  case (Suc i)
  have "goodOk env n (n\<lparr>nCommitIndex := Suc i\<rparr>)"
    using Suc.prems by (simp add: goodOk_volatile sameStored_def)
  then have "good env n (applyCommitted env (n\<lparr>nCommitIndex := Suc i\<rparr>))"
    by (blast intro: good_trans good_applyCommitted goodOk_ready)
  then show ?case
    using Suc by (auto simp: Let_def goodOk_refl goodOk_goodErr split: sum.splits)
qed (simp add: goodOk_refl)

lemma good_advanceCommit: "ready env n \<Longrightarrow> good env n (advanceCommit env n)"
  by (simp add: advanceCommit_def good_advanceCommitLoop goodOk_refl)

lemma good_appendOwn:
  assumes "ready env n"
  shows "good env n (appendOwn env kind command n)"
proof -
  have "good env n (persist env (setEntries es n))" for es
    using assms by (intro good_persist) (auto simp: setEntries_def ready_def nTerm_def)
  then show ?thesis
    unfolding appendOwn_def Let_def
    by (intro good_seq good_setMatch good_setNext good_advanceCommit good_send)
      (auto simp: goodOk_refl)
qed

lemma good_guardUsable: "ready env n \<Longrightarrow> good env n k \<Longrightarrow> good env n (guardUsable n k)"
  by (auto simp: guardUsable_def goodOk_refl goodOk_goodErr split: option.splits)

lemma good_dropIndex: "good env n r \<Longrightarrow> good env n (dropIndex r)"
  unfolding dropIndex_def by (rule good_seq) (simp_all add: goodOk_refl)

lemma good_proposals:
  assumes "ready env n"
  shows "good env n (propose env command n)" "good env n (proposeNoOp env n)"
    "good env n (proposeConfiguration env c n)"
  using good_appendOwn [OF assms] assms
  by (auto simp: propose_def proposeNoOp_def proposeConfiguration_def goodOk_refl goodOk_goodErr
      intro!: good_guardUsable split: sum.splits)

lemma good_becomeLeader:
  assumes "ready env n"
  shows "good env n (becomeLeader env n)"
proof -
  have ok: "goodOk env n (leaderState n)"
    using assms by (simp add: leaderState_def goodOk_volatile sameStored_def)
  have "good env (leaderState n) (andThen (appendOwn env EntryNoOp [] (leaderState n)) (\<lambda>n r. (n, Inr (snd r))))"
    by (intro good_seq good_appendOwn goodOk_ready [OF ok]) (simp add: goodOk_refl)
  from good_trans [OF ok this] show ?thesis
    using assms by (auto simp: becomeLeader_def intro!: good_fail)
qed

lemma good_startElection:
  assumes "ready env n"
  shows "good env n (startElection env n)"
proof -
  let ?c = "n\<lparr>nRole := Candidate, nLeaderID := 0\<rparr>"
  have vote: "good env n (persist env (candidateState env ?c))" if "nTerm n \<noteq> maxU64"
  proof (rule good_persist [OF assms])
    have "add64 (nTerm n) 1 = nTerm n + 1" using assms that by (simp add: ready_def add64_exact)
    then show "hardLe (nHard n) (nHard (candidateState env ?c))"
      by (simp add: hardLe_def nTerm_def)
  qed (use assms in \<open>simp_all add: ready_def nTerm_def\<close>)
  have "good env n (failNode ErrResourceLimit ?c)" by (rule good_fail [OF assms]) simp_all
  then show ?thesis
    unfolding startElection_def Let_def using assms vote
    by (auto simp: nTerm_def goodOk_refl intro!: good_seq good_becomeLeader)
qed

lemma good_advanceTerm:
  assumes "ready env n" and "term \<le> maxU64"
  shows "good env n (advanceTerm env term n)"
proof -
  have "good env n (persist env (becomeFollower env 0 (setHard term 0 n)))" if "nTerm n < term"
    using assms that
    by (intro good_persist) (auto simp: setHard_def ready_def hardLe_def nTerm_def)
  then show ?thesis using assms by (simp add: advanceTerm_def)
qed

lemma good_handleRequestVote:
  assumes "ready env n"
  shows "good env n (handleRequestVote env m n)"
proof -
  have vote: "good env n (persist env (setHard (nTerm n) (mgFrom m) n))" if "grantsVote n m" "hVotedFor (nHard n) \<noteq> mgFrom m"
    using assms that
    by (intro good_persist) (auto simp: setHard_def ready_def hardLe_def nTerm_def grantsVote_def)
  show ?thesis
    unfolding handleRequestVote_def Let_def using assms vote
    by (auto simp: goodOk_refl goodOk_goodErr intro!: good_seq good_volatile goodOk_volatile)
qed

lemma good_recordVote: "ready env n \<Longrightarrow> good env n (recordVote m n)"
  by (auto simp: recordVote_def goodOk_refl sameStored_def intro!: goodOk_volatile split: option.splits)

lemma good_handleVoteResponse: "ready env n \<Longrightarrow> good env n (handleVoteResponse env m n)"
  by (simp add: handleVoteResponse_def goodOk_refl good_seq [OF good_recordVote] good_becomeLeader)

lemma good_merge_persist:
  assumes "ready env n"
  shows "good env n (andThen (mergeEntries n es) (\<lambda>n changed. if changed then persist env n else (n, Inr ())))"
proof -
  obtain n' r where r: "mergeEntries n es = (n', r)" by fastforce
  have save: "good env n (persist env (setEntries xs n))" for xs
    using assms by (intro good_persist) (auto simp: setEntries_def ready_def nTerm_def)
  show ?thesis
    using mergeEntries_frame [OF r] assms save
    by (cases "r = Inr True"; cases r) (auto simp: r goodOk_refl goodOk_goodErr)
qed

lemma good_followerCommit:
  assumes "ready env n"
  shows "good env n (followerCommit env m k n)"
proof -
  have ok: "goodOk env n (n\<lparr>nCommitIndex := i\<rparr>)" for i
    using assms by (simp add: goodOk_volatile sameStored_def)
  have "good env n (applyCommitted env (n\<lparr>nCommitIndex := i\<rparr>))" for i
    by (rule good_trans [OF ok good_applyCommitted [OF goodOk_ready [OF ok]]])
  then show ?thesis using assms by (simp add: followerCommit_def goodOk_refl)
qed

lemma good_acceptAppend:
  assumes "ready env n"
  shows "good env n (acceptAppend env m n)"
proof -
  have tail: "good env s (andThen (followerCommit env m k s) (\<lambda>n _. (n, Inr [appendResponse n q True k 0])))"
    if "ready env s" for s k q
    by (rule good_seq [OF good_followerCommit [OF that]]) (simp add: goodOk_refl)
  have "good env n (andThen (andThen (mergeEntries n (mgEntries m))
      (\<lambda>n changed. if changed then persist env n else (n, Inr ())))
      (\<lambda>n _. andThen (followerCommit env m (add64 (mgPrevLogIndex m) (length (mgEntries m))) n)
        (\<lambda>n _. (n, Inr [appendResponse n (mgFrom m) True (add64 (mgPrevLogIndex m) (length (mgEntries m))) 0]))))"
    by (rule good_seq [OF good_merge_persist [OF assms] tail])
  then show ?thesis unfolding acceptAppend_def andThen_assoc Let_def .
qed

lemma good_handleAppendEntries:
  assumes "ready env n"
  shows "good env n (handleAppendEntries env m n)"
proof -
  define n1 where "n1 = (if nRole n \<noteq> Follower \<or> nLeaderID n \<noteq> mgFrom m then becomeFollower env (mgFrom m) n
      else resetElectionTimer env n)"
  have ok: "goodOk env n n1" using assms by (simp add: n1_def goodOk_volatile)
  have "good env n (acceptAppend env m n1)"
    by (rule good_trans [OF ok good_acceptAppend [OF goodOk_ready [OF ok]]])
  then show ?thesis
    unfolding handleAppendEntries_def Let_def n1_def [symmetric] using ok assms
    by (auto simp: goodOk_refl goodOk_goodErr split: sum.splits)
qed

lemma good_recordMatch: "ready env n \<Longrightarrow> good env n (recordMatch m n)"
  by (simp add: recordMatch_def goodOk_refl good_seq [OF good_setMatch] good_setNext)

lemma good_handleAppendResponse:
  assumes "ready env n"
  shows "good env n (handleAppendResponse env m n)"
proof -
  have "good env n (andThen (recordMatch m n) (\<lambda>n _. let before = nCommitIndex n in
      andThen (advanceCommit env n) (\<lambda>n _. if nCommitIndex n \<noteq> before then replicationMessages n else (n, Inr []))))"
    unfolding Let_def
    by (rule good_seq [OF good_recordMatch [OF assms]], rule good_seq [OF good_advanceCommit])
      (simp_all add: goodOk_refl good_send)
  moreover have "good env n (andThen (setNext p v n) (\<lambda>n _. sendReplication n q))" for p v q
    by (rule good_seq [OF good_setNext [OF assms]]) (simp add: good_send)
  ultimately show ?thesis
    using assms by (simp add: handleAppendResponse_def goodOk_refl goodOk_goodErr)
qed

lemma good_adoptSnapshot:
  assumes "ready env n"
  shows "good env n (adoptSnapshot env m candidate n)"
  unfolding adoptSnapshot_def Let_def
proof (rule good_seq)
  show "good env n (if b then installConfiguration env c n else (n, Inr ()))" for b c
    using assms by (simp add: good_installConfiguration goodOk_refl)
  show "good env s (s\<lparr>nCommitIndex := i, nLastApplied := j\<rparr>, Inr x)" if "ready env s" for s i j and x :: "Message list"
    by (rule good_volatile [OF that]) (simp add: sameStored_def)
qed

lemma good_installSnapshot:
  assumes "ready env n"
  shows "good env n (installSnapshot env m n)"
proof -
  have "good env n (andThen (saveState env c n) (\<lambda>n _.
      (case envRestore env (nStateMachine n) (snData (mgSnapshot m)) of
         (sm, Inl e) \<Rightarrow> failNode (Joined ErrApply e) (n\<lparr>nStateMachine := sm\<rparr>)
       | (sm, Inr _) \<Rightarrow> adoptSnapshot env m c (n\<lparr>nStateMachine := sm, nPersistent := c\<rparr>))))"
    if c: "psHardState c = nHard n" for c
  proof -
    obtain n' r where save: "saveState env c n = (n', r)" by fastforce
    have res: "storedLe env n n' \<and> nId n' = nId n \<and>
      (r = Inr () \<and> (\<exists>st q. n' = n\<lparr>nStore := st\<rparr> \<and> envLoad env st = Inr q \<and> sameDurable q c) \<or>
       (\<exists>e. r = Inl e) \<and> nFatal n' \<noteq> None)"
      by (rule good_saveState [OF assms refl refl _ _ save])
        (use assms c in \<open>auto simp: ready_def nTerm_def\<close>)
    show ?thesis
    proof (cases r)
      case (Inl e)
      then show ?thesis using res save by (auto simp: goodErr_def)
    next
      case (Inr u)
      have n': "nId n' = nId n" "nFatal n' = None" "storedLe env n n'"
        using Inr res assms by (auto simp: ready_def)
      have ok: "goodOk env n (n'\<lparr>nStateMachine := sm, nPersistent := c\<rparr>)" for sm
        using Inr res assms c by (auto simp: goodOk_def ready_def durable_def nTerm_def)
      have adopt: "good env n (adoptSnapshot env m c (n'\<lparr>nStateMachine := sm, nPersistent := c\<rparr>))" for sm
        by (rule good_trans [OF ok good_adoptSnapshot [OF goodOk_ready [OF ok]]])
      have "good env n (failNode e (n'\<lparr>nStateMachine := sm\<rparr>) :: ('st, 'sm, Message list) step)" for e sm
        using n' by (auto simp: failNode_def goodErr_def storedLe_def split: sum.splits)
      then show ?thesis using adopt by (simp add: save Inr split: sum.splits prod.splits)
    qed
  qed
  moreover have "psHardState (snapshotCandidate (mgSnapshot m) kept (nPersistent n)) = nHard n" for kept
    by (simp add: snapshotCandidate_def)
  ultimately show ?thesis
    unfolding installSnapshot_def Let_def
    using assms by (cases "retainedSuffix n (mgSnapshot m)") (simp_all add: goodOk_refl goodOk_goodErr)
qed

lemma good_handleInstallSnapshot:
  assumes "ready env n"
  shows "good env n (handleInstallSnapshot env m n)"
proof -
  have ok: "goodOk env n (becomeFollower env (mgFrom m) n)" using assms by (simp add: goodOk_volatile)
  have "good env n (installSnapshot env m (becomeFollower env (mgFrom m) n))"
    by (rule good_trans [OF ok good_installSnapshot [OF goodOk_ready [OF ok]]])
  then show ?thesis
    using assms ok by (simp add: handleInstallSnapshot_def Let_def goodOk_refl goodOk_goodErr)
qed

lemma good_handleSnapshotResponse:
  assumes "ready env n"
  shows "good env n (handleSnapshotResponse env m n)"
proof -
  have "good env n (andThen (setMatch p v n) (\<lambda>n _. andThen (setNext p w n) (\<lambda>n _. sendReplication n p)))" for p v w
    by (rule good_seq [OF good_setMatch [OF assms]], rule good_seq [OF good_setNext]) (simp_all add: good_send)
  then show ?thesis
    using assms by (simp add: handleSnapshotResponse_def Let_def goodOk_refl goodOk_goodErr)
qed

lemma good_machineSnapshot: "ready env n \<Longrightarrow> good env n (machineSnapshot env n)"
  unfolding machineSnapshot_def
  by (cases "envSnapshot env (nStateMachine n)"; cases "snd (envSnapshot env (nStateMachine n))")
    (simp_all add: goodOk_volatile goodOk_goodErr sameStored_def)

lemma good_compactLog:
  assumes "ready env n"
  shows "good env n (compactLog env sn n)"
proof -
  have "good env n (andThen (saveState env c n) (\<lambda>n _. (n\<lparr>nPersistent := c\<rparr>, Inr sn)))"
    if c: "psHardState c = nHard n" for c
  proof -
    obtain n' r where save: "saveState env c n = (n', r)" by fastforce
    have "storedLe env n n' \<and> nId n' = nId n \<and>
      (r = Inr () \<and> (\<exists>st q. n' = n\<lparr>nStore := st\<rparr> \<and> envLoad env st = Inr q \<and> sameDurable q c) \<or>
       (\<exists>e. r = Inl e) \<and> nFatal n' \<noteq> None)"
      by (rule good_saveState [OF assms refl refl _ _ save])
        (use assms c in \<open>auto simp: ready_def nTerm_def\<close>)
    then show ?thesis
      using assms c by (cases r) (auto simp: save goodErr_def goodOk_def ready_def durable_def nTerm_def)
  qed
  then show ?thesis
    unfolding compactLog_def Let_def using assms
    by (cases "entriesFrom n (add64 (snIndex sn) 1)") (simp_all add: goodOk_refl goodOk_goodErr)
qed

lemma good_createSnapshot:
  assumes "ready env n"
  shows "good env n (createSnapshot env n)"
proof -
  have "good env n (andThen (machineSnapshot env n) (\<lambda>n data. compactLog env
      \<lparr>snIndex = nLastApplied n, snTerm = term, snData = data, snConfig = nConfiguration n\<rparr> n))" for "term"
    by (rule good_seq [OF good_machineSnapshot [OF assms] good_compactLog])
  then show ?thesis
    unfolding createSnapshot_def using assms
    by (intro good_guardUsable) (simp_all add: goodOk_refl goodOk_goodErr split: sum.split)
qed

lemma good_tick:
  assumes "ready env n"
  shows "good env n (tick env n)"
proof -
  have vol: "goodOk env n (n\<lparr>nElectionElapsed := c\<rparr>)" "goodOk env n ((tickTransfer n)\<lparr>nHeartbeatElapsed := c\<rparr>)" for c
    using assms sameStored_tickTransfer [of n] by (auto simp: sameStored_def intro!: goodOk_volatile)
  have "good env n (replicationMessages ((tickTransfer n)\<lparr>nHeartbeatElapsed := c\<rparr>))" for c
    by (rule good_trans [OF vol(2) good_send(2) [OF goodOk_ready [OF vol(2)]]])
  moreover have "good env n (startElection env (n\<lparr>nElectionElapsed := c\<rparr>))" for c
    by (rule good_trans [OF vol(1) good_startElection [OF goodOk_ready [OF vol(1)]]])
  ultimately show ?thesis
    using assms vol by (auto simp: tick_def Let_def intro!: good_guardUsable)
qed

lemma good_dispatch: "ready env n \<Longrightarrow> good env n (dispatch env m n)"
  by (simp add: dispatch_def good_handleRequestVote good_handleVoteResponse good_handleAppendEntries
      good_handleAppendResponse good_handleInstallSnapshot good_handleSnapshotResponse
      handleTimeoutNow_def good_startElection goodOk_refl goodOk_goodErr)

lemma good_stepMessage:
  assumes "ready env n" and "mgTerm m \<le> maxU64"
  shows "good env n (stepMessage env m n)"
proof -
  have "good env n (andThen (if mgTerm m > nTerm n then advanceTerm env (mgTerm m) n else (n, Inr ()))
      (\<lambda>n _. dispatch env m n))"
    by (rule good_seq) (use assms in \<open>simp_all add: good_advanceTerm goodOk_refl good_dispatch\<close>)
  then show ?thesis
    using assms(1) by (auto simp: stepMessage_def goodOk_refl goodOk_goodErr intro!: good_guardUsable)
qed

lemma good_transferLeadership: "ready env n \<Longrightarrow> good env n (transferLeadership t n)"
  unfolding transferLeadership_def
  by (rule good_guardUsable) (auto simp: goodOk_refl goodOk_goodErr goodOk_volatile sameStored_def)

lemma good_runCall:
  assumes r: "ready env n" and t: "callTyped c"
  shows "good env n (runCall env c n)"
proof (cases c)
  case CallTick
  then show ?thesis using good_tick [OF r] by simp
next
  case (CallStep m)
  then show ?thesis using good_stepMessage [OF r] t by simp
next
  case (CallPropose x)
  then show ?thesis using good_dropIndex [OF good_proposals(1) [OF r]] by simp
next
  case CallProposeNoOp
  then show ?thesis using good_dropIndex [OF good_proposals(2) [OF r]] by simp
next
  case (CallProposeConfiguration x)
  then show ?thesis using good_dropIndex [OF good_proposals(3) [OF r]] by simp
next
  case (CallTransferLeadership x)
  then show ?thesis using good_transferLeadership [OF r] by simp
next
  case CallCreateSnapshot
  have "good env n (andThen (createSnapshot env n) (\<lambda>n _. (n, Inr ([] :: Message list))))"
    by (intro good_seq [OF good_createSnapshot [OF r]]) (simp add: goodOk_refl)
  then show ?thesis by (simp add: CallCreateSnapshot)
next
  case CallStop
  have "good env n (stop n, Inr ([] :: Message list))"
    by (rule good_volatile [OF r]) (simp add: stop_def sameStored_def)
  then show ?thesis by (simp add: CallStop)
qed

end

end
