(* ===== verification/Raft_Election.thy ===== *)
theory Raft_Election
  imports Raft_Store
begin

text \<open>
  How the methods of a node change its role, its vote and its ballot box. Most methods are calm:
  they keep role, ballots and hard state or fall back to follower. The exceptions are the election
  path (\<open>startElection\<close>, \<open>handleVoteResponse\<close>, \<open>becomeLeader\<close>) and vote granting; for those the
  theory shows that a node leads a term only with a quorum of votes cast for it in that term, and
  that it answers a vote request positively only when its stored vote is for the requester.
\<close>

section \<open>Calm steps\<close>

definition calm :: "('st, 'sm) Node \<Rightarrow> ('st, 'sm) Node \<Rightarrow> bool" where
  "calm n n' \<longleftrightarrow> nId n' = nId n \<and> nHard n' = nHard n \<and>
     (nRole n' = Follower \<or> nRole n' = nRole n \<and> nVotes n' = nVotes n)"

lemma calm_refl [simp]: "calm n n"
  by (simp add: calm_def)

lemma calm_trans: "calm a b \<Longrightarrow> calm b c \<Longrightarrow> calm a c"
  by (auto simp: calm_def)

lemma calm_andThen:
  assumes "calm n (fst r)" and "\<And>s a. calm n s \<Longrightarrow> calm n (fst (f s a))"
  shows "calm n (fst (andThen r f))"
  using assms by (cases r; cases "snd r") auto

lemma calm_saveState: "calm n n1 \<Longrightarrow> calm n (fst (saveState env s n1))"
  by (auto simp: calm_def saveState_def failNode_def split: prod.splits sum.splits)

lemma calm_persist: "calm n n1 \<Longrightarrow> calm n (fst (persist env n1))"
  by (simp add: persist_def calm_saveState)

lemma calm_primitives:
  "calm n n1 \<Longrightarrow> calm n (fst (failNode e n1))"
  "calm n n1 \<Longrightarrow> calm n (fst (panic t n1))"
  "calm n n1 \<Longrightarrow> calm n (fst (setMatch p v n1))"
  "calm n n1 \<Longrightarrow> calm n (fst (setNext p v n1))"
  "calm n n1 \<Longrightarrow> calm n (fst (replicationMessages n1))"
  "calm n n1 \<Longrightarrow> calm n (fst (sendReplication n1 p))"
  "calm n n1 \<Longrightarrow> calm n (setEntries es n1)"
  "calm n n1 \<Longrightarrow> calm n (resetElectionTimer env n1)"
  "calm n n1 \<Longrightarrow> calm n (becomeFollower env l n1)"
  "calm n n1 \<Longrightarrow> calm n (fst (installConfiguration env c n1))"
  by (auto simp: calm_def failNode_def panic_def setMatch_def setNext_def replicationMessages_def
      sendReplication_def setEntries_def installConfiguration_def Let_def
      split: option.splits prod.splits if_splits)

lemma calm_fields:
  "calm n n1 \<Longrightarrow> calm n (n1\<lparr>nStateMachine := sm\<rparr>)"
  "calm n n1 \<Longrightarrow> calm n (n1\<lparr>nLastApplied := i\<rparr>)"
  "calm n n1 \<Longrightarrow> calm n (n1\<lparr>nCommitIndex := i\<rparr>)"
  "calm n n1 \<Longrightarrow> calm n (n1\<lparr>nCommitIndex := i, nLastApplied := j\<rparr>)"
  "calm n n1 \<Longrightarrow> calm n (n1\<lparr>nPersistent := (nPersistent n1)\<lparr>psConfig := c\<rparr>\<rparr>)"
  "calm n n1 \<Longrightarrow> psHardState p = nHard n \<Longrightarrow> calm n (n1\<lparr>nPersistent := p\<rparr>)"
  "calm n n1 \<Longrightarrow> psHardState p = nHard n \<Longrightarrow> calm n (n1\<lparr>nStateMachine := sm, nPersistent := p\<rparr>)"
  by (simp_all add: calm_def)

lemmas calm_intros = calm_primitives calm_fields calm_persist calm_saveState

lemma calm_applyEntry: "calm n n1 \<Longrightarrow> calm n (fst (applyEntry env e n1))"
  unfolding applyEntry_def
  by (auto simp: calm_intros intro!: calm_andThen split: sum.split prod.split)

lemma calm_applyNext: "calm n n1 \<Longrightarrow> calm n (fst (applyNext env n1))"
  unfolding applyNext_def Let_def
  by (auto simp: calm_intros intro!: calm_andThen calm_applyEntry split: sum.split)

lemma calm_applyCommitted: "calm n n1 \<Longrightarrow> calm n (fst (applyCommitted env n1))"
proof (induction n1 rule: applyCommitted_rule [of env])
  case (step n1)
  have "calm n (fst (applyNext env n1))" by (rule calm_applyNext [OF step.prems])
  then show ?case
    using step by (auto simp: applyCommitted.simps [of env n1] calm_intros split: prod.split sum.split)
qed

lemma calm_advanceCommitLoop: "calm n n1 \<Longrightarrow> calm n (fst (advanceCommitLoop env n1 i))"
  by (induction i) (auto simp: Let_def calm_intros intro!: calm_applyCommitted split: sum.split)

lemma calm_advanceCommit: "calm n n1 \<Longrightarrow> calm n (fst (advanceCommit env n1))"
  by (simp add: advanceCommit_def calm_advanceCommitLoop)

lemma calm_appendOwn: "calm n n1 \<Longrightarrow> calm n (fst (appendOwn env k c n1))"
  unfolding appendOwn_def Let_def
  by (intro calm_andThen calm_intros calm_advanceCommit) simp_all

lemma calm_guardUsable: "calm n (fst k) \<Longrightarrow> calm n (fst (guardUsable n k))"
  by (auto simp: guardUsable_def split: option.split)

lemma calm_proposals:
  "calm n (fst (propose env c n))" "calm n (fst (proposeNoOp env n))"
  "calm n (fst (proposeConfiguration env cf n))"
  unfolding propose_def proposeNoOp_def proposeConfiguration_def
  by (auto intro!: calm_guardUsable calm_appendOwn split: sum.split)

lemma calm_mergeEntries: "calm n n1 \<Longrightarrow> calm n (fst (mergeEntries n1 es))"
  by (induction es) (auto simp: calm_intros split: sum.split)

lemma calm_acceptAppend: "calm n n1 \<Longrightarrow> calm n (fst (acceptAppend env m n1))"
  unfolding acceptAppend_def Let_def followerCommit_def
  by (intro calm_andThen) (auto intro!: calm_mergeEntries calm_applyCommitted simp: calm_intros)

lemma calm_handleAppendEntries: "calm n (fst (handleAppendEntries env m n))"
  unfolding handleAppendEntries_def Let_def
  by (auto simp: calm_intros calm_acceptAppend split: sum.split)

lemma calm_handleAppendResponse: "calm n (fst (handleAppendResponse env m n))"
  unfolding handleAppendResponse_def recordMatch_def Let_def
  by (auto simp: calm_intros intro!: calm_andThen calm_advanceCommit)

lemma calm_adoptSnapshot: "calm n n1 \<Longrightarrow> calm n (fst (adoptSnapshot env m c n1))"
  unfolding adoptSnapshot_def Let_def by (auto simp: calm_intros intro!: calm_andThen)

lemma snapshotCandidate_hard [simp]: "psHardState (snapshotCandidate sn kept p) = psHardState p"
  by (simp add: snapshotCandidate_def)

lemma calm_hard: "calm n n1 \<Longrightarrow> nHard n1 = nHard n"
  by (simp add: calm_def)

lemma calm_installSnapshot: "calm n n1 \<Longrightarrow> calm n (fst (installSnapshot env m n1))"
  unfolding installSnapshot_def Let_def
  by (auto simp: calm_intros calm_hard intro!: calm_andThen calm_adoptSnapshot split: sum.split prod.split)

lemma calm_handleInstallSnapshot: "calm n (fst (handleInstallSnapshot env m n))"
  unfolding handleInstallSnapshot_def Let_def by (auto simp: calm_intros calm_installSnapshot)

lemma calm_handleSnapshotResponse: "calm n (fst (handleSnapshotResponse env m n))"
  unfolding handleSnapshotResponse_def Let_def by (auto simp: calm_intros intro!: calm_andThen)

lemma calm_createSnapshot: "calm n (fst (createSnapshot env n))"
  unfolding createSnapshot_def machineSnapshot_def compactLog_def Let_def
  by (auto simp: calm_intros intro!: calm_guardUsable calm_andThen split: sum.split prod.split)

lemma calm_transferLeadership: "calm n (fst (transferLeadership t n))"
  unfolding transferLeadership_def by (rule calm_guardUsable) (auto simp: calm_def)

section \<open>Elections\<close>

text \<open>
  \<open>elects V n n'\<close>: if \<open>n'\<close> leads, then either \<open>n\<close> already led the same term, or a quorum of \<open>n\<close>'s
  configuration is known (through \<open>V\<close>) to have voted for it in its present term, its own vote
  included. \<open>ballotsOk V n\<close>: the ballot box of a candidate holds only votes known through \<open>V\<close>.
\<close>

definition votedFor :: "(NodeID \<times> nat \<times> NodeID) set \<Rightarrow> ('st, 'sm) Node \<Rightarrow> NodeID \<Rightarrow> bool" where
  "votedFor V n v \<longleftrightarrow> v = nId n \<and> hVotedFor (nHard n) = nId n \<or> (v, nTerm n, nId n) \<in> V"

definition ballotsOk :: "(NodeID \<times> nat \<times> NodeID) set \<Rightarrow> ('st, 'sm) Node \<Rightarrow> bool" where
  "ballotsOk V n \<longleftrightarrow>
     (nRole n = Candidate \<longrightarrow> hVotedFor (nHard n) = nId n \<and> (\<forall>v. mapVote (nVotes n) v \<longrightarrow> votedFor V n v))"

definition elects :: "(NodeID \<times> nat \<times> NodeID) set \<Rightarrow> ('st, 'sm) Node \<Rightarrow> ('st, 'sm) Node \<Rightarrow> bool" where
  "elects V n n' \<longleftrightarrow>
     (nRole n' = Leader \<longrightarrow>
        nRole n = Leader \<and> nTerm n' = nTerm n \<or> quorum (nConfiguration n) (votedFor V n'))"

definition electionStep :: "(NodeID \<times> nat \<times> NodeID) set \<Rightarrow> ('st, 'sm) Node \<Rightarrow> ('st, 'sm) Node \<Rightarrow> bool" where
  "electionStep V n n' \<longleftrightarrow> nId n' = nId n \<and> (nFatal n' = None \<longrightarrow> ballotsOk V n' \<and> elects V n n')"

lemma votedFor_cong: "nHard n' = nHard n \<Longrightarrow> nId n' = nId n \<Longrightarrow> votedFor V n' = votedFor V n"
  by (rule ext) (simp add: votedFor_def nTerm_def)

lemma calm_electionStep: "calm n n' \<Longrightarrow> ballotsOk V n \<Longrightarrow> electionStep V n n'"
  using votedFor_cong [of n' n V]
  by (auto simp: calm_def electionStep_def ballotsOk_def elects_def nTerm_def)

lemma leads_becomeLeader:
  assumes "quorum (nConfiguration n) (votedFor V n)"
  shows "electionStep V n (fst (becomeLeader env n))"
proof (cases "lastIndex n = maxU64")
  case True
  then show ?thesis by (simp add: becomeLeader_def failNode_def electionStep_def)
next
  case False
  let ?n' = "fst (becomeLeader env n)"
  have "calm (leaderState n) ?n'"
    using False by (auto simp: becomeLeader_def intro!: calm_andThen calm_appendOwn)
  then have frame: "nId ?n' = nId n" "nHard ?n' = nHard n" "nRole ?n' \<noteq> Candidate"
    by (auto simp: calm_def leaderState_def)
  then show ?thesis
    using assms votedFor_cong [OF frame(2,1)] by (auto simp: electionStep_def ballotsOk_def elects_def)
qed

text \<open>Carrying an election step back over a prefix that kept the configuration.\<close>

lemma electionStep_before:
  assumes "electionStep V n1 n'" and "nId n1 = nId n" and "nConfiguration n1 = nConfiguration n"
    and "nRole n1 \<noteq> Leader \<or> nRole n = Leader \<and> nTerm n1 = nTerm n"
  shows "electionStep V n n'"
  using assms by (auto simp: electionStep_def elects_def)

lemma election_startElection:
  assumes "ballotsOk V n" and "nRole n \<noteq> Leader"
  shows "electionStep V n (fst (startElection env n))"
proof (cases "\<not> isVoter (nConfiguration n) (nId n) \<or> nTerm n = maxU64")
  case True
  then show ?thesis
    using assms by (auto simp: startElection_def failNode_def electionStep_def elects_def nTerm_def)
next
  case False
  let ?c = "candidateState env (n\<lparr>nRole := Candidate, nLeaderID := 0\<rparr>)"
  obtain n1 r where p: "persist env ?c = (n1, r)" by fastforce
  from saveState_frame [OF p [unfolded persist_def]]
  have n1: "nId n1 = nId n" "nRole n1 = Candidate" "nVotes n1 = Some [nId n \<mapsto> True]"
    "hVotedFor (nHard n1) = nId n" "nConfiguration n1 = nConfiguration n" by auto
  then have own: "votedFor V n1 v \<longleftrightarrow> v = nId n \<or> (v, nTerm n1, nId n) \<in> V" for v
    by (auto simp: votedFor_def)
  have ballots: "ballotsOk V n1"
    using n1 by (auto simp: ballotsOk_def mapVote_def own)
  have stay: "electionStep V n n1" using n1 ballots by (simp add: electionStep_def elects_def)
  have win: "electionStep V n (fst (becomeLeader env n1))" if "quorum (nConfiguration n1) (\<lambda>x. x = nId n1)"
  proof (rule electionStep_before [OF leads_becomeLeader])
    show "quorum (nConfiguration n1) (votedFor V n1)"
      using that by (rule quorum_mono) (simp add: own n1)
  qed (use n1 in simp_all)
  show ?thesis
    using False stay win by (cases r) (simp_all add: startElection_def Let_def p nTerm_def)
qed

lemma election_handleVoteResponse:
  assumes "ballotsOk V n" and "mgVoteGranted m \<Longrightarrow> (mgFrom m, mgTerm m, nId n) \<in> V"
  shows "electionStep V n (fst (handleVoteResponse env m n))"
proof (cases "mgTerm m < nTerm n \<or> nRole n \<noteq> Candidate \<or> mgTerm m \<noteq> nTerm n")
  case True
  then show ?thesis using calm_electionStep [OF calm_refl assms(1)] by (simp add: handleVoteResponse_def)
next
  case False
  then have role: "nRole n = Candidate" "mgTerm m = nTerm n" by auto
  obtain n1 r where rv: "recordVote m n = (n1, r)" by fastforce
  have n1: "nId n1 = nId n" "nHard n1 = nHard n" "nRole n1 = Candidate" "nConfiguration n1 = nConfiguration n"
    using rv role by (auto simp: recordVote_def panic_def split: if_splits option.splits)
  have same: "votedFor V n1 = votedFor V n" by (rule votedFor_cong [OF n1(2,1)])
  have old: "mapVote (nVotes n) v \<Longrightarrow> votedFor V n v" for v
    using assms(1) role by (simp add: ballotsOk_def)
  have box: "mapVote (nVotes n1) v \<Longrightarrow> votedFor V n v" for v
    using rv assms(2) role old [of v]
    by (auto simp: recordVote_def panic_def mapVote_def votedFor_def split: if_splits option.splits)
  then have ballots: "ballotsOk V n1"
    using assms(1) role n1 by (simp add: ballotsOk_def same)
  have stay: "electionStep V n n1" using n1 ballots by (simp add: electionStep_def elects_def)
  have win: "electionStep V n (fst (becomeLeader env n1))" if "quorum (nConfiguration n1) (mapVote (nVotes n1))"
  proof (rule electionStep_before [OF leads_becomeLeader])
    show "quorum (nConfiguration n1) (votedFor V n1)"
      using that by (rule quorum_mono) (simp add: same box)
  qed (use n1 in simp_all)
  show ?thesis
    using False stay win by (cases r) (simp_all add: handleVoteResponse_def rv)
qed

lemma election_handleRequestVote:
  assumes "ballotsOk V n" and "nId n \<noteq> 0"
  shows "electionStep V n (fst (handleRequestVote env m n))"
proof -
  let ?n' = "fst (handleRequestVote env m n)"
  have "nId ?n' = nId n \<and> nTerm ?n' = nTerm n \<and> nRole ?n' = nRole n \<and> nVotes ?n' = nVotes n \<and>
    (hVotedFor (nHard ?n') = hVotedFor (nHard n) \<or> hVotedFor (nHard n) = 0)"
    by (auto simp: handleRequestVote_def Let_def persist_def saveState_def failNode_def setHard_def
        grantsVote_def nTerm_def split: sum.split prod.split)
  then show ?thesis
    using assms by (auto simp: electionStep_def ballotsOk_def elects_def votedFor_def)
qed

definition knownVote :: "(NodeID \<times> nat \<times> NodeID) set \<Rightarrow> Message \<Rightarrow> bool" where
  "knownVote V m \<longleftrightarrow>
     (mgType m = RequestVoteResponse \<and> mgVoteGranted m \<longrightarrow> (mgFrom m, mgTerm m, mgTo m) \<in> V)"

lemma election_dispatch:
  assumes "ballotsOk V n" and "nId n \<noteq> 0" and "knownVote V m" and "mgTo m = nId n"
  shows "electionStep V n (fst (dispatch env m n))"
proof -
  have "electionStep V n (fst (handleTimeoutNow env m n))"
    using assms(1) election_startElection [OF assms(1)] calm_electionStep [OF calm_refl assms(1)]
    by (simp add: handleTimeoutNow_def)
  moreover have "mgType m = RequestVoteResponse \<Longrightarrow> electionStep V n (fst (handleVoteResponse env m n))"
    by (rule election_handleVoteResponse [OF assms(1)]) (use assms(3,4) in \<open>simp add: knownVote_def\<close>)
  ultimately show ?thesis
    using assms
    by (simp add: dispatch_def election_handleRequestVote calm_electionStep calm_handleAppendEntries
        calm_handleAppendResponse calm_handleInstallSnapshot calm_handleSnapshotResponse)
qed

lemma advanceTerm_frame:
  assumes "advanceTerm env term n = (n1, r)" and "nTerm n < term"
  shows "nId n1 = nId n" "nConfiguration n1 = nConfiguration n" "nRole n1 = Follower"
    "hTerm (nHard n1) = term" "hVotedFor (nHard n1) = 0" "nPeers n1 = nPeers n"
proof -
  let ?f = "becomeFollower env 0 (setHard term 0 n)"
  have "saveState env (nPersistent ?f) ?f = (n1, r)"
    using assms by (simp add: advanceTerm_def persist_def)
  from saveState_frame [OF this] show "nId n1 = nId n" "nConfiguration n1 = nConfiguration n"
    "nRole n1 = Follower" "hTerm (nHard n1) = term" "hVotedFor (nHard n1) = 0" "nPeers n1 = nPeers n"
    by (auto simp: setHard_def)
qed

lemma election_stepMessage:
  assumes "ballotsOk V n" and "nId n \<noteq> 0" and "knownVote V m"
  shows "electionStep V n (fst (stepMessage env m n))"
proof (cases "usable n \<noteq> None \<or> mgTo m \<noteq> nId n \<or> mgFrom m = 0 \<or> mgFrom m \<notin> set (nPeers n) \<or> \<not> validMessageType (mgType m)")
  case True
  then show ?thesis
    using calm_electionStep [OF calm_refl assms(1)]
    by (cases "usable n") (simp_all add: stepMessage_def guardUsable_def)
next
  case ok: False
  show ?thesis
  proof (cases "mgTerm m > nTerm n")
    case True
    obtain n1 r where adv: "advanceTerm env (mgTerm m) n = (n1, r)" by fastforce
    note n1 = advanceTerm_frame [OF adv True]
    have b: "ballotsOk V n1" using n1 by (simp add: ballotsOk_def)
    have "electionStep V n1 n1" using b n1 by (simp add: electionStep_def elects_def)
    moreover have "electionStep V n1 (fst (dispatch env m n1))"
      using election_dispatch [OF b _ assms(3)] n1 assms(2) ok by simp
    ultimately have "electionStep V n n1" "electionStep V n (fst (dispatch env m n1))"
      using electionStep_before [of V n1 _ n] n1 by auto
    then show ?thesis
      using ok True adv by (cases r) (simp_all add: stepMessage_def guardUsable_def)
  next
    case False
    then show ?thesis
      using ok election_dispatch [OF assms] by (simp add: stepMessage_def guardUsable_def)
  qed
qed

lemma tickTransfer_frame [simp]:
  "nId (tickTransfer n) = nId n" "nPersistent (tickTransfer n) = nPersistent n"
  "nRole (tickTransfer n) = nRole n" "nVotes (tickTransfer n) = nVotes n"
  "nCommitIndex (tickTransfer n) = nCommitIndex n" "nLastApplied (tickTransfer n) = nLastApplied n"
  "nFatal (tickTransfer n) = nFatal n" "nConfiguration (tickTransfer n) = nConfiguration n"
  "nNextIndex (tickTransfer n) = nNextIndex n" "nMatchIndex (tickTransfer n) = nMatchIndex n"
  "nPeers (tickTransfer n) = nPeers n" "nStore (tickTransfer n) = nStore n"
  "nStateMachine (tickTransfer n) = nStateMachine n"
  by (simp_all add: tickTransfer_def Let_def)

lemma election_tick:
  assumes "ballotsOk V n"
  shows "electionStep V n (fst (tick env n))"
proof -
  have start: "electionStep V n (fst (startElection env (n\<lparr>nElectionElapsed := k\<rparr>)))" if "nRole n \<noteq> Leader" for k
  proof (rule electionStep_before [OF election_startElection])
    show "ballotsOk V (n\<lparr>nElectionElapsed := k\<rparr>)"
      using assms by (auto simp: ballotsOk_def votedFor_def nTerm_def)
  qed (use that in simp_all)
  have "calm n (n\<lparr>nElectionElapsed := k\<rparr>)" "calm n ((tickTransfer n)\<lparr>nHeartbeatElapsed := k\<rparr>)" for k
    by (simp_all add: calm_def)
  then show ?thesis
    using start calm_electionStep [OF _ assms]
    by (auto simp: tick_def guardUsable_def Let_def replicationMessages_def split: option.split)
qed

lemma fst_dropIndex: "fst (dropIndex r) = fst r"
  unfolding dropIndex_def by (cases r; cases "snd r") simp_all

theorem election_runCall:
  assumes "ballotsOk V n" and "nId n \<noteq> 0" and "\<And>m. c = CallStep m \<Longrightarrow> knownVote V m"
  shows "electionStep V n (fst (runCall env c n))"
proof (cases c)
  case CallTick
  then show ?thesis using election_tick [OF assms(1)] by simp
next
  case (CallStep m)
  then show ?thesis using election_stepMessage [OF assms(1,2) assms(3)] by simp
next
  case CallCreateSnapshot
  have "calm n (fst (andThen (createSnapshot env n) (\<lambda>n _. (n, Inr []))))"
    by (rule calm_andThen [OF calm_createSnapshot]) simp
  then show ?thesis using calm_electionStep [OF _ assms(1)] by (simp add: CallCreateSnapshot)
next
  case CallStop
  have "calm n (stop n)" by (simp add: stop_def calm_def)
  then show ?thesis using calm_electionStep [OF _ assms(1)] by (simp add: CallStop)
qed (use assms(1) in \<open>simp_all add: fst_dropIndex calm_electionStep calm_proposals calm_transferLeadership\<close>)

section \<open>Positive vote responses\<close>

text \<open>
  \<open>grantsOk n ms\<close>: every positive vote response in \<open>ms\<close> is sent by \<open>n\<close> in its present term to the
  candidate that \<open>n\<close> has recorded as its vote.
\<close>

definition grantsOk :: "('st, 'sm) Node \<Rightarrow> Message list \<Rightarrow> bool" where
  "grantsOk n ms \<longleftrightarrow> (\<forall>m \<in> set ms. mgType m = RequestVoteResponse \<and> mgVoteGranted m \<longrightarrow>
     mgFrom m = nId n \<and> mgTerm m = nTerm n \<and> mgTo m = hVotedFor (nHard n) \<and> mgTo m \<noteq> 0)"

definition grantStep :: "('st, 'sm, Message list) step \<Rightarrow> bool" where
  "grantStep r \<longleftrightarrow> (case r of (n, Inl e) \<Rightarrow> True | (n, Inr ms) \<Rightarrow> grantsOk n ms)"

lemma grantStep_simps [simp]:
  "grantStep (n, Inl e)" "grantStep (n, Inr ms) = grantsOk n ms" "grantsOk n []"
  "grantStep (failNode e n)" "grantStep (panic t n)"
  by (simp_all add: grantStep_def grantsOk_def failNode_def panic_def)

lemma grantStep_andThen: "(\<And>s a. r = (s, Inr a) \<Longrightarrow> grantStep (f s a)) \<Longrightarrow> grantStep (andThen r f)"
  by (cases r; cases "snd r") auto

lemma grant_replicationMessage:
  "replicationMessage n p = Inr m \<Longrightarrow> mgType m = InstallSnapshot \<or> mgType m = AppendEntries"
  by (auto simp: replicationMessage_def Let_def split: if_splits sum.splits)

lemma grant_replicationLoop:
  "replicationLoop n ps = Inr ms \<Longrightarrow> m \<in> set ms \<Longrightarrow> mgType m = InstallSnapshot \<or> mgType m = AppendEntries"
  by (induction ps arbitrary: ms)
    (auto elim!: bindR_okE dest: grant_replicationMessage split: if_splits)

lemma grantStep_replication:
  "grantStep (replicationMessages n)" "grantStep (sendReplication n p)"
  by (auto simp: replicationMessages_def sendReplication_def grantStep_def grantsOk_def message_type_defs
      dest!: grant_replicationLoop grant_replicationMessage elim!: bindR_okE split: sum.split)

lemma replicationMessages_grantsOk: "replicationMessages n = (s, Inr ms) \<Longrightarrow> grantsOk s ms"
  using grantStep_replication(1) [of n] by simp

lemma grantStep_appendOwn:
  "grantStep (andThen (appendOwn env k c n) (\<lambda>n r. (n, Inr (snd r))))"
  unfolding appendOwn_def Let_def andThen_assoc
  by (intro grantStep_andThen) (auto dest: replicationMessages_grantsOk)

lemma grantStep_guardUsable: "grantStep k \<Longrightarrow> grantStep (guardUsable n k)"
  by (auto simp: guardUsable_def split: option.split)

lemma dropIndex_cases [simp]:
  "dropIndex (n, Inl e) = (n, Inl e)" "dropIndex (n, Inr (i, ms)) = (n, Inr ms)"
  by (simp_all add: dropIndex_def)

lemma dropIndex_guardUsable: "dropIndex (guardUsable n k) = guardUsable n (dropIndex k)"
  by (simp add: guardUsable_def split: option.split)

lemma grantStep_proposals:
  "grantStep (dropIndex (propose env c n))" "grantStep (dropIndex (proposeNoOp env n))"
  "grantStep (dropIndex (proposeConfiguration env cf n))"
proof -
  have own: "grantStep (dropIndex (appendOwn env k x n))" for k x
    unfolding dropIndex_def by (rule grantStep_appendOwn)
  show "grantStep (dropIndex (propose env c n))" "grantStep (dropIndex (proposeNoOp env n))"
    "grantStep (dropIndex (proposeConfiguration env cf n))"
    unfolding propose_def proposeNoOp_def proposeConfiguration_def dropIndex_guardUsable
    by (auto intro!: grantStep_guardUsable own split: sum.split)
qed

lemma grantStep_becomeLeader: "grantStep (becomeLeader env n)"
  by (simp add: becomeLeader_def grantStep_appendOwn)

lemma grantStep_startElection: "grantStep (startElection env n)"
  unfolding startElection_def Let_def
  by (auto simp: grantStep_becomeLeader grantsOk_def voteRequest_def message_type_defs intro!: grantStep_andThen)

lemma grantStep_handleRequestVote:
  assumes "mgFrom m \<noteq> 0"
  shows "grantStep (handleRequestVote env m n)"
proof -
  have "grantStep (andThen (if hVotedFor (nHard n) \<noteq> mgFrom m then persist env (setHard (nTerm n) (mgFrom m) n) else (n, Inr ()))
      (\<lambda>n _. (resetElectionTimer env n, Inr [voteResponse (resetElectionTimer env n) (mgFrom m) True])))"
  proof (rule grantStep_andThen)
    fix s a
    assume r: "(if hVotedFor (nHard n) \<noteq> mgFrom m then persist env (setHard (nTerm n) (mgFrom m) n) else (n, Inr ())) = (s, Inr a)"
    have "hVotedFor (nHard s) = mgFrom m"
      using r saveState_frame [of env "nPersistent (setHard (nTerm n) (mgFrom m) n)" "setHard (nTerm n) (mgFrom m) n" s]
      by (auto simp: persist_def setHard_def split: if_splits)
    then show "grantStep (resetElectionTimer env s, Inr [voteResponse (resetElectionTimer env s) (mgFrom m) True])"
      using assms by (simp add: grantsOk_def voteResponse_def nTerm_def)
  qed
  then show ?thesis
    by (simp add: handleRequestVote_def Let_def grantsOk_def voteResponse_def)
qed

lemma grantStep_handleVoteResponse: "grantStep (handleVoteResponse env m n)"
  unfolding handleVoteResponse_def by (auto intro!: grantStep_andThen simp: grantStep_becomeLeader)

lemma grantStep_handleAppendEntries: "grantStep (handleAppendEntries env m n)"
  unfolding handleAppendEntries_def acceptAppend_def Let_def
  by (auto simp: grantsOk_def appendResponse_def message_type_defs intro!: grantStep_andThen split: sum.split)

lemma grantStep_handleAppendResponse: "grantStep (handleAppendResponse env m n)"
  unfolding handleAppendResponse_def Let_def
  by (auto simp: grantStep_replication intro!: grantStep_andThen)

lemma grantStep_handleInstallSnapshot: "grantStep (handleInstallSnapshot env m n)"
  unfolding handleInstallSnapshot_def installSnapshot_def adoptSnapshot_def Let_def
  by (auto simp: grantsOk_def snapshotResponse_def message_type_defs intro!: grantStep_andThen
      split: sum.split prod.split)

lemma grantStep_handleSnapshotResponse: "grantStep (handleSnapshotResponse env m n)"
  unfolding handleSnapshotResponse_def Let_def
  by (auto simp: grantStep_replication intro!: grantStep_andThen)

lemma grantStep_dispatch: "mgFrom m \<noteq> 0 \<Longrightarrow> grantStep (dispatch env m n)"
  by (simp add: dispatch_def grantStep_handleRequestVote grantStep_handleVoteResponse
      grantStep_handleAppendEntries grantStep_handleAppendResponse grantStep_handleInstallSnapshot
      grantStep_handleSnapshotResponse handleTimeoutNow_def grantStep_startElection)

lemma grantStep_runCall: "grantStep (runCall env c n)"
proof (cases c)
  case CallTick
  have "grantStep (tick env n)"
    unfolding tick_def Let_def
    by (rule grantStep_guardUsable) (simp add: grantStep_replication grantStep_startElection)
  then show ?thesis by (simp add: CallTick)
next
  case (CallStep m)
  have "grantStep (stepMessage env m n)"
    unfolding stepMessage_def
    by (rule grantStep_guardUsable) (auto intro!: grantStep_andThen grantStep_dispatch)
  then show ?thesis by (simp add: CallStep)
next
  case (CallTransferLeadership t)
  have "grantStep (transferLeadership t n)"
    unfolding transferLeadership_def
    by (rule grantStep_guardUsable) (simp add: grantsOk_def message_type_defs)
  then show ?thesis by (simp add: CallTransferLeadership)
next
  case CallCreateSnapshot
  show ?thesis unfolding CallCreateSnapshot by (simp add: grantStep_andThen)
qed (simp_all add: grantStep_proposals)

end
