(* ===== verification/Raft_Cluster.thy ===== *)
theory Raft_Cluster
  imports Raft_Election
begin

text \<open>
  Several nodes and a network. A cluster step is one call on one node that is up (with a message
  that was sent before, if the call is \<open>Step\<close>), a crash, or a restart of a crashed node through
  \<open>NewNode\<close> from whatever its store holds. Messages stay in the network for ever, so that loss,
  duplication and reordering are all covered. Two history variables record every vote a store has
  held and every node that became leader, with the configuration it was elected under. The theory
  shows election safety across crashes and restarts.
\<close>

record ('st, 'sm) Cluster =
  clNodes :: "NodeID \<Rightarrow> ('st, 'sm) Node"
  clUp :: "NodeID \<Rightarrow> bool"
  clNet :: "Message set"
  clVotes :: "(NodeID \<times> nat \<times> NodeID) set"
  clLeaders :: "(nat \<times> NodeID \<times> Configuration) set"

definition storedVote :: "('st, 'sm) Env \<Rightarrow> NodeID \<Rightarrow> ('st, 'sm) Node \<Rightarrow> (NodeID \<times> nat \<times> NodeID) set" where
  "storedVote env i n =
     (case envLoad env (nStore n) of Inl _ \<Rightarrow> {}
      | Inr q \<Rightarrow> if hVotedFor (psHardState q) = 0 then {}
               else {(i, hTerm (psHardState q), hVotedFor (psHardState q))})"

definition newLeader :: "('st, 'sm) Node \<Rightarrow> ('st, 'sm) Node \<Rightarrow> (nat \<times> NodeID \<times> Configuration) set" where
  "newLeader n n' =
     (if nRole n' = Leader \<and> nFatal n' = None \<and> \<not> (nRole n = Leader \<and> nTerm n = nTerm n')
      then {(nTerm n', nId n', nConfiguration n)} else {})"

definition sent :: "raft_error + Message list \<Rightarrow> Message set" where
  "sent r = (case r of Inl _ \<Rightarrow> {} | Inr ms \<Rightarrow> set ms)"

definition panicked :: "raft_error + Message list \<Rightarrow> bool" where
  "panicked r = (case r of Inl e \<Rightarrow> isPanic e | Inr _ \<Rightarrow> False)"

definition afterCall :: "('st, 'sm) Env \<Rightarrow> NodeID \<Rightarrow> ('st, 'sm, Message list) step \<Rightarrow> ('st, 'sm) Cluster \<Rightarrow> ('st, 'sm) Cluster" where
  "afterCall env i r cl =
     (let n = clNodes cl i; n' = fst r in
      cl\<lparr>clNodes := (clNodes cl)(i := n'), clUp := (clUp cl)(i := \<not> panicked (snd r)),
         clNet := clNet cl \<union> sent (snd r), clVotes := clVotes cl \<union> storedVote env i n',
         clLeaders := clLeaders cl \<union> newLeader n n'\<rparr>)"

inductive clusterStep :: "('st, 'sm) Env \<Rightarrow> (NodeID \<Rightarrow> Config) \<Rightarrow> ('st, 'sm) Cluster \<Rightarrow> ('st, 'sm) Cluster \<Rightarrow> bool"
  for env cfg where
  call: "clUp cl i \<Longrightarrow> callTyped c \<Longrightarrow> (\<And>m. c = CallStep m \<Longrightarrow> m \<in> clNet cl) \<Longrightarrow>
    clusterStep env cfg cl (afterCall env i (runCall env c (clNodes cl i)) cl)"
| crash: "clusterStep env cfg cl (cl\<lparr>clUp := (clUp cl)(i := False)\<rparr>)"
| restart: "\<not> clUp cl i \<Longrightarrow> cgID (cfg i) = i \<Longrightarrow> newNode env (cfg i) (nStore (clNodes cl i)) sm = Inr n' \<Longrightarrow>
    clusterStep env cfg cl (cl\<lparr>clNodes := (clNodes cl)(i := n'), clUp := (clUp cl)(i := True)\<rparr>)"

text \<open>Initially every node is down, the network is empty, and the stores are readable.\<close>

definition clusterInit :: "('st, 'sm) Env \<Rightarrow> ('st, 'sm) Cluster \<Rightarrow> bool" where
  "clusterInit env cl \<longleftrightarrow>
     (\<forall>i. \<not> clUp cl i \<and> nId (clNodes cl i) = i \<and>
        (case envLoad env (nStore (clNodes cl i)) of Inl _ \<Rightarrow> False | Inr q \<Rightarrow> hTerm (psHardState q) \<le> maxU64)) \<and>
     clNet cl = {} \<and> clLeaders cl = {} \<and> clVotes cl = (\<Union>i. storedVote env i (clNodes cl i))"

inductive clusterReachable :: "('st, 'sm) Env \<Rightarrow> (NodeID \<Rightarrow> Config) \<Rightarrow> ('st, 'sm) Cluster \<Rightarrow> bool"
  for env cfg where
  init: "clusterInit env cl \<Longrightarrow> clusterReachable env cfg cl"
| step: "clusterReachable env cfg cl \<Longrightarrow> clusterStep env cfg cl cl' \<Longrightarrow> clusterReachable env cfg cl'"

inductive_cases clusterStepE: "clusterStep env cfg cl cl'"

section \<open>The vote history\<close>

text \<open>
  \<open>votesMatch V i q\<close>: the votes of node \<open>i\<close> in the history are older than the stored hard state
  \<open>q\<close>, or are its present vote.
\<close>

definition votesMatch :: "(NodeID \<times> nat \<times> NodeID) set \<Rightarrow> NodeID \<Rightarrow> HardState \<Rightarrow> bool" where
  "votesMatch V i h \<longleftrightarrow>
     (\<forall>t c. (i, t, c) \<in> V \<longrightarrow> c \<noteq> 0 \<and> (t < hTerm h \<or> t = hTerm h \<and> c = hVotedFor h))"

definition votesUnique :: "(NodeID \<times> nat \<times> NodeID) set \<Rightarrow> bool" where
  "votesUnique V \<longleftrightarrow> (\<forall>v t c d. (v, t, c) \<in> V \<longrightarrow> (v, t, d) \<in> V \<longrightarrow> c = d)"

definition voteOf :: "NodeID \<Rightarrow> HardState \<Rightarrow> (NodeID \<times> nat \<times> NodeID) set" where
  "voteOf i h = (if hVotedFor h = 0 then {} else {(i, hTerm h, hVotedFor h)})"

lemma storedVote_load: "envLoad env (nStore n) = Inr q \<Longrightarrow> storedVote env i n = voteOf i (psHardState q)"
  by (simp add: storedVote_def voteOf_def)

lemma storedVote_owner: "(v, t, c) \<in> storedVote env i n \<Longrightarrow> v = i"
  by (auto simp: storedVote_def split: sum.splits if_splits)

lemma votesMatchD:
  "votesMatch V i h \<Longrightarrow> (i, t, c) \<in> V \<Longrightarrow> c \<noteq> 0 \<and> (t < hTerm h \<or> t = hTerm h \<and> c = hVotedFor h)"
  by (simp add: votesMatch_def)

lemma votesMatch_forward:
  assumes "votesMatch V i h" and "hardLe h h'"
  shows "votesMatch V i h'"
  unfolding votesMatch_def
proof (intro allI impI)
  fix t c
  assume "(i, t, c) \<in> V"
  from votesMatchD [OF assms(1) this] assms(2)
  show "c \<noteq> 0 \<and> (t < hTerm h' \<or> t = hTerm h' \<and> c = hVotedFor h')" by (auto simp: hardLe_def)
qed

lemma voteOf_iff: "(v, t, c) \<in> voteOf i h \<longleftrightarrow> v = i \<and> t = hTerm h \<and> c = hVotedFor h \<and> c \<noteq> 0"
  by (auto simp: voteOf_def)

lemma votesMatch_add: "votesMatch V i h \<Longrightarrow> votesMatch (V \<union> voteOf i h) i h"
  by (auto simp: votesMatch_def voteOf_iff)

lemma votesMatch_other: "votesMatch V j h \<Longrightarrow> j \<noteq> i \<Longrightarrow> votesMatch (V \<union> voteOf i h') j h"
  by (auto simp: votesMatch_def voteOf_iff)

lemma votesUnique_add:
  assumes "votesUnique V" and "votesMatch V i h"
  shows "votesUnique (V \<union> voteOf i h)"
  unfolding votesUnique_def
proof (intro allI impI)
  fix v t c d
  assume "(v, t, c) \<in> V \<union> voteOf i h" "(v, t, d) \<in> V \<union> voteOf i h"
  then show "c = d"
    using assms(1) votesMatchD [OF assms(2), of t c] votesMatchD [OF assms(2), of t d]
    by (auto simp: votesUnique_def voteOf_iff)
qed

lemma ballotsOk_mono: "ballotsOk V n \<Longrightarrow> V \<subseteq> W \<Longrightarrow> ballotsOk W n"
  by (auto simp: ballotsOk_def votedFor_def)

lemma knownVote_mono: "knownVote V m \<Longrightarrow> V \<subseteq> W \<Longrightarrow> knownVote W m"
  by (auto simp: knownVote_def)

section \<open>The invariant\<close>

definition nodeInv :: "('st, 'sm) Env \<Rightarrow> (NodeID \<times> nat \<times> NodeID) set \<Rightarrow> NodeID \<Rightarrow> ('st, 'sm) Node \<Rightarrow> bool" where
  "nodeInv env V i n \<longleftrightarrow> nId n = i \<and> storedVote env i n \<subseteq> V \<and>
     (case envLoad env (nStore n) of Inl _ \<Rightarrow> False
      | Inr q \<Rightarrow> hTerm (psHardState q) \<le> maxU64 \<and> votesMatch V i (psHardState q))"

definition liveInv :: "('st, 'sm) Env \<Rightarrow> ('st, 'sm) Cluster \<Rightarrow> NodeID \<Rightarrow> bool" where
  "liveInv env cl i \<longleftrightarrow> i \<noteq> 0 \<and>
     (let n = clNodes cl i in
      nFatal n = None \<longrightarrow> ready env n \<and> ballotsOk (clVotes cl) n \<and>
        (nRole n = Leader \<longrightarrow> (\<exists>c. (nTerm n, i, c) \<in> clLeaders cl)))"

definition clusterInv :: "('st, 'sm) Env \<Rightarrow> ('st, 'sm) Cluster \<Rightarrow> bool" where
  "clusterInv env cl \<longleftrightarrow> votesUnique (clVotes cl) \<and>
     (\<forall>i. nodeInv env (clVotes cl) i (clNodes cl i)) \<and>
     (\<forall>i. clUp cl i \<longrightarrow> liveInv env cl i) \<and>
     (\<forall>m \<in> clNet cl. knownVote (clVotes cl) m) \<and>
     (\<forall>t i c. (t, i, c) \<in> clLeaders cl \<longrightarrow> quorum c (\<lambda>v. (v, t, i) \<in> clVotes cl))"

lemma clusterInv_init:
  assumes "clusterInit env cl"
  shows "clusterInv env cl"
proof -
  have own: "(i, t, c) \<in> clVotes cl \<longleftrightarrow> (i, t, c) \<in> storedVote env i (clNodes cl i)" for i t c
    using assms by (auto simp: clusterInit_def) (metis storedVote_owner)
  have node: "nodeInv env (clVotes cl) i (clNodes cl i)" for i
  proof -
    have "case envLoad env (nStore (clNodes cl i)) of Inl _ \<Rightarrow> False | Inr q \<Rightarrow> hTerm (psHardState q) \<le> maxU64"
      using assms by (simp add: clusterInit_def)
    then obtain q where q: "envLoad env (nStore (clNodes cl i)) = Inr q" "hTerm (psHardState q) \<le> maxU64"
      by (cases "envLoad env (nStore (clNodes cl i))") auto
    have "storedVote env i (clNodes cl i) \<subseteq> clVotes cl" "nId (clNodes cl i) = i"
      using assms by (auto simp: clusterInit_def)
    moreover have "votesMatch (clVotes cl) i (psHardState q)"
      by (auto simp: votesMatch_def own storedVote_load [OF q(1)] voteOf_iff)
    ultimately show ?thesis using q by (simp add: nodeInv_def)
  qed
  have "votesUnique (clVotes cl)"
    by (auto simp: votesUnique_def own storedVote_def split: sum.splits if_splits)
  then show ?thesis using assms node by (simp add: clusterInv_def clusterInit_def)
qed

lemma guardUsable_fatal:
  "nFatal n \<noteq> None \<Longrightarrow> guardUsable n k = (n, Inl (Joined ErrStopped (the (nFatal n))))"
  by (auto simp: guardUsable_def usable_def)

lemma fatal_runCall:
  assumes "nFatal n \<noteq> None" and "runCall env c n = (n', r)"
  shows "nId n' = nId n \<and> nStore n' = nStore n \<and> nFatal n' = nFatal n \<and> sent r = {}"
  using assms(2)
  by (cases c) (auto simp: tick_def stepMessage_def propose_def proposeNoOp_def proposeConfiguration_def
      transferLeadership_def createSnapshot_def stop_def sent_def guardUsable_fatal [OF assms(1)] dropIndex_def)

context raft_env
begin

lemma newNode_inv:
  assumes "newNode env cfg st sm = Inr n'" and "envLoad env st = Inr q" and "hTerm (psHardState q) \<le> maxU64"
  shows "nId n' = cgID cfg \<and> nId n' \<noteq> 0 \<and> nStore n' = st \<and> ready env n' \<and> nRole n' = Follower"
proof -
  from assms(1) obtain state sm' where "envLoad env st = Inr state" "validateConfig cfg = Inr ()"
    "n' = resetElectionTimer env (initialNode cfg (initialConfiguration cfg state) state st sm')"
    by (rule newNode_okE)
  then show ?thesis
    using assms(2,3)
    by (auto simp: validateConfig_def initialNode_def ready_def durable_def nTerm_def split: if_splits)
qed

lemma clusterInv_crash: "clusterInv env cl \<Longrightarrow> clusterInv env (cl\<lparr>clUp := (clUp cl)(i := False)\<rparr>)"
  by (auto simp: clusterInv_def liveInv_def)

lemma clusterInv_restart:
  assumes inv: "clusterInv env cl" and "\<not> clUp cl i" and "cgID (cfg i) = i"
    and new: "newNode env (cfg i) (nStore (clNodes cl i)) sm = Inr n'"
  shows "clusterInv env (cl\<lparr>clNodes := (clNodes cl)(i := n'), clUp := (clUp cl)(i := True)\<rparr>)"
proof -
  obtain q where q: "envLoad env (nStore (clNodes cl i)) = Inr q" "hTerm (psHardState q) \<le> maxU64"
    "votesMatch (clVotes cl) i (psHardState q)" "storedVote env i (clNodes cl i) \<subseteq> clVotes cl"
  proof -
    have "nodeInv env (clVotes cl) i (clNodes cl i)" using inv by (simp add: clusterInv_def)
    then show thesis by (cases "envLoad env (nStore (clNodes cl i))") (auto simp: nodeInv_def intro: that)
  qed
  note n' = newNode_inv [OF new q(1,2)]
  have "nodeInv env (clVotes cl) i n'"
    using n' q assms(3) by (simp add: nodeInv_def storedVote_def)
  moreover have "liveInv env (cl\<lparr>clNodes := (clNodes cl)(i := n'), clUp := (clUp cl)(i := True)\<rparr>) i"
    using n' assms(3) by (auto simp: liveInv_def ballotsOk_def)
  ultimately show ?thesis
    using inv by (auto simp: clusterInv_def liveInv_def)
qed

text \<open>
  What a call does to the stored hard state, whether the node was healthy or already failed.
\<close>

lemma call_store:
  assumes node: "nodeInv env V i n" and live: "nFatal n = None \<Longrightarrow> ready env n" and "callTyped c"
    and run: "runCall env c n = (n', r)"
  obtains h q' where "envLoad env (nStore n') = Inr q'" and "votesMatch V i h" and "hardLe h (psHardState q')"
    and "hTerm (psHardState q') \<le> maxU64" and "nId n' = i"
proof (cases "nFatal n = None")
  case True
  have r: "ready env n" by (rule live [OF True])
  have "good env n (n', r)" using good_runCall [OF r assms(3)] run by simp
  then have st: "storedLe env n n'" "nId n' = nId n"
    by (auto simp: good_def goodErr_def dest: goodOk_storedLe split: sum.splits) (simp add: goodOk_def)
  have "votesMatch V i (nHard n)"
    using node r by (auto simp: nodeInv_def ready_def durable_def sameDurable_def split: sum.splits)
  then show thesis
    using st node that [of _ "nHard n"] by (auto simp: storedLe_def nodeInv_def split: sum.splits)
next
  case False
  from fatal_runCall [OF False run] have "nStore n' = nStore n" "nId n' = nId n" by simp_all
  then show thesis
    using node that [OF _ _ hardLe_refl] by (auto simp: nodeInv_def split: sum.splits)
qed

lemma clusterInv_after:
  fixes cl :: "('st, 'sm) Cluster" and n' :: "('st, 'sm) Node" and i :: NodeID
  defines "W \<equiv> clVotes cl \<union> storedVote env i n'" and "n \<equiv> clNodes cl i"
  assumes inv: "clusterInv env cl" and up: "clUp cl i" and i: "i \<noteq> 0" "nId n' = i"
    and uniq: "votesUnique W" and node: "\<And>j. nodeInv env W j (if j = i then n' else clNodes cl j)"
    and known: "\<And>m. m \<in> clNet cl \<union> sent r \<Longrightarrow> knownVote W m"
    and step: "nFatal n' = None \<Longrightarrow> nFatal n = None \<and> ready env n' \<and> electionStep W n n'"
    and own: "nFatal n' = None \<Longrightarrow> hVotedFor (nHard n') = i \<Longrightarrow> (i, nTerm n', i) \<in> W"
  shows "clusterInv env (afterCall env i (n', r) cl)"
proof -
  let ?cl = "afterCall env i (n', r) cl"
  have cl': "clVotes ?cl = W" "clNodes ?cl = (clNodes cl)(i := n')" "clNet ?cl = clNet cl \<union> sent r"
    "clLeaders ?cl = clLeaders cl \<union> newLeader n n'" "clUp ?cl j \<longrightarrow> j = i \<or> clUp cl j" for j
    by (simp_all add: afterCall_def W_def n_def Let_def)
  have sub: "clVotes cl \<subseteq> W" by (simp add: W_def)
  have lead: "quorum (nConfiguration n) (\<lambda>v. (v, nTerm n', i) \<in> W)" if "newLeader n n' \<noteq> {}"
  proof -
    have led: "nRole n' = Leader" "nFatal n' = None" "\<not> (nRole n = Leader \<and> nTerm n' = nTerm n)"
      using that by (auto simp: newLeader_def split: if_splits)
    have "elects W n n'" using step [OF led(2)] led(2) by (simp add: electionStep_def)
    then have "quorum (nConfiguration n) (votedFor W n')" using led by (simp add: elects_def)
    then show ?thesis
      by (rule quorum_mono) (use own [OF led(2)] i(2) in \<open>auto simp: votedFor_def\<close>)
  qed
  have leaders: "quorum c (\<lambda>v. (v, t, j) \<in> W)" if "(t, j, c) \<in> clLeaders ?cl" for t j c
  proof (cases "(t, j, c) \<in> clLeaders cl")
    case True
    then have "quorum c (\<lambda>v. (v, t, j) \<in> clVotes cl)" using inv by (auto simp: clusterInv_def)
    then show ?thesis by (rule quorum_mono) (use sub in auto)
  next
    case False
    then show ?thesis using that lead i(2) by (auto simp: cl' newLeader_def split: if_splits)
  qed
  have "liveInv env ?cl j" if "clUp ?cl j" for j
  proof (cases "j = i")
    case False
    then have "liveInv env cl j" using that inv cl'(5) by (auto simp: clusterInv_def)
    then show ?thesis using False ballotsOk_mono [OF _ sub] by (auto simp: liveInv_def cl' Let_def)
  next
    case True
    have "liveInv env cl i" using inv up by (simp add: clusterInv_def)
    then show ?thesis
      using True step i by (auto simp: liveInv_def cl' Let_def n_def electionStep_def elects_def newLeader_def)
  qed
  then show ?thesis
    using uniq node known leaders by (auto simp: clusterInv_def cl' fun_upd_def)
qed

lemma clusterInv_call:
  assumes inv: "clusterInv env cl" and up: "clUp cl i" and typed: "callTyped c"
    and net: "\<And>m. c = CallStep m \<Longrightarrow> m \<in> clNet cl"
  shows "clusterInv env (afterCall env i (runCall env c (clNodes cl i)) cl)"
proof -
  let ?n = "clNodes cl i" and ?V = "clVotes cl"
  obtain n' r where run: "runCall env c ?n = (n', r)" by fastforce
  have live: "liveInv env cl i" and node: "\<And>j. nodeInv env ?V j (clNodes cl j)"
    and uniq: "votesUnique ?V" and known: "\<And>m. m \<in> clNet cl \<Longrightarrow> knownVote ?V m"
    using inv up by (auto simp: clusterInv_def)
  have ready: "nFatal ?n = None \<Longrightarrow> ready env ?n" and ballots: "nFatal ?n = None \<Longrightarrow> ballotsOk ?V ?n"
    and i0: "i \<noteq> 0" using live by (auto simp: liveInv_def Let_def)
  obtain h q' where q': "envLoad env (nStore n') = Inr q'" "votesMatch ?V i h" "hardLe h (psHardState q')"
    "hTerm (psHardState q') \<le> maxU64" "nId n' = i"
    by (rule call_store [OF node ready typed run])
  let ?W = "?V \<union> storedVote env i n'"
  have W: "?W = ?V \<union> voteOf i (psHardState q')" by (simp add: storedVote_load [OF q'(1)])
  have match: "votesMatch ?V i (psHardState q')" by (rule votesMatch_forward [OF q'(2,3)])
  have node': "nodeInv env ?W j (if j = i then n' else clNodes cl j)" for j
    using node [of j] q' votesMatch_add [OF match] votesMatch_other [of ?V j _ i "psHardState q'"]
    by (cases "j = i") (auto simp: nodeInv_def W storedVote_load split: sum.splits)
  have good: "nFatal ?n = None \<Longrightarrow> good env ?n (n', r)"
    using good_runCall [OF ready typed] run by simp
  have healthy: "nFatal n' = None \<Longrightarrow> nFatal ?n = None" using fatal_runCall [OF _ run] by metis
  have step: "nFatal n' = None \<Longrightarrow> ready env n'"
    using good [OF healthy] by (auto simp: good_def goodErr_def goodOk_def split: sum.splits)
  have own: "nFatal n' = None \<Longrightarrow> hVotedFor (nHard n') \<noteq> 0 \<Longrightarrow> (i, nTerm n', hVotedFor (nHard n')) \<in> ?W"
    using step q'(1) by (auto simp: W voteOf_def ready_def durable_def sameDurable_def nTerm_def)
  have elect: "electionStep ?W ?n n'" if "nFatal n' = None"
    using election_runCall [of ?W ?n c env] ballotsOk_mono [OF ballots [OF healthy [OF that]], of ?W]
      node [of i] i0 knownVote_mono [OF known [OF net], of _ ?W] run by (simp add: nodeInv_def)
  have known': "knownVote ?W m" if m: "m \<in> clNet cl \<union> sent r" for m
  proof (cases "m \<in> clNet cl")
    case True
    then show ?thesis using knownVote_mono [OF known] by simp
  next
    case False
    then obtain ms where ms: "r = Inr ms" "m \<in> set ms" using m by (auto simp: sent_def split: sum.splits)
    then have "nFatal ?n = None" using fatal_runCall [OF _ run] by (fastforce simp: sent_def)
    then have "nFatal n' = None" using good ms by (simp add: goodOk_def ready_def)
    then show ?thesis
      using own ms grantStep_runCall [of env c ?n] run q'(5) by (auto simp: grantsOk_def knownVote_def)
  qed
  have "clusterInv env (afterCall env i (n', r) cl)"
    by (rule clusterInv_after [OF inv up i0 q'(5) _ node' known'])
      (use votesUnique_add [OF uniq match] W healthy step elect own i0 in auto)
  then show ?thesis by (simp add: run)
qed

lemma clusterInv_reachable: "clusterReachable env cfg cl \<Longrightarrow> clusterInv env cl"
proof (induction rule: clusterReachable.induct)
  case (init cl)
  then show ?case by (rule clusterInv_init)
next
  case (step cl cl')
  from step.hyps(2) step.IH show ?case
    by cases (auto intro: clusterInv_call clusterInv_crash clusterInv_restart)
qed

lemma leaders_unique:
  assumes "clusterReachable env cfg cl" and "(t, i, c) \<in> clLeaders cl" and "(t, j, d) \<in> clLeaders cl"
    and meet: "\<And>P Q. quorum c P \<Longrightarrow> quorum d Q \<Longrightarrow> \<exists>v. P v \<and> Q v"
  shows "i = j"
proof -
  have inv: "clusterInv env cl" by (rule clusterInv_reachable [OF assms(1)])
  then have "quorum c (\<lambda>v. (v, t, i) \<in> clVotes cl)" "quorum d (\<lambda>v. (v, t, j) \<in> clVotes cl)"
    using assms(2,3) by (auto simp: clusterInv_def)
  from meet [OF this] obtain v where "(v, t, i) \<in> clVotes cl" "(v, t, j) \<in> clVotes cl" by blast
  then show ?thesis using inv by (auto simp: clusterInv_def votesUnique_def)
qed

end

section \<open>Election safety over the memory store\<close>

definition memoryEnv :: "('sm \<Rightarrow> Entry \<Rightarrow> ('sm, raft_error, unit) outcome) \<Rightarrow> ('sm \<Rightarrow> ('sm, raft_error, bytes) outcome) \<Rightarrow>
    ('sm \<Rightarrow> bytes \<Rightarrow> ('sm, raft_error, unit) outcome) \<Rightarrow> (nat \<Rightarrow> nat \<Rightarrow> nat) \<Rightarrow> (MemoryStore, 'sm) Env" where
  "memoryEnv app snap rest rnd = \<lparr>envLoad = memLoad, envSave = memSave, envApply = app,
     envSnapshot = snap, envRestore = rest, envUint64N = rnd\<rparr>"

interpretation memenv: raft_env "memoryEnv app snap rest rnd" for app snap rest rnd
  unfolding raft_env_def memoryEnv_def by simp (rule mem.raft_store_axioms)

text \<open>Configurations whose quorums must meet: a valid one and itself, or two adjacent ones.\<close>

definition adjacent :: "Configuration \<Rightarrow> Configuration \<Rightarrow> bool" where
  "adjacent c d \<longleftrightarrow> c = d \<and> validateConfiguration c = Inr () \<or>
     validateConfigurationTransition c d = Inr () \<or> validateConfigurationTransition d c = Inr ()"

lemma adjacent_meet:
  assumes "adjacent c d" and "quorum c P" and "quorum d Q"
  shows "\<exists>v. P v \<and> Q v"
  using assms transition_meet [of c d P Q] transition_meet [of d c Q P] cq.meet [of c P Q]
  by (auto simp: adjacent_def validateConfiguration_iff)

text \<open>
  C1. Election safety. In every reachable state of a cluster, whatever calls, message losses,
  duplications, reorderings, crashes and restarts led to it, and with membership changes under
  way: two nodes that were ever elected leader in the same term, under configurations that are
  equal or one admitted transition apart, are the same node.
\<close>

theorem election_safety:
  assumes "clusterReachable (memoryEnv app snap rest rnd) cfg cl"
    and "(t, i, c) \<in> clLeaders cl" and "(t, j, d) \<in> clLeaders cl" and "adjacent c d"
  shows "i = j"
  using assms(1-3) by (rule memenv.leaders_unique) (rule adjacent_meet [OF assms(4)])

section \<open>A run\<close>

text \<open>
  Three voters; node 1 times out, asks for votes, receives that of node 2 and leads term 1. The
  bundle \<open>raft_eval\<close> unfolds the node so that the simplifier can execute it.
\<close>

definition exEnv :: "(MemoryStore, nat) Env" where
  "exEnv = memoryEnv (\<lambda>sm e. (sm + length (eCommand e), Inr ())) (\<lambda>sm. (sm, Inr [])) (\<lambda>sm d. (0, Inr ())) (\<lambda>k span. 0)"

definition exConfig :: "NodeID \<Rightarrow> Config" where
  "exConfig i = \<lparr>cgID = i, cgPeers = [1, 2, 3], cgElectionTimeoutMin = 2, cgElectionTimeoutMax = 2,
     cgHeartbeatInterval = 1, cgInitialConfig = zeroConfiguration, cgBootstrapLearner = False\<rparr>"

definition exVoters :: Configuration where
  "exVoters = \<lparr>cfVersion = 1, cfOldVoters = [1, 2, 3], cfNewVoters = [], cfLearners = []\<rparr>"

definition exNode :: "NodeID \<Rightarrow> (MemoryStore, nat) Node" where
  "exNode i = resetElectionTimer exEnv (initialNode (exConfig i) exVoters zeroPersistent newMemoryStore 0)"

definition exDown :: "(MemoryStore, nat) Cluster" where
  "exDown = \<lparr>clNodes = exNode, clUp = (\<lambda>i. False), clNet = {}, clVotes = {}, clLeaders = {}\<rparr>"

definition exCall :: "NodeID \<Rightarrow> Call \<Rightarrow> (MemoryStore, nat) Cluster \<Rightarrow> (MemoryStore, nat) Cluster" where
  "exCall i c cl = afterCall exEnv i (runCall exEnv c (clNodes cl i)) cl"

definition exUp :: "(MemoryStore, nat) Cluster" where
  "exUp = exDown\<lparr>clUp := (clUp exDown)(1 := True, 2 := True)\<rparr>"

definition exRequest :: Message where "exRequest = newMessage RequestVote 1 2 1"
definition exVote :: Message where "exVote = (newMessage RequestVoteResponse 2 1 1)\<lparr>mgVoteGranted := True\<rparr>"

definition exAsked :: "(MemoryStore, nat) Cluster" where "exAsked = exCall 1 CallTick (exCall 1 CallTick exUp)"
definition exVoted :: "(MemoryStore, nat) Cluster" where "exVoted = exCall 2 (CallStep exRequest) exAsked"
definition exLed :: "(MemoryStore, nat) Cluster" where "exLed = exCall 1 (CallStep exVote) exVoted"

lemmas raft_eval = exEnv_def memoryEnv_def memLoad_def memSave_def newMemoryStore_def exVoters_def exNode_def exConfig_def initialNode_def
  zeroPersistent_def zeroSnapshot_def zeroConfiguration_def resetElectionTimer_def add64_def sub64_def Let_def
  tick_def guardUsable_def usable_def isVoter_def startElection_def candidateState_def setHard_def nTerm_def maxU64_def persist_def saveState_def
   validatePersistent_def  validateConfiguration_def normalizeConfiguration_def quorum_def joint_def majorityAcknowledged_def quorumSize_def
   becomeLeader_def lastIndex_def leaderState_def appendOwn_def setEntries_def MaxCommandBytes_def validEntryType_def EntryNoOp_def setMatch_def setNext_def
   advanceCommit_def termAt_def entrySlot_def mapIndex_def applyCommitted.simps applyNext_def entryAt_def applyEntry_def entry_type_defs replicationMessages_def members_def
   stepMessage_def dispatch_def validMessageType_def advanceTerm_def becomeFollower_def handleRequestVote_def grantsVote_def logUpToDate_def lastTerm_def voteResponse_def
   handleVoteResponse_def recordVote_def mapVote_def message_type_defs voteRequest_def replicationMessage_def entriesFrom_def
  sent_def panicked_def afterCall_def newLeader_def storedVote_def newMessage_def isLearner_def validateConfig_def initialConfiguration_def
lemmas run_eval = raft_eval exLed_def exVoted_def exAsked_def exCall_def exUp_def exDown_def exRequest_def exVote_def

lemma exNode_new: "i \<in> {1, 2} \<Longrightarrow> newNode exEnv (exConfig i) (nStore (exNode i)) 0 = Inr (exNode i)"
  by (auto simp: newNode_def raft_eval)

lemma exUp_reachable: "clusterReachable exEnv exConfig exUp"
proof -
  let ?one = "exDown\<lparr>clUp := (clUp exDown)(1 := True)\<rparr>"
  have "clusterInit exEnv exDown"
    by (simp add: clusterInit_def run_eval)
  then have 0: "clusterReachable exEnv exConfig exDown" by (rule clusterReachable.init)
  have "clusterStep exEnv exConfig exDown ?one"
    using clusterStep.restart [of exDown 1 exConfig exEnv 0 "exNode 1"] exNode_new [of 1]
    by (simp add: exDown_def exConfig_def)
  from clusterReachable.step [OF 0 this] have 1: "clusterReachable exEnv exConfig ?one" .
  have "clusterStep exEnv exConfig ?one exUp"
    using clusterStep.restart [of ?one 2 exConfig exEnv 0 "exNode 2"] exNode_new [of 2]
    by (simp add: exDown_def exUp_def exConfig_def)
  from clusterReachable.step [OF 1 this] show ?thesis .
qed

lemma exCall_reachable:
  assumes "clusterReachable exEnv exConfig cl" and "clUp cl i" and "callTyped c"
    and "\<And>m. c = CallStep m \<Longrightarrow> m \<in> clNet cl"
  shows "clusterReachable exEnv exConfig (exCall i c cl)"
  unfolding exCall_def by (rule clusterReachable.step [OF assms(1)]) (rule clusterStep.call [OF assms(2-4)])

lemma exLed_reachable: "clusterReachable exEnv exConfig exLed"
  unfolding exLed_def exVoted_def exAsked_def
proof (intro exCall_reachable exUp_reachable)
  show "clUp exUp 1" "clUp (exCall 1 CallTick exUp) 1" "callTyped (CallStep exRequest)" "callTyped (CallStep exVote)"
    by (simp_all add: run_eval)
  show "clUp (exCall 1 CallTick (exCall 1 CallTick exUp)) 2"
    "clUp (exCall 2 (CallStep exRequest) (exCall 1 CallTick (exCall 1 CallTick exUp))) 1"
    by (simp_all add: run_eval)
  show "m \<in> clNet (exCall 1 CallTick (exCall 1 CallTick exUp))" if "CallStep exRequest = CallStep m" for m
    using that by (auto simp: run_eval)
  show "m \<in> clNet (exCall 2 (CallStep exRequest) (exCall 1 CallTick (exCall 1 CallTick exUp)))"
    if "CallStep exVote = CallStep m" for m
    using that by (auto simp: run_eval)
qed simp_all

lemma exLed_leader: "(1, 1, exVoters) \<in> clLeaders exLed"
  by (simp add: run_eval)

theorem election_safety_witness: "{j. (1, j, exVoters) \<in> clLeaders exLed} = {1}"
proof -
  have "adjacent exVoters exVoters" by (simp add: adjacent_def raft_eval)
  then have "1 = j" if "(1, j, exVoters) \<in> clLeaders exLed" for j
    using election_safety [OF exLed_reachable [unfolded exEnv_def] exLed_leader that] by simp
  then show ?thesis using exLed_leader by auto
qed

end
