(* ===== verification/Raft_Log.thy ===== *)
theory Raft_Log
  imports Raft_Cluster
begin

text \<open>
  The log of a node. Between calls the log is contiguous and valid, the snapshot boundary, the
  applied index, the commit index and the last index are in order, and everything committed has
  been applied. No call ever changes a committed entry that is still in the log, or moves the
  commit index back.
\<close>

section \<open>What the validator says about the entries\<close>

definition entryOk :: "nat \<Rightarrow> Entry \<Rightarrow> bool" where
  "entryOk hard e \<longleftrightarrow> eTerm e \<noteq> 0 \<and> eTerm e \<le> hard \<and> validEntryType (eType e) \<and>
     length (eCommand e) \<le> MaxCommandBytes \<and> (eType e = EntryNoOp \<longrightarrow> eCommand e = []) \<and>
     (eType e = EntryConfig \<longrightarrow> validateEncodedConfiguration (eCommand e) = Inr ())"

lemma validateEntries_ok:
  "validateEntries s hard off lt es = Inr t \<Longrightarrow> s + off + length es \<le> maxU64 \<Longrightarrow>
   (\<forall>k < length es. eIndex (es ! k) = s + off + k + 1) \<and> list_all (entryOk hard) es \<and>
   sorted (lt # map eTerm es) \<and> t = last (lt # map eTerm es)"
proof (induction es arbitrary: off lt)
  case Nil
  then show ?case by simp
next
  case (Cons e es)
  have "add64 (add64 s off) 1 = s + off + 1"
    using Cons.prems(2) by (simp add: add64_exact)
  then have e: "eIndex e = s + off + 1" "entryOk hard e" "lt \<le> eTerm e"
    and rest: "validateEntries s hard (off + 1) (eTerm e) es = Inr t"
    using Cons.prems(1) by (auto simp: entryOk_def split: if_splits)
  note ih = Cons.IH [OF rest]
  have "eIndex ((e # es) ! k) = s + off + k + 1" if "k < length (e # es)" for k
    using that e(1) ih Cons.prems(2) by (cases k) auto
  then show ?case using e ih Cons.prems(2) by auto
qed

lemma validateEntries_complete:
  "\<forall>k < length es. eIndex (es ! k) = s + off + k + 1 \<Longrightarrow> list_all (entryOk hard) es \<Longrightarrow>
   sorted (lt # map eTerm es) \<Longrightarrow> s + off + length es \<le> maxU64 \<Longrightarrow>
   validateEntries s hard off lt es = Inr (last (lt # map eTerm es))"
proof (induction es arbitrary: off lt)
  case Nil
  then show ?case by simp
next
  case (Cons e es)
  have a: "add64 (add64 s off) 1 = s + off + 1"
    using Cons.prems(4) by (simp add: add64_exact)
  have "\<forall>k < length es. eIndex (es ! k) = s + (off + 1) + k + 1"
  proof (intro allI impI)
    fix k
    assume "k < length es"
    then show "eIndex (es ! k) = s + (off + 1) + k + 1" using Cons.prems(1) [rule_format, of "Suc k"] by simp
  qed
  then have "validateEntries s hard (off + 1) (eTerm e) es = Inr (last (eTerm e # map eTerm es))"
    using Cons.prems by (intro Cons.IH) auto
  then show ?case
    using Cons.prems a Cons.prems(1) [rule_format, of 0] by (auto simp: entryOk_def)
qed

definition contiguous :: "PersistentState \<Rightarrow> bool" where
  "contiguous p \<longleftrightarrow> snIndex (psSnapshot p) + length (psEntries p) \<le> maxU64 \<and>
     (\<forall>k < length (psEntries p). eIndex (psEntries p ! k) = snIndex (psSnapshot p) + k + 1)"

lemma validatePersistent_contiguous:
  assumes "validatePersistent p = Inr ()"
  shows "contiguous p"
proof -
  have bound: "snIndex (psSnapshot p) + length (psEntries p) \<le> maxU64"
    and "\<exists>t. validateEntries (snIndex (psSnapshot p)) (hTerm (psHardState p)) 0 (snTerm (psSnapshot p)) (psEntries p) = Inr t"
    using assms by (auto simp: validatePersistent_def Let_def elim!: bindR_okE split: if_splits)
  then show ?thesis
    using validateEntries_ok [of "snIndex (psSnapshot p)" "hTerm (psHardState p)" 0 _ "psEntries p"]
    by (auto simp: contiguous_def)
qed

lemma lastIndex_contiguous:
  assumes "contiguous (nPersistent n)"
  shows "lastIndex n = snIndex (nSnapshot n) + length (nEntries n)"
proof (cases "nEntries n = []")
  case False
  then have "last (nEntries n) = nEntries n ! (length (nEntries n) - 1)" by (rule last_conv_nth)
  then show ?thesis
    using False assms by (simp add: lastIndex_def contiguous_def)
qed (simp add: lastIndex_def)

lemma entryAt_contiguous:
  assumes "contiguous (nPersistent n)"
  shows "entryAt n i =
    (if i \<le> snIndex (nSnapshot n) then Inl ErrCompacted
     else if i > snIndex (nSnapshot n) + length (nEntries n) then Inl ErrUnavailable
     else Inr (nEntries n ! (i - snIndex (nSnapshot n) - 1)))"
  by (auto simp: entryAt_def entrySlot_def Let_def lastIndex_contiguous [OF assms])

lemma termAt_contiguous:
  assumes "contiguous (nPersistent n)"
  shows "termAt n i =
    (if i = snIndex (nSnapshot n) then Inr (snTerm (nSnapshot n))
     else if i < snIndex (nSnapshot n) then Inl ErrCompacted
     else if i > snIndex (nSnapshot n) + length (nEntries n) then Inl ErrUnavailable
     else Inr (eTerm (nEntries n ! (i - snIndex (nSnapshot n) - 1))))"
  by (auto simp: termAt_def entrySlot_def Let_def lastIndex_contiguous [OF assms])

section \<open>The invariant and the effect of a call\<close>

definition logInv :: "('st, 'sm) Node \<Rightarrow> bool" where
  "logInv n \<longleftrightarrow> validatePersistent (nPersistent n) = Inr () \<and> nFatal n = None \<and>
     snIndex (nSnapshot n) \<le> nLastApplied n \<and> nLastApplied n = nCommitIndex n \<and>
     nCommitIndex n \<le> lastIndex n"

definition logKept :: "('st, 'sm) Node \<Rightarrow> ('st, 'sm) Node \<Rightarrow> bool" where
  "logKept n n' \<longleftrightarrow> nCommitIndex n \<le> nCommitIndex n' \<and> snIndex (nSnapshot n) \<le> snIndex (nSnapshot n') \<and>
     (\<forall>i. snIndex (nSnapshot n') < i \<and> i \<le> nCommitIndex n \<longrightarrow> entryAt n' i = entryAt n i)"

definition logOk :: "('st, 'sm) Node \<Rightarrow> ('st, 'sm) Node \<Rightarrow> bool" where
  "logOk n n' \<longleftrightarrow> logInv n' \<and> logKept n n'"

text \<open>
  A call that panics or records a fatal error ends the node; for every other return the log is
  in order.
\<close>

definition logGood :: "('st, 'sm) Node \<Rightarrow> ('st, 'sm, 'a) step \<Rightarrow> bool" where
  "logGood n r = (case r of (n', Inl e) \<Rightarrow> nFatal n' \<noteq> None \<or> isPanic e \<or> logOk n n' | (n', Inr a) \<Rightarrow> logOk n n')"

lemma logGood_simps [simp]:
  "logGood n (n', Inl e) \<longleftrightarrow> nFatal n' \<noteq> None \<or> isPanic e \<or> logOk n n'"
  "logGood n (n', Inr a) \<longleftrightarrow> logOk n n'"
  "logGood n (failNode e n')" "logGood n (panic t n')"
  by (simp_all add: logGood_def failNode_def panic_def isPanic_def)

lemma logOk_refl: "logInv n \<Longrightarrow> logOk n n"
  by (simp add: logOk_def logKept_def)

lemma logOk_inv: "logOk n n' \<Longrightarrow> logInv n'"
  by (simp add: logOk_def)

lemma logOk_trans:
  assumes "logOk a b" and "logOk b c"
  shows "logOk a c"
proof -
  have "entryAt c i = entryAt a i" if "snIndex (nSnapshot c) < i" "i \<le> nCommitIndex a" for i
  proof -
    have b: "snIndex (nSnapshot b) < i" "i \<le> nCommitIndex b"
      using assms that unfolding logOk_def logKept_def by linarith+
    have "entryAt c i = entryAt b i" using assms(2) that(1) b(2) by (simp add: logOk_def logKept_def)
    also have "\<dots> = entryAt a i" using assms(1) that(2) b(1) by (simp add: logOk_def logKept_def)
    finally show ?thesis .
  qed
  moreover have "nCommitIndex a \<le> nCommitIndex c" "snIndex (nSnapshot a) \<le> snIndex (nSnapshot c)"
    using assms unfolding logOk_def logKept_def by linarith+
  ultimately show ?thesis using assms(2) by (simp add: logOk_def logKept_def)
qed

lemma logGood_trans: "logOk n s \<Longrightarrow> logGood s r \<Longrightarrow> logGood n r"
  by (cases r; cases "snd r") (auto intro: logOk_trans)

lemma logGood_seq:
  assumes "logGood n r" and "\<And>s a. logInv s \<Longrightarrow> logGood s (f s a)"
  shows "logGood n (andThen r f)"
proof (cases r)
  case (Pair s x)
  show ?thesis
  proof (cases x)
    case (Inl e)
    then show ?thesis using assms(1) Pair by simp
  next
    case (Inr a)
    then have ok: "logOk n s" using assms(1) Pair by simp
    then show ?thesis using logGood_trans [OF ok assms(2) [OF logOk_inv [OF ok]]] Pair Inr by simp
  qed
qed

text \<open>Steps that leave the log, the indexes and the fatal flag alone.\<close>

definition sameLog :: "('st, 'sm) Node \<Rightarrow> ('st, 'sm) Node \<Rightarrow> bool" where
  "sameLog n n' \<longleftrightarrow> nPersistent n' = nPersistent n \<and> nCommitIndex n' = nCommitIndex n \<and>
     nLastApplied n' = nLastApplied n \<and> nFatal n' = nFatal n"

lemma sameLog_entryAt: "nSnapshot n' = nSnapshot n \<Longrightarrow> nEntries n' = nEntries n \<Longrightarrow> entryAt n' i = entryAt n i"
  by (simp add: entryAt_def entrySlot_def lastIndex_def Let_def)

lemma lastIndex_cong: "nSnapshot n' = nSnapshot n \<Longrightarrow> nEntries n' = nEntries n \<Longrightarrow> lastIndex n' = lastIndex n"
  by (simp add: lastIndex_def)

lemma logOk_sameLog: "logInv n \<Longrightarrow> sameLog n n' \<Longrightarrow> logOk n n'"
  using sameLog_entryAt [of n' n] lastIndex_cong [of n' n]
  by (simp add: logOk_def logInv_def logKept_def sameLog_def)

lemma logGood_sameLog: "logInv n \<Longrightarrow> sameLog n n' \<Longrightarrow> logGood n (n', r)"
  by (cases r) (simp_all add: logOk_sameLog)

lemma logInv_contiguous: "logInv n \<Longrightarrow> contiguous (nPersistent n)"
  by (simp add: logInv_def validatePersistent_contiguous)

section \<open>Primitive steps\<close>

lemma sameLog_refl [simp]: "sameLog n n"
  by (simp add: sameLog_def)

lemma sameLog_timers [simp]:
  "sameLog n (resetElectionTimer env n1) = sameLog n n1"
  "sameLog n (becomeFollower env l n1) = sameLog n n1"
  "sameLog n (tickTransfer n1) = sameLog n n1"
  by (simp_all add: sameLog_def)

lemma logGood_setMatch: "logInv n \<Longrightarrow> logGood n (setMatch p v n)"
  by (auto simp: setMatch_def sameLog_def intro!: logOk_sameLog split: option.split)

lemma logGood_setNext: "logInv n \<Longrightarrow> logGood n (setNext p v n)"
  by (auto simp: setNext_def sameLog_def intro!: logOk_sameLog split: option.split)

lemma logGood_send: "logInv n \<Longrightarrow> logGood n (sendReplication n p)" "logInv n \<Longrightarrow> logGood n (replicationMessages n)"
  unfolding sendReplication_def replicationMessages_def by (simp_all add: logGood_sameLog)

lemma installConfiguration_sameLog: "sameLog n (fst (installConfiguration env c n))"
  by (auto simp: installConfiguration_def Let_def panic_def sameLog_def split: if_splits option.splits prod.splits)

lemma logGood_recordVote: "logInv n \<Longrightarrow> logGood n (recordVote m n)"
  by (auto simp: recordVote_def logOk_refl sameLog_def intro!: logOk_sameLog split: option.split)

lemma logGood_recordMatch: "logInv n \<Longrightarrow> logGood n (recordMatch m n)"
  by (simp add: recordMatch_def logOk_refl logGood_seq [OF logGood_setMatch logGood_setNext])

lemma logGood_guardUsable: "logInv n \<Longrightarrow> logGood n k \<Longrightarrow> logGood n (guardUsable n k)"
  by (simp add: guardUsable_def logOk_refl split: option.split)

context raft_env
begin

text \<open>A successful save means that the validator accepted the state.\<close>

lemma saveState_valid:
  assumes "saveState env p n = (n', Inr u)"
  shows "validatePersistent p = Inr () \<and> (\<exists>st. n' = n\<lparr>nStore := st\<rparr>)"
  using assms validated [of "nStore n" p]
  by (cases "envSave env (nStore n) p"; cases "snd (envSave env (nStore n) p)")
    (auto simp: saveState_def failNode_def)

lemma saveState_fatal: "saveState env p n = (n', Inl e) \<Longrightarrow> nFatal n' \<noteq> None"
  by (auto simp: saveState_def failNode_def split: prod.splits sum.splits)

text \<open>
  A state that was changed in memory and then persisted: if the change kept what is committed,
  the outcome is good.
\<close>

lemma logGood_persist:
  assumes kept: "contiguous (nPersistent n1) \<Longrightarrow> logKept n n1 \<and> nCommitIndex n1 \<le> lastIndex n1"
    and "nFatal n1 = None" and "snIndex (nSnapshot n1) \<le> nLastApplied n1" and "nLastApplied n1 = nCommitIndex n1"
  shows "logGood n (persist env n1)"
proof (cases "persist env n1")
  case (Pair n' r)
  show ?thesis
  proof (cases r)
    case (Inl e)
    then show ?thesis using Pair saveState_fatal by (auto simp: persist_def)
  next
    case (Inr u)
    from saveState_valid [OF Pair [unfolded Inr persist_def]]
    obtain st where st: "validatePersistent (nPersistent n1) = Inr ()" "n' = n1\<lparr>nStore := st\<rparr>" by blast
    note k = kept [OF validatePersistent_contiguous [OF st(1)]]
    have "logInv n'" using assms(2-4) k st lastIndex_cong [of n' n1] by (simp add: logInv_def)
    moreover have "logKept n n'" using k st sameLog_entryAt [of n' n1] by (simp add: logKept_def)
    ultimately show ?thesis using Pair Inr by (simp add: logOk_def)
  qed
qed

text \<open>Hard-state changes do not touch the log.\<close>

lemma logGood_persist_hard:
  assumes "logInv n" and "nSnapshot n1 = nSnapshot n" "nEntries n1 = nEntries n"
    "nCommitIndex n1 = nCommitIndex n" "nLastApplied n1 = nLastApplied n" "nFatal n1 = nFatal n"
  shows "logGood n (persist env n1)"
proof (rule logGood_persist)
  show "logKept n n1 \<and> nCommitIndex n1 \<le> lastIndex n1"
    using assms sameLog_entryAt [of n1 n] lastIndex_cong [of n1 n] by (simp add: logKept_def logInv_def)
qed (use assms in \<open>simp_all add: logInv_def\<close>)

end

section \<open>Applying\<close>

definition applyPre :: "('st, 'sm) Node \<Rightarrow> bool" where
  "applyPre n \<longleftrightarrow> validatePersistent (nPersistent n) = Inr () \<and> nFatal n = None \<and>
     snIndex (nSnapshot n) \<le> nLastApplied n \<and> nLastApplied n \<le> nCommitIndex n \<and> nCommitIndex n \<le> lastIndex n"

definition sameEntries :: "('st, 'sm) Node \<Rightarrow> ('st, 'sm) Node \<Rightarrow> bool" where
  "sameEntries n n' \<longleftrightarrow> nSnapshot n' = nSnapshot n \<and> nEntries n' = nEntries n \<and> nHard n' = nHard n \<and>
     nCommitIndex n' = nCommitIndex n"

lemma sameEntries_refl [simp]: "sameEntries n n"
  by (simp add: sameEntries_def)

lemma sameEntries_trans: "sameEntries a b \<Longrightarrow> sameEntries b c \<Longrightarrow> sameEntries a c"
  by (simp add: sameEntries_def)

lemma sameEntries_andThen:
  "sameEntries n (fst r) \<Longrightarrow> (\<And>s a. sameEntries n s \<Longrightarrow> sameEntries n (fst (f s a))) \<Longrightarrow>
   sameEntries n (fst (andThen r f))"
  by (cases r; cases "snd r") auto

lemma sameEntries_saveState: "sameEntries n n1 \<Longrightarrow> sameEntries n (fst (saveState env p n1))"
  by (auto simp: sameEntries_def saveState_def failNode_def split: prod.splits sum.splits)

lemma sameEntries_primitives:
  "sameEntries n n1 \<Longrightarrow> sameEntries n (fst (failNode e n1))"
  "sameEntries n n1 \<Longrightarrow> sameEntries n (fst (installConfiguration env c n1))"
  "sameEntries n n1 \<Longrightarrow> sameEntries n (n1\<lparr>nStateMachine := sm\<rparr>)"
  "sameEntries n n1 \<Longrightarrow> sameEntries n (n1\<lparr>nLastApplied := i\<rparr>)"
  "sameEntries n n1 \<Longrightarrow> sameEntries n (n1\<lparr>nPersistent := (nPersistent n1)\<lparr>psConfig := c\<rparr>\<rparr>)"
  "sameEntries n n1 \<Longrightarrow> sameEntries n (fst (persist env n1))"
  by (auto simp: sameEntries_def failNode_def persist_def installConfiguration_def Let_def panic_def saveState_def
      split: if_splits option.splits prod.splits sum.splits)

lemma sameEntries_applyEntry: "sameEntries n n1 \<Longrightarrow> sameEntries n (fst (applyEntry env e n1))"
  unfolding applyEntry_def
  by (auto simp: sameEntries_primitives intro!: sameEntries_andThen split: sum.split prod.split)

lemma sameEntries_applyNext: "sameEntries n n1 \<Longrightarrow> sameEntries n (fst (applyNext env n1))"
  unfolding applyNext_def Let_def
  by (auto simp: sameEntries_primitives intro!: sameEntries_andThen sameEntries_applyEntry split: sum.split)

lemma sameEntries_applyCommitted: "sameEntries n n1 \<Longrightarrow> sameEntries n (fst (applyCommitted env n1))"
proof (induction n1 rule: applyCommitted_rule [of env])
  case (step n1)
  have "sameEntries n (fst (applyNext env n1))" by (rule sameEntries_applyNext [OF step.prems])
  then show ?case
    using step by (auto simp: applyCommitted.simps [of env n1] panic_def split: prod.split sum.split)
qed

context raft_env
begin

text \<open>One entry: a return without error leaves a valid state, an error ends the node.\<close>

lemma applyEntry_outcome:
  assumes "applyEntry env e n = (n', r)" and "validatePersistent (nPersistent n) = Inr ()" and "nFatal n = None"
  shows "(r = Inr () \<and> validatePersistent (nPersistent n') = Inr () \<and> nFatal n' = None) \<or>
    (\<exists>err. r = Inl err \<and> (nFatal n' \<noteq> None \<or> isPanic err))"
proof -
  have inst: "(b = Inr () \<and> nPersistent s = nPersistent n \<and> nFatal s = None) \<or> (\<exists>err. b = Inl err \<and> isPanic err)"
    if "installConfiguration env c n = (s, b)" for s b c
    using that assms(3)
    by (auto simp: installConfiguration_def Let_def panic_def isPanic_def split: if_splits option.splits prod.splits)
  have pers: "(b = Inr () \<and> validatePersistent (nPersistent t) = Inr () \<and> nFatal t = None) \<or>
      (\<exists>err. b = Inl err \<and> nFatal t \<noteq> None)"
    if "persist env s = (t, b)" "nFatal s = None" for s t b
    using that saveState_valid [of "nPersistent s" s t] saveState_fatal [of "nPersistent s" s t]
    by (cases b) (auto simp: persist_def)
  show ?thesis
  proof (cases "eType e = EntryConfig")
    case False
    then show ?thesis
      using assms by (auto simp: applyEntry_def failNode_def split: if_splits prod.splits sum.splits)
  next
    case True
    then have ne: "eType e \<noteq> EntryCommand" by (simp add: entry_type_defs)
    have cfg: "andThen (installConfiguration env c n) (\<lambda>n _. persist env (n\<lparr>nPersistent := (nPersistent n)\<lparr>psConfig := c\<rparr>\<rparr>)) = (n', r) \<Longrightarrow> ?thesis" for c
      using inst [of c] pers
      by (cases "installConfiguration env c n"; cases "snd (installConfiguration env c n)") fastforce+
    then show ?thesis
      using assms True ne by (auto simp: applyEntry_def failNode_def split: if_splits sum.splits)
  qed
qed

lemma applyNext_outcome:
  assumes "applyNext env n = (n', r)" and "applyPre n" and "nLastApplied n < nCommitIndex n"
  shows "(r = Inr () \<and> applyPre n') \<or> (\<exists>err. r = Inl err \<and> (nFatal n' \<noteq> None \<or> isPanic err))"
proof (cases "entryAt n (nLastApplied n + 1)")
  case (Inl e)
  then show ?thesis using assms(1) by (auto simp: applyNext_def Let_def failNode_def split: if_splits)
next
  case (Inr e)
  obtain s b where ae: "applyEntry env e n = (s, b)" by fastforce
  have out: "(b = Inr () \<and> validatePersistent (nPersistent s) = Inr () \<and> nFatal s = None) \<or>
      (\<exists>err. b = Inl err \<and> (nFatal s \<noteq> None \<or> isPanic err))"
    using applyEntry_outcome [OF ae] assms(2) by (simp add: applyPre_def)
  have same: "sameEntries n s" "nLastApplied s = nLastApplied n"
    using sameEntries_applyEntry [OF sameEntries_refl, where env = env and e = e and n = n] applyEntry_indexes [OF ae] ae by simp_all
  then have "lastIndex s = lastIndex n" using lastIndex_cong [of s n] by (simp add: sameEntries_def)
  then show ?thesis
    using out same assms ae Inr lastIndex_cong [of "s\<lparr>nLastApplied := nLastApplied n + 1\<rparr>" s]
    by (auto simp: applyNext_def Let_def applyPre_def sameEntries_def)
qed

lemma applyCommitted_outcome:
  "applyCommitted env n = (n', r) \<Longrightarrow> applyPre n \<Longrightarrow>
   (r = Inr () \<and> applyPre n' \<and> nLastApplied n' = nCommitIndex n') \<or>
   (\<exists>err. r = Inl err \<and> (nFatal n' \<noteq> None \<or> isPanic err))"
proof (induction n rule: applyCommitted_rule [of env])
  case (step n)
  show ?case
  proof (cases "nLastApplied n < nCommitIndex n")
    case True
    obtain s b where nxt: "applyNext env n = (s, b)" by fastforce
    from applyNext_outcome [OF nxt step.prems(2) True] show ?thesis
      using True nxt step by (auto simp: applyCommitted.simps [of env n])
  next
    case False
    then show ?thesis
      using step.prems by (auto simp: applyCommitted.simps [of env n] applyPre_def)
  qed
qed

lemma logGood_applyCommitted:
  assumes "logInv n" and "i \<le> lastIndex n"
  shows "logGood n (applyCommitted env (n\<lparr>nCommitIndex := i\<rparr>))"
proof (cases "nLastApplied n \<le> i")
  case False
  then show ?thesis by (simp add: applyCommitted.simps [of env "n\<lparr>nCommitIndex := i\<rparr>"])
next
  case True
  let ?n = "n\<lparr>nCommitIndex := i\<rparr>"
  have pre: "applyPre ?n"
    using assms True lastIndex_cong [of ?n n] by (simp add: applyPre_def logInv_def)
  obtain n' r where run: "applyCommitted env ?n = (n', r)" by fastforce
  have same: "sameEntries ?n n'" using sameEntries_applyCommitted [OF sameEntries_refl, where env = env and n = ?n] run by simp
  have "logOk n n'" if "applyPre n'" "nLastApplied n' = nCommitIndex n'"
    using that same True assms(1) sameLog_entryAt [of n' n]
    by (simp add: logOk_def logInv_def applyPre_def sameEntries_def logKept_def)
  then show ?thesis using applyCommitted_outcome [OF run pre] by (auto simp: run)
qed

lemma logGood_advanceCommitLoop:
  "logInv n \<Longrightarrow> i \<le> lastIndex n \<Longrightarrow> logGood n (advanceCommitLoop env n i)"
proof (induction i)
  case (Suc i)
  then show ?case
    using logGood_applyCommitted [of n "Suc i"] by (simp add: Let_def logOk_refl split: sum.split)
qed (simp add: logOk_refl)

lemma logGood_advanceCommit: "logInv n \<Longrightarrow> logGood n (advanceCommit env n)"
  by (simp add: advanceCommit_def logOk_refl logGood_advanceCommitLoop)

end

section \<open>Changing the tail of the log\<close>

lemma logKept_cut:
  assumes inv: "logInv n" and c1: "contiguous (nPersistent n1)" and sn: "nSnapshot n1 = nSnapshot n"
    and es: "nEntries n1 = take k (nEntries n) @ tail" and k: "k \<le> length (nEntries n)"
    and commit: "nCommitIndex n1 = nCommitIndex n" "nCommitIndex n \<le> snIndex (nSnapshot n) + k"
  shows "logKept n n1 \<and> nCommitIndex n1 \<le> lastIndex n1"
proof -
  note c = logInv_contiguous [OF inv]
  have "entryAt n1 i = entryAt n i" if "snIndex (nSnapshot n1) < i" "i \<le> nCommitIndex n" for i
  proof -
    have "i - snIndex (nSnapshot n) - 1 < k" using that commit(2) sn by simp
    then show ?thesis
      using that k commit(2) sn es by (simp add: entryAt_contiguous [OF c1] entryAt_contiguous [OF c] nth_append)
  qed
  moreover have "nCommitIndex n1 \<le> lastIndex n1"
    using commit k sn es by (simp add: lastIndex_contiguous [OF c1])
  ultimately show ?thesis using commit sn by (simp add: logKept_def)
qed

lemma setEntries_simps [simp]:
  "nEntries (setEntries es n) = es" "nSnapshot (setEntries es n) = nSnapshot n" "nHard (setEntries es n) = nHard n"
  "nCommitIndex (setEntries es n) = nCommitIndex n" "nLastApplied (setEntries es n) = nLastApplied n"
  "nFatal (setEntries es n) = nFatal n" "nId (setEntries es n) = nId n" "nRole (setEntries es n) = nRole n"
  "nConfiguration (setEntries es n) = nConfiguration n" "nStateMachine (setEntries es n) = nStateMachine n"
  "nStore (setEntries es n) = nStore n" "nPeers (setEntries es n) = nPeers n"
  "nMatchIndex (setEntries es n) = nMatchIndex n" "nNextIndex (setEntries es n) = nNextIndex n"
  by (simp_all add: setEntries_def)

text \<open>
  The merge loop, on a log whose position \<open>off\<close> is where the incoming entries start: afterwards the
  log has exactly the incoming entries there, has the old entries before, and either did not change
  or was cut at a point that is not below the commit index.
\<close>

lemma merge_spec:
  "contiguous (nPersistent n) \<Longrightarrow> \<forall>k < length es. eIndex (es ! k) = snIndex (nSnapshot n) + off + k + 1 \<Longrightarrow>
   off \<le> length (nEntries n) \<Longrightarrow> nCommitIndex n \<le> snIndex (nSnapshot n) + length (nEntries n) \<Longrightarrow>
   mergeEntries n es = (n1, Inr b) \<Longrightarrow>
   \<exists>L. n1 = setEntries L n \<and> take off L = take off (nEntries n) \<and> take (length es) (drop off L) = es \<and>
     off + length es \<le> length L \<and> (\<not> b \<longrightarrow> L = nEntries n) \<and>
     (\<exists>k tail. k \<le> length (nEntries n) \<and> nCommitIndex n \<le> snIndex (nSnapshot n) + k \<and> L = take k (nEntries n) @ tail)"
proof (induction es arbitrary: off)
  case Nil
  then have "n1 = setEntries (nEntries n) n" "\<not> b" by (auto simp: setEntries_def)
  then show ?case
    using Nil by (intro exI [of _ "nEntries n"]) (auto intro!: exI [of _ "length (nEntries n)"])
next
  case (Cons e es)
  let ?log = "nEntries n" and ?s = "snIndex (nSnapshot n)"
  have idx: "eIndex e = ?s + off + 1" using Cons.prems(2) by fastforce
  have cut: ?case if "n1 = setEntries (take off ?log @ e # es) n" "b" "nCommitIndex n \<le> ?s + off"
    using that Cons.prems(3)
    by (intro exI [of _ "take off ?log @ e # es"]) (auto intro!: exI [of _ off] exI [of _ "e # es"])
  show ?case
  proof (cases "off < length ?log")
    case False
    then have off: "off = length ?log" using Cons.prems(3) by simp
    then have "entryAt n (eIndex e) = Inl ErrUnavailable"
      by (simp add: entryAt_contiguous [OF Cons.prems(1)] idx)
    then have "n1 = setEntries (?log @ e # es) n" "b" using Cons.prems(5) by auto
    then show ?thesis using cut off Cons.prems(4) by simp
  next
    case True
    then have at: "entryAt n (eIndex e) = Inr (?log ! off)"
      by (simp add: entryAt_contiguous [OF Cons.prems(1)] idx)
    show ?thesis
    proof (cases "eTerm (?log ! off) = eTerm e")
      case differ: False
      then have "n1 = setEntries (take off ?log @ e # es) n" "b" "nCommitIndex n < eIndex e"
        using Cons.prems(5) at idx by (auto simp: panic_def split: if_splits)
      then show ?thesis using cut idx by simp
    next
      case same: True
      then have rest: "mergeEntries n es = (n1, Inr b)" "eType (?log ! off) = eType e" "eCommand (?log ! off) = eCommand e"
        using Cons.prems(5) at by (auto simp: panic_def split: if_splits)
      have e: "?log ! off = e"
        using same rest idx Cons.prems(1) True by (intro Entry.equality) (auto simp: contiguous_def)
      have step: "\<forall>k < length es. eIndex (es ! k) = ?s + (off + 1) + k + 1"
        using Cons.prems(2) by fastforce
      from Cons.IH [OF Cons.prems(1) step _ Cons.prems(4) rest(1)] True obtain L where
        L: "n1 = setEntries L n" "take (off + 1) L = take (off + 1) ?log" "take (length es) (drop (off + 1) L) = es"
          "off + 1 + length es \<le> length L" "\<not> b \<longrightarrow> L = ?log"
          "\<exists>k tail. k \<le> length ?log \<and> nCommitIndex n \<le> ?s + k \<and> L = take k ?log @ tail" by auto
      have "L ! off = e" using L(2) e by (metis lessI nth_take Suc_eq_plus1)
      then have "drop off L = e # drop (off + 1) L" using L(4) by (simp add: Cons_nth_drop_Suc [symmetric])
      moreover have "take off L = take off ?log" using L(2) by (metis take_take min.absorb1 le_add1)
      ultimately show ?thesis using L by (intro exI [of _ L]) auto
    qed
  qed
qed

lemma validateAppendEntries_nth:
  "validateAppendEntries p t off lt es \<Longrightarrow> p + off + length es \<le> maxU64 \<Longrightarrow> k < length es \<Longrightarrow>
   eIndex (es ! k) = p + off + k + 1"
proof (induction es arbitrary: off lt k)
  case (Cons e es)
  have "add64 (add64 p off) 1 = p + off + 1" using Cons.prems(2) by (simp add: add64_exact)
  then show ?case using Cons by (cases k) (auto split: if_splits)
qed simp

lemma termAt_bounds:
  "contiguous (nPersistent n) \<Longrightarrow> termAt n i = Inr t \<Longrightarrow> snIndex (nSnapshot n) \<le> i \<and> i \<le> lastIndex n"
  by (auto simp: termAt_contiguous lastIndex_contiguous split: if_splits)

text \<open>
  What the merge of a validated message does to a log in order, at the point where the message
  attaches.
\<close>

lemma merge_message:
  assumes inv: "logInv n" and valid: "validateAppend m" and at: "termAt n (mgPrevLogIndex m) = Inr t"
    and merge: "mergeEntries n (mgEntries m) = (n1, Inr b)"
  obtains L where "n1 = setEntries L n" and "\<not> b \<Longrightarrow> L = nEntries n"
    and "take (length (mgEntries m)) (drop (mgPrevLogIndex m - snIndex (nSnapshot n)) L) = mgEntries m"
    and "take (mgPrevLogIndex m - snIndex (nSnapshot n)) L = take (mgPrevLogIndex m - snIndex (nSnapshot n)) (nEntries n)"
    and "mgPrevLogIndex m + length (mgEntries m) \<le> snIndex (nSnapshot n) + length L"
    and "contiguous (nPersistent n1) \<Longrightarrow> logKept n n1 \<and> nCommitIndex n1 \<le> lastIndex n1"
proof -
  note c = logInv_contiguous [OF inv]
  let ?s = "snIndex (nSnapshot n)" and ?off = "mgPrevLogIndex m - snIndex (nSnapshot n)"
  have p: "?s \<le> mgPrevLogIndex m" "mgPrevLogIndex m \<le> ?s + length (nEntries n)"
    using termAt_bounds [OF c at] lastIndex_contiguous [OF c] by simp_all
  have idx: "\<forall>k < length (mgEntries m). eIndex (mgEntries m ! k) = ?s + ?off + k + 1"
    using valid p validateAppendEntries_nth [of "mgPrevLogIndex m" "mgTerm m" 0 "mgPrevLogTerm m" "mgEntries m"]
    by (simp add: validateAppend_def)
  have off: "?off \<le> length (nEntries n)" and "nCommitIndex n \<le> ?s + length (nEntries n)"
    using inv p lastIndex_contiguous [OF c] by (simp_all add: logInv_def)
  from merge_spec [OF c idx off this(2) merge] obtain L k tail where
    L: "n1 = setEntries L n" "take ?off L = take ?off (nEntries n)" "take (length (mgEntries m)) (drop ?off L) = mgEntries m"
      "?off + length (mgEntries m) \<le> length L" "\<not> b \<longrightarrow> L = nEntries n"
      "k \<le> length (nEntries n)" "nCommitIndex n \<le> ?s + k" "L = take k (nEntries n) @ tail" by blast
  show ?thesis
  proof (rule that [OF L(1)])
    show "contiguous (nPersistent n1) \<Longrightarrow> logKept n n1 \<and> nCommitIndex n1 \<le> lastIndex n1"
      by (rule logKept_cut [OF inv, where k = k and tail = tail]) (use L in simp_all)
  qed (use L p in simp_all)
qed

section \<open>Every call\<close>

context raft_env
begin

lemma logGood_setEntries:
  assumes "logInv n" and "\<And>n1. n1 = setEntries es n \<Longrightarrow> contiguous (nPersistent n1) \<Longrightarrow>
    logKept n n1 \<and> nCommitIndex n1 \<le> lastIndex n1"
  shows "logGood n (persist env (setEntries es n))"
  by (rule logGood_persist) (use assms in \<open>simp_all add: logInv_def\<close>)

lemma logGood_appendOwn:
  assumes "logInv n"
  shows "logGood n (appendOwn env kind command n)"
proof -
  have "logGood n (persist env (setEntries (nEntries n @ [e]) n))" for e
    by (rule logGood_setEntries [OF assms], rule logKept_cut [OF assms, where k = "length (nEntries n)" and tail = "[e]"])
      (use assms lastIndex_contiguous [OF logInv_contiguous [OF assms]] in \<open>simp_all add: logInv_def\<close>)
  then show ?thesis
    unfolding appendOwn_def Let_def
    by (intro logGood_seq logGood_setMatch logGood_setNext logGood_advanceCommit logGood_send)
      (auto simp: logOk_refl)
qed

lemma logGood_dropIndex: "logGood n r \<Longrightarrow> logGood n (dropIndex r)"
  unfolding dropIndex_def by (rule logGood_seq) (simp_all add: logOk_refl)

lemma logGood_proposals:
  assumes "logInv n"
  shows "logGood n (propose env command n)" "logGood n (proposeNoOp env n)" "logGood n (proposeConfiguration env c n)"
  using logGood_appendOwn [OF assms] assms
  by (auto simp: propose_def proposeNoOp_def proposeConfiguration_def logOk_refl intro!: logGood_guardUsable split: sum.splits)

lemma logGood_becomeLeader:
  assumes "logInv n"
  shows "logGood n (becomeLeader env n)"
proof -
  have ok: "logOk n (leaderState n)"
    using assms by (simp add: leaderState_def logOk_sameLog sameLog_def)
  have "logGood (leaderState n) (andThen (appendOwn env EntryNoOp [] (leaderState n)) (\<lambda>n r. (n, Inr (snd r))))"
    by (intro logGood_seq logGood_appendOwn logOk_inv [OF ok]) (simp add: logOk_refl)
  from logGood_trans [OF ok this] show ?thesis by (simp add: becomeLeader_def)
qed

lemma logGood_startElection:
  assumes "logInv n"
  shows "logGood n (startElection env n)"
proof -
  have "logGood n (persist env (candidateState env (n\<lparr>nRole := Candidate, nLeaderID := 0\<rparr>)))"
    by (rule logGood_persist_hard [OF assms]) (simp_all add: candidateState_frame)
  then show ?thesis
    unfolding startElection_def Let_def using assms
    by (auto simp: logOk_refl intro!: logGood_seq logGood_becomeLeader)
qed

lemma logGood_advanceTerm:
  assumes "logInv n"
  shows "logGood n (advanceTerm env t n)"
proof -
  have "logGood n (persist env (becomeFollower env 0 (setHard t 0 n)))"
    by (rule logGood_persist_hard [OF assms]) (simp_all add: setHard_def)
  then show ?thesis by (simp add: advanceTerm_def)
qed

lemma logGood_handleRequestVote:
  assumes "logInv n"
  shows "logGood n (handleRequestVote env m n)"
proof -
  have "logGood n (persist env (setHard t v n))" for t v
    by (rule logGood_persist_hard [OF assms]) (simp_all add: setHard_def)
  then show ?thesis
    unfolding handleRequestVote_def Let_def using assms
    by (auto simp: logOk_refl intro!: logGood_seq logOk_sameLog)
qed

lemma logGood_handleVoteResponse: "logInv n \<Longrightarrow> logGood n (handleVoteResponse env m n)"
  by (simp add: handleVoteResponse_def logOk_refl logGood_seq [OF logGood_recordVote] logGood_becomeLeader)

lemma persist_frame:
  assumes "persist env n = (n', Inr u)"
  shows "nPersistent n' = nPersistent n \<and> nCommitIndex n' = nCommitIndex n"
  using saveState_valid [OF assms [unfolded persist_def]] by auto

lemma acceptAppend_merged:
  assumes inv: "logInv n" and valid: "validateAppend m" and at: "termAt n (mgPrevLogIndex m) = Inr t"
    and r: "andThen (mergeEntries n (mgEntries m)) (\<lambda>n changed. if changed then persist env n else (n, Inr ())) = (n2, r)"
  shows "logGood n (n2, r) \<and> (\<forall>u. r = Inr u \<longrightarrow> (\<exists>L. nEntries n2 = L \<and> nSnapshot n2 = nSnapshot n \<and>
    take (length (mgEntries m)) (drop (mgPrevLogIndex m - snIndex (nSnapshot n)) L) = mgEntries m \<and>
    take (mgPrevLogIndex m - snIndex (nSnapshot n)) L = take (mgPrevLogIndex m - snIndex (nSnapshot n)) (nEntries n) \<and>
    mgPrevLogIndex m + length (mgEntries m) \<le> lastIndex n2))"
proof (cases "mergeEntries n (mgEntries m)")
  case (Pair n1 x)
  show ?thesis
  proof (cases x)
    case (Inl e)
    then show ?thesis using mergeEntries_frame [OF Pair] inv r Pair by (auto simp: logOk_refl)
  next
    case (Inr b)
    from merge_message [OF inv valid at Pair [unfolded Inr]] obtain L where
      L: "n1 = setEntries L n" "\<not> b \<Longrightarrow> L = nEntries n"
      "take (length (mgEntries m)) (drop (mgPrevLogIndex m - snIndex (nSnapshot n)) L) = mgEntries m"
      "take (mgPrevLogIndex m - snIndex (nSnapshot n)) L = take (mgPrevLogIndex m - snIndex (nSnapshot n)) (nEntries n)"
      "mgPrevLogIndex m + length (mgEntries m) \<le> snIndex (nSnapshot n) + length L"
      "contiguous (nPersistent n1) \<Longrightarrow> logKept n n1 \<and> nCommitIndex n1 \<le> lastIndex n1" by metis
    have r': "(if b then persist env n1 else (n1, Inr ())) = (n2, r)" using r Pair Inr by simp
    have "setEntries (nEntries n) n = n" by (simp add: setEntries_def)
    then have good: "logGood n (n2, r)"
      using r' L logGood_setEntries [OF inv, of L] inv by (cases b) (auto simp: logOk_refl)
    have "nEntries n2 = L \<and> nSnapshot n2 = nSnapshot n \<and> lastIndex n2 = snIndex (nSnapshot n) + length L" if "r = Inr u" for u
    proof -
      have "nEntries n2 = L" "nSnapshot n2 = nSnapshot n" "logInv n2"
        using r' that L(1) good persist_frame [of n1 n2 u] by (auto simp: logOk_def split: if_splits)
      then show ?thesis by (simp add: lastIndex_contiguous logInv_contiguous)
    qed
    then show ?thesis using good L by auto
  qed
qed

lemma logGood_acceptAppend:
  assumes inv: "logInv n" and valid: "validateAppend m" and at: "termAt n (mgPrevLogIndex m) = Inr t"
  shows "logGood n (acceptAppend env m n)"
proof -
  obtain n2 r where r: "andThen (mergeEntries n (mgEntries m)) (\<lambda>n changed. if changed then persist env n else (n, Inr ())) = (n2, r)"
    by fastforce
  have covered: "add64 (mgPrevLogIndex m) (length (mgEntries m)) = mgPrevLogIndex m + length (mgEntries m)"
    using valid by (simp add: validateAppend_def add64_exact)
  note merged = acceptAppend_merged [OF inv valid at r]
  have "logGood n2 (andThen (followerCommit env m (mgPrevLogIndex m + length (mgEntries m)) n2) (\<lambda>n _. (n, Inr (f n))))"
    if "r = Inr u" for u and f :: "('st, 'sm) Node \<Rightarrow> Message list"
  proof (rule logGood_seq)
    have inv2: "logInv n2" and "mgPrevLogIndex m + length (mgEntries m) \<le> lastIndex n2"
      using merged that by (auto simp: logOk_def)
    then show "logGood n2 (followerCommit env m (mgPrevLogIndex m + length (mgEntries m)) n2)"
      by (simp add: followerCommit_def logOk_refl logGood_applyCommitted)
  qed (simp add: logOk_refl)
  then have "logGood n (andThen (n2, r) (\<lambda>n _. andThen (followerCommit env m (mgPrevLogIndex m + length (mgEntries m)) n)
      (\<lambda>n _. (n, Inr [appendResponse n (mgFrom m) True (mgPrevLogIndex m + length (mgEntries m)) 0]))))"
    using merged by (cases r) (auto intro: logGood_trans)
  then show ?thesis
    unfolding acceptAppend_def Let_def covered andThen_assoc [symmetric] r .
qed

lemma logGood_handleAppendEntries:
  assumes "logInv n"
  shows "logGood n (handleAppendEntries env m n)"
proof -
  define n1 where "n1 = (if nRole n \<noteq> Follower \<or> nLeaderID n \<noteq> mgFrom m then becomeFollower env (mgFrom m) n
      else resetElectionTimer env n)"
  have ok: "logOk n n1" using assms by (simp add: n1_def logOk_sameLog)
  have "logGood n (acceptAppend env m n1)" if "validateAppend m" "termAt n1 (mgPrevLogIndex m) = Inr t" for t
    by (rule logGood_trans [OF ok logGood_acceptAppend [OF logOk_inv [OF ok] that]])
  then show ?thesis
    unfolding handleAppendEntries_def Let_def n1_def [symmetric] using ok assms
    by (auto simp: logOk_refl split: sum.splits)
qed

lemma logGood_handleAppendResponse:
  assumes "logInv n"
  shows "logGood n (handleAppendResponse env m n)"
proof -
  have "logGood n (andThen (recordMatch m n) (\<lambda>n _. let before = nCommitIndex n in
      andThen (advanceCommit env n) (\<lambda>n _. if nCommitIndex n \<noteq> before then replicationMessages n else (n, Inr []))))"
    unfolding Let_def
    by (rule logGood_seq [OF logGood_recordMatch [OF assms]], rule logGood_seq [OF logGood_advanceCommit])
      (simp_all add: logOk_refl logGood_send)
  moreover have "logGood n (andThen (setNext p v n) (\<lambda>n _. sendReplication n q))" for p v q
    by (rule logGood_seq [OF logGood_setNext [OF assms]]) (simp add: logGood_send)
  ultimately show ?thesis
    using assms by (simp add: handleAppendResponse_def logOk_refl)
qed

text \<open>
  A snapshot that replaces the log up to an index at or above the commit index keeps nothing of the
  committed log below it, so only the order of the indexes has to be shown.
\<close>

lemma logOk_boundary:
  assumes "validatePersistent (nPersistent n') = Inr ()" and "nFatal n' = None"
    and "nLastApplied n' = snIndex (nSnapshot n')" and "nCommitIndex n' = snIndex (nSnapshot n')"
    and "logInv n" and "nCommitIndex n \<le> snIndex (nSnapshot n')"
  shows "logOk n n'"
  using assms lastIndex_contiguous [OF validatePersistent_contiguous [OF assms(1)]]
  by (auto simp: logOk_def logInv_def logKept_def)

lemma adoptSnapshot_good:
  assumes inv: "logInv n" and valid: "validatePersistent c = Inr ()" and "psSnapshot c = mgSnapshot m"
    and "nCommitIndex n \<le> snIndex (mgSnapshot m)"
    and n1: "nPersistent n1 = c" "nCommitIndex n1 = nCommitIndex n" "nFatal n1 = None"
  shows "logGood n (adoptSnapshot env m c n1)"
proof -
  let ?r = "if cfVersion (psConfig c) > cfVersion (nConfiguration n1) then installConfiguration env (psConfig c) n1 else (n1, Inr ())"
  have same: "sameLog n1 (fst ?r)" by (simp add: installConfiguration_sameLog)
  have "logOk n (s\<lparr>nCommitIndex := max (nCommitIndex s) (snIndex (mgSnapshot m)), nLastApplied := snIndex (mgSnapshot m)\<rparr>)"
    if "sameLog n1 s" for s
    by (rule logOk_boundary) (use assms that in \<open>simp_all add: sameLog_def\<close>)
  moreover have "isPanic e" if "?r = (s, Inl e)" for s e
    using that by (auto simp: installConfiguration_def Let_def panic_def isPanic_def split: if_splits option.splits prod.splits)
  ultimately show ?thesis
    using same unfolding adoptSnapshot_def Let_def by (cases ?r; cases "snd ?r") auto
qed

lemma logGood_installSnapshot:
  assumes inv: "logInv n" and "nCommitIndex n \<le> snIndex (mgSnapshot m)"
  shows "logGood n (installSnapshot env m n)"
proof (cases "retainedSuffix n (mgSnapshot m)")
  case (Inl e)
  then show ?thesis using inv by (simp add: installSnapshot_def logOk_refl)
next
  case (Inr kept)
  let ?c = "snapshotCandidate (mgSnapshot m) kept (nPersistent n)"
  obtain n' r where save: "saveState env ?c n = (n', r)" by fastforce
  show ?thesis
  proof (cases r)
    case (Inl e)
    then show ?thesis using save saveState_fatal [of ?c n n' e] by (simp add: installSnapshot_def Inr)
  next
    case r: (Inr u)
    have ok: "validatePersistent ?c = Inr ()" "nCommitIndex n' = nCommitIndex n" "nFatal n' = None"
      using saveState_valid [of ?c n n' u] save r inv by (auto simp: logInv_def)
    have "logGood n (adoptSnapshot env m ?c (n'\<lparr>nStateMachine := sm, nPersistent := ?c\<rparr>))" for sm
      by (rule adoptSnapshot_good [OF inv ok(1)]) (use assms ok in \<open>simp_all add: snapshotCandidate_def\<close>)
    then show ?thesis by (simp add: installSnapshot_def Inr save r Let_def split: prod.split sum.split)
  qed
qed

lemma logGood_handleInstallSnapshot:
  assumes "logInv n"
  shows "logGood n (handleInstallSnapshot env m n)"
proof -
  have ok: "logOk n (becomeFollower env (mgFrom m) n)" using assms by (simp add: logOk_sameLog)
  have "logGood n (installSnapshot env m (becomeFollower env (mgFrom m) n))" if "nCommitIndex n \<le> snIndex (mgSnapshot m)"
    by (rule logGood_trans [OF ok logGood_installSnapshot [OF logOk_inv [OF ok]]]) (use that in simp)
  then show ?thesis
    using assms ok by (simp add: handleInstallSnapshot_def Let_def logOk_refl)
qed

lemma logGood_handleSnapshotResponse:
  assumes "logInv n"
  shows "logGood n (handleSnapshotResponse env m n)"
proof -
  have "logGood n (andThen (setMatch p v n) (\<lambda>n _. andThen (setNext p w n) (\<lambda>n _. sendReplication n p)))" for p v w
    by (rule logGood_seq [OF logGood_setMatch [OF assms]], rule logGood_seq [OF logGood_setNext]) (simp_all add: logGood_send)
  then show ?thesis
    using assms by (simp add: handleSnapshotResponse_def Let_def logOk_refl)
qed

lemma logGood_compactLog:
  assumes inv: "logInv n" and sn: "snIndex sn = nLastApplied n"
  shows "logGood n (compactLog env sn n)"
proof (cases "entriesFrom n (add64 (snIndex sn) 1)")
  case (Inl e)
  then show ?thesis using inv by (simp add: compactLog_def logOk_refl)
next
  case (Inr es)
  let ?c = "(nPersistent n)\<lparr>psSnapshot := sn, psEntries := es\<rparr>"
  obtain n' r where save: "saveState env ?c n = (n', r)" by fastforce
  show ?thesis
  proof (cases r)
    case (Inl e)
    then show ?thesis using save saveState_fatal [of ?c n n' e] by (simp add: compactLog_def Inr [simplified])
  next
    case r: (Inr u)
    have "validatePersistent ?c = Inr ()" "nCommitIndex n' = nCommitIndex n" "nFatal n' = None" "nLastApplied n' = nLastApplied n"
      using saveState_valid [of ?c n n' u] save r inv by (auto simp: logInv_def)
    then have "logOk n (n'\<lparr>nPersistent := ?c\<rparr>)"
      by (intro logOk_boundary) (use inv sn in \<open>simp_all add: logInv_def\<close>)
    then show ?thesis by (simp add: compactLog_def Inr [simplified] save r)
  qed
qed

lemma logGood_createSnapshot:
  assumes "logInv n"
  shows "logGood n (createSnapshot env n)"
proof -
  have "logGood n (machineSnapshot env n)"
    unfolding machineSnapshot_def using assms
    by (auto simp: sameLog_def intro!: logOk_sameLog split: prod.split sum.split)
  then have "logGood n (andThen (machineSnapshot env n) (\<lambda>n data. compactLog env
      \<lparr>snIndex = nLastApplied n, snTerm = t, snData = data, snConfig = nConfiguration n\<rparr> n))" for t
    by (rule logGood_seq) (simp add: logGood_compactLog)
  then show ?thesis
    unfolding createSnapshot_def using assms
    by (intro logGood_guardUsable) (simp_all add: logOk_refl split: sum.split)
qed

lemma logGood_tick:
  assumes "logInv n"
  shows "logGood n (tick env n)"
proof -
  have vol: "logOk n (n\<lparr>nElectionElapsed := c\<rparr>)" "logOk n ((tickTransfer n)\<lparr>nHeartbeatElapsed := c\<rparr>)" for c
    using assms sameLog_timers(3) [of n n] by (auto simp: sameLog_def intro!: logOk_sameLog)
  have "logGood n (replicationMessages ((tickTransfer n)\<lparr>nHeartbeatElapsed := c\<rparr>))" for c
    by (rule logGood_trans [OF vol(2) logGood_send(2) [OF logOk_inv [OF vol(2)]]])
  moreover have "logGood n (startElection env (n\<lparr>nElectionElapsed := c\<rparr>))" for c
    by (rule logGood_trans [OF vol(1) logGood_startElection [OF logOk_inv [OF vol(1)]]])
  ultimately show ?thesis
    using assms vol by (auto simp: tick_def Let_def intro!: logGood_guardUsable)
qed

lemma logGood_dispatch: "logInv n \<Longrightarrow> logGood n (dispatch env m n)"
  by (simp add: dispatch_def logGood_handleRequestVote logGood_handleVoteResponse logGood_handleAppendEntries
      logGood_handleAppendResponse logGood_handleInstallSnapshot logGood_handleSnapshotResponse
      handleTimeoutNow_def logGood_startElection logOk_refl)

lemma logGood_stepMessage:
  assumes "logInv n"
  shows "logGood n (stepMessage env m n)"
proof -
  have "logGood n (andThen (if mgTerm m > nTerm n then advanceTerm env (mgTerm m) n else (n, Inr ()))
      (\<lambda>n _. dispatch env m n))"
    by (rule logGood_seq) (use assms in \<open>simp_all add: logGood_advanceTerm logOk_refl logGood_dispatch\<close>)
  then show ?thesis
    using assms by (auto simp: stepMessage_def logOk_refl intro!: logGood_guardUsable)
qed

lemma logGood_transferLeadership: "logInv n \<Longrightarrow> logGood n (transferLeadership t n)"
  unfolding transferLeadership_def
  by (rule logGood_guardUsable) (auto simp: logOk_refl sameLog_def intro!: logOk_sameLog)

lemma logGood_runCall:
  assumes inv: "logInv n"
  shows "logGood n (runCall env c n)"
proof (cases c)
  case CallCreateSnapshot
  have "logGood n (andThen (createSnapshot env n) (\<lambda>n _. (n, Inr ([] :: Message list))))"
    by (intro logGood_seq [OF logGood_createSnapshot [OF inv]]) (simp add: logOk_refl)
  then show ?thesis by (simp add: CallCreateSnapshot)
next
  case CallStop
  have "logGood n (stop n, Inr ([] :: Message list))"
    by (rule logGood_sameLog [OF inv]) (simp add: stop_def sameLog_def)
  then show ?thesis by (simp add: CallStop)
qed (use inv in \<open>simp_all add: logGood_tick logGood_stepMessage logGood_transferLeadership
    logGood_dropIndex [OF logGood_proposals(1)] logGood_dropIndex [OF logGood_proposals(2)]
    logGood_dropIndex [OF logGood_proposals(3)]\<close>)

end

text \<open>A node that was just constructed is in order.\<close>

lemma validatePersistent_config:
  assumes "validatePersistent p = Inr ()" and "wfConfiguration c"
  shows "validatePersistent (p\<lparr>psConfig := c\<rparr>) = Inr ()"
  using assms by (auto simp: validatePersistent_def Let_def validateConfiguration_iff elim!: bindR_okE split: if_splits)

lemma newNode_logInv:
  assumes "newNode env cfg st sm = Inr n"
  shows "logInv n"
proof -
  obtain state sm' where s: "validatePersistent state = Inr ()" "wfConfiguration (initialConfiguration cfg state)"
    "n = resetElectionTimer env (initialNode cfg (initialConfiguration cfg state) state st sm')"
    using newNode_okE [OF assms] by metis
  have p: "nPersistent n = state\<lparr>psConfig := initialConfiguration cfg state\<rparr>" using s by (simp add: initialNode_def)
  have v: "validatePersistent (nPersistent n) = Inr ()" using validatePersistent_config [OF s(1,2)] p by simp
  have "lastIndex n = snIndex (nSnapshot n) + length (nEntries n)"
    by (rule lastIndex_contiguous [OF validatePersistent_contiguous [OF v]])
  then show ?thesis using v p s(3) by (simp add: logInv_def initialNode_def)
qed

end
