(* ===== verification/Raft_Properties.thy ===== *)
theory Raft_Properties
  imports Raft_Log
begin

text \<open>
  What one node promises over its life, from its construction through any sequence of calls that
  did not end it: the order of its log, the stability of what is committed, the durability of its
  hard state, the meaning of the responses it sends, the commit rule, the commands its state
  machine receives, and that a failed node stays failed.
\<close>

section \<open>The life of a node\<close>

inductive alive :: "('st, 'sm) Env \<Rightarrow> ('st, 'sm) Node \<Rightarrow> ('st, 'sm) Node \<Rightarrow> bool" for env n where
  start: "alive env n n"
| call: "alive env n s \<Longrightarrow> callTyped c \<Longrightarrow> runCall env c s = (t, r) \<Longrightarrow> nFatal t = None \<Longrightarrow> \<not> panicked r \<Longrightarrow>
    alive env n t"

lemma alive_trans: "alive env b c \<Longrightarrow> alive env a b \<Longrightarrow> alive env a c"
  by (induction rule: alive.induct) (auto intro: alive.call)

context raft_env
begin

lemma alive_logOk: "alive env n n' \<Longrightarrow> logInv n \<Longrightarrow> logOk n n'"
proof (induction rule: alive.induct)
  case start
  then show ?case by (rule logOk_refl)
next
  case (call s c t r)
  have ok: "logOk n s" using call by simp
  have "logGood s (t, r)" using logGood_runCall [OF logOk_inv [OF ok], of c] call by simp
  then have "logOk s t" using call by (cases r) (auto simp: panicked_def)
  then show ?case by (rule logOk_trans [OF ok])
qed

lemma alive_goodOk: "alive env n n' \<Longrightarrow> ready env n \<Longrightarrow> goodOk env n n'"
proof (induction rule: alive.induct)
  case start
  then show ?case by (rule goodOk_refl)
next
  case (call s c t r)
  have ok: "goodOk env n s" using call by simp
  have "good env s (t, r)" using good_runCall [OF goodOk_ready [OF ok], of c] call by simp
  then have "goodOk env s t" using call by (cases r) (auto simp: goodErr_def)
  then show ?case by (rule goodOk_trans [OF ok])
qed

end

text \<open>
  C3. The log of a node is in order at every moment of its life: the persistent state passes the
  validator (so indexes are contiguous from the snapshot boundary, terms do not decrease and do not
  exceed the current term), and the boundary, the applied index, the commit index and the last
  index are in this order, with everything committed applied.
\<close>

theorem log_in_order:
  assumes "newNode (memoryEnv app snap rest rnd) cfg st sm = Inr n0" and "alive (memoryEnv app snap rest rnd) n0 n"
  shows "validatePersistent (nPersistent n) = Inr () \<and> snIndex (nSnapshot n) \<le> nLastApplied n \<and>
    nLastApplied n = nCommitIndex n \<and> nCommitIndex n \<le> lastIndex n"
  using memenv.alive_logOk [OF assms(2) newNode_logInv [OF assms(1)]] by (simp add: logOk_def logInv_def)

text \<open>
  C2. What is committed stays: between any two moments of a node's life the commit index does not
  move back, and an entry that was committed at the first is the same entry at the second unless a
  snapshot has absorbed it.
\<close>

theorem committed_stable:
  assumes "newNode (memoryEnv app snap rest rnd) cfg st sm = Inr n0" and "alive (memoryEnv app snap rest rnd) n0 n"
    and "alive (memoryEnv app snap rest rnd) n n'"
  shows "nCommitIndex n \<le> nCommitIndex n' \<and>
    (\<forall>i. i \<le> nCommitIndex n \<longrightarrow> i \<le> snIndex (nSnapshot n') \<or> entryAt n' i = entryAt n i)"
proof -
  have "logInv n" using memenv.alive_logOk [OF assms(2) newNode_logInv [OF assms(1)]] by (simp add: logOk_def)
  then have "logKept n n'" using memenv.alive_logOk [OF assms(3)] by (simp add: logOk_def)
  then show ?thesis by (auto simp: logKept_def not_le)
qed

lemma newNode_ready:
  assumes "newNode (memoryEnv app snap rest rnd) cfg st sm = Inr n0" and "hTerm (psHardState (msState st)) \<le> maxU64"
  shows "ready (memoryEnv app snap rest rnd) n0"
proof -
  obtain state sm' where "memLoad st = Inr state"
    "n0 = resetElectionTimer (memoryEnv app snap rest rnd) (initialNode cfg (initialConfiguration cfg state) state st sm')"
    by (rule newNode_okE [OF assms(1)]) (auto simp: memoryEnv_def)
  then show ?thesis
    using assms(2) by (simp add: ready_def durable_def initialNode_def nTerm_def memLoad_def memoryEnv_def)
qed

text \<open>
  C4. The hard state is durable and only moves forward: at every moment between calls the store
  holds the node's term, vote, snapshot and log, and from one moment to a later one the term does
  not decrease and a vote cast in a term is never changed within it.
\<close>

theorem hard_state_durable:
  assumes "newNode (memoryEnv app snap rest rnd) cfg st sm = Inr n0" and "hTerm (psHardState (msState st)) \<le> maxU64"
    and "alive (memoryEnv app snap rest rnd) n0 n" and "alive (memoryEnv app snap rest rnd) n n'"
  shows "sameDurable (msState (nStore n')) (nPersistent n') \<and> hardLe (nHard n) (nHard n')"
proof -
  have "ready (memoryEnv app snap rest rnd) n"
    using memenv.alive_goodOk [OF assms(3) newNode_ready [OF assms(1,2)]] by (simp add: goodOk_def)
  from memenv.alive_goodOk [OF assms(4) this] show ?thesis
    by (simp add: goodOk_def ready_def durable_def memoryEnv_def memLoad_def)
qed

section \<open>What a response means\<close>

text \<open>
  C6. A vote is durable before it is announced: when a node answers a vote request with a granted
  vote, the candidate's log is at least as up to date as the node's, and the store already holds
  the vote for this candidate in this term.
\<close>

theorem vote_durable_before_reply:
  assumes "ready (memoryEnv app snap rest rnd) n"
    and "handleRequestVote (memoryEnv app snap rest rnd) m n = (n', Inr rs)" and "r \<in> set rs" and "mgVoteGranted r"
  shows "psHardState (msState (nStore n')) = \<lparr>hTerm = mgTerm m, hVotedFor = mgFrom m\<rparr> \<and>
    logUpToDate n (mgCandidateLastIndex m) (mgCandidateLastTerm m) \<and> mgTo r = mgFrom m \<and> mgTerm r = mgTerm m"
proof -
  have g: "grantsVote n m"
  proof (rule ccontr)
    assume "\<not> grantsVote n m"
    then show False
      using assms(2-4) by (auto simp: handleRequestVote_def voteResponse_def newMessage_def split: if_splits)
  qed
  have run: "andThen (if hVotedFor (nHard n) \<noteq> mgFrom m then persist (memoryEnv app snap rest rnd) (setHard (nTerm n) (mgFrom m) n) else (n, Inr ()))
     (\<lambda>n _. let n = resetElectionTimer (memoryEnv app snap rest rnd) n in (n, Inr [voteResponse n (mgFrom m) True])) = (n', Inr rs)"
    using assms(2) g by (auto simp: handleRequestVote_def split: if_splits)
  have hard: "nHard n' = \<lparr>hTerm = nTerm n, hVotedFor = mgFrom m\<rparr>"
    using run
    by (auto simp: persist_def setHard_def nTerm_def Let_def dest!: memenv.saveState_valid elim!: andThen_okE split: if_splits)
  have "good (memoryEnv app snap rest rnd) n (n', Inr rs)"
    using memenv.good_handleRequestVote [OF assms(1), of m] assms(2) by simp
  then have "psHardState (msState (nStore n')) = nHard n'"
    by (simp add: goodOk_def ready_def durable_def memoryEnv_def memLoad_def sameDurable_def)
  moreover have "mgTo r = mgFrom m" "mgTerm r = nTerm n'"
    using run assms(3) by (auto simp: voteResponse_def newMessage_def Let_def nTerm_def elim!: andThen_okE split: if_splits)
  ultimately show ?thesis using hard g by (simp add: grantsVote_def nTerm_def)
qed

context raft_env
begin

lemma followerCommit_sameEntries:
  assumes "followerCommit env m k n = (n', Inr u)"
  shows "nSnapshot n' = nSnapshot n \<and> nEntries n' = nEntries n"
proof (cases "nCommitIndex n < mgLeaderCommit m")
  case True
  then show ?thesis
    using assms sameEntries_applyCommitted [OF sameEntries_refl, of "n\<lparr>nCommitIndex := min (mgLeaderCommit m) k\<rparr>" env]
    by (simp add: followerCommit_def sameEntries_def)
qed (use assms in \<open>simp add: followerCommit_def\<close>)

lemma acceptAppend_entries:
  assumes inv: "logInv n" and valid: "validateAppend m" and at: "termAt n (mgPrevLogIndex m) = Inr t"
    and run: "acceptAppend env m n = (n', Inr rs)"
  shows "(\<forall>e \<in> set (mgEntries m). entryAt n' (eIndex e) = Inr e) \<and> termAt n' (mgPrevLogIndex m) = Inr t \<and>
    rs = [appendResponse n' (mgFrom m) True (mgPrevLogIndex m + length (mgEntries m)) 0]"
proof -
  let ?off = "mgPrevLogIndex m - snIndex (nSnapshot n)" and ?p = "mgPrevLogIndex m"
  have covered: "add64 ?p (length (mgEntries m)) = ?p + length (mgEntries m)"
    using valid by (simp add: validateAppend_def add64_exact)
  obtain n2 u where merge: "andThen (mergeEntries n (mgEntries m)) (\<lambda>n changed. if changed then persist env n else (n, Inr ())) = (n2, Inr u)"
    and com: "\<exists>v. followerCommit env m (?p + length (mgEntries m)) n2 = (n', Inr v)"
    and rs: "rs = [appendResponse n' (mgFrom m) True (?p + length (mgEntries m)) 0]"
    using run [unfolded acceptAppend_def Let_def covered andThen_assoc [symmetric]] by (auto elim!: andThen_okE)
  have "nSnapshot n' = nSnapshot n2" "nEntries n' = nEntries n2" using com followerCommit_sameEntries by blast+
  with acceptAppend_merged [OF inv valid at merge] have
    L: "nSnapshot n' = nSnapshot n" "take (length (mgEntries m)) (drop ?off (nEntries n')) = mgEntries m"
      "take ?off (nEntries n') = take ?off (nEntries n)" "?p + length (mgEntries m) \<le> lastIndex n'"
    using lastIndex_cong [of n' n2] by auto
  have "logOk n n'" using logGood_acceptAppend [OF inv valid at] run by simp
  then have c': "contiguous (nPersistent n')" by (simp add: logOk_def logInv_contiguous)
  note c = logInv_contiguous [OF inv]
  have p: "snIndex (nSnapshot n) \<le> ?p" using termAt_bounds [OF c at] by simp
  have "entryAt n' (eIndex (mgEntries m ! k)) = Inr (mgEntries m ! k)" if "k < length (mgEntries m)" for k
  proof -
    have "eIndex (mgEntries m ! k) = ?p + k + 1"
      using validateAppendEntries_nth [of ?p "mgTerm m" 0 "mgPrevLogTerm m" "mgEntries m" k] valid that
      by (simp add: validateAppend_def)
    moreover have "nEntries n' ! (?off + k) = mgEntries m ! k"
      using arg_cong [OF L(2), of "\<lambda>xs. xs ! k"] that L(4) p by (simp add: lastIndex_contiguous [OF c'] L(1))
    ultimately show ?thesis
      using L(1,4) p that by (simp add: entryAt_contiguous [OF c'] lastIndex_contiguous [OF c'])
  qed
  moreover have "termAt n' ?p = Inr t"
  proof (cases "?p = snIndex (nSnapshot n)")
    case True
    then show ?thesis using at L(1) by (simp add: termAt_contiguous [OF c] termAt_contiguous [OF c'])
  next
    case False
    then have "nEntries n' ! (?off - 1) = nEntries n ! (?off - 1)"
      using p arg_cong [OF L(3), of "\<lambda>xs. xs ! (?off - 1)"] by simp
    then show ?thesis
      using at False L(1,4) p
      by (auto simp: termAt_contiguous [OF c] termAt_contiguous [OF c'] lastIndex_contiguous [OF c'] split: if_splits)
  qed
  ultimately show ?thesis using rs by (metis in_set_conv_nth)
qed

lemma handleAppendEntries_success:
  assumes "logInv n" and "handleAppendEntries env m n = (n', Inr rs)" and "r \<in> set rs" and "mgSuccess r"
  shows "mgMatchIndex r = mgPrevLogIndex m + length (mgEntries m) \<and>
    termAt n' (mgPrevLogIndex m) = Inr (mgPrevLogTerm m) \<and> (\<forall>e \<in> set (mgEntries m). entryAt n' (eIndex e) = Inr e)"
proof -
  define n1 where "n1 = (if nRole n \<noteq> Follower \<or> nLeaderID n \<noteq> mgFrom m then becomeFollower env (mgFrom m) n
      else resetElectionTimer env n)"
  have inv1: "logInv n1" using assms(1) logOk_inv [OF logOk_sameLog, of n n1] by (simp add: n1_def)
  have "validateAppend m \<and> termAt n1 (mgPrevLogIndex m) = Inr (mgPrevLogTerm m) \<and> acceptAppend env m n1 = (n', Inr rs)"
    using assms(2-4) unfolding handleAppendEntries_def Let_def n1_def [symmetric]
    by (auto simp: appendResponse_def newMessage_def panic_def split: if_splits sum.splits)
  then show ?thesis
    using acceptAppend_entries [OF inv1, of m "mgPrevLogTerm m" n' rs] assms(3)
    by (auto simp: appendResponse_def newMessage_def)
qed

end

text \<open>
  C5. A successful append response tells the truth: when a node answers an AppendEntries message
  with success, its log has the previous entry's term at the attachment point and holds every entry
  of the message at its index, the match index it reports is the last index the message covers, and
  the store already holds this log.
\<close>

theorem append_success_durable:
  assumes "ready (memoryEnv app snap rest rnd) n" and "logInv n"
    and "handleAppendEntries (memoryEnv app snap rest rnd) m n = (n', Inr rs)" and "r \<in> set rs" and "mgSuccess r"
  shows "mgMatchIndex r = mgPrevLogIndex m + length (mgEntries m) \<and>
    termAt n' (mgPrevLogIndex m) = Inr (mgPrevLogTerm m) \<and>
    (\<forall>e \<in> set (mgEntries m). entryAt n' (eIndex e) = Inr e) \<and> psEntries (msState (nStore n')) = nEntries n'"
proof -
  have "good (memoryEnv app snap rest rnd) n (n', Inr rs)"
    using memenv.good_handleAppendEntries [OF assms(1), of m] assms(3) by simp
  then have "psEntries (msState (nStore n')) = nEntries n'"
    by (simp add: goodOk_def ready_def durable_def memoryEnv_def memLoad_def sameDurable_def)
  then show ?thesis using memenv.handleAppendEntries_success [OF assms(2-5)] by simp
qed

section \<open>Committing and applying\<close>

lemma advanceCommitLoop_rule:
  assumes "advanceCommitLoop env n i = (n', Inr u)" and "nCommitIndex n' \<noteq> nCommitIndex n"
  shows "nCommitIndex n < nCommitIndex n' \<and> nCommitIndex n' \<le> i \<and> termAt n (nCommitIndex n') = Inr (nTerm n) \<and>
    quorum (nConfiguration n) (\<lambda>p. nCommitIndex n' \<le> mapIndex (nMatchIndex n) p) \<and>
    (\<forall>j. nCommitIndex n' < j \<longrightarrow> j \<le> i \<longrightarrow> termAt n j = Inr (nTerm n) \<longrightarrow>
      \<not> quorum (nConfiguration n) (\<lambda>p. j \<le> mapIndex (nMatchIndex n) p))"
  using assms(1)
proof (induction i)
  case 0
  then show ?case using assms(2) by simp
next
  case (Suc i)
  show ?case
  proof (cases "nCommitIndex n < Suc i \<and> termAt n (Suc i) = Inr (nTerm n) \<and>
      quorum (nConfiguration n) (\<lambda>p. Suc i \<le> mapIndex (nMatchIndex n) p)")
    case True
    then have "applyCommitted env (n\<lparr>nCommitIndex := Suc i\<rparr>) = (n', Inr u)" using Suc.prems by simp
    then have "nCommitIndex n' = Suc i"
      using sameEntries_applyCommitted [OF sameEntries_refl, of "n\<lparr>nCommitIndex := Suc i\<rparr>" env] by (simp add: sameEntries_def)
    then show ?thesis using True by auto
  next
    case False
    then have "advanceCommitLoop env n i = (n', Inr u)"
      using Suc.prems assms(2) by (auto simp: Let_def split: if_splits sum.splits)
    note ih = Suc.IH [OF this]
    have "\<not> quorum (nConfiguration n) (\<lambda>p. j \<le> mapIndex (nMatchIndex n) p)"
      if "nCommitIndex n' < j" "j \<le> Suc i" "termAt n j = Inr (nTerm n)" for j
    proof (cases "j = Suc i")
      case True
      then show ?thesis using False ih that by simp
    next
      case False
      then show ?thesis using ih that by simp
    qed
    then show ?thesis using ih by simp
  qed
qed

text \<open>
  C7. The commit rule: when a leader moves its commit index, the new index holds an entry of the
  leader's current term that a quorum of the configuration in force has acknowledged, and no later
  index does.
\<close>

theorem commit_rule:
  assumes "advanceCommit env n = (n', Inr u)" and "nCommitIndex n' \<noteq> nCommitIndex n"
  shows "nRole n = Leader \<and> nCommitIndex n < nCommitIndex n' \<and> termAt n (nCommitIndex n') = Inr (nTerm n) \<and>
    quorum (nConfiguration n) (\<lambda>p. nCommitIndex n' \<le> mapIndex (nMatchIndex n) p) \<and>
    (\<forall>j. nCommitIndex n' < j \<longrightarrow> j \<le> lastIndex n \<longrightarrow> termAt n j = Inr (nTerm n) \<longrightarrow>
      \<not> quorum (nConfiguration n) (\<lambda>p. j \<le> mapIndex (nMatchIndex n) p))"
proof -
  have "nRole n = Leader" and run: "advanceCommitLoop env n (lastIndex n) = (n', Inr u)"
    using assms by (simp_all add: advanceCommit_def split: if_splits)
  then show ?thesis using advanceCommitLoop_rule [OF run assms(2)] by simp
qed

text \<open>
  The reference for the state machine: the command entries of a stretch of the log, applied one
  after the other.
\<close>

definition applyCommand :: "('st, 'sm) Env \<Rightarrow> 'sm \<Rightarrow> Entry \<Rightarrow> 'sm" where
  "applyCommand env sm e = (if eType e = EntryCommand then fst (envApply env sm e) else sm)"

definition stretch :: "nat \<Rightarrow> nat \<Rightarrow> ('st, 'sm) Node \<Rightarrow> Entry list" where
  "stretch i j n = drop (i - snIndex (nSnapshot n)) (take (j - snIndex (nSnapshot n)) (nEntries n))"

lemma applyEntry_machine:
  assumes "applyEntry env e n = (n', Inr u)"
  shows "nStateMachine n' = applyCommand env (nStateMachine n) e"
proof -
  have inst: "nStateMachine s = nStateMachine n" if "installConfiguration env c n = (s, r)" for c s r
    using that by (auto simp: installConfiguration_def Let_def panic_def split: if_splits option.splits prod.splits)
  have pers: "nStateMachine t = nStateMachine s" if "persist env s = (t, r)" for s t r
    using that by (auto simp: persist_def dest!: saveState_frame)
  show ?thesis
    using assms
    by (auto simp: applyEntry_def applyCommand_def failNode_def split: if_splits prod.splits sum.splits
        elim!: andThen_okE dest!: inst pers)
qed

lemma applyCommitted_machine:
  "applyCommitted env n = (n', Inr u) \<Longrightarrow> contiguous (nPersistent n) \<Longrightarrow> snIndex (nSnapshot n) \<le> nLastApplied n \<Longrightarrow>
   nCommitIndex n \<le> lastIndex n \<Longrightarrow>
   nLastApplied n' = nCommitIndex n \<and>
   nStateMachine n' = foldl (applyCommand env) (nStateMachine n) (stretch (nLastApplied n) (nCommitIndex n) n)"
proof (induction n rule: applyCommitted_rule [of env])
  case (step n)
  show ?case
  proof (cases "nLastApplied n < nCommitIndex n")
    case False
    then show ?thesis
      using step.prems by (auto simp: applyCommitted.simps [of env n] panic_def stretch_def split: if_splits)
  next
    case True
    let ?s = "snIndex (nSnapshot n)" and ?i = "nLastApplied n"
    obtain n1 where nxt: "applyNext env n = (n1, Inr ())" and rest: "applyCommitted env n1 = (n', Inr u)"
      using True step.prems(1) by (auto simp: applyCommitted.simps [of env n] split: prod.splits sum.splits)
    have e: "entryAt n (Suc ?i) = Inr (nEntries n ! (?i - ?s))" and len: "nCommitIndex n \<le> ?s + length (nEntries n)"
      using True step.prems by (simp_all add: entryAt_contiguous lastIndex_contiguous)
    have same: "sameEntries n n1" using sameEntries_applyNext [OF sameEntries_refl, of n env] nxt by simp
    have sm: "nStateMachine n1 = applyCommand env (nStateMachine n) (nEntries n ! (?i - ?s))"
      using nxt e by (auto simp: applyNext_def Let_def elim!: andThen_okE dest!: applyEntry_machine)
    have "contiguous (nPersistent n1)" "snIndex (nSnapshot n1) \<le> nLastApplied n1" "nCommitIndex n1 \<le> lastIndex n1"
      using step.prems same applyNext_ok [OF nxt] lastIndex_cong [of n1 n] by (simp_all add: sameEntries_def contiguous_def)
    from step.IH [OF True nxt rest this] have
      ih: "nLastApplied n' = nCommitIndex n1 \<and>
        nStateMachine n' = foldl (applyCommand env) (nStateMachine n1) (stretch (nLastApplied n1) (nCommitIndex n1) n1)" .
    have "stretch ?i (nCommitIndex n) n = nEntries n ! (?i - ?s) # stretch (Suc ?i) (nCommitIndex n) n"
      using True len step.prems(3)
      by (simp add: stretch_def Suc_diff_le flip: Cons_nth_drop_Suc)
    then show ?thesis
      using ih sm same applyNext_ok [OF nxt] by (simp add: sameEntries_def stretch_def)
  qed
qed

text \<open>
  C8. The state machine receives exactly the committed commands, in log order: when the apply loop
  returns, the machine is the old one with the commands of every entry from the last applied to
  the commit index applied one after the other, once each.
\<close>

theorem applies_committed_in_order:
  assumes "applyCommitted env n = (n', Inr u)" and "validatePersistent (nPersistent n) = Inr ()"
    and "snIndex (nSnapshot n) \<le> nLastApplied n" and "nCommitIndex n \<le> lastIndex n"
  shows "nLastApplied n' = nCommitIndex n \<and>
    nStateMachine n' = foldl (applyCommand env) (nStateMachine n) (stretch (nLastApplied n) (nCommitIndex n) n)"
  using applyCommitted_machine [OF assms(1) validatePersistent_contiguous [OF assms(2)] assms(3,4)] .

section \<open>Failure\<close>

text \<open>
  C10. Failure is final: if a call leaves the node failed, for instance because a save or an apply
  failed, then the call itself returned an error and sent nothing, and every later call leaves the
  store alone, sends nothing and leaves the node failed.
\<close>

theorem failure_is_final:
  assumes "ready (memoryEnv app snap rest rnd) n" and "callTyped c"
    and "runCall (memoryEnv app snap rest rnd) c n = (n', r)" and "nFatal n' \<noteq> None"
    and "runCall (memoryEnv app snap rest rnd) d n' = (n'', q)"
  shows "(\<exists>e. r = Inl e) \<and> sent q = {} \<and> nStore n'' = nStore n' \<and> nFatal n'' = nFatal n'"
proof -
  have "good (memoryEnv app snap rest rnd) n (n', r)"
    using memenv.good_runCall [OF assms(1,2)] assms(3) by simp
  then have "\<exists>e. r = Inl e" using assms(4) by (cases r) (auto simp: goodOk_def ready_def)
  then show ?thesis using fatal_runCall [OF assms(4,5)] by simp
qed

section \<open>An election starts\<close>

primrec ticks :: "('st, 'sm) Env \<Rightarrow> nat \<Rightarrow> ('st, 'sm) Node \<Rightarrow> ('st, 'sm, Message list) step" where
  "ticks env 0 n = (n, Inr [])"
| "ticks env (Suc k) n = andThen (ticks env k n) (\<lambda>n _. tick env n)"

lemma usable_None: "usable n = None \<longleftrightarrow> nFatal n = None \<and> \<not> nStopped n"
  by (simp add: usable_def split: option.split)

lemma guardUsable_ok: "nFatal n = None \<Longrightarrow> \<not> nStopped n \<Longrightarrow> guardUsable n k = k"
  by (simp add: guardUsable_def usable_def)

lemma ticks_waiting:
  assumes "usable n = None" "nRole n \<noteq> Leader" "isVoter (nConfiguration n) (nId n)" "nElectionTimeout n \<le> maxU64"
  shows "nElectionElapsed n + k < nElectionTimeout n \<Longrightarrow>
    ticks env k n = (n\<lparr>nElectionElapsed := nElectionElapsed n + k\<rparr>, Inr [])"
proof (induction k)
  case (Suc k)
  have "add64 (nElectionElapsed n + k) 1 = nElectionElapsed n + Suc k"
    using Suc.prems assms(4) by (simp add: add64_exact)
  then show ?case using Suc assms by (simp add: tick_def guardUsable_ok Let_def usable_None)
qed simp

lemma validatePersistent_next_term:
  assumes "validatePersistent p = Inr ()" and "hTerm (psHardState p) \<le> t" and "t \<noteq> 0"
  shows "validatePersistent (p\<lparr>psHardState := \<lparr>hTerm = t, hVotedFor = v\<rparr>\<rparr>) = Inr ()"
proof -
  let ?s = "snIndex (psSnapshot p)" and ?h = "hTerm (psHardState p)"
  obtain lt where ok: "validateEntries ?s ?h 0 (snTerm (psSnapshot p)) (psEntries p) = Inr lt"
    and rest: "lt \<le> ?h" "snTerm (psSnapshot p) \<le> ?h" "?s + length (psEntries p) \<le> maxU64"
    using assms(1) by (auto simp: validatePersistent_def Let_def elim!: bindR_okE split: if_splits)
  have "list_all (entryOk t) (psEntries p)"
    using validateEntries_ok [OF ok] rest(3) assms(2) by (auto simp: list_all_iff entryOk_def)
  then have "validateEntries ?s t 0 (snTerm (psSnapshot p)) (psEntries p) = Inr lt"
    using validateEntries_ok [OF ok] validateEntries_complete [of "psEntries p" ?s 0 t "snTerm (psSnapshot p)"] rest(3)
    by simp
  then show ?thesis
    using assms rest by (auto simp: validatePersistent_def Let_def split: if_splits)
qed

text \<open>
  C11. A silent leader is replaced: a voter that hears nothing for its election timeout, and whose
  store works, starts an election at exactly that tick: it moves to the next term, votes for itself
  durably, and asks every other voter for its vote.
\<close>

theorem election_starts_on_time:
  fixes n :: "(MemoryStore, 'sm) Node"
  assumes "usable n = None" and "nRole n = Follower" and voter: "isVoter (nConfiguration n) (nId n)"
    and "nElectionElapsed n < nElectionTimeout n" and "nElectionTimeout n \<le> maxU64" and t: "nTerm n < maxU64"
    and valid: "validatePersistent (nPersistent n) = Inr ()"
    and "msSaveErr (nStore n) = None" and "msSaveHook (nStore n) = None"
    and alone: "\<not> quorum (nConfiguration n) (\<lambda>x. x = nId n)"
  shows "\<exists>n'. ticks (memoryEnv app snap rest rnd) (nElectionTimeout n - nElectionElapsed n) n =
      (n', Inr (map (voteRequest n') (filter (\<lambda>p. p \<noteq> nId n \<and> isVoter (nConfiguration n) p) (members (nConfiguration n))))) \<and>
    nRole n' = Candidate \<and> nTerm n' = nTerm n + 1 \<and>
    psHardState (msState (nStore n')) = \<lparr>hTerm = nTerm n + 1, hVotedFor = nId n\<rparr>"
proof -
  let ?env = "memoryEnv app snap rest rnd"
  define k where "k = nElectionTimeout n - nElectionElapsed n - 1"
  let ?w = "n\<lparr>nElectionElapsed := nElectionElapsed n + k\<rparr>"
  let ?e = "n\<lparr>nElectionElapsed := nElectionTimeout n\<rparr>"
  let ?c = "candidateState ?env (?e\<lparr>nRole := Candidate, nLeaderID := 0\<rparr>)"
  have k: "nElectionTimeout n - nElectionElapsed n = Suc k" "nElectionElapsed n + k < nElectionTimeout n"
    "nElectionElapsed n + Suc k = nElectionTimeout n" using assms(4) by (simp_all add: k_def)
  have wait: "ticks ?env k n = (?w, Inr [])"
    by (rule ticks_waiting) (use assms k in simp_all)
  have "add64 (nElectionElapsed n + k) 1 = nElectionTimeout n"
    using k assms(5) by (simp add: add64_exact)
  then have "tick ?env ?w = startElection ?env ?e"
    using assms(1-3) by (simp add: tick_def guardUsable_ok Let_def usable_None)
  moreover have one: "add64 (nTerm n) 1 = nTerm n + 1" using t by (simp add: add64_exact)
  have "nPersistent ?c = (nPersistent n)\<lparr>psHardState := \<lparr>hTerm = nTerm n + 1, hVotedFor = nId n\<rparr>\<rparr>"
    using one by (simp add: nTerm_def)
  then have "persist ?env ?c = (?c\<lparr>nStore := (nStore n)\<lparr>msState := nPersistent ?c\<rparr>\<rparr>, Inr ())"
    using validatePersistent_next_term [OF valid, of "nTerm n + 1" "nId n"] assms(8,9)
    by (simp add: persist_def saveState_def memoryEnv_def memSave_def nTerm_def)
  ultimately show ?thesis
    using wait voter alone t one unfolding k(1)
    by (simp add: startElection_def nTerm_def)
qed

section \<open>A run\<close>

text \<open>
  Node 1 of the three-voter example group times out, is elected with the vote of node 2, commits
  its first no-op with node 2's acknowledgement and accepts a proposal.
\<close>

definition exAck :: Message where
  "exAck = (newMessage AppendEntriesResponse 2 1 1)\<lparr>mgSuccess := True, mgMatchIndex := 1\<rparr>"

definition exStep :: "Call \<Rightarrow> (MemoryStore, nat) Node \<Rightarrow> (MemoryStore, nat) Node" where
  "exStep c n = fst (runCall exEnv c n)"

definition exCandidate :: "(MemoryStore, nat) Node" where
  "exCandidate = exStep CallTick (exStep CallTick (exNode 1))"
definition exLeader :: "(MemoryStore, nat) Node" where "exLeader = exStep (CallStep exVote) exCandidate"
definition exCommitted :: "(MemoryStore, nat) Node" where "exCommitted = exStep (CallStep exAck) exLeader"
definition exProposed :: "(MemoryStore, nat) Node" where "exProposed = exStep (CallPropose [7]) exCommitted"

lemmas life_eval = raft_eval exRequest_def exVote_def exAck_def exStep_def exCandidate_def
  handleAppendResponse_def recordMatch_def propose_def dropIndex_def callTyped.simps
  handleAppendEntries_def acceptAppend_def validateAppend_def followerCommit_def appendResponse_def

lemma alive_exStep:
  assumes "alive exEnv n s" and "callTyped c" and "nFatal (exStep c s) = None" and "\<not> panicked (snd (runCall exEnv c s))"
  shows "alive exEnv n (exStep c s)"
  using assms alive.call [of exEnv n s c "fst (runCall exEnv c s)" "snd (runCall exEnv c s)"] by (simp add: exStep_def)

definition exNoOp :: Entry where "exNoOp = \<lparr>eIndex = 1, eTerm = 1, eType = EntryNoOp, eCommand = []\<rparr>"

lemma exLeader_eq: "nEntries exLeader = [exNoOp] \<and> nCommitIndex exLeader = 0 \<and> nRole exLeader = Leader"
  by (simp add: life_eval exLeader_def exNoOp_def)

lemma exCommitted_eq: "nEntries exCommitted = [exNoOp] \<and> nCommitIndex exCommitted = 1"
  by (simp add: life_eval exLeader_def exCommitted_def exNoOp_def)

lemma exCandidate_alive: "alive exEnv (exNode 1) exCandidate"
  unfolding exCandidate_def by (intro alive_exStep alive.start) (simp_all add: life_eval)

lemma exLeader_alive: "alive exEnv (exNode 1) exLeader"
  unfolding exLeader_def by (rule alive_exStep [OF exCandidate_alive]) (simp_all add: life_eval)

lemma exCommitted_alive: "alive exEnv (exNode 1) exCommitted"
  unfolding exCommitted_def by (rule alive_exStep [OF exLeader_alive]) (simp_all add: life_eval exLeader_def)

lemma exProposed_alive: "alive exEnv exCommitted exProposed"
  unfolding exProposed_def by (rule alive_exStep [OF alive.start]) (simp_all add: life_eval exLeader_def exCommitted_def)

lemmas exNode_born = exNode_new [of 1, simplified]

theorem log_in_order_witness: "nCommitIndex exCommitted = 1 \<and> nCommitIndex exCommitted \<le> lastIndex exCommitted"
  using log_in_order [OF exNode_born [unfolded exEnv_def] exCommitted_alive [unfolded exEnv_def]] exCommitted_eq by simp

theorem committed_stable_witness: "1 \<le> nCommitIndex exProposed \<and> entryAt exProposed 1 = Inr exNoOp"
proof -
  have "snIndex (nSnapshot exProposed) = 0" "entryAt exCommitted 1 = Inr exNoOp"
    by (simp_all add: life_eval exLeader_def exCommitted_def exProposed_def exNoOp_def)
  then show ?thesis
    using committed_stable [OF exNode_born [unfolded exEnv_def] exCommitted_alive [unfolded exEnv_def]
        exProposed_alive [unfolded exEnv_def]] exCommitted_eq by auto
qed

theorem hard_state_durable_witness:
  "hTerm (nHard exCandidate) = 1 \<and> psHardState (msState (nStore exCandidate)) = nHard exCandidate"
proof -
  have "hTerm (psHardState (msState (nStore (exNode 1)))) \<le> maxU64" "hTerm (nHard exCandidate) = 1"
    by (simp_all add: life_eval)
  then show ?thesis
    using hard_state_durable [OF exNode_born [unfolded exEnv_def] _ alive.start exCandidate_alive [unfolded exEnv_def]]
    by (simp add: sameDurable_def)
qed

definition exFollower :: "(MemoryStore, nat) Node" where
  "exFollower = fst (advanceTerm exEnv 1 (exNode 2))"

lemma exFollower_ready: "ready exEnv exFollower"
  by (simp add: life_eval ready_def durable_def exFollower_def)

definition exGranted :: "(MemoryStore, nat) Node" where
  "exGranted = fst (handleRequestVote exEnv exRequest exFollower)"

theorem vote_durable_before_reply_witness:
  "psHardState (msState (nStore exGranted)) = \<lparr>hTerm = 1, hVotedFor = 1\<rparr>"
proof -
  have run: "handleRequestVote exEnv exRequest exFollower = (exGranted, Inr [exVote])"
    by (simp add: life_eval exGranted_def exFollower_def)
  show ?thesis
    using vote_durable_before_reply [OF exFollower_ready [unfolded exEnv_def] run [unfolded exEnv_def], of exVote]
    by (simp add: exRequest_def exVote_def newMessage_def)
qed

definition exAppend :: Message where
  "exAppend = (newMessage AppendEntries 1 2 1)\<lparr>mgEntries := [exNoOp], mgLeaderCommit := 1\<rparr>"

definition exAppended :: "(MemoryStore, nat) Node" where
  "exAppended = fst (handleAppendEntries exEnv exAppend exFollower)"

theorem append_success_durable_witness:
  "entryAt exAppended 1 = Inr exNoOp \<and> psEntries (msState (nStore exAppended)) = nEntries exAppended"
proof -
  have inv: "logInv exFollower" by (simp add: life_eval logInv_def exFollower_def)
  have run: "handleAppendEntries exEnv exAppend exFollower = (exAppended, Inr [exAck])"
    by (simp add: life_eval exAppended_def exFollower_def exAppend_def exNoOp_def)
  show ?thesis
    using append_success_durable [OF exFollower_ready [unfolded exEnv_def] inv run [unfolded exEnv_def], of exAck]
    by (simp add: exAck_def exAppend_def exNoOp_def newMessage_def)
qed

definition exAcked :: "(MemoryStore, nat) Node" where "exAcked = fst (recordMatch exAck exLeader)"

theorem commit_rule_witness: "nCommitIndex (fst (advanceCommit exEnv exAcked)) = 1 \<and>
    quorum (nConfiguration exAcked) (\<lambda>p. 1 \<le> mapIndex (nMatchIndex exAcked) p)"
proof -
  have run: "advanceCommit exEnv exAcked = (fst (advanceCommit exEnv exAcked), Inr ())"
    and "nCommitIndex (fst (advanceCommit exEnv exAcked)) = 1" "nCommitIndex exAcked = 0"
    by (simp_all add: life_eval exAcked_def exLeader_def)
  then show ?thesis using commit_rule [OF run] by simp
qed

definition exStretch :: "(MemoryStore, nat) Node" where
  "exStretch = (setEntries [exNoOp, \<lparr>eIndex = 2, eTerm = 1, eType = EntryCommand, eCommand = [7, 8]\<rparr>] exFollower)\<lparr>nCommitIndex := 2\<rparr>"

theorem applies_committed_in_order_witness:
  "nLastApplied (fst (applyCommitted exEnv exStretch)) = 2 \<and> nStateMachine (fst (applyCommitted exEnv exStretch)) = 2"
proof -
  have run: "applyCommitted exEnv exStretch = (fst (applyCommitted exEnv exStretch), Inr ())"
    and pre: "validatePersistent (nPersistent exStretch) = Inr ()" "snIndex (nSnapshot exStretch) \<le> nLastApplied exStretch"
      "nCommitIndex exStretch \<le> lastIndex exStretch"
    by (simp_all add: life_eval exStretch_def exFollower_def exNoOp_def)
  have "foldl (applyCommand exEnv) (nStateMachine exStretch) (stretch (nLastApplied exStretch) (nCommitIndex exStretch) exStretch) = 2"
    "nCommitIndex exStretch = 2"
    by (simp_all add: life_eval exStretch_def exFollower_def exNoOp_def stretch_def applyCommand_def)
  then show ?thesis using applies_committed_in_order [OF run pre] by simp
qed

definition exBroken :: "(MemoryStore, nat) Node" where
  "exBroken = exFollower\<lparr>nStore := setSaveError (Some ErrUnavailable) (nStore exFollower)\<rparr>"

definition exFailed :: "(MemoryStore, nat) Node" where "exFailed = exStep (CallStep exRequest) exBroken"

theorem failure_is_final_witness:
  "nFatal exFailed \<noteq> None \<and> sent (snd (runCall exEnv CallTick exFailed)) = {}"
proof -
  have ready: "ready exEnv exBroken" and typed: "callTyped (CallStep exRequest)"
    and run: "runCall exEnv (CallStep exRequest) exBroken = (exFailed, snd (runCall exEnv (CallStep exRequest) exBroken))"
    and fatal: "nFatal exFailed \<noteq> None"
    by (simp_all add: life_eval ready_def durable_def exBroken_def exFollower_def exFailed_def setSaveError_def failNode_def)
  show ?thesis
    using failure_is_final [OF ready [unfolded exEnv_def] typed run [unfolded exEnv_def], of CallTick
        "fst (runCall exEnv CallTick exFailed)" "snd (runCall exEnv CallTick exFailed)"] fatal
    by (simp add: exEnv_def)
qed

theorem election_starts_on_time_witness:
  "nTerm (fst (ticks exEnv 2 (exNode 1))) = 1 \<and> nRole (fst (ticks exEnv 2 (exNode 1))) = Candidate"
proof -
  have pre: "usable (exNode 1) = None" "nRole (exNode 1) = Follower" "isVoter (nConfiguration (exNode 1)) (nId (exNode 1))"
    "nElectionElapsed (exNode 1) < nElectionTimeout (exNode 1)" "nElectionTimeout (exNode 1) \<le> maxU64" "nTerm (exNode 1) < maxU64"
    "validatePersistent (nPersistent (exNode 1)) = Inr ()" "msSaveErr (nStore (exNode 1)) = None" "msSaveHook (nStore (exNode 1)) = None"
    "\<not> quorum (nConfiguration (exNode 1)) (\<lambda>x. x = nId (exNode 1))"
    by (simp_all add: life_eval)
  have "nElectionTimeout (exNode 1) - nElectionElapsed (exNode 1) = 2" "nTerm (exNode 1) = 0"
    by (simp_all add: life_eval)
  then show ?thesis
    using election_starts_on_time [OF pre, of "\<lambda>sm e. (sm + length (eCommand e), Inr ())" "\<lambda>sm. (sm, Inr [])" "\<lambda>sm d. (0, Inr ())" "\<lambda>k span. 0"]
    by (auto simp: exEnv_def)
qed

section \<open>A restart that is refused\<close>

text \<open>
  \<open>NewNode\<close> rejects a stored vote for a node that is not a voter of the stored configuration, but
  a configuration change can remove a node within the term in which others voted for it. In a
  group of five, node 3 votes for node 1 in term 1, node 2 wins the term with the other votes, and
  removes node 1 through a joint configuration. The state node 3 then has in its store is one that
  the node itself wrote, and no node can be constructed from it.
\<close>

definition exFive :: Config where "exFive = (exConfig 3)\<lparr>cgPeers := [1, 2, 3, 4, 5]\<rparr>"

definition exFiveVoters :: Configuration where
  "exFiveVoters = \<lparr>cfVersion = 1, cfOldVoters = [1, 2, 3, 4, 5], cfNewVoters = [], cfLearners = []\<rparr>"

definition exShrink :: Configuration where
  "exShrink = \<lparr>cfVersion = 2, cfOldVoters = [1, 2, 3, 4, 5], cfNewVoters = [2, 3, 4, 5], cfLearners = []\<rparr>"

definition exShrunk :: Configuration where
  "exShrunk = \<lparr>cfVersion = 3, cfOldVoters = [2, 3, 4, 5], cfNewVoters = [], cfLearners = []\<rparr>"

definition exShrinkBytes :: bytes where
  "exShrinkBytes = [1, 5, 4, 0, 2, 0, 0, 0, 0, 0, 0, 0, 1, 0, 0, 0, 0, 0, 0, 0, 2, 0, 0, 0, 0, 0, 0, 0,
     3, 0, 0, 0, 0, 0, 0, 0, 4, 0, 0, 0, 0, 0, 0, 0, 5, 0, 0, 0, 0, 0, 0, 0, 2, 0, 0, 0, 0, 0, 0, 0,
     3, 0, 0, 0, 0, 0, 0, 0, 4, 0, 0, 0, 0, 0, 0, 0, 5, 0, 0, 0, 0, 0, 0, 0]"

definition exShrunkBytes :: bytes where
  "exShrunkBytes = [1, 4, 0, 0, 3, 0, 0, 0, 0, 0, 0, 0, 2, 0, 0, 0, 0, 0, 0, 0, 3, 0, 0, 0, 0, 0, 0, 0,
     4, 0, 0, 0, 0, 0, 0, 0, 5, 0, 0, 0, 0, 0, 0, 0]"

lemma shrink_decodes: "decodeConfiguration exShrinkBytes = Inr exShrink" "decodeConfiguration exShrunkBytes = Inr exShrunk"
  "length exShrinkBytes = 84" "length exShrunkBytes = 44"
  by code_simp+

lemma shrink_admitted: "validateConfigurationTransition exFiveVoters exShrink = Inr ()"
  "validateConfigurationTransition exShrink exShrunk = Inr ()"
  "validateConfiguration exFiveVoters = Inr ()" "validateConfiguration exShrink = Inr ()" "validateConfiguration exShrunk = Inr ()"
  by code_simp+

definition exThird :: "(MemoryStore, nat) Node" where
  "exThird = resetElectionTimer exEnv (initialNode exFive exFiveVoters zeroPersistent newMemoryStore 0)"

definition exFromTwo :: "nat \<Rightarrow> Entry list \<Rightarrow> nat \<Rightarrow> Call" where
  "exFromTwo prev es commit = CallStep ((newMessage AppendEntries 2 3 1)
     \<lparr>mgPrevLogIndex := prev, mgPrevLogTerm := (if prev = 0 then 0 else 1), mgEntries := es, mgLeaderCommit := commit\<rparr>)"

definition exVoteForOne :: "(MemoryStore, nat) Node" where
  "exVoteForOne = exStep (CallStep (newMessage RequestVote 1 3 1)) exThird"
definition exJointSeen :: "(MemoryStore, nat) Node" where
  "exJointSeen = exStep (exFromTwo 0 [exNoOp, \<lparr>eIndex = 2, eTerm = 1, eType = EntryConfig, eCommand = exShrinkBytes\<rparr>] 0) exVoteForOne"
definition exJointDone :: "(MemoryStore, nat) Node" where
  "exJointDone = exStep (exFromTwo 2 [\<lparr>eIndex = 3, eTerm = 1, eType = EntryConfig, eCommand = exShrunkBytes\<rparr>] 2) exJointSeen"
definition exRemoved :: "(MemoryStore, nat) Node" where "exRemoved = exStep (exFromTwo 3 [] 3) exJointDone"

lemmas third_eval = life_eval exThird_def exFive_def exFiveVoters_def exFromTwo_def validateEncodedConfiguration_def
  shrink_decodes shrink_admitted [unfolded exFiveVoters_def]

lemmas removal_eval = third_eval exVoteForOne_def exJointSeen_def exJointDone_def exRemoved_def exNoOp_def
  exShrink_def exShrunk_def installConfiguration_def validateConfigurationTransition_def

lemma exRemoved_store: "msState (nStore exRemoved) = nPersistent exRemoved \<and> psConfig (nPersistent exRemoved) = exShrunk \<and>
   nHard exRemoved = \<lparr>hTerm = 1, hVotedFor = 1\<rparr>"
  by (simp add: removal_eval)

lemma exRemoved_alive: "alive exEnv exThird exRemoved"
  unfolding exRemoved_def exJointDone_def exJointSeen_def exVoteForOne_def
  by (intro alive_exStep alive.start) (simp_all add: removal_eval)

lemma exThird_born: "newNode exEnv exFive newMemoryStore 0 = Inr exThird"
  by (simp add: newNode_def third_eval)

text \<open>
  C36. A restart can be refused: there is a run, that of the example node 3, in which a node is
  constructed from an empty store, lives through the vote, the three appends and the removal of
  node 1 without an error that ends it, and then cannot be constructed from the store it has
  written.
\<close>

theorem restart_refused: "newNode exEnv exFive newMemoryStore 0 = Inr exThird \<and> alive exEnv exThird exRemoved \<and>
    newNode exEnv exFive (nStore exRemoved) 0 = Inl ErrInvalidState"
proof -
  have "logInv exRemoved"
    using memenv.alive_logOk [OF exRemoved_alive [unfolded exEnv_def] newNode_logInv [OF exThird_born]] by (simp add: logOk_def)
  then have valid: "validatePersistent (nPersistent exRemoved) = Inr ()" by (simp add: logInv_def)
  have "normalizeConfiguration exShrunk = exShrunk" "isVoter exShrunk 3" "\<not> isVoter exShrunk 1" "cfVersion exShrunk = 3"
    by (simp_all add: exShrunk_def normalizeConfiguration_def isVoter_def)
  moreover have "validateConfig exFive = Inr ()" "cgID exFive = 3"
    by (simp_all add: third_eval)
  ultimately have "newNode exEnv exFive (nStore exRemoved) 0 = Inl ErrInvalidState"
    using exRemoved_store valid shrink_admitted(5)
    by (simp add: newNode_def exEnv_def memoryEnv_def memLoad_def initialConfiguration_def Let_def)
  then show ?thesis using exThird_born exRemoved_alive by simp
qed

end
