(* ===== verification/Sort_Func.thy ===== *)
theory Sort_Func
  imports Prelude "HOL-Library.Multiset"
begin

text \<open>
  \<open>slices.SortFunc\<close> of Go's standard library, which the storage formats use to fix the
  order of files, spans and records. A comparison function returns a negative number, zero or
  a positive number. The contract of the callers is the locale \<open>comparison\<close>; its extension
  \<open>strict_comparison\<close> is for functions that separate any two elements of the lists they
  are used on, for which the sorted list is unique, so that the choice of the sorting
  algorithm (the library's is not stable) does not show.
\<close>

section \<open>Sorting by a comparison function\<close>

primrec insertFunc :: "('a \<Rightarrow> 'a \<Rightarrow> int) \<Rightarrow> 'a \<Rightarrow> 'a list \<Rightarrow> 'a list" where
  "insertFunc cmp x [] = [x]"
| "insertFunc cmp x (y # ys) = (if cmp x y \<le> 0 then x # y # ys else y # insertFunc cmp x ys)"

definition sortFunc :: "('a \<Rightarrow> 'a \<Rightarrow> int) \<Rightarrow> 'a list \<Rightarrow> 'a list" where
  "sortFunc cmp xs = foldr (insertFunc cmp) xs []"

lemma sortFunc_simps [simp]:
  "sortFunc cmp [] = []"
  "sortFunc cmp (x # xs) = insertFunc cmp x (sortFunc cmp xs)"
  by (simp_all add: sortFunc_def)

lemma mset_insertFunc [simp]: "mset (insertFunc cmp x xs) = add_mset x (mset xs)"
  by (induction xs) auto

lemma mset_sortFunc [simp]: "mset (sortFunc cmp xs) = mset xs"
  by (induction xs) auto

lemma set_sortFunc [simp]: "set (sortFunc cmp xs) = set xs"
  by (metis mset_sortFunc set_mset_mset)

lemma length_sortFunc [simp]: "length (sortFunc cmp xs) = length xs"
  by (metis mset_sortFunc size_mset)

lemma distinct_sortFunc [simp]: "distinct (sortFunc cmp xs) = distinct xs"
  by (metis mset_sortFunc mset_eq_imp_distinct_iff)

section \<open>The contract of a comparison function\<close>

locale comparison =
  fixes cmp :: "'a \<Rightarrow> 'a \<Rightarrow> int"
  assumes total: "cmp x y \<le> 0 \<or> cmp y x \<le> 0"
    and trans: "cmp x y \<le> 0 \<Longrightarrow> cmp y z \<le> 0 \<Longrightarrow> cmp x z \<le> 0"
begin

lemma insertFunc_sorted:
  "sorted_wrt (\<lambda>x y. cmp x y \<le> 0) xs \<Longrightarrow> sorted_wrt (\<lambda>x y. cmp x y \<le> 0) (insertFunc cmp x xs)"
proof (induction xs)
  case (Cons y ys)
  have mem: "set (insertFunc cmp x ys) = insert x (set ys)"
    by (metis mset_insertFunc set_mset_add_mset_insert set_mset_mset)
  show ?case
  proof (cases "cmp x y \<le> 0")
    case True
    then show ?thesis using Cons.prems trans [OF True] by auto
  next
    case False
    then have "cmp y x \<le> 0" using total [of x y] by simp
    then show ?thesis using Cons False mem by auto
  qed
qed simp

lemma sortFunc_sorted: "sorted_wrt (\<lambda>x y. cmp x y \<le> 0) (sortFunc cmp xs)"
  by (induction xs) (auto intro: insertFunc_sorted)

lemma sortFunc_id: "sorted_wrt (\<lambda>x y. cmp x y \<le> 0) xs \<Longrightarrow> sortFunc cmp xs = xs"
proof (induction xs)
  case (Cons x xs)
  then show ?case by (cases xs) auto
qed simp

text \<open>
  The sorted order of a list is unique when the function separates any two of its elements,
  as a file number does the tables of a version.
\<close>

lemma sorted_unique:
  assumes "sorted_wrt (\<lambda>x y. cmp x y \<le> 0) xs" and "sorted_wrt (\<lambda>x y. cmp x y \<le> 0) ys"
    and "mset xs = mset ys"
    and "\<And>x y. x \<in> set xs \<Longrightarrow> y \<in> set xs \<Longrightarrow> cmp x y \<le> 0 \<Longrightarrow> cmp y x \<le> 0 \<Longrightarrow> x = y"
  shows "xs = ys"
  using assms
proof (induction xs arbitrary: ys)
  case (Cons x xs)
  then obtain y ys' where ys: "ys = y # ys'" by (cases ys) auto
  have "x \<in> set (y # ys')" and "y \<in> set (x # xs)"
    using Cons.prems(3) ys by (metis list.set_intros(1) mset_eq_setD)+
  then have "x = y"
    using Cons.prems(1,2) ys Cons.prems(4) [of x y] by auto
  then show ?case using Cons ys by auto
qed simp

lemma sortFunc_unique:
  assumes "mset xs = mset ys" and "sorted_wrt (\<lambda>x y. cmp x y \<le> 0) ys"
    and "\<And>x y. x \<in> set xs \<Longrightarrow> y \<in> set xs \<Longrightarrow> cmp x y \<le> 0 \<Longrightarrow> cmp y x \<le> 0 \<Longrightarrow> x = y"
  shows "sortFunc cmp xs = ys"
  using assms by (intro sorted_unique [OF sortFunc_sorted]) auto

end

locale strict_comparison = comparison +
  assumes separates: "cmp x y \<le> 0 \<Longrightarrow> cmp y x \<le> 0 \<Longrightarrow> x = y"
begin

lemma sortFunc_eq: "mset xs = mset ys \<Longrightarrow> sorted_wrt (\<lambda>x y. cmp x y \<le> 0) ys \<Longrightarrow> sortFunc cmp xs = ys"
  by (rule sortFunc_unique) (auto intro: separates)

lemma sortFunc_perm: "mset xs = mset ys \<Longrightarrow> sortFunc cmp xs = sortFunc cmp ys"
  by (rule sortFunc_eq [OF _ sortFunc_sorted]) auto

end

section \<open>Integers\<close>

text \<open>\<open>cmpUint64\<close> of \<open>manifest/edit.go\<close>.\<close>

definition cmpUint64 :: "u64 \<Rightarrow> u64 \<Rightarrow> int" where
  "cmpUint64 left right = (if left < right then -1 else if left > right then 1 else 0)"

lemma cmpUint64_order [simp]:
  "cmpUint64 a b \<le> 0 \<longleftrightarrow> a \<le> b"
  "cmpUint64 a b = 0 \<longleftrightarrow> a = b"
  "cmpUint64 a b < 0 \<longleftrightarrow> a < b"
  by (auto simp: cmpUint64_def)

interpretation u64_cmp: strict_comparison cmpUint64
  by unfold_locales auto

end
