(* ===== verification/Manifest_Version.thy ===== *)
theory Manifest_Version
  imports Internal_Key Sort_Func
begin

text \<open>
  \<open>internal/storage/manifest/version.go\<close> and the value types and validation of
  \<open>edit.go\<close>: the durable metadata of one SSTable, the edit that leads from one version of
  the table set to the next, and the version itself with its eight levels. \<open>applyEdit\<close> is
  \<open>Version.apply\<close>; it is the composition of its stages in the order of the source.
\<close>

section \<open>Tables and edits (\<open>edit.go\<close>)\<close>

datatype ManifestError =
    ErrInvalidEdit
  | ErrUnsupportedVersion
  | ErrManifestCorrupt
  | ErrInvalidLevel
  | ErrComparatorMismatch
  | ErrModeMismatch
  | ErrFileNumberCollision
  | ErrSequenceRegression
  | ErrFrontierRegression
  | ErrFrontierGap
  | ErrDuplicateFile
  | ErrUnknownFile
  | ErrOverlappingLevel
  | ManifestKey key_error
  | ManifestJoin ManifestError ManifestError
  | ManifestPanic string

definition MaxChangesPerEdit :: nat where "MaxChangesPerEdit = 4096"
definition MaxLevels :: nat where "MaxLevels = 8"

definition ComparatorName :: bytes where
  "ComparatorName = map of_char ''rivetdb.internal-key.v1''"

type_synonym StorageMode = byte

definition ModeStandalone :: StorageMode where "ModeStandalone = 1"
definition ModeReplicated :: StorageMode where "ModeReplicated = 2"
definition ModeReplicatedMVCC :: StorageMode where "ModeReplicatedMVCC = 3"

lemmas mode_defs = ModeStandalone_def ModeReplicated_def ModeReplicatedMVCC_def

text \<open>The limits of \<open>sstable/format.go\<close> that a table must respect.\<close>

definition MaxFileNumber :: u64 where "MaxFileNumber = 999999999999"
definition FooterSize :: u64 where "FooterSize = 80"
definition MaxTableUserKey :: nat where "MaxTableUserKey = 2 ^ 20"

datatype DeletedFile = DeletedFile (delLevel: u32) (delFileNumber: u64)

record TableMetadata =
  tabLevel :: u32
  fileNumber :: u64
  flushGeneration :: u64
  fileSize :: u64
  entryCount :: u64
  deletionCount :: u64
  rawKeyValueBytes :: u64
  dataBlockCount :: u32
  smallestSequence :: u64
  largestSequence :: u64
  smallestInternal :: InternalKey
  largestInternal :: InternalKey
  smallestUser :: bytes
  largestUser :: bytes

record VersionEdit =
  edComparator :: "bytes option"
  edNextFileNumber :: "u64 option"
  edLastSequence :: "u64 option"
  edReplayFrontier :: "u64 option"
  edStorageMode :: "StorageMode option"
  edReplicatedAppliedThrough :: "u64 option"
  edMaxAppliedMVCC :: "u64 option"
  edDeletedFiles :: "DeletedFile list"
  edAddedFiles :: "TableMetadata list"

definition validateTable :: "TableMetadata \<Rightarrow> ManifestError + unit" where
  "validateTable t =
     (if unat (tabLevel t) \<ge> MaxLevels then Inl (ManifestJoin ErrInvalidEdit ErrInvalidLevel)
      else if fileNumber t = 0 \<or> fileNumber t > MaxFileNumber \<or> fileSize t < FooterSize \<or>
        entryCount t = 0 \<or> dataBlockCount t = 0 \<or> deletionCount t > entryCount t \<or>
        smallestSequence t > largestSequence t then Inl ErrInvalidEdit
      else if length (smallestUser t) > MaxTableUserKey \<or> length (largestUser t) > MaxTableUserKey \<or>
        userKey (smallestInternal t) \<noteq> smallestUser t \<or>
        userKey (largestInternal t) \<noteq> largestUser t \<or>
        compareInternal (smallestInternal t) (largestInternal t) > 0 \<or>
        compareBytes (smallestUser t) (largestUser t) > 0 then Inl ErrInvalidEdit
      else Inr ())"

text \<open>
  \<open>cloneTable\<close> copies the boundary keys by encoding and decoding them; an undecodable key
  is the assertion \<open>STORAGE-62\<close>.
\<close>

definition cloneTable :: "TableMetadata \<Rightarrow> ManifestError + TableMetadata" where
  "cloneTable t =
     (case decodeInternalKey (encodeInternalKey (smallestInternal t)) of
        Inl e \<Rightarrow> Inl (ManifestPanic ''STORAGE-62'')
      | Inr s \<Rightarrow>
          (case decodeInternalKey (encodeInternalKey (largestInternal t)) of
             Inl e \<Rightarrow> Inl (ManifestPanic ''STORAGE-62'')
           | Inr l \<Rightarrow> Inr (t\<lparr>smallestInternal := s, largestInternal := l\<rparr>)))"

primrec cloneTables :: "TableMetadata list \<Rightarrow> ManifestError + TableMetadata list" where
  "cloneTables [] = Inr []"
| "cloneTables (t # ts) = bindR (cloneTable t) (\<lambda>c. bindR (cloneTables ts) (\<lambda>cs. Inr (c # cs)))"

definition knownMode :: "StorageMode \<Rightarrow> bool" where
  "knownMode m \<longleftrightarrow> m = ModeStandalone \<or> m = ModeReplicated \<or> m = ModeReplicatedMVCC"

fun checkDeleted :: "u64 set \<Rightarrow> DeletedFile list \<Rightarrow> ManifestError + u64 set" where
  "checkDeleted seen [] = Inr seen"
| "checkDeleted seen (d # ds) =
     (if unat (delLevel d) \<ge> MaxLevels \<or> delFileNumber d = 0 \<or> delFileNumber d > MaxFileNumber
      then Inl ErrInvalidEdit
      else if delFileNumber d \<in> seen then Inl ErrInvalidEdit
      else checkDeleted (insert (delFileNumber d) seen) ds)"

fun checkAdded :: "u64 set \<Rightarrow> TableMetadata list \<Rightarrow> ManifestError + unit" where
  "checkAdded seen [] = Inr ()"
| "checkAdded seen (t # ts) =
     bindR (validateTable t) (\<lambda>_.
       if fileNumber t \<in> seen then Inl ErrInvalidEdit
       else checkAdded (insert (fileNumber t) seen) ts)"

definition validateEditShape :: "VersionEdit \<Rightarrow> ManifestError + unit" where
  "validateEditShape e =
     (if edComparator e = None \<and> edNextFileNumber e = None \<and> edLastSequence e = None \<and>
         edReplayFrontier e = None \<and> edStorageMode e = None \<and> edReplicatedAppliedThrough e = None \<and>
         edMaxAppliedMVCC e = None \<and> edAddedFiles e = [] \<and> edDeletedFiles e = []
      then Inl ErrInvalidEdit
      else if length (edAddedFiles e) > MaxChangesPerEdit \<or> length (edDeletedFiles e) > MaxChangesPerEdit
      then Inl ErrInvalidEdit
      else if (\<exists>m. edStorageMode e = Some m \<and> \<not> knownMode m) \<or>
         edReplayFrontier e \<noteq> None \<and> edReplicatedAppliedThrough e \<noteq> None \<or>
         edMaxAppliedMVCC e \<noteq> None \<and> edReplicatedAppliedThrough e = None
      then Inl ErrInvalidEdit
      else if (\<exists>c. edComparator e = Some c \<and> (c = [] \<or> length c > 128))
      then Inl ErrInvalidEdit
      else bindR (checkDeleted {} (edDeletedFiles e)) (\<lambda>seen. checkAdded seen (edAddedFiles e)))"

section \<open>Versions\<close>

record Version =
  generation :: u64
  comparator :: bytes
  levels :: "TableMetadata list list"
  nextFileNumber :: u64
  haveLastSequence :: bool
  lastSequence :: u64
  haveFrontier :: bool
  frontier :: u64
  mode :: StorageMode
  modeExplicit :: bool
  replicatedApplied :: u64
  haveReplicatedApplied :: bool
  maxAppliedMVCC :: u64
  haveMaxAppliedMVCC :: bool

definition initialVersion :: Version where
  "initialVersion =
     \<lparr>generation = 0, comparator = [], levels = replicate MaxLevels [], nextFileNumber = 1,
      haveLastSequence = False, lastSequence = 0, haveFrontier = False, frontier = 0,
      mode = ModeStandalone, modeExplicit = False, replicatedApplied = 0,
      haveReplicatedApplied = False, maxAppliedMVCC = 0, haveMaxAppliedMVCC = False\<rparr>"

definition versionFiles :: "Version \<Rightarrow> u32 \<Rightarrow> TableMetadata list" where
  "versionFiles v level = (if unat level \<ge> MaxLevels then [] else levels v ! unat level)"

definition liveTables :: "Version \<Rightarrow> TableMetadata list" where
  "liveTables v = concat (levels v)"

definition liveTableCount :: "Version \<Rightarrow> nat" where
  "liveTableCount v = sum_list (map length (levels v))"

definition liveFileNumbers :: "Version \<Rightarrow> u64 list" where
  "liveFileNumbers v = sortFunc cmpUint64 (map fileNumber (liveTables v))"

primrec findFile :: "TableMetadata list \<Rightarrow> u64 \<Rightarrow> nat option" where
  "findFile [] n = None"
| "findFile (t # ts) n = (if fileNumber t = n then Some 0 else map_option Suc (findFile ts n))"

definition hasFile :: "Version \<Rightarrow> u64 \<Rightarrow> bool" where
  "hasFile v n \<longleftrightarrow> list_ex (\<lambda>level. findFile level n \<noteq> None) (levels v)"

definition highestFile :: "Version \<Rightarrow> u64" where
  "highestFile v = fold (\<lambda>t highest. max highest (fileNumber t)) (liveTables v) 0"

definition tableEqual :: "TableMetadata \<Rightarrow> TableMetadata \<Rightarrow> bool" where
  "tableEqual a b \<longleftrightarrow>
     tabLevel a = tabLevel b \<and> fileNumber a = fileNumber b \<and> flushGeneration a = flushGeneration b \<and>
     fileSize a = fileSize b \<and> entryCount a = entryCount b \<and> deletionCount a = deletionCount b \<and>
     rawKeyValueBytes a = rawKeyValueBytes b \<and> dataBlockCount a = dataBlockCount b \<and>
     smallestSequence a = smallestSequence b \<and> largestSequence a = largestSequence b \<and>
     encodeInternalKey (smallestInternal a) = encodeInternalKey (smallestInternal b) \<and>
     encodeInternalKey (largestInternal a) = encodeInternalKey (largestInternal b) \<and>
     smallestUser a = smallestUser b \<and> largestUser a = largestUser b"

definition containsTable :: "Version \<Rightarrow> TableMetadata \<Rightarrow> bool" where
  "containsTable v t =
     (if unat (tabLevel t) \<ge> MaxLevels then False
      else case findFile (levels v ! unat (tabLevel t)) (fileNumber t) of
             None \<Rightarrow> False
           | Some i \<Rightarrow> tableEqual (levels v ! unat (tabLevel t) ! i) t)"

subsection \<open>Order within a level\<close>

definition compareNewest :: "TableMetadata \<Rightarrow> TableMetadata \<Rightarrow> int" where
  "compareNewest left right =
     (let order = cmpUint64 (largestSequence right) (largestSequence left) in
      if order \<noteq> 0 then order
      else let order = cmpUint64 (flushGeneration right) (flushGeneration left) in
      if order \<noteq> 0 then order
      else cmpUint64 (fileNumber right) (fileNumber left))"

definition compareSmallest :: "TableMetadata \<Rightarrow> TableMetadata \<Rightarrow> int" where
  "compareSmallest left right =
     (let order = compareBytes (smallestUser left) (smallestUser right) in
      if order \<noteq> 0 then order
      else cmpUint64 (fileNumber left) (fileNumber right))"

definition sortLevel :: "nat \<Rightarrow> TableMetadata list \<Rightarrow> TableMetadata list" where
  "sortLevel level ts = (if level = 0 then sortFunc compareNewest ts else sortFunc compareSmallest ts)"

fun overlaps :: "TableMetadata list \<Rightarrow> bool" where
  "overlaps (a # b # ts) =
     (if compareBytes (largestUser a) (smallestUser b) \<ge> 0 then True else overlaps (b # ts))"
| "overlaps _ = False"

subsection \<open>Contiguous sequence coverage\<close>

datatype sequenceSpan = sequenceSpan (spanFirst: u64) (spanLast: u64)

definition compareSpan :: "sequenceSpan \<Rightarrow> sequenceSpan \<Rightarrow> int" where
  "compareSpan left right =
     (let order = cmpUint64 (spanFirst left) (spanFirst right) in
      if order \<noteq> 0 then order else cmpUint64 (spanLast right) (spanLast left))"

definition tableSpan :: "TableMetadata \<Rightarrow> sequenceSpan" where
  "tableSpan t = sequenceSpan (smallestSequence t) (largestSequence t)"

fun coverLoop :: "u64 \<Rightarrow> u64 \<Rightarrow> sequenceSpan list \<Rightarrow> bool" where
  "coverLoop target cursor [] = False"
| "coverLoop target cursor (s # ss) =
     (if spanFirst s > cursor then False
      else if spanLast s < cursor then coverLoop target cursor ss
      else if spanLast s \<ge> target then True
      else coverLoop target (spanLast s + 1) ss)"

definition frontierCovered :: "Version \<Rightarrow> u64 \<Rightarrow> bool" where
  "frontierCovered v target =
     (if haveFrontier v \<and> target = frontier v then True
      else if haveFrontier v \<and> frontier v = -1 then target = -1
      else
        let start = (if haveFrontier v then frontier v + 1 else 0);
            spans = map tableSpan
              (filter (\<lambda>t. largestSequence t \<ge> start \<and> smallestSequence t \<le> target) (liveTables v))
        in coverLoop target start (sortFunc compareSpan spans))"

text \<open>The result of the loop of \<open>maximumContiguousFrontier\<close>: \<open>None\<close> is its early return.\<close>

fun contiguousLoop :: "u64 \<Rightarrow> bool \<Rightarrow> sequenceSpan list \<Rightarrow> (u64 \<times> bool) option" where
  "contiguousLoop cursor advanced [] = Some (cursor, advanced)"
| "contiguousLoop cursor advanced (s # ss) =
     (if spanFirst s > cursor then Some (cursor, advanced)
      else if spanLast s < cursor then contiguousLoop cursor advanced ss
      else if spanLast s = -1 then None
      else contiguousLoop (spanLast s + 1) True ss)"

definition maximumContiguousFrontier :: "Version \<Rightarrow> u64 \<times> bool" where
  "maximumContiguousFrontier v =
     (if haveFrontier v \<and> frontier v = -1 then (frontier v, True)
      else
        let start = (if haveFrontier v then frontier v + 1 else 0);
            spans = map tableSpan (filter (\<lambda>t. largestSequence t \<ge> start) (liveTables v))
        in case contiguousLoop start False (sortFunc compareSpan spans) of
             None \<Rightarrow> (-1, True)
           | Some (cursor, advanced) \<Rightarrow>
               if \<not> advanced then (frontier v, haveFrontier v) else (cursor - 1, True))"

subsection \<open>Applying an edit\<close>

primrec cloneLevels :: "TableMetadata list list \<Rightarrow> ManifestError + TableMetadata list list" where
  "cloneLevels [] = Inr []"
| "cloneLevels (l # ls) = bindR (cloneTables l) (\<lambda>c. bindR (cloneLevels ls) (\<lambda>cs. Inr (c # cs)))"

definition cloneVersion :: "Version \<Rightarrow> ManifestError + Version" where
  "cloneVersion v = bindR (cloneLevels (levels v)) (\<lambda>ls. Inr (v\<lparr>levels := ls\<rparr>))"

definition applyComparator :: "VersionEdit \<Rightarrow> Version \<Rightarrow> ManifestError + Version" where
  "applyComparator e v =
     bindR (case edComparator e of
              None \<Rightarrow> Inr v
            | Some c \<Rightarrow>
                if c \<noteq> ComparatorName \<or> comparator v \<noteq> [] \<and> comparator v \<noteq> c
                then Inl ErrComparatorMismatch else Inr (v\<lparr>comparator := c\<rparr>))
       (\<lambda>v. if comparator v = [] then Inl ErrComparatorMismatch else Inr v)"

definition applyMode :: "VersionEdit \<Rightarrow> Version \<Rightarrow> ManifestError + Version" where
  "applyMode e v =
     (case edStorageMode e of
        None \<Rightarrow> Inr v
      | Some m \<Rightarrow>
          if \<not> knownMode m \<or> modeExplicit v \<or> generation v \<noteq> 0 then Inl ErrModeMismatch
          else Inr (v\<lparr>mode := m, modeExplicit := True\<rparr>))"

definition maxNextFileNumber :: u64 where "maxNextFileNumber = 1000000000000"

definition applyNextFile :: "VersionEdit \<Rightarrow> Version \<Rightarrow> ManifestError + Version" where
  "applyNextFile e v =
     (case edNextFileNumber e of
        None \<Rightarrow> Inr v
      | Some n \<Rightarrow>
          if n < nextFileNumber v \<or> n = 0 \<or> n > maxNextFileNumber then Inl ErrFileNumberCollision
          else Inr (v\<lparr>nextFileNumber := n\<rparr>))"

definition applyLastSequence :: "VersionEdit \<Rightarrow> Version \<Rightarrow> ManifestError + Version" where
  "applyLastSequence e v =
     (case edLastSequence e of
        None \<Rightarrow> Inr v
      | Some n \<Rightarrow>
          if haveLastSequence v \<and> n < lastSequence v then Inl ErrSequenceRegression
          else Inr (v\<lparr>lastSequence := n, haveLastSequence := True\<rparr>))"

fun applyDeletions :: "u64 set \<Rightarrow> DeletedFile list \<Rightarrow> Version \<Rightarrow> ManifestError + (u64 set \<times> Version)" where
  "applyDeletions seen [] v = Inr (seen, v)"
| "applyDeletions seen (d # ds) v =
     (if delFileNumber d \<in> seen then Inl ErrInvalidEdit
      else let level = levels v ! unat (delLevel d) in
        case findFile level (delFileNumber d) of
          None \<Rightarrow> Inl ErrUnknownFile
        | Some i \<Rightarrow>
            applyDeletions (insert (delFileNumber d) seen) ds
              (v\<lparr>levels := (levels v)[unat (delLevel d) := take i level @ drop (i + 1) level]\<rparr>))"

fun applyAdditions :: "u64 set \<Rightarrow> TableMetadata list \<Rightarrow> Version \<Rightarrow> ManifestError + Version" where
  "applyAdditions seen [] v = Inr v"
| "applyAdditions seen (t # ts) v =
     (if fileNumber t \<in> seen then Inl ErrInvalidEdit
      else if hasFile v (fileNumber t) then Inl ErrDuplicateFile
      else if fileNumber t \<ge> nextFileNumber v then Inl ErrFileNumberCollision
      else bindR (cloneTable t) (\<lambda>c.
        applyAdditions (insert (fileNumber t) seen) ts
          (v\<lparr>levels := (levels v)[unat (tabLevel t) := levels v ! unat (tabLevel t) @ [c]]\<rparr>)))"

fun sortLevels :: "nat \<Rightarrow> TableMetadata list list \<Rightarrow> ManifestError + TableMetadata list list" where
  "sortLevels level [] = Inr []"
| "sortLevels level (l # ls) =
     (let sorted = sortLevel level l in
      if level > 0 \<and> overlaps sorted then Inl ErrOverlappingLevel
      else bindR (sortLevels (level + 1) ls) (\<lambda>rest. Inr (sorted # rest)))"

definition applyLevels :: "VersionEdit \<Rightarrow> Version \<Rightarrow> ManifestError + Version" where
  "applyLevels e v =
     bindR (applyDeletions {} (edDeletedFiles e) v) (\<lambda>(seen, v).
     bindR (applyAdditions seen (edAddedFiles e) v) (\<lambda>v.
     bindR (sortLevels 0 (levels v)) (\<lambda>ls. Inr (v\<lparr>levels := ls\<rparr>))))"

definition applyFrontier :: "VersionEdit \<Rightarrow> Version \<Rightarrow> ManifestError + Version" where
  "applyFrontier e v =
     (case edReplayFrontier e of
        None \<Rightarrow> Inr v
      | Some f \<Rightarrow>
          if mode v \<noteq> ModeStandalone then Inl ErrModeMismatch
          else if haveFrontier v \<and> f < frontier v then Inl ErrFrontierRegression
          else if \<not> haveLastSequence v \<or> f > lastSequence v then Inl ErrFrontierGap
          else if \<not> frontierCovered v f then Inl ErrFrontierGap
          else Inr (v\<lparr>frontier := f, haveFrontier := True\<rparr>))"

definition applyReplicated :: "VersionEdit \<Rightarrow> Version \<Rightarrow> ManifestError + Version" where
  "applyReplicated e v =
     (case edReplicatedAppliedThrough e of
        None \<Rightarrow> Inr v
      | Some n \<Rightarrow>
          if mode v \<noteq> ModeReplicated \<and> mode v \<noteq> ModeReplicatedMVCC \<or>
             haveReplicatedApplied v \<and> n < replicatedApplied v then Inl ErrModeMismatch
          else Inr (v\<lparr>replicatedApplied := n, haveReplicatedApplied := True\<rparr>))"

definition applyMaxMVCC :: "VersionEdit \<Rightarrow> Version \<Rightarrow> ManifestError + Version" where
  "applyMaxMVCC e v =
     (case edMaxAppliedMVCC e of
        None \<Rightarrow> Inr v
      | Some n \<Rightarrow>
          if mode v \<noteq> ModeReplicatedMVCC \<or> n = 0 \<or> haveMaxAppliedMVCC v \<and> n < maxAppliedMVCC v
          then Inl ErrSequenceRegression
          else Inr (v\<lparr>maxAppliedMVCC := n, haveMaxAppliedMVCC := True\<rparr>))"

definition applyFinal :: "Version \<Rightarrow> ManifestError + Version" where
  "applyFinal v =
     (if mode v = ModeStandalone \<and> haveReplicatedApplied v \<or>
         (mode v = ModeReplicated \<or> mode v = ModeReplicatedMVCC) \<and> haveFrontier v \<or>
         mode v \<noteq> ModeReplicatedMVCC \<and> haveMaxAppliedMVCC v then Inl ErrModeMismatch
      else if highestFile v \<ge> nextFileNumber v then Inl ErrFileNumberCollision
      else Inr (v\<lparr>generation := generation v + 1\<rparr>))"

definition applyEdit :: "Version \<Rightarrow> VersionEdit \<Rightarrow> ManifestError + Version" where
  "applyEdit v e =
     bindR (validateEditShape e) (\<lambda>_.
     bindR (cloneVersion v) (\<lambda>v.
     if generation v = -1 then Inl ErrInvalidEdit
     else
     bindR (applyComparator e v) (\<lambda>v.
     bindR (applyMode e v) (\<lambda>v.
     bindR (applyNextFile e v) (\<lambda>v.
     bindR (applyLastSequence e v) (\<lambda>v.
     bindR (applyLevels e v) (\<lambda>v.
     bindR (applyFrontier e v) (\<lambda>v.
     bindR (applyReplicated e v) (\<lambda>v.
     bindR (applyMaxMVCC e v) (\<lambda>v.
     applyFinal v))))))))))"

lemmas apply_stages =
  applyComparator_def applyMode_def applyNextFile_def applyLastSequence_def applyFrontier_def
  applyReplicated_def applyMaxMVCC_def applyFinal_def

subsection \<open>Snapshots\<close>

definition snapshotRecord :: "Version \<Rightarrow> TableMetadata list \<Rightarrow> VersionEdit" where
  "snapshotRecord v added =
     \<lparr>edComparator = Some (comparator v),
      edNextFileNumber = Some (nextFileNumber v),
      edLastSequence = (if haveLastSequence v then Some (lastSequence v) else None),
      edReplayFrontier = (if haveFrontier v then Some (frontier v) else None),
      edStorageMode = (if mode v = ModeReplicated \<or> mode v = ModeReplicatedMVCC then Some (mode v) else None),
      edReplicatedAppliedThrough = (if haveReplicatedApplied v then Some (replicatedApplied v) else None),
      edMaxAppliedMVCC = (if haveMaxAppliedMVCC v then Some (maxAppliedMVCC v) else None),
      edDeletedFiles = [],
      edAddedFiles = added\<rparr>"

definition snapshotEdit :: "Version \<Rightarrow> ManifestError + VersionEdit" where
  "snapshotEdit v =
     bindR (cloneLevels (levels v)) (\<lambda>ls.
       let edit = snapshotRecord v (concat ls) in
       bindR (applyEdit initialVersion edit) (\<lambda>_. Inr edit))"

definition validateEquivalent :: "Version \<Rightarrow> Version \<Rightarrow> ManifestError + unit" where
  "validateEquivalent l r =
     (if comparator l \<noteq> comparator r \<or> nextFileNumber l \<noteq> nextFileNumber r \<or>
         haveLastSequence l \<noteq> haveLastSequence r \<or> lastSequence l \<noteq> lastSequence r \<or>
         haveFrontier l \<noteq> haveFrontier r \<or> frontier l \<noteq> frontier r \<or>
         mode l \<noteq> mode r \<or> haveReplicatedApplied l \<noteq> haveReplicatedApplied r \<or>
         replicatedApplied l \<noteq> replicatedApplied r \<or>
         haveMaxAppliedMVCC l \<noteq> haveMaxAppliedMVCC r \<or> maxAppliedMVCC l \<noteq> maxAppliedMVCC r
      then Inl ErrManifestCorrupt
      else if list_all (\<lambda>i. length (levels l ! i) = length (levels r ! i) \<and>
                list_all2 tableEqual (levels l ! i) (levels r ! i)) [0..<MaxLevels]
      then Inr () else Inl ErrManifestCorrupt)"

end
