(* ===== verification/Manifest_Invariant.thy ===== *)
theory Manifest_Invariant
  imports Manifest_Version
begin

text \<open>
  The invariant of the versions that edits lead to, and what the coverage loops of
  \<open>version.go\<close> decide.
\<close>

section \<open>The orders of the manifest\<close>

lemma compareNewest_le:
  "compareNewest a b \<le> 0 \<longleftrightarrow>
    largestSequence b < largestSequence a \<or> largestSequence a = largestSequence b \<and>
      (flushGeneration b < flushGeneration a \<or> flushGeneration a = flushGeneration b \<and>
        fileNumber b \<le> fileNumber a)"
  by (auto simp: compareNewest_def cmpUint64_def)

lemma compareSmallest_le:
  "compareSmallest a b \<le> 0 \<longleftrightarrow>
    smallestUser a < smallestUser b \<or> smallestUser a = smallestUser b \<and> fileNumber a \<le> fileNumber b"
  by (auto simp: compareSmallest_def compareBytes_eq)

lemma compareSpan_le:
  "compareSpan a b \<le> 0 \<longleftrightarrow>
    spanFirst a < spanFirst b \<or> spanFirst a = spanFirst b \<and> spanLast b \<le> spanLast a"
  by (auto simp: compareSpan_def cmpUint64_def)

interpretation newest: comparison compareNewest
  by unfold_locales (auto simp: compareNewest_le)

interpretation smallest: comparison compareSmallest
  by unfold_locales (auto simp: compareSmallest_le)

interpretation span: strict_comparison compareSpan
  by unfold_locales (auto simp: compareSpan_le intro: sequenceSpan.expand)

section \<open>Copies\<close>

definition kindsValid :: "TableMetadata \<Rightarrow> bool" where
  "kindsValid t \<longleftrightarrow> kindValid (kind (smallestInternal t)) \<and> kindValid (kind (largestInternal t))"

lemma decode_encode_key:
  "decodeInternalKey (encodeInternalKey k) = (if kindValid (kind k) then Inr k else Inl ErrInvalidValueKind)"
  by (simp add: decode_encode_internal_key)
     (simp add: decodeInternalKey_def encodeInternalKey_def internalKeyTrailerLen_def nth_append Let_def)

lemma cloneTable_eq:
  "cloneTable t = (if kindsValid t then Inr t else Inl (ManifestPanic ''STORAGE-62''))"
  by (simp add: cloneTable_def decode_encode_key kindsValid_def)

lemma cloneTables_eq:
  "cloneTables ts =
    (if \<forall>t\<in>set ts. kindsValid t then Inr ts else Inl (ManifestPanic ''STORAGE-62''))"
  by (induction ts) (auto simp: cloneTable_eq)

lemma cloneLevels_eq:
  "cloneLevels ls =
    (if \<forall>t\<in>set (concat ls). kindsValid t then Inr ls else Inl (ManifestPanic ''STORAGE-62''))"
  by (induction ls) (auto simp: cloneTables_eq)

lemma cloneVersion_eq:
  "cloneVersion v =
    (if \<forall>t\<in>set (liveTables v). kindsValid t then Inr v else Inl (ManifestPanic ''STORAGE-62''))"
  by (simp add: cloneVersion_def cloneLevels_eq liveTables_def)

section \<open>The invariant\<close>

definition tableOk :: "TableMetadata \<Rightarrow> bool" where
  "tableOk t \<longleftrightarrow> validateTable t = Inr () \<and> kindsValid t"

text \<open>Every table is valid and stands at its own level, once, under a file number of its own.\<close>

definition levelsOk :: "TableMetadata list list \<Rightarrow> bool" where
  "levelsOk ls \<longleftrightarrow>
     length ls = MaxLevels \<and>
     (\<forall>i<MaxLevels. distinct (ls ! i) \<and> (\<forall>t\<in>set (ls ! i). unat (tabLevel t) = i \<and> tableOk t)) \<and>
     inj_on fileNumber (set (concat ls))"

text \<open>Level 0 lists its tables from the newest to the oldest; the others are disjoint runs.\<close>

definition levelsSorted :: "TableMetadata list list \<Rightarrow> bool" where
  "levelsSorted ls \<longleftrightarrow>
     sorted_wrt (\<lambda>a b. compareNewest a b \<le> 0) (ls ! 0) \<and>
     (\<forall>i. 0 < i \<and> i < MaxLevels \<longrightarrow> sorted_wrt (\<lambda>a b. largestUser a < smallestUser b) (ls ! i))"

definition scalarsOk :: "Version \<Rightarrow> bool" where
  "scalarsOk v \<longleftrightarrow>
     knownMode (mode v) \<and>
     (comparator v = ComparatorName \<or> v = initialVersion) \<and>
     1 \<le> nextFileNumber v \<and> nextFileNumber v \<le> maxNextFileNumber \<and>
     (haveLastSequence v \<or> lastSequence v = 0) \<and>
     (if haveFrontier v then mode v = ModeStandalone \<and> haveLastSequence v \<and> frontier v \<le> lastSequence v
      else frontier v = 0) \<and>
     (if haveReplicatedApplied v then mode v \<noteq> ModeStandalone else replicatedApplied v = 0) \<and>
     (if haveMaxAppliedMVCC v
      then mode v = ModeReplicatedMVCC \<and> haveReplicatedApplied v \<and> maxAppliedMVCC v \<noteq> 0
      else maxAppliedMVCC v = 0)"

definition versionOk :: "Version \<Rightarrow> bool" where
  "versionOk v \<longleftrightarrow>
     levelsOk (levels v) \<and> levelsSorted (levels v) \<and> scalarsOk v \<and>
     (\<forall>t\<in>set (liveTables v). fileNumber t < nextFileNumber v)"

inductive versionReached :: "Version \<Rightarrow> bool" where
  initial: "versionReached initialVersion"
| edit: "versionReached v \<Longrightarrow> applyEdit v e = Inr w \<Longrightarrow> versionReached w"

section \<open>The stages of an edit\<close>

lemma levels_nth_live:
  "i < length ls \<Longrightarrow> t \<in> set (ls ! i) \<Longrightarrow> t \<in> set (concat ls)"
  by auto

lemma live_update:
  "j < length ls \<Longrightarrow> set (concat (ls[j := ys])) \<subseteq> set (concat ls) \<union> set ys"
  using set_update_subset_insert [of ls j ys] by auto

lemma levelsOk_shrink:
  assumes "levelsOk ls" and "set ys \<subseteq> set (ls ! j)" and "distinct ys"
  shows "levelsOk (ls[j := ys])" and "set (concat (ls[j := ys])) \<subseteq> set (concat ls)"
proof -
  show sub: "set (concat (ls[j := ys])) \<subseteq> set (concat ls)"
  proof (cases "j < length ls")
    case True
    then show ?thesis using live_update [OF True, of ys] levels_nth_live [OF True] assms(2) by blast
  qed (simp add: list_update_beyond)
  have "inj_on fileNumber (set (concat (ls[j := ys])))"
    using assms(1) sub unfolding levelsOk_def by (blast intro: inj_on_subset)
  then show "levelsOk (ls[j := ys])"
    using assms unfolding levelsOk_def
    by (cases "j < MaxLevels") (auto simp: nth_list_update list_update_beyond)
qed

lemma findFile_Some:
  "findFile ts n = Some i \<Longrightarrow> i < length ts \<and> fileNumber (ts ! i) = n"
  by (induction ts arbitrary: i) (auto split: if_splits)

lemma findFile_None: "findFile ts n = None \<longleftrightarrow> (\<forall>t\<in>set ts. fileNumber t \<noteq> n)"
  by (induction ts) auto

lemma hasFile_iff: "hasFile v n \<longleftrightarrow> (\<exists>t\<in>set (liveTables v). fileNumber t = n)"
  by (auto simp: hasFile_def list_ex_iff findFile_None liveTables_def)

lemma delete_at:
  "distinct xs \<Longrightarrow> set (take i xs @ drop (i + 1) xs) \<subseteq> set xs \<and> distinct (take i xs @ drop (i + 1) xs)"
  by (auto dest: in_set_takeD in_set_dropD simp: set_take_disj_set_drop_if_distinct)

lemma applyDeletions_ok:
  assumes "applyDeletions seen ds v = Inr (seen', w)" and "levelsOk (levels v)"
    and "\<forall>d\<in>set ds. unat (delLevel d) < MaxLevels"
  shows "\<exists>ls. w = v\<lparr>levels := ls\<rparr> \<and> levelsOk ls \<and> set (concat ls) \<subseteq> set (concat (levels v))"
  using assms
proof (induction seen ds v rule: applyDeletions.induct)
  case (1 seen v)
  then show ?case by (intro exI [of _ "levels v"]) simp
next
  case (2 seen d ds v)
  let ?l = "levels v ! unat (delLevel d)"
  obtain i where fresh: "delFileNumber d \<notin> seen" and i: "findFile ?l (delFileNumber d) = Some i"
    using "2.prems"(1) by (auto simp: Let_def split: if_splits option.splits)
  let ?ls = "(levels v)[unat (delLevel d) := take i ?l @ drop (i + 1) ?l]"
  have "distinct ?l" using "2.prems" by (auto simp: levelsOk_def)
  then have ok: "levelsOk ?ls" and sub: "set (concat ?ls) \<subseteq> set (concat (levels v))"
    using levelsOk_shrink [OF "2.prems"(2)] delete_at [of ?l i] by blast+
  have "applyDeletions (insert (delFileNumber d) seen) ds (v\<lparr>levels := ?ls\<rparr>) = Inr (seen', w)"
    using "2.prems"(1) fresh i by (simp add: Let_def)
  then obtain ls where "w = v\<lparr>levels := ?ls, levels := ls\<rparr>" "levelsOk ls"
      "set (concat ls) \<subseteq> set (concat ?ls)"
    using "2.IH" [OF fresh refl i] ok "2.prems"(3) by force
  then show ?case using sub by (intro exI [of _ ls]) auto
qed

lemma levelsOk_grow:
  assumes "levelsOk ls" and "tableOk t" and "unat (tabLevel t) = j" and "j < MaxLevels"
    and "\<forall>u\<in>set (concat ls). fileNumber u \<noteq> fileNumber t"
  shows "levelsOk (ls[j := ls ! j @ [t]])"
proof -
  have len: "j < length ls" using assms by (simp add: levelsOk_def)
  have new: "t \<notin> set (ls ! j)" using assms(5) levels_nth_live [OF len] by blast
  have live: "set (concat (ls[j := ls ! j @ [t]])) \<subseteq> insert t (set (concat ls))"
    using live_update [OF len, of "ls ! j @ [t]"] levels_nth_live [OF len] by auto
  have "inj_on fileNumber (insert t (set (concat ls)))"
    using assms(1,5) unfolding levelsOk_def by (simp add: inj_on_def) metis
  then have "inj_on fileNumber (set (concat (ls[j := ls ! j @ [t]])))"
    by (rule inj_on_subset [OF _ live])
  then show ?thesis
    using assms new unfolding levelsOk_def by (auto simp: nth_list_update)
qed

lemma applyAdditions_ok:
  assumes "applyAdditions seen ts v = Inr w" and "levelsOk (levels v)"
    and "\<forall>t\<in>set ts. validateTable t = Inr ()"
    and "\<forall>t\<in>set (liveTables v). fileNumber t < nextFileNumber v"
  shows "\<exists>ls. w = v\<lparr>levels := ls\<rparr> \<and> levelsOk ls \<and> (\<forall>t\<in>set (concat ls). fileNumber t < nextFileNumber v)"
  using assms
proof (induction seen ts v rule: applyAdditions.induct)
  case (1 seen v)
  then show ?case by (intro exI [of _ "levels v"]) (simp add: liveTables_def)
next
  case (2 seen t ts v)
  let ?j = "unat (tabLevel t)"
  let ?ls = "(levels v)[?j := levels v ! ?j @ [t]]"
  have g: "fileNumber t \<notin> seen" "\<not> hasFile v (fileNumber t)" "\<not> fileNumber t \<ge> nextFileNumber v"
    and kinds: "kindsValid t"
    and rest: "applyAdditions (insert (fileNumber t) seen) ts (v\<lparr>levels := ?ls\<rparr>) = Inr w"
    using "2.prems"(1) by (auto simp: cloneTable_eq split: if_splits)
  have valid: "validateTable t = Inr ()" using "2.prems"(3) by simp
  then have level: "?j < MaxLevels" by (auto simp: validateTable_def split: if_splits)
  have ok: "levelsOk ?ls"
    using "2.prems"(2) valid kinds level g(2)
    by (intro levelsOk_grow) (auto simp: tableOk_def hasFile_iff liveTables_def)
  have len: "?j < length (levels v)" using "2.prems"(2) level by (simp add: levelsOk_def)
  have "set (concat ?ls) \<subseteq> insert t (set (concat (levels v)))"
    using live_update [OF len, of "levels v ! ?j @ [t]"] levels_nth_live [OF len] by auto
  then have below: "\<forall>u\<in>set (concat ?ls). fileNumber u < nextFileNumber v"
    using "2.prems"(4) g(3) by (auto simp: liveTables_def)
  have "\<exists>ls. w = v\<lparr>levels := ?ls\<rparr>\<lparr>levels := ls\<rparr> \<and> levelsOk ls \<and>
      (\<forall>t\<in>set (concat ls). fileNumber t < nextFileNumber (v\<lparr>levels := ?ls\<rparr>))"
    using g kinds rest ok below "2.prems"(3)
    by (intro "2.IH") (auto simp: cloneTable_eq liveTables_def)
  then show ?case by auto
qed

lemma sortLevels_ok:
  "sortLevels n ls = Inr ms \<Longrightarrow>
    length ms = length ls \<and>
    (\<forall>i<length ls. ms ! i = sortLevel (n + i) (ls ! i) \<and> (0 < n + i \<longrightarrow> \<not> overlaps (ms ! i)))"
proof (induction n ls arbitrary: ms rule: sortLevels.induct)
  case (2 n l ls)
  then obtain rest where rest: "sortLevels (n + 1) ls = Inr rest" "ms = sortLevel n l # rest"
    and ov: "\<not> (0 < n \<and> overlaps (sortLevel n l))"
    by (auto simp: Let_def split: if_splits elim!: bindR_okE)
  have "length rest = length ls"
    and "\<And>i. i < length ls \<Longrightarrow> rest ! i = sortLevel (Suc (n + i)) (ls ! i)"
    and "\<And>i. i < length ls \<Longrightarrow> \<not> overlaps (sortLevel (Suc (n + i)) (ls ! i))"
    using "2.IH" [OF refl _ rest(1)] ov by auto
  then show ?case
    using rest(2) ov by (auto simp: nth_Cons split: nat.splits)
qed simp

lemma set_sortLevel [simp]: "set (sortLevel i ts) = set ts"
  by (simp add: sortLevel_def)

lemma distinct_sortLevel [simp]: "distinct (sortLevel i ts) = distinct ts"
  by (simp add: sortLevel_def)

lemma mset_sortLevel [simp]: "mset (sortLevel i ts) = mset ts"
  by (simp add: sortLevel_def)

lemma sortLevels_live:
  assumes "sortLevels n ls = Inr ms"
  shows "set (concat ms) = set (concat ls)"
proof -
  have "length ms = length ls" and "\<And>i. i < length ls \<Longrightarrow> set (ms ! i) = set (ls ! i)"
    using sortLevels_ok [OF assms] by auto
  then have "map set ms = map set ls" by (intro nth_equalityI) auto
  then show ?thesis by (metis set_concat set_map)
qed

lemma not_overlaps_sorted:
  "\<not> overlaps ts \<Longrightarrow> \<forall>t\<in>set ts. smallestUser t \<le> largestUser t \<Longrightarrow>
    sorted_wrt (\<lambda>a b. largestUser a < smallestUser b) ts"
proof (induction ts rule: overlaps.induct)
  case (1 a b ts)
  then have ab: "largestUser a < smallestUser b"
    and tail: "sorted_wrt (\<lambda>a b. largestUser a < smallestUser b) (b # ts)"
    by (auto split: if_splits)
  moreover have "smallestUser b \<le> largestUser b" using "1.prems" by simp
  ultimately have "largestUser a < smallestUser c" if "c \<in> set ts" for c
    using that by (auto intro: less_trans le_less_trans)
  then show ?case using ab tail by simp
qed auto

lemma tableOk_user: "tableOk t \<Longrightarrow> smallestUser t \<le> largestUser t"
  by (auto simp: tableOk_def validateTable_def split: if_splits)

lemma sortLevels_sorted:
  assumes "sortLevels 0 ls = Inr ms" and "levelsOk ls"
  shows "levelsOk ms \<and> levelsSorted ms"
proof
  have len: "length ms = MaxLevels"
    and nth: "\<And>i. i < MaxLevels \<Longrightarrow> ms ! i = sortLevel i (ls ! i)"
    and sep: "\<And>i. 0 < i \<Longrightarrow> i < MaxLevels \<Longrightarrow> \<not> overlaps (ms ! i)"
    using sortLevels_ok [OF assms(1)] assms(2) by (auto simp: levelsOk_def)
  show ok: "levelsOk ms"
    using assms(2) len nth sortLevels_live [OF assms(1)] unfolding levelsOk_def by simp
  have "sorted_wrt (\<lambda>a b. compareNewest a b \<le> 0) (ms ! 0)"
    using nth [of 0] newest.sortFunc_sorted by (simp add: MaxLevels_def sortLevel_def)
  moreover have "sorted_wrt (\<lambda>a b. largestUser a < smallestUser b) (ms ! i)" if "0 < i" "i < MaxLevels" for i
    using ok that sep [OF that] tableOk_user unfolding levelsOk_def
    by (intro not_overlaps_sorted) auto
  ultimately show "levelsSorted ms" by (simp add: levelsSorted_def)
qed

lemma checkDeleted_ok:
  "checkDeleted seen ds = Inr s \<Longrightarrow> (\<forall>d\<in>set ds. unat (delLevel d) < MaxLevels)"
  by (induction seen ds rule: checkDeleted.induct) (auto split: if_splits)

lemma checkAdded_ok: "checkAdded seen ts = Inr u \<Longrightarrow> \<forall>t\<in>set ts. validateTable t = Inr ()"
  by (induction seen ts rule: checkAdded.induct) (auto split: if_splits elim!: bindR_okE)

lemma validateEditShape_ok:
  assumes "validateEditShape e = Inr u"
  shows "\<forall>d\<in>set (edDeletedFiles e). unat (delLevel d) < MaxLevels"
    and "\<forall>t\<in>set (edAddedFiles e). validateTable t = Inr ()"
    and "edMaxAppliedMVCC e \<noteq> None \<longrightarrow> edReplicatedAppliedThrough e \<noteq> None"
proof -
  obtain s where del: "checkDeleted {} (edDeletedFiles e) = Inr s"
    and add: "checkAdded s (edAddedFiles e) = Inr ()"
    and mvcc: "\<not> (edMaxAppliedMVCC e \<noteq> None \<and> edReplicatedAppliedThrough e = None)"
    using assms unfolding validateEditShape_def
    by (simp split: if_split_asm) (elim bindR_okE, auto)
  show "\<forall>d\<in>set (edDeletedFiles e). unat (delLevel d) < MaxLevels" using checkDeleted_ok [OF del] .
  show "\<forall>t\<in>set (edAddedFiles e). validateTable t = Inr ()" using checkAdded_ok [OF add] .
  show "edMaxAppliedMVCC e \<noteq> None \<longrightarrow> edReplicatedAppliedThrough e \<noteq> None" using mvcc by auto
qed

lemma applyLevels_ok:
  assumes "applyLevels e v = Inr w" and "validateEditShape e = Inr u" and "levelsOk (levels v)"
    and "\<forall>t\<in>set (liveTables v). fileNumber t < nextFileNumber v"
  shows "\<exists>ls. w = v\<lparr>levels := ls\<rparr> \<and> levelsOk ls \<and> levelsSorted ls \<and>
    (\<forall>t\<in>set (concat ls). fileNumber t < nextFileNumber v)"
proof -
  obtain seen v1 v2 ls where steps: "applyDeletions {} (edDeletedFiles e) v = Inr (seen, v1)"
      "applyAdditions seen (edAddedFiles e) v1 = Inr v2" "sortLevels 0 (levels v2) = Inr ls"
    and w: "w = v2\<lparr>levels := ls\<rparr>"
    using assms(1) unfolding applyLevels_def by (auto elim!: bindR_okE)
  obtain l1 where l1: "v1 = v\<lparr>levels := l1\<rparr>" "levelsOk l1" "set (concat l1) \<subseteq> set (concat (levels v))"
    using applyDeletions_ok [OF steps(1) assms(3) validateEditShape_ok(1) [OF assms(2)]] by blast
  have "\<forall>t\<in>set (liveTables v1). fileNumber t < nextFileNumber v1"
    using l1 assms(4) by (auto simp: liveTables_def)
  then obtain l2 where l2: "v2 = v1\<lparr>levels := l2\<rparr>" "levelsOk l2"
      "\<forall>t\<in>set (concat l2). fileNumber t < nextFileNumber v1"
    using applyAdditions_ok [OF steps(2) _ validateEditShape_ok(2) [OF assms(2)]] l1 by auto
  have "sortLevels 0 l2 = Inr ls" using steps(3) l2(1) by simp
  then have "levelsOk ls \<and> levelsSorted ls" and "set (concat ls) = set (concat l2)"
    using sortLevels_sorted [OF _ l2(2)] sortLevels_live by blast+
  then show ?thesis using w l1(1) l2 by (intro exI [of _ ls]) auto
qed

text \<open>What a successful edit does to each part of the version.\<close>

lemma applyComparator_ok:
  "applyComparator e v = Inr w \<Longrightarrow> comparator v = ComparatorName \<or> comparator v = [] \<Longrightarrow>
    w = v\<lparr>comparator := ComparatorName\<rparr>"
  by (auto simp: applyComparator_def split: option.splits if_splits elim!: bindR_okE)

lemma applyMode_ok:
  "applyMode e v = Inr w \<Longrightarrow>
    w = v \<or> (\<exists>m. edStorageMode e = Some m \<and> knownMode m \<and> generation v = 0 \<and>
      w = v\<lparr>mode := m, modeExplicit := True\<rparr>)"
  by (auto simp: applyMode_def split: option.splits if_splits)

lemma applyNextFile_ok:
  "applyNextFile e v = Inr w \<Longrightarrow>
    w = v \<or> (\<exists>n. nextFileNumber v \<le> n \<and> n \<le> maxNextFileNumber \<and> w = v\<lparr>nextFileNumber := n\<rparr>)"
  by (auto simp: applyNextFile_def not_less split: option.splits if_splits)

lemma applyLastSequence_ok:
  "applyLastSequence e v = Inr w \<Longrightarrow>
    w = v \<or> (\<exists>n. (haveLastSequence v \<longrightarrow> lastSequence v \<le> n) \<and>
      w = v\<lparr>lastSequence := n, haveLastSequence := True\<rparr>)"
  by (auto simp: applyLastSequence_def not_less split: option.splits if_splits)

lemma applyFrontier_ok:
  "applyFrontier e v = Inr w \<Longrightarrow>
    w = v \<or> (\<exists>f. edReplayFrontier e = Some f \<and> mode v = ModeStandalone \<and> haveLastSequence v \<and>
      f \<le> lastSequence v \<and> (haveFrontier v \<longrightarrow> frontier v \<le> f) \<and> frontierCovered v f \<and>
      w = v\<lparr>frontier := f, haveFrontier := True\<rparr>)"
  by (auto simp: applyFrontier_def not_less split: option.splits if_splits)

lemma applyReplicated_ok:
  "applyReplicated e v = Inr w \<Longrightarrow>
    w = v \<and> edReplicatedAppliedThrough e = None \<or>
    (\<exists>n. (haveReplicatedApplied v \<longrightarrow> replicatedApplied v \<le> n) \<and>
      w = v\<lparr>replicatedApplied := n, haveReplicatedApplied := True\<rparr>)"
  by (auto simp: applyReplicated_def not_less split: option.splits if_splits)

lemma applyMaxMVCC_ok:
  "applyMaxMVCC e v = Inr w \<Longrightarrow>
    w = v \<or> (\<exists>n. edMaxAppliedMVCC e = Some n \<and> n \<noteq> 0 \<and> (haveMaxAppliedMVCC v \<longrightarrow> maxAppliedMVCC v \<le> n) \<and>
      w = v\<lparr>maxAppliedMVCC := n, haveMaxAppliedMVCC := True\<rparr>)"
  by (auto simp: applyMaxMVCC_def not_less split: option.splits if_splits)

lemma applyFinal_ok:
  "applyFinal v = Inr w \<Longrightarrow>
    w = v\<lparr>generation := generation v + 1\<rparr> \<and>
    \<not> (mode v = ModeStandalone \<and> haveReplicatedApplied v) \<and>
    \<not> ((mode v = ModeReplicated \<or> mode v = ModeReplicatedMVCC) \<and> haveFrontier v) \<and>
    \<not> (mode v \<noteq> ModeReplicatedMVCC \<and> haveMaxAppliedMVCC v)"
  by (auto simp: applyFinal_def split: if_splits)

lemma applyEdit_stages:
  assumes "applyEdit v e = Inr w"
  obtains v1 v2 v3 v4 v5 v6 v7 v8 where
    "validateEditShape e = Inr ()" "generation v \<noteq> -1"
    "applyComparator e v = Inr v1" "applyMode e v1 = Inr v2" "applyNextFile e v2 = Inr v3"
    "applyLastSequence e v3 = Inr v4" "applyLevels e v4 = Inr v5" "applyFrontier e v5 = Inr v6"
    "applyReplicated e v6 = Inr v7" "applyMaxMVCC e v7 = Inr v8" "applyFinal v8 = Inr w"
  using assms unfolding applyEdit_def cloneVersion_eq
  apply (elim bindR_okE)
  apply (simp split: if_split_asm)
  apply (elim bindR_okE)
  apply (rule that; simp)
  done

text \<open>The part of the scalar invariant that holds between the stages.\<close>

definition scalarsMid :: "VersionEdit \<Rightarrow> Version \<Rightarrow> bool" where
  "scalarsMid e v \<longleftrightarrow>
     knownMode (mode v) \<and> comparator v = ComparatorName \<and>
     1 \<le> nextFileNumber v \<and> nextFileNumber v \<le> maxNextFileNumber \<and>
     (haveLastSequence v \<or> lastSequence v = 0) \<and>
     (if haveFrontier v then haveLastSequence v \<and> frontier v \<le> lastSequence v else frontier v = 0) \<and>
     (haveReplicatedApplied v \<or> replicatedApplied v = 0) \<and>
     (if haveMaxAppliedMVCC v then haveReplicatedApplied v \<and> maxAppliedMVCC v \<noteq> 0
      else maxAppliedMVCC v = 0)"

lemma scalarsMid_start: "scalarsOk v \<Longrightarrow> scalarsMid e (v\<lparr>comparator := ComparatorName\<rparr>)"
  by (simp add: scalarsOk_def scalarsMid_def split: if_splits)

lemma scalarsMid_mode: "scalarsMid e v \<Longrightarrow> applyMode e v = Inr w \<Longrightarrow> scalarsMid e w"
  by (drule applyMode_ok) (elim disjE exE conjE; simp add: scalarsMid_def)

lemma scalarsMid_nextFile: "scalarsMid e v \<Longrightarrow> applyNextFile e v = Inr w \<Longrightarrow> scalarsMid e w"
  by (drule applyNextFile_ok) (elim disjE exE conjE; simp add: scalarsMid_def; meson order_trans)

lemma scalarsMid_lastSequence:
  "scalarsMid e v \<Longrightarrow> applyLastSequence e v = Inr w \<Longrightarrow> scalarsMid e w"
  by (drule applyLastSequence_ok)
     (elim disjE exE conjE; simp add: scalarsMid_def split: if_splits; meson order_trans)

lemma scalarsMid_levels: "scalarsMid e v \<Longrightarrow> scalarsMid e (v\<lparr>levels := ls\<rparr>)"
  by (simp add: scalarsMid_def)

lemma scalarsMid_frontier: "scalarsMid e v \<Longrightarrow> applyFrontier e v = Inr w \<Longrightarrow> scalarsMid e w"
  by (drule applyFrontier_ok) (elim disjE exE conjE; simp add: scalarsMid_def)

lemma scalarsMid_replicated: "scalarsMid e v \<Longrightarrow> applyReplicated e v = Inr w \<Longrightarrow> scalarsMid e w"
  by (drule applyReplicated_ok) (elim disjE exE conjE; simp add: scalarsMid_def split: if_splits)

lemma scalarsMid_final:
  assumes "scalarsMid e v" and "applyMaxMVCC e v = Inr u" and "applyFinal u = Inr w"
    and "edMaxAppliedMVCC e \<noteq> None \<longrightarrow> haveReplicatedApplied v"
  shows "scalarsOk w"
proof -
  have u: "scalarsMid e u"
    using applyMaxMVCC_ok [OF assms(2)] assms(1,4)
    by (elim disjE exE conjE) (simp_all add: scalarsMid_def)
  note final = applyFinal_ok [OF assms(3)]
  have w: "w = u\<lparr>generation := generation u + 1\<rparr>" using final by blast
  have "mode u = ModeStandalone" if "haveFrontier u"
    using u final that unfolding scalarsMid_def knownMode_def by blast
  moreover have "mode u \<noteq> ModeStandalone" if "haveReplicatedApplied u" using final that by blast
  moreover have "mode u = ModeReplicatedMVCC" if "haveMaxAppliedMVCC u" using final that by blast
  ultimately show ?thesis using u unfolding w scalarsMid_def scalarsOk_def
    by (cases "haveFrontier u"; cases "haveReplicatedApplied u"; cases "haveMaxAppliedMVCC u")
       (simp_all add: mode_defs)
qed

lemma applyEdit_scalars:
  assumes "applyEdit v e = Inr w" and "scalarsOk v" and "levelsOk (levels v)"
    and "\<forall>t\<in>set (liveTables v). fileNumber t < nextFileNumber v"
  shows "scalarsOk w \<and> levelsOk (levels w) \<and> levelsSorted (levels w) \<and>
    (\<forall>t\<in>set (liveTables w). fileNumber t < nextFileNumber w)"
proof -
  obtain v1 v2 v3 v4 v5 v6 v7 v8 where
    shape: "validateEditShape e = Inr ()" and
    s: "applyComparator e v = Inr v1" "applyMode e v1 = Inr v2" "applyNextFile e v2 = Inr v3"
      "applyLastSequence e v3 = Inr v4" "applyLevels e v4 = Inr v5" "applyFrontier e v5 = Inr v6"
      "applyReplicated e v6 = Inr v7" "applyMaxMVCC e v7 = Inr v8" "applyFinal v8 = Inr w"
    using assms(1) by (rule applyEdit_stages)
  have v1: "v1 = v\<lparr>comparator := ComparatorName\<rparr>"
    using assms(2) applyComparator_ok [OF s(1)] by (auto simp: scalarsOk_def initialVersion_def)
  have "levels v4 = levels v \<and> nextFileNumber v \<le> nextFileNumber v4"
    using v1 applyMode_ok [OF s(2)] applyNextFile_ok [OF s(3)] applyLastSequence_ok [OF s(4)]
    by (elim disjE exE conjE) simp_all
  then have "levelsOk (levels v4)" and "\<forall>t\<in>set (liveTables v4). fileNumber t < nextFileNumber v4"
    using assms(3,4) by (auto simp: liveTables_def intro: less_le_trans)
  then obtain ls where ls: "v5 = v4\<lparr>levels := ls\<rparr>" "levelsOk ls" "levelsSorted ls"
      "\<forall>t\<in>set (concat ls). fileNumber t < nextFileNumber v4"
    using applyLevels_ok [OF s(5) shape] by blast
  have m5: "scalarsMid e v5"
    unfolding ls(1) using s(2-4) assms(2) v1 scalarsMid_start scalarsMid_mode scalarsMid_nextFile
      scalarsMid_lastSequence scalarsMid_levels by blast
  then have m7: "scalarsMid e v7"
    using s(6,7) scalarsMid_frontier scalarsMid_replicated by blast
  have "edMaxAppliedMVCC e \<noteq> None \<longrightarrow> haveReplicatedApplied v7"
    using validateEditShape_ok(3) [OF shape] applyReplicated_ok [OF s(7)] by auto
  then have "scalarsOk w" using scalarsMid_final [OF m7 s(8,9)] by blast
  moreover have "levels w = ls \<and> nextFileNumber w = nextFileNumber v4"
    using ls(1) applyFrontier_ok [OF s(6)] applyReplicated_ok [OF s(7)] applyMaxMVCC_ok [OF s(8)]
      applyFinal_ok [OF s(9)]
    by (elim disjE exE conjE) simp_all
  ultimately show ?thesis using ls by (simp add: liveTables_def)
qed

lemma versionOk_initial: "versionOk initialVersion"
  by (simp add: versionOk_def levelsOk_def levelsSorted_def scalarsOk_def initialVersion_def
      liveTables_def MaxLevels_def knownMode_def maxNextFileNumber_def)

lemma versionOk_reached: "versionReached v \<Longrightarrow> versionOk v"
proof (induction rule: versionReached.induct)
  case initial
  show ?case by (rule versionOk_initial)
next
  case (edit v e w)
  then show ?case using applyEdit_scalars [OF edit.hyps(2)] by (auto simp: versionOk_def)
qed

section \<open>What an edit keeps\<close>

lemma applyDeletions_frame: "applyDeletions seen ds v = Inr (s, w) \<Longrightarrow> \<exists>ls. w = v\<lparr>levels := ls\<rparr>"
proof (induction seen ds v rule: applyDeletions.induct)
  case (1 seen v)
  then show ?case by (intro exI [of _ "levels v"]) simp
qed (fastforce simp: Let_def split: if_splits option.splits)

lemma applyAdditions_frame: "applyAdditions seen ts v = Inr w \<Longrightarrow> \<exists>ls. w = v\<lparr>levels := ls\<rparr>"
proof (induction seen ts v rule: applyAdditions.induct)
  case (1 seen v)
  then show ?case by (intro exI [of _ "levels v"]) simp
qed (fastforce simp: cloneTable_eq split: if_splits)

text \<open>
  The watermarks of a version never move back, a mode chosen once is kept, and the
  generation counts the edits.
\<close>

definition versionLe :: "Version \<Rightarrow> Version \<Rightarrow> bool" where
  "versionLe v w \<longleftrightarrow>
     generation v < generation w \<and>
     (generation v \<noteq> 0 \<longrightarrow> mode w = mode v \<and> modeExplicit w = modeExplicit v) \<and>
     nextFileNumber v \<le> nextFileNumber w \<and>
     (haveLastSequence v \<longrightarrow> haveLastSequence w \<and> lastSequence v \<le> lastSequence w) \<and>
     (haveFrontier v \<longrightarrow> haveFrontier w \<and> frontier v \<le> frontier w) \<and>
     (haveReplicatedApplied v \<longrightarrow> haveReplicatedApplied w \<and> replicatedApplied v \<le> replicatedApplied w) \<and>
     (haveMaxAppliedMVCC v \<longrightarrow> haveMaxAppliedMVCC w \<and> maxAppliedMVCC v \<le> maxAppliedMVCC w)"

lemma applyEdit_le:
  assumes "applyEdit v e = Inr w" and "comparator v = ComparatorName \<or> comparator v = []"
  shows "versionLe v w"
proof -
  obtain v1 v2 v3 v4 v5 v6 v7 v8 where
    gen: "generation v \<noteq> -1" and
    s: "applyComparator e v = Inr v1" "applyMode e v1 = Inr v2" "applyNextFile e v2 = Inr v3"
      "applyLastSequence e v3 = Inr v4" "applyLevels e v4 = Inr v5" "applyFrontier e v5 = Inr v6"
      "applyReplicated e v6 = Inr v7" "applyMaxMVCC e v7 = Inr v8" "applyFinal v8 = Inr w"
    using assms(1) by (rule applyEdit_stages)
  have v1: "v1 = v\<lparr>comparator := ComparatorName\<rparr>" using applyComparator_ok [OF s(1) assms(2)] .
  obtain ls where v5: "v5 = v4\<lparr>levels := ls\<rparr>"
    using s(5) by (fastforce simp: applyLevels_def dest!: applyDeletions_frame applyAdditions_frame elim!: bindR_okE)
  show ?thesis
    using v1 v5 less_inc [OF gen] applyMode_ok [OF s(2)] applyNextFile_ok [OF s(3)]
      applyLastSequence_ok [OF s(4)] applyFrontier_ok [OF s(6)] applyReplicated_ok [OF s(7)]
      applyMaxMVCC_ok [OF s(8)] applyFinal_ok [OF s(9)]
    unfolding versionLe_def by (elim disjE exE conjE) simp_all
qed

section \<open>Coverage of sequences\<close>

definition spanCovers :: "sequenceSpan list \<Rightarrow> u64 \<Rightarrow> bool" where
  "spanCovers ss q \<longleftrightarrow> (\<exists>s\<in>set ss. spanFirst s \<le> q \<and> q \<le> spanLast s)"

lemma spanCovers_Cons [simp]:
  "spanCovers (s # ss) q \<longleftrightarrow> spanFirst s \<le> q \<and> q \<le> spanLast s \<or> spanCovers ss q"
  by (auto simp: spanCovers_def)

lemma spanCovers_none:
  "sorted_wrt (\<lambda>a b. compareSpan a b \<le> 0) (s # ss) \<Longrightarrow> q < spanFirst s \<Longrightarrow> \<not> spanCovers (s # ss) q"
  by (auto simp: spanCovers_def compareSpan_le)

lemma coverLoop_iff:
  "sorted_wrt (\<lambda>a b. compareSpan a b \<le> 0) ss \<Longrightarrow> cursor \<le> target \<Longrightarrow>
    coverLoop target cursor ss \<longleftrightarrow> (\<forall>q. cursor \<le> q \<and> q \<le> target \<longrightarrow> spanCovers ss q)"
proof (induction ss arbitrary: cursor)
  case Nil
  then show ?case by (auto simp: spanCovers_def)
next
  case (Cons s ss)
  consider "cursor < spanFirst s" | "\<not> cursor < spanFirst s" "spanLast s < cursor"
    | "\<not> cursor < spanFirst s" "\<not> spanLast s < cursor" "target \<le> spanLast s"
    | "\<not> cursor < spanFirst s" "\<not> spanLast s < cursor" "spanLast s < target"
    by fastforce
  then show ?case
  proof cases
    case 1
    then show ?thesis using spanCovers_none [OF Cons.prems(1) 1] Cons.prems(2) by auto
  next
    case 2
    then have "spanCovers (s # ss) q \<longleftrightarrow> spanCovers ss q" if "cursor \<le> q" for q
      using that by auto
    then show ?thesis using 2 Cons by auto
  next
    case 3
    then show ?thesis by auto
  next
    case 4
    then have max: "spanLast s \<noteq> -1" using word_order.extremum_strict by force
    have "cursor \<le> q \<and> q \<le> target \<longrightarrow> spanCovers (s # ss) q \<longleftrightarrow>
        (spanLast s + 1 \<le> q \<and> q \<le> target \<longrightarrow> spanCovers ss q)" for q
      using 4 by (auto simp: inc_le_iff [OF max])
    then have "(\<forall>q. cursor \<le> q \<and> q \<le> target \<longrightarrow> spanCovers (s # ss) q) \<longleftrightarrow>
        (\<forall>q. spanLast s + 1 \<le> q \<and> q \<le> target \<longrightarrow> spanCovers ss q)"
      using 4 by (auto simp: inc_le_iff [OF max])
    moreover have "spanLast s + 1 \<le> target" using 4 by (simp add: inc_le_iff [OF max])
    ultimately show ?thesis using 4 Cons by auto
  qed
qed

text \<open>Whether some live table holds a sequence in its span.\<close>

definition sequenceCovered :: "Version \<Rightarrow> u64 \<Rightarrow> bool" where
  "sequenceCovered v q \<longleftrightarrow> list_ex (\<lambda>t. smallestSequence t \<le> q \<and> q \<le> largestSequence t) (liveTables v)"

definition frontierStart :: "Version \<Rightarrow> u64" where
  "frontierStart v = (if haveFrontier v then frontier v + 1 else 0)"

lemma spanCovers_filter:
  "(\<And>t. smallestSequence t \<le> q \<Longrightarrow> q \<le> largestSequence t \<Longrightarrow> P t) \<Longrightarrow>
    spanCovers (sortFunc compareSpan (map tableSpan (filter P (liveTables v)))) q = sequenceCovered v q"
  by (auto simp: spanCovers_def sequenceCovered_def tableSpan_def list_ex_iff)

lemma frontierCovered_iff:
  assumes "\<not> (haveFrontier v \<and> target \<le> frontier v)"
  shows "frontierCovered v target \<longleftrightarrow>
    (\<forall>q. frontierStart v \<le> q \<and> q \<le> target \<longrightarrow> sequenceCovered v q)"
proof -
  let ?spans = "sortFunc compareSpan (map tableSpan (filter
    (\<lambda>t. largestSequence t \<ge> frontierStart v \<and> smallestSequence t \<le> target) (liveTables v)))"
  have max: "\<not> (haveFrontier v \<and> frontier v = -1)" using assms by auto
  then have start: "frontierStart v \<le> target"
    using assms inc_le_iff [of "frontier v" target] by (auto simp: frontierStart_def)
  have "frontierCovered v target = coverLoop target (frontierStart v) ?spans"
    using assms max by (auto simp: frontierCovered_def frontierStart_def Let_def)
  also have "\<dots> \<longleftrightarrow> (\<forall>q. frontierStart v \<le> q \<and> q \<le> target \<longrightarrow> spanCovers ?spans q)"
    by (rule coverLoop_iff [OF span.sortFunc_sorted start])
  also have "\<dots> \<longleftrightarrow> (\<forall>q. frontierStart v \<le> q \<and> q \<le> target \<longrightarrow> sequenceCovered v q)"
  proof -
    have "spanCovers ?spans q = sequenceCovered v q" if "frontierStart v \<le> q" "q \<le> target" for q
      using that by (intro spanCovers_filter) (blast intro: order_trans)
    then show ?thesis by blast
  qed
  finally show ?thesis .
qed

lemma contiguousLoop_spec:
  assumes "sorted_wrt (\<lambda>a b. compareSpan a b \<le> 0) ss"
  shows "case contiguousLoop cursor adv ss of
      None \<Rightarrow> \<forall>q\<ge>cursor. spanCovers ss q
    | Some (c, a) \<Rightarrow> cursor \<le> c \<and> (\<forall>q. cursor \<le> q \<and> q < c \<longrightarrow> spanCovers ss q) \<and> \<not> spanCovers ss c \<and>
        (a \<longleftrightarrow> adv \<or> cursor < c)"
  using assms
proof (induction cursor adv ss rule: contiguousLoop.induct)
  case (1 cursor adv)
  then show ?case by (auto simp: spanCovers_def)
next
  case (2 cursor adv s ss)
  have tail: "sorted_wrt (\<lambda>a b. compareSpan a b \<le> 0) ss" using "2.prems" by simp
  consider "cursor < spanFirst s" | "\<not> cursor < spanFirst s" "spanLast s < cursor"
    | "\<not> cursor < spanFirst s" "\<not> spanLast s < cursor" "spanLast s = -1"
    | "\<not> cursor < spanFirst s" "\<not> spanLast s < cursor" "spanLast s \<noteq> -1"
    by fastforce
  then show ?case
  proof cases
    case 1
    then show ?thesis using spanCovers_none [OF "2.prems" 1] by auto
  next
    case 2
    then show ?thesis
      using "2.IH"(1) [OF _ _ tail] by (fastforce split: option.splits)
  next
    case 3
    then show ?thesis by auto
  next
    case 4
    have "cursor < spanLast s + 1" using 4 by (simp add: less_inc_iff)
    then show ?thesis
      using 4 "2.IH"(2) [OF _ _ _ tail]
      by (auto simp: inc_le_iff not_less split: option.splits) (meson leI inc_le_iff less_le_trans not_less order_trans)+
  qed
qed

text \<open>The three ways the search for the greatest frontier ends.\<close>

lemma maximumContiguousFrontier_cases:
  assumes "maximumContiguousFrontier v = (f, ok)" and "\<not> (haveFrontier v \<and> frontier v = -1)"
  obtains (all) "f = -1" "ok" "\<And>q. frontierStart v \<le> q \<Longrightarrow> sequenceCovered v q"
    | (gap) c where "frontierStart v < c" "f = c - 1" "ok" "\<not> sequenceCovered v c"
        "\<And>q. frontierStart v \<le> q \<Longrightarrow> q < c \<Longrightarrow> sequenceCovered v q"
    | (none) "f = frontier v" "ok = haveFrontier v" "\<not> sequenceCovered v (frontierStart v)"
proof -
  let ?ts = "map tableSpan (filter (\<lambda>t. largestSequence t \<ge> frontierStart v) (liveTables v))"
  let ?r = "contiguousLoop (frontierStart v) False (sortFunc compareSpan ?ts)"
  have covers: "spanCovers (sortFunc compareSpan ?ts) q = sequenceCovered v q" if "frontierStart v \<le> q" for q
    using that by (intro spanCovers_filter) (blast intro: order_trans)
  note loop = contiguousLoop_spec [OF span.sortFunc_sorted [of ?ts], of "frontierStart v" False]
  have res: "(f, ok) = (case ?r of None \<Rightarrow> (-1, True)
    | Some (cursor, advanced) \<Rightarrow>
        if \<not> advanced then (frontier v, haveFrontier v) else (cursor - 1, True))"
    using assms by (auto simp: maximumContiguousFrontier_def frontierStart_def Let_def)
  show thesis
  proof (cases ?r)
    case None
    then show thesis using all loop covers res by auto
  next
    case (Some ca)
    obtain c a where ca: "ca = (c, a)" by force
    have le: "frontierStart v \<le> c" and nc: "\<not> sequenceCovered v c" and a: "a \<longleftrightarrow> frontierStart v < c"
      and below: "\<And>q. frontierStart v \<le> q \<Longrightarrow> q < c \<Longrightarrow> sequenceCovered v q"
      using loop covers Some ca by auto
    show thesis
    proof (cases a)
      case True
      then have "f = c - 1" "ok" using res Some ca by auto
      then show thesis using gap [of c] True nc a below by blast
    next
      case False
      then have "f = frontier v" "ok = haveFrontier v" "c = frontierStart v" using res Some ca le a by auto
      then show thesis using none nc by blast
    qed
  qed
qed

lemma past_start:
  "\<not> (haveFrontier v \<and> frontier v = -1) \<Longrightarrow> frontierStart v \<le> g \<longleftrightarrow> \<not> (haveFrontier v \<and> g \<le> frontier v)"
  using inc_le_iff [of "frontier v" g] by (auto simp: frontierStart_def)

lemma frontier_stuck:
  assumes "\<not> (haveFrontier v \<and> frontier v = -1)" and "frontierStart v \<le> c" and "c \<le> g"
    and "\<not> sequenceCovered v c"
  shows "\<not> frontierCovered v g"
proof -
  have "frontierStart v \<le> g" using assms(2,3) by (rule order_trans)
  then show ?thesis using assms frontierCovered_iff [of v g] past_start by blast
qed

lemma maximumContiguousFrontier_spec:
  assumes "maximumContiguousFrontier v = (f, ok)"
  shows "if ok then (haveFrontier v \<longrightarrow> frontier v \<le> f) \<and> frontierCovered v f \<and> (\<forall>g>f. \<not> frontierCovered v g)
    else \<forall>g. \<not> frontierCovered v g"
proof (cases "haveFrontier v \<and> frontier v = -1")
  case True
  then show ?thesis
    using assms word_order.extremum_strict by (auto simp: maximumContiguousFrontier_def frontierCovered_def)
next
  case False
  note start = past_start [OF False]
  from assms False show ?thesis
  proof (cases rule: maximumContiguousFrontier_cases)
    case all
    then have "frontierCovered v (-1)"
      using False frontierCovered_iff [of v "-1"] word_order.extremum_unique by auto
    then show ?thesis using all by auto
  next
    case (gap c)
    have pos: "f \<noteq> -1" and c: "c = f + 1" using gap(1,2) by (auto simp: eq_diff_eq)
    have le: "frontierStart v \<le> f" using gap(1) less_inc_iff [OF pos] c by simp
    then have "frontierCovered v f"
      using frontierCovered_iff [of v f] gap(5) less_inc_iff [OF pos] c start by blast
    moreover have "\<not> frontierCovered v g" if "f < g" for g
      using frontier_stuck [OF False _ _ gap(4), of g] that inc_le_iff [OF pos] gap(1) c by auto
    ultimately show ?thesis using gap(3) le start [of f] by auto
  next
    case none
    have no: "\<not> frontierCovered v g" if "frontierStart v \<le> g" for g
      using frontier_stuck [OF False _ that none(3)] by simp
    show ?thesis
    proof (cases "haveFrontier v")
      case True
      then have "frontierCovered v f" by (simp add: frontierCovered_def none)
      then show ?thesis using True none no start by auto
    next
      case False
      then show ?thesis using none no by (simp add: frontierStart_def)
    qed
  qed
qed

end
