(* ===== verification/Manifest_Codec.thy ===== *)
theory Manifest_Codec
  imports Manifest_Invariant
begin

text \<open>
  The binary form of an edit (\<open>internal/storage/manifest/edit.go\<close>): a header, then fields of
  a tag, a length and a payload. Scalars stand at most once, file changes any number of times
  in a fixed order; a field with the high bit of its tag set may be skipped by a reader that
  does not know it.
\<close>

section \<open>Tables\<close>

definition MaxEditSize :: nat where "MaxEditSize = 16 * 2 ^ 20"
definition editHeaderSize :: nat where "editHeaderSize = 8"
definition fieldHeaderSize :: nat where "fieldHeaderSize = 5"
definition editMagic :: u32 where "editMagic = 0x44455652"
definition EditVersion :: u16 where "EditVersion = 1"
definition MaxInternalKeySize :: nat where "MaxInternalKeySize = 2 ^ 20 + 9"

definition fieldComparator :: byte where "fieldComparator = 1"
definition fieldNextFile :: byte where "fieldNextFile = 2"
definition fieldLastSequence :: byte where "fieldLastSequence = 3"
definition fieldReplayFrontier :: byte where "fieldReplayFrontier = 4"
definition fieldDeleteFile :: byte where "fieldDeleteFile = 5"
definition fieldAddFile :: byte where "fieldAddFile = 6"
definition fieldStorageMode :: byte where "fieldStorageMode = 7"
definition fieldReplicatedFrontier :: byte where "fieldReplicatedFrontier = 8"
definition fieldMaxAppliedMVCC :: byte where "fieldMaxAppliedMVCC = 0x81"

lemmas field_defs =
  fieldComparator_def fieldNextFile_def fieldLastSequence_def fieldReplayFrontier_def
  fieldDeleteFile_def fieldAddFile_def fieldStorageMode_def fieldReplicatedFrontier_def
  fieldMaxAppliedMVCC_def

fun encodeParts :: "bytes list \<Rightarrow> ManifestError + bytes" where
  "encodeParts [] = Inr []"
| "encodeParts (p # ps) =
     (if length p > 2 ^ 32 - 1 then Inl ErrInvalidEdit
      else bindR (encodeParts ps) (\<lambda>rest. Inr (le_put 4 (word_of_nat (length p) :: u32) @ p @ rest)))"

definition tableFixed :: "TableMetadata \<Rightarrow> bytes" where
  "tableFixed t =
     le_put 4 (tabLevel t) @
     concat (map (le_put 8) [fileNumber t, flushGeneration t, fileSize t, entryCount t,
       deletionCount t, rawKeyValueBytes t]) @
     le_put 4 (dataBlockCount t) @ le_put 8 (smallestSequence t) @ le_put 8 (largestSequence t)"

definition encodeTable :: "TableMetadata \<Rightarrow> ManifestError + bytes" where
  "encodeTable t =
     bindR (validateTable t) (\<lambda>_.
     bindR (encodeParts [encodeInternalKey (smallestInternal t), encodeInternalKey (largestInternal t),
              smallestUser t, largestUser t]) (\<lambda>parts.
     Inr (tableFixed t @ parts)))"

primrec decodeParts :: "nat \<Rightarrow> bytes \<Rightarrow> ManifestError + (bytes list \<times> bytes)" where
  "decodeParts 0 rest = Inr ([], rest)"
| "decodeParts (Suc n) rest =
     (if length rest < 4 then Inl ErrInvalidEdit
      else let len = unat (le_get (take 4 rest) :: u32) in
        if len > length rest - 4 then Inl ErrInvalidEdit
        else bindR (decodeParts n (drop (4 + len) rest)) (\<lambda>(ps, rest').
          Inr (slice 4 (4 + len) rest # ps, rest')))"

definition tableOf :: "bytes \<Rightarrow> InternalKey \<Rightarrow> InternalKey \<Rightarrow> bytes \<Rightarrow> bytes \<Rightarrow> TableMetadata" where
  "tableOf payload si li su lu =
     \<lparr>tabLevel = le_get (slice 0 4 payload),
      fileNumber = le_get (slice 4 12 payload), flushGeneration = le_get (slice 12 20 payload),
      fileSize = le_get (slice 20 28 payload), entryCount = le_get (slice 28 36 payload),
      deletionCount = le_get (slice 36 44 payload), rawKeyValueBytes = le_get (slice 44 52 payload),
      dataBlockCount = le_get (slice 52 56 payload),
      smallestSequence = le_get (slice 56 64 payload), largestSequence = le_get (slice 64 72 payload),
      smallestInternal = si, largestInternal = li, smallestUser = su, largestUser = lu\<rparr>"

definition decodeTable :: "bytes \<Rightarrow> ManifestError + TableMetadata" where
  "decodeTable payload =
     (if length payload < 72 + 4 * 4 then Inl ErrInvalidEdit
      else bindR (decodeParts 4 (drop 72 payload)) (\<lambda>(parts, rest).
        if rest \<noteq> [] then Inl ErrInvalidEdit
        else if length (parts ! 0) > MaxInternalKeySize \<or> length (parts ! 1) > MaxInternalKeySize \<or>
           length (parts ! 2) > MaxTableUserKey \<or> length (parts ! 3) > MaxTableUserKey
        then Inl ErrInvalidEdit
        else case decodeInternalKey (parts ! 0) of
          Inl e \<Rightarrow> Inl (ManifestKey e)
        | Inr si \<Rightarrow>
            (case decodeInternalKey (parts ! 1) of
               Inl e \<Rightarrow> Inl (ManifestKey e)
             | Inr li \<Rightarrow>
                 let table = tableOf payload si li (parts ! 2) (parts ! 3) in
                 bindR (validateTable table) (\<lambda>_. Inr table))))"

section \<open>Edits\<close>

definition compareDeleted :: "DeletedFile \<Rightarrow> DeletedFile \<Rightarrow> int" where
  "compareDeleted left right =
     (if delLevel left \<noteq> delLevel right then int (unat (delLevel left)) - int (unat (delLevel right))
      else cmpUint64 (delFileNumber left) (delFileNumber right))"

definition compareTableIdentity :: "TableMetadata \<Rightarrow> TableMetadata \<Rightarrow> int" where
  "compareTableIdentity left right =
     (if tabLevel left \<noteq> tabLevel right then int (unat (tabLevel left)) - int (unat (tabLevel right))
      else cmpUint64 (fileNumber left) (fileNumber right))"

type_synonym encodedField = "byte \<times> bytes"

definition scalarFields :: "VersionEdit \<Rightarrow> encodedField list" where
  "scalarFields e =
     (case edComparator e of None \<Rightarrow> [] | Some c \<Rightarrow> [(fieldComparator, c)]) @
     (case edNextFileNumber e of None \<Rightarrow> [] | Some n \<Rightarrow> [(fieldNextFile, le_put 8 n)]) @
     (case edLastSequence e of None \<Rightarrow> [] | Some n \<Rightarrow> [(fieldLastSequence, le_put 8 n)]) @
     (case edReplayFrontier e of None \<Rightarrow> [] | Some n \<Rightarrow> [(fieldReplayFrontier, le_put 8 n)]) @
     (case edStorageMode e of None \<Rightarrow> [] | Some m \<Rightarrow> [(fieldStorageMode, [m])]) @
     (case edReplicatedAppliedThrough e of None \<Rightarrow> [] | Some n \<Rightarrow> [(fieldReplicatedFrontier, le_put 8 n)]) @
     (case edMaxAppliedMVCC e of None \<Rightarrow> [] | Some n \<Rightarrow> [(fieldMaxAppliedMVCC, le_put 8 n)])"

definition deletedField :: "DeletedFile \<Rightarrow> encodedField" where
  "deletedField d = (fieldDeleteFile, le_put 4 (delLevel d) @ le_put 8 (delFileNumber d))"

fun addedFields :: "TableMetadata list \<Rightarrow> ManifestError + encodedField list" where
  "addedFields [] = Inr []"
| "addedFields (t # ts) =
     bindR (encodeTable t) (\<lambda>payload. bindR (addedFields ts) (\<lambda>fs. Inr ((fieldAddFile, payload) # fs)))"

definition fieldBytes :: "encodedField \<Rightarrow> bytes" where
  "fieldBytes f = fst f # le_put 4 (word_of_nat (length (snd f)) :: u32) @ snd f"

fun appendFields :: "bytes \<Rightarrow> encodedField list \<Rightarrow> ManifestError + bytes" where
  "appendFields result [] = Inr result"
| "appendFields result (f # fs) =
     (if length (snd f) > 2 ^ 32 - 1 \<or> length result + fieldHeaderSize + length (snd f) > MaxEditSize
      then Inl ErrInvalidEdit
      else appendFields (result @ fieldBytes f) fs)"

definition EncodeVersionEdit :: "VersionEdit \<Rightarrow> ManifestError + bytes" where
  "EncodeVersionEdit e =
     bindR (validateEditShape e) (\<lambda>_.
     bindR (cloneTables (edAddedFiles e)) (\<lambda>additions.
     bindR (addedFields (sortFunc compareTableIdentity additions)) (\<lambda>added.
     let fields = scalarFields e @ map deletedField (sortFunc compareDeleted (edDeletedFiles e)) @ added in
     if length fields > 2 ^ 16 - 1 then Inl ErrInvalidEdit
     else appendFields (le_put 4 editMagic @ le_put 2 EditVersion @
            le_put 2 (word_of_nat (length fields) :: u16)) fields)))"

text \<open>The locals of the decoding loop: the edit so far, the scalar tags and the files seen.\<close>

record DecodeState =
  dsEdit :: VersionEdit
  dsScalars :: "byte set"
  dsFiles :: "u64 set"

definition emptyEdit :: VersionEdit where
  "emptyEdit =
     \<lparr>edComparator = None, edNextFileNumber = None, edLastSequence = None, edReplayFrontier = None,
      edStorageMode = None, edReplicatedAppliedThrough = None, edMaxAppliedMVCC = None,
      edDeletedFiles = [], edAddedFiles = []\<rparr>"

definition setScalar :: "byte \<Rightarrow> u64 \<Rightarrow> VersionEdit \<Rightarrow> VersionEdit" where
  "setScalar tag value e =
     (if tag = fieldNextFile then e\<lparr>edNextFileNumber := Some value\<rparr>
      else if tag = fieldLastSequence then e\<lparr>edLastSequence := Some value\<rparr>
      else if tag = fieldReplayFrontier then e\<lparr>edReplayFrontier := Some value\<rparr>
      else if tag = fieldReplicatedFrontier then e\<lparr>edReplicatedAppliedThrough := Some value\<rparr>
      else e\<lparr>edMaxAppliedMVCC := Some value\<rparr>)"

definition decodeField :: "encodedField \<Rightarrow> DecodeState \<Rightarrow> ManifestError + DecodeState" where
  "decodeField f s =
     (let tag = fst f; payload = snd f; e = dsEdit s in
      if tag = fieldComparator then
        (if tag \<in> dsScalars s \<or> payload = [] \<or> length payload > 128 then Inl ErrInvalidEdit
         else Inr (s\<lparr>dsEdit := e\<lparr>edComparator := Some payload\<rparr>, dsScalars := insert tag (dsScalars s)\<rparr>))
      else if tag \<in> {fieldNextFile, fieldLastSequence, fieldReplayFrontier, fieldReplicatedFrontier,
                     fieldMaxAppliedMVCC} then
        (if tag \<in> dsScalars s \<or> length payload \<noteq> 8 then Inl ErrInvalidEdit
         else Inr (s\<lparr>dsEdit := setScalar tag (le_get payload) e, dsScalars := insert tag (dsScalars s)\<rparr>))
      else if tag = fieldStorageMode then
        (if tag \<in> dsScalars s \<or> length payload \<noteq> 1 then Inl ErrInvalidEdit
         else Inr (s\<lparr>dsEdit := e\<lparr>edStorageMode := Some (payload ! 0)\<rparr>, dsScalars := insert tag (dsScalars s)\<rparr>))
      else if tag = fieldDeleteFile then
        (if length payload \<noteq> 12 \<or> length (edDeletedFiles e) \<ge> MaxChangesPerEdit then Inl ErrInvalidEdit
         else let d = DeletedFile (le_get (take 4 payload)) (le_get (drop 4 payload)) in
           if delFileNumber d \<in> dsFiles s then Inl ErrInvalidEdit
           else Inr (s\<lparr>dsEdit := e\<lparr>edDeletedFiles := edDeletedFiles e @ [d]\<rparr>,
                  dsFiles := insert (delFileNumber d) (dsFiles s)\<rparr>))
      else if tag = fieldAddFile then
        (if length (edAddedFiles e) \<ge> MaxChangesPerEdit then Inl ErrInvalidEdit
         else case decodeTable payload of
           Inl err \<Rightarrow> Inl (ManifestJoin ErrInvalidEdit err)
         | Inr t \<Rightarrow>
             if fileNumber t \<in> dsFiles s then Inl ErrInvalidEdit
             else Inr (s\<lparr>dsEdit := e\<lparr>edAddedFiles := edAddedFiles e @ [t]\<rparr>,
                    dsFiles := insert (fileNumber t) (dsFiles s)\<rparr>))
      else if tag AND 0x80 = 0 then Inl ErrUnsupportedVersion
      else Inr s)"

primrec decodeFields :: "nat \<Rightarrow> bytes \<Rightarrow> DecodeState \<Rightarrow> ManifestError + (bytes \<times> DecodeState)" where
  "decodeFields 0 rest s = Inr (rest, s)"
| "decodeFields (Suc n) rest s =
     (if length rest < fieldHeaderSize then Inl ErrInvalidEdit
      else let tag = rest ! 0; len = unat (le_get (slice 1 5 rest) :: u32) in
        if len > length rest - fieldHeaderSize then Inl ErrInvalidEdit
        else bindR (decodeField (tag, slice 5 (5 + len) rest) s) (\<lambda>s.
          decodeFields n (drop (5 + len) rest) s))"

definition DecodeVersionEdit :: "bytes \<Rightarrow> ManifestError + VersionEdit" where
  "DecodeVersionEdit encoded =
     (if length encoded < editHeaderSize \<or> length encoded > MaxEditSize then Inl ErrInvalidEdit
      else if le_get (slice 0 4 encoded) \<noteq> editMagic then Inl (ManifestJoin ErrInvalidEdit ErrManifestCorrupt)
      else if le_get (slice 4 6 encoded) \<noteq> EditVersion then Inl ErrUnsupportedVersion
      else bindR (decodeFields (unat (le_get (slice 6 8 encoded) :: u16)) (drop editHeaderSize encoded)
             \<lparr>dsEdit = emptyEdit, dsScalars = {}, dsFiles = {}\<rparr>) (\<lambda>(rest, s).
        if rest \<noteq> [] then Inl ErrInvalidEdit
        else bindR (validateEditShape (dsEdit s)) (\<lambda>_. Inr (dsEdit s))))"

section \<open>Tables round trip\<close>

lemma encodeParts_eq:
  "encodeParts ps = Inr bs \<Longrightarrow>
    bs = concat (map (\<lambda>p. le_put 4 (word_of_nat (length p) :: u32) @ p) ps) \<and> (\<forall>p\<in>set ps. length p < 2 ^ 32)"
  by (induction ps arbitrary: bs) (auto split: if_splits elim!: bindR_okE)

lemma decodeParts_concat:
  "\<forall>p\<in>set ps. length p < 2 ^ 32 \<Longrightarrow>
    decodeParts (length ps) (concat (map (\<lambda>p. le_put 4 (word_of_nat (length p) :: u32) @ p) ps) @ rest) = Inr (ps, rest)"
  by (induction ps) (auto simp: Let_def)

lemma length_tableFixed [simp]: "length (tableFixed t) = 72"
  by (simp add: tableFixed_def)

lemma tableOf_fixed:
  "tableOf (tableFixed t @ rest) (smallestInternal t) (largestInternal t) (smallestUser t) (largestUser t) = t"
  by (cases t) (simp add: tableOf_def tableFixed_def)

lemma validateTable_bounds:
  assumes "validateTable t = Inr u"
  shows "userKey (smallestInternal t) = smallestUser t" and "userKey (largestInternal t) = largestUser t"
    and "length (smallestUser t) \<le> MaxTableUserKey" and "length (largestUser t) \<le> MaxTableUserKey"
    and "unat (tabLevel t) < MaxLevels"
  using assms by (simp_all add: validateTable_def split: if_split_asm)

lemma table_roundtrip:
  assumes "encodeTable t = Inr bs" and "kindsValid t"
  shows "decodeTable bs = Inr t"
proof -
  let ?ps = "[encodeInternalKey (smallestInternal t), encodeInternalKey (largestInternal t),
    smallestUser t, largestUser t]"
  obtain parts where valid: "validateTable t = Inr ()" and parts: "encodeParts ?ps = Inr parts"
    and bs: "bs = tableFixed t @ parts"
    using assms(1) unfolding encodeTable_def by (elim bindR_okE) auto
  note enc = encodeParts_eq [OF parts]
  note bounds = validateTable_bounds [OF valid]
  have dec: "decodeParts 4 parts = Inr (?ps, [])"
  proof -
    have four: "length ?ps = 4" by simp
    show ?thesis
      using decodeParts_concat [of ?ps "[]", unfolded four append_Nil2] enc by blast
  qed
  have "16 \<le> length parts" using enc by simp
  then show ?thesis
    using dec bounds valid assms(2)
    by (simp add: decodeTable_def bs length_encodeInternalKey MaxInternalKeySize_def MaxTableUserKey_def
        decode_encode_key kindsValid_def tableOf_fixed Let_def)
qed

section \<open>Edits round trip\<close>

fun foldFields :: "encodedField list \<Rightarrow> DecodeState \<Rightarrow> ManifestError + DecodeState" where
  "foldFields [] s = Inr s"
| "foldFields (f # fs) s = bindR (decodeField f s) (foldFields fs)"

lemma foldFields_append: "foldFields (fs @ gs) s = bindR (foldFields fs s) (foldFields gs)"
  by (induction fs arbitrary: s) (simp_all add: bindR_def split: sum.split)

lemma fieldBytes_read:
  "length (fieldBytes f) = 5 + length (snd f)"
  "(fieldBytes f @ rest) ! 0 = fst f"
  "slice (Suc 0) 5 (fieldBytes f) = le_put 4 (word_of_nat (length (snd f)) :: u32)"
  "slice 5 (5 + length (snd f)) (fieldBytes f) = snd f"
  by (simp_all add: fieldBytes_def slice_def)

lemma decodeFields_concat:
  "\<forall>f\<in>set fs. length (snd f) < 2 ^ 32 \<Longrightarrow> foldFields fs s = Inr s' \<Longrightarrow>
    decodeFields (length fs) (concat (map fieldBytes fs) @ rest) s = Inr (rest, s')"
proof (induction fs arbitrary: s)
  case (Cons f fs)
  obtain t where f: "decodeField f s = Inr t" and fs: "foldFields fs t = Inr s'"
    using Cons.prems(2) by (auto elim: bindR_okE)
  have "decodeFields (length fs) (concat (map fieldBytes fs) @ rest) t = Inr (rest, s')"
    using Cons.IH [OF _ fs] Cons.prems(1) by simp
  then show ?case
    using Cons.prems(1) f by (simp add: fieldBytes_read fieldHeaderSize_def Let_def)
qed simp

lemma appendFields_eq:
  "appendFields r fs = Inr bs \<Longrightarrow>
    bs = r @ concat (map fieldBytes fs) \<and> (\<forall>f\<in>set fs. length (snd f) < 2 ^ 32) \<and>
    (length r \<le> MaxEditSize \<longrightarrow> length bs \<le> MaxEditSize)"
proof (induction r fs rule: appendFields.induct)
  case (2 r f fs)
  then have "length (snd f) < 2 ^ 32" "length r + 5 + length (snd f) \<le> MaxEditSize"
    by (auto simp: fieldHeaderSize_def split: if_splits)
  then show ?case using 2 by (auto simp: fieldBytes_def split: if_splits)
qed simp

text \<open>One field of each scalar, whether or not the edit has it.\<close>

lemma shape_scalars:
  assumes "validateEditShape e = Inr u"
  shows "case edComparator e of None \<Rightarrow> True | Some c \<Rightarrow> c \<noteq> [] \<and> length c \<le> 128"
  using assms by (cases "edComparator e") (simp_all add: validateEditShape_def split: if_split_asm)

lemma decode_scalars:
  "c \<noteq> [] \<Longrightarrow> length c \<le> 128 \<Longrightarrow> fieldComparator \<notin> ss \<Longrightarrow>
    decodeField (fieldComparator, c) \<lparr>dsEdit = e, dsScalars = ss, dsFiles = fs\<rparr> =
      Inr \<lparr>dsEdit = e\<lparr>edComparator := Some c\<rparr>, dsScalars = insert fieldComparator ss, dsFiles = fs\<rparr>"
  "fieldNextFile \<notin> ss \<Longrightarrow>
    decodeField (fieldNextFile, le_put 8 n) \<lparr>dsEdit = e, dsScalars = ss, dsFiles = fs\<rparr> =
      Inr \<lparr>dsEdit = e\<lparr>edNextFileNumber := Some n\<rparr>, dsScalars = insert fieldNextFile ss, dsFiles = fs\<rparr>"
  "fieldLastSequence \<notin> ss \<Longrightarrow>
    decodeField (fieldLastSequence, le_put 8 n) \<lparr>dsEdit = e, dsScalars = ss, dsFiles = fs\<rparr> =
      Inr \<lparr>dsEdit = e\<lparr>edLastSequence := Some n\<rparr>, dsScalars = insert fieldLastSequence ss, dsFiles = fs\<rparr>"
  "fieldReplayFrontier \<notin> ss \<Longrightarrow>
    decodeField (fieldReplayFrontier, le_put 8 n) \<lparr>dsEdit = e, dsScalars = ss, dsFiles = fs\<rparr> =
      Inr \<lparr>dsEdit = e\<lparr>edReplayFrontier := Some n\<rparr>, dsScalars = insert fieldReplayFrontier ss, dsFiles = fs\<rparr>"
  "fieldStorageMode \<notin> ss \<Longrightarrow>
    decodeField (fieldStorageMode, [m]) \<lparr>dsEdit = e, dsScalars = ss, dsFiles = fs\<rparr> =
      Inr \<lparr>dsEdit = e\<lparr>edStorageMode := Some m\<rparr>, dsScalars = insert fieldStorageMode ss, dsFiles = fs\<rparr>"
  "fieldReplicatedFrontier \<notin> ss \<Longrightarrow>
    decodeField (fieldReplicatedFrontier, le_put 8 n) \<lparr>dsEdit = e, dsScalars = ss, dsFiles = fs\<rparr> =
      Inr \<lparr>dsEdit = e\<lparr>edReplicatedAppliedThrough := Some n\<rparr>, dsScalars = insert fieldReplicatedFrontier ss, dsFiles = fs\<rparr>"
  "fieldMaxAppliedMVCC \<notin> ss \<Longrightarrow>
    decodeField (fieldMaxAppliedMVCC, le_put 8 n) \<lparr>dsEdit = e, dsScalars = ss, dsFiles = fs\<rparr> =
      Inr \<lparr>dsEdit = e\<lparr>edMaxAppliedMVCC := Some n\<rparr>, dsScalars = insert fieldMaxAppliedMVCC ss, dsFiles = fs\<rparr>"
  by (simp_all add: decodeField_def setScalar_def field_defs Let_def not_less)

lemma field_tags [simp]:
  "fieldNextFile \<noteq> fieldComparator"
  "fieldLastSequence \<noteq> fieldComparator" "fieldLastSequence \<noteq> fieldNextFile"
  "fieldReplayFrontier \<noteq> fieldComparator" "fieldReplayFrontier \<noteq> fieldNextFile"
  "fieldReplayFrontier \<noteq> fieldLastSequence"
  "fieldStorageMode \<noteq> fieldComparator" "fieldStorageMode \<noteq> fieldNextFile"
  "fieldStorageMode \<noteq> fieldLastSequence" "fieldStorageMode \<noteq> fieldReplayFrontier"
  "fieldReplicatedFrontier \<noteq> fieldComparator" "fieldReplicatedFrontier \<noteq> fieldNextFile"
  "fieldReplicatedFrontier \<noteq> fieldLastSequence" "fieldReplicatedFrontier \<noteq> fieldReplayFrontier"
  "fieldReplicatedFrontier \<noteq> fieldStorageMode"
  "fieldMaxAppliedMVCC \<noteq> fieldComparator" "fieldMaxAppliedMVCC \<noteq> fieldNextFile"
  "fieldMaxAppliedMVCC \<noteq> fieldLastSequence" "fieldMaxAppliedMVCC \<noteq> fieldReplayFrontier"
  "fieldMaxAppliedMVCC \<noteq> fieldStorageMode" "fieldMaxAppliedMVCC \<noteq> fieldReplicatedFrontier"
  by (simp_all add: field_defs)

text \<open>
  A scalar that is absent from the edit leaves the state as it is, and one that is present is
  read back, so the scalars are read back one after the other.
\<close>

definition optionField :: "byte \<Rightarrow> ('a \<Rightarrow> bytes) \<Rightarrow> 'a option \<Rightarrow> encodedField list" where
  "optionField tag enc x = (case x of None \<Rightarrow> [] | Some n \<Rightarrow> [(tag, enc n)])"

lemma optionField_step:
  assumes "\<And>n. x = Some n \<Longrightarrow> decodeField (tag, enc n) \<lparr>dsEdit = e, dsScalars = ss, dsFiles = fs\<rparr> =
      Inr \<lparr>dsEdit = upd (\<lambda>_. Some n) e, dsScalars = insert tag ss, dsFiles = fs\<rparr>"
    and "upd (\<lambda>_. None) e = e"
  shows "foldFields (optionField tag enc x @ rest) \<lparr>dsEdit = e, dsScalars = ss, dsFiles = fs\<rparr> =
    foldFields rest \<lparr>dsEdit = upd (\<lambda>_. x) e, dsScalars = ss \<union> (if x = None then {} else {tag}), dsFiles = fs\<rparr>"
  using assms by (cases x) (auto simp: optionField_def)

lemma scalarFields_option:
  "scalarFields e =
     optionField fieldComparator id (edComparator e) @ optionField fieldNextFile (le_put 8) (edNextFileNumber e) @
     optionField fieldLastSequence (le_put 8) (edLastSequence e) @
     optionField fieldReplayFrontier (le_put 8) (edReplayFrontier e) @
     optionField fieldStorageMode (\<lambda>m. [m]) (edStorageMode e) @
     optionField fieldReplicatedFrontier (le_put 8) (edReplicatedAppliedThrough e) @
     optionField fieldMaxAppliedMVCC (le_put 8) (edMaxAppliedMVCC e) @ []"
  by (simp add: scalarFields_def optionField_def split: option.split)

lemma scalars_roundtrip:
  assumes "validateEditShape e = Inr u"
  shows "\<exists>tags. foldFields (scalarFields e) \<lparr>dsEdit = emptyEdit, dsScalars = {}, dsFiles = {}\<rparr> =
    Inr \<lparr>dsEdit = e\<lparr>edDeletedFiles := [], edAddedFiles := []\<rparr>, dsScalars = tags, dsFiles = {}\<rparr>"
proof -
  have comp: "c \<noteq> [] \<and> length c \<le> 128" if "edComparator e = Some c" for c
    using shape_scalars [OF assms] that by simp
  show ?thesis
    unfolding scalarFields_option emptyEdit_def
    apply (subst optionField_step [where upd = edComparator_update])
      apply (simp add: decode_scalars comp)
     apply simp
    apply (subst optionField_step [where upd = edNextFileNumber_update])
      apply (simp add: decode_scalars)
     apply simp
    apply (subst optionField_step [where upd = edLastSequence_update])
      apply (simp add: decode_scalars)
     apply simp
    apply (subst optionField_step [where upd = edReplayFrontier_update])
      apply (simp add: decode_scalars)
     apply simp
    apply (subst optionField_step [where upd = edStorageMode_update])
      apply (simp add: decode_scalars)
     apply simp
    apply (subst optionField_step [where upd = edReplicatedAppliedThrough_update])
      apply (simp add: decode_scalars)
     apply simp
    apply (subst optionField_step [where upd = edMaxAppliedMVCC_update])
      apply (simp add: decode_scalars)
     apply simp
    apply (cases e)
    apply simp
    done
qed

text \<open>File changes.\<close>

lemma deletions_roundtrip:
  "distinct (map delFileNumber ds) \<Longrightarrow> set (map delFileNumber ds) \<inter> fs = {} \<Longrightarrow>
    length (edDeletedFiles e) + length ds \<le> MaxChangesPerEdit \<Longrightarrow>
    foldFields (map deletedField ds) \<lparr>dsEdit = e, dsScalars = ss, dsFiles = fs\<rparr> =
      Inr \<lparr>dsEdit = e\<lparr>edDeletedFiles := edDeletedFiles e @ ds\<rparr>, dsScalars = ss,
        dsFiles = fs \<union> set (map delFileNumber ds)\<rparr>"
proof (induction ds arbitrary: e fs)
  case (Cons d ds)
  have "decodeField (deletedField d) \<lparr>dsEdit = e, dsScalars = ss, dsFiles = fs\<rparr> =
    Inr \<lparr>dsEdit = e\<lparr>edDeletedFiles := edDeletedFiles e @ [d]\<rparr>, dsScalars = ss, dsFiles = insert (delFileNumber d) fs\<rparr>"
    using Cons.prems by (simp add: decodeField_def deletedField_def field_defs Let_def)
  then show ?case
    using Cons.prems Cons.IH [of "insert (delFileNumber d) fs" "e\<lparr>edDeletedFiles := edDeletedFiles e @ [d]\<rparr>"]
    by auto
qed simp

lemma additions_roundtrip:
  "addedFields ts = Inr gs \<Longrightarrow> \<forall>t\<in>set ts. kindsValid t \<Longrightarrow>
    distinct (map fileNumber ts) \<Longrightarrow> set (map fileNumber ts) \<inter> fs = {} \<Longrightarrow>
    length (edAddedFiles e) + length ts \<le> MaxChangesPerEdit \<Longrightarrow>
    foldFields gs \<lparr>dsEdit = e, dsScalars = ss, dsFiles = fs\<rparr> =
      Inr \<lparr>dsEdit = e\<lparr>edAddedFiles := edAddedFiles e @ ts\<rparr>, dsScalars = ss,
        dsFiles = fs \<union> set (map fileNumber ts)\<rparr>"
proof (induction ts arbitrary: e fs gs)
  case (Cons t ts)
  obtain payload rest where p: "encodeTable t = Inr payload" and rest: "addedFields ts = Inr rest"
    and gs: "gs = (fieldAddFile, payload) # rest"
    using Cons.prems(1) by (auto elim!: bindR_okE)
  have "decodeTable payload = Inr t" using table_roundtrip [OF p] Cons.prems(2) by simp
  then have "decodeField (fieldAddFile, payload) \<lparr>dsEdit = e, dsScalars = ss, dsFiles = fs\<rparr> =
    Inr \<lparr>dsEdit = e\<lparr>edAddedFiles := edAddedFiles e @ [t]\<rparr>, dsScalars = ss, dsFiles = insert (fileNumber t) fs\<rparr>"
    using Cons.prems by (simp add: decodeField_def field_defs Let_def)
  then show ?case
    using Cons.prems Cons.IH [OF rest, of "insert (fileNumber t) fs" "e\<lparr>edAddedFiles := edAddedFiles e @ [t]\<rparr>"]
    unfolding gs by auto
qed simp

lemma checkDeleted_iff:
  "checkDeleted seen ds = Inr s \<longleftrightarrow>
    s = seen \<union> set (map delFileNumber ds) \<and>
    (\<forall>d\<in>set ds. unat (delLevel d) < MaxLevels \<and> delFileNumber d \<noteq> 0 \<and> delFileNumber d \<le> MaxFileNumber) \<and>
    distinct (map delFileNumber ds) \<and> set (map delFileNumber ds) \<inter> seen = {}"
  by (induction seen ds rule: checkDeleted.induct) (auto simp: not_less)

lemma checkAdded_iff:
  "checkAdded seen ts = Inr () \<longleftrightarrow>
    (\<forall>t\<in>set ts. validateTable t = Inr ()) \<and> distinct (map fileNumber ts) \<and>
    set (map fileNumber ts) \<inter> seen = {}"
proof (induction seen ts rule: checkAdded.induct)
  case (2 seen t ts)
  then show ?case by (cases "validateTable t") auto
qed simp

lemma shape_files:
  assumes "validateEditShape e = Inr u"
  shows "distinct (map delFileNumber (edDeletedFiles e))" and "distinct (map fileNumber (edAddedFiles e))"
    and "set (map fileNumber (edAddedFiles e)) \<inter> set (map delFileNumber (edDeletedFiles e)) = {}"
    and "length (edDeletedFiles e) \<le> MaxChangesPerEdit" and "length (edAddedFiles e) \<le> MaxChangesPerEdit"
proof -
  obtain s where "checkDeleted {} (edDeletedFiles e) = Inr s" "checkAdded s (edAddedFiles e) = Inr ()"
    and "length (edDeletedFiles e) \<le> MaxChangesPerEdit" "length (edAddedFiles e) \<le> MaxChangesPerEdit"
    using assms unfolding validateEditShape_def
    by (simp split: if_split_asm) (elim bindR_okE, auto)
  then show "distinct (map delFileNumber (edDeletedFiles e))" "distinct (map fileNumber (edAddedFiles e))"
    "set (map fileNumber (edAddedFiles e)) \<inter> set (map delFileNumber (edDeletedFiles e)) = {}"
    "length (edDeletedFiles e) \<le> MaxChangesPerEdit" "length (edAddedFiles e) \<le> MaxChangesPerEdit"
    by (auto simp: checkDeleted_iff checkAdded_iff)
qed

lemma distinct_map_mset: "mset xs = mset ys \<Longrightarrow> distinct (map f xs) = distinct (map f ys)"
  by (metis mset_eq_imp_distinct_iff mset_map)

lemma guard_ok: "(if c then Inl x else r) = Inr u \<longleftrightarrow> \<not> c \<and> r = Inr u"
  by simp

lemma shape_permute:
  assumes "validateEditShape e = Inr ()" and "mset ds = mset (edDeletedFiles e)" and "mset ts = mset (edAddedFiles e)"
  shows "validateEditShape (e\<lparr>edDeletedFiles := ds, edAddedFiles := ts\<rparr>) = Inr ()"
proof -
  have sets: "set ds = set (edDeletedFiles e)" "set ts = set (edAddedFiles e)"
    and lens: "length ds = length (edDeletedFiles e)" "length ts = length (edAddedFiles e)"
    using assms(2,3) by (auto dest: mset_eq_setD mset_eq_length)
  have nil: "ds = [] \<longleftrightarrow> edDeletedFiles e = []" "ts = [] \<longleftrightarrow> edAddedFiles e = []"
    using lens by auto
  have "bindR (checkDeleted {} ds) (\<lambda>seen. checkAdded seen ts) = Inr ()"
    if ok: "bindR (checkDeleted {} (edDeletedFiles e)) (\<lambda>seen. checkAdded seen (edAddedFiles e)) = Inr ()"
  proof -
    obtain s where "checkDeleted {} (edDeletedFiles e) = Inr s" "checkAdded s (edAddedFiles e) = Inr ()"
      using ok by (rule bindR_okE)
    then have "checkDeleted {} ds = Inr s" and "checkAdded s ts = Inr ()"
      using sets distinct_map_mset [OF assms(2), of delFileNumber] distinct_map_mset [OF assms(3), of fileNumber]
      unfolding checkDeleted_iff checkAdded_iff by simp_all
    then show ?thesis by simp
  qed
  then show ?thesis
    using assms(1) unfolding validateEditShape_def guard_ok by (simp add: lens nil)
qed

lemma compareDeleted_le:
  "compareDeleted a b \<le> 0 \<longleftrightarrow>
    delLevel a < delLevel b \<or> delLevel a = delLevel b \<and> delFileNumber a \<le> delFileNumber b"
  by (auto simp: compareDeleted_def word_less_def word_uint_eq_iff)

lemma compareTableIdentity_le:
  "compareTableIdentity a b \<le> 0 \<longleftrightarrow>
    tabLevel a < tabLevel b \<or> tabLevel a = tabLevel b \<and> fileNumber a \<le> fileNumber b"
  by (auto simp: compareTableIdentity_def word_less_def word_uint_eq_iff)

interpretation deleted: strict_comparison compareDeleted
  by unfold_locales (auto simp: compareDeleted_le intro: DeletedFile.expand)

interpretation identity: comparison compareTableIdentity
  by unfold_locales (auto simp: compareTableIdentity_le)

text \<open>The canonical form of an edit: its changes in the order in which they are written.\<close>

definition canonicalEdit :: "VersionEdit \<Rightarrow> VersionEdit" where
  "canonicalEdit e =
     e\<lparr>edDeletedFiles := sortFunc compareDeleted (edDeletedFiles e),
       edAddedFiles := sortFunc compareTableIdentity (edAddedFiles e)\<rparr>"

lemma EncodeVersionEdit_okE:
  assumes "EncodeVersionEdit e = Inr bs"
  obtains added and fs :: "encodedField list" where
    "validateEditShape e = Inr ()" "\<forall>t\<in>set (edAddedFiles e). kindsValid t"
    "addedFields (sortFunc compareTableIdentity (edAddedFiles e)) = Inr added"
    "fs = scalarFields e @ map deletedField (sortFunc compareDeleted (edDeletedFiles e)) @ added"
    "length fs < 2 ^ 16"
    "appendFields (le_put 4 editMagic @ le_put 2 EditVersion @ le_put 2 (word_of_nat (length fs) :: u16)) fs = Inr bs"
  using assms unfolding EncodeVersionEdit_def cloneTables_eq Let_def
  by (elim bindR_okE) (auto split: if_split_asm elim!: bindR_okE)

lemma fields_roundtrip:
  assumes shape: "validateEditShape e = Inr ()" and kinds: "\<forall>t\<in>set (edAddedFiles e). kindsValid t"
    and added: "addedFields (sortFunc compareTableIdentity (edAddedFiles e)) = Inr added"
  shows "\<exists>tags files. foldFields
      (scalarFields e @ map deletedField (sortFunc compareDeleted (edDeletedFiles e)) @ added)
      \<lparr>dsEdit = emptyEdit, dsScalars = {}, dsFiles = {}\<rparr> =
    Inr \<lparr>dsEdit = canonicalEdit e, dsScalars = tags, dsFiles = files\<rparr>"
proof -
  let ?ds = "sortFunc compareDeleted (edDeletedFiles e)"
  let ?ts = "sortFunc compareTableIdentity (edAddedFiles e)"
  have distinct: "distinct (map delFileNumber ?ds)" "distinct (map fileNumber ?ts)"
    using shape_files(1,2) [OF shape] distinct_map_mset [OF mset_sortFunc] by metis+
  obtain tags where scalars: "foldFields (scalarFields e) \<lparr>dsEdit = emptyEdit, dsScalars = {}, dsFiles = {}\<rparr> =
      Inr \<lparr>dsEdit = e\<lparr>edDeletedFiles := [], edAddedFiles := []\<rparr>, dsScalars = tags, dsFiles = {}\<rparr>"
    using scalars_roundtrip [OF shape] by blast
  have dels: "foldFields (map deletedField ?ds)
      \<lparr>dsEdit = e\<lparr>edDeletedFiles := [], edAddedFiles := []\<rparr>, dsScalars = tags, dsFiles = {}\<rparr> =
    Inr \<lparr>dsEdit = e\<lparr>edDeletedFiles := ?ds, edAddedFiles := []\<rparr>, dsScalars = tags,
      dsFiles = set (map delFileNumber ?ds)\<rparr>"
    using deletions_roundtrip [OF distinct(1), of "{}"] shape_files(4) [OF shape] by simp
  have "foldFields added
      \<lparr>dsEdit = e\<lparr>edDeletedFiles := ?ds, edAddedFiles := []\<rparr>, dsScalars = tags,
        dsFiles = set (map delFileNumber ?ds)\<rparr> =
    Inr \<lparr>dsEdit = canonicalEdit e, dsScalars = tags,
      dsFiles = set (map delFileNumber ?ds) \<union> set (map fileNumber ?ts)\<rparr>"
    using additions_roundtrip [OF added _ distinct(2), of "set (map delFileNumber ?ds)"] kinds
      shape_files(3,5) [OF shape] by (simp add: canonicalEdit_def)
  then show ?thesis using scalars dels by (simp add: foldFields_append)
qed

lemma edit_roundtrip:
  assumes "EncodeVersionEdit e = Inr bs"
  shows "DecodeVersionEdit bs = Inr (canonicalEdit e)"
  using assms
proof (rule EncodeVersionEdit_okE)
  fix added and fs :: "encodedField list"
  let ?h = "le_put 4 editMagic @ le_put 2 EditVersion @ le_put 2 (word_of_nat (length fs) :: u16)"
  assume shape: "validateEditShape e = Inr ()" and kinds: "\<forall>t\<in>set (edAddedFiles e). kindsValid t"
    and added: "addedFields (sortFunc compareTableIdentity (edAddedFiles e)) = Inr added"
    and fs: "fs = scalarFields e @ map deletedField (sortFunc compareDeleted (edDeletedFiles e)) @ added"
    and count: "length fs < 2 ^ 16" and bs: "appendFields ?h fs = Inr bs"
  have app: "bs = ?h @ concat (map fieldBytes fs)" "\<forall>f\<in>set fs. length (snd f) < 2 ^ 32"
    "length bs \<le> MaxEditSize"
    using appendFields_eq [OF bs] by (auto simp: MaxEditSize_def)
  obtain tags files where "foldFields fs \<lparr>dsEdit = emptyEdit, dsScalars = {}, dsFiles = {}\<rparr> =
      Inr \<lparr>dsEdit = canonicalEdit e, dsScalars = tags, dsFiles = files\<rparr>"
    using fields_roundtrip [OF shape kinds added] fs by blast
  then have fields: "decodeFields (length fs) (concat (map fieldBytes fs))
      \<lparr>dsEdit = emptyEdit, dsScalars = {}, dsFiles = {}\<rparr> =
    Inr ([], \<lparr>dsEdit = canonicalEdit e, dsScalars = tags, dsFiles = files\<rparr>)"
    using decodeFields_concat [OF app(2), where rest = "[]"] by simp
  have n: "unat (word_of_nat (length fs) :: u16) = length fs"
    using count by (simp add: unat_of_nat take_bit_nat_eq_self)
  have "validateEditShape (canonicalEdit e) = Inr ()"
    using shape_permute [OF shape] by (simp add: canonicalEdit_def)
  then show ?thesis
    using app(3) fields n by (simp add: DecodeVersionEdit_def app(1) editHeaderSize_def)
qed

end
