(* ===== verification/Manifest_Properties.thy ===== *)
theory Manifest_Properties
  imports Manifest_Codec
begin

text \<open>
  What the manifest promises: the shape of every version that edits lead to, the monotonicity
  of its watermarks, the exactness of its coverage test, and that the snapshot of a version
  that is written, read back and applied rebuilds the version.
\<close>

section \<open>Snapshots rebuild the version\<close>

text \<open>Lists of levels whose elements know their level, counted from \<open>n\<close>.\<close>

lemma leveled_Cons:
  assumes "\<forall>i<length (l # ls). \<forall>t\<in>set ((l # ls) ! i). f t = n + i"
  shows "\<And>t. t \<in> set l \<Longrightarrow> f t = n" and "\<forall>i<length ls. \<forall>t\<in>set (ls ! i). f t = Suc n + i"
    and "\<And>t. t \<in> set (concat ls) \<Longrightarrow> n < f t"
proof -
  show "f t = n" if "t \<in> set l" for t using assms that by fastforce
  show tail: "\<forall>i<length ls. \<forall>t\<in>set (ls ! i). f t = Suc n + i" using assms by fastforce
  show "n < f t" if "t \<in> set (concat ls)" for t
  proof -
    obtain i where "i < length ls" "t \<in> set (ls ! i)" using \<open>t \<in> set (concat ls)\<close> by (auto simp: in_set_conv_nth [of _ ls])
    then show ?thesis using tail by auto
  qed
qed

lemma filter_leveled:
  "\<forall>i<length ls. \<forall>t\<in>set (ls ! i). f t = n + i \<Longrightarrow> j < length ls \<Longrightarrow>
    filter (\<lambda>t. f t = n + j) (concat ls) = ls ! j"
proof (induction ls arbitrary: n j)
  case (Cons l ls)
  note c = leveled_Cons [OF Cons.prems(1)]
  show ?case
  proof (cases j)
    case 0
    have "filter (\<lambda>t. f t = n) l = l" using c(1) by (simp add: filter_id_conv)
    moreover have "filter (\<lambda>t. f t = n) (concat ls) = []" using c(3) by (auto simp: filter_empty_conv)
    ultimately show ?thesis using 0 by simp
  next
    case (Suc k)
    have "filter (\<lambda>t. f t = Suc n + k) l = []" using c(1) by (auto simp: filter_empty_conv)
    moreover have "filter (\<lambda>t. f t = Suc n + k) (concat ls) = ls ! k"
      using Cons.prems(2) Suc by (intro Cons.IH [OF c(2)]) simp
    ultimately show ?thesis using Suc by simp
  qed
qed simp

lemma distinct_leveled:
  "\<forall>i<length ls. \<forall>t\<in>set (ls ! i). f t = n + i \<Longrightarrow> \<forall>l\<in>set ls. distinct l \<Longrightarrow> distinct (concat ls)"
proof (induction ls arbitrary: n)
  case (Cons l ls)
  note c = leveled_Cons [OF Cons.prems(1)]
  have "distinct (concat ls)" using Cons.IH [OF c(2)] Cons.prems(2) by simp
  moreover have "set l \<inter> set (concat ls) = {}" using c(1,3) by (metis disjoint_iff less_irrefl)
  ultimately show ?case using Cons.prems(2) by simp
qed simp

lemma levelsOk_leveled: "levelsOk ls \<Longrightarrow> \<forall>i<length ls. \<forall>t\<in>set (ls ! i). unat (tabLevel t) = 0 + i"
  by (simp add: levelsOk_def)

lemma filter_level:
  "levelsOk ls \<Longrightarrow> i < MaxLevels \<Longrightarrow> filter (\<lambda>t. unat (tabLevel t) = i) (concat ls) = ls ! i"
  using filter_leveled [OF levelsOk_leveled, of ls i] by (simp add: levelsOk_def)

lemma disjoint_insert_sub: "A \<subseteq> insert x B \<Longrightarrow> x \<notin> F \<Longrightarrow> F \<inter> B = {} \<Longrightarrow> F \<inter> A = {}"
  by blast

lemma applyAdditions_levels:
  assumes "distinct (map fileNumber ts)" and "set (map fileNumber ts) \<inter> seen = {}"
    and "\<forall>t\<in>set ts. kindsValid t \<and> fileNumber t < nextFileNumber v \<and> unat (tabLevel t) < length (levels v)"
    and "set (map fileNumber ts) \<inter> set (map fileNumber (liveTables v)) = {}"
  shows "\<exists>ls. applyAdditions seen ts v = Inr (v\<lparr>levels := ls\<rparr>) \<and> length ls = length (levels v) \<and>
    (\<forall>i<length (levels v). ls ! i = levels v ! i @ filter (\<lambda>t. unat (tabLevel t) = i) ts)"
  using assms
proof (induction ts arbitrary: seen v)
  case Nil
  then show ?case by (intro exI [of _ "levels v"]) simp
next
  case (Cons t ts)
  let ?j = "unat (tabLevel t)"
  let ?v = "v\<lparr>levels := (levels v)[?j := levels v ! ?j @ [t]]\<rparr>"
  have j: "?j < length (levels v)" using Cons.prems(3) by simp
  have live: "set (liveTables ?v) \<subseteq> insert t (set (liveTables v))"
    using live_update [OF j, of "levels v ! ?j @ [t]"] levels_nth_live [OF j] by (auto simp: liveTables_def)
  have "fileNumber ` set (liveTables ?v) \<subseteq> insert (fileNumber t) (fileNumber ` set (liveTables v))"
    using image_mono [OF live, of fileNumber] by simp
  moreover have "fileNumber t \<notin> fileNumber ` set ts"
    and "fileNumber ` set ts \<inter> fileNumber ` set (liveTables v) = {}"
    using Cons.prems(1,4) by auto
  ultimately have "set (map fileNumber ts) \<inter> set (map fileNumber (liveTables ?v)) = {}"
    unfolding set_map by (rule disjoint_insert_sub)
  then obtain ls where ls: "applyAdditions (insert (fileNumber t) seen) ts ?v = Inr (?v\<lparr>levels := ls\<rparr>)"
      "length ls = length (levels v)"
      "\<forall>i<length (levels v). ls ! i = levels ?v ! i @ filter (\<lambda>t. unat (tabLevel t) = i) ts"
    using Cons.IH [of "insert (fileNumber t) seen" ?v] Cons.prems by auto
  have "fileNumber t \<notin> fileNumber ` set (liveTables v)" using Cons.prems(4) by auto
  then have "\<not> hasFile v (fileNumber t)" unfolding hasFile_iff by (metis imageI)
  then have "applyAdditions seen (t # ts) v = Inr (v\<lparr>levels := ls\<rparr>)"
    using ls(1) Cons.prems(2,3) by (simp add: cloneTable_eq not_le)
  then show ?case using ls(2,3) j by (intro exI [of _ ls]) (auto simp: nth_list_update)
qed

lemma level_sorted_smallest:
  "sorted_wrt (\<lambda>a b. largestUser a < smallestUser b) ts \<Longrightarrow> \<forall>t\<in>set ts. smallestUser t \<le> largestUser t \<Longrightarrow>
    sorted_wrt (\<lambda>a b. compareSmallest a b \<le> 0) ts"
  by (rule sorted_wrt_mono_rel) (auto simp: compareSmallest_le intro: le_less_trans)

lemma level_no_overlap:
  "sorted_wrt (\<lambda>a b. largestUser a < smallestUser b) ts \<Longrightarrow> \<not> overlaps ts"
  by (induction ts rule: overlaps.induct) (auto simp: not_le)

lemma sortLevel_restores:
  assumes ok: "levelsOk ls" "levelsSorted ls" and i: "i < MaxLevels" and perm: "mset ts = mset (ls ! i)"
  shows "sortLevel i ts = ls ! i"
proof -
  have set: "set ts = set (ls ! i)" using perm by (rule mset_eq_setD)
  have len: "i < length ls" using ok i by (simp add: levelsOk_def)
  have inj: "t = u" if "t \<in> set ts" "u \<in> set ts" "fileNumber t = fileNumber u" for t u
    using that ok(1) set levels_nth_live [OF len] unfolding levelsOk_def by (auto dest: inj_onD)
  show ?thesis
  proof (cases "i = 0")
    case True
    then have "sortFunc compareNewest ts = ls ! i"
      using ok(2) perm inj
      by (intro newest.sortFunc_unique) (auto simp: levelsSorted_def compareNewest_le)
    then show ?thesis using True by (simp add: sortLevel_def)
  next
    case False
    have "sorted_wrt (\<lambda>a b. compareSmallest a b \<le> 0) (ls ! i)"
      using ok i False tableOk_user by (intro level_sorted_smallest) (auto simp: levelsOk_def levelsSorted_def)
    then have "sortFunc compareSmallest ts = ls ! i"
      using perm inj by (intro smallest.sortFunc_unique) (auto simp: compareSmallest_le)
    then show ?thesis using False by (simp add: sortLevel_def)
  qed
qed

lemma sortLevels_restores:
  "length ms = length ls \<Longrightarrow> \<forall>i<length ls. sortLevel (n + i) (ms ! i) = ls ! i \<Longrightarrow>
    \<forall>i<length ls. 0 < n + i \<longrightarrow> \<not> overlaps (ls ! i) \<Longrightarrow> sortLevels n ms = Inr ls"
proof (induction ms ls arbitrary: n rule: list_induct2)
  case (Cons m ms l ls)
  have "sortLevel n m = l" using Cons.prems(1) by fastforce
  moreover have "\<not> (0 < n \<and> overlaps l)" using Cons.prems(2) by fastforce
  moreover have "sortLevels (n + 1) ms = Inr ls"
    using Cons.prems by (intro Cons.IH) (fastforce simp: nth_Cons)+
  ultimately show ?case by (simp add: Let_def)
qed simp

lemma distinct_fileNumbers:
  assumes "levelsOk ls"
  shows "distinct (map fileNumber (concat ls))"
proof -
  have "\<forall>l\<in>set ls. distinct l" using assms by (auto simp: levelsOk_def in_set_conv_nth)
  then have "distinct (concat ls)" using distinct_leveled [OF levelsOk_leveled [OF assms]] by blast
  then show ?thesis using assms by (simp add: distinct_map levelsOk_def)
qed

lemma snapshot_levels:
  assumes ok: "versionOk v" and perm: "mset ts = mset (liveTables v)"
    and u: "levels u = replicate MaxLevels []" "nextFileNumber u = nextFileNumber v"
  shows "applyLevels (snapshotRecord v ts) u = Inr (u\<lparr>levels := levels v\<rparr>)"
proof -
  have lok: "levelsOk (levels v)" and sorted: "levelsSorted (levels v)"
    and below: "\<forall>t\<in>set (liveTables v). fileNumber t < nextFileNumber v"
    using ok by (auto simp: versionOk_def)
  have set: "set ts = set (liveTables v)" using perm by (rule mset_eq_setD)
  have len: "length (levels v) = MaxLevels" using lok by (simp add: levelsOk_def)
  have each: "kindsValid t \<and> unat (tabLevel t) < MaxLevels" if "t \<in> set ts" for t
    using that set lok len unfolding levelsOk_def tableOk_def
    by (auto simp: liveTables_def in_set_conv_nth [of _ "levels v"])
  have "distinct (map fileNumber ts)"
    using distinct_fileNumbers [OF lok] distinct_map_mset [OF perm, of fileNumber] by (simp add: liveTables_def)
  then obtain ls where add: "applyAdditions {} ts u = Inr (u\<lparr>levels := ls\<rparr>)" "length ls = MaxLevels"
      and nth: "\<forall>i<MaxLevels. ls ! i = filter (\<lambda>t. unat (tabLevel t) = i) ts"
    using applyAdditions_levels [of ts "{}" u] each below set u by (auto simp: liveTables_def)
  have "mset (ls ! i) = mset (levels v ! i)" if "i < MaxLevels" for i
    using nth that perm filter_level [OF lok that] by (metis liveTables_def mset_filter)
  then have restore: "\<forall>i<MaxLevels. sortLevel i (ls ! i) = levels v ! i"
    using sortLevel_restores [OF lok sorted] by blast
  have "\<not> overlaps (levels v ! i)" if "0 < i" "i < MaxLevels" for i
    using sorted that by (intro level_no_overlap) (simp add: levelsSorted_def)
  then have "sortLevels 0 ls = Inr (levels v)"
    using restore add(2) len by (intro sortLevels_restores) auto
  then show ?thesis
    using add(1) by (simp add: applyLevels_def snapshotRecord_def)
qed

text \<open>The version that the scalar stages build from the snapshot record.\<close>

definition rebuilt :: "Version \<Rightarrow> Version" where
  "rebuilt v =
     v\<lparr>generation := 1, modeExplicit := (mode v \<noteq> ModeStandalone)\<rparr>"

lemma snapshot_first_stages:
  assumes ok: "scalarsOk v" and cmp: "comparator v = ComparatorName"
  shows "bindR (applyComparator (snapshotRecord v ts) initialVersion) (\<lambda>v1.
     bindR (applyMode (snapshotRecord v ts) v1) (\<lambda>v2.
     bindR (applyNextFile (snapshotRecord v ts) v2) (\<lambda>v3.
     applyLastSequence (snapshotRecord v ts) v3))) =
   Inr (initialVersion\<lparr>comparator := comparator v, mode := mode v, modeExplicit := (mode v \<noteq> ModeStandalone),
     nextFileNumber := nextFileNumber v, lastSequence := lastSequence v, haveLastSequence := haveLastSequence v\<rparr>)"
proof -
  have s1: "applyComparator (snapshotRecord v ts) initialVersion = Inr (initialVersion\<lparr>comparator := comparator v\<rparr>)"
    by (simp add: applyComparator_def snapshotRecord_def initialVersion_def cmp ComparatorName_def)
  have s2: "applyMode (snapshotRecord v ts) (initialVersion\<lparr>comparator := c\<rparr>) =
      Inr (initialVersion\<lparr>comparator := c, mode := mode v, modeExplicit := (mode v \<noteq> ModeStandalone)\<rparr>)" for c
    using ok by (auto simp: applyMode_def snapshotRecord_def initialVersion_def scalarsOk_def knownMode_def mode_defs)
  have "1 \<le> nextFileNumber v" "nextFileNumber v \<le> maxNextFileNumber" "nextFileNumber v \<noteq> 0"
    using ok by (auto simp: scalarsOk_def)
  then have s3: "applyNextFile (snapshotRecord v ts) (initialVersion\<lparr>comparator := c, mode := m, modeExplicit := x\<rparr>) =
      Inr (initialVersion\<lparr>comparator := c, mode := m, modeExplicit := x, nextFileNumber := nextFileNumber v\<rparr>)" for c m x
    by (auto simp: applyNextFile_def snapshotRecord_def initialVersion_def not_less)
  have s4: "applyLastSequence (snapshotRecord v ts)
      (initialVersion\<lparr>comparator := c, mode := m, modeExplicit := x, nextFileNumber := n\<rparr>) =
    Inr (initialVersion\<lparr>comparator := c, mode := m, modeExplicit := x, nextFileNumber := n,
      lastSequence := lastSequence v, haveLastSequence := haveLastSequence v\<rparr>)" for c m x n
    using ok by (auto simp: applyLastSequence_def snapshotRecord_def initialVersion_def scalarsOk_def)
  show ?thesis by (simp add: s1 s2 s3 s4)
qed

text \<open>Every sequence up to the frontier lies in the span of a live table.\<close>

definition historyCovered :: "Version \<Rightarrow> bool" where
  "historyCovered v \<longleftrightarrow> haveFrontier v \<longrightarrow> (\<forall>q\<le>frontier v. sequenceCovered v q)"

lemma snapshot_frontier:
  assumes ok: "scalarsOk v" and u: "haveFrontier u = False" "frontier u = 0" "mode u = mode v"
    "haveLastSequence u = haveLastSequence v" "lastSequence u = lastSequence v" "levels u = levels v"
  shows "applyFrontier (snapshotRecord v ts) u =
    (if historyCovered v then Inr (u\<lparr>frontier := frontier v, haveFrontier := haveFrontier v\<rparr>)
     else Inl ErrFrontierGap)"
proof (cases "haveFrontier v")
  case True
  have "frontierCovered u (frontier v) \<longleftrightarrow> historyCovered v"
    using frontierCovered_iff [of u "frontier v"] u True
    by (simp add: frontierStart_def historyCovered_def sequenceCovered_def liveTables_def)
  then show ?thesis
    using ok u True by (simp add: applyFrontier_def snapshotRecord_def scalarsOk_def leD)
next
  case False
  then show ?thesis
    using ok u by (simp add: applyFrontier_def snapshotRecord_def scalarsOk_def historyCovered_def)
qed

lemma highestFile_below:
  assumes "\<forall>t\<in>set (liveTables v). fileNumber t < nextFileNumber v" and "0 < nextFileNumber v"
  shows "highestFile v < nextFileNumber v"
proof -
  have "fold (\<lambda>t h. max h (fileNumber t)) ts h < n" if "\<forall>t\<in>set ts. fileNumber t < n" "h < n" for ts h n
    using that by (induction ts arbitrary: h) auto
  then show ?thesis using assms by (simp add: highestFile_def)
qed

lemma snapshot_last_stages:
  assumes ok: "versionOk v"
    and u: "u = initialVersion\<lparr>comparator := comparator v, mode := mode v, modeExplicit := (mode v \<noteq> ModeStandalone),
     nextFileNumber := nextFileNumber v, lastSequence := lastSequence v, haveLastSequence := haveLastSequence v,
     levels := levels v, frontier := frontier v, haveFrontier := haveFrontier v\<rparr>"
  shows "bindR (applyReplicated (snapshotRecord v ts) u) (\<lambda>v1.
     bindR (applyMaxMVCC (snapshotRecord v ts) v1) applyFinal) = Inr (rebuilt v)"
proof -
  have sc: "scalarsOk v" and below: "\<forall>t\<in>set (liveTables v). fileNumber t < nextFileNumber v"
    using ok by (auto simp: versionOk_def)
  let ?r = "u\<lparr>replicatedApplied := replicatedApplied v, haveReplicatedApplied := haveReplicatedApplied v\<rparr>"
  let ?m = "?r\<lparr>maxAppliedMVCC := maxAppliedMVCC v, haveMaxAppliedMVCC := haveMaxAppliedMVCC v\<rparr>"
  have modes: "mode v = ModeStandalone \<or> mode v = ModeReplicated \<or> mode v = ModeReplicatedMVCC"
    using sc by (simp add: scalarsOk_def knownMode_def)
  have r: "applyReplicated (snapshotRecord v ts) u = Inr ?r"
    using sc modes unfolding u
    by (cases "haveReplicatedApplied v") (auto simp: applyReplicated_def snapshotRecord_def initialVersion_def scalarsOk_def)
  have m: "applyMaxMVCC (snapshotRecord v ts) ?r = Inr ?m"
    using sc unfolding u
    by (cases "haveMaxAppliedMVCC v") (auto simp: applyMaxMVCC_def snapshotRecord_def initialVersion_def scalarsOk_def)
  have eq: "?m\<lparr>generation := 1\<rparr> = rebuilt v"
    by (simp add: u rebuilt_def initialVersion_def)
  have "0 < nextFileNumber v" using sc by (auto simp: scalarsOk_def word_neq_0_conv [symmetric])
  then have high: "highestFile ?m < nextFileNumber ?m"
    using below by (intro highestFile_below) (auto simp: u liveTables_def)
  have "\<not> (mode v = ModeStandalone \<and> haveReplicatedApplied v)"
    "\<not> ((mode v = ModeReplicated \<or> mode v = ModeReplicatedMVCC) \<and> haveFrontier v)"
    "\<not> (mode v \<noteq> ModeReplicatedMVCC \<and> haveMaxAppliedMVCC v)"
    using sc by (auto simp: scalarsOk_def mode_defs)
  then have "applyFinal ?m = Inr (?m\<lparr>generation := generation ?m + 1\<rparr>)"
    using high unfolding applyFinal_def by (simp add: u not_le)
  also have "generation ?m + 1 = 1" by (simp add: u initialVersion_def)
  finally show ?thesis unfolding r by (simp add: eq m)
qed

lemma snapshot_shape:
  assumes ok: "versionOk v" and cmp: "comparator v = ComparatorName" and perm: "mset ts = mset (liveTables v)"
  shows "validateEditShape (snapshotRecord v ts) =
    (if length ts \<le> MaxChangesPerEdit then Inr () else Inl ErrInvalidEdit)"
proof -
  have sc: "scalarsOk v" and lok: "levelsOk (levels v)" using ok by (auto simp: versionOk_def)
  have name: "ComparatorName \<noteq> [] \<and> length ComparatorName \<le> 128" by (simp add: ComparatorName_def)
  have "distinct (map fileNumber ts)"
    using distinct_fileNumbers [OF lok] distinct_map_mset [OF perm, of fileNumber] by (simp add: liveTables_def)
  moreover have "validateTable t = Inr ()" if "t \<in> set ts" for t
    using that mset_eq_setD [OF perm] lok unfolding levelsOk_def tableOk_def
    by (auto simp: liveTables_def in_set_conv_nth [of _ "levels v"])
  ultimately have "checkAdded {} ts = Inr ()" by (simp add: checkAdded_iff)
  moreover have "knownMode (mode v)" "\<not> (haveFrontier v \<and> haveReplicatedApplied v)"
    "haveMaxAppliedMVCC v \<longrightarrow> haveReplicatedApplied v"
    using sc by (auto simp: scalarsOk_def)
  ultimately show ?thesis
    using name cmp by (auto simp: validateEditShape_def snapshotRecord_def not_less)
qed

lemma snapshot_apply:
  assumes ok: "versionOk v" and cmp: "comparator v = ComparatorName" and perm: "mset ts = mset (liveTables v)"
  shows "applyEdit initialVersion (snapshotRecord v ts) =
    (if length ts \<le> MaxChangesPerEdit
     then if historyCovered v then Inr (rebuilt v) else Inl ErrFrontierGap
     else Inl ErrInvalidEdit)"
proof -
  have sc: "scalarsOk v" using ok by (simp add: versionOk_def)
  let ?e = "snapshotRecord v ts"
  let ?u = "initialVersion\<lparr>comparator := comparator v, mode := mode v, modeExplicit := (mode v \<noteq> ModeStandalone),
     nextFileNumber := nextFileNumber v, lastSequence := lastSequence v, haveLastSequence := haveLastSequence v\<rparr>"
  let ?l = "?u\<lparr>levels := levels v\<rparr>"
  have clone: "cloneVersion initialVersion = Inr initialVersion"
    by (simp add: cloneVersion_eq initialVersion_def liveTables_def)
  have gen: "generation initialVersion \<noteq> -1" by (simp add: initialVersion_def)
  obtain v1 v2 v3 where first: "applyComparator ?e initialVersion = Inr v1" "applyMode ?e v1 = Inr v2"
      "applyNextFile ?e v2 = Inr v3" "applyLastSequence ?e v3 = Inr ?u"
    using snapshot_first_stages [OF sc cmp, of ts] by (elim bindR_okE)
  have levels: "applyLevels ?e ?u = Inr ?l"
    using snapshot_levels [OF ok perm, of ?u] by (simp add: initialVersion_def)
  have frontier: "applyFrontier ?e ?l =
    (if historyCovered v then Inr (?l\<lparr>frontier := frontier v, haveFrontier := haveFrontier v\<rparr>)
     else Inl ErrFrontierGap)"
    by (rule snapshot_frontier [OF sc]) (simp_all add: initialVersion_def)
  note last = snapshot_last_stages [OF ok, of "?l\<lparr>frontier := frontier v, haveFrontier := haveFrontier v\<rparr>" ts]
  show ?thesis
    unfolding applyEdit_def snapshot_shape [OF assms] clone
    using gen first levels frontier last by simp
qed

lemma snapshotEdit_eq:
  assumes "versionReached v"
  shows "snapshotEdit v =
    (if comparator v \<noteq> ComparatorName \<or> length (liveTables v) > MaxChangesPerEdit then Inl ErrInvalidEdit
     else if historyCovered v then Inr (snapshotRecord v (liveTables v))
     else Inl ErrFrontierGap)"
proof -
  have ok: "versionOk v" using assms by (rule versionOk_reached)
  have "\<forall>t\<in>set (concat (levels v)). kindsValid t"
    using ok by (auto simp: versionOk_def levelsOk_def tableOk_def in_set_conv_nth [of _ "levels v"])
  then have start: "snapshotEdit v = bindR (applyEdit initialVersion (snapshotRecord v (liveTables v)))
      (\<lambda>_. Inr (snapshotRecord v (liveTables v)))"
    by (simp add: snapshotEdit_def cloneLevels_eq liveTables_def Let_def)
  show ?thesis
  proof (cases "comparator v = ComparatorName")
    case True
    then show ?thesis using start snapshot_apply [OF ok True refl] by simp
  next
    case False
    then have v: "v = initialVersion" using ok by (auto simp: versionOk_def scalarsOk_def)
    have "validateEditShape (snapshotRecord v (liveTables v)) = Inl ErrInvalidEdit"
      by (simp add: v validateEditShape_def snapshotRecord_def initialVersion_def liveTables_def mode_defs)
    then show ?thesis using start False by (simp add: applyEdit_def)
  qed
qed

lemma rebuilt_equivalent: "versionOk v \<Longrightarrow> validateEquivalent v (rebuilt v) = Inr ()"
  by (simp add: validateEquivalent_def rebuilt_def list_all_iff list_all2_same tableEqual_def)

section \<open>A manifest to evaluate\<close>

definition exTable :: "u32 \<Rightarrow> u64 \<Rightarrow> u64 \<Rightarrow> u64 \<Rightarrow> bytes \<Rightarrow> TableMetadata" where
  "exTable level number low high key =
     \<lparr>tabLevel = level, fileNumber = number, flushGeneration = 1, fileSize = 100, entryCount = 2,
      deletionCount = 0, rawKeyValueBytes = 8, dataBlockCount = 1, smallestSequence = low,
      largestSequence = high, smallestInternal = InternalKey key high KindValue,
      largestInternal = InternalKey key low KindValue, smallestUser = key, largestUser = key\<rparr>"

definition exEdit :: VersionEdit where
  "exEdit =
     \<lparr>edComparator = Some ComparatorName, edNextFileNumber = Some 10, edLastSequence = Some 9,
      edReplayFrontier = Some 4, edStorageMode = None, edReplicatedAppliedThrough = None,
      edMaxAppliedMVCC = None, edDeletedFiles = [],
      edAddedFiles = [exTable 0 2 5 8 [1], exTable 0 1 0 4 [1]]\<rparr>"

definition exVersion :: Version where
  "exVersion =
     \<lparr>generation = 1, comparator = ComparatorName,
      levels = [[exTable 0 2 5 8 [1], exTable 0 1 0 4 [1]], [], [], [], [], [], [], []],
      nextFileNumber = 10, haveLastSequence = True, lastSequence = 9, haveFrontier = True, frontier = 4,
      mode = ModeStandalone, modeExplicit = False, replicatedApplied = 0, haveReplicatedApplied = False,
      maxAppliedMVCC = 0, haveMaxAppliedMVCC = False\<rparr>"

lemma ComparatorName_size [simp]: "ComparatorName \<noteq> []" "length ComparatorName = 23"
  by (simp_all add: ComparatorName_def)

lemma exTable_valid:
  "validateTable (exTable 0 2 5 8 [1]) = Inr ()" "validateTable (exTable 0 1 0 4 [1]) = Inr ()"
  "kindsValid (exTable l n a b k)"
  by (simp_all add: validateTable_def exTable_def MaxLevels_def MaxFileNumber_def FooterSize_def
      MaxTableUserKey_def kindsValid_def kindValid_def kind_defs compareInternal_def)

lemma emptyLevels: "replicate MaxLevels [] = [[], [], [], [], [], [], [], []]"
  by (simp add: MaxLevels_def eval_nat_numeral)

lemma initial_fields:
  "generation initialVersion = 0" "comparator initialVersion = []" "nextFileNumber initialVersion = 1"
  "haveLastSequence initialVersion = False" "haveFrontier initialVersion = False"
  "mode initialVersion = ModeStandalone" "modeExplicit initialVersion = False"
  "haveReplicatedApplied initialVersion = False" "haveMaxAppliedMVCC initialVersion = False"
  by (simp_all add: initialVersion_def)

lemma exVersion_applied: "applyEdit initialVersion exEdit = Inr exVersion"
proof -
  have shape: "validateEditShape exEdit = Inr ()"
    by (simp add: validateEditShape_def exEdit_def MaxChangesPerEdit_def exTable_valid)
       (simp add: exTable_def)
  have clone: "cloneVersion initialVersion = Inr initialVersion"
    by (simp add: cloneVersion_eq initialVersion_def liveTables_def)
  let ?u = "initialVersion\<lparr>comparator := ComparatorName, nextFileNumber := 10, lastSequence := 9, haveLastSequence := True\<rparr>"
  have levels: "applyLevels exEdit ?u = Inr (?u\<lparr>levels := levels exVersion\<rparr>)"
    by (simp add: applyLevels_def exEdit_def hasFile_def initialVersion_def emptyLevels cloneTable_eq
        exTable_valid sortLevel_def exVersion_def Let_def)
       (simp add: exTable_def compareNewest_def cmpUint64_def sortLevel_def, simp add: word_le_nat_alt)
  have "frontierCovered (?u\<lparr>levels := levels exVersion\<rparr>) 4"
    by (simp add: frontierCovered_def liveTables_def exVersion_def initialVersion_def tableSpan_def)
       (simp add: exTable_def compareSpan_def cmpUint64_def)
  moreover have "highestFile (?u\<lparr>levels := levels exVersion, frontier := 4, haveFrontier := True\<rparr>) < 10"
    by (simp add: highestFile_def liveTables_def exVersion_def exTable_def word_less_nat_alt max_def)
  moreover have "?u\<lparr>levels := levels exVersion, frontier := 4, haveFrontier := True, generation := 1\<rparr> = exVersion"
    by (simp add: initialVersion_def exVersion_def)
  moreover have "edComparator exEdit = Some ComparatorName" "edNextFileNumber exEdit = Some 10"
    "edLastSequence exEdit = Some 9" "edReplayFrontier exEdit = Some 4" "edStorageMode exEdit = None"
    "edReplicatedAppliedThrough exEdit = None" "edMaxAppliedMVCC exEdit = None"
    by (simp_all add: exEdit_def)
  ultimately show ?thesis
    using shape clone levels
    by (simp add: applyEdit_def apply_stages maxNextFileNumber_def initial_fields mode_defs not_le)
qed

lemma exVersion_reached: "versionReached exVersion"
  by (rule versionReached.edit [OF versionReached.initial exVersion_applied])

section \<open>Versions\<close>

text \<open>
  C18. Every version that a sequence of accepted edits leads to is well formed: its tables are
  valid, stand once at their own level under file numbers of their own that are below the next
  file number, level 0 is ordered from the newest table to the oldest, the user-key ranges of
  each other level are disjoint and ascending, and the durable watermarks agree with the
  storage mode.
\<close>

theorem version_wellformed: "versionReached v \<Longrightarrow> versionOk v"
  by (rule versionOk_reached)

theorem version_wellformed_witness: "versionReached exVersion \<and> versionOk exVersion"
  using version_wellformed [OF exVersion_reached] exVersion_reached by blast

text \<open>
  C19. An accepted edit moves no durable watermark back: the next file number, the last
  sequence, the replay frontier, the replicated frontier and the greatest applied timestamp
  only grow, a watermark once present stays present, the generation increases, and after the
  first edit the storage mode never changes.
\<close>

theorem version_watermarks:
  "versionReached v \<Longrightarrow> applyEdit v e = Inr w \<Longrightarrow> versionLe v w"
  using versionOk_reached [of v] applyEdit_le [of v e w]
  by (auto simp: versionOk_def scalarsOk_def initialVersion_def)

theorem version_watermarks_witness:
  "versionReached initialVersion \<and> applyEdit initialVersion exEdit = Inr exVersion \<and> versionLe initialVersion exVersion"
  using version_watermarks [OF versionReached.initial exVersion_applied] exVersion_applied
    versionReached.initial by blast

text \<open>
  C20. The coverage test for a new replay frontier is exact: beyond the current frontier it
  accepts a target if and only if every sequence from the first one after the frontier up to the
  target lies within the sequence span of some live table. The sweep over the sorted spans
  therefore never skips a gap and never refuses a covered target.
\<close>

theorem frontier_exact:
  "\<not> (haveFrontier v \<and> target \<le> frontier v) \<Longrightarrow>
    frontierCovered v target \<longleftrightarrow>
      (\<forall>q. (if haveFrontier v then frontier v + 1 else 0) \<le> q \<and> q \<le> target \<longrightarrow>
        (\<exists>t\<in>set (liveTables v). smallestSequence t \<le> q \<and> q \<le> largestSequence t))"
  using frontierCovered_iff [of v target]
  by (simp add: frontierStart_def sequenceCovered_def list_ex_iff)

theorem frontier_exact_witness:
  "\<not> (haveFrontier exVersion \<and> 8 \<le> frontier exVersion) \<and> frontierCovered exVersion 8 \<and>
    (\<exists>t\<in>set (liveTables exVersion). smallestSequence t \<le> 6 \<and> 6 \<le> largestSequence t)"
proof -
  have beyond: "\<not> (haveFrontier exVersion \<and> 8 \<le> frontier exVersion)" by (simp add: exVersion_def)
  have "(if haveFrontier exVersion then frontier exVersion + 1 else 0) \<le> (6 :: u64) \<and> 6 \<le> (8 :: u64)"
    by (simp add: exVersion_def)
  moreover have covered: "frontierCovered exVersion 8"
    by (simp add: frontierCovered_def liveTables_def exVersion_def tableSpan_def exTable_def
        compareSpan_def cmpUint64_def)
  ultimately have "\<exists>t\<in>set (liveTables exVersion). smallestSequence t \<le> 6 \<and> 6 \<le> largestSequence t"
    using frontier_exact [OF beyond] by blast
  then show ?thesis using beyond covered by blast
qed

text \<open>
  C21. The frontier that a flush proposes is the greatest one that the version accepts: it is
  covered, it is not behind the current one, and nothing above it is covered. No frontier is
  proposed only if none is covered.
\<close>

theorem greatest_frontier:
  "maximumContiguousFrontier v = (f, ok) \<Longrightarrow>
    if ok then (haveFrontier v \<longrightarrow> frontier v \<le> f) \<and> frontierCovered v f \<and> (\<forall>g>f. \<not> frontierCovered v g)
    else \<forall>g. \<not> frontierCovered v g"
  by (rule maximumContiguousFrontier_spec)

theorem greatest_frontier_witness:
  "maximumContiguousFrontier exVersion = (8, True) \<and> frontierCovered exVersion 8 \<and>
    \<not> frontierCovered exVersion 9"
proof -
  have "maximumContiguousFrontier exVersion = (8, True)"
    by (simp add: maximumContiguousFrontier_def liveTables_def exVersion_def tableSpan_def exTable_def
        compareSpan_def cmpUint64_def)
  then show ?thesis using greatest_frontier [of exVersion 8 True] by simp
qed

text \<open>
  C23. A written edit is read back: decoding the encoding of an edit returns the edit with its
  deletions and additions in the canonical order, whatever optional fields it carries.
\<close>

theorem manifest_edit_roundtrip:
  "EncodeVersionEdit e = Inr bs \<Longrightarrow>
    DecodeVersionEdit bs = Inr (e\<lparr>edDeletedFiles := sortFunc compareDeleted (edDeletedFiles e),
      edAddedFiles := sortFunc compareTableIdentity (edAddedFiles e)\<rparr>)"
  using edit_roundtrip [of e bs] by (simp add: canonicalEdit_def)

lemma exEdit_encodes: "\<exists>bs. EncodeVersionEdit exEdit = Inr bs"
proof -
  have shape: "validateEditShape exEdit = Inr ()"
    using exVersion_applied by (auto simp: applyEdit_def elim: bindR_okE)
  have len: "length (encodeInternalKey (InternalKey [b] n k)) = 10" for b n k
    by (simp add: encodeInternalKey_def)
  have parts: "\<exists>p. encodeTable (exTable 0 n a b [1]) = Inr p \<and> length p < 1000"
    if "validateTable (exTable 0 n a b [1]) = Inr ()" for n a b
    using that by (simp add: encodeTable_def, simp add: exTable_def len)
  obtain p q where "encodeTable (exTable 0 2 5 8 [1]) = Inr p" "length p < 1000"
      "encodeTable (exTable 0 1 0 4 [1]) = Inr q" "length q < 1000"
    using parts exTable_valid by metis
  moreover have "sortFunc compareTableIdentity (edAddedFiles exEdit) = [exTable 0 1 0 4 [1], exTable 0 2 5 8 [1]]"
    by (simp add: exEdit_def) (simp add: exTable_def compareTableIdentity_def cmpUint64_def)
  ultimately show ?thesis
    using shape
    by (simp add: EncodeVersionEdit_def cloneTables_eq exTable_valid exEdit_def scalarFields_def
        MaxEditSize_def fieldHeaderSize_def fieldBytes_def)
qed

theorem manifest_edit_roundtrip_witness:
  "\<exists>bs. EncodeVersionEdit exEdit = Inr bs \<and>
    DecodeVersionEdit bs = Inr (exEdit\<lparr>edDeletedFiles := sortFunc compareDeleted (edDeletedFiles exEdit),
      edAddedFiles := sortFunc compareTableIdentity (edAddedFiles exEdit)\<rparr>)"
  using exEdit_encodes manifest_edit_roundtrip [of exEdit] by blast

text \<open>
  C22. A manifest rewrite keeps the version: if the snapshot of a reached version is
  constructed and encoded, then decoding it succeeds, applying the decoded edit to the initial
  version succeeds, and the result is equivalent to the version by the comparison that the
  rewrite performs before it switches to the new file. That comparison therefore never fails.
\<close>

theorem snapshot_rebuilds:
  assumes "versionReached v" and "snapshotEdit v = Inr e" and "EncodeVersionEdit e = Inr bs"
  shows "\<exists>d w. DecodeVersionEdit bs = Inr d \<and> applyEdit initialVersion d = Inr w \<and>
    validateEquivalent v w = Inr ()"
proof -
  have ok: "versionOk v" using assms(1) by (rule versionOk_reached)
  have e: "e = snapshotRecord v (liveTables v)" and cmp: "comparator v = ComparatorName"
    and size: "length (liveTables v) \<le> MaxChangesPerEdit" and hist: "historyCovered v"
    using assms(2) snapshotEdit_eq [OF assms(1)] by (auto split: if_splits)
  let ?ts = "sortFunc compareTableIdentity (liveTables v)"
  have "canonicalEdit e = snapshotRecord v ?ts" by (simp add: e canonicalEdit_def snapshotRecord_def)
  then have "DecodeVersionEdit bs = Inr (snapshotRecord v ?ts)"
    using edit_roundtrip [OF assms(3)] by simp
  moreover have "applyEdit initialVersion (snapshotRecord v ?ts) = Inr (rebuilt v)"
    using snapshot_apply [OF ok cmp, of ?ts] size hist by simp
  ultimately show ?thesis using rebuilt_equivalent [OF ok] by blast
qed

lemma exVersion_snapshot: "snapshotEdit exVersion = Inr (snapshotRecord exVersion (liveTables exVersion))"
proof -
  have "sequenceCovered exVersion q" if "q \<le> 4" for q
    using that by (simp add: sequenceCovered_def liveTables_def exVersion_def exTable_def)
  then have "historyCovered exVersion" by (simp add: historyCovered_def) (simp add: exVersion_def)
  then show ?thesis
    using snapshotEdit_eq [OF exVersion_reached]
    by (simp add: exVersion_def liveTables_def MaxChangesPerEdit_def)
qed

lemma exSnapshot: "snapshotRecord exVersion (liveTables exVersion) = exEdit"
  by (simp add: snapshotRecord_def exVersion_def exEdit_def liveTables_def mode_defs)

theorem snapshot_rebuilds_witness:
  "versionReached exVersion \<and> snapshotEdit exVersion = Inr exEdit \<and>
    (\<exists>bs d w. EncodeVersionEdit exEdit = Inr bs \<and> DecodeVersionEdit bs = Inr d \<and>
      applyEdit initialVersion d = Inr w \<and> validateEquivalent exVersion w = Inr ())"
  using snapshot_rebuilds [OF exVersion_reached] exVersion_snapshot exSnapshot exEdit_encodes
    exVersion_reached by metis

end
