(* ===== verification/Manifest_Replay.thy ===== *)
theory Manifest_Replay
  imports Manifest_Properties
begin

text \<open>
  Why replaying a manifest rebuilds the version in memory. A record holds the canonical form
  of an edit, so this theory shows that an edit and its canonical form lead to the same
  version, and that versions which differ in their generation only accept the same edits.
\<close>

section \<open>The order of the changes does not matter\<close>

lemma delete_found:
  "findFile l n = Some i \<Longrightarrow> distinct (map fileNumber l) \<Longrightarrow>
    take i l @ drop (Suc i) l = filter (\<lambda>t. fileNumber t \<noteq> n) l"
proof (induction l arbitrary: i)
  case (Cons t l)
  show ?case
  proof (cases "fileNumber t = n")
    case True
    then have "i = 0" using Cons.prems(1) by simp
    moreover have "filter (\<lambda>t. fileNumber t \<noteq> n) l = l"
      using Cons.prems(2) True by (intro filter_True) (auto simp: image_iff)
    ultimately show ?thesis using True by simp
  next
    case False
    then obtain j where "findFile l n = Some j" "i = Suc j" using Cons.prems(1) by auto
    then show ?thesis using Cons False by simp
  qed
qed simp

lemma levelsOk_unique:
  assumes "levelsOk ls" "i < MaxLevels" "j < MaxLevels" "t \<in> set (ls ! i)" "u \<in> set (ls ! j)"
    and "fileNumber t = fileNumber u"
  shows "t = u" and "i = j"
proof -
  have "t \<in> set (concat ls)" "u \<in> set (concat ls)"
    using assms levels_nth_live [of i ls t] levels_nth_live [of j ls u] by (auto simp: levelsOk_def)
  then show "t = u" using assms(1,6) unfolding levelsOk_def by (blast dest: inj_onD)
  moreover have "unat (tabLevel t) = i" "unat (tabLevel u) = j"
    using assms(1-5) by (simp_all add: levelsOk_def)
  ultimately show "i = j" by simp
qed

lemma levelsOk_numbers: "levelsOk ls \<Longrightarrow> i < MaxLevels \<Longrightarrow> distinct (map fileNumber (ls ! i))"
  unfolding distinct_map
  by (intro conjI inj_onI) (simp add: levelsOk_def, rule levelsOk_unique(1))

lemma delete_everywhere:
  assumes "levelsOk ls" "j < MaxLevels" "t \<in> set (ls ! j)" "fileNumber t = n"
  shows "ls[j := filter (\<lambda>t. fileNumber t \<noteq> n) (ls ! j)] = map (filter (\<lambda>t. fileNumber t \<noteq> n)) ls"
proof (rule nth_equalityI)
  fix i assume "i < length (ls[j := filter (\<lambda>t. fileNumber t \<noteq> n) (ls ! j)])"
  then have i: "i < MaxLevels" "i < length ls" using assms(1) by (simp_all add: levelsOk_def)
  have "filter (\<lambda>t. fileNumber t \<noteq> n) (ls ! i) = ls ! i" if "i \<noteq> j"
    using levelsOk_unique(2) [OF assms(1) i(1) assms(2) _ assms(3)] assms(4) that by (intro filter_True) auto
  then show "ls[j := filter (\<lambda>t. fileNumber t \<noteq> n) (ls ! j)] ! i = map (filter (\<lambda>t. fileNumber t \<noteq> n)) ls ! i"
    using i by (cases "i = j") auto
qed simp

lemma levelsOk_filter:
  assumes "levelsOk ls"
  shows "levelsOk (map (filter P) ls)"
proof -
  have "set (concat (map (filter P) ls)) \<subseteq> set (concat ls)" by auto
  then have "inj_on fileNumber (set (concat (map (filter P) ls)))"
    using assms unfolding levelsOk_def by (blast intro: inj_on_subset)
  then show ?thesis using assms by (auto simp: levelsOk_def)
qed

definition deletable :: "TableMetadata list list \<Rightarrow> DeletedFile \<Rightarrow> bool" where
  "deletable ls d \<longleftrightarrow> (\<exists>t\<in>set (ls ! unat (delLevel d)). fileNumber t = delFileNumber d)"

definition withoutFiles :: "u64 set \<Rightarrow> TableMetadata list list \<Rightarrow> TableMetadata list list" where
  "withoutFiles ns ls = map (filter (\<lambda>t. fileNumber t \<notin> ns)) ls"

lemma withoutFiles_insert:
  "withoutFiles (insert n ns) ls = withoutFiles ns (map (filter (\<lambda>t. fileNumber t \<noteq> n)) ls)"
  by (auto simp: withoutFiles_def intro: filter_cong)

lemma withoutFiles_empty: "withoutFiles {} ls = ls"
  by (simp add: withoutFiles_def map_idI)

lemma applyDeletions_iff:
  assumes "levelsOk (levels v)" and "\<forall>d\<in>set ds. unat (delLevel d) < MaxLevels"
  shows "applyDeletions seen ds v = Inr r \<longleftrightarrow>
    distinct (map delFileNumber ds) \<and> delFileNumber ` set ds \<inter> seen = {} \<and> (\<forall>d\<in>set ds. deletable (levels v) d) \<and>
    r = (seen \<union> delFileNumber ` set ds, v\<lparr>levels := withoutFiles (delFileNumber ` set ds) (levels v)\<rparr>)"
  using assms
proof (induction ds arbitrary: seen v)
  case Nil
  then show ?case by (auto simp: withoutFiles_empty)
next
  case (Cons d ds)
  let ?n = "delFileNumber d" and ?j = "unat (delLevel d)"
  let ?ls = "map (filter (\<lambda>t. fileNumber t \<noteq> ?n)) (levels v)"
  have j: "?j < MaxLevels" using Cons.prems(2) by simp
  have keep: "deletable ?ls e \<longleftrightarrow> deletable (levels v) e" if "delFileNumber e \<noteq> ?n" "unat (delLevel e) < MaxLevels" for e
    using that Cons.prems(1) by (auto simp: deletable_def levelsOk_def)
  show ?case
  proof (cases "findFile (levels v ! ?j) ?n")
    case None
    then have "\<not> deletable (levels v) d" by (simp add: deletable_def findFile_None)
    then show ?thesis using None by (simp add: Let_def)
  next
    case (Some i)
    then have d: "deletable (levels v) d" using findFile_None [of "levels v ! ?j" ?n] by (auto simp: deletable_def)
    then obtain t where t: "t \<in> set (levels v ! ?j)" "fileNumber t = ?n" by (auto simp: deletable_def)
    have cut: "(levels v)[?j := take i (levels v ! ?j) @ drop (Suc i) (levels v ! ?j)] = ?ls"
      using delete_found [OF Some levelsOk_numbers [OF Cons.prems(1) j]] delete_everywhere [OF Cons.prems(1) j t] by simp
    have step: "applyDeletions seen (d # ds) v = Inr r \<longleftrightarrow>
        ?n \<notin> seen \<and> applyDeletions (insert ?n seen) ds (v\<lparr>levels := ?ls\<rparr>) = Inr r"
      using Some cut by (simp add: Let_def)
    have ih: "applyDeletions (insert ?n seen) ds (v\<lparr>levels := ?ls\<rparr>) = Inr r \<longleftrightarrow>
      distinct (map delFileNumber ds) \<and> delFileNumber ` set ds \<inter> insert ?n seen = {} \<and> (\<forall>d\<in>set ds. deletable ?ls d) \<and>
      r = (insert ?n seen \<union> delFileNumber ` set ds, v\<lparr>levels := withoutFiles (delFileNumber ` set ds) ?ls\<rparr>)"
      using Cons.IH [of "v\<lparr>levels := ?ls\<rparr>" "insert ?n seen"] levelsOk_filter [OF Cons.prems(1)] Cons.prems(2) by simp
    have "(\<forall>d\<in>set ds. deletable ?ls d) \<longleftrightarrow> (\<forall>d\<in>set ds. deletable (levels v) d)" if "?n \<notin> delFileNumber ` set ds"
    proof (intro ball_cong refl)
      fix e assume "e \<in> set ds"
      then show "deletable ?ls e \<longleftrightarrow> deletable (levels v) e"
        using that Cons.prems(2) by (intro keep) (auto simp: image_iff)
    qed
    then show ?thesis
      unfolding step ih using d by (simp add: withoutFiles_insert) blast
  qed
qed

lemma disjoint_sub: "B \<subseteq> C \<Longrightarrow> A \<inter> C = {} \<Longrightarrow> A \<inter> B = {}"
  by blast

lemma applyAdditions_conditions:
  assumes "applyAdditions seen ts v = Inr w" and "\<forall>t\<in>set ts. unat (tabLevel t) < length (levels v)"
  shows "distinct (map fileNumber ts) \<and> fileNumber ` set ts \<inter> seen = {} \<and>
    (\<forall>t\<in>set ts. kindsValid t \<and> fileNumber t < nextFileNumber v) \<and>
    fileNumber ` set ts \<inter> fileNumber ` set (liveTables v) = {}"
  using assms
proof (induction seen ts v rule: applyAdditions.induct)
  case (2 seen t ts v)
  let ?j = "unat (tabLevel t)"
  let ?v = "v\<lparr>levels := (levels v)[?j := levels v ! ?j @ [t]]\<rparr>"
  have g: "fileNumber t \<notin> seen" "\<not> hasFile v (fileNumber t)" "fileNumber t < nextFileNumber v" "kindsValid t"
    and rest: "applyAdditions (insert (fileNumber t) seen) ts ?v = Inr w"
    using "2.prems"(1) by (auto simp: cloneTable_eq not_le split: if_splits)
  have ih: "distinct (map fileNumber ts)" "fileNumber ` set ts \<inter> insert (fileNumber t) seen = {}"
    "\<forall>t\<in>set ts. kindsValid t \<and> fileNumber t < nextFileNumber v"
    "fileNumber ` set ts \<inter> fileNumber ` set (liveTables ?v) = {}"
    using "2.IH" [of t] g rest "2.prems"(2) by (auto simp: cloneTable_eq not_le)
  have "set (liveTables v) \<subseteq> set (liveTables ?v)"
  proof
    fix x assume "x \<in> set (liveTables v)"
    then obtain i where i: "i < length (levels v)" "x \<in> set (levels v ! i)"
      by (auto simp: liveTables_def in_set_conv_nth [of _ "levels v"])
    then have "x \<in> set (levels ?v ! i)" using "2.prems"(2) by (simp add: nth_list_update)
    then show "x \<in> set (liveTables ?v)" using i levels_nth_live [of i "levels ?v" x] by (simp add: liveTables_def)
  qed
  then have "fileNumber ` set (liveTables v) \<subseteq> fileNumber ` set (liveTables ?v)" by (rule image_mono)
  then have "fileNumber ` set ts \<inter> fileNumber ` set (liveTables v) = {}" using ih(4) by (rule disjoint_sub)
  moreover have "fileNumber t \<notin> fileNumber ` set (liveTables v)" using g(2) unfolding hasFile_iff by (auto simp: image_iff)
  ultimately show ?case using ih(1-3) g by simp
qed simp

lemma applyLevels_permute:
  assumes "applyLevels e v = Inr w" and shape: "validateEditShape e = Inr u" and ok: "levelsOk (levels v)"
    and below: "\<forall>t\<in>set (liveTables v). fileNumber t < nextFileNumber v"
    and ds: "mset ds = mset (edDeletedFiles e)" and ts: "mset ts = mset (edAddedFiles e)"
  shows "applyLevels (e\<lparr>edDeletedFiles := ds, edAddedFiles := ts\<rparr>) v = Inr w"
proof -
  obtain seen v1 v2 ls where del: "applyDeletions {} (edDeletedFiles e) v = Inr (seen, v1)"
    and add: "applyAdditions seen (edAddedFiles e) v1 = Inr v2" and srt: "sortLevels 0 (levels v2) = Inr ls"
    and w: "w = v2\<lparr>levels := ls\<rparr>"
    using assms(1) unfolding applyLevels_def by (auto elim!: bindR_okE)
  have sets: "set ds = set (edDeletedFiles e)" "set ts = set (edAddedFiles e)"
    using ds ts by (auto dest: mset_eq_setD)
  have dlev: "\<forall>d\<in>set (edDeletedFiles e). unat (delLevel d) < MaxLevels" by (rule validateEditShape_ok(1) [OF shape])
  have del': "applyDeletions {} ds v = Inr (seen, v1)"
    using del dlev sets distinct_map_mset [OF ds, of delFileNumber]
    by (simp add: applyDeletions_iff [OF ok])
  obtain l1 where l1: "v1 = v\<lparr>levels := l1\<rparr>" "levelsOk l1" "set (concat l1) \<subseteq> set (concat (levels v))"
    using applyDeletions_ok [OF del ok dlev] by blast
  have below1: "\<forall>t\<in>set (liveTables v1). fileNumber t < nextFileNumber v1"
    using l1 below by (auto simp: liveTables_def)
  have tlev: "\<forall>t\<in>set (edAddedFiles e). unat (tabLevel t) < length (levels v1)"
    using validateEditShape_ok(2) [OF shape] l1(1,2) by (auto simp: validateTable_def levelsOk_def split: if_splits)
  note cond = applyAdditions_conditions [OF add tlev]
  obtain m1 where m1: "v2 = v1\<lparr>levels := m1\<rparr>" "length m1 = length (levels v1)"
      "\<forall>i<length (levels v1). m1 ! i = levels v1 ! i @ filter (\<lambda>t. unat (tabLevel t) = i) (edAddedFiles e)"
    using applyAdditions_levels [of "edAddedFiles e" seen v1] cond tlev add by auto
  obtain m2 where m2: "applyAdditions seen ts v1 = Inr (v1\<lparr>levels := m2\<rparr>)" "length m2 = length (levels v1)"
      "\<forall>i<length (levels v1). m2 ! i = levels v1 ! i @ filter (\<lambda>t. unat (tabLevel t) = i) ts"
    using applyAdditions_levels [of ts seen v1] cond tlev distinct_map_mset [OF ts, of fileNumber] sets(2) by auto
  have "levelsOk (levels v2)"
    using applyAdditions_ok [OF add _ validateEditShape_ok(2) [OF shape] below1] l1(1,2) by auto
  then have "levelsOk m1" using m1(1) by simp
  then have lsok: "levelsOk ls" "levelsSorted ls" using sortLevels_sorted [of m1 ls] srt m1(1) by auto
  have len: "length (levels v1) = MaxLevels" using l1 by (simp add: levelsOk_def)
  note sorted = sortLevels_ok [OF srt]
  have "mset (m2 ! i) = mset (ls ! i)" if "i < MaxLevels" for i
  proof -
    have "mset (m2 ! i) = mset (m1 ! i)" using that m1(3) m2(3) len ts by (simp add: mset_filter)
    then show ?thesis using that sorted m1(1,2) len by simp
  qed
  then have "\<forall>i<MaxLevels. sortLevel i (m2 ! i) = ls ! i" using sortLevel_restores [OF lsok] by blast
  then have "sortLevels 0 m2 = Inr ls"
    using sorted m1(1,2) m2(2) len by (intro sortLevels_restores) auto
  then show ?thesis using del' m2(1) w m1(1) by (simp add: applyLevels_def)
qed

section \<open>Replaying the record of an edit\<close>

text \<open>
  \<open>sameVersion r v\<close>: the replayed version \<open>r\<close> is the one in memory, with a generation that
  counts the records of the present manifest only.
\<close>

definition sameVersion :: "Version \<Rightarrow> Version \<Rightarrow> bool" where
  "sameVersion r v \<longleftrightarrow> r = v\<lparr>generation := generation r\<rparr> \<and> generation r \<noteq> 0 \<and> generation r \<le> generation v"

lemma generation_levels: "v\<lparr>generation := g, levels := ls\<rparr> = v\<lparr>levels := ls, generation := g\<rparr>"
  by simp

lemma liveTables_generation [simp]: "liveTables (v\<lparr>generation := g\<rparr>) = liveTables v"
  by (simp add: liveTables_def)

lemma frontierCovered_generation [simp]: "frontierCovered (v\<lparr>generation := g\<rparr>) f = frontierCovered v f"
  by (simp add: frontierCovered_def Let_def)

lemma highestFile_generation [simp]: "highestFile (v\<lparr>generation := g\<rparr>) = highestFile v"
  by (simp add: highestFile_def)

lemma hasFile_generation [simp]: "hasFile (v\<lparr>generation := g\<rparr>) n = hasFile v n"
  by (simp add: hasFile_def)

lemma applyDeletions_generation:
  "applyDeletions seen ds v = Inr (s, w) \<Longrightarrow> applyDeletions seen ds (v\<lparr>generation := g\<rparr>) = Inr (s, w\<lparr>generation := g\<rparr>)"
  by (induction seen ds v rule: applyDeletions.induct)
     (auto simp: Let_def generation_levels split: option.splits if_splits)

lemma applyAdditions_generation:
  "applyAdditions seen ts v = Inr w \<Longrightarrow> applyAdditions seen ts (v\<lparr>generation := g\<rparr>) = Inr (w\<lparr>generation := g\<rparr>)"
  by (induction seen ts v rule: applyAdditions.induct)
     (auto simp: cloneTable_eq generation_levels split: if_splits)

lemma applyLevels_generation:
  assumes "applyLevels e v = Inr w"
  shows "applyLevels e (v\<lparr>generation := g\<rparr>) = Inr (w\<lparr>generation := g\<rparr>)"
proof -
  obtain seen v1 v2 ls where steps: "applyDeletions {} (edDeletedFiles e) v = Inr (seen, v1)"
      "applyAdditions seen (edAddedFiles e) v1 = Inr v2" "sortLevels 0 (levels v2) = Inr ls" "w = v2\<lparr>levels := ls\<rparr>"
    using assms unfolding applyLevels_def by (auto elim!: bindR_okE)
  then show ?thesis
    using applyDeletions_generation [OF steps(1), of g] applyAdditions_generation [OF steps(2), of g]
    by (simp add: applyLevels_def)
qed

text \<open>A stage that neither reads nor writes the generation.\<close>

definition genericStage :: "(Version \<Rightarrow> ManifestError + Version) \<Rightarrow> bool" where
  "genericStage f \<longleftrightarrow>
     (\<forall>v w g. f v = Inr w \<longrightarrow> f (v\<lparr>generation := g\<rparr>) = Inr (w\<lparr>generation := g\<rparr>) \<and>
        generation w = generation v \<and> nextFileNumber v \<le> nextFileNumber w)"

lemma genericStageD:
  "genericStage f \<Longrightarrow> f v = Inr w \<Longrightarrow>
    f (v\<lparr>generation := g\<rparr>) = Inr (w\<lparr>generation := g\<rparr>) \<and> generation w = generation v \<and> nextFileNumber v \<le> nextFileNumber w"
  by (simp add: genericStage_def)

lemma generic_comparator: "genericStage (applyComparator e)"
  by (auto simp: genericStage_def applyComparator_def split: option.splits if_splits)

lemma generic_nextFile: "genericStage (applyNextFile e)"
  by (auto simp: genericStage_def applyNextFile_def not_less split: option.splits if_splits)

lemma generic_lastSequence: "genericStage (applyLastSequence e)"
  by (auto simp: genericStage_def applyLastSequence_def split: option.splits if_splits)

lemma generic_levels: "genericStage (applyLevels e)"
proof -
  have "generation w = generation v \<and> nextFileNumber v \<le> nextFileNumber w" if "applyLevels e v = Inr w" for v w
    using that unfolding applyLevels_def
    by (auto elim!: bindR_okE dest!: applyDeletions_frame applyAdditions_frame)
  then show ?thesis by (simp add: genericStage_def applyLevels_generation)
qed

lemma generic_frontier: "genericStage (applyFrontier e)"
  by (auto simp: genericStage_def applyFrontier_def split: option.splits if_splits)

lemma generic_replicated: "genericStage (applyReplicated e)"
  by (auto simp: genericStage_def applyReplicated_def split: option.splits if_splits)

lemma generic_maxMVCC: "genericStage (applyMaxMVCC e)"
  by (auto simp: genericStage_def applyMaxMVCC_def split: option.splits if_splits)

lemma applyMode_generation:
  "applyMode e v = Inr w \<Longrightarrow> generation v \<noteq> 0 \<Longrightarrow>
    applyMode e (v\<lparr>generation := g\<rparr>) = Inr (v\<lparr>generation := g\<rparr>) \<and> w = v"
  by (auto simp: applyMode_def split: option.splits if_splits)

lemma scalar_stages_levels:
  "applyComparator e v = Inr w \<Longrightarrow> levels w = levels v"
  "applyNextFile e v = Inr w \<Longrightarrow> levels w = levels v"
  "applyLastSequence e v = Inr w \<Longrightarrow> levels w = levels v"
  by (auto simp: apply_stages split: option.splits if_splits elim!: bindR_okE)

lemma scalar_stages_permute:
  assumes "e' = e\<lparr>edDeletedFiles := ds, edAddedFiles := ts\<rparr>"
  shows "applyComparator e' = applyComparator e" "applyMode e' = applyMode e" "applyNextFile e' = applyNextFile e"
    "applyLastSequence e' = applyLastSequence e" "applyFrontier e' = applyFrontier e"
    "applyReplicated e' = applyReplicated e" "applyMaxMVCC e' = applyMaxMVCC e"
  by (simp_all add: assms fun_eq_iff apply_stages)

lemma inc_generation: "(a :: u64) \<le> b \<Longrightarrow> b \<noteq> -1 \<Longrightarrow> a \<noteq> 0 \<Longrightarrow> a + 1 \<noteq> 0 \<and> a + 1 \<le> b + 1"
  by (metis inc_le_iff less_inc_iff linorder_not_le order_antisym_conv word_not_simps(3) word_order.extremum word_zero_le)

text \<open>An edit accepted in memory is accepted when the manifest is replayed, with the same effect.\<close>

lemma applyEdit_replay:
  assumes edit: "applyEdit v e = Inr w" and same: "sameVersion r v" and ok: "versionOk v"
    and ds: "mset ds = mset (edDeletedFiles e)" and ts: "mset ts = mset (edAddedFiles e)"
  shows "\<exists>r'. applyEdit r (e\<lparr>edDeletedFiles := ds, edAddedFiles := ts\<rparr>) = Inr r' \<and> sameVersion r' w"
  using edit
proof (rule applyEdit_stages)
  fix v1 v2 v3 v4 v5 v6 v7 v8
  define e' where e': "e' = e\<lparr>edDeletedFiles := ds, edAddedFiles := ts\<rparr>"
  let ?g = "generation r"
  assume shape: "validateEditShape e = Inr ()" and gen: "generation v \<noteq> -1"
    and s: "applyComparator e v = Inr v1" "applyMode e v1 = Inr v2" "applyNextFile e v2 = Inr v3"
      "applyLastSequence e v3 = Inr v4" "applyLevels e v4 = Inr v5" "applyFrontier e v5 = Inr v6"
      "applyReplicated e v6 = Inr v7" "applyMaxMVCC e v7 = Inr v8" "applyFinal v8 = Inr w"
  have r: "r = v\<lparr>generation := ?g\<rparr>" and g: "?g \<noteq> 0" "?g \<le> generation v" using same by (auto simp: sameVersion_def)
  note c = genericStageD [OF generic_comparator s(1), of ?g]
  have v0: "generation v1 \<noteq> 0" using c g by auto
  note m = applyMode_generation [OF s(2) v0, of ?g]
  note n = genericStageD [OF generic_nextFile s(3), of ?g] genericStageD [OF generic_lastSequence s(4), of ?g]
    genericStageD [OF generic_frontier s(6), of ?g] genericStageD [OF generic_replicated s(7), of ?g]
    genericStageD [OF generic_maxMVCC s(8), of ?g] genericStageD [OF generic_levels s(5), of ?g]
  have lev: "levels v4 = levels v" using s(1,3,4) m scalar_stages_levels by metis
  have "nextFileNumber v \<le> nextFileNumber v4" using c m n(1,2) by (metis order_trans)
  then have "\<forall>t\<in>set (liveTables v4). fileNumber t < nextFileNumber v4"
    using ok lev by (auto simp: versionOk_def liveTables_def intro: less_le_trans)
  then have "applyLevels e' v4 = Inr v5"
    using applyLevels_permute [OF s(5) shape _ _ ds ts] ok lev by (simp add: e' versionOk_def)
  note l = genericStageD [OF generic_levels this, of ?g]
  have final: "applyFinal (v8\<lparr>generation := ?g\<rparr>) = Inr (w\<lparr>generation := ?g + 1\<rparr>)" "generation w = generation v8 + 1"
    using s(9) by (auto simp: applyFinal_def split: if_splits)
  have "\<forall>t\<in>set (liveTables v). kindsValid t"
    using ok by (auto simp: versionOk_def levelsOk_def tableOk_def liveTables_def in_set_conv_nth [of _ "levels v"])
  moreover have "liveTables r = liveTables v" using r liveTables_generation by metis
  ultimately have clone: "cloneVersion r = Inr r" by (simp add: cloneVersion_eq)
  have "?g \<noteq> -1" using g(2) gen by (metis word_order.extremum_unique)
  then have "applyEdit r e' = Inr (w\<lparr>generation := ?g + 1\<rparr>)"
    unfolding applyEdit_def clone
    using shape_permute [OF shape ds ts] c m n(1-5) l final(1) r
    by (simp add: e' [symmetric] scalar_stages_permute [OF e'])
  moreover have "sameVersion (w\<lparr>generation := ?g + 1\<rparr>) w"
    using inc_generation [OF g(2) gen g(1)] final(2) c m n by (simp add: sameVersion_def)
  ultimately show ?thesis unfolding e' by blast
qed

end
