(* ===== verification/Wal_Log.thy ===== *)
theory Wal_Log
  imports Byte_Codec
begin

text \<open>
  \<open>internal/storage/wal\<close>: the checksummed log of records under the write path and under the
  manifest. A record is split into fragments that never cross a block; a fragment carries a
  checksum of its header and one of its header and content. The file under a writer is a
  sequence of bytes with a script of the outcomes of its \<open>Write\<close> and \<open>Sync\<close> calls, so that
  what is proved for all scripts holds for every way the calls may fail.
\<close>

section \<open>Format (\<open>format.go\<close>)\<close>

definition BlockSize :: nat where "BlockSize = 32768"
definition HeaderSize :: nat where "HeaderSize = 11"
definition MaxWalRecord :: nat where "MaxWalRecord = 64 * 2 ^ 20"

definition fragmentFull :: byte where "fragmentFull = 1"
definition fragmentFirst :: byte where "fragmentFirst = 2"
definition fragmentMiddle :: byte where "fragmentMiddle = 3"
definition fragmentLast :: byte where "fragmentLast = 4"

lemmas fragment_defs = fragmentFull_def fragmentFirst_def fragmentMiddle_def fragmentLast_def

text \<open>\<open>hash/crc32\<close> with the Castagnoli polynomial, as the table of the standard library has it.\<close>

primrec crcBits :: "nat \<Rightarrow> u32 \<Rightarrow> u32" where
  "crcBits 0 c = c"
| "crcBits (Suc n) c = crcBits n (if odd c then drop_bit 1 c XOR 0x82F63B78 else drop_bit 1 c)"

lemma crcBits_code [code]:
  "crcBits 0 c = c"
  "crcBits (Suc n) c = crcBits n (if bit c 0 then drop_bit 1 c XOR 0x82F63B78 else drop_bit 1 c)"
  by (simp_all add: bit_0)

definition crcStep :: "u32 \<Rightarrow> byte \<Rightarrow> u32" where
  "crcStep c v = crcBits 8 (ucast ((ucast c :: byte) XOR v)) XOR drop_bit 8 c"

definition crcUpdate :: "u32 \<Rightarrow> bytes \<Rightarrow> u32" where
  "crcUpdate crc p = NOT (foldl crcStep (NOT crc) p)"

definition makeHeader :: "bytes \<Rightarrow> byte \<Rightarrow> bytes" where
  "makeHeader payload kind =
     (let tail = le_put 2 (word_of_nat (length payload) :: u16) @ [kind];
          headerCRC = crcUpdate 0 tail;
          contentCRC = crcUpdate headerCRC payload
      in le_put 4 contentCRC @ le_put 4 headerCRC @ tail)"

definition chooseFragmentKind :: "bool \<Rightarrow> bool \<Rightarrow> byte" where
  "chooseFragmentKind isFirst isLast =
     (if isFirst \<and> isLast then fragmentFull
      else if isFirst then fragmentFirst
      else if isLast then fragmentLast
      else fragmentMiddle)"

section \<open>Writer (\<open>writer.go\<close>)\<close>

datatype WalError =
    ErrRecordTooLarge
  | ErrClosedWriter
  | ErrWriterFailed
  | ErrHeaderChecksumMismatch
  | ErrChecksumMismatch
  | ErrUnsupportedWalVersion
  | ErrInvalidFragmentType
  | ErrInvalidLength
  | ErrInvalidPadding
  | ErrTruncatedTail
  | ErrNoTruncatedTail
  | ErrRecoveryStateChanged
  | CloseFailed

text \<open>
  The file: its bytes, the results of the coming \<open>Write\<close> calls (the count, which may be any
  integer, and whether an error is returned) and of the coming \<open>Sync\<close> and \<open>Close\<close> calls on the
  file and on its directory. Past the end of a script calls succeed. \<open>fileSynced\<close> is the number
  of bytes that the last successful \<open>Sync\<close> of the file covered, and \<open>fileLinked\<close> says that the
  directory entry of the file has been synced; a crash of the machine may take the rest.
\<close>

record WalFile =
  contents :: bytes
  fileSynced :: nat
  fileLinked :: bool
  writePlan :: "(int \<times> bool) list"
  syncPlan :: "bool list"

definition fileWrite :: "WalFile \<Rightarrow> bytes \<Rightarrow> WalFile \<times> int \<times> bool" where
  "fileWrite f data =
     (case writePlan f of
        [] \<Rightarrow> (f\<lparr>contents := contents f @ data\<rparr>, int (length data), False)
      | (n, e) # plan \<Rightarrow> (f\<lparr>contents := contents f @ take (nat n) data, writePlan := plan\<rparr>, n, e))"

definition fileCall :: "WalFile \<Rightarrow> WalFile \<times> bool" where
  "fileCall f =
     (case syncPlan f of
        [] \<Rightarrow> (f, False)
      | e # plan \<Rightarrow> (f\<lparr>syncPlan := plan\<rparr>, e))"

definition fileSync :: "WalFile \<Rightarrow> WalFile \<times> bool" where
  "fileSync f =
     (let (f, err) = fileCall f in (if err then f else f\<lparr>fileSynced := length (contents f)\<rparr>, err))"

datatype Durability = SyncBatch | SyncNone

text \<open>\<open>walDirectory\<close> says that the directory entry of a new file is still to be synced.\<close>

record Writer =
  walFile :: WalFile
  walDirectory :: bool
  walOffset :: nat
  walDurability :: Durability
  walClosed :: bool
  walFailed :: bool
  walCloseErr :: bool

definition newWriter :: "WalFile \<Rightarrow> bool \<Rightarrow> Durability \<Rightarrow> Writer" where
  "newWriter f directory durability =
     \<lparr>walFile = f, walDirectory = directory, walOffset = length (contents f),
      walDurability = durability, walClosed = False, walFailed = False, walCloseErr = False\<rparr>"

definition poison :: "Writer \<Rightarrow> (Writer, WalError, unit) outcome" where
  "poison w = (w\<lparr>walFailed := True\<rparr>, Inl ErrWriterFailed)"

function writeAll :: "Writer \<Rightarrow> bytes \<Rightarrow> (Writer, WalError, unit) outcome" where
  "writeAll w data =
     (if data = [] then (w, Inr ())
      else let (f, n, err) = fileWrite (walFile w) data in
        if n < 0 \<or> n > int (length data) then poison (w\<lparr>walFile := f\<rparr>)
        else let w = w\<lparr>walFile := f, walOffset := walOffset w + nat n\<rparr> in
          if err then poison w
          else if n = 0 then poison w
          else writeAll w (drop (nat n) data))"
  by pat_completeness auto
termination
  by (relation "measure (\<lambda>(w, data). length data)") auto

declare writeAll.simps [simp del]

text \<open>What a write leaves alone: the flags of the writer and what has been synced.\<close>

definition sameDisk :: "Writer \<Rightarrow> Writer \<Rightarrow> bool" where
  "sameDisk w w' \<longleftrightarrow>
     walDirectory w' = walDirectory w \<and> walDurability w' = walDurability w \<and> walClosed w' = walClosed w \<and>
     fileSynced (walFile w') = fileSynced (walFile w) \<and> fileLinked (walFile w') = fileLinked (walFile w)"

lemma sameDisk_trans: "sameDisk a b \<Longrightarrow> sameDisk b c \<Longrightarrow> sameDisk a c"
  by (simp add: sameDisk_def)

lemma writeAll_cases:
  assumes "writeAll w data = (w', r)"
  shows "\<exists>n. contents (walFile w') = contents (walFile w) @ take n data \<and> sameDisk w w' \<and>
      (case r of Inr _ \<Rightarrow> n = length data \<and> walOffset w' = walOffset w + length data \<and> walFailed w' = walFailed w
       | Inl _ \<Rightarrow> walFailed w')"
  using assms
proof (induction w data rule: writeAll.induct)
  case (1 w data)
  show ?case
  proof (cases "data = []")
    case True
    then show ?thesis using "1.prems" by (auto simp: writeAll.simps sameDisk_def)
  next
    case False
    obtain f n err where f: "fileWrite (walFile w) data = (f, n, err)" by (metis prod_cases3)
    have cf: "contents f = contents (walFile w) @ take (nat n) data"
        "fileSynced f = fileSynced (walFile w)" "fileLinked f = fileLinked (walFile w)"
      using f by (auto simp: fileWrite_def split: list.splits)
    let ?w = "w\<lparr>walFile := f, walOffset := walOffset w + nat n\<rparr>"
    have same: "sameDisk w ?w" using cf by (simp add: sameDisk_def)
    consider "n < 0 \<or> n > int (length data)" | "0 \<le> n" "n \<le> int (length data)" "err \<or> n = 0"
      | "0 \<le> n" "n \<le> int (length data)" "\<not> err" "n \<noteq> 0"
      by fastforce
    then show ?thesis
    proof cases
      case 1
      then have "(w', r) = poison (w\<lparr>walFile := f\<rparr>)"
        using "1.prems" False f by (auto simp: writeAll.simps [of w data])
      then show ?thesis using cf by (intro exI [of _ "nat n"]) (simp add: poison_def sameDisk_def)
    next
      case 2
      then have "(w', r) = poison ?w"
        using "1.prems" False f by (auto simp: writeAll.simps [of w data] Let_def split: if_splits)
      then show ?thesis using cf by (intro exI [of _ "nat n"]) (simp add: poison_def sameDisk_def)
    next
      case 3
      then have rec: "writeAll ?w (drop (nat n) data) = (w', r)"
        using "1.prems" False f by (simp add: writeAll.simps [of w data] Let_def)
      obtain m where m: "contents (walFile w') = contents (walFile ?w) @ take m (drop (nat n) data) \<and> sameDisk ?w w' \<and>
          (case r of Inr _ \<Rightarrow> m = length (drop (nat n) data) \<and> walOffset w' = walOffset ?w + length (drop (nat n) data) \<and>
            walFailed w' = walFailed ?w | Inl _ \<Rightarrow> walFailed w')"
        using "1.IH" [OF False f [symmetric] refl refl _ refl _ _ rec] 3 by force
      have "take (nat n) data @ take m (drop (nat n) data) = take (nat n + m) data" by (simp add: take_add)
      moreover have "nat n \<le> length data" using 3 by simp
      ultimately show ?thesis
        using m cf(1) sameDisk_trans [OF same] by (intro exI [of _ "nat n + m"]) (auto split: sum.splits)
    qed
  qed
qed

lemma writeAll_ok:
  assumes "writeAll w data = (w', Inr u)"
  shows "contents (walFile w') = contents (walFile w) @ data" and "walOffset w' = walOffset w + length data"
    and "sameDisk w w'" and "walFailed w' = walFailed w"
  using writeAll_cases [OF assms] by auto

lemma writeAll_torn:
  assumes "writeAll w data = (w', Inl e)"
  shows "\<exists>n. contents (walFile w') = contents (walFile w) @ take n data" and "walFailed w'"
  using writeAll_cases [OF assms] by auto

lemma andThen_cong [fundef_cong]:
  "r = r' \<Longrightarrow> (\<And>s a. r' = (s, Inr a) \<Longrightarrow> f s a = g s a) \<Longrightarrow> andThen r f = andThen r' g"
  by (auto simp: andThen_def split: prod.splits sum.splits)

text \<open>
  The loop of \<open>Append\<close>. A fragment may be empty, when only the space of a header is left in a
  block; the next one then starts a block, so the loop ends.
\<close>

definition blockRemaining :: "nat \<Rightarrow> nat" where
  "blockRemaining offset = BlockSize - offset mod BlockSize"

definition padToBlock :: "Writer \<Rightarrow> (Writer, WalError, unit) outcome" where
  "padToBlock w =
     (if blockRemaining (walOffset w) < HeaderSize
      then writeAll w (replicate (blockRemaining (walOffset w)) 0) else (w, Inr ()))"

definition fragmentLength :: "nat \<Rightarrow> bytes \<Rightarrow> nat" where
  "fragmentLength offset rest = min (length rest) (blockRemaining offset - HeaderSize)"

lemma blockRemaining_pos: "0 < blockRemaining off"
  by (simp add: blockRemaining_def BlockSize_def)

lemma blockRemaining_next: "blockRemaining (off + blockRemaining off) = BlockSize"
proof -
  have "off mod BlockSize < BlockSize" by (simp add: BlockSize_def)
  moreover have "off - off mod BlockSize = off div BlockSize * BlockSize" by (rule minus_mod_eq_div_mult)
  moreover have "off mod BlockSize \<le> off" by simp
  ultimately have "off + blockRemaining off = off div BlockSize * BlockSize + BlockSize"
    unfolding blockRemaining_def by linarith
  then have "(off + blockRemaining off) mod BlockSize = 0" by simp
  then show ?thesis by (simp add: blockRemaining_def)
qed

lemma padToBlock_ok:
  assumes "padToBlock w = (w', Inr u)"
  shows "HeaderSize \<le> blockRemaining (walOffset w')"
proof (cases "blockRemaining (walOffset w) < HeaderSize")
  case True
  then have "walOffset w' = walOffset w + blockRemaining (walOffset w)"
    using assms writeAll_ok(2) [of w "replicate (blockRemaining (walOffset w)) 0" w' u]
    by (simp add: padToBlock_def)
  then have "blockRemaining (walOffset w') = BlockSize" by (simp add: blockRemaining_next)
  then show ?thesis by (simp add: BlockSize_def HeaderSize_def)
next
  case False
  then show ?thesis using assms by (simp add: padToBlock_def)
qed

lemma length_makeHeader [simp]: "length (makeHeader p k) = HeaderSize"
  by (simp add: makeHeader_def Let_def HeaderSize_def)

text \<open>What remains, and whether a fragment of no bytes may still come first.\<close>

definition appendMeasure :: "nat \<Rightarrow> bool \<Rightarrow> bytes \<Rightarrow> nat" where
  "appendMeasure off first rest =
     2 * length rest + (if blockRemaining off = HeaderSize then 1 else 0) + (if first then 2 else 0)"

lemma appendMeasure_step:
  assumes "HeaderSize \<le> blockRemaining off" and "first \<or> rest \<noteq> []"
  shows "appendMeasure (off + HeaderSize + fragmentLength off rest) False (drop (fragmentLength off rest) rest)
    < appendMeasure off first rest"
proof (cases "fragmentLength off rest = 0 \<and> rest \<noteq> []")
  case True
  then have full: "blockRemaining off = HeaderSize"
    using assms(1) by (auto simp: fragmentLength_def min_def split: if_splits)
  then have "blockRemaining (off + HeaderSize) = BlockSize" using blockRemaining_next [of off] by simp
  then show ?thesis using True full by (simp add: appendMeasure_def BlockSize_def HeaderSize_def)
next
  case False
  have "fragmentLength off rest \<le> length rest" by (simp add: fragmentLength_def)
  then show ?thesis
    using assms(2) False by (cases "rest = []") (auto simp: appendMeasure_def)
qed

lemma padToBlock_offset:
  assumes "padToBlock w = (w', Inr u)"
  shows "walOffset w' = walOffset w + (if blockRemaining (walOffset w) < HeaderSize then blockRemaining (walOffset w) else 0)"
  using assms writeAll_ok(2) [of w "replicate (blockRemaining (walOffset w)) 0" w' u]
  by (auto simp: padToBlock_def split: if_splits)

lemma padded_remaining:
  "blockRemaining off < HeaderSize \<Longrightarrow> HeaderSize \<le> blockRemaining (off + blockRemaining off)"
  by (simp add: blockRemaining_next BlockSize_def HeaderSize_def)

lemma padToBlock_measure:
  "padToBlock w = (w', Inr u) \<Longrightarrow> appendMeasure (walOffset w') first rest \<le> appendMeasure (walOffset w) first rest"
  using padToBlock_offset [of w w' u] blockRemaining_next [of "walOffset w"]
  by (auto simp: appendMeasure_def BlockSize_def HeaderSize_def split: if_splits)

function appendLoop :: "Writer \<Rightarrow> bool \<Rightarrow> bytes \<Rightarrow> (Writer, WalError, unit) outcome" where
  "appendLoop w first rest =
     (if \<not> (first \<or> rest \<noteq> []) then (w, Inr ())
      else
        andThen (padToBlock w) (\<lambda>w _.
        let n = fragmentLength (walOffset w) rest;
            fragment = take n rest;
            kind = chooseFragmentKind first (n = length rest)
        in
        andThen (writeAll w (makeHeader fragment kind)) (\<lambda>w _.
        andThen (writeAll w fragment) (\<lambda>w _.
        appendLoop w False (drop n rest)))))"
  by pat_completeness auto
termination
proof (relation "measure (\<lambda>(w, first, rest). appendMeasure (walOffset w) first rest)")
  fix w first rest w1 u1 n fragment kind w2 u2 w3 u3
  assume loop: "\<not> \<not> (first \<or> rest \<noteq> [])" and pad: "padToBlock w = (w1, Inr u1)"
    and n: "n = fragmentLength (walOffset w1) rest" and fragment: "fragment = take n rest"
    and h: "writeAll w1 (makeHeader fragment kind) = (w2, Inr u2)" and f: "writeAll w2 fragment = (w3, Inr u3)"
  have "n \<le> length rest" by (simp add: n fragmentLength_def)
  then have off: "walOffset w3 = walOffset w1 + HeaderSize + n"
    using writeAll_ok(2) [OF h] writeAll_ok(2) [OF f] by (simp add: fragment)
  have "appendMeasure (walOffset w3) False (drop n rest) < appendMeasure (walOffset w1) first rest"
    using appendMeasure_step [OF padToBlock_ok [OF pad], of first rest] loop off n by simp
  also have "\<dots> \<le> appendMeasure (walOffset w) first rest"
    using padToBlock_measure [OF pad] .
  finally show "((w3, False, drop n rest), (w, first, rest)) \<in>
    measure (\<lambda>(w, first, rest). appendMeasure (walOffset w) first rest)" by simp
qed simp

declare appendLoop.simps [simp del]

definition syncLocked :: "Writer \<Rightarrow> (Writer, WalError, unit) outcome" where
  "syncLocked w =
     (let (f, err) = fileSync (walFile w); w = w\<lparr>walFile := f\<rparr> in
      if err then poison w
      else if \<not> walDirectory w then (w, Inr ())
      else
        let (f, err) = fileCall (walFile w); w = w\<lparr>walFile := f\<rparr> in
        if err then poison w
        else
          let w = w\<lparr>walFile := (walFile w)\<lparr>fileLinked := True\<rparr>, walDirectory := False\<rparr>;
              (f, err) = fileCall (walFile w); w = w\<lparr>walFile := f\<rparr> in
          if err then poison w else (w, Inr ()))"

text \<open>
  \<open>position.Start\<close> is the offset behind the padding of the first fragment, \<open>position.End\<close> the
  offset behind the last one.
\<close>

record Position =
  posStart :: nat
  posEnd :: nat

definition paddedOffset :: "nat \<Rightarrow> nat" where
  "paddedOffset off = off + (if blockRemaining off < HeaderSize then blockRemaining off else 0)"

definition walAppend :: "Writer \<Rightarrow> bytes \<Rightarrow> (Writer, WalError, Position) outcome" where
  "walAppend w payload =
     (if length payload > MaxWalRecord then (w, Inl ErrRecordTooLarge)
      else if walClosed w then (w, Inl ErrClosedWriter)
      else if walFailed w then (w, Inl ErrWriterFailed)
      else
        let start = paddedOffset (walOffset w) in
        andThen (appendLoop w True payload) (\<lambda>w _.
        let position = \<lparr>posStart = start, posEnd = walOffset w\<rparr> in
        andThen (if walDurability w = SyncBatch then syncLocked w else (w, Inr ())) (\<lambda>w _. (w, Inr position))))"

definition walSync :: "Writer \<Rightarrow> (Writer, WalError, unit) outcome" where
  "walSync w =
     (if walClosed w then (w, Inl ErrClosedWriter)
      else if walFailed w then (w, Inl ErrWriterFailed)
      else syncLocked w)"

definition closeResult :: "Writer \<Rightarrow> WalError + unit" where
  "closeResult w = (if walCloseErr w then Inl CloseFailed else Inr ())"

definition walClose :: "Writer \<Rightarrow> (Writer, WalError, unit) outcome" where
  "walClose w =
     (if walClosed w then (w, closeResult w)
      else
        let (f, fileErr) = fileCall (walFile w);
            (f, directoryErr) = (if walDirectory w then fileCall f else (f, False));
            w = w\<lparr>walFile := f, walDirectory := False, walClosed := True, walCloseErr := (fileErr \<or> directoryErr)\<rparr>
        in (w, closeResult w))"

text \<open>The bytes that a record occupies when it is appended at an offset.\<close>

function recordBytes :: "nat \<Rightarrow> bool \<Rightarrow> bytes \<Rightarrow> bytes" where
  "recordBytes off first rest =
     (if \<not> (first \<or> rest \<noteq> []) then []
      else
        let pad = (if blockRemaining off < HeaderSize then blockRemaining off else 0);
            n = fragmentLength (off + pad) rest;
            fragment = take n rest;
            kind = chooseFragmentKind first (n = length rest)
        in replicate pad 0 @ makeHeader fragment kind @ fragment @
           recordBytes (off + pad + HeaderSize + n) False (drop n rest))"
  by pat_completeness auto
termination
proof (relation "measure (\<lambda>(off, first, rest). appendMeasure off first rest)")
  fix off first rest pad n fragment kind
  assume loop: "\<not> \<not> (first \<or> rest \<noteq> [])"
    and pad: "pad = (if blockRemaining off < HeaderSize then blockRemaining off else 0)"
    and n: "n = fragmentLength (off + pad) rest"
  have "appendMeasure (off + pad + HeaderSize + n) False (drop n rest) < appendMeasure (off + pad) first rest"
    unfolding n using loop by (intro appendMeasure_step) (auto simp: pad padded_remaining)
  also have "\<dots> \<le> appendMeasure off first rest"
    using blockRemaining_next [of off] by (simp add: pad appendMeasure_def BlockSize_def HeaderSize_def)
  finally show "((off + pad + HeaderSize + n, False, drop n rest), (off, first, rest)) \<in>
    measure (\<lambda>(off, first, rest). appendMeasure off first rest)" by simp
qed simp

declare recordBytes.simps [simp del]

lemma recordBytes_step:
  assumes "first \<or> rest \<noteq> []" and "HeaderSize \<le> blockRemaining off"
  shows "recordBytes off first rest =
    makeHeader (take (fragmentLength off rest) rest) (chooseFragmentKind first (fragmentLength off rest = length rest)) @
    take (fragmentLength off rest) rest @
    recordBytes (off + HeaderSize + fragmentLength off rest) False (drop (fragmentLength off rest) rest)"
proof -
  have "\<not> blockRemaining off < HeaderSize" using assms(2) by simp
  then show ?thesis
    using assms(1) unfolding recordBytes.simps [of off first rest] Let_def
    by (simp only: if_False add_0_right replicate_0 append_Nil simp_thms)
qed

lemma recordBytes_pad:
  assumes "first \<or> rest \<noteq> []" and "blockRemaining off < HeaderSize"
  shows "recordBytes off first rest =
    replicate (blockRemaining off) 0 @ recordBytes (off + blockRemaining off) first rest"
proof -
  let ?o = "off + blockRemaining off"
  let ?n = "fragmentLength ?o rest"
  have "recordBytes off first rest = replicate (blockRemaining off) 0 @
      makeHeader (take ?n rest) (chooseFragmentKind first (?n = length rest)) @ take ?n rest @
      recordBytes (?o + HeaderSize + ?n) False (drop ?n rest)"
    by (subst recordBytes.simps) (simp only: assms Let_def if_True not_True_eq_False if_False)
  then show ?thesis
    by (simp only: recordBytes_step [OF assms(1) padded_remaining [OF assms(2)]])
qed

lemma recordBytes_done [simp]: "recordBytes off False [] = []"
  unfolding recordBytes.simps [of off False "[]"] by simp

text \<open>What a writer has put in the file when a step of it returns.\<close>

definition wrote :: "Writer \<Rightarrow> bytes \<Rightarrow> Writer \<Rightarrow> (WalError + unit) \<Rightarrow> bool" where
  "wrote w data w' r \<longleftrightarrow>
     (case r of
        Inr _ \<Rightarrow> contents (walFile w') = contents (walFile w) @ data \<and> walOffset w' = walOffset w + length data \<and>
          walFailed w' = walFailed w \<and> sameDisk w w'
      | Inl _ \<Rightarrow> walFailed w' \<and> sameDisk w w' \<and> (\<exists>n. contents (walFile w') = contents (walFile w) @ take n data))"

lemma wrote_writeAll: "writeAll w data = (w', r) \<Longrightarrow> wrote w data w' r"
  using writeAll_cases [of w data w' r] by (auto simp: wrote_def split: sum.splits)

lemma wrote_seq:
  assumes "wrote w d1 w1 (Inr u)" and "wrote w1 d2 w2 r"
  shows "wrote w (d1 @ d2) w2 r"
proof (cases r)
  case (Inl e)
  then obtain n where "walFailed w2" "contents (walFile w2) = contents (walFile w) @ d1 @ take n d2" "sameDisk w w2"
    using assms sameDisk_trans [of w w1 w2] by (auto simp: wrote_def)
  then show ?thesis using Inl by (auto simp: wrote_def intro: exI [of _ "length d1 + n"])
next
  case (Inr u)
  then show ?thesis using assms sameDisk_trans [of w w1 w2] by (auto simp: wrote_def)
qed

lemma wrote_torn:
  assumes "wrote w d1 w1 (Inl e)"
  shows "wrote w (d1 @ d2) w1 (Inl e)"
proof -
  obtain n where "walFailed w1" "contents (walFile w1) = contents (walFile w) @ take n d1" "sameDisk w w1"
    using assms by (auto simp: wrote_def)
  moreover have "take n d1 = take (min n (length d1)) (d1 @ d2)" by (simp add: min_def)
  ultimately show ?thesis
    unfolding wrote_def by (auto intro!: exI [of _ "min n (length d1)"])
qed

lemma wrote_andThen:
  assumes "andThen o1 k = (w2, r)" and "\<And>w1 r1. o1 = (w1, r1) \<Longrightarrow> wrote w d1 w1 r1"
    and "\<And>w1 u. o1 = (w1, Inr u) \<Longrightarrow> k w1 u = (w2, r) \<Longrightarrow> wrote w1 d2 w2 r"
  shows "wrote w (d1 @ d2) w2 r"
proof -
  obtain w1 r1 where o1: "o1 = (w1, r1)" by force
  show ?thesis
  proof (cases r1)
    case (Inl e)
    then have "w2 = w1" "r = Inl e" using assms(1) o1 by auto
    then show ?thesis using wrote_torn assms(2) [OF o1] Inl by simp
  next
    case (Inr u)
    then have "wrote w1 d2 w2 r" using assms(1,3) o1 by simp
    then show ?thesis using wrote_seq assms(2) [OF o1] Inr by blast
  qed
qed

text \<open>One turn of the append loop behind the padding, given what the rest of the loop writes.\<close>

lemma wrote_fragment:
  assumes loop: "first \<or> rest \<noteq> []" and room: "HeaderSize \<le> blockRemaining (walOffset w)"
    and n: "n = fragmentLength (walOffset w) rest"
    and run: "andThen (writeAll w (makeHeader (take n rest) (chooseFragmentKind first (n = length rest)))) (\<lambda>w' _.
      andThen (writeAll w' (take n rest)) (\<lambda>w'' _. appendLoop w'' False (drop n rest))) = (w', r)"
    and ih: "\<And>w1 u1 w2 u2.
      writeAll w (makeHeader (take n rest) (chooseFragmentKind first (n = length rest))) = (w1, Inr u1) \<Longrightarrow>
      writeAll w1 (take n rest) = (w2, Inr u2) \<Longrightarrow> appendLoop w2 False (drop n rest) = (w', r) \<Longrightarrow>
      wrote w2 (recordBytes (walOffset w2) False (drop n rest)) w' r"
  shows "wrote w (recordBytes (walOffset w) first rest) w' r"
proof -
  let ?h = "makeHeader (take n rest) (chooseFragmentKind first (n = length rest))"
  let ?tail = "recordBytes (walOffset w + HeaderSize + n) False (drop n rest)"
  have "wrote w (?h @ take n rest @ ?tail) w' r"
  proof (rule wrote_andThen [OF run wrote_writeAll])
    fix w1 u1
    assume h: "writeAll w ?h = (w1, Inr u1)"
      and k: "andThen (writeAll w1 (take n rest)) (\<lambda>w'' _. appendLoop w'' False (drop n rest)) = (w', r)"
    show "wrote w1 (take n rest @ ?tail) w' r"
    proof (rule wrote_andThen [OF k wrote_writeAll])
      fix w2 u2
      assume f: "writeAll w1 (take n rest) = (w2, Inr u2)" and rec: "appendLoop w2 False (drop n rest) = (w', r)"
      have "walOffset w2 = walOffset w + HeaderSize + n"
        using writeAll_ok(2) [OF h] writeAll_ok(2) [OF f] by (simp add: n fragmentLength_def)
      then show "wrote w2 ?tail w' r" using ih [OF h f rec] by simp
    qed
  qed
  then show ?thesis using recordBytes_step [OF loop room] n by simp
qed

lemma wrote_appendLoop: "appendLoop w first rest = (w', r) \<Longrightarrow> wrote w (recordBytes (walOffset w) first rest) w' r"
proof (induction w first rest rule: appendLoop.induct)
  case (1 w first rest)
  show ?case
  proof (cases "first \<or> rest \<noteq> []")
    case False
    then have "first = False" "rest = []" by auto
    then show ?thesis using "1.prems" by (auto simp: appendLoop.simps [of w False "[]"] wrote_def sameDisk_def)
  next
    case True
    let ?b = "blockRemaining (walOffset w)"
    let ?pad = "if ?b < HeaderSize then replicate ?b (0 :: byte) else []"
    have pad: "wrote w ?pad w1 r1" if "padToBlock w = (w1, r1)" for w1 r1
      using that wrote_writeAll [of w "replicate ?b 0" w1 r1]
      by (auto simp: padToBlock_def wrote_def sameDisk_def split: if_splits)
    have "wrote w (?pad @ recordBytes (walOffset w + length ?pad) first rest) w' r"
    proof (rule wrote_andThen [OF _ pad])
      show "andThen (padToBlock w) (\<lambda>w _. let n = fragmentLength (walOffset w) rest; fragment = take n rest;
          kind = chooseFragmentKind first (n = length rest) in
          andThen (writeAll w (makeHeader fragment kind)) (\<lambda>w _. andThen (writeAll w fragment) (\<lambda>w _.
            appendLoop w False (drop n rest)))) = (w', r)"
        using "1.prems" True by (simp add: appendLoop.simps [of w first rest])
    next
      fix w1 u1
      assume p: "padToBlock w = (w1, Inr u1)"
        and k: "(let n = fragmentLength (walOffset w1) rest; fragment = take n rest;
          kind = chooseFragmentKind first (n = length rest) in
          andThen (writeAll w1 (makeHeader fragment kind)) (\<lambda>w _. andThen (writeAll w fragment) (\<lambda>w _.
            appendLoop w False (drop n rest)))) = (w', r)"
      have "walOffset w1 = walOffset w + length ?pad" using padToBlock_offset [OF p] by simp
      moreover have "wrote w1 (recordBytes (walOffset w1) first rest) w' r"
        using True "1.IH" [OF _ p refl refl refl]
        by (intro wrote_fragment [OF True padToBlock_ok [OF p] refl k [unfolded Let_def]]) blast
      ultimately show "wrote w1 (recordBytes (walOffset w + length ?pad) first rest) w' r" by (simp only:)
    qed
    moreover have "recordBytes (walOffset w) first rest = ?pad @ recordBytes (walOffset w + length ?pad) first rest"
      using recordBytes_pad [OF True] by simp
    ultimately show ?thesis by (simp only:)
  qed
qed

text \<open>The bytes of a file that a crash of the machine cannot take.\<close>

definition durable :: "WalFile \<Rightarrow> nat" where
  "durable f = (if fileLinked f then fileSynced f else 0)"

lemma fileCall_frame:
  "fileCall f = (f', err) \<Longrightarrow> \<exists>plan. f' = f\<lparr>syncPlan := plan\<rparr>"
  by (cases "syncPlan f") (auto simp: fileCall_def intro: exI [of _ "syncPlan f"])

lemma syncLocked_frame:
  assumes "syncLocked w = (w', r)"
  shows "contents (walFile w') = contents (walFile w) \<and> walOffset w' = walOffset w \<and> walClosed w' = walClosed w \<and>
    walDurability w' = walDurability w \<and>
    (fileLinked (walFile w) \<longrightarrow> fileLinked (walFile w')) \<and>
    (fileSynced (walFile w') = fileSynced (walFile w) \<or> fileSynced (walFile w') = length (contents (walFile w))) \<and>
    (case r of
       Inr _ \<Rightarrow> walFailed w' = walFailed w \<and> fileSynced (walFile w') = length (contents (walFile w)) \<and>
         (walDirectory w \<or> fileLinked (walFile w) \<longrightarrow> fileLinked (walFile w'))
     | Inl _ \<Rightarrow> walFailed w')"
proof -
  obtain f1 e1 where 1: "fileCall (walFile w) = (f1, e1)" by force
  define f2 where "f2 = (if e1 then f1 else f1\<lparr>fileSynced := length (contents f1)\<rparr>)"
  obtain f3 e3 where 3: "fileCall f2 = (f3, e3)" by force
  obtain f4 e4 where 4: "fileCall (f3\<lparr>fileLinked := True\<rparr>) = (f4, e4)" by force
  obtain p1 p3 p4 where f: "f1 = (walFile w)\<lparr>syncPlan := p1\<rparr>" "f3 = f2\<lparr>syncPlan := p3\<rparr>"
      "f4 = f3\<lparr>fileLinked := True, syncPlan := p4\<rparr>"
    using fileCall_frame [OF 1] fileCall_frame [OF 3] fileCall_frame [OF 4] by blast
  have 2: "fileSync (walFile w) = (f2, e1)" by (simp add: fileSync_def 1 f2_def)
  have "syncLocked w =
      (if e1 then poison (w\<lparr>walFile := f2\<rparr>)
       else if \<not> walDirectory w then (w\<lparr>walFile := f2\<rparr>, Inr ())
       else if e3 then poison (w\<lparr>walFile := f3\<rparr>)
       else if e4 then poison (w\<lparr>walDirectory := False, walFile := f4\<rparr>)
       else (w\<lparr>walDirectory := False, walFile := f4\<rparr>, Inr ()))"
    by (simp add: syncLocked_def 2 3 4 Let_def)
  then show ?thesis
    using assms f by (auto simp: f2_def poison_def split: if_splits)
qed

text \<open>
  An append that returns no error has written its record whole, and in the batch mode has synced
  it; one that returns an error has written a prefix of it and poisoned the writer, or has
  written nothing.
\<close>

lemma walAppend_ok:
  assumes "walAppend w payload = (w', Inr pos)"
  shows "contents (walFile w') = contents (walFile w) @ recordBytes (walOffset w) True payload"
    and "walOffset w' = walOffset w + length (recordBytes (walOffset w) True payload)"
    and "length payload \<le> MaxWalRecord" and "\<not> walFailed w'" and "\<not> walClosed w'" and "walDurability w' = walDurability w"
    and "walDurability w = SyncBatch \<Longrightarrow> walDirectory w \<or> fileLinked (walFile w) \<Longrightarrow>
      fileLinked (walFile w') \<and> durable (walFile w') = length (contents (walFile w'))"
    and "pos = \<lparr>posStart = paddedOffset (walOffset w), posEnd = walOffset w'\<rparr>"
proof -
  have start: "\<not> (length payload > MaxWalRecord \<or> walClosed w \<or> walFailed w)"
    using assms by (auto simp: walAppend_def split: if_splits)
  obtain w1 r1 where loop: "appendLoop w True payload = (w1, r1)" by force
  obtain w2 r2 where sync: "(if walDurability w1 = SyncBatch then syncLocked w1 else (w1, Inr ())) = (w2, r2)" by force
  have r: "r1 = Inr ()" "r2 = Inr ()" "w2 = w'" "pos = \<lparr>posStart = paddedOffset (walOffset w), posEnd = walOffset w1\<rparr>"
    using assms start loop sync by (auto simp: walAppend_def Let_def andThen_def split: sum.splits)
  note w1 = wrote_appendLoop [OF loop, unfolded wrote_def r sum.case sameDisk_def]
  have w': "contents (walFile w') = contents (walFile w1) \<and> walOffset w' = walOffset w1 \<and> walClosed w' = walClosed w1 \<and>
      walDurability w' = walDurability w1 \<and> walFailed w' = walFailed w1 \<and>
      (walDurability w1 = SyncBatch \<longrightarrow> walDirectory w1 \<or> fileLinked (walFile w1) \<longrightarrow>
        fileLinked (walFile w') \<and> fileSynced (walFile w') = length (contents (walFile w1)))"
    using syncLocked_frame [of w1 w' "Inr ()"] sync r by (auto split: if_splits)
  show "contents (walFile w') = contents (walFile w) @ recordBytes (walOffset w) True payload"
    "walOffset w' = walOffset w + length (recordBytes (walOffset w) True payload)"
    "length payload \<le> MaxWalRecord" "\<not> walFailed w'" "\<not> walClosed w'" "walDurability w' = walDurability w"
    "pos = \<lparr>posStart = paddedOffset (walOffset w), posEnd = walOffset w'\<rparr>"
    using w1 w' start r(4) by auto
  show "fileLinked (walFile w') \<and> durable (walFile w') = length (contents (walFile w'))"
    if "walDurability w = SyncBatch" "walDirectory w \<or> fileLinked (walFile w)"
    using w1 w' that by (auto simp: durable_def)
qed

lemma walAppend_error:
  assumes "walAppend w payload = (w', Inl e)"
  shows "w' = w \<or> walFailed w' \<and> length payload \<le> MaxWalRecord \<and> walDurability w' = walDurability w \<and>
    (\<exists>n. contents (walFile w') = contents (walFile w) @ take n (recordBytes (walOffset w) True payload)) \<and>
    (length (contents (walFile w)) \<le> durable (walFile w) \<longrightarrow> length (contents (walFile w)) \<le> durable (walFile w')) \<and>
    (fileLinked (walFile w) \<longrightarrow> fileLinked (walFile w'))"
proof (cases "length payload > MaxWalRecord \<or> walClosed w \<or> walFailed w")
  case True
  then show ?thesis using assms by (auto simp: walAppend_def split: if_splits)
next
  case False
  obtain w1 r1 where loop: "appendLoop w True payload = (w1, r1)" by force
  obtain w2 r2 where sync: "(if walDurability w1 = SyncBatch then syncLocked w1 else (w1, Inr ())) = (w2, r2)" by force
  note wrote = wrote_appendLoop [OF loop, unfolded wrote_def]
  show ?thesis
  proof (cases r1)
    case (Inl err)
    then show ?thesis
      using assms False loop wrote by (auto simp: walAppend_def Let_def andThen_def sameDisk_def durable_def)
  next
    case (Inr u)
    then have "w' = w2" "r2 = Inl e"
      using assms False loop sync by (auto simp: walAppend_def Let_def andThen_def split: sum.splits)
    then have s: "syncLocked w1 = (w', Inl e)" using sync by (auto split: if_splits)
    note w1 = wrote [unfolded Inr sum.case sameDisk_def]
    have "\<exists>n. contents (walFile w') = contents (walFile w) @ take n (recordBytes (walOffset w) True payload)"
      using syncLocked_frame [OF s] w1 by (intro exI [of _ "length (recordBytes (walOffset w) True payload)"]) simp
    moreover have "length (contents (walFile w)) \<le> durable (walFile w')" if "length (contents (walFile w)) \<le> durable (walFile w)"
      using syncLocked_frame [OF s] w1 that by (auto simp: durable_def split: if_splits)
    moreover have "walFailed w'" "walDurability w' = walDurability w" "length payload \<le> MaxWalRecord"
      "fileLinked (walFile w) \<longrightarrow> fileLinked (walFile w')"
      using syncLocked_frame [OF s] w1 False by simp_all
    ultimately show ?thesis by simp
  qed
qed

section \<open>Reader (\<open>reader.go\<close>)\<close>

text \<open>
  The reader works on the bytes of the file; \<open>rSize\<close> is their number. Errors of the device
  under it are not modelled.
\<close>

record WalRecord =
  recPayload :: bytes
  recStart :: nat
  recEnd :: nat
  recNumber :: nat

record Reader =
  rOffset :: nat
  rValidEnd :: nat
  rRecord :: WalRecord
  rNumber :: nat
  rAssembly :: bytes
  rAssembling :: bool
  rRecordAt :: nat
  rTail :: "(nat \<times> nat) option"
  rErr :: "(nat \<times> WalError) option"
  rDone :: bool

definition newReader :: Reader where
  "newReader =
     \<lparr>rOffset = 0, rValidEnd = 0, rRecord = \<lparr>recPayload = [], recStart = 0, recEnd = 0, recNumber = 0\<rparr>,
      rNumber = 0, rAssembly = [], rAssembling = False, rRecordAt = 0, rTail = None, rErr = None, rDone = False\<rparr>"

definition incompleteStart :: "Reader \<Rightarrow> nat" where
  "incompleteStart r = (if rAssembling r then rRecordAt r else rValidEnd r)"

definition markTail :: "nat \<Rightarrow> nat \<Rightarrow> Reader \<Rightarrow> Reader" where
  "markTail fileEnd start r = r\<lparr>rTail := Some (start, fileEnd), rDone := True\<rparr>"

definition corruption :: "nat \<Rightarrow> WalError \<Rightarrow> Reader \<Rightarrow> Reader" where
  "corruption offset cause r = r\<lparr>rErr := Some (offset, cause)\<rparr>"

definition finishRecord :: "bytes \<Rightarrow> nat \<Rightarrow> Reader \<Rightarrow> Reader \<times> bool" where
  "finishRecord payload start r =
     (if length payload > MaxWalRecord then (corruption start ErrRecordTooLarge r, False)
      else (r\<lparr>rRecord := \<lparr>recPayload = payload, recStart = start, recEnd = rOffset r, recNumber = rNumber r\<rparr>,
              rNumber := rNumber r + 1, rValidEnd := rOffset r\<rparr>, True))"

definition appendFragment :: "bytes \<Rightarrow> nat \<Rightarrow> Reader \<Rightarrow> Reader \<times> bool" where
  "appendFragment payload fragmentAt r =
     (if length payload > MaxWalRecord - length (rAssembly r)
      then (corruption fragmentAt ErrRecordTooLarge r, False)
      else (r\<lparr>rAssembly := rAssembly r @ payload\<rparr>, True))"

definition acceptFragment :: "byte \<Rightarrow> bytes \<Rightarrow> nat \<Rightarrow> Reader \<Rightarrow> Reader \<times> bool" where
  "acceptFragment kind payload fragmentAt r =
     (if kind = fragmentFull then
        (if rAssembling r then (corruption fragmentAt ErrInvalidFragmentType r, False)
         else finishRecord payload fragmentAt r)
      else if kind = fragmentFirst then
        (if rAssembling r then (corruption fragmentAt ErrInvalidFragmentType r, False)
         else (r\<lparr>rAssembly := payload, rAssembling := True, rRecordAt := fragmentAt\<rparr>, False))
      else if kind = fragmentMiddle then
        (if \<not> rAssembling r then (corruption fragmentAt ErrInvalidFragmentType r, False)
         else (fst (appendFragment payload fragmentAt r), False))
      else if kind = fragmentLast then
        (if \<not> rAssembling r then (corruption fragmentAt ErrInvalidFragmentType r, False)
         else case appendFragment payload fragmentAt r of
           (r, False) \<Rightarrow> (r, False)
         | (r, True) \<Rightarrow> finishRecord (rAssembly r) (rRecordAt r) (r\<lparr>rAssembly := [], rAssembling := False\<rparr>))
      else (r, False))"

text \<open>
  One turn of the loop of \<open>Next\<close>: it ends the call with the flag, or goes on.
\<close>

datatype turn = Return Reader bool | Continue Reader

definition paddingTurn :: "bytes \<Rightarrow> nat \<Rightarrow> Reader \<Rightarrow> turn" where
  "paddingTurn data remaining r =
     (let available = min remaining (length data - rOffset r);
          padding = slice (rOffset r) (rOffset r + available) data
      in if padding \<noteq> replicate available 0 then Return (corruption (rOffset r) ErrInvalidPadding r) False
         else let r = r\<lparr>rOffset := rOffset r + available\<rparr> in
           if available < remaining then Return (markTail (length data) (incompleteStart r) r) False
           else Continue r)"

definition fragmentTurn :: "bytes \<Rightarrow> nat \<Rightarrow> Reader \<Rightarrow> turn" where
  "fragmentTurn data remaining r =
     (let fragmentAt = rOffset r;
          header = slice fragmentAt (fragmentAt + HeaderSize) data;
          actualHeaderCRC = crcUpdate 0 (slice 8 11 header);
          encodedType = header ! 10;
          kind = encodedType AND 0x0f;
          len = unat (le_get (slice 8 10 header) :: u16);
          payloadAt = fragmentAt + HeaderSize;
          payload = slice payloadAt (payloadAt + len) data
      in
      if le_get (slice 4 8 header) \<noteq> actualHeaderCRC then Return (corruption fragmentAt ErrHeaderChecksumMismatch r) False
      else if drop_bit 4 encodedType \<noteq> 0 then Return (corruption fragmentAt ErrUnsupportedWalVersion r) False
      else if kind < fragmentFull \<or> kind > fragmentLast then Return (corruption fragmentAt ErrInvalidFragmentType r) False
      else if len > remaining - HeaderSize then Return (corruption fragmentAt ErrInvalidLength r) False
      else if length data - payloadAt < len then Return (markTail (length data) (incompleteStart r) r) False
      else if le_get (slice 0 4 header) \<noteq> crcUpdate actualHeaderCRC payload
      then Return (corruption fragmentAt ErrChecksumMismatch r) False
      else case acceptFragment kind payload fragmentAt (r\<lparr>rOffset := payloadAt + len\<rparr>) of
        (r, True) \<Rightarrow> Return r True
      | (r, False) \<Rightarrow> if rErr r \<noteq> None then Return r False else Continue r)"

definition nextTurn :: "bytes \<Rightarrow> Reader \<Rightarrow> turn" where
  "nextTurn data r =
     (if rOffset r = length data then
        (if rAssembling r then Return (markTail (length data) (rRecordAt r) r) False
         else Return (r\<lparr>rDone := True\<rparr>) False)
      else
        let remaining = blockRemaining (rOffset r) in
        if remaining < HeaderSize then paddingTurn data remaining r
        else if length data - rOffset r < HeaderSize
        then Return (markTail (length data) (incompleteStart r) r) False
        else fragmentTurn data remaining r)"

lemma acceptFragment_offset: "acceptFragment k p at r = (r', b) \<Longrightarrow> rOffset r' = rOffset r"
  by (auto simp: acceptFragment_def finishRecord_def appendFragment_def corruption_def split: if_splits)

lemma nextTurn_progress:
  assumes "nextTurn data r = Continue r' \<or> nextTurn data r = Return r' True"
  shows "rOffset r < rOffset r' \<and> (rOffset r \<le> length data \<longrightarrow> rOffset r' \<le> length data) \<and> rOffset r < length data"
proof -
  have "rOffset r < length data" if "\<not> rOffset r = length data" "\<not> length data - rOffset r < n" "0 < n" for n
    using that by linarith
  with assms blockRemaining_pos [of "rOffset r"] show ?thesis
    by (auto simp: nextTurn_def paddingTurn_def fragmentTurn_def Let_def HeaderSize_def
        split: if_splits prod.splits bool.splits dest!: acceptFragment_offset)
qed

function nextLoop :: "bytes \<Rightarrow> Reader \<Rightarrow> Reader \<times> bool" where
  "nextLoop data r = (case nextTurn data r of Return r b \<Rightarrow> (r, b) | Continue r \<Rightarrow> nextLoop data r)"
  by pat_completeness auto
termination
proof (relation "measure (\<lambda>(data, r). length data - rOffset r)")
  fix data r r'
  assume "nextTurn data r = Continue r'"
  then show "((data, r'), (data, r)) \<in> measure (\<lambda>(data, r). length data - rOffset r)"
    using nextTurn_progress [of data r r'] by auto
qed simp

declare nextLoop.simps [simp del]

definition readerNext :: "bytes \<Rightarrow> Reader \<Rightarrow> Reader \<times> bool" where
  "readerNext data r = (if rDone r \<or> rErr r \<noteq> None then (r, False) else nextLoop data r)"

lemma nextLoop_progress: "nextLoop data r = (r', True) \<Longrightarrow> rOffset r < rOffset r' \<and> rOffset r < length data"
proof (induction data r rule: nextLoop.induct)
  case (1 data r)
  show ?case
  proof (cases "nextTurn data r")
    case (Return x b)
    then show ?thesis using "1.prems" nextTurn_progress [of data r r'] by (auto simp: nextLoop.simps [of data r])
  next
    case (Continue x)
    then show ?thesis
      using "1.IH" [OF Continue] "1.prems" nextTurn_progress [of data r x]
      by (auto simp: nextLoop.simps [of data r])
  qed
qed

section \<open>Recovery (\<open>recovery.go\<close>)\<close>

record RecoveryResult =
  resValidEnd :: nat
  resFileEnd :: nat
  resRecords :: nat
  resTailTruncated :: bool

datatype 'e RecoverError = ConsumeError nat 'e | ScanError nat WalError

function recoverLoop :: "bytes \<Rightarrow> ('s \<Rightarrow> WalRecord \<Rightarrow> 'e + 's) \<Rightarrow> 's \<Rightarrow> nat \<Rightarrow> Reader \<Rightarrow>
    RecoveryResult \<times> ('e RecoverError + 's)" where
  "recoverLoop data consume s records r =
     (case readerNext data r of
        (r, True) \<Rightarrow>
          (case consume s (rRecord r) of
             Inl e \<Rightarrow> (\<lparr>resValidEnd = rValidEnd r, resFileEnd = length data, resRecords = records,
                        resTailTruncated = False\<rparr>, Inl (ConsumeError (recNumber (rRecord r)) e))
           | Inr s \<Rightarrow> recoverLoop data consume s (records + 1) r)
      | (r, False) \<Rightarrow>
          (\<lparr>resValidEnd = rValidEnd r, resFileEnd = length data, resRecords = records,
             resTailTruncated = (rTail r \<noteq> None)\<rparr>,
           (case rErr r of Some (offset, cause) \<Rightarrow> Inl (ScanError offset cause) | None \<Rightarrow> Inr s)))"
  by pat_completeness auto
termination
  by (relation "measure (\<lambda>(data, consume, s, records, r). length data - rOffset r)")
     (auto simp: readerNext_def split: if_splits dest!: nextLoop_progress [OF sym])

declare recoverLoop.simps [simp del]

definition recoverFromReader :: "bytes \<Rightarrow> ('s \<Rightarrow> WalRecord \<Rightarrow> 'e + 's) \<Rightarrow> 's \<Rightarrow>
    RecoveryResult \<times> ('e RecoverError + 's)" where
  "recoverFromReader data consume s = recoverLoop data consume s 0 newReader"

text \<open>
  \<open>RepairTail\<close> on the bytes of the file: it scans again without a consumer, compares the
  result and truncates.
\<close>

definition repairTail :: "bytes \<Rightarrow> RecoveryResult \<Rightarrow> WalError + bytes" where
  "repairTail data recovered =
     (if \<not> resTailTruncated recovered then Inl ErrNoTruncatedTail
      else case recoverFromReader data (\<lambda>_ _. Inr () :: unit + unit) () of
        (actual, Inl (ScanError _ cause)) \<Rightarrow> Inl cause
      | (actual, Inl (ConsumeError _ _)) \<Rightarrow> Inl ErrRecoveryStateChanged
      | (actual, Inr _) \<Rightarrow>
          if actual \<noteq> recovered \<or> \<not> resTailTruncated actual then Inl ErrRecoveryStateChanged
          else Inr (take (resValidEnd recovered) data))"

text \<open>\<open>OpenWriter\<close> on an existing file: it must scan without an error and without a torn tail.\<close>

definition openWriter :: "WalFile \<Rightarrow> bool \<Rightarrow> Durability \<Rightarrow> WalError + Writer" where
  "openWriter f created durability =
     (case recoverFromReader (contents f) (\<lambda>_ _. Inr () :: unit + unit) () of
        (_, Inl (ScanError _ cause)) \<Rightarrow> Inl cause
      | (_, Inl (ConsumeError _ _)) \<Rightarrow> Inl ErrRecoveryStateChanged
      | (result, Inr _) \<Rightarrow>
          if resTailTruncated result then Inl ErrTruncatedTail
          else Inr (newWriter f created durability))"

section \<open>What a scan finds\<close>

lemma slice_at: "slice (length pre) (length pre + n) (pre @ xs) = take n xs"
  by (simp add: slice_def)

lemma kind_bits:
  "chooseFragmentKind f l AND 0x0f = chooseFragmentKind f l" "drop_bit 4 (chooseFragmentKind f l) = 0"
  "\<not> chooseFragmentKind f l < fragmentFull" "\<not> fragmentLast < chooseFragmentKind f l"
  by (simp_all add: chooseFragmentKind_def fragment_defs)

lemma makeHeader_fields:
  "slice 8 11 (makeHeader p k) = le_put 2 (word_of_nat (length p) :: u16) @ [k]"
  "makeHeader p k ! 10 = k"
  "slice 8 10 (makeHeader p k) = le_put 2 (word_of_nat (length p) :: u16)"
  "slice 4 8 (makeHeader p k) = le_put 4 (crcUpdate 0 (le_put 2 (word_of_nat (length p) :: u16) @ [k]))"
  "slice 0 4 (makeHeader p k) =
    le_put 4 (crcUpdate (crcUpdate 0 (le_put 2 (word_of_nat (length p) :: u16) @ [k])) p)"
  by (simp_all add: makeHeader_def Let_def slice_def nth_append)

lemma unat_u16: "n < 65536 \<Longrightarrow> unat (word_of_nat n :: u16) = n"
  by (simp add: unat_of_nat take_bit_nat_eq_self)

lemma fragmentTurn_whole:
  assumes "data = pre @ makeHeader p k @ p @ post" and "rOffset r = length pre"
    and "length p \<le> remaining - HeaderSize" and "remaining \<le> BlockSize" and "k = chooseFragmentKind f l"
  shows "fragmentTurn data remaining r =
    (case acceptFragment k p (length pre) (r\<lparr>rOffset := length pre + HeaderSize + length p\<rparr>) of
        (r, True) \<Rightarrow> Return r True
      | (r, False) \<Rightarrow> if rErr r \<noteq> None then Return r False else Continue r)"
proof -
  have len: "unat (word_of_nat (length p) :: u16) = length p"
    using assms(3,4) by (intro unat_u16) (simp add: BlockSize_def)
  have header: "slice (length pre) (length pre + HeaderSize) data = makeHeader p k"
    using assms(1) slice_at [of pre HeaderSize "makeHeader p k @ p @ post"] by simp
  have payload: "slice (length pre + HeaderSize) (length pre + HeaderSize + length p) data = p"
    using assms(1) slice_at [of "pre @ makeHeader p k" "length p" "p @ post"] by simp
  have "length data - (length pre + HeaderSize) = length p + length post" by (simp add: assms(1))
  then show ?thesis
    using assms(3,5) unfolding fragmentTurn_def assms(2) Let_def header makeHeader_fields
    by (simp add: kind_bits len payload del: not_None_eq)
qed

lemma fragmentTurn_torn:
  assumes "data = pre @ makeHeader p k @ take n p" and "n < length p" and "rOffset r = length pre"
    and "length p \<le> remaining - HeaderSize" and "remaining \<le> BlockSize" and "k = chooseFragmentKind f l"
  shows "fragmentTurn data remaining r = Return (markTail (length data) (incompleteStart r) r) False"
proof -
  have len: "unat (word_of_nat (length p) :: u16) = length p"
    using assms(4,5) by (intro unat_u16) (simp add: BlockSize_def)
  have header: "slice (length pre) (length pre + HeaderSize) data = makeHeader p k"
    using assms(1) slice_at [of pre HeaderSize "makeHeader p k @ take n p"] by simp
  have "length data - (length pre + HeaderSize) < length p" using assms(1,2) by simp
  then show ?thesis
    using assms(4,6) unfolding fragmentTurn_def assms(3) Let_def header makeHeader_fields
    by (simp add: kind_bits len)
qed

lemma paddingTurn_whole:
  assumes "data = pre @ replicate remaining 0 @ post" and "rOffset r = length pre"
  shows "paddingTurn data remaining r = Continue (r\<lparr>rOffset := length pre + remaining\<rparr>)"
  using assms slice_at [of pre remaining "replicate remaining 0 @ post"] by (simp add: paddingTurn_def Let_def)

lemma paddingTurn_torn:
  assumes "data = pre @ replicate n 0" and "n < remaining" and "rOffset r = length pre"
  shows "\<exists>r'. paddingTurn data remaining r = Return r' False \<and> rErr r' = rErr r \<and> rDone r' \<and>
    rValidEnd r' = rValidEnd r \<and> rNumber r' = rNumber r \<and> rTail r' \<noteq> None"
  using assms slice_at [of pre n "replicate n 0"] by (simp add: paddingTurn_def Let_def markTail_def)

end
