(* ===== verification/Wal_Properties.thy ===== *)
theory Wal_Properties
  imports Wal_Log
begin

text \<open>
  What the log guarantees: a scan of the bytes of appended records returns the records, and a
  scan of any torn file, in which the last append wrote only a prefix of its bytes, returns
  the records before it and reports no corruption.
\<close>

section \<open>Scanning one record\<close>

lemma nextLoop_continue: "nextTurn data r = Continue r' \<Longrightarrow> nextLoop data r = nextLoop data r'"
  by (simp add: nextLoop.simps [of data r])

lemma nextLoop_return: "nextTurn data r = Return r' b \<Longrightarrow> nextLoop data r = (r', b)"
  by (simp add: nextLoop.simps [of data r])

lemma blockRemaining_le: "blockRemaining off \<le> BlockSize"
  by (simp add: blockRemaining_def)

lemma nextTurn_fragment:
  assumes "rOffset r = length pre" and "HeaderSize \<le> blockRemaining (length pre)"
    and "length pre + HeaderSize \<le> length data"
  shows "nextTurn data r = fragmentTurn data (blockRemaining (length pre)) r"
  using assms by (auto simp: nextTurn_def HeaderSize_def)

text \<open>The state of a reader inside a record, or between records if nothing is assembled.\<close>

definition inside :: "Reader \<Rightarrow> bool \<Rightarrow> bytes \<Rightarrow> bool" where
  "inside r first acc \<longleftrightarrow> rErr r = None \<and> rTail r = None \<and> \<not> rDone r \<and> rAssembling r = (\<not> first) \<and>
     (if first then acc = [] else rAssembly r = acc)"

text \<open>The state after a record has been returned.\<close>

definition delivered :: "Reader \<Rightarrow> bytes \<Rightarrow> nat \<Rightarrow> Reader \<Rightarrow> bool" where
  "delivered r payload end r' \<longleftrightarrow> inside r' True [] \<and> rOffset r' = end \<and> rValidEnd r' = end \<and>
     recPayload (rRecord r') = payload \<and> recNumber (rRecord r') = rNumber r \<and> rNumber r' = rNumber r + 1"

lemma accept_last:
  assumes "inside r first acc" and "length acc + length p \<le> MaxWalRecord"
  shows "\<exists>r'. acceptFragment (chooseFragmentKind first True) p at r = (r', True) \<and> delivered r (acc @ p) (rOffset r) r'"
  using assms
  by (cases first)
     (auto simp: acceptFragment_def chooseFragmentKind_def fragment_defs finishRecord_def appendFragment_def
        delivered_def inside_def)

lemma accept_more:
  assumes "inside r first acc" and "length acc + length p \<le> MaxWalRecord"
  shows "\<exists>r'. acceptFragment (chooseFragmentKind first False) p at r = (r', False) \<and> inside r' False (acc @ p) \<and>
    rOffset r' = rOffset r \<and> rValidEnd r' = rValidEnd r \<and> rNumber r' = rNumber r"
  using assms
  by (cases first)
     (auto simp: acceptFragment_def chooseFragmentKind_def fragment_defs appendFragment_def inside_def)

text \<open>The part of a record behind the padding, and the padding in front of it.\<close>

lemma skip_padding:
  assumes "blockRemaining (length pre) < HeaderSize" and "rOffset r = length pre"
    and "data = pre @ replicate (blockRemaining (length pre)) 0 @ post"
  shows "nextLoop data r = nextLoop data (r\<lparr>rOffset := length pre + blockRemaining (length pre)\<rparr>)"
proof (rule nextLoop_continue)
  show "nextTurn data r = Continue (r\<lparr>rOffset := length pre + blockRemaining (length pre)\<rparr>)"
    using assms blockRemaining_pos [of "length pre"] paddingTurn_whole [OF assms(3,2)]
    by (simp add: nextTurn_def Let_def)
qed

lemma next_record_step:
  fixes pre :: bytes and first :: bool and rest :: bytes
  defines "n \<equiv> fragmentLength (length pre) rest"
  assumes data: "data = pre @ recordBytes (length pre) first rest @ post" and at: "rOffset r = length pre"
    and loop: "first \<or> rest \<noteq> []" and r: "inside r first acc" and small: "length acc + length rest \<le> MaxWalRecord"
    and room: "HeaderSize \<le> blockRemaining (length pre)"
    and ih: "\<And>pre' r'. length pre' = length pre + HeaderSize + n \<Longrightarrow>
      data = pre' @ recordBytes (length pre') False (drop n rest) @ post \<Longrightarrow> rOffset r' = length pre' \<Longrightarrow>
      drop n rest \<noteq> [] \<Longrightarrow> inside r' False (acc @ take n rest) \<Longrightarrow>
      \<exists>r''. nextLoop data r' = (r'', True) \<and> delivered r' ((acc @ take n rest) @ drop n rest)
        (length pre' + length (recordBytes (length pre') False (drop n rest))) r''"
  shows "\<exists>r'. nextLoop data r = (r', True) \<and>
    delivered r (acc @ rest) (length pre + length (recordBytes (length pre) first rest)) r'"
proof -
  let ?p = "take n rest"
  let ?k = "chooseFragmentKind first (n = length rest)"
  let ?tail = "recordBytes (length pre + HeaderSize + n) False (drop n rest)"
  have n: "n \<le> length rest" "n \<le> blockRemaining (length pre) - HeaderSize"
    by (simp_all add: n_def fragmentLength_def)
  have bytes: "recordBytes (length pre) first rest = makeHeader ?p ?k @ ?p @ ?tail"
    using recordBytes_step [OF loop room] by (simp add: n_def)
  have d: "data = pre @ makeHeader ?p ?k @ ?p @ ?tail @ post" by (simp add: data bytes)
  have turn: "nextTurn data r =
    (case acceptFragment ?k ?p (length pre) (r\<lparr>rOffset := length pre + HeaderSize + n\<rparr>) of
        (r, True) \<Rightarrow> Return r True
      | (r, False) \<Rightarrow> if rErr r \<noteq> None then Return r False else Continue r)"
    using nextTurn_fragment [OF at room] fragmentTurn_whole [OF d at _ blockRemaining_le refl] n d by simp
  have r1: "inside (r\<lparr>rOffset := length pre + HeaderSize + n\<rparr>) first acc" using r by (simp add: inside_def)
  show ?thesis
  proof (cases "n = length rest")
    case True
    then obtain r' where "acceptFragment ?k ?p (length pre) (r\<lparr>rOffset := length pre + HeaderSize + n\<rparr>) = (r', True)"
        "delivered r (acc @ rest) (length pre + HeaderSize + n) r'"
      using accept_last [OF r1, of rest "length pre"] small by (auto simp: delivered_def)
    then show ?thesis using turn True bytes by (auto simp: nextLoop_return add.assoc)
  next
    case False
    then obtain r' where acc: "acceptFragment ?k ?p (length pre) (r\<lparr>rOffset := length pre + HeaderSize + n\<rparr>) = (r', False)"
        and r': "inside r' False (acc @ ?p)" "rOffset r' = length pre + HeaderSize + n" "rNumber r' = rNumber r"
      using accept_more [OF r1, of ?p "length pre"] small n by auto
    have "nextLoop data r = nextLoop data r'"
      using turn acc r'(1) by (intro nextLoop_continue) (simp add: inside_def)
    moreover have "\<exists>r''. nextLoop data r' = (r'', True) \<and> delivered r' ((acc @ ?p) @ drop n rest)
        (length (pre @ makeHeader ?p ?k @ ?p) + length (recordBytes (length (pre @ makeHeader ?p ?k @ ?p)) False (drop n rest))) r''"
      using False n r' d by (intro ih) (auto simp: add.assoc)
    ultimately show ?thesis using r'(3) n bytes by (auto simp: delivered_def add.assoc)
  qed
qed

lemma next_record:
  assumes "data = pre @ recordBytes (length pre) first rest @ post" and "rOffset r = length pre"
    and "first \<or> rest \<noteq> []" and "inside r first acc" and "length acc + length rest \<le> MaxWalRecord"
  shows "\<exists>r'. nextLoop data r = (r', True) \<and>
    delivered r (acc @ rest) (length pre + length (recordBytes (length pre) first rest)) r'"
  using assms
proof (induction "appendMeasure (length pre) first rest" arbitrary: pre first rest r acc rule: less_induct)
  case less
  have step: "\<exists>r'. nextLoop data q = (r', True) \<and>
      delivered q (acc @ rest) (length p + length (recordBytes (length p) first rest)) r'"
    if "data = p @ recordBytes (length p) first rest @ post" "rOffset q = length p" "inside q first acc"
      "HeaderSize \<le> blockRemaining (length p)"
      "appendMeasure (length p) first rest \<le> appendMeasure (length pre) first rest" for p q
  proof (rule next_record_step [OF that(1,2) less.prems(3) that(3) less.prems(5) that(4)])
    fix pre' r'
    let ?n = "fragmentLength (length p) rest"
    assume "length pre' = length p + HeaderSize + ?n"
      and d: "data = pre' @ recordBytes (length pre') False (drop ?n rest) @ post" "rOffset r' = length pre'"
        "drop ?n rest \<noteq> []" "inside r' False (acc @ take ?n rest)"
    then have "appendMeasure (length pre') False (drop ?n rest) < appendMeasure (length pre) first rest"
      using appendMeasure_step [OF that(4) less.prems(3)] that(5) by simp
    moreover have "length (acc @ take ?n rest) + length (drop ?n rest) \<le> MaxWalRecord" using less.prems(5) by simp
    ultimately show "\<exists>r''. nextLoop data r' = (r'', True) \<and> delivered r' ((acc @ take ?n rest) @ drop ?n rest)
        (length pre' + length (recordBytes (length pre') False (drop ?n rest))) r''"
      using less.hyps [OF _ d(1,2) _ d(4)] d(3) by blast
  qed
  show ?case
  proof (cases "blockRemaining (length pre) < HeaderSize")
    case True
    let ?b = "blockRemaining (length pre)"
    let ?q = "r\<lparr>rOffset := length pre + ?b\<rparr>"
    note bytes = recordBytes_pad [OF less.prems(3) True]
    have "nextLoop data r = nextLoop data ?q"
      using less.prems(1) by (intro skip_padding [OF True less.prems(2)]) (simp add: bytes)
    moreover have "\<exists>r'. nextLoop data ?q = (r', True) \<and> delivered ?q (acc @ rest)
        (length (pre @ replicate ?b 0) + length (recordBytes (length (pre @ replicate ?b (0 :: byte))) first rest)) r'"
      using less.prems padded_remaining [OF True] blockRemaining_next [of "length pre"] True
      by (intro step) (auto simp: bytes inside_def appendMeasure_def BlockSize_def HeaderSize_def)
    ultimately show ?thesis by (auto simp: bytes delivered_def add.assoc)
  next
    case False
    then show ?thesis using step [OF less.prems(1,2,4)] by simp
  qed
qed

section \<open>Scanning a torn record\<close>

text \<open>The state after a scan that ended without an error, with the last complete record kept.\<close>

definition stopped :: "Reader \<Rightarrow> Reader \<Rightarrow> bool" where
  "stopped r r' \<longleftrightarrow> rErr r' = None \<and> rDone r' \<and> rValidEnd r' = rValidEnd r \<and> rNumber r' = rNumber r"

lemma next_end:
  assumes "rOffset r = length data" and "inside r first acc"
  shows "\<exists>r'. nextLoop data r = (r', False) \<and> stopped r r' \<and> (rTail r' = None \<longleftrightarrow> first)"
proof -
  have "nextTurn data r = Return (if rAssembling r then markTail (length data) (rRecordAt r) r else r\<lparr>rDone := True\<rparr>) False"
    using assms(1) by (simp add: nextTurn_def)
  then show ?thesis
    using assms(2) by (auto simp: nextLoop_return stopped_def inside_def markTail_def)
qed

lemma torn_fragment:
  assumes data: "data = pre @ take m (makeHeader p k @ p)" and m: "0 < m" "m < HeaderSize + length p"
    and at: "rOffset r = length pre" and room: "HeaderSize \<le> blockRemaining (length pre)"
    and p: "length p \<le> blockRemaining (length pre) - HeaderSize" "k = chooseFragmentKind f l"
    and r: "inside r first acc"
  shows "\<exists>r'. nextLoop data r = (r', False) \<and> stopped r r' \<and> rTail r' \<noteq> None"
proof -
  have "nextTurn data r = Return (markTail (length data) (incompleteStart r) r) False"
  proof (cases "m < HeaderSize")
    case True
    then show ?thesis using data m at room by (simp add: nextTurn_def)
  next
    case False
    then have d: "data = pre @ makeHeader p k @ take (m - HeaderSize) p" by (simp add: data)
    have "fragmentTurn data (blockRemaining (length pre)) r = Return (markTail (length data) (incompleteStart r) r) False"
      using m False by (intro fragmentTurn_torn [OF d _ at p(1) blockRemaining_le p(2)]) simp
    then show ?thesis using nextTurn_fragment [OF at room] d by simp
  qed
  then show ?thesis using r by (auto simp: nextLoop_return stopped_def inside_def markTail_def)
qed

lemma torn_record_step:
  fixes pre :: bytes and first :: bool and rest :: bytes
  defines "n \<equiv> fragmentLength (length pre) rest"
  assumes data: "data = pre @ take m (recordBytes (length pre) first rest)"
    and m: "m < length (recordBytes (length pre) first rest)" and at: "rOffset r = length pre"
    and loop: "first \<or> rest \<noteq> []" and r: "inside r first acc" and small: "length acc + length rest \<le> MaxWalRecord"
    and room: "HeaderSize \<le> blockRemaining (length pre)"
    and ih: "\<And>pre' r'. length pre' = length pre + HeaderSize + n \<Longrightarrow>
      data = pre' @ take (m - HeaderSize - n) (recordBytes (length pre') False (drop n rest)) \<Longrightarrow>
      m - HeaderSize - n < length (recordBytes (length pre') False (drop n rest)) \<Longrightarrow> rOffset r' = length pre' \<Longrightarrow>
      drop n rest \<noteq> [] \<Longrightarrow> inside r' False (acc @ take n rest) \<Longrightarrow>
      \<exists>r''. nextLoop data r' = (r'', False) \<and> stopped r' r'' \<and> rTail r'' \<noteq> None"
  shows "\<exists>r'. nextLoop data r = (r', False) \<and> stopped r r' \<and> (rTail r' = None \<longleftrightarrow> first \<and> m = 0)"
proof -
  let ?p = "take n rest"
  let ?k = "chooseFragmentKind first (n = length rest)"
  let ?tail = "recordBytes (length pre + HeaderSize + n) False (drop n rest)"
  have n: "n \<le> length rest" "n \<le> blockRemaining (length pre) - HeaderSize"
    by (simp_all add: n_def fragmentLength_def)
  have bytes: "recordBytes (length pre) first rest = makeHeader ?p ?k @ ?p @ ?tail"
    using recordBytes_step [OF loop room] by (simp add: n_def)
  consider "m = 0" | "0 < m" "m < HeaderSize + n" | "HeaderSize + n \<le> m" by linarith
  then show ?thesis
  proof cases
    case 1
    then show ?thesis using next_end [OF _ r, of data] at data by auto
  next
    case 2
    then have d: "data = pre @ take m (makeHeader ?p ?k @ ?p)" using data bytes n by simp
    have "m < HeaderSize + length ?p" "length ?p \<le> blockRemaining (length pre) - HeaderSize" using 2 n by simp_all
    from torn_fragment [OF d 2(1) this(1) at room this(2) refl r] show ?thesis using 2(1) by auto
  next
    case 3
    have d: "data = pre @ makeHeader ?p ?k @ ?p @ take (m - HeaderSize - n) ?tail" using data bytes n 3 by simp
    have more: "n \<noteq> length rest" using m bytes 3 by auto
    let ?q = "r\<lparr>rOffset := length pre + HeaderSize + n\<rparr>"
    have q: "inside ?q first acc" using r by (simp add: inside_def)
    obtain r' where acc: "acceptFragment ?k ?p (length pre) ?q = (r', False)"
        and r': "inside r' False (acc @ ?p)" "rOffset r' = length pre + HeaderSize + n" "rNumber r' = rNumber r"
          "rValidEnd r' = rValidEnd r"
      using accept_more [OF q, of ?p "length pre"] small n more by auto
    have "nextTurn data r = Continue r'"
      using nextTurn_fragment [OF at room] fragmentTurn_whole [OF d at _ blockRemaining_le refl] n d acc r'(1)
      by (simp add: inside_def)
    then have "nextLoop data r = nextLoop data r'" by (rule nextLoop_continue)
    moreover have "\<exists>r''. nextLoop data r' = (r'', False) \<and> stopped r' r'' \<and> rTail r'' \<noteq> None"
      using ih [of "pre @ makeHeader ?p ?k @ ?p" r'] d m bytes n more r' 3 by (simp add: add.assoc less_diff_conv2)
    ultimately show ?thesis using r'(3,4) 3 by (auto simp: stopped_def HeaderSize_def)
  qed
qed

text \<open>
  A torn scan reports no tail only when it ends at the start of a block: nothing of the record
  is there, or its padding and nothing else.
\<close>

definition padLength :: "nat \<Rightarrow> nat" where
  "padLength off = (if blockRemaining off < HeaderSize then blockRemaining off else 0)"

lemma torn_record:
  assumes "data = pre @ take m (recordBytes (length pre) first rest)"
    and "m < length (recordBytes (length pre) first rest)" and "rOffset r = length pre"
    and "first \<or> rest \<noteq> []" and "inside r first acc" and "length acc + length rest \<le> MaxWalRecord"
  shows "\<exists>r'. nextLoop data r = (r', False) \<and> stopped r r' \<and>
    (rTail r' = None \<longleftrightarrow> first \<and> (m = 0 \<or> m = padLength (length pre)))"
  using assms
proof (induction "appendMeasure (length pre) first rest" arbitrary: pre first rest r acc m rule: less_induct)
  case less
  have step: "\<exists>r'. nextLoop data q = (r', False) \<and> stopped q r' \<and> (rTail r' = None \<longleftrightarrow> first \<and> k = 0)"
    if "data = p @ take k (recordBytes (length p) first rest)" "k < length (recordBytes (length p) first rest)"
      "rOffset q = length p" "inside q first acc" "HeaderSize \<le> blockRemaining (length p)"
      "appendMeasure (length p) first rest \<le> appendMeasure (length pre) first rest" for p q k
  proof (rule torn_record_step [OF that(1-3) less.prems(4) that(4) less.prems(6) that(5)])
    fix pre' r'
    let ?n = "fragmentLength (length p) rest"
    assume "length pre' = length p + HeaderSize + ?n"
      and d: "data = pre' @ take (k - HeaderSize - ?n) (recordBytes (length pre') False (drop ?n rest))"
        "k - HeaderSize - ?n < length (recordBytes (length pre') False (drop ?n rest))" "rOffset r' = length pre'"
        "drop ?n rest \<noteq> []" "inside r' False (acc @ take ?n rest)"
    then have "appendMeasure (length pre') False (drop ?n rest) < appendMeasure (length pre) first rest"
      using appendMeasure_step [OF that(5) less.prems(4)] that(6) by simp
    moreover have "length (acc @ take ?n rest) + length (drop ?n rest) \<le> MaxWalRecord" using less.prems(6) by simp
    ultimately show "\<exists>r''. nextLoop data r' = (r'', False) \<and> stopped r' r'' \<and> rTail r'' \<noteq> None"
      using less.hyps [OF _ d(1-3) _ d(5)] d(4) by blast
  qed
  show ?case
  proof (cases "blockRemaining (length pre) < HeaderSize")
    case True
    let ?b = "blockRemaining (length pre)"
    note bytes = recordBytes_pad [OF less.prems(4) True]
    consider "m = 0" | "0 < m" "m < ?b" | "?b \<le> m" by linarith
    then show ?thesis
    proof cases
      case 1
      then show ?thesis using next_end [OF _ less.prems(5), of data] less.prems(1,3) by auto
    next
      case 2
      then have d: "data = pre @ replicate m 0" using less.prems(1) bytes by simp
      have turn: "nextTurn data r = paddingTurn data ?b r"
        using d 2 True less.prems(3) by (simp add: nextTurn_def Let_def)
      show ?thesis
        using paddingTurn_torn [OF d 2(2) less.prems(3)] less.prems(5)
        using 2 True by (auto simp: turn nextLoop_return stopped_def inside_def padLength_def)
    next
      case 3
      let ?q = "r\<lparr>rOffset := length pre + ?b\<rparr>"
      let ?pre = "pre @ replicate ?b (0 :: byte)"
      have d: "data = ?pre @ take (m - ?b) (recordBytes (length ?pre) first rest)"
        using less.prems(1) bytes 3 by simp
      have "nextLoop data r = nextLoop data ?q"
        using d by (intro skip_padding [OF True less.prems(3)]) simp
      moreover have "\<exists>r'. nextLoop data ?q = (r', False) \<and> stopped ?q r' \<and> (rTail r' = None \<longleftrightarrow> first \<and> m - ?b = 0)"
        using less.prems 3 d padded_remaining [OF True] blockRemaining_next [of "length pre"] True
        by (intro step [OF d]) (auto simp: bytes inside_def appendMeasure_def BlockSize_def HeaderSize_def)
      ultimately show ?thesis
        using True 3 blockRemaining_pos [of "length pre"] by (auto simp: stopped_def padLength_def)
    qed
  next
    case False
    then show ?thesis using step [OF less.prems(1-3,5)] by (auto simp: padLength_def)
  qed
qed

section \<open>Scanning a file\<close>

fun logBytes :: "nat \<Rightarrow> bytes list \<Rightarrow> bytes" where
  "logBytes off [] = []"
| "logBytes off (p # ps) =
     recordBytes off True p @ logBytes (off + length (recordBytes off True p)) ps"

lemma logBytes_append: "logBytes off (ps @ qs) = logBytes off ps @ logBytes (off + length (logBytes off ps)) qs"
  by (induction ps arbitrary: off) (simp_all add: add.assoc)

primrec foldR :: "('s \<Rightarrow> 'a \<Rightarrow> 'e + 's) \<Rightarrow> 's \<Rightarrow> 'a list \<Rightarrow> 'e + 's" where
  "foldR f s [] = Inr s"
| "foldR f s (x # xs) = bindR (f s x) (\<lambda>s. foldR f s xs)"

lemma recordBytes_long: "HeaderSize \<le> length (recordBytes off True p)"
proof (cases "blockRemaining off < HeaderSize")
  case True
  then show ?thesis
    using recordBytes_pad [of True p off] recordBytes_step [of True p "off + blockRemaining off"] padded_remaining
    by simp
next
  case False
  then show ?thesis using recordBytes_step [of True p off] by simp
qed

lemma recover_scan:
  assumes "\<forall>p\<in>set ps. length p \<le> MaxWalRecord" and "length q \<le> MaxWalRecord"
    and "data = pre @ logBytes (length pre) ps @ take m (recordBytes (length (pre @ logBytes (length pre) ps)) True q)"
    and "m < length (recordBytes (length (pre @ logBytes (length pre) ps)) True q)"
    and "rOffset r = length pre" and "inside r True []"
    and "foldR c s ps = Inr s'" and "\<And>s rec. consume s rec = c s (recPayload rec)"
  shows "recoverLoop data consume s k r =
      (\<lparr>resValidEnd = (if ps = [] then rValidEnd r else length (pre @ logBytes (length pre) ps)),
        resFileEnd = length data, resRecords = k + length ps,
        resTailTruncated = (m \<noteq> 0 \<and> m \<noteq> padLength (length (pre @ logBytes (length pre) ps)))\<rparr>, Inr s')"
  using assms
proof (induction ps arbitrary: pre s k r)
  case Nil
  have "\<exists>r'. nextLoop data r = (r', False) \<and> stopped r r' \<and>
      (rTail r' = None \<longleftrightarrow> True \<and> (m = 0 \<or> m = padLength (length pre)))"
    using Nil.prems by (intro torn_record [where acc = "[]"]) auto
  then obtain r' where "nextLoop data r = (r', False)" "stopped r r'"
      "rTail r' = None \<longleftrightarrow> True \<and> (m = 0 \<or> m = padLength (length pre))"
    by (elim exE conjE)
  moreover have "readerNext data r = nextLoop data r" using Nil.prems(6) by (simp add: readerNext_def inside_def)
  ultimately show ?case
    using Nil.prems(7) by (simp add: recoverLoop.simps [of data consume s' k r] stopped_def del: not_None_eq)
next
  case (Cons p ps)
  let ?pre = "pre @ recordBytes (length pre) True p"
  have d: "data = ?pre @ logBytes (length ?pre) ps @ take m (recordBytes (length (?pre @ logBytes (length ?pre) ps)) True q)"
    using Cons.prems(3) by (simp add: add.assoc)
  obtain r' where nx: "nextLoop data r = (r', True)" and del: "delivered r p (length ?pre) r'"
    using next_record [of data pre True p _ r "[]"] Cons.prems(1,3,5,6) by auto
  obtain s1 where s1: "c s p = Inr s1" "foldR c s1 ps = Inr s'"
    using Cons.prems(7) by (auto elim: bindR_okE)
  have "recoverLoop data consume s1 (k + 1) r' =
      (\<lparr>resValidEnd = (if ps = [] then rValidEnd r' else length (?pre @ logBytes (length ?pre) ps)),
        resFileEnd = length data, resRecords = k + 1 + length ps,
        resTailTruncated = (m \<noteq> 0 \<and> m \<noteq> padLength (length (?pre @ logBytes (length ?pre) ps)))\<rparr>, Inr s')"
    using Cons.prems d del s1(2) by (intro Cons.IH) (auto simp: delivered_def add.assoc)
  moreover have "recoverLoop data consume s k r = recoverLoop data consume s1 (k + 1) r'"
    using nx del Cons.prems(6,8) s1(1)
    by (simp add: recoverLoop.simps [of data consume s k r] readerNext_def inside_def delivered_def)
  ultimately show ?case using del by (auto simp: delivered_def add.assoc)
qed

lemma newReader_inside: "inside newReader True []" "rOffset newReader = 0" "rValidEnd newReader = 0"
  by (simp_all add: newReader_def inside_def)

text \<open>The scan of a log whose last append was torn.\<close>

lemma recover_torn:
  assumes "\<forall>p\<in>set ps. length p \<le> MaxWalRecord" and "length q \<le> MaxWalRecord"
    and "m < length (recordBytes (length (logBytes 0 ps)) True q)"
    and "foldR c s ps = Inr s'" and "\<And>s rec. consume s rec = c s (recPayload rec)"
  shows "recoverFromReader (logBytes 0 ps @ take m (recordBytes (length (logBytes 0 ps)) True q)) consume s =
      (\<lparr>resValidEnd = length (logBytes 0 ps), resFileEnd = length (logBytes 0 ps) + m,
        resRecords = length ps,
        resTailTruncated = (m \<noteq> 0 \<and> m \<noteq> padLength (length (logBytes 0 ps)))\<rparr>, Inr s')"
  unfolding recoverFromReader_def
  using recover_scan [OF assms(1,2), of _ "[]" m newReader c s s' consume 0] assms(3-5) newReader_inside
  by (auto split: if_splits)

text \<open>
  A file that a writer may continue: a whole log, perhaps followed by the padding of a record
  whose first fragment was never written.
\<close>

definition cleanLog :: "bytes list \<Rightarrow> bytes \<Rightarrow> bool" where
  "cleanLog ps data \<longleftrightarrow> (\<forall>p\<in>set ps. length p \<le> MaxWalRecord) \<and>
     (data = logBytes 0 ps \<or> data = logBytes 0 ps @ replicate (padLength (length (logBytes 0 ps))) 0)"

lemma padLength_less: "padLength off < length (recordBytes off True p)"
  using recordBytes_long [of off p] by (auto simp: padLength_def HeaderSize_def)

lemma take_padding: "take (padLength off) (recordBytes off True p) = replicate (padLength off) 0"
  using recordBytes_pad [of True p off] by (auto simp: padLength_def)

lemma cleanLog_append:
  assumes "cleanLog ps data" and "length p \<le> MaxWalRecord"
  shows "cleanLog (ps @ [p]) (data @ recordBytes (length data) True p)"
proof -
  let ?off = "length (logBytes 0 ps)"
  have "data @ recordBytes (length data) True p = logBytes 0 ps @ recordBytes ?off True p"
  proof (cases "data = logBytes 0 ps")
    case False
    then have d: "data = logBytes 0 ps @ replicate (padLength ?off) 0" "padLength ?off \<noteq> 0"
      using assms(1) by (auto simp: cleanLog_def)
    then have "blockRemaining ?off < HeaderSize" by (auto simp: padLength_def split: if_splits)
    then show ?thesis using recordBytes_pad [of True p ?off] d(1) by (simp add: padLength_def)
  qed simp
  then show ?thesis using assms by (auto simp: cleanLog_def logBytes_append)
qed

lemma cleanLog_empty: "cleanLog [] []"
  by (simp add: cleanLog_def)

text \<open>A log whose last append was cut short, or a whole one.\<close>

definition tornLog :: "bytes list \<Rightarrow> bytes \<Rightarrow> bool" where
  "tornLog ps data \<longleftrightarrow> (\<forall>p\<in>set ps. length p \<le> MaxWalRecord) \<and>
     (\<exists>q m. length q \<le> MaxWalRecord \<and> m < length (recordBytes (length (logBytes 0 ps)) True q) \<and>
        data = logBytes 0 ps @ take m (recordBytes (length (logBytes 0 ps)) True q))"

definition scanResult :: "bytes list \<Rightarrow> bytes \<Rightarrow> RecoveryResult" where
  "scanResult ps data =
     (let whole = length (logBytes 0 ps); rest = length data - whole in
      \<lparr>resValidEnd = whole, resFileEnd = length data, resRecords = length ps,
       resTailTruncated = (rest \<noteq> 0 \<and> rest \<noteq> padLength whole)\<rparr>)"

lemma recover_log:
  assumes "tornLog ps data" and "foldR c s ps = Inr s'" and "\<And>s rec. consume s rec = c s (recPayload rec)"
  shows "recoverFromReader data consume s = (scanResult ps data, Inr s')"
proof -
  obtain q m where q: "length q \<le> MaxWalRecord" "m < length (recordBytes (length (logBytes 0 ps)) True q)"
      "data = logBytes 0 ps @ take m (recordBytes (length (logBytes 0 ps)) True q)"
    and ps: "\<forall>p\<in>set ps. length p \<le> MaxWalRecord"
    using assms(1) by (auto simp: tornLog_def)
  show ?thesis
    using recover_torn [OF ps q(1,2) assms(2,3)] q(2) by (simp add: q(3) scanResult_def Let_def)
qed

lemma cleanLog_torn: "cleanLog ps data \<Longrightarrow> tornLog ps data"
proof -
  assume clean: "cleanLog ps data"
  let ?off = "length (logBytes 0 ps)"
  have "data = logBytes 0 ps @ take 0 (recordBytes ?off True []) \<or>
      data = logBytes 0 ps @ take (padLength ?off) (recordBytes ?off True [])"
    using clean by (simp add: cleanLog_def take_padding)
  moreover have "0 < length (recordBytes ?off True [])" "padLength ?off < length (recordBytes ?off True [])"
    using padLength_less [of ?off "[]"] by auto
  moreover have "length ([] :: bytes) \<le> MaxWalRecord" by simp
  ultimately show "tornLog ps data" using clean unfolding tornLog_def cleanLog_def by blast
qed

lemma cleanLog_result: "cleanLog ps data \<Longrightarrow> \<not> resTailTruncated (scanResult ps data)"
  by (auto simp: cleanLog_def scanResult_def Let_def)

lemma tornLog_clean:
  assumes "tornLog ps data" and "\<not> resTailTruncated (scanResult ps data)"
  shows "cleanLog ps data"
proof -
  obtain q m where "m < length (recordBytes (length (logBytes 0 ps)) True q)"
      "data = logBytes 0 ps @ take m (recordBytes (length (logBytes 0 ps)) True q)"
    using assms(1) by (auto simp: tornLog_def)
  then show ?thesis
    using assms by (auto simp: cleanLog_def scanResult_def Let_def tornLog_def take_padding)
qed

lemma tornLog_append:
  assumes "cleanLog ps data" and "length p \<le> MaxWalRecord"
  shows "tornLog ps (data @ take n (recordBytes (length data) True p)) \<or>
    tornLog (ps @ [p]) (data @ take n (recordBytes (length data) True p))"
proof (cases "n < length (recordBytes (length data) True p)")
  case False
  then show ?thesis using cleanLog_torn [OF cleanLog_append [OF assms]] by simp
next
  case True
  let ?off = "length (logBytes 0 ps)"
  have "\<exists>m. data @ take n (recordBytes (length data) True p) = logBytes 0 ps @ take m (recordBytes ?off True p) \<and>
    m < length (recordBytes ?off True p)"
  proof (cases "data = logBytes 0 ps")
    case False
    then have d: "data = logBytes 0 ps @ replicate (padLength ?off) 0" "padLength ?off \<noteq> 0"
      using assms(1) by (auto simp: cleanLog_def)
    then have "blockRemaining ?off < HeaderSize" by (auto simp: padLength_def split: if_splits)
    then show ?thesis
      using recordBytes_pad [of True p ?off] d(1) True
      by (intro exI [of _ "padLength ?off + n"]) (simp add: padLength_def)
  qed (use True in auto)
  then show ?thesis using assms unfolding tornLog_def cleanLog_def by blast
qed

lemma foldR_unit: "foldR (\<lambda>_ _. Inr () :: unit + unit) () ps = Inr ()"
  by (induction ps) simp_all

lemma repairTail_log:
  assumes "tornLog ps data" and "resTailTruncated (scanResult ps data)"
  shows "\<exists>data'. repairTail data (scanResult ps data) = Inr data' \<and> cleanLog ps data'"
proof -
  have scan: "recoverFromReader data (\<lambda>_ _. Inr () :: unit + unit) () = (scanResult ps data, Inr ())"
    using recover_log [OF assms(1) foldR_unit] by simp
  have "take (resValidEnd (scanResult ps data)) data = logBytes 0 ps"
    using assms(1) by (auto simp: tornLog_def scanResult_def Let_def)
  then show ?thesis
    using assms by (simp add: repairTail_def scan cleanLog_def tornLog_def)
qed

section \<open>The contract of a record log\<close>

text \<open>
  What the owner of a log relies on. \<open>crash k\<close> is what a crash leaves of a log: everything that
  was synced and, of the rest, as much as \<open>k\<close> says. A record whose append returned no error is
  the last one that a scan after any crash returns, and an append that returned an error has
  at most added its own record.
\<close>

text \<open>A run of appends, with the records that were acknowledged.\<close>

primrec appendAll :: "('w \<Rightarrow> bytes \<Rightarrow> ('w, 'e, 'p) outcome) \<Rightarrow> 'w \<Rightarrow> bytes list \<Rightarrow> 'w \<times> bytes list" where
  "appendAll app w [] = (w, [])"
| "appendAll app w (p # ps) =
     (case app w p of
        (w, Inr _) \<Rightarrow> (let (w, acked) = appendAll app w ps in (w, p # acked))
      | (w, Inl _) \<Rightarrow> appendAll app w ps)"

text \<open>The payload \<open>q\<close> of a run whose append failed and closed the log to further appends.\<close>

definition stoppedBy :: "('w \<Rightarrow> bytes \<Rightarrow> ('w, 'e, 'p) outcome) \<Rightarrow> ('w \<Rightarrow> bool) \<Rightarrow> 'w \<Rightarrow> bytes list \<Rightarrow> bytes list \<Rightarrow> 'w \<Rightarrow> bytes \<Rightarrow> bool" where
  "stoppedBy app failed w ps acked w' q \<longleftrightarrow>
     (\<exists>before after w0 e. ps = before @ q # after \<and> appendAll app w before = (w0, acked) \<and> \<not> failed w0 \<and>
        app w0 q = (w', Inl e) \<and> failed w')"

locale record_log =
  fixes app :: "'w \<Rightarrow> bytes \<Rightarrow> ('w, 'e, 'p) outcome"
    and crash :: "nat \<Rightarrow> 'w \<Rightarrow> 'w"
    and scan :: "'w \<Rightarrow> bytes list option"
    and reopen :: "'w \<Rightarrow> 'w option"
    and holds :: "'w \<Rightarrow> bytes list \<Rightarrow> bool"
    and leaves :: "'w \<Rightarrow> bytes list \<Rightarrow> bool"
    and failed :: "'w \<Rightarrow> bool"
  assumes holds_leaves: "holds w ps \<Longrightarrow> leaves (crash k w) ps"
    and leaves_scan: "leaves w ps \<Longrightarrow> scan w = Some ps"
    and leaves_reopen: "leaves w ps \<Longrightarrow> \<exists>w'. reopen w = Some w' \<and> holds w' ps"
    and append_ok: "holds w ps \<Longrightarrow> app w p = (w', Inr u) \<Longrightarrow> holds w' (ps @ [p])"
    and append_error: "holds w ps \<Longrightarrow> app w p = (w', Inl e) \<Longrightarrow>
      w' = w \<or> failed w' \<and> (leaves (crash k w') ps \<or> leaves (crash k w') (ps @ [p]))"
    and append_failed: "failed w \<Longrightarrow> app w p = (w', r) \<Longrightarrow> w' = w \<and> (\<exists>e. r = Inl e)"
begin

lemma appendAll_failed: "failed w \<Longrightarrow> appendAll app w ps = (w, [])"
proof (induction ps)
  case (Cons p ps)
  obtain w' r where a: "app w p = (w', r)" by force
  then show ?case using append_failed [OF Cons.prems a] Cons by auto
qed simp

lemma stoppedBy_later:
  assumes "stoppedBy app failed w1 qs acked w' q" and "app w p = (w1, r)"
  shows "stoppedBy app failed w (p # qs) (case r of Inr _ \<Rightarrow> p # acked | Inl _ \<Rightarrow> acked) w' q"
proof -
  obtain before after w0 e where b: "qs = before @ q # after" "appendAll app w1 before = (w0, acked)" "\<not> failed w0"
      "app w0 q = (w', Inl e)" "failed w'"
    using assms(1) unfolding stoppedBy_def by blast
  then have "p # qs = (p # before) @ q # after"
    "appendAll app w (p # before) = (w0, case r of Inr _ \<Rightarrow> p # acked | Inl _ \<Rightarrow> acked)"
    using assms(2) by (auto split: sum.split)
  then show ?thesis using b(3-5) unfolding stoppedBy_def by blast
qed

lemma acknowledged_survive:
  assumes "holds w ps" and "appendAll app w qs = (w', acked)"
  shows "leaves (crash k w') (ps @ acked) \<or>
    (\<exists>q. stoppedBy app failed w qs acked w' q \<and> leaves (crash k w') (ps @ acked @ [q]))"
  using assms
proof (induction qs arbitrary: w ps acked)
  case Nil
  then show ?case using holds_leaves by auto
next
  case (Cons q qs)
  obtain w1 r where a: "app w q = (w1, r)" by force
  show ?case
  proof (cases r)
    case (Inr u)
    obtain acked' where all: "appendAll app w1 qs = (w', acked')" "acked = q # acked'"
      using Cons.prems(2) a Inr by (auto split: prod.splits)
    from Cons.IH [OF append_ok [OF Cons.prems(1) a [unfolded Inr]] all(1)] show ?thesis
      using stoppedBy_later [OF _ a, of qs acked' w'] all(2) Inr by auto
  next
    case (Inl e)
    have rest: "appendAll app w1 qs = (w', acked)" using Cons.prems(2) a Inl by simp
    from append_error [OF Cons.prems(1) a [unfolded Inl], of k] consider "w1 = w"
      | "w1 \<noteq> w" "failed w1" "leaves (crash k w1) ps" | "w1 \<noteq> w" "failed w1" "leaves (crash k w1) (ps @ [q])" by blast
    then show ?thesis
    proof cases
      case 1
      then show ?thesis
        using Cons.IH [OF Cons.prems(1)] rest stoppedBy_later [OF _ a, of qs acked w'] Inl by auto
    next
      case 2
      then show ?thesis using rest appendAll_failed [of w1 qs] by auto
    next
      case 3
      then have w': "w' = w1" "acked = []" using rest appendAll_failed [of w1 qs] by auto
      have "\<not> failed w" using append_failed [OF _ a] 3(1) by blast
      moreover have "q # qs = [] @ q # qs" "appendAll app w [] = (w, [])" by simp_all
      ultimately have "stoppedBy app failed w (q # qs) acked w' q"
        using a Inl 3(2) w' unfolding stoppedBy_def by blast
      then show ?thesis using 3(3) w' by auto
    qed
  qed
qed

end

text \<open>
  What a crash leaves of a file: the bytes that were synced, provided the directory entry was,
  and of the rest as much as \<open>k\<close> says. What has survived is on disk.
\<close>

definition onDisk :: "bytes \<Rightarrow> WalFile \<Rightarrow> WalFile" where
  "onDisk data f = f\<lparr>contents := data, fileSynced := length data, fileLinked := True\<rparr>"

definition survivor :: "nat \<Rightarrow> WalFile \<Rightarrow> WalFile" where
  "survivor k f = onDisk (take (max k (durable f)) (contents f)) f"

text \<open>A writer that does not sync is promised the bytes it wrote, and survives a crash of the process only.\<close>

definition walCrash :: "nat \<Rightarrow> Writer \<Rightarrow> Writer" where
  "walCrash k w =
     w\<lparr>walFile := survivor (if walDurability w = SyncBatch then k else length (contents (walFile w))) (walFile w)\<rparr>"

lemma onDisk_simps [simp]:
  "contents (onDisk data f) = data" "durable (onDisk data f) = length data" "fileLinked (onDisk data f)"
  "writePlan (onDisk data f) = writePlan f" "syncPlan (onDisk data f) = syncPlan f"
  by (simp_all add: onDisk_def durable_def)

lemma survivor_contents: "contents (survivor k f) = take (max k (durable f)) (contents f)"
  by (simp add: survivor_def)

lemma survivor_all: "length (contents f) \<le> durable f \<or> length (contents f) \<le> k \<Longrightarrow> contents (survivor k f) = contents f"
  by (auto simp: survivor_contents)

definition scanRecords :: "bytes \<Rightarrow> bytes list option" where
  "scanRecords data =
     (case snd (recoverFromReader data (\<lambda>s rec. Inr (s @ [recPayload rec]) :: unit + bytes list) []) of
        Inl _ \<Rightarrow> None
      | Inr ps \<Rightarrow> Some ps)"

definition walScan :: "Writer \<Rightarrow> bytes list option" where
  "walScan w = scanRecords (contents (walFile w))"

definition walHolds :: "Writer \<Rightarrow> bytes list \<Rightarrow> bool" where
  "walHolds w ps \<longleftrightarrow>
     cleanLog ps (contents (walFile w)) \<and> walOffset w = length (contents (walFile w)) \<and>
     (walDurability w = SyncBatch \<longrightarrow>
       (walDirectory w \<or> fileLinked (walFile w)) \<and> length (contents (walFile w)) \<le> durable (walFile w))"

lemma foldR_collect: "foldR (\<lambda>s p. Inr (s @ [p]) :: unit + bytes list) acc ps = Inr (acc @ ps)"
  by (induction ps arbitrary: acc) simp_all

lemma scan_torn: "tornLog ps data \<Longrightarrow> scanRecords data = Some ps"
  using recover_log [of ps data "\<lambda>s p. Inr (s @ [p]) :: unit + bytes list" "[]" ps
      "\<lambda>s rec. Inr (s @ [recPayload rec])"] foldR_collect [of "[]" ps]
  by (simp add: scanRecords_def)

lemma openWriter_clean:
  "cleanLog ps (contents f) \<Longrightarrow> openWriter f created d = Inr (newWriter f created d)"
  using recover_log [OF cleanLog_torn, of ps "contents f" "\<lambda>_ _. Inr () :: unit + unit" "()" "()" "\<lambda>_ _. Inr ()"]
    foldR_unit [of ps] cleanLog_result [of ps "contents f"]
  by (simp add: openWriter_def)

text \<open>What a restart does with a file: scan it, cut a torn tail off, and open it again.\<close>

definition repaired :: "bytes \<Rightarrow> bytes option" where
  "repaired data =
     (case recoverFromReader data (\<lambda>_ _. Inr () :: unit + unit) () of
        (res, Inl _) \<Rightarrow> None
      | (res, Inr _) \<Rightarrow>
          if resTailTruncated res
          then (case repairTail data res of Inl _ \<Rightarrow> None | Inr data' \<Rightarrow> Some data')
          else Some data)"

definition walReopen :: "Writer \<Rightarrow> Writer option" where
  "walReopen w =
     (case repaired (contents (walFile w)) of
        None \<Rightarrow> None
      | Some data \<Rightarrow>
          (case openWriter (onDisk data (walFile w)) False (walDurability w) of
             Inl _ \<Rightarrow> None
           | Inr w' \<Rightarrow> Some w'))"

lemma repaired_log:
  assumes "tornLog ps data"
  shows "\<exists>data'. repaired data = Some data' \<and> cleanLog ps data'"
proof -
  have scan: "recoverFromReader data (\<lambda>_ _. Inr () :: unit + unit) () = (scanResult ps data, Inr ())"
    using recover_log [OF assms foldR_unit] by simp
  show ?thesis
    using repairTail_log [OF assms] tornLog_clean [OF assms] by (auto simp: repaired_def scan)
qed

definition walLeaves :: "Writer \<Rightarrow> bytes list \<Rightarrow> bool" where
  "walLeaves w ps \<longleftrightarrow> tornLog ps (contents (walFile w))"

lemma newWriter_clean:
  "cleanLog ps (contents f) \<Longrightarrow> created \<or> fileLinked f \<Longrightarrow> length (contents f) \<le> durable f \<Longrightarrow>
   walHolds (newWriter f created dur) ps"
  by (simp add: walHolds_def newWriter_def)

lemma walCrash_holds:
  assumes "walHolds w ps"
  shows "contents (walFile (walCrash k w)) = contents (walFile w)"
  using assms by (auto simp: walCrash_def walHolds_def intro!: survivor_all)

lemma walCrash_torn:
  assumes h: "walHolds w ps" and fails: "walAppend w p = (w', Inl e)" and neq: "w' \<noteq> w"
  shows "walFailed w' \<and> (walLeaves (walCrash k w') ps \<or> walLeaves (walCrash k w') (ps @ [p]))"
proof -
  let ?old = "contents (walFile w)" and ?rec = "recordBytes (walOffset w) True p"
  obtain n where n: "walFailed w'" "length p \<le> MaxWalRecord" "walDurability w' = walDurability w"
      "contents (walFile w') = ?old @ take n ?rec" "length ?old \<le> durable (walFile w) \<longrightarrow> length ?old \<le> durable (walFile w')"
    using walAppend_error [OF fails] neq by blast
  have "\<exists>m. contents (walFile (walCrash k w')) = ?old @ take m ?rec"
  proof (cases "walDurability w' = SyncBatch")
    case True
    then have "length ?old \<le> durable (walFile w')" using n(3,5) h by (auto simp: walHolds_def)
    then show ?thesis using True n(4) by (simp add: walCrash_def survivor_contents) blast
  next
    case False
    then have "contents (walFile (walCrash k w')) = contents (walFile w')"
      by (auto simp: walCrash_def intro!: survivor_all)
    then show ?thesis using n(4) by auto
  qed
  then show ?thesis
    using tornLog_append [of ps ?old p] h n(1,2) by (fastforce simp: walHolds_def walLeaves_def)
qed

interpretation wal: record_log walAppend walCrash walScan walReopen walHolds walLeaves walFailed
proof
  fix w ps p w' and u :: Position
  assume h: "walHolds w ps" and a: "walAppend w p = (w', Inr u)"
  note w' = walAppend_ok [OF a]
  have "cleanLog (ps @ [p]) (contents (walFile w'))" "walOffset w' = length (contents (walFile w'))"
    using cleanLog_append [of ps "contents (walFile w)" p] h w'(1-3) by (auto simp: walHolds_def)
  then show "walHolds w' (ps @ [p])" using h w'(6,7) by (auto simp: walHolds_def)
next
  fix w ps p w' e k
  assume "walHolds w ps" and "walAppend w p = (w', Inl e)"
  then show "w' = w \<or> walFailed w' \<and> (walLeaves (walCrash k w') ps \<or> walLeaves (walCrash k w') (ps @ [p]))"
    using walCrash_torn by blast
next
  fix w p w' and r :: "WalError + Position"
  assume "walFailed w" and "walAppend w p = (w', r)"
  then show "w' = w \<and> (\<exists>e. r = Inl e)" by (auto simp: walAppend_def split: if_splits)
next
  fix w ps assume "walLeaves w ps"
  then obtain data where "repaired (contents (walFile w)) = Some data" "cleanLog ps data"
    using repaired_log by (auto simp: walLeaves_def)
  then show "\<exists>w'. walReopen w = Some w' \<and> walHolds w' ps"
    using openWriter_clean [of ps "onDisk data (walFile w)"] by (simp add: walReopen_def newWriter_clean)
next
  fix w ps k assume h: "walHolds w ps"
  then show "walLeaves (walCrash k w) ps"
    using walCrash_holds [OF h] by (simp add: walLeaves_def walHolds_def cleanLog_torn)
qed (simp add: walScan_def walLeaves_def scan_torn)

lemma newWriter_holds: "contents f = [] \<Longrightarrow> created \<or> fileLinked f \<Longrightarrow> walHolds (newWriter f created dur) []"
  by (simp add: newWriter_clean cleanLog_empty)

text \<open>The writer of a new file, whose directory entry is still to be synced or has been.\<close>

definition createdLog :: "bool \<Rightarrow> Durability \<Rightarrow> (int \<times> bool) list \<Rightarrow> bool list \<Rightarrow> Writer" where
  "createdLog directory durability writes syncs =
     newWriter \<lparr>contents = [], fileSynced = 0, fileLinked = (\<not> directory), writePlan = writes, syncPlan = syncs\<rparr>
       directory durability"

text \<open>On a file that accepts every call, an append succeeds.\<close>

definition quiet :: "WalFile \<Rightarrow> bool" where
  "quiet f \<longleftrightarrow> writePlan f = [] \<and> syncPlan f = []"

lemma writeAll_quiet:
  assumes "quiet (walFile w)"
  shows "\<exists>w'. writeAll w data = (w', Inr ()) \<and> quiet (walFile w') \<and> walDurability w' = walDurability w"
proof (cases "data = []")
  case True
  then show ?thesis using assms by (simp add: writeAll.simps [of w "[]"])
next
  case False
  then show ?thesis
    using assms by (simp add: writeAll.simps [of w data] writeAll.simps [of _ "[]"] fileWrite_def quiet_def Let_def)
qed

lemma appendLoop_quiet:
  "quiet (walFile w) \<Longrightarrow> \<exists>w'. appendLoop w first rest = (w', Inr ()) \<and> quiet (walFile w')"
proof (induction w first rest rule: appendLoop.induct)
  case (1 w first rest)
  show ?case
  proof (cases "first \<or> rest \<noteq> []")
    case False
    then show ?thesis using "1.prems" by (simp add: appendLoop.simps [of w False "[]"])
  next
    case True
    obtain w1 where 1: "padToBlock w = (w1, Inr ())" "quiet (walFile w1)"
      using writeAll_quiet [OF "1.prems", of "replicate (blockRemaining (walOffset w)) 0"] "1.prems"
      by (cases "blockRemaining (walOffset w) < HeaderSize") (auto simp: padToBlock_def)
    let ?n = "fragmentLength (walOffset w1) rest"
    let ?h = "makeHeader (take ?n rest) (chooseFragmentKind first (?n = length rest))"
    obtain w2 where 2: "writeAll w1 ?h = (w2, Inr ())" "quiet (walFile w2)"
      using writeAll_quiet [OF 1(2)] by blast
    obtain w3 where 3: "writeAll w2 (take ?n rest) = (w3, Inr ())" "quiet (walFile w3)"
      using writeAll_quiet [OF 2(2)] by blast
    show ?thesis
      using "1.IH" [OF _ 1(1) refl refl refl 2(1) 3(1) 3(2)] True 1 2 3
      by (simp add: appendLoop.simps [of w first rest] Let_def)
  qed
qed

lemma walAppend_quiet:
  assumes "quiet (walFile w)" "\<not> walClosed w" "\<not> walFailed w" "length p \<le> MaxWalRecord"
  shows "\<exists>w' pos. walAppend w p = (w', Inr pos) \<and> quiet (walFile w') \<and> \<not> walClosed w' \<and> \<not> walFailed w'"
proof -
  obtain w' where w': "appendLoop w True p = (w', Inr ())" "quiet (walFile w')" using appendLoop_quiet [OF assms(1)] by blast
  then have "\<exists>w''. syncLocked w' = (w'', Inr ()) \<and> quiet (walFile w'')"
    by (simp add: syncLocked_def fileSync_def fileCall_def quiet_def Let_def)
  then have "\<exists>w'' pos. walAppend w p = (w'', Inr pos) \<and> quiet (walFile w'')"
    using assms w' by (auto simp: walAppend_def not_less Let_def)
  then show ?thesis using walAppend_ok(4,5) [of w p] by blast
qed

section \<open>Torn files and arbitrary bytes\<close>

text \<open>The longest run of records that lies within a number of bytes.\<close>

fun wholeRecords :: "nat \<Rightarrow> nat \<Rightarrow> bytes list \<Rightarrow> bytes list" where
  "wholeRecords m off [] = []"
| "wholeRecords m off (p # ps) =
     (let n = length (recordBytes off True p) in
      if m < n then [] else p # wholeRecords (m - n) (off + n) ps)"

lemma wholeRecords_subset: "set (wholeRecords m off ps) \<subseteq> set ps"
  by (induction m off ps rule: wholeRecords.induct) (auto simp: Let_def)

lemma take_logBytes:
  assumes "\<forall>p\<in>set ps. length p \<le> MaxWalRecord"
  shows "\<exists>q j. take m (logBytes off ps) =
      logBytes off (wholeRecords m off ps) @
        take j (recordBytes (off + length (logBytes off (wholeRecords m off ps))) True q) \<and>
    j < length (recordBytes (off + length (logBytes off (wholeRecords m off ps))) True q) \<and>
    length q \<le> MaxWalRecord"
  using assms
proof (induction m off ps rule: wholeRecords.induct)
  case (1 m off)
  show ?case
    using padLength_less [of off "[]"] by (intro exI [of _ "[]"] exI [of _ 0]) (auto simp: MaxWalRecord_def)
next
  case (2 m off p ps)
  let ?n = "length (recordBytes off True p)"
  show ?case
  proof (cases "m < ?n")
    case True
    then show ?thesis using 2 by (intro exI [of _ p] exI [of _ m]) (auto simp: Let_def)
  next
    case False
    then show ?thesis using "2.IH" [of ?n] "2.prems" by (simp add: Let_def add.assoc)
  qed
qed

lemma tornLog_take:
  assumes "\<forall>p\<in>set ps. length p \<le> MaxWalRecord"
  shows "tornLog (wholeRecords m 0 ps) (take m (logBytes 0 ps))"
proof -
  have "\<forall>p\<in>set (wholeRecords m 0 ps). length p \<le> MaxWalRecord"
    using wholeRecords_subset [of m 0 ps] assms by blast
  then show ?thesis using take_logBytes [OF assms, of m 0] unfolding tornLog_def add_0 by blast
qed

definition turnBounds :: "bytes \<Rightarrow> Reader \<Rightarrow> turn \<Rightarrow> bool" where
  "turnBounds data r t \<longleftrightarrow>
     (case t of
        Return r' b \<Rightarrow>
          if b then rOffset r + HeaderSize \<le> rOffset r' \<and> rValidEnd r' = rOffset r' \<and> rOffset r' \<le> length data
          else rValidEnd r' = rValidEnd r
      | Continue r' \<Rightarrow> rOffset r \<le> rOffset r' \<and> rOffset r' \<le> length data \<and> rValidEnd r' = rValidEnd r)"

lemma turnBounds_stop [simp]:
  "turnBounds data r (Return (corruption at cause r) False)"
  "turnBounds data r (Return (markTail a b r) False)"
  by (simp_all add: turnBounds_def corruption_def markTail_def)

lemma turnBounds_if:
  "(c \<Longrightarrow> turnBounds data r t) \<Longrightarrow> (\<not> c \<Longrightarrow> turnBounds data r t') \<Longrightarrow> turnBounds data r (if c then t else t')"
  by simp

lemma acceptFragment_bounds:
  "acceptFragment k p at r = (r', b) \<Longrightarrow>
    rOffset r' = rOffset r \<and> (if b then rValidEnd r' = rOffset r else rValidEnd r' = rValidEnd r)"
  by (auto simp: acceptFragment_def finishRecord_def appendFragment_def corruption_def split: if_splits)

lemma fragmentTurn_bounds:
  assumes "rOffset r + HeaderSize \<le> length data"
  shows "turnBounds data r (fragmentTurn data remaining r)"
proof -
  have last: "turnBounds data r (case acceptFragment k p at (r\<lparr>rOffset := rOffset r + HeaderSize + len\<rparr>) of
        (r, True) \<Rightarrow> Return r True
      | (r, False) \<Rightarrow> if rErr r \<noteq> None then Return r False else Continue r)"
    if "\<not> length data - (rOffset r + HeaderSize) < len" for k p at len
  proof -
    obtain r' b where a: "acceptFragment k p at (r\<lparr>rOffset := rOffset r + HeaderSize + len\<rparr>) = (r', b)" by force
    have "rOffset r + HeaderSize + len \<le> length data" using that assms by linarith
    then show ?thesis
      using acceptFragment_bounds [OF a] a by (cases b) (simp_all add: turnBounds_def)
  qed
  show ?thesis
    unfolding fragmentTurn_def Let_def
    by (intro turnBounds_if turnBounds_stop last) assumption+
qed

lemma nextTurn_bounds:
  assumes "rOffset r \<le> length data"
  shows "turnBounds data r (nextTurn data r)"
proof -
  have "turnBounds data r (paddingTurn data n r)" for n
    using assms by (auto simp: paddingTurn_def Let_def turnBounds_def corruption_def markTail_def)
  moreover have "turnBounds data r (Return (r\<lparr>rDone := True\<rparr>) False)" by (simp add: turnBounds_def)
  moreover have "turnBounds data r (fragmentTurn data n r)" if "\<not> length data - rOffset r < HeaderSize" for n
    using that assms by (intro fragmentTurn_bounds) linarith
  ultimately show ?thesis unfolding nextTurn_def Let_def by simp
qed

lemma nextLoop_bounds:
  assumes "rOffset r \<le> length data" "rValidEnd r \<le> rOffset r" "nextLoop data r = (r', b)"
  shows "if b then rOffset r + HeaderSize \<le> rOffset r' \<and> rValidEnd r' = rOffset r' \<and> rOffset r' \<le> length data
    else rValidEnd r' = rValidEnd r"
  using assms
proof (induction data r rule: nextLoop.induct)
  case (1 data r)
  note bounds = nextTurn_bounds [OF "1.prems"(1), unfolded turnBounds_def]
  show ?case
  proof (cases "nextTurn data r")
    case (Return x b')
    then show ?thesis using bounds "1.prems"(3) by (auto simp: nextLoop.simps [of data r] split: bool.splits)
  next
    case (Continue x)
    then show ?thesis
      using bounds "1.IH" [OF Continue] "1.prems" by (auto simp: nextLoop.simps [of data r] split: if_splits)
  qed
qed

lemma recoverLoop_bounds:
  assumes "rOffset r \<le> length data" "rValidEnd r \<le> rOffset r" "records * HeaderSize \<le> rValidEnd r"
    and "recoverLoop data consume s records r = (res, out)"
  shows "resRecords res * HeaderSize \<le> resValidEnd res \<and> resValidEnd res \<le> resFileEnd res \<and>
    resFileEnd res = length data"
  using assms
proof (induction data consume s records r rule: recoverLoop.induct)
  case (1 data consume s records r)
  obtain r1 b where n: "readerNext data r = (r1, b)" by force
  have bounds: "if b then rOffset r + HeaderSize \<le> rOffset r1 \<and> rValidEnd r1 = rOffset r1 \<and> rOffset r1 \<le> length data
      else rValidEnd r1 = rValidEnd r"
    using n nextLoop_bounds [OF "1.prems"(1,2), of r1 b] by (auto simp: readerNext_def split: if_splits)
  show ?case
  proof (cases b)
    case False
    then show ?thesis using n bounds "1.prems" by (auto simp: recoverLoop.simps [of data consume s records r])
  next
    case True
    show ?thesis
    proof (cases "consume s (rRecord r1)")
      case (Inl e)
      then show ?thesis
        using n True bounds "1.prems" by (auto simp: recoverLoop.simps [of data consume s records r])
    next
      case (Inr s')
      then show ?thesis
        using "1.IH" [OF n [symmetric] _ Inr] n True bounds "1.prems"
        by (auto simp: recoverLoop.simps [of data consume s records r])
    qed
  qed
qed

section \<open>Claims\<close>

text \<open>
  C27. No acknowledged record is lost and none is invented. Take a new log and any sequence of
  payloads handed to \<open>Append\<close>, under any pattern of short writes, impossible counts, failed
  writes and failed syncs, and then a crash: of the machine when the writer syncs every
  record, which leaves the synced bytes and an arbitrary part of the rest, and of the process
  when it does not. A scan of what is left succeeds and returns the payloads of the calls that
  returned no error, in order. After them comes nothing, or exactly the payload of one call:
  the call that returned an error and closed the writer to all further appends.
\<close>

theorem wal_acknowledged_survive:
  "case appendAll walAppend (createdLog directory durability writes syncs) ps of
     (w, acked) \<Rightarrow>
       \<exists>extra. scanRecords (contents (walFile (walCrash k w))) = Some (acked @ extra) \<and>
         (extra = [] \<or>
          (\<exists>q. extra = [q] \<and> stoppedBy walAppend walFailed (createdLog directory durability writes syncs) ps acked w q))"
proof (cases "appendAll walAppend (createdLog directory durability writes syncs) ps")
  case (Pair w acked)
  have "walHolds (createdLog directory durability writes syncs) []"
    unfolding createdLog_def by (rule newWriter_holds) simp_all
  from wal.acknowledged_survive [OF this Pair, of k] show ?thesis
    using Pair wal.leaves_scan [of "walCrash k w"] by (auto simp: walScan_def)
qed

text \<open>
  C28. A crash that cuts a log at any byte is recovered from. The scan of the file cut at \<open>m\<close>
  bytes returns exactly the records that lie wholly within them. \<open>RepairTail\<close>, when the scan
  reports a torn tail, then succeeds, and \<open>OpenWriter\<close> accepts the file and continues
  those records: the next append adds its record after them.
\<close>

theorem wal_torn_reopens:
  assumes "\<forall>p\<in>set ps. length p \<le> MaxWalRecord"
  shows "scanRecords (take m (logBytes 0 ps)) = Some (wholeRecords m 0 ps) \<and>
    (\<exists>data w. repaired (take m (logBytes 0 ps)) = Some data \<and>
      openWriter (onDisk data f) created durability = Inr w \<and> walHolds w (wholeRecords m 0 ps))"
proof -
  note torn = tornLog_take [OF assms, of m]
  obtain data where "repaired (take m (logBytes 0 ps)) = Some data" "cleanLog (wholeRecords m 0 ps) data"
    using repaired_log [OF torn] by auto
  then show ?thesis
    using scan_torn [OF torn] openWriter_clean [of "wholeRecords m 0 ps" "onDisk data f" created durability]
    by (simp add: newWriter_clean)
qed

theorem wal_torn_reopens_witness:
  "scanRecords (take 5 (logBytes 0 [[1, 2, 3], []])) = Some [] \<and>
    (\<exists>data w. repaired (take 5 (logBytes 0 [[1, 2, 3], []])) = Some data \<and>
      openWriter \<lparr>contents = data, fileSynced = length data, fileLinked = True, writePlan = [], syncPlan = []\<rparr> False SyncBatch = Inr w \<and>
      walHolds w [])"
proof -
  have "wholeRecords 5 0 [[1, 2, 3], []] = []"
    using recordBytes_long [of 0 "[1, 2, 3]"] by (simp add: HeaderSize_def)
  then show ?thesis
    using wal_torn_reopens [of "[[1, 2, 3], []]" 5 "\<lparr>contents = [], fileSynced = 0, fileLinked = True, writePlan = [], syncPlan = []\<rparr>" False SyncBatch]
    by (simp add: MaxWalRecord_def onDisk_def)
qed

text \<open>
  C29. A scan ends on every file, whatever its bytes: it reports at most one record for every
  eleven bytes, and the end of the last valid record lies within the file, so that the
  truncation \<open>RepairTail\<close> asks for never extends a file.
\<close>

theorem wal_scan_bounded:
  "case recoverFromReader data consume s of
     (res, _) \<Rightarrow> resRecords res * HeaderSize \<le> resValidEnd res \<and> resValidEnd res \<le> resFileEnd res \<and>
       resFileEnd res = length data"
  using recoverLoop_bounds [of newReader data 0 consume s]
  by (auto simp: recoverFromReader_def newReader_def split: prod.splits)

end
