(* ===== verification/Sorted_Entries.thy ===== *)
theory Sorted_Entries
  imports Internal_Key
begin

text \<open>
  Sorted runs of entries: the vocabulary in which the reads of the memtable, of the table
  files and of the engine are specified. A run is strictly increasing under the comparator;
  it stands for a map, has a lower bound for every key, a newest entry for every user key and
  version, and a part between two user keys.
\<close>

text \<open>The entry type of tables in memory and on disk.\<close>

datatype KeyedEntry = KeyedEntry (entryKey: InternalKey) (entryValue: bytes)

text \<open>The entries of a table in comparator order.\<close>

definition sortedEntries :: "KeyedEntry list \<Rightarrow> bool" where
  "sortedEntries es \<longleftrightarrow> sorted_wrt (\<lambda>a b. entryKey a < entryKey b) es"

definition entriesOf :: "KeyedEntry list \<Rightarrow> (InternalKey \<rightharpoonup> bytes)" where
  "entriesOf es = map_of (map (\<lambda>e. (entryKey e, entryValue e)) es)"

lemma entriesOf_eq_Some:
  assumes "sortedEntries es"
  shows "entriesOf es k = Some v \<longleftrightarrow> KeyedEntry k v \<in> set es"
proof -
  have "sorted_wrt (<) (map entryKey es)" using assms by (simp add: sortedEntries_def sorted_wrt_map)
  then have "distinct (map entryKey es)" by (simp add: strict_sorted_iff)
  then have "distinct (map fst (map (\<lambda>e. (entryKey e, entryValue e)) es))" by (simp add: comp_def)
  then have "entriesOf es k = Some v \<longleftrightarrow> (k, v) \<in> set (map (\<lambda>e. (entryKey e, entryValue e)) es)"
    unfolding entriesOf_def by (rule map_of_eq_Some_iff)
  also have "\<dots> \<longleftrightarrow> KeyedEntry k v \<in> set es" by force
  finally show ?thesis .
qed

definition entriesAtLeast :: "InternalKey \<Rightarrow> KeyedEntry list \<Rightarrow> KeyedEntry list" where
  "entriesAtLeast key es = filter (\<lambda>e. \<not> entryKey e < key) es"

definition firstOf :: "'a list \<Rightarrow> 'a option" where
  "firstOf xs = (case xs of [] \<Rightarrow> None | x # _ \<Rightarrow> Some x)"

lemma firstOf_simps [simp]: "firstOf [] = None" "firstOf (x # xs) = Some x"
  by (simp_all add: firstOf_def)

text \<open>The newest entry of a user key at or below a version.\<close>

definition candidateOf :: "bytes \<Rightarrow> u64 \<Rightarrow> KeyedEntry list \<Rightarrow> KeyedEntry option" where
  "candidateOf user target es =
     firstOf (filter (\<lambda>e. userKey (entryKey e) = user \<and> sequence (entryKey e) \<le> target) es)"

lemma seek_from:
  "\<not> entryKey e < InternalKey user target KindDelete \<longleftrightarrow>
     user < userKey (entryKey e) \<or> user = userKey (entryKey e) \<and> sequence (entryKey e) \<le> target"
  by (auto simp: InternalKey_less_iff kind_defs not_less)

lemma candidate_from:
  assumes "sortedEntries es"
  shows "candidateOf user target es =
    (case firstOf (entriesAtLeast (InternalKey user target KindDelete) es) of
       None \<Rightarrow> None | Some e \<Rightarrow> if userKey (entryKey e) \<noteq> user then None else Some e)"
  using assms
proof (induction es)
  case Nil
  then show ?case by (simp add: candidateOf_def entriesAtLeast_def)
next
  case (Cons e es)
  let ?K = "InternalKey user target KindDelete"
  have IH: "candidateOf user target es = (case firstOf (entriesAtLeast ?K es) of
       None \<Rightarrow> None | Some e \<Rightarrow> if userKey (entryKey e) \<noteq> user then None else Some e)"
    using Cons by (simp add: sortedEntries_def)
  show ?case
  proof (cases "entryKey e < ?K")
    case True
    then have "\<not> (userKey (entryKey e) = user \<and> sequence (entryKey e) \<le> target)" using seek_from by blast
    then show ?thesis using True IH by (auto simp: candidateOf_def entriesAtLeast_def)
  next
    case False
    then have fr: "entriesAtLeast ?K (e # es) = e # entriesAtLeast ?K es" by (simp add: entriesAtLeast_def)
    show ?thesis
    proof (cases "userKey (entryKey e) = user")
      case True
      then have "sequence (entryKey e) \<le> target" using False seek_from by blast
      then show ?thesis using True fr by (simp add: candidateOf_def)
    next
      case other: False
      then have "user < userKey (entryKey e)" using False seek_from by blast
      then have "userKey (entryKey e') \<noteq> user" if "e' \<in> set es" for e'
        using Cons.prems that by (fastforce simp: sortedEntries_def InternalKey_less_iff)
      then have "filter (\<lambda>e. userKey (entryKey e) = user \<and> sequence (entryKey e) \<le> target) es = []"
        by (auto simp: filter_empty_conv)
      then show ?thesis using other fr by (simp add: candidateOf_def)
    qed
  qed
qed

definition inRange :: "bytes option \<Rightarrow> bytes option \<Rightarrow> KeyedEntry \<Rightarrow> bool" where
  "inRange start limit e \<longleftrightarrow> (case start of None \<Rightarrow> True | Some s \<Rightarrow> s \<le> userKey (entryKey e)) \<and>
     (case limit of None \<Rightarrow> True | Some l \<Rightarrow> userKey (entryKey e) < l)"

lemma takeWhile_limit:
  assumes "sortedEntries es"
  shows "takeWhile (\<lambda>e. case limit of None \<Rightarrow> True | Some l \<Rightarrow> userKey (entryKey e) < l) es =
    filter (inRange None limit) es"
proof (cases limit)
  case (Some l)
  have "takeWhile (\<lambda>e. userKey (entryKey e) < l) es = filter (\<lambda>e. userKey (entryKey e) < l) es"
    using assms
  proof (induction es)
    case (Cons e es)
    have "\<not> userKey (entryKey e) < l \<Longrightarrow> filter (\<lambda>e. userKey (entryKey e) < l) es = []"
      using Cons.prems by (fastforce simp: filter_empty_conv sortedEntries_def InternalKey_less_iff)
    then show ?case using Cons by (simp add: sortedEntries_def)
  qed simp
  then show ?thesis by (simp add: Some inRange_def cong: filter_cong)
qed (simp add: inRange_def)

end
