(* ===== verification/File_Names.thy ===== *)
theory File_Names
  imports Byte_Codec
begin

text \<open>
  Decimal file numbers as the formats of the repository print and parse them
  (\<open>fmt.Sprintf\<close> with a zero-padded width, \<open>strconv.ParseUint\<close>), with the round trip.
\<close>

definition ascii :: "string \<Rightarrow> bytes" where
  "ascii s = map of_char s"

fun decimal :: "nat \<Rightarrow> bytes" where
  "decimal n =
     (if n < 10 then [48 + word_of_nat n] else decimal (n div 10) @ [48 + word_of_nat (n mod 10)])"

declare decimal.simps [simp del]

definition padDecimal :: "nat \<Rightarrow> nat \<Rightarrow> bytes" where
  "padDecimal width n = replicate (width - length (decimal n)) 48 @ decimal n"

definition isDigit :: "byte \<Rightarrow> bool" where
  "isDigit c \<longleftrightarrow> 48 \<le> c \<and> c \<le> 57"

definition parseUint :: "bytes \<Rightarrow> nat" where
  "parseUint ds = foldl (\<lambda>a d. a * 10 + (unat d - 48)) 0 ds"

definition hasSuffix :: "bytes \<Rightarrow> bytes \<Rightarrow> bool" where
  "hasSuffix name ext \<longleftrightarrow> length ext \<le> length name \<and> drop (length name - length ext) name = ext"

lemma decimal_digits: "list_all isDigit (decimal n)"
proof (induction n rule: decimal.induct)
  case (1 n)
  have d: "isDigit (48 + word_of_nat k)" if "k < 10" for k
  proof -
    have "k \<in> {0, 1, 2, 3, 4, 5, 6, 7, 8, 9}" using that by auto
    then show ?thesis by (auto simp: isDigit_def)
  qed
  show ?case using 1 d [of n] d [of "n mod 10"] by (simp add: decimal.simps [of n])
qed

lemma digit_value: "k < 10 \<Longrightarrow> unat (48 + word_of_nat k :: byte) - 48 = k"
proof -
  assume "k < 10"
  then have "k \<in> {0, 1, 2, 3, 4, 5, 6, 7, 8, 9}" by auto
  then show ?thesis by auto
qed

lemma parseUint_decimal: "parseUint (decimal n) = n"
proof (induction n rule: decimal.induct)
  case (1 n)
  then show ?case
    using digit_value [of n] digit_value [of "n mod 10"]
    by (simp add: decimal.simps [of n] parseUint_def)
qed

lemma parseUint_zeros: "parseUint (replicate k 48 @ ds) = parseUint ds"
  by (induction k) (simp_all add: parseUint_def)

lemma length_decimal: "n < 10 ^ k \<Longrightarrow> 0 < k \<Longrightarrow> length (decimal n) \<le> k"
proof (induction n arbitrary: k rule: decimal.induct)
  case (1 n)
  show ?case
  proof (cases "n < 10")
    case False
    then obtain j where k: "k = Suc j" "0 < j" using "1.prems" by (cases k; cases "k - 1") auto
    have "n div 10 < 10 ^ j" using "1.prems"(1) k by (simp add: less_mult_imp_div_less mult.commute)
    then show ?thesis using "1.IH" [OF False, of j] k False by (simp add: decimal.simps [of n])
  qed (use "1.prems" in \<open>simp add: decimal.simps [of n]\<close>)
qed

lemma length_padDecimal: "n < 10 ^ k \<Longrightarrow> 0 < k \<Longrightarrow> length (padDecimal k n) = k"
  using length_decimal [of n k] by (simp add: padDecimal_def)

lemma padDecimal_digits: "list_all isDigit (padDecimal k n)"
  using decimal_digits [of n] by (auto simp: padDecimal_def list_all_iff isDigit_def)

lemma parseUint_padDecimal: "parseUint (padDecimal k n) = n"
  by (simp add: padDecimal_def parseUint_zeros parseUint_decimal)

end
