(* ===== verification/Sst_Format.thy ===== *)
theory Sst_Format
  imports Wal_Log Sorted_Entries File_Names
begin

text \<open>
  \<open>storage/sstable\<close>, the parts of the table file that writer and reader share: the constants and
  the block trailer and footer of \<open>format.go\<close>, the block builder of \<open>block.go\<close> and the Bloom
  filter of \<open>bloom.go\<close>. Lengths of byte slices are naturals; what the file stores is a word of
  its width.
\<close>

section \<open>Errors and records\<close>

datatype SstClass = SstChecksum | SstHandle | SstBlock

datatype SstError =
    SstInvalidFileNumber
  | SstInvalidOptions
  | SstFileExists
  | SstOutOfOrder
  | SstDuplicateKey
  | SstDeleteHasValue
  | SstKeyTooLarge
  | SstValueTooLarge
  | SstEntryTooLarge
  | SstTableTooLarge
  | SstTooManyBlocks
  | SstEmptyTable
  | SstWriterFailed SstError
  | SstFinished
  | SstAborted
  | SstCorrupt SstClass
  | SstUnsupportedVersion
  | SstClosed
  | SstNotFound
  | SstInvalidRange
  | SstResourceLimit
  | SstIO string
  | SstPanic string
  | SstJoin SstError SstError

record SstMetadata =
  sstSmallestInternal :: InternalKey
  sstLargestInternal :: InternalKey
  sstSmallestUser :: bytes
  sstLargestUser :: bytes
  sstFileNumber :: u64
  sstFileSize :: u64
  sstEntryCount :: u64
  sstDeletionCount :: u64
  sstRawKeyValueBytes :: u64
  sstDataBlockCount :: u32

record BlockHandle =
  hOffset :: u64
  hLength :: u64

definition noHandle :: BlockHandle where
  "noHandle = \<lparr>hOffset = 0, hLength = 0\<rparr>"

section \<open>Constants (\<open>format.go\<close>)\<close>

definition FormatVersion :: u32 where "FormatVersion = 1"
definition FooterSize :: nat where "FooterSize = 80"
definition BlockTrailerSize :: nat where "BlockTrailerSize = 7"
definition DefaultBlockSize :: nat where "DefaultBlockSize = 4096"
definition DefaultRestartInterval :: nat where "DefaultRestartInterval = 16"
definition MaxUserKeySize :: nat where "MaxUserKeySize = 1048576"
definition MaxInternalKeySize :: nat where "MaxInternalKeySize = MaxUserKeySize + 9"
definition MaxValueSize :: nat where "MaxValueSize = 67108864"
definition MaxEntrySize :: nat where "MaxEntrySize = MaxInternalKeySize + MaxValueSize + 30"
definition MaxDataBlockSize :: nat where "MaxDataBlockSize = MaxEntrySize + 8"
definition MaxTableSize :: nat where "MaxTableSize = 9223372036854775807"
definition sstMaxFileNumber :: u64 where "sstMaxFileNumber = 999999999999"

definition compressionNone :: byte where "compressionNone = 0"
definition blockVersion :: byte where "blockVersion = 1"
definition footerFilterPresentFlag :: u32 where "footerFilterPresentFlag = 1"
definition fileMagic :: u64 where "fileMagic = 0x5453535445564952"

datatype BlockKind = BlockData | BlockIndex | BlockMetadata | BlockFilter

primrec kindByte :: "BlockKind \<Rightarrow> byte" where
  "kindByte BlockData = 1"
| "kindByte BlockIndex = 2"
| "kindByte BlockMetadata = 3"
| "kindByte BlockFilter = 4"

lemmas size_defs = FooterSize_def BlockTrailerSize_def MaxUserKeySize_def MaxInternalKeySize_def MaxValueSize_def
  MaxEntrySize_def MaxDataBlockSize_def MaxTableSize_def

text \<open>\<open>FileName\<close> of \<open>writer.go\<close>.\<close>

definition sstFileName :: "u64 \<Rightarrow> bytes" where
  "sstFileName number = padDecimal 12 (unat number) @ ascii ''.sst''"

definition checkedAdd :: "u64 \<Rightarrow> u64 \<Rightarrow> u64 option" where
  "checkedAdd left right = (if -1 - left < right then None else Some (left + right))"

definition appendBlockTrailer :: "bytes \<Rightarrow> BlockKind \<Rightarrow> bytes" where
  "appendBlockTrailer payload k =
     (let result = payload @ [compressionNone, kindByte k, blockVersion]
      in result @ le_put 4 (crcUpdate 0 result))"

text \<open>The checksum of the footer skips its own four bytes.\<close>

definition encodeFooter :: "BlockHandle \<Rightarrow> BlockHandle \<Rightarrow> BlockHandle \<Rightarrow> u64 \<Rightarrow> bytes" where
  "encodeFooter index meta fltr dataEnd =
     (let front = le_put 8 (hOffset index) @ le_put 8 (hLength index) @ le_put 8 (hOffset meta) @ le_put 8 (hLength meta) @
            le_put 8 (hOffset fltr) @ le_put 8 (hLength fltr) @ le_put 8 dataEnd @ le_put 4 FormatVersion @
            le_put 4 (if hLength fltr \<noteq> 0 then footerFilterPresentFlag else 0) @ le_put 4 (0 :: u32);
          magic = le_put 8 fileMagic
      in front @ le_put 4 (crcUpdate (crcUpdate 0 front) magic) @ magic)"

section \<open>Data blocks (\<open>block.go\<close>)\<close>

record BlockBuilder =
  bbBuffer :: bytes
  bbRestarts :: "u32 list"
  bbPreviousKey :: bytes
  bbRestartInterval :: nat
  bbEntries :: nat

definition newDataBlockBuilder :: "nat \<Rightarrow> BlockBuilder" where
  "newDataBlockBuilder restartInterval =
     \<lparr>bbBuffer = [], bbRestarts = [], bbPreviousKey = [], bbRestartInterval = restartInterval, bbEntries = 0\<rparr>"

definition bbEmpty :: "BlockBuilder \<Rightarrow> bool" where
  "bbEmpty b \<longleftrightarrow> bbEntries b = 0"

fun commonPrefix :: "bytes \<Rightarrow> bytes \<Rightarrow> nat" where
  "commonPrefix (x # xs) (y # ys) = (if x = y then Suc (commonPrefix xs ys) else 0)"
| "commonPrefix _ _ = 0"

definition isRestart :: "BlockBuilder \<Rightarrow> bool" where
  "isRestart b \<longleftrightarrow> bbEntries b mod bbRestartInterval b = 0"

definition projectedSize :: "BlockBuilder \<Rightarrow> bytes \<Rightarrow> bytes \<Rightarrow> nat" where
  "projectedSize b key v =
     (let shared = (if isRestart b then 0 else commonPrefix (bbPreviousKey b) key);
          unshared = length key - shared;
          restartCount = length (bbRestarts b) + (if isRestart b then 1 else 0)
      in length (bbBuffer b) + uvarintLen (word_of_nat shared) + uvarintLen (word_of_nat unshared) +
         uvarintLen (word_of_nat (length v)) + unshared + length v + restartCount * 4 + 4)"

definition bbAdd :: "BlockBuilder \<Rightarrow> bytes \<Rightarrow> bytes \<Rightarrow> BlockBuilder" where
  "bbAdd b key v =
     (let shared = (if isRestart b then 0 else commonPrefix (bbPreviousKey b) key);
          unshared = length key - shared
      in b\<lparr>bbRestarts := bbRestarts b @ (if isRestart b then [word_of_nat (length (bbBuffer b))] else []),
           bbBuffer := bbBuffer b @ putUvarint (word_of_nat shared) @ putUvarint (word_of_nat unshared) @
             putUvarint (word_of_nat (length v)) @ drop shared key @ v,
           bbPreviousKey := key,
           bbEntries := bbEntries b + 1\<rparr>)"

definition bbFinish :: "BlockBuilder \<Rightarrow> bytes" where
  "bbFinish b = bbBuffer b @ concat (map (le_put 4) (bbRestarts b)) @ le_put 4 (word_of_nat (length (bbRestarts b)) :: u32)"

definition bbReset :: "BlockBuilder \<Rightarrow> BlockBuilder" where
  "bbReset b = b\<lparr>bbBuffer := [], bbRestarts := [], bbPreviousKey := [], bbEntries := 0\<rparr>"

section \<open>The Bloom filter (\<open>bloom.go\<close>)\<close>

definition bloomAlgorithm :: byte where "bloomAlgorithm = 1"
definition bloomProbes :: byte where "bloomProbes = 7"
definition bloomBitsPerKey :: u64 where "bloomBitsPerKey = 10"
definition bloomHeaderSize :: nat where "bloomHeaderSize = 16"
definition bloomSeed :: u64 where "bloomSeed = 0x9e3779b97f4a7c15"
definition maxBloomBytes :: u64 where "maxBloomBytes = 268435456"

record BloomHash =
  bhFirst :: u64
  bhDelta :: u64

record BloomFilter =
  bfBits :: bytes
  bfProbes :: byte

definition mixBloom :: "u64 \<Rightarrow> u64" where
  "mixBloom v =
     (let v = v XOR drop_bit 30 v;
          v = v * 0xbf58476d1ce4e5b9;
          v = v XOR drop_bit 27 v;
          v = v * 0x94d049bb133111eb
      in v XOR drop_bit 31 v)"

definition hashBloomKey :: "bytes \<Rightarrow> BloomHash" where
  "hashBloomKey key =
     (let v = foldl (\<lambda>v octet. (v XOR ucast octet) * 1099511628211) (14695981039346656037 XOR bloomSeed) key
      in \<lparr>bhFirst = v, bhDelta = mixBloom (v + bloomSeed) OR 1\<rparr>)"

definition bloomPosition :: "bytes \<Rightarrow> BloomHash \<Rightarrow> nat \<Rightarrow> u64" where
  "bloomPosition bits h probe = (bhFirst h + word_of_nat probe * bhDelta h) mod word_of_nat (length bits * 8)"

definition setBloomBit :: "bytes \<Rightarrow> u64 \<Rightarrow> bytes" where
  "setBloomBit bits position =
     bits[unat (position div 8) := (bits ! unat (position div 8)) OR push_bit (unat (position mod 8)) 1]"

definition bloomAdd :: "BloomFilter \<Rightarrow> BloomHash \<Rightarrow> BloomFilter" where
  "bloomAdd f h =
     f\<lparr>bfBits := foldl (\<lambda>bits probe. setBloomBit bits (bloomPosition bits h probe)) (bfBits f) [0..<unat (bfProbes f)]\<rparr>"

definition mayContain :: "BloomFilter \<Rightarrow> bytes \<Rightarrow> bool" where
  "mayContain f key \<longleftrightarrow>
     bfBits f = [] \<or>
     list_all (\<lambda>probe.
       let position = bloomPosition (bfBits f) (hashBloomKey key) probe
       in (bfBits f ! unat (position div 8)) AND push_bit (unat (position mod 8)) 1 \<noteq> 0) [0..<unat (bfProbes f)]"

definition noBloom :: BloomFilter where
  "noBloom = \<lparr>bfBits = [], bfProbes = 0\<rparr>"

definition encodeBloom :: "BloomHash list \<Rightarrow> SstError + bytes" where
  "encodeBloom hashes =
     (if length hashes > 4294967295 div unat bloomBitsPerKey then Inl SstResourceLimit
      else
        let bitCount = word_of_nat (length hashes) * bloomBitsPerKey :: u64;
            bitCount = (if bitCount < 64 then 64 else bitCount);
            bitCount = (bitCount + 7) AND NOT 7;
            byteCount = bitCount div 8
        in if byteCount > maxBloomBytes \<or> bitCount > 4294967295 then Inl SstResourceLimit
           else Inr ([bloomAlgorithm, bloomProbes, 0, 0] @ le_put 4 (ucast bitCount :: u32) @ le_put 8 bloomSeed @
             bfBits (foldl bloomAdd \<lparr>bfBits = replicate (unat byteCount) 0, bfProbes = bloomProbes\<rparr> hashes)))"

definition decodeBloom :: "bytes \<Rightarrow> SstError + BloomFilter" where
  "decodeBloom payload =
     (if length payload < bloomHeaderSize \<or> payload ! 0 \<noteq> bloomAlgorithm \<or> payload ! 1 \<noteq> bloomProbes \<or>
         payload ! 2 \<noteq> 0 \<or> payload ! 3 \<noteq> 0 \<or> le_get (slice 8 16 payload) \<noteq> bloomSeed
      then Inl (SstCorrupt SstBlock)
      else
        let bitCount = ucast (le_get (slice 4 8 payload) :: u32) :: u64 in
        if bitCount < 64 \<or> bitCount mod 8 \<noteq> 0 \<or> bitCount div 8 > maxBloomBytes \<or>
           word_of_nat (length payload - bloomHeaderSize) \<noteq> bitCount div 8
        then Inl (SstCorrupt SstBlock)
        else Inr \<lparr>bfBits = drop bloomHeaderSize payload, bfProbes = bloomProbes\<rparr>)"

end
