(* ===== verification/Manifest_Store.thy ===== *)
theory Manifest_Store
  imports Manifest_Replay Wal_Properties Write_Batch Sst_Format
begin

text \<open>
  The owner of the manifest (\<open>manifest/store.go\<close>, \<open>manifest/current.go\<close>,
  \<open>manifest/recovery.go\<close>): creation and recovery, the installation of edits, the rewrite
  that switches \<open>CURRENT\<close>, and the classification of the files of a directory.

  The directory is part of the state. Its manifests are files of the log model; a table file
  is what \<open>sstable.Open\<close> reports about it; every call of the operating system that
  \<open>publishCurrent\<close> makes takes its result from a script, so that the theorems cover every
  pattern of failures. The directory also records what has been synced: the bytes and the entry
  of each manifest, the bytes of \<open>CURRENT\<close>, and the \<open>CURRENT\<close> that the last sync of the directory
  covered. The logger, the clock and the mutex have no counterpart.
\<close>

section \<open>Errors and the directory\<close>

datatype StoreError =
    EditError ManifestError
  | StoreWal WalError
  | StoreBatch batch_error
  | ErrInvalidOptions
  | ErrCurrentCorrupt
  | ErrMissingManifest
  | ErrMissingLiveTable
  | ErrCorruptLiveTable
  | ErrFileNumberExhausted
  | ErrWriterPoisoned
  | ErrStoreClosed
  | ErrCurrentAmbiguous
  | ErrCurrentTempExists
  | ErrManifestNumberExhausted
  | ErrMetadataMismatch
  | ErrStaleVersion
  | ErrReplicatedFrontierGap
  | ErrFrontierSplitsBatch
  | ContextDone
  | StoreIO string
  | StorePanic string
  | StoreJoin StoreError StoreError

text \<open>What opening a table file yields.\<close>

datatype TableFile = TableMissing | TableBroken | TableOpens SstMetadata bool

text \<open>
  \<open>dirEntries\<close> are the names in the order of \<open>os.ReadDir\<close>. The flag of \<open>TableOpens\<close> says
  that closing the reader fails. \<open>dirPlans\<close> holds the scripts of the log files still to be
  created and \<open>dirOps\<close> the results of the calls that \<open>publishCurrent\<close> makes. \<open>dirCurrentSynced\<close>
  says that the bytes of \<open>CURRENT\<close> were synced before the rename, \<open>dirTempSynced\<close> that those of
  \<open>CURRENT.tmp\<close> are, and \<open>dirLinked\<close> is the \<open>CURRENT\<close> of the last sync of the directory, which a
  crash of the machine may bring back.
\<close>

record StoreDirectory =
  dirEntries :: "bytes list"
  dirIsDir :: "bytes \<Rightarrow> bool"
  dirTable :: "bytes \<Rightarrow> TableFile"
  dirLog :: "bytes \<Rightarrow> bytes"
  dirManifests :: "u64 \<Rightarrow> WalFile option"
  dirCurrent :: "bytes option"
  dirCurrentSynced :: bool
  dirLinked :: "bytes option"
  dirTemp :: bool
  dirTempSynced :: bool
  dirOps :: "bool list"
  dirPlans :: "((int \<times> bool) list \<times> bool list) list"

section \<open>File names\<close>

definition maxManifestNumber :: u64 where "maxManifestNumber = 999999"

definition manifestPrefix :: bytes where "manifestPrefix = ascii ''MANIFEST-''"

definition manifestFileName :: "u64 \<Rightarrow> bytes" where
  "manifestFileName number = manifestPrefix @ padDecimal 6 (unat number)"

definition parseManifestName :: "bytes \<Rightarrow> StoreError + u64" where
  "parseManifestName name =
     (if length name \<noteq> length manifestPrefix + 6 \<or> take (length manifestPrefix) name \<noteq> manifestPrefix
      then Inl ErrCurrentCorrupt
      else let digits = drop (length manifestPrefix) name in
        if \<not> list_all isDigit digits then Inl ErrCurrentCorrupt
        else let number = word_of_nat (parseUint digits) in
          if number = 0 \<or> number > maxManifestNumber then Inl ErrCurrentCorrupt else Inr number)"

definition parseSSTableName :: "bytes \<Rightarrow> bool \<Rightarrow> u64 option" where
  "parseSSTableName name temporary =
     (let ext = ascii ''.sst'' @ (if temporary then ascii ''.tmp'' else []) in
      if length name \<noteq> 12 + length ext \<or> \<not> hasSuffix name ext then None
      else let digits = take 12 name in
        if \<not> list_all isDigit digits then None
        else let number = word_of_nat (parseUint digits) in
          if number \<noteq> 0 \<and> number \<le> MaxFileNumber then Some number else None)"

section \<open>\<open>CURRENT\<close> (\<open>current.go\<close>)\<close>

definition readCurrent :: "StoreDirectory \<Rightarrow> StoreError + u64" where
  "readCurrent d =
     (case dirCurrent d of
        None \<Rightarrow> Inl ErrCurrentCorrupt
      | Some bs \<Rightarrow>
          if length bs < 2 \<or> last bs \<noteq> 10 \<or> count_list bs 10 \<noteq> 1 then Inl ErrCurrentCorrupt
          else parseManifestName (butlast bs))"

definition takeOp :: "StoreDirectory \<Rightarrow> StoreDirectory \<times> bool" where
  "takeOp d = (case dirOps d of [] \<Rightarrow> (d, False) | failed # plan \<Rightarrow> (d\<lparr>dirOps := plan\<rparr>, failed))"

definition joined :: "StoreError \<Rightarrow> bool \<Rightarrow> StoreError \<Rightarrow> StoreError" where
  "joined cause failed e = (if failed then StoreJoin cause e else cause)"

definition removeCurrentTemp :: "StoreError \<Rightarrow> StoreDirectory \<Rightarrow> StoreDirectory \<times> bool \<times> StoreError option" where
  "removeCurrentTemp cause d =
     (let (d, failed) = takeOp d in
      (if failed then d else d\<lparr>dirTemp := False\<rparr>, False, Some (joined cause failed (StoreIO ''remove''))))"

definition abandonTemp :: "string \<Rightarrow> StoreDirectory \<Rightarrow> StoreDirectory \<times> bool \<times> StoreError option" where
  "abandonTemp what d =
     (let (d, failed) = takeOp d in removeCurrentTemp (joined (StoreIO what) failed (StoreIO ''close'')) d)"

definition syncCurrentDirectory :: "StoreDirectory \<Rightarrow> StoreDirectory \<times> bool \<times> StoreError option" where
  "syncCurrentDirectory d =
     (let (d, failed) = takeOp d in
      if failed then (d, True, Some (StoreIO ''open directory''))
      else let (d, failed) = takeOp d in
        if failed
        then (let (d, closed) = takeOp d in (d, True, Some (joined (StoreIO ''sync directory'') closed (StoreIO ''close''))))
        else let (d, failed) = takeOp (d\<lparr>dirLinked := dirCurrent d\<rparr>) in
          if failed then (d, True, Some (StoreIO ''close directory'')) else (d, False, None))"

text \<open>The flag of the result says that the publication is ambiguous.\<close>

definition publishCurrent :: "u64 \<Rightarrow> StoreDirectory \<Rightarrow> StoreDirectory \<times> bool \<times> StoreError option" where
  "publishCurrent number d =
     (case parseManifestName (manifestFileName number) of
        Inl e \<Rightarrow> (d, False, Some e)
      | Inr _ \<Rightarrow>
          if dirTemp d then (d, False, Some ErrCurrentTempExists)
          else let (d, failed) = takeOp d in
            if failed then (d, False, Some (StoreIO ''create''))
            else let (d, failed) = takeOp (d\<lparr>dirTemp := True, dirTempSynced := False\<rparr>) in
              if failed then abandonTemp ''write'' d
              else let (d, failed) = takeOp d in
                if failed then abandonTemp ''sync'' d
                else let (d, failed) = takeOp (d\<lparr>dirTempSynced := True\<rparr>) in
                  if failed then removeCurrentTemp (StoreIO ''close'') d
                  else let (d, failed) = takeOp d in
                    if failed then removeCurrentTemp (StoreIO ''rename'') d
                    else syncCurrentDirectory (d\<lparr>dirTemp := False, dirCurrent := Some (manifestFileName number @ [10]),
                      dirCurrentSynced := dirTempSynced d\<rparr>))"

section \<open>Recovery (\<open>recovery.go\<close>)\<close>

definition replayEdit :: "Version \<times> nat \<Rightarrow> bytes \<Rightarrow> StoreError + (Version \<times> nat)" where
  "replayEdit s payload =
     (case s of (version, applied) \<Rightarrow>
        case DecodeVersionEdit payload of
          Inl e \<Rightarrow> Inl (EditError e)
        | Inr edit \<Rightarrow>
            (case applyEdit version edit of
               Inl e \<Rightarrow> Inl (EditError e)
             | Inr candidate \<Rightarrow> Inr (candidate, applied + 1)))"

definition recoverManifest :: "bytes \<Rightarrow> StoreError + (Version \<times> RecoveryResult)" where
  "recoverManifest data =
     (case recoverFromReader data (\<lambda>s rec. replayEdit s (recPayload rec)) (initialVersion, 0) of
        (_, Inl (ScanError _ e)) \<Rightarrow> Inl (StoreJoin (EditError ErrManifestCorrupt) (StoreWal e))
      | (_, Inl (ConsumeError _ e)) \<Rightarrow> Inl (StoreJoin (EditError ErrManifestCorrupt) e)
      | (result, Inr (version, applied)) \<Rightarrow>
          if applied = 0 \<or> comparator version \<noteq> ComparatorName
          then Inl (StoreJoin (EditError ErrManifestCorrupt) (EditError ErrComparatorMismatch))
          else Inr (version, result))"

definition sstableMetadataEqual :: "TableMetadata \<Rightarrow> SstMetadata \<Rightarrow> bool" where
  "sstableMetadataEqual t m \<longleftrightarrow>
     fileNumber t = sstFileNumber m \<and> fileSize t = sstFileSize m \<and> entryCount t = sstEntryCount m \<and>
     deletionCount t = sstDeletionCount m \<and> rawKeyValueBytes t = sstRawKeyValueBytes m \<and>
     dataBlockCount t = sstDataBlockCount m \<and>
     compareInternal (smallestInternal t) (sstSmallestInternal m) = 0 \<and>
     compareInternal (largestInternal t) (sstLargestInternal m) = 0 \<and>
     smallestUser t = sstSmallestUser m \<and> largestUser t = sstLargestUser m"

definition validatePhysicalTable :: "StoreDirectory \<Rightarrow> bytes \<Rightarrow> TableMetadata \<Rightarrow> StoreError + unit" where
  "validatePhysicalTable d path expected =
     (case dirTable d path of
        TableMissing \<Rightarrow> Inl ErrMissingLiveTable
      | TableBroken \<Rightarrow> Inl ErrCorruptLiveTable
      | TableOpens actual closeFails \<Rightarrow>
          if closeFails then Inl ErrCorruptLiveTable
          else if \<not> sstableMetadataEqual expected actual then Inl (StoreJoin ErrCorruptLiveTable ErrMetadataMismatch)
          else Inr ())"

record Discovery =
  discLive :: "u64 list"
  discOrphans :: "u64 list"
  discTemporary :: "bytes list"
  discInvalid :: "bytes list"

definition compareU64 :: "u64 \<Rightarrow> u64 \<Rightarrow> int" where
  "compareU64 a b = (if a < b then -1 else if b < a then 1 else 0)"

definition sortDiscovery :: "Discovery \<Rightarrow> Discovery" where
  "sortDiscovery r =
     \<lparr>discLive = sortFunc compareU64 (discLive r), discOrphans = sortFunc compareU64 (discOrphans r),
      discTemporary = sortFunc compareBytes (discTemporary r), discInvalid = sortFunc compareBytes (discInvalid r)\<rparr>"

definition liveTable :: "Version \<Rightarrow> u64 \<Rightarrow> TableMetadata option" where
  "liveTable v n = map_of (rev (map (\<lambda>t. (fileNumber t, t)) (liveTables v))) n"

definition discoverTable :: "StoreDirectory \<Rightarrow> Version \<Rightarrow> bytes \<Rightarrow> u64 \<Rightarrow> Discovery \<Rightarrow> StoreError + Discovery" where
  "discoverTable d v name number r =
     (case liveTable v number of
        Some expected \<Rightarrow>
          bindR (validatePhysicalTable d name expected) (\<lambda>_. Inr (r\<lparr>discLive := discLive r @ [number]\<rparr>))
      | None \<Rightarrow>
          (case dirTable d name of
             TableOpens _ closeFails \<Rightarrow>
               if closeFails then Inl (StoreIO ''close orphan'')
               else Inr (r\<lparr>discOrphans := discOrphans r @ [number]\<rparr>)
           | _ \<Rightarrow> Inr (r\<lparr>discInvalid := discInvalid r @ [name]\<rparr>)))"

fun discoverLoop :: "StoreDirectory \<Rightarrow> Version \<Rightarrow> bytes list \<Rightarrow> Discovery \<Rightarrow> u64 \<Rightarrow> StoreError + (Discovery \<times> u64)" where
  "discoverLoop d v [] r observed = Inr (r, observed)"
| "discoverLoop d v (name # names) r observed =
     (case parseSSTableName name False of
        Some number \<Rightarrow>
          bindR (discoverTable d v name number r) (\<lambda>r. discoverLoop d v names r (max observed number))
      | None \<Rightarrow>
          (case parseSSTableName name True of
             Some number \<Rightarrow>
               discoverLoop d v names (r\<lparr>discTemporary := discTemporary r @ [name]\<rparr>) (max observed number)
           | None \<Rightarrow>
               if name = ascii ''CURRENT.tmp'' \<or> hasSuffix name (ascii ''.manifest.tmp'')
               then discoverLoop d v names (r\<lparr>discTemporary := discTemporary r @ [name]\<rparr>) observed
               else discoverLoop d v names r observed))"

definition discoverAndValidate :: "StoreDirectory \<Rightarrow> Version \<Rightarrow> StoreError + (Discovery \<times> u64)" where
  "discoverAndValidate d v =
     bindR (discoverLoop d v (dirEntries d) \<lparr>discLive = [], discOrphans = [], discTemporary = [], discInvalid = []\<rparr> 0)
       (\<lambda>(r, observed).
         if list_ex (\<lambda>t. fileNumber t \<notin> set (discLive r)) (liveTables v) then Inl ErrMissingLiveTable
         else Inr (sortDiscovery r, observed))"

definition lastSequenceOf :: "WriteBatch \<Rightarrow> u64" where
  "lastSequenceOf b = firstSequence b + word_of_nat (length (mutations b)) - 1"

definition walMaximum :: "(u64 \<times> bool) \<Rightarrow> bytes \<Rightarrow> StoreError + (u64 \<times> bool)" where
  "walMaximum s payload =
     (case decodeWriteBatch payload of
        Inl e \<Rightarrow> Inl (StoreBatch e)
      | Inr batch \<Rightarrow>
          let highest = lastSequenceOf batch in
          if \<not> snd s \<or> highest > fst s then Inr (highest, True) else Inr s)"

fun maximumWALLoop :: "StoreDirectory \<Rightarrow> bytes list \<Rightarrow> u64 \<times> bool \<Rightarrow> StoreError + (u64 \<times> bool)" where
  "maximumWALLoop d [] s = Inr s"
| "maximumWALLoop d (name # names) s =
     (if dirIsDir d name \<or> \<not> hasSuffix name (ascii ''.wal'') then maximumWALLoop d names s
      else case recoverFromReader (dirLog d name) (\<lambda>s rec. walMaximum s (recPayload rec)) s of
        (_, Inl (ScanError _ e)) \<Rightarrow> Inl (StoreWal e)
      | (_, Inl (ConsumeError _ e)) \<Rightarrow> Inl e
      | (_, Inr s) \<Rightarrow> maximumWALLoop d names s)"

definition maximumWALSequence :: "StoreDirectory \<Rightarrow> StoreError + (u64 \<times> bool)" where
  "maximumWALSequence d = maximumWALLoop d (dirEntries d) (0, False)"

text \<open>
  \<open>ReplayWAL\<close> over the operations of the table that it fills. A failed replay leaves a table
  that its caller drops, so only the error is returned.
\<close>

definition replayBatch :: "('t \<Rightarrow> WriteBatch \<Rightarrow> StoreError + 't) \<Rightarrow> u64 option \<Rightarrow> 't \<times> u64 \<Rightarrow> bytes \<Rightarrow>
    StoreError + ('t \<times> u64)" where
  "replayBatch applyBatch replayed s payload =
     (case s of (table, applied) \<Rightarrow>
        case decodeWriteBatch payload of
          Inl e \<Rightarrow> Inl (StoreBatch e)
        | Inr batch \<Rightarrow>
            if (\<exists>f. replayed = Some f \<and> lastSequenceOf batch \<le> f) then Inr (table, applied)
            else if (\<exists>f. replayed = Some f \<and> firstSequence batch \<le> f) then Inl ErrFrontierSplitsBatch
            else bindR (applyBatch table batch) (\<lambda>table.
              Inr (table, applied + word_of_nat (length (mutations batch)))))"

definition ReplayWAL :: "('t \<Rightarrow> bool) \<Rightarrow> ('t \<Rightarrow> WriteBatch \<Rightarrow> StoreError + 't) \<Rightarrow> bytes \<Rightarrow> u64 option \<Rightarrow> 't \<Rightarrow>
    StoreError + ('t \<times> u64)" where
  "ReplayWAL frozen applyBatch data replayed table =
     (if frozen table then Inl ErrInvalidOptions
      else case recoverFromReader data (\<lambda>s rec. replayBatch applyBatch replayed s (recPayload rec)) (table, 0) of
        (_, Inl (ScanError _ e)) \<Rightarrow> Inl (StoreWal e)
      | (_, Inl (ConsumeError _ e)) \<Rightarrow> Inl e
      | (_, Inr r) \<Rightarrow> Inr r)"

definition nextSequence :: "u64 \<Rightarrow> bool \<Rightarrow> u64 \<times> bool" where
  "nextSequence maximum found =
     (if \<not> found then (0, False) else if maximum = -1 then (0, True) else (maximum + 1, False))"

section \<open>The store (\<open>store.go\<close>)\<close>

record Stats =
  stEdits :: u64
  stBytes :: u64
  stFsyncs :: u64
  stRewrites :: u64

text \<open>
  \<open>msHook\<close> is the configured \<open>ReplicatedFrontierHook\<close> and \<open>msHooked\<close> what it was given;
  \<open>msAfterDurable\<close> says that the \<open>afterDurable\<close> callback is set and fails. The statistics
  that copy fields of the version are not repeated.
\<close>

record ManifestStore =
  msDirectory :: StoreDirectory
  msWriter :: Writer
  manifestNumber :: u64
  nextManifest :: u64
  msCurrent :: Version
  msDiscovery :: Discovery
  msNextSequence :: u64
  msSeqExhausted :: bool
  msPoisoned :: "StoreError option"
  msClosed :: bool
  msCloseErr :: "StoreError option"
  msStats :: Stats
  msAfterDurable :: bool
  msHook :: bool
  msHooked :: "u64 list"
  msObsolete :: "u64 list"

record StoreOptions =
  optDirectoryOk :: bool
  optMode :: StorageMode
  optHook :: bool

definition configureOptions :: "StoreOptions \<Rightarrow> StoreOptions" where
  "configureOptions o' = (if optMode o' = 0 then o'\<lparr>optMode := ModeStandalone\<rparr> else o')"

definition validateOptions :: "StoreOptions \<Rightarrow> StoreError + unit" where
  "validateOptions o' =
     (let m = (if optMode o' = 0 then ModeStandalone else optMode o') in
      if m \<noteq> ModeStandalone \<and> m \<noteq> ModeReplicated \<and> m \<noteq> ModeReplicatedMVCC then Inl ErrInvalidOptions
      else if \<not> optDirectoryOk o' then Inl ErrInvalidOptions
      else Inr ())"

definition newStore :: "StoreOptions \<Rightarrow> StoreDirectory \<Rightarrow> Writer \<Rightarrow> u64 \<Rightarrow> Version \<Rightarrow> ManifestStore" where
  "newStore o' d w number version =
     \<lparr>msDirectory = d, msWriter = w, manifestNumber = number, nextManifest = number + 1, msCurrent = version,
      msDiscovery = \<lparr>discLive = [], discOrphans = [], discTemporary = [], discInvalid = []\<rparr>,
      msNextSequence = 0, msSeqExhausted = False, msPoisoned = None, msClosed = False, msCloseErr = None,
      msStats = \<lparr>stEdits = 0, stBytes = 0, stFsyncs = 0, stRewrites = 0\<rparr>,
      msAfterDurable = False, msHook = optHook o', msHooked = [], msObsolete = []\<rparr>"

definition openManifestWriter :: "StoreDirectory \<Rightarrow> u64 \<Rightarrow> (StoreDirectory, StoreError, Writer) outcome" where
  "openManifestWriter d number =
     (if number = 0 \<or> number > maxManifestNumber then (d, Inl ErrManifestNumberExhausted)
      else if dirManifests d number \<noteq> None then (d, Inl (EditError ErrFileNumberCollision))
      else
        let (writes, syncs) = (case dirPlans d of [] \<Rightarrow> ([], []) | p # _ \<Rightarrow> p);
            f = \<lparr>contents = [], fileSynced = 0, fileLinked = False, writePlan = writes, syncPlan = syncs\<rparr>;
            d = d\<lparr>dirPlans := tl (dirPlans d), dirManifests := (dirManifests d)(number := Some f),
                  dirEntries := sortFunc compareBytes (manifestFileName number # dirEntries d)\<rparr>
        in case openWriter f True SyncBatch of
             Inl e \<Rightarrow> (d, Inl (StoreWal e))
           | Inr w \<Rightarrow> (d, Inr w))"

text \<open>A writer that is given up leaves its file behind.\<close>

definition leaveManifest :: "u64 \<Rightarrow> Writer \<Rightarrow> StoreDirectory \<Rightarrow> StoreDirectory" where
  "leaveManifest number w d = d\<lparr>dirManifests := (dirManifests d)(number := Some (walFile w))\<rparr>"

definition closeWriter :: "u64 \<Rightarrow> Writer \<Rightarrow> StoreDirectory \<Rightarrow> StoreError \<Rightarrow> StoreDirectory \<times> StoreError" where
  "closeWriter number w d cause =
     (let (w, r) = walClose w in
      (leaveManifest number w d, case r of Inl e \<Rightarrow> StoreJoin cause (StoreWal e) | Inr _ \<Rightarrow> cause))"

fun highestManifest :: "bytes list \<Rightarrow> u64" where
  "highestManifest [] = 0"
| "highestManifest (name # names) =
     (case parseManifestName name of Inr n \<Rightarrow> max n (highestManifest names) | Inl _ \<Rightarrow> highestManifest names)"

definition nextManifestNumber :: "StoreDirectory \<Rightarrow> StoreError + u64" where
  "nextManifestNumber d =
     (let highest = highestManifest (dirEntries d) in
      if highest \<ge> maxManifestNumber then Inl ErrManifestNumberExhausted else Inr (highest + 1))"

definition initialEdit :: "StorageMode \<Rightarrow> VersionEdit" where
  "initialEdit m =
     (let edit = emptyEdit\<lparr>edComparator := Some ComparatorName, edNextFileNumber := Some 1\<rparr> in
      if m = ModeReplicated \<or> m = ModeReplicatedMVCC
      then edit\<lparr>edStorageMode := Some m, edReplicatedAppliedThrough := Some 0\<rparr> else edit)"

definition installLocked :: "VersionEdit \<Rightarrow> ManifestStore \<Rightarrow> (ManifestStore, StoreError, unit) outcome" where
  "installLocked edit s =
     (if msClosed s then (s, Inl ErrStoreClosed)
      else case msPoisoned s of
        Some e \<Rightarrow> (s, Inl (StoreJoin ErrWriterPoisoned e))
      | None \<Rightarrow>
      (case applyEdit (msCurrent s) edit of
        Inl e \<Rightarrow> (s, Inl (EditError e))
      | Inr candidate \<Rightarrow>
      (case EncodeVersionEdit edit of
        Inl e \<Rightarrow> (s, Inl (EditError e))
      | Inr encoded \<Rightarrow>
      (case walAppend (msWriter s) encoded of
        (w, Inl e) \<Rightarrow>
          (s\<lparr>msWriter := w, msPoisoned := Some (StoreWal e)\<rparr>, Inl (StoreJoin ErrWriterPoisoned (StoreWal e)))
      | (w, Inr _) \<Rightarrow>
          let s = s\<lparr>msWriter := w,
                    msStats := (msStats s)\<lparr>stEdits := stEdits (msStats s) + 1, stFsyncs := stFsyncs (msStats s) + 1,
                      stBytes := stBytes (msStats s) + word_of_nat (length encoded)\<rparr>\<rparr>;
              s = (case edReplicatedAppliedThrough edit of
                     Some n \<Rightarrow> if msHook s then s\<lparr>msHooked := msHooked s @ [n]\<rparr> else s
                   | None \<Rightarrow> s)
          in if msAfterDurable s
             then (s\<lparr>msPoisoned := Some (StoreIO ''after durable'')\<rparr>, Inl (StoreIO ''after durable''))
             else
               let s = s\<lparr>msCurrent := candidate\<rparr> in
               if haveLastSequence candidate
               then (let (n, exhausted) = nextSequence (lastSequence candidate) True in
                     (s\<lparr>msNextSequence := n, msSeqExhausted := exhausted\<rparr>, Inr ()))
               else (s, Inr ())))))"

primrec validateAdded :: "StoreDirectory \<Rightarrow> TableMetadata list \<Rightarrow> StoreError + unit" where
  "validateAdded d [] = Inr ()"
| "validateAdded d (t # ts) =
     bindR (validatePhysicalTable d (sstFileName (fileNumber t)) t) (\<lambda>_. validateAdded d ts)"

definition installEdit :: "VersionEdit \<Rightarrow> ManifestStore \<Rightarrow> (ManifestStore, StoreError, unit) outcome" where
  "installEdit edit s =
     (if edStorageMode edit \<noteq> None \<or> edReplicatedAppliedThrough edit \<noteq> None \<or> edMaxAppliedMVCC edit \<noteq> None
      then (s, Inl (EditError ErrModeMismatch))
      else case validateAdded (msDirectory s) (edAddedFiles edit) of
        Inl e \<Rightarrow> (s, Inl e)
      | Inr _ \<Rightarrow> installLocked edit s)"

datatype Context = NilContext | DoneContext | LiveContext

definition checkContext :: "Context \<Rightarrow> StoreError + unit" where
  "checkContext ctx =
     (case ctx of NilContext \<Rightarrow> Inl ErrInvalidOptions | DoneContext \<Rightarrow> Inl ContextDone | LiveContext \<Rightarrow> Inr ())"

definition AllocateFileNumber :: "Context \<Rightarrow> ManifestStore \<Rightarrow> (ManifestStore, StoreError, u64) outcome" where
  "AllocateFileNumber ctx s =
     (case checkContext ctx of
        Inl e \<Rightarrow> (s, Inl e)
      | Inr _ \<Rightarrow>
          if msClosed s then (s, Inl ErrStoreClosed)
          else let number = nextFileNumber (msCurrent s) in
            if number = 0 \<or> number > MaxFileNumber then (s, Inl ErrFileNumberExhausted)
            else andThen (installLocked (emptyEdit\<lparr>edNextFileNumber := Some (number + 1)\<rparr>) s) (\<lambda>s _. (s, Inr number)))"

record TableInstallation =
  insGeneration :: u64
  insSmallestSequence :: u64
  insLargestSequence :: u64
  insMetadata :: SstMetadata
  insPath :: bytes
  insHaveCoverage :: bool
  insFirstApplied :: u64
  insLastApplied :: u64
  insMaxMVCC :: u64

definition newTableMetadata :: "u32 \<Rightarrow> u64 \<Rightarrow> u64 \<Rightarrow> u64 \<Rightarrow> SstMetadata \<Rightarrow> ManifestError + TableMetadata" where
  "newTableMetadata level gen smallest largest m =
     (let table = \<lparr>tabLevel = level, fileNumber = sstFileNumber m, flushGeneration = gen, fileSize = sstFileSize m,
        entryCount = sstEntryCount m, deletionCount = sstDeletionCount m, rawKeyValueBytes = sstRawKeyValueBytes m,
        dataBlockCount = sstDataBlockCount m, smallestSequence = smallest, largestSequence = largest,
        smallestInternal = sstSmallestInternal m, largestInternal = sstLargestInternal m,
        smallestUser = sstSmallestUser m, largestUser = sstLargestUser m\<rparr>
      in bindR (validateTable table) (\<lambda>_. cloneTable table))"

definition replicatedInstall :: "TableInstallation \<Rightarrow> Version \<Rightarrow> VersionEdit \<Rightarrow> StoreError + VersionEdit" where
  "replicatedInstall ins v edit =
     (if \<not> insHaveCoverage ins \<or> insFirstApplied ins \<noteq> replicatedApplied v + 1 \<or> insLastApplied ins < insFirstApplied ins
      then Inl ErrReplicatedFrontierGap
      else let edit = edit\<lparr>edReplicatedAppliedThrough := Some (insLastApplied ins)\<rparr> in
        if mode v = ModeReplicatedMVCC
        then (if insMaxMVCC ins = 0 then Inl (EditError ErrSequenceRegression)
              else Inr (edit\<lparr>edMaxAppliedMVCC := Some (if haveMaxAppliedMVCC v then max (insMaxMVCC ins) (maxAppliedMVCC v)
                                                      else insMaxMVCC ins)\<rparr>))
        else Inr edit)"

definition standaloneInstall :: "Version \<Rightarrow> VersionEdit \<Rightarrow> StoreError + VersionEdit" where
  "standaloneInstall v edit =
     (case applyEdit v edit of
        Inl e \<Rightarrow> Inl (EditError e)
      | Inr preliminary \<Rightarrow>
          (let (f, found) = maximumContiguousFrontier preliminary in
           Inr (if found \<and> (\<not> haveFrontier v \<or> f > frontier v) then edit\<lparr>edReplayFrontier := Some f\<rparr> else edit)))"

definition InstallTable :: "Context \<Rightarrow> TableInstallation \<Rightarrow> ManifestStore \<Rightarrow> (ManifestStore, StoreError, unit) outcome" where
  "InstallTable ctx ins s =
     (case checkContext ctx of
        Inl e \<Rightarrow> (s, Inl e)
      | Inr _ \<Rightarrow>
     (case newTableMetadata 0 (insGeneration ins) (insSmallestSequence ins) (insLargestSequence ins) (insMetadata ins) of
        Inl e \<Rightarrow> (s, Inl (EditError e))
      | Inr table \<Rightarrow>
          if insPath ins \<noteq> sstFileName (fileNumber table) then (s, Inl (StoreJoin ErrMetadataMismatch ErrInvalidOptions))
          else
     (case validatePhysicalTable (msDirectory s) (sstFileName (fileNumber table)) table of
        Inl e \<Rightarrow> (s, Inl e)
      | Inr _ \<Rightarrow>
          let v = msCurrent s;
              highest = (if haveLastSequence v \<and> lastSequence v > insLargestSequence ins then lastSequence v
                         else insLargestSequence ins);
              edit = emptyEdit\<lparr>edAddedFiles := [table], edLastSequence := Some highest\<rparr>
          in case (if mode v = ModeReplicated \<or> mode v = ModeReplicatedMVCC then replicatedInstall ins v edit
                   else standaloneInstall v edit) of
               Inl e \<Rightarrow> (s, Inl e)
             | Inr edit \<Rightarrow> installLocked edit s)))"

definition compactionEdit :: "TableMetadata list \<Rightarrow> TableMetadata list \<Rightarrow> VersionEdit" where
  "compactionEdit inputs outputs =
     emptyEdit\<lparr>edAddedFiles := outputs, edDeletedFiles := map (\<lambda>t. DeletedFile (tabLevel t) (fileNumber t)) inputs\<rparr>"

definition InstallCompaction :: "Context \<Rightarrow> TableMetadata list \<Rightarrow> TableMetadata list \<Rightarrow> ManifestStore \<Rightarrow>
    (ManifestStore, StoreError, unit) outcome" where
  "InstallCompaction ctx inputs outputs s =
     (if ctx = NilContext \<or> inputs = [] \<or> outputs = [] then (s, Inl ErrInvalidOptions)
      else case checkContext ctx of
        Inl e \<Rightarrow> (s, Inl e)
      | Inr _ \<Rightarrow>
     (case validateAdded (msDirectory s) outputs of
        Inl e \<Rightarrow> (s, Inl e)
      | Inr _ \<Rightarrow>
          if \<not> list_all (containsTable (msCurrent s)) inputs then (s, Inl ErrStaleVersion)
          else
     (case cloneTables outputs of
        Inl e \<Rightarrow> (s, Inl (EditError e))
      | Inr outputs \<Rightarrow>
     (case applyEdit (msCurrent s) (compactionEdit inputs outputs) of
        Inl e \<Rightarrow> (s, Inl (StoreJoin ErrStaleVersion (EditError e)))
      | Inr _ \<Rightarrow>
          let before = msCurrent s in
          andThen (installLocked (compactionEdit inputs outputs) s) (\<lambda>s _.
            let after = msCurrent s in
            if frontier after \<noteq> frontier before \<or> haveFrontier after \<noteq> haveFrontier before
            then (s, Inl (StorePanic ''STORAGE-81''))
            else if replicatedApplied after \<noteq> replicatedApplied before \<or>
                    haveReplicatedApplied after \<noteq> haveReplicatedApplied before
            then (s, Inl (StorePanic ''REPLICA-9''))
            else (s\<lparr>msObsolete := msObsolete s @ map fileNumber inputs\<rparr>, Inr ()))))))"

definition rewriteStats :: "bytes \<Rightarrow> Stats \<Rightarrow> Stats" where
  "rewriteStats encoded st =
     st\<lparr>stRewrites := stRewrites st + 1, stBytes := word_of_nat (length encoded), stEdits := 1, stFsyncs := stFsyncs st + 1\<rparr>"

text \<open>The part of \<open>Rewrite\<close> that runs once the snapshot is in the new file.\<close>

definition switchManifest :: "u64 \<Rightarrow> bytes \<Rightarrow> Writer \<Rightarrow> ManifestStore \<Rightarrow> (ManifestStore, StoreError, unit) outcome" where
  "switchManifest number encoded w s =
     (case publishCurrent number (msDirectory s) of
        (d, ambiguous, Some e) \<Rightarrow>
          let cause = (if ambiguous then StoreJoin ErrCurrentAmbiguous e else e);
              (d, err) = closeWriter number w d cause;
              s = s\<lparr>msDirectory := d\<rparr>
          in (if ambiguous then s\<lparr>msPoisoned := Some cause\<rparr> else s, Inl err)
      | (d, _, None) \<Rightarrow>
          let (old, closed) = walClose (msWriter s);
              d = (leaveManifest (manifestNumber s) old d)
          in (s\<lparr>msDirectory := d, msWriter := w, manifestNumber := number, nextManifest := number + 1,
                msStats := rewriteStats encoded (msStats s)\<rparr>,
              case closed of Inl e \<Rightarrow> Inl (StoreWal e) | Inr _ \<Rightarrow> Inr ()))"

definition abandonRewrite :: "u64 \<Rightarrow> Writer \<Rightarrow> StoreError \<Rightarrow> ManifestStore \<Rightarrow> (ManifestStore, StoreError, unit) outcome" where
  "abandonRewrite number w cause s =
     (let (d, e) = closeWriter number w (msDirectory s) cause in (s\<lparr>msDirectory := d\<rparr>, Inl e))"

definition Rewrite :: "ManifestStore \<Rightarrow> (ManifestStore, StoreError, unit) outcome" where
  "Rewrite s =
     (if msClosed s then (s, Inl ErrStoreClosed)
      else case msPoisoned s of
        Some e \<Rightarrow> (s, Inl (StoreJoin ErrWriterPoisoned e))
      | None \<Rightarrow>
          if nextManifest s = 0 \<or> nextManifest s > maxManifestNumber then (s, Inl ErrManifestNumberExhausted)
          else
      (case snapshotEdit (msCurrent s) of
        Inl e \<Rightarrow> (s, Inl (EditError e))
      | Inr edit \<Rightarrow>
      (case EncodeVersionEdit edit of
        Inl e \<Rightarrow> (s, Inl (EditError e))
      | Inr encoded \<Rightarrow>
          let number = nextManifest s in
      (case openManifestWriter (msDirectory s) number of
        (d, Inl e) \<Rightarrow> (s\<lparr>msDirectory := d\<rparr>, Inl e)
      | (d, Inr w) \<Rightarrow>
          let s = s\<lparr>msDirectory := d\<rparr> in
      (case walAppend w encoded of
        (w, Inl e) \<Rightarrow> abandonRewrite number w (StoreWal e) s
      | (w, Inr _) \<Rightarrow>
      (case recoverManifest (contents (walFile w)) of
        Inl e \<Rightarrow> abandonRewrite number w e s
      | Inr (recovered, _) \<Rightarrow>
      (case validateEquivalent (msCurrent s) recovered of
        Inl e \<Rightarrow> abandonRewrite number w (EditError e) s
      | Inr _ \<Rightarrow> switchManifest number encoded w s)))))))"

definition closeStore :: "ManifestStore \<Rightarrow> (ManifestStore, StoreError, unit) outcome" where
  "closeStore s =
     (if msClosed s then (s, case msCloseErr s of Some e \<Rightarrow> Inl e | None \<Rightarrow> Inr ())
      else let (w, r) = walClose (msWriter s) in
        case r of
          Inl e \<Rightarrow> (s\<lparr>msClosed := True, msWriter := w, msCloseErr := Some (StoreWal e)\<rparr>, Inl (StoreWal e))
        | Inr _ \<Rightarrow> (s\<lparr>msClosed := True, msWriter := w\<rparr>, Inr ()))"

section \<open>Creation and opening\<close>

definition createManifest :: "StoreOptions \<Rightarrow> u64 \<Rightarrow> Writer \<Rightarrow> StoreDirectory \<Rightarrow>
    (StoreDirectory, StoreError, ManifestStore) outcome" where
  "createManifest o' number w d =
     (let edit = initialEdit (optMode o') in
      case applyEdit initialVersion edit of
        Inl e \<Rightarrow> (let (d, e) = closeWriter number w d (EditError e) in (d, Inl e))
      | Inr version \<Rightarrow>
      (case EncodeVersionEdit edit of
        Inl e \<Rightarrow> (let (d, e) = closeWriter number w d (EditError e) in (d, Inl e))
      | Inr encoded \<Rightarrow>
      (case walAppend w encoded of
        (w, Inl e) \<Rightarrow> (let (d, e) = closeWriter number w d (StoreWal e) in (d, Inl e))
      | (w, Inr _) \<Rightarrow>
      (case publishCurrent number d of
        (d, ambiguous, Some e) \<Rightarrow>
          (let (d, e) = closeWriter number w d (if ambiguous then StoreJoin ErrCurrentAmbiguous e else e) in (d, Inl e))
      | (d, _, None) \<Rightarrow>
          (d, Inr ((newStore o' d w number version)
                \<lparr>msStats := \<lparr>stEdits = 1, stBytes = word_of_nat (length encoded), stFsyncs = 1, stRewrites = 0\<rparr>\<rparr>))))))"

definition Create :: "StoreOptions \<Rightarrow> StoreDirectory \<Rightarrow> (StoreDirectory, StoreError, ManifestStore) outcome" where
  "Create o' d =
     (case validateOptions o' of
        Inl e \<Rightarrow> (d, Inl e)
      | Inr _ \<Rightarrow>
          if dirCurrent d \<noteq> None then (d, Inl ErrCurrentCorrupt)
          else
      (case nextManifestNumber d of
        Inl e \<Rightarrow> (d, Inl e)
      | Inr number \<Rightarrow>
          andThen (openManifestWriter d number) (\<lambda>d w. createManifest (configureOptions o') number w d)))"

definition maximumVersionSequence :: "Version \<Rightarrow> u64 \<times> bool" where
  "maximumVersionSequence v =
     foldl (\<lambda>(m, found) t. if \<not> found \<or> largestSequence t > m then (largestSequence t, True) else (m, found))
       (0, False) (liveTables v)"

definition recoveredNextFile :: "u64 \<Rightarrow> Version \<Rightarrow> u64 option" where
  "recoveredNextFile observed v =
     (if observed \<ge> nextFileNumber v
      then Some (if observed \<ge> MaxFileNumber then maxNextFileNumber else observed + 1) else None)"

text \<open>The highest sequence that tables, logs or the manifest know of.\<close>

definition sequenceAuthority :: "StoreOptions \<Rightarrow> StoreDirectory \<Rightarrow> Version \<Rightarrow> StoreError + (u64 \<times> bool)" where
  "sequenceAuthority o' d v =
     (let (m, have) = maximumVersionSequence v in
      bindR (if optMode o' = ModeStandalone then maximumWALSequence d else Inr (0, False)) (\<lambda>(wm, haveWal).
        let (m, have) = (if haveWal \<and> (\<not> have \<or> wm > m) then (wm, True) else (m, have)) in
        Inr (if haveLastSequence v \<and> (\<not> have \<or> lastSequence v > m) then (lastSequence v, True) else (m, have))))"

definition recoveryEdit :: "u64 \<Rightarrow> u64 \<times> bool \<Rightarrow> Version \<Rightarrow> VersionEdit" where
  "recoveryEdit observed authority v =
     emptyEdit\<lparr>edNextFileNumber := recoveredNextFile observed v,
       edLastSequence := (if snd authority \<and> (\<not> haveLastSequence v \<or> fst authority > lastSequence v)
                          then Some (fst authority) else None)\<rparr>"

definition openRecovered :: "StoreOptions \<Rightarrow> u64 \<Rightarrow> Version \<Rightarrow> Writer \<Rightarrow> StoreDirectory \<Rightarrow>
    (StoreDirectory, StoreError, ManifestStore) outcome" where
  "openRecovered o' number v w d =
     (let giveUp = (\<lambda>w d e. let (d, e) = closeWriter number w d e in (d, Inl e)) in
      case nextManifestNumber d of
        Inl e \<Rightarrow> giveUp w d e
      | Inr nextNumber \<Rightarrow>
      (case discoverAndValidate d v of
        Inl e \<Rightarrow> giveUp w d e
      | Inr (report, observed) \<Rightarrow>
      (case sequenceAuthority o' d v of
        Inl e \<Rightarrow> giveUp w d e
      | Inr authority \<Rightarrow>
          let s = (newStore o' d w number v)\<lparr>nextManifest := nextNumber, msDiscovery := report\<rparr>;
              edit = recoveryEdit observed authority v
          in case (if edNextFileNumber edit \<noteq> None \<or> edLastSequence edit \<noteq> None then installLocked edit s
                   else (s, Inr ())) of
               (s, Inl e) \<Rightarrow> giveUp (msWriter s) d e
             | (s, Inr _) \<Rightarrow>
                 (let (n, exhausted) = nextSequence (fst authority) (snd authority) in
                  (d, Inr (s\<lparr>msNextSequence := n, msSeqExhausted := exhausted\<rparr>))))))"

definition OpenStore :: "StoreOptions \<Rightarrow> StoreDirectory \<Rightarrow> (StoreDirectory, StoreError, ManifestStore) outcome" where
  "OpenStore o0 d =
     (case validateOptions o0 of
        Inl e \<Rightarrow> (d, Inl e)
      | Inr _ \<Rightarrow>
          let o' = configureOptions o0 in
      (case readCurrent d of
        Inl e \<Rightarrow> (d, Inl e)
      | Inr number \<Rightarrow>
      (case dirManifests d number of
        None \<Rightarrow> (d, Inl ErrMissingManifest)
      | Some f \<Rightarrow>
      (case recoverManifest (contents f) of
        Inl e \<Rightarrow> (d, Inl e)
      | Inr (v, result) \<Rightarrow>
      (case (if resTailTruncated result then repairTail (contents f) result else Inr (contents f)) of
        Inl e \<Rightarrow> (d, Inl (StoreWal e))
      | Inr data \<Rightarrow>
          let f = (if resTailTruncated result then f\<lparr>contents := data, fileSynced := length data\<rparr> else f);
              d = d\<lparr>dirManifests := (dirManifests d)(number := Some f)\<rparr>
          in if mode v \<noteq> optMode o' then (d, Inl (EditError ErrModeMismatch))
             else
      (case openWriter f False SyncBatch of
        Inl e \<Rightarrow> (d, Inl (StoreWal e))
      | Inr w \<Rightarrow> openRecovered o' number v w d))))))"

end
