(* ===== verification/Store_Properties.thy ===== *)
theory Store_Properties
  imports Manifest_Store
begin

text \<open>
  What the owner of the manifest promises: after a crash between two calls, which keeps what was
  synced and an arbitrary part of what was not, the manifest that \<open>CURRENT\<close> names replays to the
  version in memory, or, when the last append failed, perhaps to the version that it would have
  led to. What one crash has left counts as being on disk for the next one, so that a crash of
  the machine that follows a crash of the process, before anything else is synced, is not
  covered; nor is a crash in the middle of a call.
\<close>

section \<open>Replaying the records of a manifest\<close>

definition replays :: "bytes list \<Rightarrow> Version \<Rightarrow> bool" where
  "replays ps v \<longleftrightarrow> (\<exists>r n. foldR replayEdit (initialVersion, 0) ps = Inr (r, n) \<and> n \<noteq> 0 \<and> sameVersion r v)"

lemma foldR_append: "foldR f s (xs @ ys) = bindR (foldR f s xs) (\<lambda>s. foldR f s ys)"
proof (induction xs arbitrary: s)
  case (Cons x xs)
  then show ?case by (cases "f s x") simp_all
qed simp

lemma canonicalEdit_mset:
  "\<exists>ds ts. canonicalEdit e = e\<lparr>edDeletedFiles := ds, edAddedFiles := ts\<rparr> \<and>
    mset ds = mset (edDeletedFiles e) \<and> mset ts = mset (edAddedFiles e)"
  unfolding canonicalEdit_def
  by (intro exI [of _ "sortFunc compareDeleted (edDeletedFiles e)"]
      exI [of _ "sortFunc compareTableIdentity (edAddedFiles e)"]) simp

lemma sameVersion_fields:
  assumes "sameVersion r v"
  shows "comparator r = comparator v" "mode r = mode v" "nextFileNumber r = nextFileNumber v" "levels r = levels v"
proof -
  obtain g where "r = v\<lparr>generation := g\<rparr>" using assms by (auto simp: sameVersion_def)
  then show "comparator r = comparator v" "mode r = mode v" "nextFileNumber r = nextFileNumber v" "levels r = levels v"
    by simp_all
qed

lemma replays_append:
  assumes "replays ps v" and "versionOk v" and "applyEdit v e = Inr w" and "EncodeVersionEdit e = Inr bs"
  shows "replays (ps @ [bs]) w"
proof -
  obtain r n where r: "foldR replayEdit (initialVersion, 0) ps = Inr (r, n)" "sameVersion r v"
    using assms(1) by (auto simp: replays_def)
  obtain ds ts where c: "canonicalEdit e = e\<lparr>edDeletedFiles := ds, edAddedFiles := ts\<rparr>"
      "mset ds = mset (edDeletedFiles e)" "mset ts = mset (edAddedFiles e)"
    using canonicalEdit_mset by blast
  obtain r' where "applyEdit r (canonicalEdit e) = Inr r'" "sameVersion r' w"
    using applyEdit_replay [OF assms(3) r(2) assms(2) c(2,3)] c(1) by auto
  then show ?thesis
    using r(1) edit_roundtrip [OF assms(4)] by (simp add: replays_def foldR_append replayEdit_def)
qed

lemma recoverManifest_log:
  assumes "tornLog ps data" and "replays ps v" and "comparator v = ComparatorName"
  shows "\<exists>r. recoverManifest data = Inr (r, scanResult ps data) \<and> sameVersion r v"
proof -
  obtain r n where r: "foldR replayEdit (initialVersion, 0) ps = Inr (r, n)" "n \<noteq> 0" "sameVersion r v"
    using assms(2) by (auto simp: replays_def)
  then have "comparator r = ComparatorName" using assms(3) sameVersion_fields(1) [of r v] by simp
  then show ?thesis
    using recover_log [OF assms(1) r(1), of "\<lambda>s rec. replayEdit s (recPayload rec)"] r
    by (simp add: recoverManifest_def)
qed

section \<open>Names\<close>

definition validNumber :: "u64 \<Rightarrow> bool" where
  "validNumber n \<longleftrightarrow> n \<noteq> 0 \<and> n \<le> maxManifestNumber"

lemma parse_manifestFileName:
  assumes "validNumber n"
  shows "parseManifestName (manifestFileName n) = Inr n"
proof -
  have "unat n \<le> unat maxManifestNumber" using assms by (simp add: validNumber_def word_le_nat_alt)
  then have small: "unat n < 10 ^ 6" by (simp add: maxManifestNumber_def)
  then show ?thesis
    using assms length_padDecimal [OF small] padDecimal_digits [of 6 "unat n"]
    by (simp add: parseManifestName_def manifestFileName_def parseUint_padDecimal validNumber_def Let_def not_less)
qed

lemma manifestFileName_inj: "validNumber a \<Longrightarrow> validNumber b \<Longrightarrow> manifestFileName a = manifestFileName b \<Longrightarrow> a = b"
  by (metis parse_manifestFileName sum.inject(2))

lemma readCurrent_name:
  assumes "dirCurrent d = Some (manifestFileName n @ [10])" and "validNumber n"
  shows "readCurrent d = Inr n"
proof -
  have "\<not> isDigit 10" by (simp add: isDigit_def)
  then have "c \<noteq> 10" if "isDigit c" for c using that by blast
  then have "10 \<notin> set (padDecimal 6 (unat n))" using padDecimal_digits [of 6 "unat n"] by (auto simp: list_all_iff)
  moreover have "10 \<notin> set manifestPrefix" by (simp add: manifestPrefix_def ascii_def)
  ultimately have "10 \<notin> set (manifestFileName n)" by (simp add: manifestFileName_def)
  then have "count_list (manifestFileName n @ [10]) 10 = 1" by (simp add: count_list_0_iff)
  moreover have "2 \<le> length (manifestFileName n @ [10])"
    by (simp add: manifestFileName_def manifestPrefix_def ascii_def)
  ultimately show ?thesis
    using assms parse_manifestFileName [OF assms(2)]
    by (simp add: readCurrent_def not_less Suc_le_eq)
qed

section \<open>Publishing a manifest\<close>

lemma takeOp_frame: "takeOp d = (d', b) \<Longrightarrow> \<exists>ops. d' = d\<lparr>dirOps := ops\<rparr>"
  by (cases "dirOps d") (auto simp: takeOp_def intro: exI [of _ "dirOps d"])

definition samePlace :: "StoreDirectory \<Rightarrow> StoreDirectory \<Rightarrow> bool" where
  "samePlace d d' \<longleftrightarrow> dirManifests d' = dirManifests d \<and> dirCurrent d' = dirCurrent d \<and>
     dirCurrentSynced d' = dirCurrentSynced d \<and> dirLinked d' = dirLinked d"

lemma samePlace_refl [simp]: "samePlace d d"
  by (simp add: samePlace_def)

lemma samePlace_trans: "samePlace a b \<Longrightarrow> samePlace b c \<Longrightarrow> samePlace a c"
  by (simp add: samePlace_def)

lemma takeOp_place: "takeOp d = (d', b) \<Longrightarrow> samePlace d d'"
  using takeOp_frame [of d d' b] by (auto simp: samePlace_def)

lemma removeCurrentTemp_place: "removeCurrentTemp e d = (d', amb, r) \<Longrightarrow> samePlace d d' \<and> \<not> amb \<and> r \<noteq> None"
  by (cases "takeOp d") (auto simp: removeCurrentTemp_def samePlace_def split: if_splits dest!: takeOp_frame)

lemma abandonTemp_place: "abandonTemp what d = (d', amb, r) \<Longrightarrow> samePlace d d' \<and> \<not> amb \<and> r \<noteq> None"
  by (auto simp: abandonTemp_def Let_def split: prod.splits
      dest!: removeCurrentTemp_place takeOp_place intro: samePlace_trans)

lemma syncCurrentDirectory_place:
  assumes "syncCurrentDirectory d = (d', amb, r)"
  shows "dirManifests d' = dirManifests d \<and> dirCurrent d' = dirCurrent d \<and> dirCurrentSynced d' = dirCurrentSynced d \<and>
    amb = (r \<noteq> None) \<and> (dirLinked d' = dirCurrent d \<or> amb \<and> dirLinked d' = dirLinked d)"
proof -
  obtain d1 b1 where 1: "takeOp d = (d1, b1)" by force
  obtain d2 b2 where 2: "takeOp d1 = (d2, b2)" by force
  obtain d3 b3 where 3: "takeOp d2 = (d3, b3)" by force
  obtain d4 b4 where 4: "takeOp (d2\<lparr>dirLinked := dirCurrent d2\<rparr>) = (d4, b4)" by force
  note place = takeOp_place [OF 1] takeOp_place [OF 2] takeOp_place [OF 3] takeOp_place [OF 4]
  have "syncCurrentDirectory d =
      (if b1 then (d1, True, Some (StoreIO ''open directory''))
       else if b2 then (d3, True, Some (joined (StoreIO ''sync directory'') b3 (StoreIO ''close'')))
       else if b4 then (d4, True, Some (StoreIO ''close directory'')) else (d4, False, None))"
    by (simp add: syncCurrentDirectory_def 1 2 3 4 Let_def)
  then show ?thesis using assms place by (auto simp: samePlace_def split: if_splits)
qed

lemma publishCurrent_place:
  assumes "publishCurrent n d = (d', amb, r)"
  shows "samePlace d d' \<and> \<not> amb \<and> r \<noteq> None \<or>
    dirManifests d' = dirManifests d \<and> dirCurrent d' = Some (manifestFileName n @ [10]) \<and> dirCurrentSynced d' \<and>
      amb = (r \<noteq> None) \<and> (dirLinked d' = dirCurrent d' \<or> amb \<and> dirLinked d' = dirLinked d)"
proof (cases "parseManifestName (manifestFileName n)")
  case (Inl e)
  then show ?thesis using assms by (auto simp: publishCurrent_def)
next
  case (Inr m)
  obtain d1 b1 where 1: "takeOp d = (d1, b1)" by force
  obtain d2 b2 where 2: "takeOp (d1\<lparr>dirTemp := True, dirTempSynced := False\<rparr>) = (d2, b2)" by force
  obtain d3 b3 where 3: "takeOp d2 = (d3, b3)" by force
  obtain d4 b4 where 4: "takeOp (d3\<lparr>dirTempSynced := True\<rparr>) = (d4, b4)" by force
  obtain d5 b5 where 5: "takeOp d4 = (d5, b5)" by force
  have p1: "samePlace d d1" by (rule takeOp_place [OF 1])
  have "samePlace d1 (d1\<lparr>dirTemp := True, dirTempSynced := False\<rparr>)" by (simp add: samePlace_def)
  then have p2: "samePlace d d2" using p1 takeOp_place [OF 2] samePlace_trans by blast
  have p3: "samePlace d d3" by (rule samePlace_trans [OF p2 takeOp_place [OF 3]])
  have "samePlace d3 (d3\<lparr>dirTempSynced := True\<rparr>)" by (simp add: samePlace_def)
  then have p4: "samePlace d d4" using p3 takeOp_place [OF 4] samePlace_trans by blast
  have p5: "samePlace d d5" by (rule samePlace_trans [OF p4 takeOp_place [OF 5]])
  have synced: "dirTempSynced d5" using takeOp_frame [OF 4] takeOp_frame [OF 5] by auto
  have eq: "publishCurrent n d =
      (if dirTemp d then (d, False, Some ErrCurrentTempExists)
       else if b1 then (d1, False, Some (StoreIO ''create''))
       else if b2 then abandonTemp ''write'' d2
       else if b3 then abandonTemp ''sync'' d3
       else if b4 then removeCurrentTemp (StoreIO ''close'') d4
       else if b5 then removeCurrentTemp (StoreIO ''rename'') d5
       else syncCurrentDirectory (d5\<lparr>dirTemp := False, dirCurrent := Some (manifestFileName n @ [10]), dirCurrentSynced := dirTempSynced d5\<rparr>))"
    by (simp add: publishCurrent_def Inr 1 2 3 4 5 Let_def)
  consider "dirTemp d \<or> b1" | "\<not> dirTemp d" "\<not> b1" "b2 \<or> b3" | "\<not> dirTemp d" "\<not> b1" "\<not> b2" "\<not> b3" "b4 \<or> b5"
    | "\<not> dirTemp d" "\<not> b1" "\<not> b2" "\<not> b3" "\<not> b4" "\<not> b5" by blast
  then show ?thesis
  proof cases
    case 1
    then show ?thesis using assms eq p1 by (auto split: if_splits)
  next
    case 2
    then show ?thesis
      using assms eq p2 p3 abandonTemp_place [of _ _ d' amb r] by (auto split: if_splits intro: samePlace_trans)
  next
    case 3
    then show ?thesis
      using assms eq p4 p5 removeCurrentTemp_place [of _ _ d' amb r] by (auto split: if_splits intro: samePlace_trans)
  next
    case 4
    then have "syncCurrentDirectory (d5\<lparr>dirTemp := False, dirCurrent := Some (manifestFileName n @ [10]), dirCurrentSynced := dirTempSynced d5\<rparr>) =
        (d', amb, r)" using assms eq by simp
    from syncCurrentDirectory_place [OF this] show ?thesis using p5 synced by (auto simp: samePlace_def)
  qed
qed

section \<open>The invariant of the store\<close>

definition versionGood :: "Version \<Rightarrow> bool" where
  "versionGood v \<longleftrightarrow>
     versionReached v \<and> generation v \<noteq> 0 \<and> modeExplicit v = (mode v \<noteq> ModeStandalone)"

lemma versionGood_comparator:
  assumes "versionGood v"
  shows "comparator v = ComparatorName" and "versionOk v"
proof -
  show ok: "versionOk v" using assms versionOk_reached by (simp add: versionGood_def)
  have "v \<noteq> initialVersion" using assms by (auto simp: versionGood_def initialVersion_def)
  then show "comparator v = ComparatorName" using ok by (auto simp: versionOk_def scalarsOk_def)
qed

lemma versionGood_edit:
  assumes "versionGood v" and "applyEdit v e = Inr w"
  shows "versionGood w" and "versionLe v w"
proof -
  show le: "versionLe v w" using applyEdit_le [OF assms(2)] versionGood_comparator [OF assms(1)] by simp
  have "0 < generation w" using le unfolding versionLe_def by (metis word_gt_0 word_not_simps(1))
  then show "versionGood w"
    using assms le unfolding versionGood_def versionLe_def by (auto intro: versionReached.edit)
qed

definition currentOf :: "u64 \<Rightarrow> bytes option" where
  "currentOf n = Some (manifestFileName n @ [10])"

definition named :: "StoreDirectory \<Rightarrow> u64 \<Rightarrow> bool" where
  "named d n \<longleftrightarrow> dirCurrent d = currentOf n \<and> validNumber n"

text \<open>A file whose records, torn tail aside, replay to a version.\<close>

definition yields :: "WalFile \<Rightarrow> Version \<Rightarrow> bool" where
  "yields f v \<longleftrightarrow> (\<exists>ps. tornLog ps (contents f) \<and> replays ps v)"

text \<open>
  What a crash may do to a directory. Of every manifest it leaves the synced bytes and as many
  of the others as \<open>crKeep\<close> says; a manifest whose directory entry was never synced is gone when
  \<open>crLost\<close> says so; with \<open>crRevert\<close> a rename of \<open>CURRENT\<close> that no sync of the directory covered is
  undone, and a \<open>CURRENT\<close> that was renamed unsynced holds \<open>crCurrent\<close>. What has survived is on
  disk. A crash of the process alone is the case in which everything written is kept.
\<close>

record Crash =
  crKeep :: "u64 \<Rightarrow> nat"
  crLost :: "u64 \<Rightarrow> bool"
  crRevert :: bool
  crCurrent :: "bytes option"

definition crashedCurrent :: "Crash \<Rightarrow> StoreDirectory \<Rightarrow> bytes option" where
  "crashedCurrent c d =
     (if crRevert c then dirLinked d else if dirCurrentSynced d then dirCurrent d else crCurrent c)"

definition crashedManifest :: "Crash \<Rightarrow> u64 \<Rightarrow> WalFile \<Rightarrow> WalFile option" where
  "crashedManifest c n f = (if crLost c n \<and> \<not> fileLinked f then None else Some (survivor (crKeep c n) f))"

definition crashDirectory :: "Crash \<Rightarrow> StoreDirectory \<Rightarrow> StoreDirectory" where
  "crashDirectory c d =
     d\<lparr>dirManifests := (\<lambda>n. case dirManifests d n of None \<Rightarrow> None | Some f \<Rightarrow> crashedManifest c n f),
       dirCurrent := crashedCurrent c d, dirCurrentSynced := True, dirLinked := crashedCurrent c d\<rparr>"

text \<open>The directory with the bytes of the store's writer, and what a crash leaves of it.\<close>

definition leftBy :: "ManifestStore \<Rightarrow> StoreDirectory" where
  "leftBy s = leaveManifest (manifestNumber s) (msWriter s) (msDirectory s)"

definition crashed :: "Crash \<Rightarrow> ManifestStore \<Rightarrow> StoreDirectory" where
  "crashed c s = crashDirectory c (leftBy s)"

text \<open>A file that no crash loses and that replays, after every crash, to a version with a property.\<close>

definition lasting :: "WalFile \<Rightarrow> (Version \<Rightarrow> bool) \<Rightarrow> bool" where
  "lasting f P \<longleftrightarrow> fileLinked f \<and> (\<forall>k. \<exists>v. yields (survivor k f) v \<and> P v)"

text \<open>A directory of which every crash leaves such a file under the name that \<open>CURRENT\<close> has.\<close>

definition pointsTo :: "StoreDirectory \<Rightarrow> bytes option \<Rightarrow> (Version \<Rightarrow> bool) \<Rightarrow> bool" where
  "pointsTo d x P \<longleftrightarrow> (\<exists>n f. x = currentOf n \<and> validNumber n \<and> dirManifests d n = Some f \<and> lasting f P)"

definition dirHolds :: "StoreDirectory \<Rightarrow> (Version \<Rightarrow> bool) \<Rightarrow> bool" where
  "dirHolds d P \<longleftrightarrow> dirCurrentSynced d \<and> pointsTo d (dirCurrent d) P \<and> pointsTo d (dirLinked d) P"

definition writerHolds :: "Writer \<Rightarrow> Version \<Rightarrow> bool" where
  "writerHolds w v \<longleftrightarrow> walDurability w = SyncBatch \<and> fileLinked (walFile w) \<and> (\<exists>ps. walHolds w ps \<and> replays ps v)"

text \<open>What a crash may bring a store back to.\<close>

definition expected :: "ManifestStore \<Rightarrow> Version \<Rightarrow> bool" where
  "expected s v \<longleftrightarrow> v = msCurrent s \<or> msPoisoned s \<noteq> None \<and> (\<exists>e. applyEdit (msCurrent s) e = Inr v)"

definition storeInv :: "ManifestStore \<Rightarrow> bool" where
  "storeInv s \<longleftrightarrow>
     versionGood (msCurrent s) \<and> validNumber (manifestNumber s) \<and>
     dirManifests (msDirectory s) (manifestNumber s) \<noteq> None \<and>
     (msPoisoned s = None \<longrightarrow> writerHolds (msWriter s) (msCurrent s) \<and> named (msDirectory s) (manifestNumber s) \<and>
       dirLinked (msDirectory s) = dirCurrent (msDirectory s)) \<and>
     dirHolds (leftBy s) (expected s)"

lemma lasting_mono: "lasting f P \<Longrightarrow> (\<And>v. P v \<Longrightarrow> Q v) \<Longrightarrow> lasting f Q"
  unfolding lasting_def by blast

lemma dirHolds_mono: "dirHolds d P \<Longrightarrow> (\<And>v. P v \<Longrightarrow> Q v) \<Longrightarrow> dirHolds d Q"
  unfolding dirHolds_def pointsTo_def using lasting_mono by blast

text \<open>A directory after a crash: all that it shows is on disk.\<close>

definition settled :: "StoreDirectory \<Rightarrow> u64 \<Rightarrow> WalFile \<Rightarrow> bool" where
  "settled d n f \<longleftrightarrow> named d n \<and> dirCurrentSynced d \<and> dirLinked d = dirCurrent d \<and> dirManifests d n = Some f \<and>
     fileLinked f \<and> fileSynced f = length (contents f)"

lemma dirHolds_crash:
  assumes "dirHolds d P"
  shows "\<exists>n f v. settled (crashDirectory c d) n f \<and> yields f v \<and> P v"
proof -
  have "pointsTo d (crashedCurrent c d) P" using assms by (simp add: dirHolds_def crashedCurrent_def)
  then obtain n f where n: "crashedCurrent c d = currentOf n" "validNumber n" "dirManifests d n = Some f" "lasting f P"
    unfolding pointsTo_def by blast
  then obtain v where v: "yields (survivor (crKeep c n) f) v" "P v" unfolding lasting_def by blast
  have "settled (crashDirectory c d) n (survivor (crKeep c n) f)"
    using n by (simp add: settled_def crashDirectory_def named_def lasting_def crashedManifest_def survivor_def onDisk_def)
  then show ?thesis using v by blast
qed

lemma walCrash_batch: "walDurability w = SyncBatch \<Longrightarrow> walFile (walCrash k w) = survivor k (walFile w)"
  by (simp add: walCrash_def)

lemma writerHolds_lasting:
  assumes "writerHolds w v" and "P v"
  shows "lasting (walFile w) P"
proof -
  obtain ps where ps: "walDurability w = SyncBatch" "fileLinked (walFile w)" "walHolds w ps" "replays ps v"
    using assms(1) by (auto simp: writerHolds_def)
  have "yields (survivor k (walFile w)) v" for k
    using wal.holds_leaves [OF ps(3), of k] ps(4) walCrash_batch [OF ps(1), of k] by (auto simp: yields_def walLeaves_def)
  then show ?thesis using ps(2) assms(2) by (auto simp: lasting_def)
qed

lemma lasting_file:
  assumes "lasting f P" and "contents g = contents f" "fileSynced g = fileSynced f" "fileLinked g = fileLinked f"
  shows "lasting g P"
proof -
  have "contents (survivor k g) = contents (survivor k f)" for k
    using assms(2-4) by (simp add: survivor_contents durable_def)
  then have "yields (survivor k g) v = yields (survivor k f) v" for k v by (simp add: yields_def)
  then show ?thesis using assms(1,4) by (simp add: lasting_def)
qed

lemma leftBy_simps [simp]:
  "dirCurrent (leftBy s) = dirCurrent (msDirectory s)" "dirLinked (leftBy s) = dirLinked (msDirectory s)"
  "dirCurrentSynced (leftBy s) = dirCurrentSynced (msDirectory s)"
  "dirManifests (leftBy s) = (dirManifests (msDirectory s))(manifestNumber s \<mapsto> walFile (msWriter s))"
  by (simp_all add: leftBy_def leaveManifest_def)

lemma storeInv_running:
  assumes "versionGood (msCurrent s)" "validNumber (manifestNumber s)"
    "dirManifests (msDirectory s) (manifestNumber s) \<noteq> None"
    "writerHolds (msWriter s) (msCurrent s)" "named (msDirectory s) (manifestNumber s)"
    "dirLinked (msDirectory s) = dirCurrent (msDirectory s)" "dirCurrentSynced (msDirectory s)"
  shows "storeInv s"
proof -
  have "lasting (walFile (msWriter s)) (expected s)"
    by (rule writerHolds_lasting [OF assms(4)]) (simp add: expected_def)
  then have "pointsTo (leftBy s) (dirCurrent (msDirectory s)) (expected s)"
    using assms(5) unfolding pointsTo_def named_def by (intro exI [of _ "manifestNumber s"]) auto
  then show ?thesis using assms by (simp add: storeInv_def dirHolds_def)
qed

lemma append_holds:
  assumes "writerHolds w v" and "versionGood v" and "applyEdit v e = Inr c" and "EncodeVersionEdit e = Inr bs"
    and "walAppend w bs = (w', r)"
  shows "case r of
      Inr _ \<Rightarrow> writerHolds w' c
    | Inl _ \<Rightarrow> lasting (walFile w') (\<lambda>u. u = v \<or> u = c)"
proof -
  obtain ps where ps: "walHolds w ps" "replays ps v" "walDurability w = SyncBatch" "fileLinked (walFile w)"
    using assms(1) by (auto simp: writerHolds_def)
  have more: "replays (ps @ [bs]) c"
    using replays_append [OF ps(2) versionGood_comparator(2) [OF assms(2)] assms(3,4)] .
  show ?thesis
  proof (cases r)
    case (Inr u)
    then show ?thesis
      using wal.append_ok [OF ps(1)] walAppend_ok(6,7) [of w bs w' u] assms(5) more ps(3,4) by (auto simp: writerHolds_def)
  next
    case (Inl err)
    show ?thesis
    proof (cases "w' = w")
      case True
      then show ?thesis using Inl writerHolds_lasting [OF assms(1)] by simp
    next
      case False
      have w': "walDurability w' = SyncBatch" "fileLinked (walFile w')"
        using walAppend_error [of w bs w' err] assms(5) Inl False ps(3,4) by auto
      have "\<exists>u. yields (survivor k (walFile w')) u \<and> (u = v \<or> u = c)" for k
      proof -
        have "walLeaves (walCrash k w') ps \<or> walLeaves (walCrash k w') (ps @ [bs])"
          using wal.append_error [OF ps(1), of bs w' err k] assms(5) Inl False by blast
        then have "yields (survivor k (walFile w')) v \<or> yields (survivor k (walFile w')) c"
          using ps(2) more unfolding yields_def walLeaves_def walCrash_batch [OF w'(1)] by blast
        then show ?thesis by blast
      qed
      then show ?thesis using Inl w'(2) by (simp add: lasting_def)
    qed
  qed
qed

section \<open>Installing an edit\<close>

definition sameFrame :: "ManifestStore \<Rightarrow> ManifestStore \<Rightarrow> bool" where
  "sameFrame s s' \<longleftrightarrow> msDirectory s' = msDirectory s \<and> manifestNumber s' = manifestNumber s \<and>
     nextManifest s' = nextManifest s \<and> msClosed s' = msClosed s"

lemma installLocked_cases:
  assumes "installLocked e s = (s', r)"
  shows "s' = s \<and> (\<exists>err. r = Inl err) \<or>
    (\<exists>c bs w ok. msPoisoned s = None \<and> applyEdit (msCurrent s) e = Inr c \<and> EncodeVersionEdit e = Inr bs \<and>
      walAppend (msWriter s) bs = (w, ok) \<and> msWriter s' = w \<and> sameFrame s s' \<and>
      (if r = Inr () then \<not> isl ok \<and> msCurrent s' = c \<and> msPoisoned s' = None
       else msCurrent s' = msCurrent s \<and> msPoisoned s' \<noteq> None))"
proof (cases "msClosed s \<or> msPoisoned s \<noteq> None")
  case True
  then have "installLocked e s = (s, snd (installLocked e s)) \<and> (\<exists>err. snd (installLocked e s) = Inl err)"
    by (cases "msClosed s"; cases "msPoisoned s") (simp_all add: installLocked_def)
  then show ?thesis using assms by auto
next
  case running: False
  show ?thesis
  proof (cases "applyEdit (msCurrent s) e")
    case (Inl err)
    then show ?thesis using assms running by (auto simp: installLocked_def)
  next
    case c: (Inr c)
    show ?thesis
    proof (cases "EncodeVersionEdit e")
      case (Inl err)
      then show ?thesis using assms running c by (auto simp: installLocked_def)
    next
      case bs: (Inr bs)
      obtain w ok where w: "walAppend (msWriter s) bs = (w, ok)" by force
      have "msWriter s' = w \<and> sameFrame s s' \<and>
        (if r = Inr () then \<not> isl ok \<and> msCurrent s' = c \<and> msPoisoned s' = None
         else msCurrent s' = msCurrent s \<and> msPoisoned s' \<noteq> None)"
        using assms running c bs w
        by (cases ok; cases "msAfterDurable s"; cases "haveLastSequence c"; cases "edReplicatedAppliedThrough e"; cases "msHook s")
           (auto simp: installLocked_def sameFrame_def Let_def split: prod.splits)
      then show ?thesis
        using running c bs w by (intro disjI2 exI [of _ c] exI [of _ bs] exI [of _ w] exI [of _ ok]) simp
    qed
  qed
qed

text \<open>The watermarks of a version, in the order in which they may move.\<close>

definition watermarksLe :: "Version \<Rightarrow> Version \<Rightarrow> bool" where
  "watermarksLe v w \<longleftrightarrow>
     mode w = mode v \<and> nextFileNumber v \<le> nextFileNumber w \<and>
     (haveLastSequence v \<longrightarrow> haveLastSequence w \<and> lastSequence v \<le> lastSequence w) \<and>
     (haveFrontier v \<longrightarrow> haveFrontier w \<and> frontier v \<le> frontier w) \<and>
     (haveReplicatedApplied v \<longrightarrow> haveReplicatedApplied w \<and> replicatedApplied v \<le> replicatedApplied w) \<and>
     (haveMaxAppliedMVCC v \<longrightarrow> haveMaxAppliedMVCC w \<and> maxAppliedMVCC v \<le> maxAppliedMVCC w)"

lemma watermarksLe_refl [simp]: "watermarksLe v v"
  by (simp add: watermarksLe_def)

lemma watermarksLe_trans: "watermarksLe a b \<Longrightarrow> watermarksLe b c \<Longrightarrow> watermarksLe a c"
  unfolding watermarksLe_def by (intro conjI impI; elim conjE) (blast intro: order_trans | simp)+

lemma watermarksLe_edit: "versionGood v \<Longrightarrow> applyEdit v e = Inr w \<Longrightarrow> watermarksLe v w"
  using versionGood_edit(2) [of v e w] by (auto simp: versionGood_def versionLe_def watermarksLe_def)

lemma watermarksLe_same: "sameVersion r v \<Longrightarrow> watermarksLe v r"
proof -
  assume "sameVersion r v"
  then obtain g where "r = v\<lparr>generation := g\<rparr>" by (auto simp: sameVersion_def)
  then show ?thesis by (simp add: watermarksLe_def)
qed

lemma install_inv:
  assumes inv: "storeInv s" and install: "installLocked e s = (s', r)"
  shows "storeInv s'" and "watermarksLe (msCurrent s) (msCurrent s')"
proof -
  have good: "versionGood (msCurrent s)" using inv by (simp add: storeInv_def)
  have "storeInv s' \<and> watermarksLe (msCurrent s) (msCurrent s')"
    using installLocked_cases [OF install]
  proof (elim disjE exE conjE)
    fix c bs w ok
    assume run: "msPoisoned s = None" and c: "applyEdit (msCurrent s) e = Inr c" and bs: "EncodeVersionEdit e = Inr bs"
      and w: "walAppend (msWriter s) bs = (w, ok)" "msWriter s' = w" and frame: "sameFrame s s'"
      and res: "if r = Inr () then \<not> isl ok \<and> msCurrent s' = c \<and> msPoisoned s' = None
        else msCurrent s' = msCurrent s \<and> msPoisoned s' \<noteq> None"
    have holds: "writerHolds (msWriter s) (msCurrent s)" "named (msDirectory s) (manifestNumber s)"
      "validNumber (manifestNumber s)" "dirManifests (msDirectory s) (manifestNumber s) \<noteq> None"
      "dirLinked (msDirectory s) = dirCurrent (msDirectory s)" "dirCurrentSynced (msDirectory s)"
      using inv run by (auto simp: storeInv_def dirHolds_def)
    note append = append_holds [OF holds(1) good c bs w(1)]
    have place: "named (msDirectory s') (manifestNumber s')" "validNumber (manifestNumber s')"
      "dirManifests (msDirectory s') (manifestNumber s') \<noteq> None"
      "dirLinked (msDirectory s') = dirCurrent (msDirectory s')" "dirCurrentSynced (msDirectory s')"
      using holds frame by (simp_all add: sameFrame_def)
    show ?thesis
    proof (cases "r = Inr ()")
      case True
      then have "writerHolds w c" using res append by (auto split: sum.splits)
      then show ?thesis
        using True res w(2) place versionGood_edit [OF good c] watermarksLe_edit [OF good c]
        by (auto intro!: storeInv_running)
    next
      case False
      then have cur: "msCurrent s' = msCurrent s" "msPoisoned s' \<noteq> None" using res by auto
      have "lasting (walFile w) (expected s')"
      proof (cases ok)
        case (Inl err)
        then have "lasting (walFile w) (\<lambda>u. u = msCurrent s \<or> u = c)" using append by simp
        then show ?thesis by (rule lasting_mono) (use cur c in \<open>auto simp: expected_def\<close>)
      next
        case (Inr u)
        then have "writerHolds w c" using append by simp
        then show ?thesis by (rule writerHolds_lasting) (use cur c in \<open>auto simp: expected_def\<close>)
      qed
      then have "pointsTo (leftBy s') (dirCurrent (msDirectory s')) (expected s')"
        using place(1) w(2) unfolding pointsTo_def named_def by (intro exI [of _ "manifestNumber s'"]) auto
      then have "storeInv s'" using cur good place by (auto simp: storeInv_def dirHolds_def)
      then show ?thesis using cur(1) by simp
    qed
  qed (use inv in auto)
  then show "storeInv s'" "watermarksLe (msCurrent s) (msCurrent s')" by auto
qed

lemma expected_fields [simp]:
  "expected (s\<lparr>msObsolete := x\<rparr>) = expected s" "expected (s\<lparr>msAfterDurable := b\<rparr>) = expected s"
  "expected (s\<lparr>msNextSequence := n, msSeqExhausted := b\<rparr>) = expected s" "expected (s\<lparr>msDirectory := d\<rparr>) = expected s"
  "expected (s\<lparr>msDirectory := d, msAfterDurable := b\<rparr>) = expected s"
  "expected (s\<lparr>msClosed := b, msWriter := w, msCloseErr := e\<rparr>) = expected s"
  by (simp_all add: expected_def fun_eq_iff)

lemma storeInv_fields [simp]:
  "storeInv (s\<lparr>msObsolete := x\<rparr>) = storeInv s"
  "storeInv (s\<lparr>msAfterDurable := b\<rparr>) = storeInv s"
  "storeInv (s\<lparr>msNextSequence := n, msSeqExhausted := b\<rparr>) = storeInv s"
  by (simp_all add: storeInv_def dirHolds_def pointsTo_def)

text \<open>The operations that install one edit, or none.\<close>

definition installs :: "ManifestStore \<Rightarrow> ManifestStore \<Rightarrow> bool" where
  "installs s s' \<longleftrightarrow> s' = s \<or> (\<exists>e r x t. installLocked e s = (t, r) \<and> (s' = t \<or> s' = t\<lparr>msObsolete := x\<rparr>))"

lemma installs_inv: "storeInv s \<Longrightarrow> installs s s' \<Longrightarrow> storeInv s' \<and> watermarksLe (msCurrent s) (msCurrent s')"
  unfolding installs_def using install_inv by auto

lemma installsI: "installLocked e s = (t, r) \<Longrightarrow> installs s t"
  unfolding installs_def by blast

lemma installs_refl [simp]: "installs s s"
  by (simp add: installs_def)

lemma installEdit_installs: "installEdit e s = (s', r) \<Longrightarrow> installs s s'"
  by (auto simp: installEdit_def split: if_splits sum.splits intro: installsI)

lemma AllocateFileNumber_installs: "AllocateFileNumber ctx s = (s', r) \<Longrightarrow> installs s s'"
  by (cases "installLocked (emptyEdit\<lparr>edNextFileNumber := Some (nextFileNumber (msCurrent s) + 1)\<rparr>) s")
     (auto simp: AllocateFileNumber_def andThen_def Let_def split: if_splits sum.splits intro: installsI)

lemma InstallTable_installs: "InstallTable ctx ins s = (s', r) \<Longrightarrow> installs s s'"
  by (auto simp: InstallTable_def Let_def split: if_splits sum.splits intro: installsI)

lemma InstallCompaction_installs:
  assumes "InstallCompaction ctx inputs outputs s = (s', r)"
  shows "installs s s'"
proof -
  have finish: "installs s s'"
    if "andThen (installLocked e s) (\<lambda>t _.
          if P t then (t, Inl a) else if Q t then (t, Inl b) else (t\<lparr>msObsolete := f t\<rparr>, Inr ())) = (s', r)"
    for e P Q a b f
    using that by (cases "installLocked e s") (auto simp: andThen_def installs_def split: if_splits sum.splits)
  show ?thesis
    using assms unfolding InstallCompaction_def Let_def
    by (auto split: if_splits sum.splits intro: finish)
qed

section \<open>Rewriting the manifest\<close>

lemma walClose_frame:
  assumes "walClose w = (w', r)"
  shows "walOffset w' = walOffset w \<and> walDurability w' = walDurability w \<and> contents (walFile w') = contents (walFile w) \<and>
    fileSynced (walFile w') = fileSynced (walFile w) \<and> fileLinked (walFile w') = fileLinked (walFile w)"
proof -
  obtain f1 e1 where 1: "fileCall (walFile w) = (f1, e1)" by force
  obtain f2 e2 where 2: "fileCall f1 = (f2, e2)" by force
  obtain p1 p2 where f: "f1 = (walFile w)\<lparr>syncPlan := p1\<rparr>" "f2 = f1\<lparr>syncPlan := p2\<rparr>"
    using fileCall_frame [OF 1] fileCall_frame [OF 2] by blast
  have "w' = w \<or> (\<exists>b. w' = w\<lparr>walFile := f1, walDirectory := False, walClosed := True, walCloseErr := b\<rparr> \<or>
      w' = w\<lparr>walFile := f2, walDirectory := False, walClosed := True, walCloseErr := b\<rparr>)"
    using assms by (auto simp: walClose_def 1 2 Let_def split: if_splits)
  then show ?thesis using f by auto
qed

lemma walClose_holds:
  assumes "walClose w = (w', r)" "fileLinked (walFile w)" "walHolds w ps"
  shows "walHolds w' ps"
  using walClose_frame [OF assms(1)] assms(2,3) unfolding walHolds_def durable_def by simp

lemma walClose_writerHolds:
  assumes w: "walClose w = (w', r)" and h: "writerHolds w v"
  shows "writerHolds w' v"
proof -
  obtain ps where ps: "walHolds w ps" "replays ps v" "walDurability w = SyncBatch" "fileLinked (walFile w)"
    using h unfolding writerHolds_def by blast
  have "walDurability w' = SyncBatch" "fileLinked (walFile w')" using walClose_frame [OF w] ps(3,4) by simp_all
  then show ?thesis using walClose_holds [OF w ps(4,1)] ps(2) unfolding writerHolds_def by blast
qed

lemma canonical_snapshot: "\<exists>us. canonicalEdit (snapshotRecord v ts) = snapshotRecord v us \<and> mset us = mset ts"
  by (intro exI [of _ "sortFunc compareTableIdentity ts"]) (simp add: canonicalEdit_def snapshotRecord_def)

lemma snapshot_replays:
  assumes good: "versionGood v" and snap: "snapshotEdit v = Inr e" and bs: "EncodeVersionEdit e = Inr bs"
  shows "replays [bs] v"
proof -
  have e: "e = snapshotRecord v (liveTables v)" "length (liveTables v) \<le> MaxChangesPerEdit" "historyCovered v"
    using snap snapshotEdit_eq [of v] good by (auto simp: versionGood_def split: if_splits)
  obtain us where us: "canonicalEdit e = snapshotRecord v us" "mset us = mset (liveTables v)"
    using canonical_snapshot e(1) by blast
  have "length us = length (liveTables v)" using us(2) by (rule mset_eq_length)
  then have "applyEdit initialVersion (canonicalEdit e) = Inr (rebuilt v)"
    using snapshot_apply [OF versionGood_comparator(2,1) [OF good] us(2)] e(2,3) us(1) by simp
  moreover have "sameVersion (rebuilt v) v"
    using good by (auto simp: versionGood_def rebuilt_def sameVersion_def word_le_nat_alt Suc_le_eq unat_gt_0)
  ultimately show ?thesis
    using edit_roundtrip [OF bs] by (simp add: replays_def replayEdit_def)
qed

definition sameCurrent :: "StoreDirectory \<Rightarrow> StoreDirectory \<Rightarrow> bool" where
  "sameCurrent d d' \<longleftrightarrow> dirCurrent d' = dirCurrent d \<and> dirCurrentSynced d' = dirCurrentSynced d \<and> dirLinked d' = dirLinked d"

lemma sameCurrent_trans: "sameCurrent a b \<Longrightarrow> sameCurrent b c \<Longrightarrow> sameCurrent a c"
  by (simp add: sameCurrent_def)

lemma sameCurrent_named: "sameCurrent d d' \<Longrightarrow> named d' n = named d n"
  by (simp add: sameCurrent_def named_def)

lemma newWriter_durability [simp]: "walDurability (newWriter f created durability) = durability"
  by (simp add: newWriter_def)

lemma openManifestWriter_ok:
  assumes "openManifestWriter d n = (d', Inr w)"
  shows "validNumber n \<and> dirManifests d n = None \<and> sameCurrent d d' \<and>
    (\<exists>f. dirManifests d' = (dirManifests d)(n := Some f)) \<and> walHolds w [] \<and> walDurability w = SyncBatch"
proof -
  have fresh: "openWriter \<lparr>contents = [], fileSynced = 0, fileLinked = False, writePlan = a, syncPlan = b\<rparr> True SyncBatch =
      Inr (newWriter \<lparr>contents = [], fileSynced = 0, fileLinked = False, writePlan = a, syncPlan = b\<rparr> True SyncBatch)" for a b
    by (rule openWriter_clean [where ps = "[]"]) (simp add: cleanLog_empty)
  show ?thesis
    using assms by (auto simp: openManifestWriter_def validNumber_def sameCurrent_def fresh Let_def not_less newWriter_holds
        split: if_splits prod.splits list.splits)
qed

lemma first_holds:
  assumes "walHolds w []" "walDurability w = SyncBatch" "walAppend w bs = (w', Inr pos)" "replays [bs] v"
  shows "writerHolds w' v"
proof -
  have "walDirectory w \<or> fileLinked (walFile w)" using assms(1,2) by (simp add: walHolds_def)
  from walAppend_ok(7) [OF assms(3,2) this] have "fileLinked (walFile w')" by blast
  moreover have "walHolds w' [bs]" using wal.append_ok [OF assms(1,3)] by simp
  ultimately show ?thesis using walAppend_ok(6) [OF assms(3)] assms(2,4) unfolding writerHolds_def by auto
qed

lemma openManifestWriter_free:
  assumes "validNumber n" "dirManifests d n = None"
  shows "\<exists>d' w. openManifestWriter d n = (d', Inr w)"
proof -
  have "openWriter \<lparr>contents = [], fileSynced = 0, fileLinked = False, writePlan = a, syncPlan = b\<rparr> True SyncBatch =
      Inr (newWriter \<lparr>contents = [], fileSynced = 0, fileLinked = False, writePlan = a, syncPlan = b\<rparr> True SyncBatch)" for a b
    by (rule openWriter_clean [where ps = "[]"]) (simp add: cleanLog_empty)
  then show ?thesis
    using assms by (cases "dirPlans d") (auto simp: openManifestWriter_def validNumber_def Let_def split: prod.splits)
qed

lemma openManifestWriter_error: "openManifestWriter d n = (d', Inl e) \<Longrightarrow> d' = d"
proof -
  assume "openManifestWriter d n = (d', Inl e)"
  moreover have "openWriter \<lparr>contents = [], fileSynced = 0, fileLinked = False, writePlan = a, syncPlan = b\<rparr> True SyncBatch =
      Inr (newWriter \<lparr>contents = [], fileSynced = 0, fileLinked = False, writePlan = a, syncPlan = b\<rparr> True SyncBatch)" for a b
    by (rule openWriter_clean [where ps = "[]"]) (simp add: cleanLog_empty)
  ultimately show "d' = d"
    by (auto simp: openManifestWriter_def Let_def split: if_splits prod.splits list.splits)
qed

text \<open>Writing a manifest under a fresh number does not touch those that exist.\<close>

lemma storeInv_extend:
  assumes inv: "storeInv s" and cur: "sameCurrent (msDirectory s) d"
    and fresh: "dirManifests (msDirectory s) n = None" and man: "dirManifests d = (dirManifests (msDirectory s))(n := x)"
  shows "storeInv (s\<lparr>msDirectory := d\<rparr>)"
proof -
  have neq: "n \<noteq> manifestNumber s" using inv fresh by (auto simp: storeInv_def)
  have old: "dirManifests (leftBy (s\<lparr>msDirectory := d\<rparr>)) k = Some f" if "dirManifests (leftBy s) k = Some f" for k f
    using that fresh neq by (auto simp: man split: if_splits)
  have "pointsTo (leftBy (s\<lparr>msDirectory := d\<rparr>)) y (expected s)" if "pointsTo (leftBy s) y (expected s)" for y
    using that old unfolding pointsTo_def by blast
  then have "dirHolds (leftBy (s\<lparr>msDirectory := d\<rparr>)) (expected s)"
    using inv cur by (simp add: storeInv_def dirHolds_def sameCurrent_def)
  moreover have "dirManifests d (manifestNumber s) = dirManifests (msDirectory s) (manifestNumber s)"
    using neq by (simp add: man)
  ultimately show ?thesis
    using inv cur sameCurrent_named [OF cur] by (simp add: storeInv_def sameCurrent_def)
qed

lemma closeWriter_directory:
  assumes "closeWriter n w d e = (d', e')"
  shows "sameCurrent d d' \<and>
    (\<exists>f. dirManifests d' = (dirManifests d)(n := Some f) \<and> (\<forall>P. lasting (walFile w) P \<longrightarrow> lasting f P))"
proof -
  obtain w' r where w': "walClose w = (w', r)" by force
  have "lasting (walFile w') P" if "lasting (walFile w) P" for P
    using lasting_file [OF that] walClose_frame [OF w'] by simp
  then show ?thesis using assms w' by (auto simp: closeWriter_def leaveManifest_def sameCurrent_def)
qed

lemma abandonRewrite_inv:
  assumes inv: "storeInv s" and fresh: "dirManifests (msDirectory s) n = None"
    and d: "sameCurrent (msDirectory s) d" "dirManifests d = (dirManifests (msDirectory s))(n := x)"
    and abandon: "abandonRewrite n w e (s\<lparr>msDirectory := d\<rparr>) = (s', r)"
  shows "storeInv s' \<and> msCurrent s' = msCurrent s"
proof -
  obtain d' e' where c: "closeWriter n w d e = (d', e')" by force
  then have s': "s' = s\<lparr>msDirectory := d'\<rparr>" using abandon by (simp add: abandonRewrite_def)
  obtain f where "sameCurrent (msDirectory s) d'" "dirManifests d' = (dirManifests (msDirectory s))(n := Some f)"
    using closeWriter_directory [OF c] d sameCurrent_trans by auto
  then have "storeInv s'" unfolding s' by (rule storeInv_extend [OF inv _ fresh])
  then show ?thesis by (simp add: s')
qed

lemma samePlace_current: "samePlace d d' \<Longrightarrow> sameCurrent d d'"
  by (simp add: samePlace_def sameCurrent_def)

text \<open>A publication whose directory was not synced: the store stops, and either name is good.\<close>

lemma ambiguous_inv:
  assumes inv: "storeInv s" and run: "msPoisoned s = None" and valid: "validNumber n" and neq: "n \<noteq> manifestNumber s"
    and d: "dirManifests d = (dirManifests (msDirectory s))(n := Some f)" "dirCurrent d = currentOf n" "dirCurrentSynced d"
      "dirLinked d = dirCurrent d \<or> dirLinked d = dirLinked (msDirectory s)"
    and f: "lasting f (\<lambda>v. v = msCurrent s)"
  shows "storeInv (s\<lparr>msDirectory := d, msPoisoned := Some e\<rparr>)"
proof -
  let ?s = "s\<lparr>msDirectory := d, msPoisoned := Some e\<rparr>"
  have mine: "writerHolds (msWriter s) (msCurrent s)" "named (msDirectory s) (manifestNumber s)"
      "dirLinked (msDirectory s) = dirCurrent (msDirectory s)"
    using inv run by (auto simp: storeInv_def)
  have "lasting f (expected ?s)" using f by (rule lasting_mono) (simp add: expected_def)
  then have new: "pointsTo (leftBy ?s) (currentOf n) (expected ?s)"
    using valid neq d(1) unfolding pointsTo_def by (intro exI [of _ n] exI [of _ f]) simp
  have "lasting (walFile (msWriter s)) (expected ?s)"
    by (rule writerHolds_lasting [OF mine(1)]) (simp add: expected_def)
  then have "pointsTo (leftBy ?s) (dirLinked (msDirectory s)) (expected ?s)"
    using mine unfolding pointsTo_def named_def by (intro exI [of _ "manifestNumber s"]) simp
  then have "dirHolds (leftBy ?s) (expected ?s)" using new d(2-4) by (auto simp: dirHolds_def)
  then show ?thesis using inv neq d(1) by (simp add: storeInv_def)
qed

lemma switchManifest_inv:
  assumes inv: "storeInv s" and run: "msPoisoned s = None" and fresh: "dirManifests (msDirectory s) n = None"
    and d: "sameCurrent (msDirectory s) d" "dirManifests d = (dirManifests (msDirectory s))(n := Some x)"
    and valid: "validNumber n" and w: "writerHolds w (msCurrent s)"
    and switch: "switchManifest n bs w (s\<lparr>msDirectory := d\<rparr>) = (s', r)"
  shows "storeInv s' \<and> msCurrent s' = msCurrent s"
proof -
  obtain d1 amb res where p: "publishCurrent n d = (d1, amb, res)" by (cases "publishCurrent n d") auto
  have good: "versionGood (msCurrent s)" and neq: "n \<noteq> manifestNumber s" and num: "validNumber (manifestNumber s)"
    using inv fresh by (auto simp: storeInv_def)
  show ?thesis
  proof (cases res)
    case None
    obtain old closed where o: "walClose (msWriter s) = (old, closed)" by force
    have cur: "dirCurrent d1 = currentOf n" "dirManifests d1 = dirManifests d" "dirLinked d1 = dirCurrent d1" "dirCurrentSynced d1"
      using publishCurrent_place [OF p] None by (auto simp: currentOf_def)
    have s': "msCurrent s' = msCurrent s" "manifestNumber s' = n" "msWriter s' = w"
        "msDirectory s' = leaveManifest (manifestNumber s) old d1"
      using switch by (auto simp: switchManifest_def p None o Let_def)
    have "storeInv s'"
      using good w valid cur d(2) neq
      by (intro storeInv_running) (auto simp: s' named_def leaveManifest_def)
    then show ?thesis using s' by simp
  next
    case (Some e)
    obtain d2 e2 where c: "closeWriter n w d1 (if amb then StoreJoin ErrCurrentAmbiguous e else e) = (d2, e2)" by force
    obtain f where f: "dirManifests d2 = (dirManifests d1)(n := Some f)" "\<forall>P. lasting (walFile w) P \<longrightarrow> lasting f P"
        "sameCurrent d1 d2"
      using closeWriter_directory [OF c] by blast
    have man: "dirManifests d2 = (dirManifests (msDirectory s))(n := Some f)"
      using publishCurrent_place [OF p] f(1) d(2) by (auto simp: samePlace_def)
    have s': "s' = (if amb then s\<lparr>msDirectory := d2, msPoisoned := Some (StoreJoin ErrCurrentAmbiguous e)\<rparr>
        else s\<lparr>msDirectory := d2\<rparr>)"
      using switch c by (auto simp: switchManifest_def p Some Let_def)
    show ?thesis
    proof (cases amb)
      case False
      then have "sameCurrent (msDirectory s) d2"
        using publishCurrent_place [OF p] Some f(3) d(1) samePlace_current sameCurrent_trans by blast
      then have "storeInv (s\<lparr>msDirectory := d2\<rparr>)" by (rule storeInv_extend [OF inv _ fresh man])
      then show ?thesis using s' False by simp
    next
      case True
      have "lasting f (\<lambda>v. v = msCurrent s)" using f(2) [rule_format, OF writerHolds_lasting [OF w]] by simp
      moreover have "dirCurrent d2 = currentOf n" "dirCurrentSynced d2"
          "dirLinked d2 = dirCurrent d2 \<or> dirLinked d2 = dirLinked (msDirectory s)"
        using publishCurrent_place [OF p] True Some f(3) d(1) by (auto simp: sameCurrent_def currentOf_def)
      ultimately show ?thesis using ambiguous_inv [OF inv run valid neq man] s' True by simp
    qed
  qed
qed

lemma Rewrite_body:
  assumes "\<not> msClosed s" "msPoisoned s = None" "nextManifest s \<noteq> 0" "nextManifest s \<le> maxManifestNumber"
    and "snapshotEdit (msCurrent s) = Inr edit" "EncodeVersionEdit edit = Inr bs"
    and "openManifestWriter (msDirectory s) (nextManifest s) = (d, Inr w0)" "walAppend w0 bs = (w, ok)"
  shows "Rewrite s = (case ok of
      Inl e \<Rightarrow> abandonRewrite (nextManifest s) w (StoreWal e) (s\<lparr>msDirectory := d\<rparr>)
    | Inr _ \<Rightarrow> (case recoverManifest (contents (walFile w)) of
        Inl e \<Rightarrow> abandonRewrite (nextManifest s) w e (s\<lparr>msDirectory := d\<rparr>)
      | Inr (recovered, _) \<Rightarrow> (case validateEquivalent (msCurrent (s\<lparr>msDirectory := d\<rparr>)) recovered of
          Inl e \<Rightarrow> abandonRewrite (nextManifest s) w (EditError e) (s\<lparr>msDirectory := d\<rparr>)
        | Inr _ \<Rightarrow> switchManifest (nextManifest s) bs w (s\<lparr>msDirectory := d\<rparr>))))"
  using assms leD [OF assms(4)] by (simp add: Rewrite_def Let_def)

lemma Rewrite_inv:
  assumes inv: "storeInv s" and rewrite: "Rewrite s = (s', r)"
  shows "storeInv s' \<and> msCurrent s' = msCurrent s"
proof (cases "msClosed s \<or> msPoisoned s \<noteq> None \<or> nextManifest s = 0 \<or> nextManifest s > maxManifestNumber")
  case True
  then have "fst (Rewrite s) = s"
    by (cases "msClosed s"; cases "msPoisoned s") (simp_all add: Rewrite_def)
  then show ?thesis using rewrite inv by simp
next
  case running: False
  then have run: "msPoisoned s = None" by auto
  have good: "versionGood (msCurrent s)" using inv by (simp add: storeInv_def)
  show ?thesis
  proof (cases "snapshotEdit (msCurrent s)")
    case (Inl e)
    then show ?thesis using rewrite running inv by (simp add: Rewrite_def)
  next
    case edit: (Inr edit)
    show ?thesis
    proof (cases "EncodeVersionEdit edit")
      case (Inl e)
      then show ?thesis using rewrite running inv edit by (simp add: Rewrite_def)
    next
      case bs: (Inr bs)
      obtain d ow where o: "openManifestWriter (msDirectory s) (nextManifest s) = (d, ow)" by force
      show ?thesis
      proof (cases ow)
        case (Inl e)
        then show ?thesis
          using rewrite running inv edit bs o openManifestWriter_error [of "msDirectory s" "nextManifest s" d e]
          by (simp add: Rewrite_def Let_def)
      next
        case w0: (Inr w0)
        obtain w ok where a: "walAppend w0 bs = (w, ok)" by force
        obtain f where n: "validNumber (nextManifest s)" "dirManifests (msDirectory s) (nextManifest s) = None"
            "sameCurrent (msDirectory s) d"
            "dirManifests d = (dirManifests (msDirectory s))(nextManifest s := Some f)" "walHolds w0 []" "walDurability w0 = SyncBatch"
          using openManifestWriter_ok o w0 by blast
        note abandon = abandonRewrite_inv [OF inv n(2-4)]
        have body: "Rewrite s = (case ok of
            Inl e \<Rightarrow> abandonRewrite (nextManifest s) w (StoreWal e) (s\<lparr>msDirectory := d\<rparr>)
          | Inr _ \<Rightarrow> (case recoverManifest (contents (walFile w)) of
              Inl e \<Rightarrow> abandonRewrite (nextManifest s) w e (s\<lparr>msDirectory := d\<rparr>)
            | Inr (recovered, _) \<Rightarrow> (case validateEquivalent (msCurrent (s\<lparr>msDirectory := d\<rparr>)) recovered of
                Inl e \<Rightarrow> abandonRewrite (nextManifest s) w (EditError e) (s\<lparr>msDirectory := d\<rparr>)
              | Inr _ \<Rightarrow> switchManifest (nextManifest s) bs w (s\<lparr>msDirectory := d\<rparr>))))"
          using running o w0 by (intro Rewrite_body [OF _ _ _ _ edit bs _ a]) (auto simp: not_less)
        have "writerHolds w (msCurrent s)" if "ok = Inr pos" for pos
          using first_holds [OF n(5,6), of bs w pos] a that snapshot_replays [OF good edit bs] by simp
        then show ?thesis
          using rewrite body abandon switchManifest_inv [OF inv run n(2-4,1)]
          by (auto split: sum.splits prod.splits)
      qed
    qed
  qed
qed

section \<open>Creation and opening\<close>

lemma stages_mode:
  "applyComparator e v = Inr w \<Longrightarrow> mode w = mode v \<and> modeExplicit w = modeExplicit v"
  "applyNextFile e v = Inr w \<Longrightarrow> mode w = mode v \<and> modeExplicit w = modeExplicit v"
  "applyLastSequence e v = Inr w \<Longrightarrow> mode w = mode v \<and> modeExplicit w = modeExplicit v"
  "applyLevels e v = Inr w \<Longrightarrow> mode w = mode v \<and> modeExplicit w = modeExplicit v"
  "applyFrontier e v = Inr w \<Longrightarrow> mode w = mode v \<and> modeExplicit w = modeExplicit v"
  "applyReplicated e v = Inr w \<Longrightarrow> mode w = mode v \<and> modeExplicit w = modeExplicit v"
  "applyMaxMVCC e v = Inr w \<Longrightarrow> mode w = mode v \<and> modeExplicit w = modeExplicit v"
  "applyFinal v = Inr w \<Longrightarrow> mode w = mode v \<and> modeExplicit w = modeExplicit v"
  by (auto simp: apply_stages applyLevels_def split: option.splits if_splits elim!: bindR_okE
      dest!: applyDeletions_frame applyAdditions_frame)

lemma initial_mode:
  assumes "applyEdit initialVersion (initialEdit m) = Inr v"
  shows "modeExplicit v = (mode v \<noteq> ModeStandalone)"
  using assms
proof (rule applyEdit_stages)
  fix v1 v2 v3 v4 v5 v6 v7 v8
  assume s: "applyComparator (initialEdit m) initialVersion = Inr v1" "applyMode (initialEdit m) v1 = Inr v2"
    "applyNextFile (initialEdit m) v2 = Inr v3" "applyLastSequence (initialEdit m) v3 = Inr v4"
    "applyLevels (initialEdit m) v4 = Inr v5" "applyFrontier (initialEdit m) v5 = Inr v6"
    "applyReplicated (initialEdit m) v6 = Inr v7" "applyMaxMVCC (initialEdit m) v7 = Inr v8" "applyFinal v8 = Inr v"
  have "mode v1 = ModeStandalone" "\<not> modeExplicit v1" using stages_mode(1) [OF s(1)] by (simp_all add: initialVersion_def)
  then have "modeExplicit v2 = (mode v2 \<noteq> ModeStandalone)"
    using s(2) by (auto simp: applyMode_def initialEdit_def emptyEdit_def mode_defs Let_def split: if_splits)
  then show ?thesis
    using stages_mode(2) [OF s(3)] stages_mode(3) [OF s(4)] stages_mode(4) [OF s(5)] stages_mode(5) [OF s(6)]
      stages_mode(6) [OF s(7)] stages_mode(7) [OF s(8)] stages_mode(8) [OF s(9)] by simp
qed

lemma initial_good:
  assumes "applyEdit initialVersion (initialEdit m) = Inr v" and "EncodeVersionEdit (initialEdit m) = Inr bs"
  shows "versionGood v" and "replays [bs] v"
proof -
  have "versionLe initialVersion v" using applyEdit_le [OF assms(1)] by (simp add: initialVersion_def)
  then have gen: "generation v \<noteq> 0" by (auto simp: versionLe_def)
  then show "versionGood v"
    using initial_mode [OF assms(1)] versionReached.edit [OF versionReached.initial assms(1)] by (simp add: versionGood_def)
  have "edDeletedFiles (initialEdit m) = [] \<and> edAddedFiles (initialEdit m) = []"
    by (simp add: initialEdit_def emptyEdit_def Let_def)
  then have "canonicalEdit (initialEdit m) = initialEdit m" by (simp add: canonicalEdit_def)
  then show "replays [bs] v"
    using assms gen edit_roundtrip [OF assms(2)] by (simp add: replays_def replayEdit_def sameVersion_def)
qed

lemma Create_inv:
  assumes "Create o' d = (d', Inr s)"
  shows "storeInv s"
proof -
  let ?o = "configureOptions o'" and ?e = "initialEdit (optMode (configureOptions o'))"
  obtain n d1 w0 where o: "openManifestWriter d n = (d1, Inr w0)" and c: "createManifest ?o n w0 d1 = (d', Inr s)"
    using assms by (auto simp: Create_def andThen_def split: sum.splits if_splits prod.splits)
  obtain f where n: "validNumber n" "dirManifests d1 n = Some f" "walHolds w0 []" "walDurability w0 = SyncBatch"
    using openManifestWriter_ok [OF o] by auto
  obtain v bs w u d2 amb where v: "applyEdit initialVersion ?e = Inr v" and bs: "EncodeVersionEdit ?e = Inr bs"
    and w: "walAppend w0 bs = (w, Inr u)" and p: "publishCurrent n d1 = (d2, amb, None)"
    and s: "msDirectory s = d2" "msWriter s = w" "manifestNumber s = n" "msCurrent s = v"
    using c by (auto simp: createManifest_def newStore_def Let_def split: sum.splits prod.splits option.splits)
  have "writerHolds w v" by (rule first_holds [OF n(3,4) w initial_good(2) [OF v bs]])
  then show ?thesis
    using s n publishCurrent_place [OF p] initial_good(1) [OF v bs]
    by (intro storeInv_running) (auto simp: named_def currentOf_def)
qed

lemma replay_reached:
  "foldR replayEdit (v, n) ps = Inr (r, k) \<Longrightarrow> versionReached v \<Longrightarrow> versionReached r"
proof (induction ps arbitrary: v n)
  case (Cons p ps)
  then obtain w m where "replayEdit (v, n) p = Inr (w, m)" "foldR replayEdit (w, m) ps = Inr (r, k)"
    by (auto elim!: bindR_okE)
  then show ?case using Cons by (auto simp: replayEdit_def split: sum.splits intro: versionReached.edit)
qed simp

lemma recovered_good:
  assumes "tornLog ps data" and "replays ps v" and "versionGood v" and "recoverManifest data = Inr (r, res)"
  shows "versionGood r" and "replays ps r" and "sameVersion r v" and "res = scanResult ps data"
proof -
  obtain r' n where r': "foldR replayEdit (initialVersion, 0) ps = Inr (r', n)" "n \<noteq> 0" "sameVersion r' v"
    using assms(2) by (auto simp: replays_def)
  have "comparator r' = ComparatorName" using sameVersion_fields(1) [OF r'(3)] versionGood_comparator [OF assms(3)] by simp
  then have r: "r = r'" and "res = scanResult ps data"
    using recover_log [OF assms(1) r'(1), of "\<lambda>s rec. replayEdit s (recPayload rec)"] r'(2) assms(4)
    by (auto simp: recoverManifest_def)
  then show "sameVersion r v" "res = scanResult ps data" using r'(3) by auto
  then have gen: "generation r \<noteq> 0" by (simp add: sameVersion_def)
  then show "replays ps r" using r'(1,2) r by (auto simp: replays_def sameVersion_def)
  have "versionReached r" using replay_reached [OF r'(1)] r versionReached.initial by simp
  moreover obtain g where "r = v\<lparr>generation := g\<rparr>" using \<open>sameVersion r v\<close> by (auto simp: sameVersion_def)
  ultimately show "versionGood r" using assms(3) gen by (simp add: versionGood_def)
qed

lemma settled_holds:
  assumes "settled d n f" and "yields f v" and "P v"
  shows "dirHolds d P"
proof -
  have "contents (survivor k f) = contents f" for k
    using assms(1) by (intro survivor_all) (simp add: settled_def durable_def)
  then have "lasting f P" using assms by (auto simp: settled_def lasting_def yields_def)
  then show ?thesis using assms(1) by (auto simp: settled_def dirHolds_def pointsTo_def named_def)
qed

lemma closed_holds:
  assumes "named d n" "dirLinked d = dirCurrent d" "dirCurrentSynced d"
    and "lasting (walFile w) P" and "closeWriter n w d e = (d', e')"
  shows "dirHolds d' P"
proof -
  obtain f where "sameCurrent d d'" "dirManifests d' = (dirManifests d)(n := Some f)" "lasting f P"
    using closeWriter_directory [OF assms(5)] assms(4) by blast
  then show ?thesis using assms(1-3) by (auto simp: dirHolds_def pointsTo_def named_def sameCurrent_def)
qed

lemma storeInv_writer:
  assumes "storeInv s" and "named (msDirectory s) (manifestNumber s)"
  shows "lasting (walFile (msWriter s)) (expected s)"
proof -
  obtain n f where n: "dirCurrent (msDirectory s) = currentOf n" "validNumber n" "dirManifests (leftBy s) n = Some f"
      "lasting f (expected s)"
    using assms(1) by (auto simp: storeInv_def dirHolds_def pointsTo_def)
  moreover have "n = manifestNumber s"
    using n(1,2) assms(2) manifestFileName_inj by (auto simp: named_def currentOf_def)
  ultimately show ?thesis by simp
qed

lemma expected_good:
  assumes "versionGood (msCurrent s)" and "expected s v"
  shows "versionGood v \<and> watermarksLe (msCurrent s) v"
  using assms versionGood_edit(1) [OF assms(1)] watermarksLe_edit [OF assms(1)] by (auto simp: expected_def)

text \<open>A version that is at least another one, and what an attempt to open a directory leaves behind.\<close>

definition noOlder :: "Version \<Rightarrow> Version \<Rightarrow> bool" where
  "noOlder v u \<longleftrightarrow> versionGood u \<and> watermarksLe v u"

lemma openRecovered_inv:
  assumes d: "named d n" "dirLinked d = dirCurrent d" "dirCurrentSynced d" "dirManifests d n \<noteq> None"
    and w: "writerHolds w r" and r: "versionGood r" and opened: "openRecovered o' n r w d = (d', res)"
  shows "case res of Inl _ \<Rightarrow> dirHolds d' (noOlder r) | Inr s \<Rightarrow> storeInv s \<and> watermarksLe r (msCurrent s)"
proof (cases "(\<exists>e. nextManifestNumber d = Inl e) \<or> (\<exists>e. discoverAndValidate d r = Inl e) \<or> (\<exists>e. sequenceAuthority o' d r = Inl e)")
  case True
  then have "\<exists>e e'. closeWriter n w d e = (d', e') \<and> res = Inl e'"
    using opened by (auto simp: openRecovered_def Let_def split: sum.splits prod.splits)
  moreover have "lasting (walFile w) (noOlder r)" by (rule writerHolds_lasting [OF w]) (simp add: noOlder_def r)
  ultimately show ?thesis using closed_holds [OF d(1-3)] by auto
next
  case False
  then obtain k report observed authority where steps: "nextManifestNumber d = Inr k"
      "discoverAndValidate d r = Inr (report, observed)" "sequenceAuthority o' d r = Inr authority"
    by (metis old.sum.exhaust surj_pair)
  define s0 where s0: "s0 = (newStore o' d w n r)\<lparr>nextManifest := k, msDiscovery := report\<rparr>"
  define e where e: "e = recoveryEdit observed authority r"
  have inv0: "storeInv s0"
    using d w r by (intro storeInv_running) (auto simp: s0 newStore_def named_def)
  let ?run = "if edNextFileNumber e \<noteq> None \<or> edLastSequence e \<noteq> None then installLocked e s0 else (s0, Inr ())"
  obtain t q where q: "?run = (t, q)" by force
  have eq: "openRecovered o' n r w d =
      (case ?run of
         (s, Inl err) \<Rightarrow> (let (d, e) = closeWriter n (msWriter s) d err in (d, Inl e))
       | (s, Inr _) \<Rightarrow> (let (a, b) = nextSequence (fst authority) (snd authority) in
           (d, Inr (s\<lparr>msNextSequence := a, msSeqExhausted := b\<rparr>))))"
    unfolding openRecovered_def steps s0 e by (simp only: Let_def sum.case prod.case)
  have t: "storeInv t" "watermarksLe r (msCurrent t)"
    using q inv0 install_inv [OF inv0] by (auto simp: s0 newStore_def simp del: not_None_eq split: if_splits)
  have frame: "msDirectory t = d" "manifestNumber t = n"
    using q installLocked_cases [of e s0 t q] by (auto simp: s0 newStore_def sameFrame_def simp del: not_None_eq split: if_splits)
  show ?thesis
  proof (cases q)
    case (Inl err)
    then obtain e' where c: "closeWriter n (msWriter t) d err = (d', e')" "res = Inl e'"
      using opened eq q by (auto split: prod.splits)
    have "lasting (walFile (msWriter t)) (expected t)" using storeInv_writer [OF t(1)] d(1) frame by simp
    moreover have "versionGood (msCurrent t)" using t(1) by (simp add: storeInv_def)
    ultimately have "lasting (walFile (msWriter t)) (noOlder r)"
      using expected_good [of t] t(2) watermarksLe_trans by (auto elim!: lasting_mono simp: noOlder_def)
    then show ?thesis using closed_holds [OF d(1-3) _ c(1)] c(2) by simp
  next
    case (Inr u)
    then have "\<exists>a b. res = Inr (t\<lparr>msNextSequence := a, msSeqExhausted := b\<rparr>)"
      using opened eq q by (auto split: prod.splits)
    then show ?thesis using t by auto
  qed
qed

lemma OpenStore_inv:
  assumes d: "settled d n f" and v: "yields f v" "versionGood v" and opened: "OpenStore o0 d = (d', res)"
  shows "case res of Inl _ \<Rightarrow> dirHolds d' (noOlder v) | Inr s \<Rightarrow> storeInv s \<and> watermarksLe v (msCurrent s)"
proof -
  have n: "named d n" and f: "dirManifests d n = Some f" "fileLinked f" "fileSynced f = length (contents f)"
    using d by (simp_all add: settled_def)
  obtain ps where ps: "tornLog ps (contents f)" "replays ps v" using v(1) by (auto simp: yields_def)
  have cur: "readCurrent d = Inr n" using readCurrent_name n by (simp add: named_def currentOf_def)
  obtain r where r: "recoverManifest (contents f) = Inr (r, scanResult ps (contents f))"
    using recoverManifest_log [OF ps versionGood_comparator(1) [OF v(2)]] by blast
  note rg = recovered_good [OF ps v(2) r]
  let ?torn = "resTailTruncated (scanResult ps (contents f))"
  obtain data where data: "(if ?torn then repairTail (contents f) (scanResult ps (contents f)) else Inr (contents f)) = Inr data"
      "cleanLog ps data" "\<not> ?torn \<Longrightarrow> data = contents f"
    using repairTail_log [OF ps(1)] tornLog_clean [OF ps(1)] by (cases ?torn) auto
  define g where g: "g = (if ?torn then f\<lparr>contents := data, fileSynced := length data\<rparr> else f)"
  have gf: "contents g = data" "fileLinked g" "fileSynced g = length data" using data(3) f by (auto simp: g)
  let ?d = "d\<lparr>dirManifests := (dirManifests d)(n := Some g)\<rparr>" and ?w = "newWriter g False SyncBatch"
  have w: "openWriter g False SyncBatch = Inr ?w" using openWriter_clean [of ps g] data(2) gf by simp
  have le: "noOlder v r" using rg by (simp add: noOlder_def watermarksLe_same)
  have holds: "writerHolds ?w r"
    using newWriter_clean [of ps g False SyncBatch] data(2) rg(2) gf by (auto simp: writerHolds_def durable_def newWriter_def)
  have "settled ?d n g" using d gf by (simp add: settled_def named_def)
  moreover have "yields g r" using rg(2) cleanLog_torn [OF data(2)] gf(1) by (auto simp: yields_def)
  ultimately have kept: "dirHolds ?d (noOlder v)" using settled_holds le by blast
  have same: "dirHolds d (noOlder v)" by (rule settled_holds [OF d v(1)]) (simp add: noOlder_def v(2))
  have cases: "(d', res) = (d, res) \<and> isl res \<or> (d', res) = (?d, res) \<and> isl res \<or>
      openRecovered (configureOptions o0) n r ?w ?d = (d', res)"
    using opened by (auto simp: OpenStore_def cur f(1) r data(1) w Let_def g [symmetric] split: sum.splits if_splits)
  have rec: "case res of Inl _ \<Rightarrow> dirHolds d' (noOlder r) | Inr s \<Rightarrow> storeInv s \<and> watermarksLe r (msCurrent s)"
    if "openRecovered (configureOptions o0) n r ?w ?d = (d', res)"
    by (rule openRecovered_inv [OF _ _ _ _ holds rg(1) that]) (use d in \<open>simp_all add: settled_def named_def\<close>)
  have "dirHolds d' (noOlder v)" if "dirHolds d' (noOlder r)"
    using that le watermarksLe_trans by (auto elim!: dirHolds_mono simp: noOlder_def)
  then show ?thesis
    using cases kept same rec le watermarksLe_trans by (cases res) (auto simp: noOlder_def)
qed

section \<open>Histories of a store\<close>

text \<open>
  What other components and the operating system do to the directory between the calls.
\<close>

definition otherFiles :: "StoreDirectory \<Rightarrow> StoreDirectory \<Rightarrow> StoreDirectory" where
  "otherFiles x d =
     d\<lparr>dirEntries := dirEntries x, dirIsDir := dirIsDir x, dirTable := dirTable x, dirLog := dirLog x,
       dirTemp := dirTemp x, dirOps := dirOps x, dirPlans := dirPlans x\<rparr>"

text \<open>
  The way back from a crash: \<open>Open\<close> until it succeeds. An \<open>Open\<close> that fails may already have cut
  a torn tail off and appended the edit of recovery, and a further crash may follow it.
\<close>

inductive reopens :: "StoreDirectory \<Rightarrow> ManifestStore \<Rightarrow> bool" where
  opened: "OpenStore o' (otherFiles x d) = (d', Inr s) \<Longrightarrow> reopens d s"
| again: "OpenStore o' (otherFiles x d) = (d', Inl e) \<Longrightarrow> reopens (crashDirectory c d') s \<Longrightarrow> reopens d s"

text \<open>
  What may happen to a store: a call, a change of the files that other components own, or a
  crash followed by a reopening.
\<close>

inductive storeStep :: "ManifestStore \<Rightarrow> ManifestStore \<Rightarrow> bool" where
  install: "installEdit e s = (s', r) \<Longrightarrow> storeStep s s'"
| allocate: "AllocateFileNumber ctx s = (s', r) \<Longrightarrow> storeStep s s'"
| table: "InstallTable ctx ins s = (s', r) \<Longrightarrow> storeStep s s'"
| compaction: "InstallCompaction ctx inputs outputs s = (s', r) \<Longrightarrow> storeStep s s'"
| rewrite: "Rewrite s = (s', r) \<Longrightarrow> storeStep s s'"
| close: "closeStore s = (s', r) \<Longrightarrow> storeStep s s'"
| files: "storeStep s (s\<lparr>msDirectory := otherFiles x (msDirectory s), msAfterDurable := hook\<rparr>)"
| reopen: "reopens (crashed c s) s' \<Longrightarrow> storeStep s s'"

inductive storeReached :: "ManifestStore \<Rightarrow> bool" where
  create: "Create o' d = (d', Inr s) \<Longrightarrow> storeReached s"
| step: "storeReached s \<Longrightarrow> storeStep s s' \<Longrightarrow> storeReached s'"

lemma closeStore_inv:
  assumes inv: "storeInv s" and close: "closeStore s = (s', r)"
  shows "storeInv s'" and "msCurrent s' = msCurrent s"
proof -
  have "s' = s \<or> (\<exists>w q e. walClose (msWriter s) = (w, q) \<and> s' = s\<lparr>msClosed := True, msWriter := w, msCloseErr := e\<rparr>)"
  proof (cases "msClosed s")
    case True
    then show ?thesis using close by (simp add: closeStore_def)
  next
    case False
    obtain w q where w: "walClose (msWriter s) = (w, q)" by force
    show ?thesis
    proof (cases q)
      case (Inl e)
      then show ?thesis using close False w by (auto simp: closeStore_def)
    next
      case (Inr u)
      then have "s' = s\<lparr>msClosed := True, msWriter := w\<rparr>" using close False w by (auto simp: closeStore_def)
      then have "s' = s\<lparr>msClosed := True, msWriter := w, msCloseErr := msCloseErr s\<rparr>" by simp
      then show ?thesis using w by blast
    qed
  qed
  moreover have "storeInv (s\<lparr>msClosed := True, msWriter := w, msCloseErr := e\<rparr>)" (is "storeInv ?s")
    if w: "walClose (msWriter s) = (w, q)" for w q e
  proof -
    have same: "lasting (walFile w) P" if "lasting (walFile (msWriter s)) P" for P
      using lasting_file [OF that] walClose_frame [OF w] by simp
    have "pointsTo (leftBy ?s) y (expected s)" if p: "pointsTo (leftBy s) y (expected s)" for y
    proof -
      obtain n f where n: "y = currentOf n" "validNumber n" "dirManifests (leftBy s) n = Some f" "lasting f (expected s)"
        using p unfolding pointsTo_def by blast
      then have "\<exists>f. dirManifests (leftBy ?s) n = Some f \<and> lasting f (expected s)"
        using same by (cases "n = manifestNumber s") auto
      then show ?thesis using n(1,2) unfolding pointsTo_def by blast
    qed
    then have "dirHolds (leftBy ?s) (expected s)" using inv by (simp add: storeInv_def dirHolds_def)
    then show ?thesis using inv walClose_writerHolds [OF w] by (simp add: storeInv_def)
  qed
  ultimately show "storeInv s'" "msCurrent s' = msCurrent s" using inv by auto
qed

lemma settled_other: "settled d n f \<Longrightarrow> settled (otherFiles x d) n f"
  by (simp add: settled_def otherFiles_def named_def)

lemma reopens_inv:
  assumes "reopens d s" and "settled d n f" and "yields f v" and "noOlder v0 v"
  shows "storeInv s \<and> watermarksLe v0 (msCurrent s)"
  using assms
proof (induction arbitrary: n f v rule: reopens.induct)
  case (opened o' x d d' s)
  have "versionGood v" using opened.prems(3) by (simp add: noOlder_def)
  then show ?case
    using OpenStore_inv [OF settled_other [OF opened.prems(1)] opened.prems(2) _ opened.hyps] opened.prems(3) watermarksLe_trans
    by (auto simp: noOlder_def)
next
  case (again o' x d d' e c s)
  have "versionGood v" using again.prems(3) by (simp add: noOlder_def)
  then have "dirHolds d' (noOlder v)"
    using OpenStore_inv [OF settled_other [OF again.prems(1)] again.prems(2) _ again.hyps(1)] by simp
  then obtain k g u where "settled (crashDirectory c d') k g" "yields g u" "noOlder v u" using dirHolds_crash by blast
  then show ?case using again.IH again.prems(3) watermarksLe_trans by (auto simp: noOlder_def)
qed

lemma reopen_inv:
  assumes inv: "storeInv s" and reopen: "reopens (crashed c s) s'"
  shows "storeInv s' \<and> watermarksLe (msCurrent s) (msCurrent s')"
proof -
  have good: "versionGood (msCurrent s)" using inv by (simp add: storeInv_def)
  obtain n f v where n: "settled (crashed c s) n f" "yields f v" "expected s v"
    using dirHolds_crash [of "leftBy s" "expected s" c] inv by (auto simp: storeInv_def crashed_def)
  then have "noOlder (msCurrent s) v" using expected_good [OF good] by (simp add: noOlder_def)
  then show ?thesis by (rule reopens_inv [OF reopen n(1,2)])
qed

lemma files_inv:
  assumes "storeInv s"
  shows "storeInv (s\<lparr>msDirectory := otherFiles x (msDirectory s), msAfterDurable := hook\<rparr>)"
  using assms by (simp add: storeInv_def dirHolds_def pointsTo_def named_def otherFiles_def)

lemma storeStep_inv:
  "storeStep s s' \<Longrightarrow> storeInv s \<Longrightarrow> storeInv s' \<and> watermarksLe (msCurrent s) (msCurrent s')"
proof (induction rule: storeStep.induct)
  case (install e s s' r)
  then show ?case using installs_inv installEdit_installs by blast
next
  case (allocate ctx s s' r)
  then show ?case using installs_inv AllocateFileNumber_installs by blast
next
  case (table ctx ins s s' r)
  then show ?case using installs_inv InstallTable_installs by blast
next
  case (compaction ctx inputs outputs s s' r)
  then show ?case using installs_inv InstallCompaction_installs by blast
next
  case (rewrite s s' r)
  then show ?case using Rewrite_inv [of s s' r] by auto
next
  case (close s s' r)
  then show ?case using closeStore_inv [of s s' r] by auto
next
  case (files s x hook)
  then show ?case using files_inv by simp
next
  case (reopen c s s')
  then show ?case by (rule reopen_inv [rotated])
qed

lemma storeReached_inv: "storeReached s \<Longrightarrow> storeInv s"
  by (induction rule: storeReached.induct) (auto intro: Create_inv dest: storeStep_inv)

lemma storeSteps_inv:
  "storeStep\<^sup>*\<^sup>* s s' \<Longrightarrow> storeInv s \<Longrightarrow> storeInv s' \<and> watermarksLe (msCurrent s) (msCurrent s')"
  by (induction rule: rtranclp_induct) (auto dest: storeStep_inv intro: watermarksLe_trans)

lemma AllocateFileNumber_ok:
  assumes "AllocateFileNumber ctx s = (s', Inr n)" and "storeInv s"
  shows "n = nextFileNumber (msCurrent s) \<and> nextFileNumber (msCurrent s') = n + 1 \<and> n < n + 1"
proof -
  let ?n = "nextFileNumber (msCurrent s)"
  let ?e = "emptyEdit\<lparr>edNextFileNumber := Some (?n + 1)\<rparr>"
  have n: "n = ?n" and bound: "?n \<noteq> 0" "?n \<le> MaxFileNumber" and i: "installLocked ?e s = (s', Inr ())"
    using assms(1) by (auto simp: AllocateFileNumber_def andThen_def Let_def not_less split: sum.splits if_splits prod.splits)
  have e: "applyEdit (msCurrent s) ?e = Inr (msCurrent s')"
    using installLocked_cases [OF i] by auto
  then have "nextFileNumber (msCurrent s') = ?n + 1"
  proof (rule applyEdit_stages)
    fix v1 v2 v3 v4 v5 v6 v7 v8
    assume s: "applyComparator ?e (msCurrent s) = Inr v1" "applyMode ?e v1 = Inr v2" "applyNextFile ?e v2 = Inr v3"
      "applyLastSequence ?e v3 = Inr v4" "applyLevels ?e v4 = Inr v5" "applyFrontier ?e v5 = Inr v6"
      "applyReplicated ?e v6 = Inr v7" "applyMaxMVCC ?e v7 = Inr v8" "applyFinal v8 = Inr (msCurrent s')"
    have "nextFileNumber v3 = ?n + 1" using s(3) by (auto simp: applyNextFile_def split: if_splits)
    moreover have "v4 = v3" "v6 = v5" "v7 = v6" "v8 = v7"
      using s by (auto simp: apply_stages emptyEdit_def split: if_splits)
    moreover have "nextFileNumber v5 = nextFileNumber v4"
      using s(5) by (auto simp: applyLevels_def emptyEdit_def elim!: bindR_okE)
    moreover have "msCurrent s' = v8\<lparr>generation := generation v8 + 1\<rparr>"
      using s(9) by (auto simp: applyFinal_def split: if_splits)
    ultimately show ?thesis by simp
  qed
  moreover have "\<not> (-1 :: u64) \<le> MaxFileNumber"
    by (simp add: MaxFileNumber_def word_order.extremum_unique)
  then have "?n \<noteq> -1" using bound(2) by auto
  then have "?n < ?n + 1" by (rule less_inc)
  ultimately show ?thesis using n by simp
qed

section \<open>A store to evaluate\<close>

definition emptyDirectory :: StoreDirectory where
  "emptyDirectory =
     \<lparr>dirEntries = [], dirIsDir = (\<lambda>_. False), dirTable = (\<lambda>_. TableMissing), dirLog = (\<lambda>_. []),
      dirManifests = (\<lambda>_. None), dirCurrent = None, dirCurrentSynced = True, dirLinked = None,
      dirTemp = False, dirTempSynced = False, dirOps = [], dirPlans = []\<rparr>"

definition exOptions :: StoreOptions where
  "exOptions = \<lparr>optDirectoryOk = True, optMode = ModeStandalone, optHook = False\<rparr>"

lemma initialEdit_standalone:
  "initialEdit ModeStandalone = emptyEdit\<lparr>edComparator := Some ComparatorName, edNextFileNumber := Some 1\<rparr>"
  by (simp add: initialEdit_def mode_defs Let_def)

lemma initialEdit_shape: "validateEditShape (initialEdit ModeStandalone) = Inr ()"
  by (simp add: validateEditShape_def initialEdit_standalone emptyEdit_def)

lemma sortLevels_same:
  assumes "levelsOk ls" "levelsSorted ls"
  shows "sortLevels 0 ls = Inr ls"
proof (rule sortLevels_restores)
  show "\<forall>i<length ls. sortLevel (0 + i) (ls ! i) = ls ! i"
    using sortLevel_restores [OF assms] assms(1) by (auto simp: levelsOk_def)
  show "\<forall>i<length ls. 0 < 0 + i \<longrightarrow> \<not> overlaps (ls ! i)"
    using assms by (auto simp: levelsSorted_def levelsOk_def intro!: level_no_overlap)
qed simp

lemma applyLevels_none:
  assumes "versionOk v" "levels w = levels v" "edDeletedFiles e = []" "edAddedFiles e = []"
  shows "applyLevels e w = Inr w"
  using assms sortLevels_same [of "levels v"] by (simp add: applyLevels_def versionOk_def)

lemma initialEdit_applies:
  "applyEdit initialVersion (initialEdit ModeStandalone) = Inr (initialVersion\<lparr>comparator := ComparatorName, generation := 1\<rparr>)"
proof -
  let ?u = "initialVersion\<lparr>comparator := ComparatorName, nextFileNumber := 1\<rparr>"
  have clone: "cloneVersion initialVersion = Inr initialVersion"
    by (simp add: cloneVersion_eq initialVersion_def liveTables_def)
  have levels: "applyLevels (initialEdit ModeStandalone) ?u = Inr ?u"
    by (rule applyLevels_none [OF versionOk_initial]) (simp_all add: initialEdit_standalone emptyEdit_def)
  have "highestFile ?u = 0" by (simp add: highestFile_def liveTables_def initialVersion_def)
  moreover have "?u\<lparr>generation := 1\<rparr> = initialVersion\<lparr>comparator := ComparatorName, generation := 1\<rparr>"
    by (simp add: initialVersion_def)
  moreover have "edComparator (initialEdit ModeStandalone) = Some ComparatorName"
    "edNextFileNumber (initialEdit ModeStandalone) = Some 1" "edLastSequence (initialEdit ModeStandalone) = None"
    "edReplayFrontier (initialEdit ModeStandalone) = None" "edStorageMode (initialEdit ModeStandalone) = None"
    "edReplicatedAppliedThrough (initialEdit ModeStandalone) = None" "edMaxAppliedMVCC (initialEdit ModeStandalone) = None"
    by (simp_all add: initialEdit_standalone emptyEdit_def)
  ultimately show ?thesis
    using initialEdit_shape clone levels
    by (simp add: applyEdit_def apply_stages maxNextFileNumber_def initial_fields mode_defs)
qed

lemma initialEdit_encodes: "\<exists>bs. EncodeVersionEdit (initialEdit ModeStandalone) = Inr bs \<and> length bs \<le> MaxWalRecord"
proof -
  have "\<exists>bs. EncodeVersionEdit (initialEdit ModeStandalone) = Inr bs \<and> length bs \<le> 100"
    using initialEdit_shape
    by (simp add: EncodeVersionEdit_def initialEdit_standalone emptyEdit_def scalarFields_def
        MaxEditSize_def fieldHeaderSize_def fieldBytes_def)
  moreover have "100 \<le> MaxWalRecord" by (simp add: MaxWalRecord_def)
  ultimately show ?thesis using order_trans by blast
qed

text \<open>A store that nothing fails on.\<close>

definition calm :: "ManifestStore \<Rightarrow> bool" where
  "calm s \<longleftrightarrow> quiet (walFile (msWriter s)) \<and> \<not> walClosed (msWriter s) \<and> \<not> walFailed (msWriter s) \<and>
     \<not> msClosed s \<and> msPoisoned s = None \<and> \<not> msAfterDurable s"

lemma created:
  "\<exists>d s. Create exOptions emptyDirectory = (d, Inr s) \<and> calm s \<and>
    msCurrent s = initialVersion\<lparr>comparator := ComparatorName, generation := 1\<rparr> \<and>
    manifestNumber s = 1 \<and> nextManifest s = 2 \<and> dirManifests (msDirectory s) 2 = None"
proof -
  have opt: "configureOptions exOptions = exOptions" "validateOptions exOptions = Inr ()" "optMode exOptions = ModeStandalone"
    by (simp_all add: configureOptions_def validateOptions_def exOptions_def mode_defs)
  have num: "nextManifestNumber emptyDirectory = Inr 1"
    by (simp add: nextManifestNumber_def emptyDirectory_def maxManifestNumber_def)
  let ?f = "\<lparr>contents = [], fileSynced = 0, fileLinked = False, writePlan = [], syncPlan = []\<rparr>"
  have "openWriter ?f True SyncBatch = Inr (newWriter ?f True SyncBatch)"
    by (rule openWriter_clean [where ps = "[]"]) (simp add: cleanLog_empty)
  then obtain d where d: "openManifestWriter emptyDirectory 1 = (d, Inr (newWriter ?f True SyncBatch))"
      "dirOps d = []" "\<not> dirTemp d" "dirManifests d 2 = None"
    by (simp add: openManifestWriter_def emptyDirectory_def maxManifestNumber_def Let_def)
  obtain bs where bs: "EncodeVersionEdit (initialEdit ModeStandalone) = Inr bs" "length bs \<le> MaxWalRecord"
    using initialEdit_encodes by blast
  obtain w pos where w: "walAppend (newWriter ?f True SyncBatch) bs = (w, Inr pos)"
      "quiet (walFile w)" "\<not> walClosed w" "\<not> walFailed w"
    using walAppend_quiet [of "newWriter ?f True SyncBatch" bs] bs(2) by (auto simp: newWriter_def quiet_def)
  have "validNumber 1" by (simp add: validNumber_def maxManifestNumber_def)
  then obtain d' where "publishCurrent 1 d = (d', False, None)" "dirManifests d' = dirManifests d"
    using d(2,3) parse_manifestFileName [of 1]
    by (simp add: publishCurrent_def syncCurrentDirectory_def takeOp_def Let_def)
  then show ?thesis
    using d(4) opt num d(1) initialEdit_applies bs(1) w
    by (simp add: Create_def createManifest_def emptyDirectory_def newStore_def calm_def)
qed

lemma exists_reached: "\<exists>s. storeReached s"
  using created storeReached.create by blast

section \<open>Allocation\<close>

definition reserveEdit :: "u64 \<Rightarrow> VersionEdit" where
  "reserveEdit n = emptyEdit\<lparr>edNextFileNumber := Some n\<rparr>"

lemma reserve_shape: "validateEditShape (reserveEdit n) = Inr ()"
  by (simp add: validateEditShape_def reserveEdit_def emptyEdit_def)

lemma reserve_encodes: "\<exists>bs. EncodeVersionEdit (reserveEdit n) = Inr bs \<and> length bs \<le> MaxWalRecord"
proof -
  have "\<exists>bs. EncodeVersionEdit (reserveEdit n) = Inr bs \<and> length bs \<le> 100"
    using reserve_shape [of n]
    by (simp add: EncodeVersionEdit_def reserveEdit_def emptyEdit_def scalarFields_def
        MaxEditSize_def fieldHeaderSize_def fieldBytes_def)
  moreover have "100 \<le> MaxWalRecord" by (simp add: MaxWalRecord_def)
  ultimately show ?thesis using order_trans by blast
qed

lemma reserve_applies:
  assumes good: "versionGood v" and gen: "generation v \<noteq> -1" and max: "nextFileNumber v \<le> MaxFileNumber"
  shows "applyEdit v (reserveEdit (nextFileNumber v + 1)) =
    Inr (v\<lparr>nextFileNumber := nextFileNumber v + 1, generation := generation v + 1\<rparr>)"
proof -
  let ?e = "reserveEdit (nextFileNumber v + 1)"
  let ?u = "v\<lparr>nextFileNumber := nextFileNumber v + 1\<rparr>"
  have ok: "versionOk v" and cmp: "comparator v = ComparatorName" using versionGood_comparator [OF good] by auto
  have sc: "scalarsOk v" using ok by (simp add: versionOk_def)
  have "\<forall>t\<in>set (liveTables v). kindsValid t"
    using ok by (auto simp: versionOk_def levelsOk_def tableOk_def liveTables_def in_set_conv_nth [of _ "levels v"])
  then have clone: "cloneVersion v = Inr v" by (simp add: cloneVersion_eq)
  have small: "unat (nextFileNumber v) \<le> 999999999999"
    using max by (simp add: MaxFileNumber_def word_le_nat_alt)
  have "nextFileNumber v \<noteq> -1" using max by (auto simp: MaxFileNumber_def word_order.extremum_unique)
  then have n: "unat (nextFileNumber v + 1) = unat (nextFileNumber v) + 1" by (simp add: unat_inc)
  have step: "nextFileNumber v \<le> nextFileNumber v + 1" "nextFileNumber v + 1 \<noteq> 0" "nextFileNumber v + 1 \<le> maxNextFileNumber"
    using n small by (auto simp: word_le_nat_alt maxNextFileNumber_def)
  have levels: "applyLevels ?e ?u = Inr ?u"
    by (rule applyLevels_none [OF ok]) (simp_all add: reserveEdit_def emptyEdit_def)
  have "0 < nextFileNumber v" using sc by (auto simp: scalarsOk_def word_le_nat_alt word_less_nat_alt)
  then have "highestFile v < nextFileNumber v" using ok by (intro highestFile_below) (auto simp: versionOk_def)
  then have high: "highestFile ?u < nextFileNumber v + 1"
    using step(1) by (simp add: highestFile_def liveTables_def)
  have fields: "edComparator ?e = None" "edNextFileNumber ?e = Some (nextFileNumber v + 1)" "edLastSequence ?e = None"
    "edReplayFrontier ?e = None" "edStorageMode ?e = None" "edReplicatedAppliedThrough ?e = None" "edMaxAppliedMVCC ?e = None"
    by (simp_all add: reserveEdit_def emptyEdit_def)
  have modes: "\<not> (mode v = ModeStandalone \<and> haveReplicatedApplied v)" "\<not> ((mode v = ModeReplicated \<or> mode v = ModeReplicatedMVCC) \<and> haveFrontier v)"
    "\<not> (mode v \<noteq> ModeReplicatedMVCC \<and> haveMaxAppliedMVCC v)"
    using sc by (auto simp: scalarsOk_def mode_defs split: if_splits)
  have "applyComparator ?e v = Inr v" "applyMode ?e v = Inr v" "applyNextFile ?e v = Inr ?u"
    "applyLastSequence ?e ?u = Inr ?u" "applyFrontier ?e ?u = Inr ?u" "applyReplicated ?e ?u = Inr ?u"
    "applyMaxMVCC ?e ?u = Inr ?u"
    using fields step cmp by (simp_all add: apply_stages not_less)
  moreover have "applyFinal ?u = Inr (?u\<lparr>generation := generation v + 1\<rparr>)"
    using modes high by (simp add: applyFinal_def not_le)
  ultimately show ?thesis
    using reserve_shape clone gen levels by (simp add: applyEdit_def)
qed

lemma allocate_calm:
  assumes inv: "storeInv s" and calm: "calm s" and gen: "generation (msCurrent s) \<noteq> -1"
    and max: "nextFileNumber (msCurrent s) \<le> MaxFileNumber"
  shows "\<exists>s'. AllocateFileNumber LiveContext s = (s', Inr (nextFileNumber (msCurrent s))) \<and> calm s' \<and>
    generation (msCurrent s') = generation (msCurrent s) + 1"
proof -
  let ?n = "nextFileNumber (msCurrent s)"
  let ?e = "emptyEdit\<lparr>edNextFileNumber := Some (?n + 1)\<rparr>"
  have good: "versionGood (msCurrent s)" using inv by (simp add: storeInv_def)
  obtain c where c: "applyEdit (msCurrent s) ?e = Inr c" "generation c = generation (msCurrent s) + 1"
    using reserve_applies [OF good gen max] by (auto simp: reserveEdit_def)
  obtain bs where bs: "EncodeVersionEdit ?e = Inr bs" "length bs \<le> MaxWalRecord"
    using reserve_encodes [of "?n + 1"] by (auto simp: reserveEdit_def)
  obtain w pos where w: "walAppend (msWriter s) bs = (w, Inr pos)" "quiet (walFile w)" "\<not> walClosed w" "\<not> walFailed w"
    using walAppend_quiet [of "msWriter s" bs] calm bs(2) by (auto simp: calm_def)
  have "edReplicatedAppliedThrough ?e = None" by (simp add: emptyEdit_def)
  then have "\<exists>s'. installLocked ?e s = (s', Inr ()) \<and> calm s' \<and> msCurrent s' = c"
    using calm c bs(1) w
    by (cases "haveLastSequence c") (simp_all add: installLocked_def calm_def Let_def split: prod.splits)
  then obtain s' where s': "installLocked ?e s = (s', Inr ())" "calm s'" "msCurrent s' = c" by blast
  have "?n \<noteq> 0"
    using versionGood_comparator(2) [OF good] by (auto simp: versionOk_def scalarsOk_def)
  then show ?thesis
    using calm max s' c(2)
    by (intro exI [of _ s']) (simp add: AllocateFileNumber_def checkContext_def calm_def not_less Let_def)
qed

section \<open>Claims\<close>

text \<open>
  C24. The manifest is a faithful record of the store. After any history of installations,
  allocations, flushes, compactions, rewrites, failures of the file system, crashes between
  calls, failed and successful reopenings, the directory that a crash leaves, which keeps what
  was synced and an arbitrary part of what was not, has a \<open>CURRENT\<close> that names an existing
  manifest; recovering it succeeds, and yields the version in memory (its generation counted
  from the last rewrite). Only a store that a failure has stopped may yield, instead, the
  version that one accepted edit leads to from there: the edit whose append failed.
\<close>

theorem manifest_recovers:
  assumes "storeReached s"
  shows "\<exists>number f v result.
    readCurrent (crashed c s) = Inr number \<and> dirManifests (crashed c s) number = Some f \<and>
    recoverManifest (contents f) = Inr (v, result) \<and>
    (sameVersion v (msCurrent s) \<or>
     msPoisoned s \<noteq> None \<and> (\<exists>edit w. applyEdit (msCurrent s) edit = Inr w \<and> sameVersion v w))"
proof -
  have inv: "storeInv s" by (rule storeReached_inv [OF assms])
  have good: "versionGood (msCurrent s)" using inv by (simp add: storeInv_def)
  obtain n f v where n: "settled (crashed c s) n f" "yields f v" "expected s v"
    using dirHolds_crash [of "leftBy s" "expected s" c] inv by (auto simp: storeInv_def crashed_def)
  have "comparator v = ComparatorName" using expected_good [OF good n(3)] versionGood_comparator(1) by blast
  moreover obtain ps where "tornLog ps (contents f)" "replays ps v" using n(2) by (auto simp: yields_def)
  ultimately obtain r res where r: "recoverManifest (contents f) = Inr (r, res)" "sameVersion r v"
    using recoverManifest_log [of ps "contents f" v] by auto
  have "readCurrent (crashed c s) = Inr n" "dirManifests (crashed c s) n = Some f"
    using n(1) readCurrent_name by (auto simp: settled_def named_def currentOf_def)
  then show ?thesis using n(3) r unfolding expected_def by blast
qed

text \<open>The worst case: nothing unsynced survives.\<close>

definition powerLoss :: Crash where
  "powerLoss = \<lparr>crKeep = (\<lambda>_. 0), crLost = (\<lambda>_. True), crRevert = True, crCurrent = None\<rparr>"

theorem manifest_recovers_witness:
  "\<exists>s number f v result. storeReached s \<and> readCurrent (crashed powerLoss s) = Inr number \<and>
    dirManifests (crashed powerLoss s) number = Some f \<and> recoverManifest (contents f) = Inr (v, result)"
  using exists_reached manifest_recovers by metis

text \<open>
  C25. No file number is handed out twice. A number that \<open>AllocateFileNumber\<close> returned is below
  every number it returns later, whatever happens in between: other calls, rewrites, failures,
  crashes that keep what was synced, failed and successful reopenings.
\<close>

theorem file_numbers_unique:
  assumes "storeReached s" and "AllocateFileNumber ctx s = (s1, Inr a)" and "storeStep\<^sup>*\<^sup>* s1 s2"
    and "AllocateFileNumber ctx' s2 = (s3, Inr b)"
  shows "a < b"
proof -
  have inv: "storeInv s" by (rule storeReached_inv [OF assms(1)])
  have inv1: "storeInv s1" using storeStep_inv [OF storeStep.allocate [OF assms(2)] inv] by blast
  have steps: "storeInv s2 \<and> watermarksLe (msCurrent s1) (msCurrent s2)" by (rule storeSteps_inv [OF assms(3) inv1])
  have "a < nextFileNumber (msCurrent s1)" using AllocateFileNumber_ok [OF assms(2) inv] by metis
  also have "\<dots> \<le> nextFileNumber (msCurrent s2)" using steps by (simp add: watermarksLe_def)
  also have "\<dots> = b" using AllocateFileNumber_ok [OF assms(4)] steps by simp
  finally show ?thesis .
qed

theorem file_numbers_unique_witness:
  "\<exists>s s1 s2 a b. storeReached s \<and> AllocateFileNumber LiveContext s = (s1, Inr a) \<and>
    AllocateFileNumber LiveContext s1 = (s2, Inr b) \<and> a < b"
proof -
  obtain d s where s: "Create exOptions emptyDirectory = (d, Inr s)" "calm s"
      "msCurrent s = initialVersion\<lparr>comparator := ComparatorName, generation := 1\<rparr>"
    using created by metis
  have inv: "storeInv s" by (rule Create_inv [OF s(1)])
  have v: "nextFileNumber (msCurrent s) = 1" "generation (msCurrent s) = 1" by (simp_all add: s(3) initialVersion_def)
  have max: "(1 :: u64) \<le> MaxFileNumber" "(2 :: u64) \<le> MaxFileNumber" by (simp_all add: MaxFileNumber_def)
  obtain s1 where a: "AllocateFileNumber LiveContext s = (s1, Inr 1)" "calm s1" "generation (msCurrent s1) = 2"
    using allocate_calm [OF inv s(2)] v max by auto
  have inv1: "storeInv s1" using storeStep_inv [OF storeStep.allocate [OF a(1)] inv] by blast
  have step: "nextFileNumber (msCurrent s1) = 2" using AllocateFileNumber_ok [OF a(1) inv] by simp
  obtain s2 b where b: "AllocateFileNumber LiveContext s1 = (s2, Inr b)"
    using allocate_calm [OF inv1 a(2)] step max a(3) by auto
  show ?thesis
    using storeReached.create [OF s(1)] a(1) b file_numbers_unique [OF storeReached.create [OF s(1)] a(1) rtranclp.rtrancl_refl b]
    by blast
qed

text \<open>
  C26. A rewrite that fails once its file exists cannot be retried. When the snapshot can be
  built and encoded, the next manifest number is free, and \<open>Rewrite\<close> returns an error without
  having switched manifests or stopped the store, the number is still the next one and its
  file is left behind; every further \<open>Rewrite\<close> of the running store is refused as a file number
  collision and changes nothing.
\<close>

theorem failed_rewrite_blocks_retries:
  assumes "storeReached s" and "Rewrite s = (s1, Inl err)" and "msPoisoned s1 = None"
    and "manifestNumber s1 = manifestNumber s" and "\<not> msClosed s"
    and "nextManifest s \<noteq> 0" and "nextManifest s \<le> maxManifestNumber"
    and "dirManifests (msDirectory s) (nextManifest s) = None"
    and "snapshotEdit (msCurrent s) = Inr edit" and "EncodeVersionEdit edit = Inr bs"
  shows "Rewrite s1 = (s1, Inl (EditError ErrFileNumberCollision))"
proof -
  let ?n = "nextManifest s"
  have inv: "storeInv s" by (rule storeReached_inv [OF assms(1)])
  have neq: "?n \<noteq> manifestNumber s" using inv assms(8) by (auto simp: storeInv_def)
  have run: "msPoisoned s = None"
    using assms(2,3,5) by (cases "msPoisoned s") (auto simp: Rewrite_def)
  obtain d w0 where o: "openManifestWriter (msDirectory s) ?n = (d, Inr w0)"
    using openManifestWriter_free [OF _ assms(8)] assms(6,7) by (auto simp: validNumber_def)
  obtain w ok where a: "walAppend w0 bs = (w, ok)" by force
  have left: "\<exists>d' f. s1 = s\<lparr>msDirectory := d'\<rparr> \<and> dirManifests d' ?n = Some f"
    if "abandonRewrite ?n w e (s\<lparr>msDirectory := d\<rparr>) = (s1, Inl err)" for e
    using that closeWriter_directory [of ?n w d e] by (fastforce simp: abandonRewrite_def split: prod.splits)
  have "\<exists>d' f. s1 = s\<lparr>msDirectory := d'\<rparr> \<and> dirManifests d' ?n = Some f"
    if "switchManifest ?n bs w (s\<lparr>msDirectory := d\<rparr>) = (s1, Inl err)"
    using that assms(3,4) neq closeWriter_directory [of ?n w]
    by (fastforce simp: switchManifest_def Let_def split: prod.splits option.splits if_splits)
  then obtain d' f where s1: "s1 = s\<lparr>msDirectory := d'\<rparr>" "dirManifests d' ?n = Some f"
    using assms(2) left Rewrite_body [OF assms(5) run assms(6,7,9,10) o a] by (auto split: sum.splits prod.splits)
  have "openManifestWriter d' ?n = (d', Inl (EditError ErrFileNumberCollision))"
    using s1(2) assms(6,7) by (simp add: openManifestWriter_def not_less)
  then show ?thesis
    using s1(1) run assms(5-7,9,10) by (simp add: Rewrite_def Let_def not_less)
qed

lemma walAppend_full:
  assumes "length p \<le> MaxWalRecord"
  shows "\<exists>w e. walAppend (newWriter \<lparr>contents = [], fileSynced = 0, fileLinked = False, writePlan = [(0, True)], syncPlan = []\<rparr> True SyncBatch) p = (w, Inl e)"
proof -
  let ?w = "newWriter \<lparr>contents = [], fileSynced = 0, fileLinked = False, writePlan = [(0, True)], syncPlan = []\<rparr> True SyncBatch"
  have pad: "padToBlock ?w = (?w, Inr ())" by (simp add: padToBlock_def blockRemaining_def newWriter_def BlockSize_def HeaderSize_def)
  have "makeHeader b k \<noteq> []" for b k by (simp add: makeHeader_def Let_def)
  then have fails: "\<exists>w e. writeAll ?w (makeHeader b k) = (w, Inl e)" for b k
    by (subst writeAll.simps) (simp add: fileWrite_def newWriter_def poison_def)
  let ?n = "fragmentLength (walOffset ?w) p"
  obtain w e where "writeAll ?w (makeHeader (take ?n p) (chooseFragmentKind True (?n = length p))) = (w, Inl e)"
    using fails by blast
  then have "appendLoop ?w True p = (w, Inl e)"
    by (simp add: appendLoop.simps [of ?w True p] pad Let_def)
  then show ?thesis using assms by (auto simp: walAppend_def newWriter_def not_less)
qed

theorem failed_rewrite_blocks_retries_witness:
  "\<exists>s s1 err. storeReached s \<and> Rewrite s = (s1, Inl err) \<and> msPoisoned s1 = None \<and>
    Rewrite s1 = (s1, Inl (EditError ErrFileNumberCollision))"
proof -
  obtain d s0 where c: "Create exOptions emptyDirectory = (d, Inr s0)" "calm s0"
      "msCurrent s0 = initialVersion\<lparr>comparator := ComparatorName, generation := 1\<rparr>"
      "manifestNumber s0 = 1" "nextManifest s0 = 2" "dirManifests (msDirectory s0) 2 = None"
    using created by metis
  let ?d = "msDirectory s0"
  define s where s: "s = s0\<lparr>msDirectory := otherFiles (?d\<lparr>dirPlans := [([(0, True)], [])]\<rparr>) ?d, msAfterDurable := False\<rparr>"
  have reached: "storeReached s"
    unfolding s by (rule storeReached.step [OF storeReached.create [OF c(1)] storeStep.files])
  have s_fields: "msCurrent s = msCurrent s0" "manifestNumber s = 1" "nextManifest s = 2"
    "dirManifests (msDirectory s) 2 = None" "dirPlans (msDirectory s) = [([(0, True)], [])]"
    "\<not> msClosed s" "msPoisoned s = None"
    using c by (simp_all add: s calm_def otherFiles_def)
  have v: "versionReached (msCurrent s)"
    using storeReached_inv [OF reached] by (simp add: storeInv_def versionGood_def)
  have snap: "snapshotEdit (msCurrent s) = Inr (initialEdit ModeStandalone)"
    using snapshotEdit_eq [OF v] unfolding s_fields(1) c(3)
    by (simp add: initialEdit_def snapshotRecord_def initialVersion_def liveTables_def historyCovered_def
        emptyEdit_def mode_defs)
  obtain bs where bs: "EncodeVersionEdit (initialEdit ModeStandalone) = Inr bs" "length bs \<le> MaxWalRecord"
    using initialEdit_encodes by blast
  let ?f = "\<lparr>contents = [], fileSynced = 0, fileLinked = False, writePlan = [(0, True)], syncPlan = []\<rparr>"
  have "openWriter ?f True SyncBatch = Inr (newWriter ?f True SyncBatch)"
    by (rule openWriter_clean [where ps = "[]"]) (simp add: cleanLog_empty)
  then obtain d1 where o: "openManifestWriter (msDirectory s) (nextManifest s) = (d1, Inr (newWriter ?f True SyncBatch))"
    using s_fields by (simp add: openManifestWriter_def maxManifestNumber_def Let_def)
  obtain w e where a: "walAppend (newWriter ?f True SyncBatch) bs = (w, Inl e)" using walAppend_full [OF bs(2)] by blast
  have num: "nextManifest s \<noteq> 0" "nextManifest s \<le> maxManifestNumber" by (simp_all add: s_fields maxManifestNumber_def)
  have "Rewrite s = abandonRewrite (nextManifest s) w (StoreWal e) (s\<lparr>msDirectory := d1\<rparr>)"
    using Rewrite_body [OF s_fields(6,7) num snap bs(1) o a] by simp
  then obtain s1 err where r: "Rewrite s = (s1, Inl err)" "msPoisoned s1 = None" "manifestNumber s1 = manifestNumber s"
    using s_fields(7) by (auto simp: abandonRewrite_def split: prod.splits)
  have free: "dirManifests (msDirectory s) (nextManifest s) = None" using s_fields by simp
  show ?thesis
    using reached r failed_rewrite_blocks_retries [OF reached r s_fields(6) num free snap bs(1)] by blast
qed

end
