(* ===== verification/Mem_Table.thy ===== *)
theory Mem_Table
  imports Sorted_Entries Write_Batch
begin

text \<open>
  \<open>storage/memtable\<close>: the skip list that holds recent writes. Nodes live in a list and are
  addressed by their position, the head at 0, so that every link that \<open>insertLocked\<close> changes is
  an update of that list. The loops that follow links are partial functions: a list with a
  cycle makes them return \<open>None\<close>. The random source is a function of the number of draws. An assertion that fails is the error
  \<open>MemPanic\<close> with the name of the invariant; the argument \<open>expensive\<close> is the global switch of the
  whole-table checks. A method runs under the table's lock from its first to its last access,
  so it is one step; the slices that go in and out are copied, so they are values.
\<close>

section \<open>Tables\<close>

datatype MemError =
    ErrFrozen
  | ErrNotFrozen
  | ErrDeleteHasValue
  | ErrInvalidRange
  | MemEmptyBatch
  | MemSequenceOverflow
  | MutationKey nat key_error
  | MutationDeleteHasValue nat
  | MemPanic string

definition maxHeight :: nat where "maxHeight = 20"
definition promotionMask :: u64 where "promotionMask = 3"
definition wordBytes :: u64 where "wordBytes = 8"
definition tableMetadataBytes :: u64 where "tableMetadataBytes = 12 * wordBytes"
definition nodeMetadataBytes :: u64 where "nodeMetadataBytes = 12 * wordBytes"
definition emptyTableBytes :: u64 where
  "emptyTableBytes = tableMetadataBytes + nodeMetadataBytes + word_of_nat maxHeight * wordBytes"

record SkipNode =
  skKey :: InternalKey
  skValue :: bytes
  skCap :: nat
  skNext :: "nat option list"
  skKeyBytes :: u64

record MemTable =
  mtNodes :: "SkipNode list"
  mtRandom :: "nat \<Rightarrow> u64"
  mtDraws :: nat
  mtSize :: u64
  mtCount :: nat
  mtHeight :: nat
  mtFrozen :: bool

definition newWithRandom :: "(nat \<Rightarrow> u64) \<Rightarrow> MemTable" where
  "newWithRandom random =
     \<lparr>mtNodes = [\<lparr>skKey = InternalKey [] 0 0, skValue = [], skCap = 0, skNext = replicate maxHeight None, skKeyBytes = 0\<rparr>],
      mtRandom = random, mtDraws = 0, mtSize = emptyTableBytes, mtCount = 0, mtHeight = 1, mtFrozen = False\<rparr>"

definition saturatingAdd :: "u64 \<Rightarrow> u64 \<Rightarrow> u64" where
  "saturatingAdd left right = (if -1 - left < right then -1 else left + right)"

definition nodeSize :: "SkipNode \<Rightarrow> u64" where
  "nodeSize n =
     saturatingAdd (saturatingAdd (saturatingAdd nodeMetadataBytes (skKeyBytes n)) (word_of_nat (skCap n)))
       (word_of_nat (length (skNext n)) * wordBytes)"

section \<open>Searching\<close>

definition nextAt :: "SkipNode list \<Rightarrow> nat \<Rightarrow> nat \<Rightarrow> nat option" where
  "nextAt ns a level = skNext (ns ! a) ! level"

partial_function (option) skipWalk :: "SkipNode list \<Rightarrow> nat \<Rightarrow> InternalKey \<Rightarrow> nat \<Rightarrow> nat option" where
  [code]: "skipWalk ns level key current =
     (case nextAt ns current level of
        None \<Rightarrow> Some current
      | Some b \<Rightarrow>
          if compareInternal (skKey (ns ! b)) key < 0 then skipWalk ns level key b else Some current)"

primrec searchLevels :: "SkipNode list \<Rightarrow> InternalKey \<Rightarrow> nat \<Rightarrow> nat \<Rightarrow> nat option list \<Rightarrow> (nat \<times> nat option list) option" where
  "searchLevels ns key 0 current preds = Some (current, preds)"
| "searchLevels ns key (Suc level) current preds =
     Option.bind (skipWalk ns level key current) (\<lambda>current.
       searchLevels ns key level current (preds[level := Some current]))"

definition lowerBoundLocked :: "MemTable \<Rightarrow> InternalKey \<Rightarrow> (nat option \<times> nat option list) option" where
  "lowerBoundLocked m key =
     Option.bind (searchLevels (mtNodes m) key (mtHeight m) 0 (replicate maxHeight None)) (\<lambda>(current, preds).
       Some (nextAt (mtNodes m) current 0, preds))"

section \<open>Inserting\<close>

definition replaceValueLocked :: "nat \<Rightarrow> bytes \<Rightarrow> MemTable \<Rightarrow> MemTable" where
  "replaceValueLocked a value m =
     (let n = mtNodes m ! a in
      if length value \<le> skCap n then m\<lparr>mtNodes := (mtNodes m)[a := n\<lparr>skValue := value\<rparr>]\<rparr>
      else m\<lparr>mtNodes := (mtNodes m)[a := n\<lparr>skValue := value, skCap := length value\<rparr>],
             mtSize := saturatingAdd (mtSize m) (word_of_nat (length value) - word_of_nat (skCap n))\<rparr>)"

function heightLoop :: "nat \<Rightarrow> u64 \<Rightarrow> nat" where
  "heightLoop height v =
     (if height < maxHeight \<and> v AND promotionMask = 0 then heightLoop (height + 1) (drop_bit 2 v) else height)"
  by pat_completeness auto
termination
  by (relation "measure (\<lambda>(height, v). maxHeight - height)") auto

declare heightLoop.simps [simp del]

definition randomHeight :: "MemTable \<Rightarrow> MemTable \<times> nat" where
  "randomHeight m = (m\<lparr>mtDraws := mtDraws m + 1\<rparr>, heightLoop 1 (mtRandom m (mtDraws m)))"

definition cloneKey :: "InternalKey \<Rightarrow> MemError + (InternalKey \<times> u64)" where
  "cloneKey key =
     (case newInternalKey (userKey key) (sequence key) (kind key) of
        Inl e \<Rightarrow> Inl (MemPanic ''STORAGE-25'')
      | Inr cloned \<Rightarrow> Inr (cloned, word_of_nat (length (userKey key))))"

definition setLink :: "nat \<Rightarrow> nat \<Rightarrow> nat option \<Rightarrow> SkipNode list \<Rightarrow> SkipNode list" where
  "setLink a level b ns = ns[a := (ns ! a)\<lparr>skNext := (skNext (ns ! a))[level := b]\<rparr>]"

fun linkLevels :: "nat \<Rightarrow> nat option list \<Rightarrow> nat list \<Rightarrow> SkipNode list \<Rightarrow> MemError + SkipNode list" where
  "linkLevels n preds [] ns = Inr ns"
| "linkLevels n preds (level # levels) ns =
     (if level \<ge> length preds then Inl (MemPanic ''STORAGE-23'')
      else case preds ! level of
        None \<Rightarrow> Inl (MemPanic ''nil'')
      | Some p \<Rightarrow>
          linkLevels n preds levels (setLink p level (Some n) (setLink n level (nextAt ns p level) ns)))"

definition insertNode :: "InternalKey \<Rightarrow> bytes \<Rightarrow> nat option list \<Rightarrow> MemTable \<Rightarrow> MemTable \<times> (MemError + unit)" where
  "insertNode key value preds m0 =
     (case cloneKey key of
        Inl e \<Rightarrow> (m0, Inl e)
      | Inr (ownedKey, keyBytes) \<Rightarrow>
          let (m, height) = randomHeight m0;
              preds = foldl (\<lambda>ps level. ps[level := Some 0]) preds [mtHeight m..<height];
              m = m\<lparr>mtHeight := max (mtHeight m) height\<rparr>;
              n = \<lparr>skKey = ownedKey, skValue = value, skCap = length value, skNext = replicate height None,
                   skKeyBytes = keyBytes\<rparr>
          in case linkLevels (length (mtNodes m)) preds [0..<height] (mtNodes m @ [n]) of
               Inl e \<Rightarrow> (m, Inl e)
             | Inr ns \<Rightarrow>
                 (m\<lparr>mtNodes := ns, mtCount := mtCount m + 1, mtSize := saturatingAdd (mtSize m) (nodeSize n)\<rparr>, Inr ()))"

definition insertLocked :: "InternalKey \<Rightarrow> bytes \<Rightarrow> MemTable \<Rightarrow> (MemTable \<times> (MemError + unit)) option" where
  "insertLocked key value m =
     Option.bind (lowerBoundLocked m key) (\<lambda>(candidate, preds).
       case candidate of
         Some a \<Rightarrow>
           if compareInternal (skKey (mtNodes m ! a)) key = 0 then Some (replaceValueLocked a value m, Inr ())
           else Some (insertNode key value preds m)
       | None \<Rightarrow> Some (insertNode key value preds m))"

section \<open>Validation\<close>

partial_function (option) validateZero ::
  "SkipNode list \<Rightarrow> nat list \<Rightarrow> nat \<Rightarrow> nat \<Rightarrow> u64 \<Rightarrow> nat option \<Rightarrow> nat option \<Rightarrow> (MemError + (nat list \<times> nat \<times> nat \<times> u64)) option" where
  [code]: "validateZero ns levelZero count observed expectedSize previous current =
     (case current of
        None \<Rightarrow> Some (Inr (levelZero, count, observed, expectedSize))
      | Some a \<Rightarrow>
          if a \<in> set levelZero then Some (Inl (MemPanic ''STORAGE-23''))
          else if \<not> (1 \<le> length (skNext (ns ! a)) \<and> length (skNext (ns ! a)) \<le> maxHeight)
          then Some (Inl (MemPanic ''STORAGE-23''))
          else if skKeyBytes (ns ! a) \<noteq> word_of_nat (length (userKey (skKey (ns ! a))))
          then Some (Inl (MemPanic ''STORAGE-29''))
          else if (case previous of None \<Rightarrow> False | Some p \<Rightarrow> \<not> compareInternal (skKey (ns ! p)) (skKey (ns ! a)) < 0)
          then Some (Inl (MemPanic ''STORAGE-24''))
          else validateZero ns (a # levelZero) (count + 1) (max observed (length (skNext (ns ! a))))
                 (saturatingAdd expectedSize (nodeSize (ns ! a))) (Some a) (nextAt ns a 0))"

partial_function (option) validateLevel ::
  "SkipNode list \<Rightarrow> nat list \<Rightarrow> nat \<Rightarrow> nat list \<Rightarrow> nat option \<Rightarrow> nat option \<Rightarrow> (MemError + unit) option" where
  [code]: "validateLevel ns levelZero level seen previous current =
     (case current of
        None \<Rightarrow> Some (Inr ())
      | Some a \<Rightarrow>
          if a \<in> set seen then Some (Inl (MemPanic ''STORAGE-23''))
          else if a \<notin> set levelZero then Some (Inl (MemPanic ''STORAGE-23''))
          else if \<not> level < length (skNext (ns ! a)) then Some (Inl (MemPanic ''STORAGE-23''))
          else if (case previous of None \<Rightarrow> False | Some p \<Rightarrow> \<not> compareInternal (skKey (ns ! p)) (skKey (ns ! a)) < 0)
          then Some (Inl (MemPanic ''STORAGE-23''))
          else validateLevel ns levelZero level (a # seen) (Some a) (nextAt ns a level))"

fun validateLevels :: "SkipNode list \<Rightarrow> nat list \<Rightarrow> nat list \<Rightarrow> (MemError + unit) option" where
  "validateLevels ns levelZero [] = Some (Inr ())"
| "validateLevels ns levelZero (level # levels) =
     Option.bind (validateLevel ns levelZero level [] None (nextAt ns 0 level)) (\<lambda>r.
       case r of Inl e \<Rightarrow> Some (Inl e) | Inr _ \<Rightarrow> validateLevels ns levelZero levels)"

definition validateLocked :: "MemTable \<Rightarrow> (MemError + unit) option" where
  "validateLocked m =
     (if mtNodes m = [] then Some (Inl (MemPanic ''STORAGE-23''))
      else if length (skNext (mtNodes m ! 0)) \<noteq> maxHeight then Some (Inl (MemPanic ''STORAGE-23''))
      else if \<not> (1 \<le> mtHeight m \<and> mtHeight m \<le> maxHeight) then Some (Inl (MemPanic ''STORAGE-23''))
      else
        Option.bind (validateZero (mtNodes m) [] 0 1 emptyTableBytes None (nextAt (mtNodes m) 0 0)) (\<lambda>r.
          case r of
            Inl e \<Rightarrow> Some (Inl e)
          | Inr (levelZero, count, observed, expectedSize) \<Rightarrow>
              if count \<noteq> mtCount m then Some (Inl (MemPanic ''STORAGE-23''))
              else if observed \<noteq> mtHeight m then Some (Inl (MemPanic ''STORAGE-23''))
              else if expectedSize \<noteq> mtSize m then Some (Inl (MemPanic ''STORAGE-29''))
              else validateLevels (mtNodes m) levelZero [1..<maxHeight]))"

text \<open>A change that succeeded, followed by \<open>validateIfEnabledLocked\<close>.\<close>

definition andValidate :: "bool \<Rightarrow> (MemTable \<times> (MemError + unit)) option \<Rightarrow> (MemTable \<times> (MemError + unit)) option" where
  "andValidate expensive change =
     Option.bind change (\<lambda>(m, r).
       case r of
         Inl e \<Rightarrow> Some (m, Inl e)
       | Inr _ \<Rightarrow> if expensive then Option.bind (validateLocked m) (\<lambda>v. Some (m, v)) else Some (m, Inr ()))"

section \<open>Writing\<close>

definition memInsert :: "bool \<Rightarrow> InternalKey \<Rightarrow> bytes \<Rightarrow> MemTable \<Rightarrow> (MemTable \<times> (MemError + unit)) option" where
  "memInsert expensive key value m =
     (if mtFrozen m then Some (m, Inl ErrFrozen)
      else if \<not> carriesValue (kind key) \<and> value \<noteq> [] then Some (m, Inl ErrDeleteHasValue)
      else andValidate expensive (insertLocked key value m))"

fun insertAll :: "KeyedEntry list \<Rightarrow> MemTable \<Rightarrow> (MemTable \<times> (MemError + unit)) option" where
  "insertAll [] m = Some (m, Inr ())"
| "insertAll (e # es) m =
     Option.bind (insertLocked (entryKey e) (entryValue e) m) (\<lambda>(m, r).
       case r of Inl err \<Rightarrow> Some (m, Inl err) | Inr _ \<Rightarrow> insertAll es m)"

text \<open>The staging loops of \<open>ApplyBatch\<close> and \<open>ApplyVersion\<close>.\<close>

fun stageBatch :: "nat \<Rightarrow> u64 \<Rightarrow> Mutation list \<Rightarrow> MemError + KeyedEntry list" where
  "stageBatch index first [] = Inr []"
| "stageBatch index first (mu # mus) =
     (case newInternalKey (mKey mu) (first + word_of_nat index) (mKind mu) of
        Inl e \<Rightarrow> Inl (MutationKey index e)
      | Inr key \<Rightarrow>
          if \<not> carriesValue (mKind mu) \<and> mValue mu \<noteq> [] then Inl (MutationDeleteHasValue index)
          else bindR (stageBatch (index + 1) first mus) (\<lambda>es. Inr (KeyedEntry key (mValue mu) # es)))"

fun stageVersion :: "nat \<Rightarrow> u64 \<Rightarrow> Mutation list \<Rightarrow> MemError + KeyedEntry list" where
  "stageVersion index version [] = Inr []"
| "stageVersion index version (mu # mus) =
     (case newInternalKey (mKey mu) version (mKind mu) of
        Inl e \<Rightarrow> Inl (MutationKey index e)
      | Inr key \<Rightarrow>
          if \<not> carriesValue (mKind mu) \<and> mValue mu \<noteq> [] then Inl (MutationDeleteHasValue index)
          else bindR (stageVersion (index + 1) version mus) (\<lambda>es. Inr (KeyedEntry key (mValue mu) # es)))"

definition applyStaged :: "bool \<Rightarrow> KeyedEntry list \<Rightarrow> MemTable \<Rightarrow> (MemTable \<times> (MemError + unit)) option" where
  "applyStaged expensive staged m =
     (if mtFrozen m then Some (m, Inl ErrFrozen) else andValidate expensive (insertAll staged m))"

definition ApplyBatch :: "bool \<Rightarrow> WriteBatch \<Rightarrow> MemTable \<Rightarrow> (MemTable \<times> (MemError + unit)) option" where
  "ApplyBatch expensive batch m =
     (if mutations batch = [] then Some (m, Inl MemEmptyBatch)
      else if firstSequence batch > -1 - (word_of_nat (length (mutations batch)) - 1)
      then Some (m, Inl MemSequenceOverflow)
      else case stageBatch 0 (firstSequence batch) (mutations batch) of
        Inl e \<Rightarrow> Some (m, Inl e)
      | Inr staged \<Rightarrow> applyStaged expensive staged m)"

definition ApplyVersion :: "bool \<Rightarrow> u64 \<Rightarrow> Mutation list \<Rightarrow> MemTable \<Rightarrow> (MemTable \<times> (MemError + unit)) option" where
  "ApplyVersion expensive version mus m =
     (if mus = [] then Some (m, Inl MemEmptyBatch)
      else case stageVersion 0 version mus of
        Inl e \<Rightarrow> Some (m, Inl e)
      | Inr staged \<Rightarrow> applyStaged expensive staged m)"

definition Freeze :: "bool \<Rightarrow> MemTable \<Rightarrow> (MemTable \<times> (MemError + unit)) option" where
  "Freeze expensive m = andValidate expensive (Some (m\<lparr>mtFrozen := True\<rparr>, Inr ()))"

definition ReachedSize :: "MemTable \<Rightarrow> u64 \<Rightarrow> bool" where
  "ReachedSize m target \<longleftrightarrow> mtSize m \<ge> target"

section \<open>Reading\<close>

definition cloneEntry :: "SkipNode \<Rightarrow> KeyedEntry" where
  "cloneEntry n = KeyedEntry (skKey n) (skValue n)"

definition memGet :: "InternalKey \<Rightarrow> MemTable \<Rightarrow> KeyedEntry option option" where
  "memGet key m =
     Option.bind (lowerBoundLocked m key) (\<lambda>(n, _).
       case n of
         None \<Rightarrow> Some None
       | Some a \<Rightarrow>
           if compareInternal (skKey (mtNodes m ! a)) key \<noteq> 0 then Some None
           else Some (Some (cloneEntry (mtNodes m ! a))))"

definition memSeek :: "InternalKey \<Rightarrow> MemTable \<Rightarrow> KeyedEntry option option" where
  "memSeek key m =
     Option.bind (lowerBoundLocked m key) (\<lambda>(n, _). Some (map_option (\<lambda>a. cloneEntry (mtNodes m ! a)) n))"

definition memGetCandidate :: "bytes \<Rightarrow> u64 \<Rightarrow> MemTable \<Rightarrow> (MemError + KeyedEntry option) option" where
  "memGetCandidate user target m =
     (case newInternalKey user target KindDelete of
        Inl e \<Rightarrow> Some (Inl (MemPanic ''STORAGE-27''))
      | Inr seekKey \<Rightarrow>
          Option.bind (lowerBoundLocked m seekKey) (\<lambda>(n, _).
            case n of
              None \<Rightarrow> Some (Inr None)
            | Some a \<Rightarrow>
                if userKey (skKey (mtNodes m ! a)) \<noteq> user then Some (Inr None)
                else Some (Inr (Some (cloneEntry (mtNodes m ! a))))))"

partial_function (option) snapshotLocked :: "SkipNode list \<Rightarrow> bytes option \<Rightarrow> nat option \<Rightarrow> KeyedEntry list option" where
  [code]: "snapshotLocked ns limit current =
     (case current of
        None \<Rightarrow> Some []
      | Some a \<Rightarrow>
          if (case limit of None \<Rightarrow> False | Some e \<Rightarrow> compareBytes (userKey (skKey (ns ! a))) e \<ge> 0) then Some []
          else Option.bind (snapshotLocked ns limit (nextAt ns a 0)) (\<lambda>es. Some (cloneEntry (ns ! a) # es)))"

definition memIterator :: "MemTable \<Rightarrow> KeyedEntry list option" where
  "memIterator m = snapshotLocked (mtNodes m) None (nextAt (mtNodes m) 0 0)"

definition memIteratorFrom :: "InternalKey \<Rightarrow> MemTable \<Rightarrow> KeyedEntry list option" where
  "memIteratorFrom key m =
     Option.bind (lowerBoundLocked m key) (\<lambda>(first, _). snapshotLocked (mtNodes m) None first)"

definition memRange :: "bytes option \<Rightarrow> bytes option \<Rightarrow> MemTable \<Rightarrow> (MemError + KeyedEntry list) option" where
  "memRange start limit m =
     (if (case (start, limit) of (Some s, Some e) \<Rightarrow> compareBytes s e > 0 | _ \<Rightarrow> False) then Some (Inl ErrInvalidRange)
      else case start of
        None \<Rightarrow>
          Option.bind (snapshotLocked (mtNodes m) limit (nextAt (mtNodes m) 0 0)) (\<lambda>es. Some (Inr es))
      | Some s \<Rightarrow>
          (case newInternalKey s (-1) KindDelete of
             Inl e \<Rightarrow> Some (Inl (MemPanic ''STORAGE-28''))
           | Inr lower \<Rightarrow>
               Option.bind (lowerBoundLocked m lower) (\<lambda>(first, _).
                 Option.bind (snapshotLocked (mtNodes m) limit first) (\<lambda>es. Some (Inr es)))))"

section \<open>Iterators\<close>

text \<open>The snapshot iterator; the receiver is never nil here.\<close>

record MemIterator =
  itEntries :: "KeyedEntry list"
  itIndex :: int
  itValid :: bool

definition newIterator :: "KeyedEntry list \<Rightarrow> MemIterator" where
  "newIterator es = \<lparr>itEntries = es, itIndex = -1, itValid = False\<rparr>"

definition itNext :: "MemIterator \<Rightarrow> MemIterator \<times> bool" where
  "itNext it =
     (if itIndex it \<ge> int (length (itEntries it)) then (it, False)
      else
        let it = it\<lparr>itIndex := itIndex it + 1\<rparr>;
            it = it\<lparr>itValid := itIndex it < int (length (itEntries it))\<rparr>
        in (it, itValid it))"

definition itEntry :: "MemIterator \<Rightarrow> KeyedEntry option" where
  "itEntry it = (if \<not> itValid it then None else Some (itEntries it ! nat (itIndex it)))"

text \<open>The iterator over a frozen table follows the links of level 0 itself.\<close>

record FrozenIter =
  fiCurrent :: "nat option"
  fiValid :: bool

definition FrozenIterator :: "MemTable \<Rightarrow> MemError + FrozenIter" where
  "FrozenIterator m = (if \<not> mtFrozen m then Inl ErrNotFrozen else Inr \<lparr>fiCurrent = Some 0, fiValid = False\<rparr>)"

definition fiNext :: "SkipNode list \<Rightarrow> FrozenIter \<Rightarrow> FrozenIter \<times> bool" where
  "fiNext ns it =
     (case fiCurrent it of
        None \<Rightarrow> (it, False)
      | Some a \<Rightarrow>
          let current = nextAt ns a 0; valid = (current \<noteq> None)
          in (it\<lparr>fiCurrent := current, fiValid := valid\<rparr>, valid))"

definition fiEntry :: "SkipNode list \<Rightarrow> FrozenIter \<Rightarrow> KeyedEntry option" where
  "fiEntry ns it =
     (if \<not> fiValid it then None else map_option (\<lambda>a. cloneEntry (ns ! a)) (fiCurrent it))"

end
