(* ===== verification/Mem_Invariant.thy ===== *)
theory Mem_Invariant
  imports Mem_Table
begin

text \<open>
  The shape of a skip list and what an insertion keeps of it. A table is described by the
  order of its nodes, \<open>ord\<close>: level \<open>l\<close> links the head to the nodes of \<open>ord\<close> that are taller
  than \<open>l\<close>, in this order. Searching computes the split of \<open>ord\<close> at a key, and linking a node
  behind its predecessors inserts it at the split on each of its levels.
\<close>

section \<open>Chains\<close>

abbreviation keyAt :: "SkipNode list \<Rightarrow> nat \<Rightarrow> InternalKey" where
  "keyAt ns a \<equiv> skKey (ns ! a)"

abbreviation heightAt :: "SkipNode list \<Rightarrow> nat \<Rightarrow> nat" where
  "heightAt ns a \<equiv> length (skNext (ns ! a))"

definition tall :: "SkipNode list \<Rightarrow> nat \<Rightarrow> nat list \<Rightarrow> nat list" where
  "tall ns level ord = filter (\<lambda>a. level < heightAt ns a) ord"

fun linked :: "SkipNode list \<Rightarrow> nat \<Rightarrow> nat \<Rightarrow> nat list \<Rightarrow> bool" where
  "linked ns level a [] \<longleftrightarrow> nextAt ns a level = None"
| "linked ns level a (b # bs) \<longleftrightarrow> nextAt ns a level = Some b \<and> linked ns level b bs"

lemma tall_append [simp]: "tall ns level (xs @ ys) = tall ns level xs @ tall ns level ys"
  by (simp add: tall_def)

lemma tall_Cons [simp]:
  "tall ns level (a # ord) = (if level < heightAt ns a then a # tall ns level ord else tall ns level ord)"
  by (simp add: tall_def)

lemma tall_Nil [simp]: "tall ns level [] = []"
  by (simp add: tall_def)

lemma set_tall: "set (tall ns level ord) = {a \<in> set ord. level < heightAt ns a}"
  by (simp add: tall_def)

lemma tall_0: "\<forall>a\<in>set ord. 1 \<le> heightAt ns a \<Longrightarrow> tall ns 0 ord = ord"
  by (auto simp: tall_def filter_id_conv)

lemma linked_suffix: "linked ns level a (xs @ c # ys) \<Longrightarrow> linked ns level c ys"
  by (induction xs arbitrary: a) auto

lemma linked_next: "linked ns level a (xs @ ys) \<Longrightarrow> nextAt ns (last (a # xs)) level = (case ys of [] \<Rightarrow> None | b # _ \<Rightarrow> Some b)"
  by (induction xs arbitrary: a) (auto split: list.splits)

lemma linked_cong:
  "\<lbrakk>linked ns level a xs; \<forall>b\<in>set (a # xs). nextAt ns' b level = nextAt ns b level\<rbrakk> \<Longrightarrow> linked ns' level a xs"
  by (induction xs arbitrary: a) auto

lemma linked_insert:
  assumes "linked ns level a (xs @ ys)" "distinct (a # xs @ ys)" "n \<notin> set (a # xs @ ys)"
    and "nextAt ns' n level = nextAt ns (last (a # xs)) level"
    and "nextAt ns' (last (a # xs)) level = Some n"
    and "\<forall>b\<in>set (a # xs @ ys). b \<noteq> last (a # xs) \<longrightarrow> nextAt ns' b level = nextAt ns b level"
  shows "linked ns' level a (xs @ n # ys)"
  using assms
proof (induction xs arbitrary: a)
  case Nil
  have "linked ns' level c zs" if "ys = c # zs" for c zs
    using Nil that by (intro linked_cong [of ns level c zs ns']) auto
  then show ?case using Nil by (cases ys) auto
next
  case (Cons b xs)
  then have "a \<noteq> last (b # xs)" by (metis distinct.simps(2) append_Cons in_set_conv_decomp last_in_set list.distinct(1) set_append UnCI)
  with Cons.prems have "nextAt ns' a level = Some b" by auto
  moreover have "linked ns' level b (xs @ n # ys)"
    using Cons.prems by (intro Cons.IH) auto
  ultimately show ?case by simp
qed

section \<open>Searching\<close>

definition ordered :: "SkipNode list \<Rightarrow> nat list \<Rightarrow> bool" where
  "ordered ns ord \<longleftrightarrow> sorted_wrt (\<lambda>a b. keyAt ns a < keyAt ns b) ord"

definition before :: "SkipNode list \<Rightarrow> InternalKey \<Rightarrow> nat list \<Rightarrow> nat list" where
  "before ns key ord = filter (\<lambda>a. keyAt ns a < key) ord"

definition after :: "SkipNode list \<Rightarrow> InternalKey \<Rightarrow> nat list \<Rightarrow> nat list" where
  "after ns key ord = filter (\<lambda>a. \<not> keyAt ns a < key) ord"

lemma before_after: "ordered ns ord \<Longrightarrow> before ns key ord @ after ns key ord = ord"
proof (induction ord)
  case (Cons a ord)
  show ?case
  proof (cases "keyAt ns a < key")
    case False
    then have "before ns key ord = []"
      using Cons.prems by (auto simp: ordered_def before_def filter_empty_conv)
    then show ?thesis using False Cons by (simp add: ordered_def before_def after_def)
  qed (use Cons in \<open>simp add: ordered_def before_def after_def\<close>)
qed (simp add: before_def after_def)

lemma skipWalk_linked:
  "\<lbrakk>linked ns level a (xs @ ys); \<forall>b\<in>set xs. keyAt ns b < key; \<forall>b\<in>set ys. \<not> keyAt ns b < key\<rbrakk>
   \<Longrightarrow> skipWalk ns level key a = Some (last (a # xs))"
proof (induction xs arbitrary: a)
  case Nil
  then show ?case by (cases ys) (auto simp: skipWalk.simps [of ns level key a])
next
  case (Cons b xs)
  then show ?case by (simp add: skipWalk.simps [of ns level key a])
qed

definition predOf :: "SkipNode list \<Rightarrow> InternalKey \<Rightarrow> nat list \<Rightarrow> nat \<Rightarrow> nat" where
  "predOf ns key ord level = last (0 # tall ns level (before ns key ord))"

lemma skipWalk_level:
  assumes "ordered ns ord" "linked ns level 0 (tall ns level ord)"
  shows "skipWalk ns level key (predOf ns key ord (Suc level)) = Some (predOf ns key ord level)"
proof -
  let ?xs = "tall ns level (before ns key ord)" and ?ys = "tall ns level (after ns key ord)"
  let ?c = "predOf ns key ord (Suc level)"
  have lk: "linked ns level 0 (?xs @ ?ys)"
    using assms before_after [of ns ord key] by (metis tall_append)
  have keys: "\<forall>b\<in>set ?xs. keyAt ns b < key" "\<forall>b\<in>set ?ys. \<not> keyAt ns b < key"
    by (auto simp: set_tall before_def after_def)
  show ?thesis
  proof (cases "tall ns (Suc level) (before ns key ord) = []")
    case True
    then show ?thesis using skipWalk_linked [OF lk keys] by (simp add: predOf_def)
  next
    case False
    then have "?c \<in> set (tall ns (Suc level) (before ns key ord))"
      by (simp add: predOf_def)
    then have "?c \<in> set ?xs" by (auto simp: set_tall)
    then obtain p q where xs: "?xs = p @ ?c # q" by (meson split_list)
    then have "linked ns level ?c (q @ ?ys)" using lk linked_suffix [of ns level 0 p ?c "q @ ?ys"] by simp
    moreover have "\<forall>b\<in>set q. keyAt ns b < key" using keys(1) xs by auto
    ultimately have "skipWalk ns level key ?c = Some (last (?c # q))"
      using skipWalk_linked keys(2) by blast
    then show ?thesis using xs by (simp add: predOf_def [of ns key ord level])
  qed
qed

lemma searchLevels_pred:
  assumes "ordered ns ord" "\<forall>level<height. linked ns level 0 (tall ns level ord)"
  shows "\<exists>preds'. searchLevels ns key height (predOf ns key ord height) preds = Some (predOf ns key ord 0, preds')
    \<and> length preds' = length preds
    \<and> (\<forall>level<length preds. preds' ! level = (if level < height then Some (predOf ns key ord level) else preds ! level))"
  using assms(2)
proof (induction height arbitrary: preds)
  case (Suc height)
  have "skipWalk ns height key (predOf ns key ord (Suc height)) = Some (predOf ns key ord height)"
    using skipWalk_level [OF assms(1)] Suc.prems by simp
  moreover obtain preds' where
    "searchLevels ns key height (predOf ns key ord height) (preds[height := Some (predOf ns key ord height)]) =
       Some (predOf ns key ord 0, preds')"
    "length preds' = length preds"
    "\<forall>level<length preds. preds' ! level =
       (if level < height then Some (predOf ns key ord level) else preds[height := Some (predOf ns key ord height)] ! level)"
    using Suc.IH [of "preds[height := Some (predOf ns key ord height)]"] Suc.prems by (metis length_list_update less_SucI)
  ultimately show ?case by (auto simp: nth_list_update less_Suc_eq)
qed simp

section \<open>Well-formed tables\<close>

definition skipOk :: "MemTable \<Rightarrow> nat list \<Rightarrow> bool" where
  "skipOk m ord \<longleftrightarrow>
     mtNodes m \<noteq> [] \<and> heightAt (mtNodes m) 0 = maxHeight \<and> 1 \<le> mtHeight m \<and> mtHeight m \<le> maxHeight \<and>
     set ord = {1..<length (mtNodes m)} \<and> ordered (mtNodes m) ord \<and>
     (\<forall>a\<in>set ord. 1 \<le> heightAt (mtNodes m) a \<and> heightAt (mtNodes m) a \<le> mtHeight m) \<and>
     (\<forall>level<maxHeight. linked (mtNodes m) level 0 (tall (mtNodes m) level ord))"

lemma ordered_distinct: "ordered ns ord \<Longrightarrow> distinct ord"
  by (induction ord) (auto simp: ordered_def)

lemma skipOk_tall_height: "skipOk m ord \<Longrightarrow> mtHeight m \<le> level \<Longrightarrow> tall (mtNodes m) level xs = []" if "set xs \<subseteq> set ord"
  using that by (fastforce simp: skipOk_def tall_def filter_empty_conv)

lemma skipOk_newWithRandom: "skipOk (newWithRandom random) []"
  by (auto simp: skipOk_def newWithRandom_def maxHeight_def ordered_def nextAt_def)

lemma lowerBound_ok:
  assumes "skipOk m ord"
  shows "\<exists>preds. lowerBoundLocked m key =
       Some (case after (mtNodes m) key ord of [] \<Rightarrow> None | a # _ \<Rightarrow> Some a, preds)
     \<and> length preds = maxHeight
     \<and> (\<forall>level<mtHeight m. preds ! level = Some (predOf (mtNodes m) key ord level))"
proof -
  let ?ns = "mtNodes m"
  have ord: "ordered ?ns ord" and lk: "\<forall>level<maxHeight. linked ?ns level 0 (tall ?ns level ord)"
    and h: "mtHeight m \<le> maxHeight" and pos: "\<forall>a\<in>set ord. 1 \<le> heightAt ?ns a"
    using assms by (auto simp: skipOk_def)
  have "predOf ?ns key ord (mtHeight m) = 0"
    using skipOk_tall_height [OF _ assms order_refl, of "before ?ns key ord"] by (auto simp: predOf_def before_def)
  then obtain preds where s: "searchLevels ?ns key (mtHeight m) 0 (replicate maxHeight None) = Some (predOf ?ns key ord 0, preds)"
    "length preds = maxHeight"
    "\<forall>level<maxHeight. preds ! level = (if level < mtHeight m then Some (predOf ?ns key ord level) else replicate maxHeight None ! level)"
    using searchLevels_pred [OF ord, of "mtHeight m" key "replicate maxHeight None"] lk h by auto
  have "tall ?ns 0 (before ?ns key ord) = before ?ns key ord" "tall ?ns 0 ord = ord"
    using pos by (auto intro!: tall_0 simp: before_def)
  moreover have "linked ?ns 0 0 (tall ?ns 0 ord)" using lk by (simp add: maxHeight_def)
  ultimately have "nextAt ?ns (predOf ?ns key ord 0) 0 = (case after ?ns key ord of [] \<Rightarrow> None | a # _ \<Rightarrow> Some a)"
    using linked_next [of ?ns 0 0 "before ?ns key ord" "after ?ns key ord"] before_after [OF ord, of key]
    by (simp add: predOf_def)
  then show ?thesis using s h by (auto simp: lowerBoundLocked_def)
qed

section \<open>Linking\<close>

text \<open>Everything of a node but where its links point.\<close>

definition nodeData :: "SkipNode \<Rightarrow> SkipNode" where
  "nodeData n = n\<lparr>skNext := replicate (length (skNext n)) None\<rparr>"

lemma nodeData_fields [simp]:
  "skKey (nodeData n) = skKey n" "skValue (nodeData n) = skValue n" "skCap (nodeData n) = skCap n"
  "skKeyBytes (nodeData n) = skKeyBytes n" "length (skNext (nodeData n)) = length (skNext n)"
  by (simp_all add: nodeData_def)

lemma nodeData_update [simp]:
  "length ls = length (skNext n) \<Longrightarrow> nodeData (n\<lparr>skNext := ls\<rparr>) = nodeData n"
  by (simp add: nodeData_def)

lemma sameData_nth:
  assumes "map nodeData ns' = map nodeData ns" "a < length ns"
  shows "nodeData (ns' ! a) = nodeData (ns ! a)"
  using assms by (metis length_map nth_map)

lemma sameData_fields:
  assumes "nodeData n' = nodeData n"
  shows "skKey n' = skKey n" "skValue n' = skValue n" "skCap n' = skCap n"
    "skKeyBytes n' = skKeyBytes n" "length (skNext n') = length (skNext n)"
  using assms nodeData_fields by metis+

lemma setLink_data: "a < length ns \<Longrightarrow> map nodeData (setLink a level b ns) = map nodeData ns"
  by (rule nth_equalityI) (auto simp: setLink_def nth_list_update)

lemma setLink_next:
  assumes "a < length ns" "level < heightAt ns a"
  shows "nextAt (setLink a level b ns) c l = (if c = a \<and> l = level then b else nextAt ns c l)"
  using assms by (cases "c = a") (auto simp: setLink_def nextAt_def nth_list_update)

lemma linkLevels_effect:
  assumes "distinct levels" "n < length ns"
    and "\<forall>l\<in>set levels. l < length preds \<and> preds ! l = Some (p l) \<and> p l \<noteq> n \<and> p l < length ns \<and>
           l < heightAt ns (p l) \<and> l < heightAt ns n"
  shows "\<exists>ns'. linkLevels n preds levels ns = Inr ns' \<and> map nodeData ns' = map nodeData ns \<and>
    (\<forall>a l. nextAt ns' a l =
       (if l \<in> set levels \<and> a = n then nextAt ns (p l) l
        else if l \<in> set levels \<and> a = p l then Some n else nextAt ns a l))"
  using assms
proof (induction levels arbitrary: ns)
  case (Cons level levels)
  let ?ns1 = "setLink n level (nextAt ns (p level) level) ns"
  let ?ns2 = "setLink (p level) level (Some n) ?ns1"
  have d1: "map nodeData ?ns1 = map nodeData ns" using Cons.prems by (intro setLink_data) auto
  then have len1: "length ?ns1 = length ns" by (metis length_map)
  then have d2: "map nodeData ?ns2 = map nodeData ns" using Cons.prems d1 setLink_data by (metis list.set_intros(1))
  then have len2: "length ?ns2 = length ns" by (metis length_map)
  have h1: "heightAt ?ns1 a = heightAt ns a" if "a < length ns" for a
    using sameData_fields(5) [OF sameData_nth [OF d1 that]] .
  have h2: "heightAt ?ns2 a = heightAt ns a" if "a < length ns" for a
    using sameData_fields(5) [OF sameData_nth [OF d2 that]] .
  have n1: "nextAt ?ns1 a l = (if a = n \<and> l = level then nextAt ns (p level) level else nextAt ns a l)" for a l
    using Cons.prems by (intro setLink_next) auto
  have n2: "nextAt ?ns2 a l = (if a = p level \<and> l = level then Some n else nextAt ?ns1 a l)" for a l
    using Cons.prems h1 len1 by (intro setLink_next) auto
  obtain ns' where "linkLevels n preds levels ?ns2 = Inr ns'" "map nodeData ns' = map nodeData ?ns2"
    "\<forall>a l. nextAt ns' a l =
       (if l \<in> set levels \<and> a = n then nextAt ?ns2 (p l) l
        else if l \<in> set levels \<and> a = p l then Some n else nextAt ?ns2 a l)"
    using Cons.IH [of ?ns2] Cons.prems len2 h2 by auto
  with Cons.prems d2 show ?case by (intro exI [of _ ns']) (auto simp: n2 n1)
qed simp

section \<open>Insertion\<close>

lemma foldl_head:
  "length (foldl (\<lambda>ps level. ps[level := Some a]) preds [i..<j]) = length preds \<and>
   (j \<le> length preds \<longrightarrow> (\<forall>level<length preds. foldl (\<lambda>ps level. ps[level := Some a]) preds [i..<j] ! level =
      (if i \<le> level \<and> level < j then Some a else preds ! level)))"
  by (induction j) (auto simp: nth_list_update)

lemma heightLoop_bounds: "1 \<le> h \<Longrightarrow> h \<le> maxHeight \<Longrightarrow> 1 \<le> heightLoop h v \<and> heightLoop h v \<le> maxHeight"
proof (induction h v rule: heightLoop.induct)
  case (1 h v)
  then show ?case by (subst (1 2) heightLoop.simps) auto
qed

lemma predOf_cases: "predOf ns key ord level = 0 \<or>
    predOf ns key ord level \<in> set ord \<and> level < heightAt ns (predOf ns key ord level)"
proof (cases "tall ns level (before ns key ord) = []")
  case False
  then have "predOf ns key ord level \<in> set (tall ns level (before ns key ord))" by (simp add: predOf_def)
  then show ?thesis by (auto simp: set_tall before_def)
qed (simp add: predOf_def)

definition freshNode :: "InternalKey \<Rightarrow> bytes \<Rightarrow> nat \<Rightarrow> SkipNode" where
  "freshNode key value height =
     \<lparr>skKey = key, skValue = value, skCap = length value, skNext = replicate height None,
      skKeyBytes = word_of_nat (length (userKey key))\<rparr>"

lemma nth_snoc_old: "a < length ns \<Longrightarrow> (ns @ [n]) ! a = ns ! a"
  by (simp add: nth_append)

text \<open>The predecessors found by the search can take the new node's links.\<close>

lemma predOf_bounds:
  assumes "skipOk m ord"
  shows "predOf (mtNodes m) key ord l < length (mtNodes m)"
    and "l < maxHeight \<Longrightarrow> l < heightAt (mtNodes m) (predOf (mtNodes m) key ord l)"
  using predOf_cases [of "mtNodes m" key ord l] assms by (auto simp: skipOk_def)

lemma insert_links:
  fixes v :: bytes
  assumes ok: "skipOk m ord" and h: "height \<le> maxHeight"
    and preds: "length preds = maxHeight" "\<forall>level<height. preds ! level = Some (predOf (mtNodes m) key ord level)"
  defines "n \<equiv> length (mtNodes m)" and "ns \<equiv> mtNodes m @ [freshNode key v height]"
  shows "\<exists>ns'. linkLevels n preds [0..<height] ns = Inr ns' \<and> map nodeData ns' = map nodeData ns \<and>
    (\<forall>a l. nextAt ns' a l =
       (if l < height \<and> a = n then nextAt (mtNodes m) (predOf (mtNodes m) key ord l) l
        else if l < height \<and> a = predOf (mtNodes m) key ord l then Some n else nextAt ns a l))"
proof -
  let ?p = "predOf (mtNodes m) key ord"
  have nlen: "n < length ns" by (simp add: n_def ns_def)
  have pl: "?p l < n" for l using predOf_bounds(1) [OF ok] by (simp add: n_def)
  have old: "ns ! ?p l = mtNodes m ! ?p l" for l using pl by (simp add: ns_def n_def nth_append)
  have "\<forall>l\<in>set [0..<height]. l < length preds \<and> preds ! l = Some (?p l) \<and> ?p l \<noteq> n \<and> ?p l < length ns \<and>
      l < heightAt ns (?p l) \<and> l < heightAt ns n"
  proof
    fix l assume "l \<in> set [0..<height]"
    then have l: "l < height" "l < maxHeight" using h by auto
    have "heightAt ns n = height" by (simp add: n_def ns_def freshNode_def)
    then show "l < length preds \<and> preds ! l = Some (?p l) \<and> ?p l \<noteq> n \<and> ?p l < length ns \<and>
        l < heightAt ns (?p l) \<and> l < heightAt ns n"
      using l preds pl [of l] predOf_bounds(2) [OF ok l(2)] nlen old by (metis less_irrefl less_trans)
  qed
  from linkLevels_effect [OF distinct_upt nlen this] obtain ns' where
    "linkLevels n preds [0..<height] ns = Inr ns'" "map nodeData ns' = map nodeData ns"
    "\<forall>a l. nextAt ns' a l =
       (if l \<in> set [0..<height] \<and> a = n then nextAt ns (?p l) l
        else if l \<in> set [0..<height] \<and> a = ?p l then Some n else nextAt ns a l)"
    by blast
  moreover have "nextAt ns (?p l) l = nextAt (mtNodes m) (?p l) l" for l by (simp add: nextAt_def old)
  ultimately show ?thesis by (intro exI [of _ ns']) auto
qed

text \<open>On one level the new node stands at the split of the order, or the level is as before.\<close>

lemma insert_level:
  assumes ok: "skipOk m ord" and l: "l < maxHeight"
    and new: "here \<Longrightarrow> nextAt ns' (length (mtNodes m)) l = nextAt (mtNodes m) (predOf (mtNodes m) key ord l) l"
    and old: "\<And>a. a < length (mtNodes m) \<Longrightarrow> nextAt ns' a l =
       (if here \<and> a = predOf (mtNodes m) key ord l then Some (length (mtNodes m)) else nextAt (mtNodes m) a l)"
  shows "linked ns' l 0 (tall (mtNodes m) l (before (mtNodes m) key ord) @
     (if here then [length (mtNodes m)] else []) @ tall (mtNodes m) l (after (mtNodes m) key ord))"
proof -
  let ?ns = "mtNodes m" and ?n = "length (mtNodes m)"
  let ?xs = "tall ?ns l (before ?ns key ord)" and ?ys = "tall ?ns l (after ?ns key ord)"
  have ord: "ordered ?ns ord" and set: "set ord = {1..<?n}" and ne: "0 < ?n"
    using ok by (auto simp: skipOk_def)
  have split: "tall ?ns l ord = ?xs @ ?ys" using before_after [OF ord, of key] by (metis tall_append)
  have lk: "linked ?ns l 0 (?xs @ ?ys)" unfolding split [symmetric] using ok l by (simp add: skipOk_def)
  have mem: "set (?xs @ ?ys) \<subseteq> {1..<?n}" unfolding split [symmetric] set_tall set by blast
  have "distinct (tall ?ns l ord)" unfolding tall_def using ordered_distinct [OF ord] by (rule distinct_filter)
  then have dist: "distinct (0 # ?xs @ ?ys)" using mem unfolding split by (simp add: subset_iff Ball_def) blast
  have p: "last (0 # ?xs) = predOf ?ns key ord l" by (simp add: predOf_def)
  have low: "b < ?n" if "b \<in> set (0 # ?xs @ ?ys)" for b using that mem ne by (auto simp: subset_iff)
  show ?thesis
  proof (cases here)
    case True
    have "?n \<notin> set (0 # ?xs @ ?ys)" using low by blast
    moreover have "nextAt ns' ?n l = nextAt ?ns (last (0 # ?xs)) l" unfolding p using new True .
    moreover have "nextAt ns' (last (0 # ?xs)) l = Some ?n"
      unfolding p using old [OF predOf_bounds(1) [OF ok]] True by simp
    moreover have "\<forall>b\<in>set (0 # ?xs @ ?ys). b \<noteq> last (0 # ?xs) \<longrightarrow> nextAt ns' b l = nextAt ?ns b l"
      using old [OF low] unfolding p by simp
    ultimately have "linked ns' l 0 (?xs @ ?n # ?ys)" by (rule linked_insert [OF lk dist])
    then show ?thesis using True by simp
  next
    case False
    have "linked ns' l 0 (?xs @ ?ys)" using False old [OF low] by (intro linked_cong [OF lk] ballI) simp
    then show ?thesis using False by simp
  qed
qed

lemma insert_linked:
  assumes ok: "skipOk m ord" and h: "1 \<le> height" "height \<le> maxHeight"
    and preds: "length preds = maxHeight" "\<forall>level<height. preds ! level = Some (predOf (mtNodes m) key ord level)"
  defines "n \<equiv> length (mtNodes m)"
  shows "\<exists>ns'. linkLevels n preds [0..<height] (mtNodes m @ [freshNode key v height]) = Inr ns' \<and>
     map nodeData ns' = map nodeData (mtNodes m) @ [freshNode key v height] \<and>
     (\<forall>level<maxHeight. linked ns' level 0
        (tall ns' level (before (mtNodes m) key ord @ n # after (mtNodes m) key ord)))"
proof -
  let ?ns = "mtNodes m" and ?all = "mtNodes m @ [freshNode key v height]"
  let ?b = "before ?ns key ord" and ?a = "after ?ns key ord"
  obtain ns' where ns': "linkLevels n preds [0..<height] ?all = Inr ns'"
    and data: "map nodeData ns' = map nodeData ?all"
    and nx: "\<forall>a l. nextAt ns' a l =
       (if l < height \<and> a = n then nextAt ?ns (predOf ?ns key ord l) l
        else if l < height \<and> a = predOf ?ns key ord l then Some n else nextAt ?all a l)"
    using insert_links [OF ok h(2) preds, of v] by (auto simp: n_def)
  have hts: "heightAt ns' a = (if a = n then height else heightAt ?ns a)" if "a \<le> n" for a
    using sameData_fields(5) [OF sameData_nth [OF data, of a]] that
    by (auto simp: nth_append n_def freshNode_def)
  have "tall ns' l xs = tall ?ns l xs" if "set xs \<subseteq> set ord" for l xs
    unfolding tall_def using that ok hts by (intro filter_cong) (auto simp: skipOk_def n_def)
  then have "tall ns' l (?b @ n # ?a) = tall ?ns l ?b @ (if l < height then [n] else []) @ tall ?ns l ?a" for l
    using hts [of n] by (simp add: before_def after_def)
  moreover have "linked ns' l 0 (tall ?ns l ?b @ (if l < height then [n] else []) @ tall ?ns l ?a)"
    if "l < maxHeight" for l
  proof -
    have "nextAt ?all a l = nextAt ?ns a l" if "a < n" for a
      using that by (simp add: nextAt_def nth_append n_def)
    then show ?thesis
      unfolding n_def using nx that by (intro insert_level [OF ok]) (auto simp: n_def)
  qed
  moreover have "map nodeData ns' = map nodeData ?ns @ [freshNode key v height]"
    using data by (simp add: nodeData_def freshNode_def)
  ultimately show ?thesis using ns' by auto
qed

section \<open>Bookkeeping\<close>

definition nodeBytes :: "SkipNode \<Rightarrow> nat" where
  "nodeBytes n = 96 + unat (skKeyBytes n) + skCap n + 8 * length (skNext n)"

definition saturated :: "nat \<Rightarrow> nat" where
  "saturated n = min (2 ^ 64 - 1) n"

lemma saturated_add [simp]:
  "saturated (saturated a + b) = saturated (a + b)" "saturated (a + saturated b) = saturated (a + b)"
  by (simp_all add: saturated_def)

lemma unat_saturatingAdd: "unat (saturatingAdd a b) = saturated (unat a + unat b)"
proof -
  note m = unat_max_minus [of a]
  show ?thesis
  proof (cases "-1 - a < b")
    case True
    then have "18446744073709551615 - unat a < unat b" using m by (simp add: word_less_nat_alt)
    then show ?thesis using True by (simp add: saturatingAdd_def saturated_def unat_max_u64)
  next
    case False
    then have "unat b \<le> 18446744073709551615 - unat a" using m by (simp add: word_less_nat_alt)
    moreover have "unat a \<le> 18446744073709551615" using word_order.extremum [of a] by (simp add: word_le_nat_alt unat_max_u64)
    ultimately have "unat a + unat b \<le> 18446744073709551615" by linarith
    then show ?thesis
      using False unat_add_exact [of a b] by (simp add: saturatingAdd_def saturated_def)
  qed
qed

lemma unat_nodeSize:
  assumes "skCap n < 2 ^ 63" "length (skNext n) \<le> maxHeight"
  shows "unat (nodeSize n) = saturated (nodeBytes n)"
proof -
  have "unat (word_of_nat (skCap n) :: u64) = skCap n"
    using assms(1) by (intro unat_of_nat_u64) simp
  moreover have "unat (word_of_nat (length (skNext n)) * wordBytes :: u64) = 8 * length (skNext n)"
  proof -
    have "(word_of_nat (length (skNext n)) * wordBytes :: u64) = word_of_nat (8 * length (skNext n))"
      by (simp add: wordBytes_def)
    then show ?thesis using assms(2) unat_of_nat_u64 [of "8 * length (skNext n)"] by (simp add: maxHeight_def)
  qed
  moreover have "unat nodeMetadataBytes = 96" by (simp add: nodeMetadataBytes_def wordBytes_def)
  ultimately show ?thesis
    by (simp add: nodeSize_def unat_saturatingAdd nodeBytes_def ac_simps)
qed

text \<open>What the counters of a table say of its nodes.\<close>

definition nodeOk :: "SkipNode \<Rightarrow> bool" where
  "nodeOk n \<longleftrightarrow> kindValid (kind (skKey n)) \<and> skKeyBytes n = word_of_nat (length (userKey (skKey n))) \<and>
     skCap n < 2 ^ 63 \<and> length (skNext n) \<le> maxHeight"

definition statsOk :: "SkipNode list \<Rightarrow> nat \<Rightarrow> nat \<Rightarrow> u64 \<Rightarrow> bool" where
  "statsOk ds count height bytes \<longleftrightarrow>
     list_all nodeOk ds \<and> count = length ds \<and> height = Max (insert 1 ((\<lambda>n. length (skNext n)) ` set ds)) \<and>
     unat bytes = saturated (352 + sum_list (map nodeBytes ds))"

definition tableNodes :: "MemTable \<Rightarrow> SkipNode list" where
  "tableNodes m = tl (map nodeData (mtNodes m))"

definition holdsMap :: "SkipNode list \<Rightarrow> (InternalKey \<rightharpoonup> bytes) \<Rightarrow> bool" where
  "holdsMap ds f \<longleftrightarrow> Map.graph f = (\<lambda>n. (skKey n, skValue n)) ` set ds"

definition memOk :: "MemTable \<Rightarrow> (InternalKey \<rightharpoonup> bytes) \<Rightarrow> bool" where
  "memOk m f \<longleftrightarrow> (\<exists>ord. skipOk m ord) \<and>
     statsOk (tableNodes m) (mtCount m) (mtHeight m) (mtSize m) \<and> holdsMap (tableNodes m) f"

lemma tableNodes_nth: "skipOk m ord \<Longrightarrow> a \<in> set ord \<Longrightarrow> tableNodes m ! (a - 1) = nodeData (mtNodes m ! a)"
  by (auto simp: tableNodes_def skipOk_def nth_tl)

lemma length_tableNodes [simp]: "length (tableNodes m) = length (mtNodes m) - 1"
  by (simp add: tableNodes_def)

lemma tableNodes_map:
  assumes "skipOk m ord"
  shows "tableNodes m = map (\<lambda>a. nodeData (mtNodes m ! a)) [1..<length (mtNodes m)]"
  using assms by (intro nth_equalityI) (auto simp: tableNodes_def nth_tl skipOk_def)

lemma set_tableNodes:
  assumes "skipOk m ord"
  shows "set (tableNodes m) = (\<lambda>a. nodeData (mtNodes m ! a)) ` set ord"
  using assms unfolding tableNodes_map [OF assms] by (simp add: skipOk_def)

end
