(* ===== verification/Mem_Properties.thy ===== *)
theory Mem_Properties
  imports Mem_Invariant
begin

text \<open>
  The memtable against its specification: every operation returns, keeps the table well
  formed, and acts on the map from internal keys to values as the sequential specification
  \<open>specStep\<close> says. The structural validation of \<open>validate.go\<close> accepts every such table.
\<close>

section \<open>Bookkeeping of the operations\<close>

lemma statsOk_snoc:
  assumes "statsOk ds count height bytes" "nodeOk n"
  shows "statsOk (ds @ [n]) (count + 1) (max height (length (skNext n))) (saturatingAdd bytes (nodeSize n))"
proof -
  have "unat (nodeSize n) = saturated (nodeBytes n)"
    using assms(2) by (simp add: unat_nodeSize nodeOk_def)
  moreover have "Max (insert 1 ((\<lambda>n. length (skNext n)) ` set (ds @ [n]))) =
      max (Max (insert 1 ((\<lambda>n. length (skNext n)) ` set ds))) (length (skNext n))"
    by (simp add: insert_commute [of "Suc 0"] max.commute del: Max_insert) (simp add: Max_insert max.commute)
  ultimately show ?thesis
    using assms by (simp add: statsOk_def unat_saturatingAdd add.assoc del: Max_insert)
qed

lemma statsOk_update:
  assumes ok: "statsOk ds count height bytes" and i: "i < length ds"
    and same: "skKey n = skKey (ds ! i)" "skKeyBytes n = skKeyBytes (ds ! i)" "length (skNext n) = length (skNext (ds ! i))"
    and cap: "skCap (ds ! i) \<le> skCap n" "skCap n < 2 ^ 63"
  shows "statsOk (ds[i := n]) count height (saturatingAdd bytes (word_of_nat (skCap n) - word_of_nat (skCap (ds ! i))))"
proof -
  have "(\<lambda>n. length (skNext n)) ` set (ds[i := n]) = set (map (\<lambda>n. length (skNext n)) (ds[i := n]))" by simp
  also have "map (\<lambda>n. length (skNext n)) (ds[i := n]) = map (\<lambda>n. length (skNext n)) ds"
    using same(3) i by (simp add: map_update list_update_same_conv)
  finally have heights: "(\<lambda>n. length (skNext n)) ` set (ds[i := n]) = (\<lambda>n. length (skNext n)) ` set ds" by simp
  have "nodeOk (ds ! i)" using ok i by (simp add: statsOk_def list_all_length)
  then have "nodeOk n" using same cap by (simp add: nodeOk_def)
  then have "list_all nodeOk (ds[i := n])"
    using ok set_update_subset_insert [of ds i n] by (auto simp: statsOk_def list_all_iff)
  moreover have "word_of_nat (skCap n) - word_of_nat (skCap (ds ! i)) = (word_of_nat (skCap n - skCap (ds ! i)) :: u64)"
    using cap(1) by (simp add: of_nat_diff)
  then have "unat (word_of_nat (skCap n) - word_of_nat (skCap (ds ! i)) :: u64) = skCap n - skCap (ds ! i)"
    using cap(2) unat_of_nat_u64 [of "skCap n - skCap (ds ! i)"] by simp
  moreover have "nodeBytes n = nodeBytes (ds ! i) + (skCap n - skCap (ds ! i))"
    using same cap(1) by (simp add: nodeBytes_def)
  moreover have "nodeBytes (ds ! i) \<le> sum_list (map nodeBytes ds)"
    using i by (metis elem_le_sum_list length_map nth_map)
  ultimately show ?thesis
    using ok i heights
    by (simp add: statsOk_def unat_saturatingAdd map_update sum_list_update add.assoc del: Max_insert)
qed

lemma holdsMap_snoc:
  assumes "holdsMap ds f" "skKey n \<notin> skKey ` set ds"
  shows "holdsMap (ds @ [n]) (f(skKey n \<mapsto> skValue n))"
proof -
  have "f (skKey n) = None"
  proof (cases "f (skKey n)")
    case (Some v)
    then have "(skKey n, v) \<in> Map.graph f" by (rule in_graphI)
    then show ?thesis using assms by (auto simp: holdsMap_def)
  qed
  then have "f(skKey n := None) = f" by (simp add: fun_upd_idem)
  then show ?thesis using assms(1) by (simp add: holdsMap_def graph_map_upd)
qed

lemma holdsMap_update:
  assumes "holdsMap ds f" "distinct (map skKey ds)" "i < length ds" "skKey n = skKey (ds ! i)"
  shows "holdsMap (ds[i := n]) (f(skKey n \<mapsto> skValue n))"
proof -
  have inj: "inj_on skKey (set ds)" "distinct ds" using assms(2) by (simp_all add: distinct_map)
  have "set (ds[i := n]) = insert n (set ds - {ds ! i})"
    using inj(2) assms(3) by (rule set_update_distinct)
  moreover have "Map.graph (f(skKey n := None)) = (\<lambda>n. (skKey n, skValue n)) ` (set ds - {ds ! i})"
  proof -
    have "Map.graph (f(skKey n := None)) = {(k, v) \<in> Map.graph f. k \<noteq> skKey n}"
      by (auto simp: Map.graph_def split: if_splits)
    then show ?thesis
      using assms(1,3,4) inj(1) by (auto simp: holdsMap_def inj_on_def)
  qed
  ultimately show ?thesis by (simp add: holdsMap_def graph_map_upd)
qed

lemma skipOk_keys_distinct:
  assumes "skipOk m ord"
  shows "distinct (map skKey (tableNodes m))" and "skKey ` set (tableNodes m) = keyAt (mtNodes m) ` set ord"
proof -
  have "sorted_wrt (<) (map (keyAt (mtNodes m)) ord)"
    using assms by (simp add: skipOk_def ordered_def sorted_wrt_map)
  then have d: "distinct (map (keyAt (mtNodes m)) ord)" by (simp add: strict_sorted_iff)
  show im: "skKey ` set (tableNodes m) = keyAt (mtNodes m) ` set ord"
    by (simp add: set_tableNodes [OF assms] image_image)
  have "card (keyAt (mtNodes m) ` set ord) = length ord" "card (set ord) = length ord"
    using distinct_card [OF d] d by (auto simp: distinct_map distinct_card)
  moreover have "card (set ord) = length (tableNodes m)" using assms by (simp add: skipOk_def)
  ultimately have "card (set (map skKey (tableNodes m))) = length (map skKey (tableNodes m))"
    using im by simp
  then show "distinct (map skKey (tableNodes m))" by (rule card_distinct)
qed

section \<open>Insertion\<close>

lemma ordered_same:
  assumes "\<forall>a\<in>set ord. keyAt ns' a = keyAt ns a"
  shows "ordered ns' ord = ordered ns ord"
proof -
  have "ordered ns ord \<longleftrightarrow> sorted_wrt (<) (map (keyAt ns) ord)" for ns by (simp add: ordered_def sorted_wrt_map)
  moreover have "map (keyAt ns') ord = map (keyAt ns) ord" using assms by simp
  ultimately show ?thesis by metis
qed

lemma skipOk_replace:
  assumes ok: "skipOk m ord" and a: "a \<in> set ord"
    and same: "skKey n = keyAt (mtNodes m) a" "skNext n = skNext (mtNodes m ! a)"
  shows "skipOk (m\<lparr>mtNodes := (mtNodes m)[a := n], mtSize := s\<rparr>) ord"
proof -
  let ?ns = "mtNodes m" and ?ns' = "(mtNodes m)[a := n]"
  have "a < length ?ns" using ok a by (simp add: skipOk_def)
  then have at: "?ns' ! b = (if b = a then n else ?ns ! b)" for b by simp
  have keys: "skKey (?ns' ! b) = skKey (?ns ! b)" for b unfolding at by (simp add: same)
  have links: "skNext (?ns' ! b) = skNext (?ns ! b)" for b unfolding at by (simp add: same)
  have tl: "tall ?ns' l ord = tall ?ns l ord" for l unfolding tall_def links ..
  have lk: "linked ?ns l c xs \<Longrightarrow> linked ?ns' l c xs" for l c xs
    by (erule linked_cong) (unfold nextAt_def links, blast)
  have "ordered ?ns' ord" using ok ordered_same [of ord ?ns' ?ns] keys by (simp add: skipOk_def)
  then show ?thesis
    using ok lk unfolding skipOk_def by (simp only: links tl MemTable.simps length_list_update) (simp add: links tl del: One_nat_def)
qed

lemma tableNodes_update:
  assumes "a \<in> set ord" "skipOk m ord"
  shows "tableNodes (m\<lparr>mtNodes := (mtNodes m)[a := n], mtSize := s\<rparr>) = (tableNodes m)[a - 1 := nodeData n]"
proof -
  have "a \<in> {1..<length (mtNodes m)}" using assms by (simp add: skipOk_def)
  then obtain b where "a = Suc b" by (cases a) auto
  moreover obtain x xs where "mtNodes m = x # xs" using assms by (cases "mtNodes m") (auto simp: skipOk_def)
  ultimately show ?thesis by (simp add: tableNodes_def map_update)
qed

lemma replaceValueLocked_ok:
  assumes ok: "skipOk m ord" and st: "statsOk (tableNodes m) (mtCount m) (mtHeight m) (mtSize m)"
    and holds: "holdsMap (tableNodes m) f"
    and a: "a \<in> set ord" and len: "length v < 2 ^ 63"
  shows "memOk (replaceValueLocked a v m) (f(keyAt (mtNodes m) a \<mapsto> v))
    \<and> mtFrozen (replaceValueLocked a v m) = mtFrozen m"
proof -
  let ?n = "mtNodes m ! a" and ?ds = "tableNodes m"
  define c where "c = max (length v) (skCap ?n)"
  define n where "n = ?n\<lparr>skValue := v, skCap := c\<rparr>"
  define s where "s = saturatingAdd (mtSize m) (word_of_nat c - word_of_nat (skCap ?n))"
  have zero: "saturatingAdd x 0 = x" for x by (simp add: saturatingAdd_def)
  have r: "replaceValueLocked a v m = m\<lparr>mtNodes := (mtNodes m)[a := n], mtSize := s\<rparr>"
    by (auto simp: replaceValueLocked_def Let_def n_def s_def c_def max_def zero)
  have i: "a - 1 < length ?ds" using ok a by (auto simp: skipOk_def)
  have nth: "?ds ! (a - 1) = nodeData ?n" using tableNodes_nth [OF ok a] .
  have "skCap (nodeData ?n) < 2 ^ 63"
    using st i nth by (metis list_all_length nodeOk_def statsOk_def)
  then have "statsOk (?ds[a - 1 := nodeData n]) (mtCount m) (mtHeight m) s"
    using statsOk_update [OF st i, of "nodeData n"] len nth by (simp add: n_def s_def c_def)
  moreover have "holdsMap (?ds[a - 1 := nodeData n]) (f(keyAt (mtNodes m) a \<mapsto> v))"
    using holdsMap_update [OF holds skipOk_keys_distinct(1) [OF ok] i, of "nodeData n"] nth
    by (simp add: n_def)
  moreover have "skipOk (m\<lparr>mtNodes := (mtNodes m)[a := n], mtSize := s\<rparr>) ord"
    using ok a by (intro skipOk_replace) (simp_all add: n_def)
  ultimately show ?thesis
    unfolding r memOk_def tableNodes_update [OF a ok] by auto
qed

lemma skipOk_insert:
  assumes ok: "skipOk m ord" and new: "key \<notin> keyAt (mtNodes m) ` set ord"
    and h: "1 \<le> height" "height \<le> maxHeight"
    and data: "map nodeData ns' = map nodeData (mtNodes m) @ [freshNode key v height]"
    and lk: "\<forall>level<maxHeight. linked ns' level 0
        (tall ns' level (before (mtNodes m) key ord @ length (mtNodes m) # after (mtNodes m) key ord))"
    and m': "mtNodes m' = ns'" "mtHeight m' = max (mtHeight m) height"
  shows "skipOk m' (before (mtNodes m) key ord @ length (mtNodes m) # after (mtNodes m) key ord)"
proof -
  let ?ns = "mtNodes m" and ?n = "length (mtNodes m)"
  let ?b = "before ?ns key ord" and ?a = "after ?ns key ord"
  have len: "length ns' = Suc ?n" using data by (metis length_append_singleton length_map)
  have old: "nodeData (ns' ! a) = nodeData (?ns ! a)" if "a < ?n" for a
    using that data len by (metis length_map less_SucI nth_append nth_map)
  have at: "nodeData (ns' ! ?n) = freshNode key v height"
    using data len by (metis length_map lessI nth_append_length nth_map)
  have ord: "ordered ?ns ord" and set: "set ord = {1..<?n}" and ne: "0 < ?n" using ok by (auto simp: skipOk_def)
  have split: "set ord = set ?b \<union> set ?a" using before_after [OF ord, of key] by (metis set_append)
  have keyn: "keyAt ns' ?n = key" "heightAt ns' ?n = height"
    using at nodeData_fields(1,5) [of "ns' ! ?n"] by (simp_all add: freshNode_def)
  have keyo: "keyAt ns' a = keyAt ?ns a" "heightAt ns' a = heightAt ?ns a" if "a < ?n" for a
    using sameData_fields(1,5) [OF old [OF that]] by simp_all
  have "ordered ns' (?b @ ?a)"
    using ordered_same [of ord ns' ?ns] ord keyo set before_after [OF ord, of key] by auto
  moreover have "\<forall>a\<in>set ?b. keyAt ns' a < keyAt ns' ?n" "\<forall>a\<in>set ?a. keyAt ns' ?n < keyAt ns' a"
    using keyo keyn set new by (auto simp: before_def after_def not_less order_le_less)
  ultimately have "ordered ns' (?b @ ?n # ?a)" by (auto simp: ordered_def sorted_wrt_append)
  moreover have all: "set (?b @ ?n # ?a) = insert ?n (set ord)" unfolding split by auto
  moreover have "insert ?n {1..<?n} = {1..<length ns'}" unfolding len using Suc_leI [OF ne] by auto
  moreover have "heightAt ns' 0 = maxHeight" using keyo(2) [OF ne] ok by (simp add: skipOk_def)
  moreover have "1 \<le> heightAt ns' a \<and> heightAt ns' a \<le> max (mtHeight m) height" if "a \<in> insert ?n (set ord)" for a
  proof (cases "a = ?n")
    case True
    then show ?thesis using h keyn(2) by (simp only: max.cobounded2)
  next
    case False
    then have "a \<in> set ord" "a < ?n" using that set by auto
    then show ?thesis using ok keyo(2) unfolding skipOk_def by (simp add: le_max_iff_disj)
  qed
  moreover have "ns' \<noteq> []" using len by auto
  ultimately show ?thesis
    using lk ok h unfolding skipOk_def m' all set by (simp only:) (simp add: le_max_iff_disj)
qed

lemma insertNode_ok:
  assumes ok: "skipOk m ord" and st: "statsOk (tableNodes m) (mtCount m) (mtHeight m) (mtSize m)"
    and holds: "holdsMap (tableNodes m) f" and new: "key \<notin> keyAt (mtNodes m) ` set ord"
    and kv: "kindValid (kind key)" and len: "length v < 2 ^ 63"
    and preds: "length preds = maxHeight" "\<forall>level<mtHeight m. preds ! level = Some (predOf (mtNodes m) key ord level)"
  shows "\<exists>m'. insertNode key v preds m = (m', Inr ()) \<and> memOk m' (f(key \<mapsto> v)) \<and> mtFrozen m' = mtFrozen m"
proof -
  define height where "height = heightLoop (Suc 0) (mtRandom m (mtDraws m))"
  let ?n = "freshNode key v height"
  define preds' where "preds' = foldl (\<lambda>ps level. ps[level := Some 0]) preds [mtHeight m..<height]"
  have h: "1 \<le> height" "height \<le> maxHeight"
    using heightLoop_bounds [of "Suc 0"] by (simp_all add: height_def maxHeight_def)
  have "predOf (mtNodes m) key ord level = 0" if "mtHeight m \<le> level" for level
    using skipOk_tall_height [OF _ ok that, of "before (mtNodes m) key ord"] by (auto simp: predOf_def before_def)
  then have p': "length preds' = maxHeight" "\<forall>level<height. preds' ! level = Some (predOf (mtNodes m) key ord level)"
    using foldl_head [of 0 preds "mtHeight m" height] preds h by (auto simp: preds'_def)
  obtain ns' where ns': "linkLevels (length (mtNodes m)) preds' [0..<height] (mtNodes m @ [?n]) = Inr ns'"
    "map nodeData ns' = map nodeData (mtNodes m) @ [?n]"
    "\<forall>level<maxHeight. linked ns' level 0
        (tall ns' level (before (mtNodes m) key ord @ length (mtNodes m) # after (mtNodes m) key ord))"
    using insert_linked [OF ok h p'] by blast
  define m' where "m' = m\<lparr>mtDraws := mtDraws m + 1, mtHeight := max (mtHeight m) height, mtNodes := ns',
     mtCount := mtCount m + 1, mtSize := saturatingAdd (mtSize m) (nodeSize ?n)\<rparr>"
  have "insertNode key v preds m = (m', Inr ())"
    using ns'(1) kv unfolding insertNode_def m'_def
    by (simp add: cloneKey_def newInternalKey_def randomHeight_def Let_def freshNode_def flip: height_def preds'_def)
  moreover have "skipOk m' (before (mtNodes m) key ord @ length (mtNodes m) # after (mtNodes m) key ord)"
    by (rule skipOk_insert [OF ok new h ns'(2,3)]) (simp_all add: m'_def)
  moreover have ds: "tableNodes m' = tableNodes m @ [?n]"
    using ns'(2) ok by (cases "mtNodes m") (simp_all add: tableNodes_def m'_def skipOk_def)
  have "nodeOk ?n" using kv len h by (simp add: nodeOk_def freshNode_def)
  then have "statsOk (tableNodes m') (mtCount m') (mtHeight m') (mtSize m')"
    using statsOk_snoc [OF st, of ?n] unfolding ds by (simp add: m'_def freshNode_def)
  moreover have "holdsMap (tableNodes m') (f(key \<mapsto> v))"
    using holdsMap_snoc [OF holds, of ?n] new unfolding ds skipOk_keys_distinct(2) [OF ok] by (simp add: freshNode_def)
  ultimately show ?thesis by (auto simp: memOk_def m'_def)
qed

lemma after_hd:
  assumes "ordered ns ord"
  shows "key \<in> keyAt ns ` set ord \<longleftrightarrow> (\<exists>a as. after ns key ord = a # as \<and> keyAt ns a = key)"
proof
  assume "key \<in> keyAt ns ` set ord"
  then obtain b where b: "b \<in> set (after ns key ord)" "keyAt ns b = key" by (auto simp: after_def)
  then obtain a as where c: "after ns key ord = a # as" by (cases "after ns key ord") auto
  have "ordered ns (after ns key ord)" using assms by (simp add: ordered_def after_def sorted_wrt_filter)
  then have "a = b \<or> keyAt ns a < keyAt ns b" using b(1) by (auto simp: c ordered_def)
  moreover have "\<not> keyAt ns a < key" using c by (metis (mono_tags, lifting) after_def filter_eq_ConsD)
  ultimately show "\<exists>a as. after ns key ord = a # as \<and> keyAt ns a = key" using b(2) c by auto
next
  assume "\<exists>a as. after ns key ord = a # as \<and> keyAt ns a = key"
  then obtain a as where "after ns key ord = a # as" "keyAt ns a = key" by blast
  moreover have "set (after ns key ord) \<subseteq> set ord" by (auto simp: after_def)
  ultimately show "key \<in> keyAt ns ` set ord" by force
qed

lemma insertLocked_ok:
  assumes ok: "memOk m f" and kv: "kindValid (kind key)" and len: "length v < 2 ^ 63"
  shows "\<exists>m'. insertLocked key v m = Some (m', Inr ()) \<and> memOk m' (f(key \<mapsto> v)) \<and> mtFrozen m' = mtFrozen m"
proof -
  obtain ord where ord: "skipOk m ord" and st: "statsOk (tableNodes m) (mtCount m) (mtHeight m) (mtSize m)"
    and holds: "holdsMap (tableNodes m) f" using ok by (auto simp: memOk_def)
  obtain preds where lb: "lowerBoundLocked m key = Some (case after (mtNodes m) key ord of [] \<Rightarrow> None | a # _ \<Rightarrow> Some a, preds)"
    "length preds = maxHeight" "\<forall>level<mtHeight m. preds ! level = Some (predOf (mtNodes m) key ord level)"
    using lowerBound_ok [OF ord, of key] by blast
  have so: "ordered (mtNodes m) ord" using ord by (simp add: skipOk_def)
  show ?thesis
  proof (cases "key \<in> keyAt (mtNodes m) ` set ord")
    case True
    then obtain a as where a: "after (mtNodes m) key ord = a # as" "keyAt (mtNodes m) a = key"
      using after_hd [OF so] by blast
    have "a \<in> set (after (mtNodes m) key ord)" by (simp add: a(1))
    then have "a \<in> set ord" by (simp add: after_def)
    from replaceValueLocked_ok [OF ord st holds this len] show ?thesis
      using a lb(1) by (simp add: insertLocked_def)
  next
    case False
    then have "insertLocked key v m = Some (insertNode key v preds m)"
      using lb(1) after_hd [OF so, of key] by (cases "after (mtNodes m) key ord") (auto simp: insertLocked_def)
    then show ?thesis using insertNode_ok [OF ord st holds False kv len lb(2,3)] by auto
  qed
qed

section \<open>Validation accepts well-formed tables\<close>

lemma validateZero_linked:
  assumes "linked ns 0 a xs" "distinct xs" "set xs \<inter> set seen = {}" "ordered ns xs"
    and "\<forall>b\<in>set xs. nodeOk (ns ! b) \<and> 1 \<le> heightAt ns b"
    and "case previous of None \<Rightarrow> True | Some p \<Rightarrow> \<forall>b\<in>set xs. keyAt ns p < keyAt ns b"
  shows "\<exists>sz'. validateZero ns seen count observed sz previous (nextAt ns a 0) =
      Some (Inr (rev xs @ seen, count + length xs, Max (insert observed (heightAt ns ` set xs)), sz'))
    \<and> unat sz' = saturated (unat sz + sum_list (map (\<lambda>b. nodeBytes (ns ! b)) xs))"
  using assms
proof (induction xs arbitrary: a seen count observed sz previous)
  case Nil
  have "unat sz = saturated (unat sz)"
    using word_order.extremum [of sz] by (simp add: saturated_def word_le_nat_alt unat_max_u64)
  then show ?case using Nil by (simp add: validateZero.simps)
next
  case (Cons b xs)
  have b: "nodeOk (ns ! b)" "1 \<le> heightAt ns b" using Cons.prems by auto
  let ?sz = "saturatingAdd sz (nodeSize (ns ! b))"
  have step: "validateZero ns seen count observed sz previous (nextAt ns a 0) =
      validateZero ns (b # seen) (count + 1) (max observed (heightAt ns b)) ?sz (Some b) (nextAt ns b 0)"
    using Cons.prems b by (subst validateZero.simps) (auto simp: nodeOk_def split: option.splits)
  obtain sz' where sz':
    "validateZero ns (b # seen) (count + 1) (max observed (heightAt ns b)) ?sz (Some b) (nextAt ns b 0) =
      Some (Inr (rev xs @ b # seen, count + 1 + length xs,
        Max (insert (max observed (heightAt ns b)) (heightAt ns ` set xs)), sz'))"
    "unat sz' = saturated (unat ?sz + sum_list (map (\<lambda>b. nodeBytes (ns ! b)) xs))"
    using Cons.IH [of b "b # seen" "Some b" "count + 1" "max observed (heightAt ns b)" ?sz] Cons.prems
    by (auto simp: ordered_def)
  have "Max (insert (max observed (heightAt ns b)) (heightAt ns ` set xs)) =
      Max (insert observed (heightAt ns ` set (b # xs)))"
    by (cases "xs = []") (simp_all add: max.assoc)
  moreover have "unat (nodeSize (ns ! b)) = saturated (nodeBytes (ns ! b))"
    using b by (simp add: unat_nodeSize nodeOk_def)
  ultimately show ?case using step sz' by (simp add: unat_saturatingAdd add.assoc)
qed

lemma validateLevel_linked:
  assumes "linked ns level a xs" "distinct xs" "set xs \<inter> set seen = {}" "ordered ns xs"
    and "\<forall>b\<in>set xs. b \<in> set zero \<and> level < heightAt ns b"
    and "case previous of None \<Rightarrow> True | Some p \<Rightarrow> \<forall>b\<in>set xs. keyAt ns p < keyAt ns b"
  shows "validateLevel ns zero level seen previous (nextAt ns a level) = Some (Inr ())"
  using assms
proof (induction xs arbitrary: a seen previous)
  case Nil
  then show ?case by (simp add: validateLevel.simps)
next
  case (Cons b xs)
  have "validateLevel ns zero level seen previous (nextAt ns a level) =
      validateLevel ns zero level (b # seen) (Some b) (nextAt ns b level)"
    using Cons.prems by (subst validateLevel.simps) (auto split: option.splits)
  also have "\<dots> = Some (Inr ())"
    using Cons.prems by (intro Cons.IH) (auto simp: ordered_def)
  finally show ?case .
qed

lemma validateLevels_ok:
  "(\<And>level. level \<in> set levels \<Longrightarrow> validateLevel ns zero level [] None (nextAt ns 0 level) = Some (Inr ()))
   \<Longrightarrow> validateLevels ns zero levels = Some (Inr ())"
  by (induction levels) simp_all

lemma tableNodes_order:
  assumes "skipOk m ord"
  shows "length ord = length (tableNodes m)"
    and "sum_list (map (\<lambda>a. nodeBytes (mtNodes m ! a)) ord) = sum_list (map nodeBytes (tableNodes m))"
proof -
  have d: "distinct ord" "set ord = {1..<length (mtNodes m)}"
    using assms ordered_distinct by (auto simp: skipOk_def)
  show "length ord = length (tableNodes m)" using distinct_card [OF d(1)] d(2) by simp
  have nb: "nodeBytes (nodeData n) = nodeBytes n" for n by (simp add: nodeBytes_def)
  show "sum_list (map (\<lambda>a. nodeBytes (mtNodes m ! a)) ord) = sum_list (map nodeBytes (tableNodes m))"
    using d by (simp add: tableNodes_map [OF assms] sum_list_distinct_conv_sum_set comp_def nb)
qed

lemma skipOk_chain:
  assumes "skipOk m ord"
  shows "linked (mtNodes m) 0 0 ord"
proof -
  have "tall (mtNodes m) 0 ord = ord" using assms by (intro tall_0) (simp add: skipOk_def)
  moreover have "linked (mtNodes m) 0 0 (tall (mtNodes m) 0 ord)" using assms by (simp add: skipOk_def maxHeight_def)
  ultimately show ?thesis by simp
qed

lemma validateLocked_ok:
  assumes "memOk m f"
  shows "validateLocked m = Some (Inr ())"
proof -
  let ?ns = "mtNodes m"
  obtain ord where ok: "skipOk m ord" and st: "statsOk (tableNodes m) (mtCount m) (mtHeight m) (mtSize m)"
    using assms by (auto simp: memOk_def)
  have ord: "ordered ?ns ord" "distinct ord" and lk: "\<And>l. l < maxHeight \<Longrightarrow> linked ?ns l 0 (tall ?ns l ord)"
    and pos: "\<forall>a\<in>set ord. 1 \<le> heightAt ?ns a" using ok ordered_distinct by (auto simp: skipOk_def)
  have nodes: "nodeOk (?ns ! b)" if "b \<in> set ord" for b
    using st that by (auto simp: statsOk_def list_all_iff set_tableNodes [OF ok] nodeOk_def)
  have heights: "Max (insert 1 (heightAt ?ns ` set ord)) = mtHeight m"
    using st by (simp add: statsOk_def set_tableNodes [OF ok] image_image del: Max_insert)
  note lk0 = skipOk_chain [OF ok]
  have "unat emptyTableBytes = 352"
    by (simp add: emptyTableBytes_def tableMetadataBytes_def nodeMetadataBytes_def wordBytes_def maxHeight_def)
  then obtain sz where zero: "validateZero ?ns [] 0 1 emptyTableBytes None (nextAt ?ns 0 0) =
      Some (Inr (rev ord, length ord, mtHeight m, sz))" "unat sz = unat (mtSize m)"
    using validateZero_linked [OF lk0 ord(2) _ ord(1), of "[]" None 0 1 emptyTableBytes] nodes pos heights st
    by (auto simp: statsOk_def tableNodes_order(2) [OF ok] simp del: Max_insert One_nat_def)
  have "validateLevel ?ns (rev ord) l [] None (nextAt ?ns 0 l) = Some (Inr ())" if "l \<in> set [1..<maxHeight]" for l
  proof (rule validateLevel_linked)
    show "linked ?ns l 0 (tall ?ns l ord)" using that by (intro lk) simp
    show "distinct (tall ?ns l ord)" "ordered ?ns (tall ?ns l ord)"
      using ord by (simp_all add: tall_def ordered_def sorted_wrt_filter)
  qed (auto simp: set_tall)
  then have "validateLevels ?ns (rev ord) [1..<maxHeight] = Some (Inr ())" by (rule validateLevels_ok)
  moreover have "length ord = mtCount m" using st tableNodes_order(1) [OF ok] by (simp add: statsOk_def)
  moreover have "sz = mtSize m" using zero(2) by (simp add: word_unat_eq_iff)
  ultimately show ?thesis using ok zero(1) by (simp add: validateLocked_def skipOk_def)
qed

section \<open>Reading\<close>

definition represents :: "MemTable \<Rightarrow> KeyedEntry list \<Rightarrow> bool" where
  "represents m es \<longleftrightarrow> (\<exists>ord. skipOk m ord \<and> es = map (\<lambda>a. cloneEntry (mtNodes m ! a)) ord)"

lemma cloneEntry_simps [simp]:
  "entryKey (cloneEntry n) = skKey n" "entryValue (cloneEntry n) = skValue n"
  by (simp_all add: cloneEntry_def)

lemma represents_sorted: "represents m es \<Longrightarrow> sortedEntries es"
  by (auto simp: represents_def sortedEntries_def skipOk_def ordered_def sorted_wrt_map)

lemma memOk_represents:
  assumes "memOk m f"
  shows "\<exists>es. represents m es \<and> sortedEntries es \<and> entriesOf es = f"
proof -
  obtain ord where ok: "skipOk m ord" and holds: "holdsMap (tableNodes m) f" using assms by (auto simp: memOk_def)
  let ?es = "map (\<lambda>a. cloneEntry (mtNodes m ! a)) ord"
  have rep: "represents m ?es" using ok by (auto simp: represents_def)
  have "entriesOf ?es k = f k" for k
  proof -
    have "f k = Some v \<longleftrightarrow> (k, v) \<in> Map.graph f" for v by (auto intro: in_graphI dest: in_graphD)
    also have "\<dots> v \<longleftrightarrow> (\<exists>a\<in>set ord. keyAt (mtNodes m) a = k \<and> skValue (mtNodes m ! a) = v)" for v
      using holds by (auto simp: holdsMap_def set_tableNodes [OF ok] image_iff)
    also have "\<dots> v \<longleftrightarrow> KeyedEntry k v \<in> set ?es" for v
      by (auto simp: cloneEntry_def)
    finally have "f k = Some v \<longleftrightarrow> entriesOf ?es k = Some v" for v
      using entriesOf_eq_Some [OF represents_sorted [OF rep]] by blast
    then show ?thesis by (metis not_None_eq)
  qed
  then show ?thesis using rep represents_sorted by blast
qed

lemma entriesAtLeast_order: "map (\<lambda>a. cloneEntry (ns ! a)) (after ns key ord) = entriesAtLeast key (map (\<lambda>a. cloneEntry (ns ! a)) ord)"
  by (simp add: after_def entriesAtLeast_def filter_map comp_def)

lemma represents_lowerBound:
  assumes "represents m es"
  shows "\<exists>preds as. lowerBoundLocked m key = Some (firstOf as, preds) \<and>
    map (\<lambda>a. cloneEntry (mtNodes m ! a)) as = entriesAtLeast key es \<and>
    (\<exists>bs a. linked (mtNodes m) 0 a (bs @ as))"
proof -
  obtain ord where ok: "skipOk m ord" and es: "es = map (\<lambda>a. cloneEntry (mtNodes m ! a)) ord"
    using assms by (auto simp: represents_def)
  obtain preds where "lowerBoundLocked m key = Some (firstOf (after (mtNodes m) key ord), preds)"
    using lowerBound_ok [OF ok, of key] by (auto simp: firstOf_def)
  moreover have "linked (mtNodes m) 0 0 (before (mtNodes m) key ord @ after (mtNodes m) key ord)"
    using skipOk_chain [OF ok] before_after [of "mtNodes m" ord key] ok by (simp add: skipOk_def)
  ultimately show ?thesis using entriesAtLeast_order es by metis
qed

lemma memGet_entries:
  assumes "represents m es"
  shows "memGet key m = Some (map_option (KeyedEntry key) (entriesOf es key))"
proof -
  have so: "sortedEntries es" using assms by (rule represents_sorted)
  obtain preds as where lb: "lowerBoundLocked m key = Some (firstOf as, preds)"
    and as: "map (\<lambda>a. cloneEntry (mtNodes m ! a)) as = entriesAtLeast key es"
    using represents_lowerBound [OF assms] by blast
  have sorted: "sortedEntries (entriesAtLeast key es)" using so by (simp add: sortedEntries_def entriesAtLeast_def sorted_wrt_filter)
  have mem: "e \<in> set (entriesAtLeast key es) \<longleftrightarrow> e \<in> set es \<and> key \<le> entryKey e" for e by (auto simp: entriesAtLeast_def)
  show ?thesis
  proof (cases as)
    case Nil
    then have "entriesAtLeast key es = []" using as by simp
    then have "entriesOf es key = None" using entriesOf_eq_Some [OF so, of key] mem
      by (metis KeyedEntry.sel(1) empty_iff list.set(1) not_None_eq order_refl)
    then show ?thesis using lb Nil by (simp add: memGet_def)
  next
    case (Cons a as')
    let ?e = "cloneEntry (mtNodes m ! a)"
    have c: "entriesAtLeast key es = ?e # map (\<lambda>a. cloneEntry (mtNodes m ! a)) as'" using as Cons by simp
    have "entriesOf es key = (if keyAt (mtNodes m) a = key then Some (skValue (mtNodes m ! a)) else None)"
    proof (cases "keyAt (mtNodes m) a = key")
      case True
      moreover have "?e \<in> set es" using c mem by (metis list.set_intros(1))
      ultimately show ?thesis using entriesOf_eq_Some [OF so] by (simp add: cloneEntry_def)
    next
      case False
      have "KeyedEntry key v \<notin> set es" for v
      proof
        assume "KeyedEntry key v \<in> set es"
        then have "KeyedEntry key v \<in> set (?e # map (\<lambda>a. cloneEntry (mtNodes m ! a)) as')" using mem c by (metis KeyedEntry.sel(1) order_refl)
        moreover have "key \<le> keyAt (mtNodes m) a" using mem c by (metis cloneEntry_simps(1) list.set_intros(1))
        ultimately show False using sorted False unfolding c sortedEntries_def by (auto simp: cloneEntry_def)
      qed
      then show ?thesis using entriesOf_eq_Some [OF so] False by (metis not_None_eq)
    qed
    then show ?thesis using lb Cons by (simp add: memGet_def cloneEntry_def)
  qed
qed

lemma memSeek_entries:
  assumes "represents m es"
  shows "memSeek key m = Some (firstOf (entriesAtLeast key es))"
proof -
  obtain preds as where "lowerBoundLocked m key = Some (firstOf as, preds)"
    "map (\<lambda>a. cloneEntry (mtNodes m ! a)) as = entriesAtLeast key es"
    using represents_lowerBound [OF assms] by blast
  then show ?thesis by (cases as) (auto simp: memSeek_def simp flip: \<open>map _ as = _\<close>)
qed

lemma memGetCandidate_entries:
  assumes "represents m es"
  shows "memGetCandidate user target m = Some (Inr (candidateOf user target es))"
proof -
  let ?K = "InternalKey user target KindDelete"
  obtain preds as where lb: "lowerBoundLocked m ?K = Some (firstOf as, preds)"
    and as: "map (\<lambda>a. cloneEntry (mtNodes m ! a)) as = entriesAtLeast ?K es"
    using represents_lowerBound [OF assms] by blast
  have "newInternalKey user target KindDelete = Inr ?K"
    by (simp add: newInternalKey_def kindValid_iff)
  then show ?thesis
    using lb candidate_from [OF represents_sorted [OF assms], of user target]
    by (cases as) (auto simp: memGetCandidate_def simp flip: as)
qed

lemma snapshotLocked_linked:
  "linked ns 0 a (bs @ as) \<Longrightarrow>
   snapshotLocked ns limit (firstOf as) = Some (map (\<lambda>a. cloneEntry (ns ! a))
     (takeWhile (\<lambda>a. case limit of None \<Rightarrow> True | Some e \<Rightarrow> userKey (keyAt ns a) < e) as))"
proof (induction as arbitrary: bs)
  case Nil
  then show ?case by (simp add: snapshotLocked.simps)
next
  case (Cons b as)
  have "linked ns 0 b as" using Cons.prems by (rule linked_suffix)
  then have "nextAt ns b 0 = firstOf as" by (cases as) auto
  moreover have "snapshotLocked ns limit (firstOf as) = Some (map (\<lambda>a. cloneEntry (ns ! a))
     (takeWhile (\<lambda>a. case limit of None \<Rightarrow> True | Some e \<Rightarrow> userKey (keyAt ns a) < e) as))"
    using Cons.IH [of "bs @ [b]"] Cons.prems by simp
  ultimately show ?case
    by (subst snapshotLocked.simps) (auto split: option.splits simp: not_le)
qed

lemma snapshotLocked_entries:
  assumes "represents m es" "linked (mtNodes m) 0 a (bs @ as)"
    and "map (\<lambda>a. cloneEntry (mtNodes m ! a)) as = filter P es"
  shows "snapshotLocked (mtNodes m) limit (firstOf as) = Some (filter (inRange None limit) (filter P es))"
proof -
  have "sortedEntries (filter P es)"
    using represents_sorted [OF assms(1)] by (simp add: sortedEntries_def sorted_wrt_filter)
  then have "takeWhile (\<lambda>e. case limit of None \<Rightarrow> True | Some l \<Rightarrow> userKey (entryKey e) < l) (filter P es) =
      filter (inRange None limit) (filter P es)" by (rule takeWhile_limit)
  then show ?thesis
    using snapshotLocked_linked [OF assms(2), of limit]
    by (cases limit) (simp_all add: takeWhile_map comp_def flip: assms(3))
qed

lemma snapshotLocked_all:
  assumes "represents m es"
  shows "snapshotLocked (mtNodes m) limit (nextAt (mtNodes m) 0 0) = Some (filter (inRange None limit) es)"
proof -
  obtain ord where ok: "skipOk m ord" and es: "es = map (\<lambda>a. cloneEntry (mtNodes m ! a)) ord"
    using assms by (auto simp: represents_def)
  have lk: "linked (mtNodes m) 0 0 ([] @ ord)" using skipOk_chain [OF ok] by simp
  then have "nextAt (mtNodes m) 0 0 = firstOf ord" by (cases ord) auto
  then show ?thesis using snapshotLocked_entries [OF assms lk, of "\<lambda>_. True" limit] es by simp
qed

lemma memIterator_entries: "represents m es \<Longrightarrow> memIterator m = Some es"
  by (simp add: memIterator_def snapshotLocked_all inRange_def)

lemma memIteratorFrom_entries:
  assumes "represents m es"
  shows "memIteratorFrom key m = Some (entriesAtLeast key es)"
  using represents_lowerBound [OF assms, of key] snapshotLocked_entries [OF assms, where limit = None]
  by (fastforce simp: memIteratorFrom_def entriesAtLeast_def inRange_def)

lemma memRange_entries:
  assumes "represents m es"
  shows "memRange start limit m = Some
    (if (case (start, limit) of (Some s, Some e) \<Rightarrow> e < s | _ \<Rightarrow> False) then Inl ErrInvalidRange
     else Inr (filter (inRange start limit) es))"
proof (cases start)
  case None
  then show ?thesis by (simp add: memRange_def snapshotLocked_all [OF assms])
next
  case (Some s)
  let ?K = "InternalKey s (-1) KindDelete"
  obtain preds as bs a where lb: "lowerBoundLocked m ?K = Some (firstOf as, preds)"
    and as: "map (\<lambda>a. cloneEntry (mtNodes m ! a)) as = filter (\<lambda>e. \<not> entryKey e < ?K) es"
    and lk: "linked (mtNodes m) 0 a (bs @ as)"
    using represents_lowerBound [OF assms, of ?K] by (auto simp: entriesAtLeast_def)
  have "filter (inRange None limit) (filter (\<lambda>e. \<not> entryKey e < ?K) es) = filter (inRange start limit) es"
    unfolding filter_filter using Some
    by (intro filter_cong) (auto simp: seek_from inRange_def word_order.extremum)
  moreover have "newInternalKey s (-1) KindDelete = Inr ?K" by (simp add: newInternalKey_def kindValid_iff)
  ultimately show ?thesis
    using Some lb snapshotLocked_entries [OF assms lk as, of limit] by (auto simp: memRange_def split: option.splits)
qed

section \<open>The sequential specification\<close>

datatype MemOp =
    OpInsert InternalKey bytes
  | OpBatch WriteBatch
  | OpVersion u64 "Mutation list"
  | OpFreeze

fun memStep :: "bool \<Rightarrow> MemOp \<Rightarrow> MemTable \<Rightarrow> (MemTable \<times> (MemError + unit)) option" where
  "memStep expensive (OpInsert key v) m = memInsert expensive key v m"
| "memStep expensive (OpBatch batch) m = ApplyBatch expensive batch m"
| "memStep expensive (OpVersion version mus) m = ApplyVersion expensive version mus m"
| "memStep expensive OpFreeze m = Freeze expensive m"

fun memRun :: "bool \<Rightarrow> MemOp list \<Rightarrow> MemTable \<Rightarrow> (MemTable \<times> (MemError + unit) list) option" where
  "memRun expensive [] m = Some (m, [])"
| "memRun expensive (op # ops) m =
     Option.bind (memStep expensive op m) (\<lambda>(m, r).
       Option.bind (memRun expensive ops m) (\<lambda>(m, rs). Some (m, r # rs)))"

text \<open>
  The specification: a finite map that a write extends by all its entries or, when it is
  refused, leaves alone. The first reason to refuse is the one reported; a write that is refused
  for what it contains says so before it is refused for the state of the table.
\<close>

definition putAll :: "KeyedEntry list \<Rightarrow> (InternalKey \<rightharpoonup> bytes) \<Rightarrow> (InternalKey \<rightharpoonup> bytes)" where
  "putAll es f = fold (\<lambda>e f. f(entryKey e \<mapsto> entryValue e)) es f"

definition specWrite :: "MemError + KeyedEntry list \<Rightarrow> (InternalKey \<rightharpoonup> bytes) \<times> bool \<Rightarrow>
    ((InternalKey \<rightharpoonup> bytes) \<times> bool) \<times> (MemError + unit)" where
  "specWrite staged s =
     (case staged of
        Inl e \<Rightarrow> (s, Inl e)
      | Inr es \<Rightarrow> if snd s then (s, Inl ErrFrozen) else ((putAll es (fst s), snd s), Inr ()))"

text \<open>
  A write names its first faulty mutation, if it has one. Otherwise the mutation at position
  \<open>i\<close> is stored under the sequence \<open>seqOf i\<close>: the first sequence of the batch plus \<open>i\<close>, or the
  version.
\<close>

definition faultOf :: "nat \<Rightarrow> Mutation \<Rightarrow> MemError option" where
  "faultOf i mu =
     (if \<not> kindValid (mKind mu) then Some (MutationKey i ErrInvalidValueKind)
      else if \<not> carriesValue (mKind mu) \<and> mValue mu \<noteq> [] then Some (MutationDeleteHasValue i)
      else None)"

definition specStaged :: "(nat \<Rightarrow> u64) \<Rightarrow> Mutation list \<Rightarrow> MemError + KeyedEntry list" where
  "specStaged seqOf mus =
     (case List.map_filter (\<lambda>i. faultOf i (mus ! i)) [0..<length mus] of
        e # _ \<Rightarrow> Inl e
      | [] \<Rightarrow> Inr (map (\<lambda>i. KeyedEntry (InternalKey (mKey (mus ! i)) (seqOf i) (mKind (mus ! i))) (mValue (mus ! i)))
          [0..<length mus]))"

fun specStep :: "MemOp \<Rightarrow> (InternalKey \<rightharpoonup> bytes) \<times> bool \<Rightarrow> ((InternalKey \<rightharpoonup> bytes) \<times> bool) \<times> (MemError + unit)" where
  "specStep (OpInsert key v) s =
     (if snd s then (s, Inl ErrFrozen)
      else if \<not> carriesValue (kind key) \<and> v \<noteq> [] then (s, Inl ErrDeleteHasValue)
      else specWrite (Inr [KeyedEntry key v]) s)"
| "specStep (OpBatch batch) s =
     specWrite
       (if mutations batch = [] then Inl MemEmptyBatch
        else if unat (firstSequence batch) + length (mutations batch) > 2 ^ 64 then Inl MemSequenceOverflow
        else specStaged (\<lambda>i. word_of_nat (unat (firstSequence batch) + i)) (mutations batch)) s"
| "specStep (OpVersion version mus) s =
     specWrite (if mus = [] then Inl MemEmptyBatch else specStaged (\<lambda>_. version) mus) s"
| "specStep OpFreeze s = ((fst s, True), Inr ())"

fun specRun :: "MemOp list \<Rightarrow> (InternalKey \<rightharpoonup> bytes) \<times> bool \<Rightarrow> ((InternalKey \<rightharpoonup> bytes) \<times> bool) \<times> (MemError + unit) list" where
  "specRun [] s = (s, [])"
| "specRun (op # ops) s = (let (s, r) = specStep op s; (s, rs) = specRun ops s in (s, r # rs))"

text \<open>
  What the types of Go give: an internal key has a valid kind, and a slice has fewer than
  \<open>2 ^ 63\<close> elements.
\<close>

fun opOk :: "MemOp \<Rightarrow> bool" where
  "opOk (OpInsert key v) \<longleftrightarrow> kindValid (kind key) \<and> length v < 2 ^ 63"
| "opOk (OpBatch batch) \<longleftrightarrow> length (mutations batch) < 2 ^ 63 \<and> list_all (\<lambda>mu. length (mValue mu) < 2 ^ 63) (mutations batch)"
| "opOk (OpVersion version mus) \<longleftrightarrow> list_all (\<lambda>mu. length (mValue mu) < 2 ^ 63) mus"
| "opOk OpFreeze \<longleftrightarrow> True"

definition memEntryOk :: "KeyedEntry \<Rightarrow> bool" where
  "memEntryOk e \<longleftrightarrow> kindValid (kind (entryKey e)) \<and> length (entryValue e) < 2 ^ 63"

definition simTable :: "MemTable \<Rightarrow> (InternalKey \<rightharpoonup> bytes) \<times> bool \<Rightarrow> bool" where
  "simTable m s \<longleftrightarrow> memOk m (fst s) \<and> mtFrozen m = snd s"

lemma simTable_new: "simTable (newWithRandom random) (Map.empty, False)"
proof -
  have "tableNodes (newWithRandom random) = []" by (simp add: tableNodes_def newWithRandom_def)
  moreover have "unat emptyTableBytes = saturated 352"
    by (simp add: emptyTableBytes_def tableMetadataBytes_def nodeMetadataBytes_def wordBytes_def maxHeight_def saturated_def)
  ultimately show ?thesis
    using skipOk_newWithRandom [of random]
    by (auto simp: simTable_def memOk_def statsOk_def holdsMap_def newWithRandom_def)
qed

lemma insertAll_ok:
  "memOk m f \<Longrightarrow> list_all memEntryOk es \<Longrightarrow>
   \<exists>m'. insertAll es m = Some (m', Inr ()) \<and> memOk m' (putAll es f) \<and> mtFrozen m' = mtFrozen m"
proof (induction es arbitrary: m f)
  case (Cons e es)
  obtain m1 where "insertLocked (entryKey e) (entryValue e) m = Some (m1, Inr ())"
    "memOk m1 (f(entryKey e \<mapsto> entryValue e))" "mtFrozen m1 = mtFrozen m"
    using insertLocked_ok [OF Cons.prems(1), of "entryKey e" "entryValue e"] Cons.prems(2) by (auto simp: memEntryOk_def)
  then show ?case using Cons.IH Cons.prems(2) by (fastforce simp: putAll_def)
qed (simp add: putAll_def)

lemma andValidate_ok: "memOk m f \<Longrightarrow> andValidate expensive (Some (m, Inr ())) = Some (m, Inr ())"
  by (simp add: andValidate_def validateLocked_ok)

lemma applyStaged_ok:
  assumes "simTable m s" "list_all memEntryOk es"
  shows "\<exists>m'. applyStaged expensive es m = Some (m', snd (specWrite (Inr es) s)) \<and> simTable m' (fst (specWrite (Inr es) s))"
proof (cases "snd s")
  case False
  obtain m' where m': "insertAll es m = Some (m', Inr ())" "memOk m' (putAll es (fst s))" "mtFrozen m' = mtFrozen m"
    using insertAll_ok [of m "fst s" es] assms by (auto simp: simTable_def)
  then show ?thesis
    using assms False andValidate_ok [OF m'(2)] by (simp add: applyStaged_def simTable_def specWrite_def)
qed (use assms in \<open>simp add: applyStaged_def simTable_def specWrite_def\<close>)

lemma newInternalKey_valid: "newInternalKey u q k = Inr key \<Longrightarrow> kindValid (kind key)"
  by (auto simp: newInternalKey_def split: if_splits)

lemma map_filter_shift: "List.map_filter f (map g xs) = List.map_filter (f \<circ> g) xs"
  by (induction xs) (simp_all add: List.map_filter_simps split: option.split)

lemma staged_shift:
  "(case List.map_filter (\<lambda>i. faultOf (k + i) ((mu # mus) ! i)) [0..<length (mu # mus)] of
      e # _ \<Rightarrow> Inl e
    | [] \<Rightarrow> Inr (map (\<lambda>i. KeyedEntry (InternalKey (mKey ((mu # mus) ! i)) (q (k + i)) (mKind ((mu # mus) ! i))) (mValue ((mu # mus) ! i)))
        [0..<length (mu # mus)])) =
   (case faultOf k mu of
      Some e \<Rightarrow> Inl e
    | None \<Rightarrow> bindR
        (case List.map_filter (\<lambda>i. faultOf (Suc k + i) (mus ! i)) [0..<length mus] of
           e # _ \<Rightarrow> Inl e
         | [] \<Rightarrow> Inr (map (\<lambda>i. KeyedEntry (InternalKey (mKey (mus ! i)) (q (Suc k + i)) (mKind (mus ! i))) (mValue (mus ! i))) [0..<length mus]))
        (\<lambda>es. Inr (KeyedEntry (InternalKey (mKey mu) (q k) (mKind mu)) (mValue mu) # es)))"
proof -
  have range: "[0..<length (mu # mus)] = 0 # map Suc [0..<length mus]"
    by (simp add: map_Suc_upt upt_conv_Cons del: upt_Suc)
  show ?thesis
    unfolding range by (simp add: List.map_filter_simps map_filter_shift comp_def split: option.split list.split)
qed

lemma stageBatch_spec:
  "stageBatch k first mus =
   (case List.map_filter (\<lambda>i. faultOf (k + i) (mus ! i)) [0..<length mus] of
      e # _ \<Rightarrow> Inl e
    | [] \<Rightarrow> Inr (map (\<lambda>i. KeyedEntry (InternalKey (mKey (mus ! i)) (first + word_of_nat (k + i)) (mKind (mus ! i))) (mValue (mus ! i)))
        [0..<length mus]))"
proof (induction mus arbitrary: k)
  case (Cons mu mus)
  show ?case
    unfolding staged_shift [where q = "\<lambda>i. first + word_of_nat i"]
    by (simp add: Cons.IH faultOf_def newInternalKey_def del: length_upt)
qed (simp add: List.map_filter_simps)

lemma stageVersion_spec:
  "stageVersion k version mus =
   (case List.map_filter (\<lambda>i. faultOf (k + i) (mus ! i)) [0..<length mus] of
      e # _ \<Rightarrow> Inl e
    | [] \<Rightarrow> Inr (map (\<lambda>i. KeyedEntry (InternalKey (mKey (mus ! i)) version (mKind (mus ! i))) (mValue (mus ! i)))
        [0..<length mus]))"
proof (induction mus arbitrary: k)
  case (Cons mu mus)
  show ?case
    unfolding staged_shift [where q = "\<lambda>_. version"]
    by (simp add: Cons.IH faultOf_def newInternalKey_def del: length_upt)
qed (simp add: List.map_filter_simps)

lemma stageBatch_refines: "stageBatch 0 first mus = specStaged (\<lambda>i. word_of_nat (unat first + i)) mus"
proof -
  have "word_of_nat (unat first + i) = first + word_of_nat i" for i by simp
  then show ?thesis unfolding stageBatch_spec specStaged_def by (simp split: list.split)
qed

lemma stageVersion_refines: "stageVersion 0 version mus = specStaged (\<lambda>_. version) mus"
  unfolding stageVersion_spec specStaged_def by simp

lemma stageBatch_ok:
  "stageBatch i first mus = Inr es \<Longrightarrow> list_all (\<lambda>mu. length (mValue mu) < 2 ^ 63) mus \<Longrightarrow> list_all memEntryOk es"
  by (induction mus arbitrary: i es)
     (auto simp: memEntryOk_def newInternalKey_valid elim!: bindR_okE split: sum.splits if_splits)

lemma stageVersion_ok:
  "stageVersion i version mus = Inr es \<Longrightarrow> list_all (\<lambda>mu. length (mValue mu) < 2 ^ 63) mus \<Longrightarrow> list_all memEntryOk es"
  by (induction mus arbitrary: i es)
     (auto simp: memEntryOk_def newInternalKey_valid elim!: bindR_okE split: sum.splits if_splits)

lemma batch_overflow:
  assumes "n < 2 ^ 63" "0 < n"
  shows "(first > -1 - (word_of_nat n - 1 :: u64)) \<longleftrightarrow> unat first + n > 2 ^ 64"
proof -
  have "(word_of_nat n - 1 :: u64) = word_of_nat (n - 1)" using assms(2) by (simp add: of_nat_diff)
  then have "unat (word_of_nat n - 1 :: u64) = n - 1" using assms unat_of_nat_u64 [of "n - 1"] by simp
  then have eq: "unat (-1 - (word_of_nat n - 1) :: u64) = 18446744073709551615 - (n - 1)"
    unfolding unat_max_minus by simp
  show ?thesis unfolding word_less_nat_alt eq using assms by auto
qed

lemma memStep_sim:
  assumes "simTable m s" "opOk op"
  shows "\<exists>m'. memStep expensive op m = Some (m', snd (specStep op s)) \<and> simTable m' (fst (specStep op s))"
proof (cases op)
  case (OpInsert key v)
  have "memEntryOk (KeyedEntry key v)" using assms(2) by (simp add: OpInsert memEntryOk_def)
  then have e: "\<exists>m'. applyStaged expensive [KeyedEntry key v] m = Some (m', snd (specWrite (Inr [KeyedEntry key v]) s)) \<and>
      simTable m' (fst (specWrite (Inr [KeyedEntry key v]) s))"
    by (intro applyStaged_ok [OF assms(1)]) simp
  have "insertAll [KeyedEntry key v] m = insertLocked key v m"
    by (cases "insertLocked key v m") (auto split: sum.splits)
  then show ?thesis
    using e assms(1) OpInsert by (auto simp: memInsert_def applyStaged_def simTable_def)
next
  case (OpBatch batch)
  show ?thesis
  proof (cases "mutations batch = []")
    case False
    then have o: "(firstSequence batch > -1 - (word_of_nat (length (mutations batch)) - 1)) \<longleftrightarrow>
        unat (firstSequence batch) + length (mutations batch) > 2 ^ 64"
      using assms(2) by (intro batch_overflow) (auto simp: OpBatch)
    show ?thesis
    proof (cases "stageBatch 0 (firstSequence batch) (mutations batch)")
      case (Inr es)
      then have "list_all memEntryOk es" using assms(2) stageBatch_ok by (auto simp: OpBatch)
      then show ?thesis using applyStaged_ok [OF assms(1)] Inr Inr [unfolded stageBatch_refines] False assms(1) OpBatch o
        by (auto simp: ApplyBatch_def specWrite_def)
    next
      case (Inl e)
      then show ?thesis using Inl [unfolded stageBatch_refines] False assms(1) OpBatch o
        by (auto simp: ApplyBatch_def specWrite_def)
    qed
  qed (use assms(1) OpBatch in \<open>auto simp: ApplyBatch_def specWrite_def\<close>)
next
  case (OpVersion version mus)
  show ?thesis
  proof (cases "stageVersion 0 version mus")
    case (Inr es)
    then have "list_all memEntryOk es" using assms(2) stageVersion_ok by (auto simp: OpVersion)
    then show ?thesis using applyStaged_ok [OF assms(1)] Inr Inr [unfolded stageVersion_refines] assms(1) OpVersion
      by (auto simp: ApplyVersion_def specWrite_def)
  next
    case (Inl e)
    then show ?thesis using Inl [unfolded stageVersion_refines] assms(1) OpVersion
      by (auto simp: ApplyVersion_def specWrite_def)
  qed
next
  case OpFreeze
  have ok: "memOk (m\<lparr>mtFrozen := True\<rparr>) (fst s)"
    using assms(1) by (simp add: simTable_def memOk_def skipOk_def tableNodes_def)
  then show ?thesis using andValidate_ok [OF ok] by (simp add: OpFreeze Freeze_def simTable_def)
qed

lemma memRun_sim:
  "simTable m s \<Longrightarrow> list_all opOk ops \<Longrightarrow>
   \<exists>m'. memRun expensive ops m = Some (m', snd (specRun ops s)) \<and> simTable m' (fst (specRun ops s))"
proof (induction ops arbitrary: m s)
  case (Cons op ops)
  obtain m1 where "memStep expensive op m = Some (m1, snd (specStep op s))" "simTable m1 (fst (specStep op s))"
    using memStep_sim [OF Cons.prems(1)] Cons.prems(2) by auto
  moreover obtain m' where "memRun expensive ops m1 = Some (m', snd (specRun ops (fst (specStep op s))))"
    "simTable m' (fst (specRun ops (fst (specStep op s))))"
    using Cons.IH [OF calculation(2)] Cons.prems(2) by auto
  ultimately show ?case by (auto simp: Let_def split: prod.splits)
qed simp

section \<open>Draining iterators\<close>

partial_function (option) drainFrozen :: "SkipNode list \<Rightarrow> FrozenIter \<Rightarrow> KeyedEntry list option" where
  [code]: "drainFrozen ns it =
     (let (it', more) = fiNext ns it in
      if more then Option.bind (fiEntry ns it') (\<lambda>e. Option.bind (drainFrozen ns it') (\<lambda>es. Some (e # es)))
      else Some [])"

lemma drainFrozen_linked:
  "linked ns 0 a as \<Longrightarrow> drainFrozen ns \<lparr>fiCurrent = Some a, fiValid = valid\<rparr> = Some (map (\<lambda>a. cloneEntry (ns ! a)) as)"
  by (induction as arbitrary: a valid)
     (simp_all add: drainFrozen.simps [of ns "\<lparr>fiCurrent = Some _, fiValid = _\<rparr>"] fiNext_def fiEntry_def)

partial_function (option) drainSnapshot :: "MemIterator \<Rightarrow> KeyedEntry list option" where
  [code]: "drainSnapshot it =
     (let (it', more) = itNext it in
      if more then Option.bind (itEntry it') (\<lambda>e. Option.bind (drainSnapshot it') (\<lambda>es. Some (e # es)))
      else Some [])"

lemma drainSnapshot_from:
  "n \<le> length es \<Longrightarrow> drainSnapshot \<lparr>itEntries = es, itIndex = int n - 1, itValid = valid\<rparr> = Some (drop n es)"
proof (induction "length es - n" arbitrary: n valid)
  case 0
  then show ?case by (simp add: drainSnapshot.simps itNext_def Let_def)
next
  case (Suc k)
  then have n: "n < length es" by simp
  have "drainSnapshot \<lparr>itEntries = es, itIndex = int n, itValid = True\<rparr> = Some (drop (Suc n) es)"
    using Suc.hyps(1) [of "Suc n" True] Suc.hyps(2) n by simp
  then show ?case
    using n by (subst drainSnapshot.simps) (simp add: itNext_def itEntry_def Let_def Cons_nth_drop_Suc)
qed

lemma drainSnapshot_new: "drainSnapshot (newIterator es) = Some es"
  using drainSnapshot_from [of 0 es False] by (simp add: newIterator_def)

section \<open>Claims\<close>

text \<open>
  C30. For every sequence of inserts, batches, versioned writes and freezes, with every random source
  and with the whole-table checks on or off, the memtable's run returns, no assertion fails, and its
  results are those of the sequential specification: a write is refused, with the reason that
  comes first, and changes nothing, or it stores all its mutations, the one at position \<open>i\<close> of a
  batch under the first sequence plus \<open>i\<close>. Exact lookups in the final table are lookups in the specification's map, and its iterator lists exactly that map in
  comparator order.
\<close>

theorem mem_refines_map:
  assumes "list_all opOk ops" and "specRun ops (Map.empty, False) = ((f, frozen), rs)"
  shows "\<exists>m es. memRun expensive ops (newWithRandom random) = Some (m, rs) \<and> mtFrozen m = frozen \<and>
    (\<forall>key. memGet key m = Some (map_option (KeyedEntry key) (f key))) \<and>
    memIterator m = Some es \<and> sortedEntries es \<and> entriesOf es = f"
proof -
  obtain m where m: "memRun expensive ops (newWithRandom random) = Some (m, rs)" "simTable m (f, frozen)"
    using memRun_sim [OF simTable_new assms(1)] assms(2) by fastforce
  then obtain es where "represents m es" "sortedEntries es" "entriesOf es = f"
    using memOk_represents by (auto simp: simTable_def)
  then show ?thesis
    using m memGet_entries memIterator_entries by (auto simp: simTable_def)
qed

definition exampleOps :: "MemOp list" where
  "exampleOps =
     [OpBatch \<lparr>firstSequence = 5, mutations =
        [\<lparr>mKey = [1], mValue = [7], mKind = KindValue\<rparr>, \<lparr>mKey = [1], mValue = [], mKind = KindDelete\<rparr>]\<rparr>,
      OpInsert (InternalKey [0] 9 KindValue) [], OpInsert (InternalKey [1] 5 KindValue) [8, 8], OpFreeze,
      OpInsert (InternalKey [3] 1 KindValue) []]"

lemma exampleOps_ok: "list_all opOk exampleOps"
  by (simp add: exampleOps_def kind_defs kindValid_def word_le_nat_alt)

lemma exampleOps_spec:
  "specRun exampleOps (Map.empty, False) =
     (([InternalKey [1] 5 KindValue \<mapsto> [7], InternalKey [1] 6 KindDelete \<mapsto> [], InternalKey [0] 9 KindValue \<mapsto> [],
        InternalKey [1] 5 KindValue \<mapsto> [8, 8]], True), [Inr (), Inr (), Inr (), Inr (), Inl ErrFrozen])"
  by (simp add: exampleOps_def specWrite_def putAll_def specStaged_def faultOf_def List.map_filter_simps upt_rec
      kindValid_def carriesValue_def kind_defs word_le_nat_alt)

theorem mem_refines_map_witness:
  "\<exists>m. memRun True exampleOps (newWithRandom (\<lambda>_. 4)) =
      Some (m, [Inr (), Inr (), Inr (), Inr (), Inl ErrFrozen]) \<and> mtFrozen m \<and>
    memGet (InternalKey [1] 5 KindValue) m = Some (Some (KeyedEntry (InternalKey [1] 5 KindValue) [8, 8]))"
  using mem_refines_map [OF exampleOps_ok exampleOps_spec, of True "\<lambda>_. 4"] by fastforce

text \<open>
  C31. On every table that a run reaches, the searches and the snapshots return although they
  follow links until they meet the end, and the structural validation finds nothing wrong:
  no cycle, no node out of order or absent from the bottom level, and count, height and size as
  recorded.
\<close>

theorem mem_loops_return:
  assumes "list_all opOk ops" and "memRun expensive ops (newWithRandom random) = Some (m, rs)"
  shows "validateLocked m = Some (Inr ()) \<and> lowerBoundLocked m key \<noteq> None \<and> memIterator m \<noteq> None \<and>
    memIteratorFrom key m \<noteq> None \<and> memRange start limit m \<noteq> None"
proof -
  have sim: "simTable m (fst (specRun ops (Map.empty, False)))"
    using memRun_sim [OF simTable_new assms(1), of expensive random] assms(2) by auto
  then have ok: "memOk m (fst (fst (specRun ops (Map.empty, False))))" by (simp add: simTable_def)
  then obtain es where es: "represents m es" using memOk_represents by blast
  show ?thesis
    using validateLocked_ok [OF ok] represents_lowerBound [OF es, of key] memIterator_entries [OF es]
      memIteratorFrom_entries [OF es] memRange_entries [OF es] by auto
qed

theorem mem_loops_return_witness:
  "\<exists>m rs. memRun False exampleOps (newWithRandom (\<lambda>n. word_of_nat n)) = Some (m, rs) \<and>
     validateLocked m = Some (Inr ()) \<and> lowerBoundLocked m (InternalKey [2] 0 KindDelete) \<noteq> None"
proof -
  obtain m rs where "memRun False exampleOps (newWithRandom (\<lambda>n. word_of_nat n)) = Some (m, rs)"
    using memRun_sim [OF simTable_new exampleOps_ok] by blast
  then show ?thesis using mem_loops_return [OF exampleOps_ok] by blast
qed

text \<open>
  C32. In terms of the entries that the iterator of a reached table lists, a point read at a
  version returns the newest entry of the user key at or below that version, \<open>Seek\<close> the first
  entry not below its key, a range the entries between its bounds, and the direct iterator of
  a frozen table the same entries as the snapshot.
\<close>

theorem mem_reads_exact:
  assumes "list_all opOk ops" and "memRun expensive ops (newWithRandom random) = Some (m, rs)"
    and "memIterator m = Some es"
  shows "memGetCandidate user target m = Some (Inr (candidateOf user target es)) \<and>
    memSeek key m = Some (firstOf (entriesAtLeast key es)) \<and>
    memIteratorFrom key m = Some (entriesAtLeast key es) \<and>
    memRange start limit m = Some
      (if (case (start, limit) of (Some s, Some e) \<Rightarrow> e < s | _ \<Rightarrow> False) then Inl ErrInvalidRange
       else Inr (filter (inRange start limit) es)) \<and>
    drainSnapshot (newIterator es) = Some es \<and>
    (case FrozenIterator m of Inl e \<Rightarrow> \<not> mtFrozen m \<and> e = ErrNotFrozen | Inr it \<Rightarrow> drainFrozen (mtNodes m) it = Some es)"
proof -
  have "simTable m (fst (specRun ops (Map.empty, False)))"
    using memRun_sim [OF simTable_new assms(1), of expensive random] assms(2) by auto
  then obtain es' where "represents m es'" using memOk_represents by (auto simp: simTable_def)
  then have rep: "represents m es" using assms(3) memIterator_entries by fastforce
  then obtain ord where ok: "skipOk m ord" "es = map (\<lambda>a. cloneEntry (mtNodes m ! a)) ord"
    by (auto simp: represents_def)
  have "drainFrozen (mtNodes m) \<lparr>fiCurrent = Some 0, fiValid = False\<rparr> = Some es"
    using drainFrozen_linked [OF skipOk_chain [OF ok(1)]] ok(2) by simp
  then show ?thesis
    using memGetCandidate_entries [OF rep] memSeek_entries [OF rep] memIteratorFrom_entries [OF rep]
      memRange_entries [OF rep] drainSnapshot_new by (simp add: FrozenIterator_def)
qed

theorem mem_reads_exact_witness:
  "\<exists>m rs es. memRun False exampleOps (newWithRandom (\<lambda>_. 0)) = Some (m, rs) \<and> memIterator m = Some es \<and>
     memGetCandidate [1] 5 m = Some (Inr (candidateOf [1] 5 es)) \<and> memRange (Some [2]) (Some [1]) m = Some (Inl ErrInvalidRange)"
proof -
  obtain m rs where m: "memRun False exampleOps (newWithRandom (\<lambda>_. 0)) = Some (m, rs)"
    "simTable m (fst (specRun exampleOps (Map.empty, False)))"
    using memRun_sim [OF simTable_new exampleOps_ok] by blast
  then obtain es where "memIterator m = Some es"
    using memOk_represents memIterator_entries unfolding simTable_def by blast
  then show ?thesis
    using m mem_reads_exact [OF exampleOps_ok m(1), of es "[1]" 5 "InternalKey [] 0 0" "Some [2]" "Some [1]"] by simp
qed

end
