(* ===== verification/Sst_Decoder.thy ===== *)
theory Sst_Decoder
  imports Sst_Format
begin

text \<open>
  \<open>sstable/decoder.go\<close>: the index, the data blocks with their restart points, and the
  metadata, each with every check that can reject bytes, and the search for a key in the
  bytes of one block.
\<close>

record DecodedEntry =
  deKey :: InternalKey
  deEncoded :: bytes
  deValue :: bytes

record DecodedRestart =
  drOffset :: u32
  drEntryIndex :: nat
  drKey :: InternalKey

record DecodedBlock =
  dbHandle :: BlockHandle
  dbRestarts :: "u32 list"
  dbRestartEntries :: "DecodedRestart list"
  dbEntries :: "DecodedEntry list"

record DecodedIndexEntry =
  diKey :: InternalKey
  diEncoded :: bytes
  diHandle :: BlockHandle

record DecodedMetadata =
  dmEntryCount :: u64
  dmDeletionCount :: u64
  dmDataBlockCount :: u32
  dmRawKeyValueBytes :: u64
  dmSmallestInternal :: bytes
  dmLargestInternal :: bytes
  dmSmallestUser :: bytes
  dmLargestUser :: bytes

abbreviation corruptBlock :: "SstError + 'a" where
  "corruptBlock \<equiv> Inl (SstCorrupt SstBlock)"

definition readCanonicalUvarint :: "bytes \<Rightarrow> SstError + (u64 \<times> nat)" where
  "readCanonicalUvarint data =
     (let (v, consumed) = uvarint data in
      if consumed \<le> 0 then corruptBlock
      else if length (putUvarint v) \<noteq> nat consumed \<or> putUvarint v \<noteq> take (nat consumed) data then corruptBlock
      else Inr (v, nat consumed))"

section \<open>The index\<close>

fun decodeIndexLoop :: "nat \<Rightarrow> DecodedIndexEntry list \<Rightarrow> bytes \<Rightarrow> SstError + (DecodedIndexEntry list \<times> bytes)" where
  "decodeIndexLoop 0 entries remaining = Inr (entries, remaining)"
| "decodeIndexLoop (Suc left) entries remaining =
     (case readCanonicalUvarint remaining of
        Inl _ \<Rightarrow> corruptBlock
      | Inr (len, consumed) \<Rightarrow>
          if unat len < 9 \<or> unat len > MaxInternalKeySize then corruptBlock
          else let remaining = drop consumed remaining in
            if unat len > length remaining \<or> length remaining - unat len < 16 then corruptBlock
            else let encoded = take (unat len) remaining; remaining = drop (unat len) remaining in
              case decodeInternalKey encoded of
                Inl _ \<Rightarrow> corruptBlock
              | Inr key \<Rightarrow>
                  let handle = \<lparr>hOffset = le_get (slice 0 8 remaining), hLength = le_get (slice 8 16 remaining)\<rparr> in
                  if entries \<noteq> [] \<and> compareInternal (diKey (last entries)) key \<ge> 0 then corruptBlock
                  else decodeIndexLoop left (entries @ [\<lparr>diKey = key, diEncoded = encoded, diHandle = handle\<rparr>])
                         (drop 16 remaining))"

definition decodeIndex :: "bytes \<Rightarrow> SstError + DecodedIndexEntry list" where
  "decodeIndex payload =
     (if length payload < 4 then corruptBlock
      else let count = unat (le_get (slice 0 4 payload) :: u32); remaining = drop 4 payload in
        if count = 0 \<or> count > length remaining div 26 then corruptBlock
        else bindR (decodeIndexLoop count [] remaining) (\<lambda>(entries, remaining).
          if remaining \<noteq> [] then corruptBlock else Inr entries))"

section \<open>Data blocks\<close>

definition restartsOf :: "bytes \<Rightarrow> nat \<Rightarrow> nat \<Rightarrow> u32 list" where
  "restartsOf payload entriesEnd count =
     map (\<lambda>i. le_get (slice (entriesEnd + i * 4) (entriesEnd + i * 4 + 4) payload)) [0..<count]"

definition decodeRestartLayout :: "bytes \<Rightarrow> SstError + (nat \<times> u32 list)" where
  "decodeRestartLayout payload =
     (if length payload < 8 \<or> length payload > MaxDataBlockSize then corruptBlock
      else let restartCount = unat (le_get (drop (length payload - 4) payload) :: u32) in
        if restartCount = 0 \<or> restartCount > (length payload - 4) div 4 then corruptBlock
        else let entriesEnd = length payload - 4 - restartCount * 4 in
          if entriesEnd = 0 \<or> entriesEnd > 4294967295 then corruptBlock
          else let restarts = restartsOf payload entriesEnd restartCount in
            if list_ex (\<lambda>i. unat (restarts ! i) \<ge> entriesEnd \<or> i = 0 \<and> restarts ! i \<noteq> 0 \<or>
                 i > 0 \<and> restarts ! i \<le> restarts ! (i - 1)) [0..<restartCount]
            then corruptBlock
            else Inr (entriesEnd, restarts))"

definition decodeDataEntry :: "bytes \<Rightarrow> nat \<Rightarrow> nat \<Rightarrow> bytes \<Rightarrow> SstError + (DecodedEntry \<times> nat \<times> nat)" where
  "decodeDataEntry payload position entriesEnd previous =
     bindR (readCanonicalUvarint (slice position entriesEnd payload)) (\<lambda>(shared, consumed).
     let position = position + consumed in
     bindR (readCanonicalUvarint (slice position entriesEnd payload)) (\<lambda>(unshared, consumed).
     let position = position + consumed in
     bindR (readCanonicalUvarint (slice position entriesEnd payload)) (\<lambda>(valueLength, consumed).
     let position = position + consumed in
     if unat shared > length previous \<or> unat unshared > MaxInternalKeySize \<or> unat valueLength > MaxValueSize
     then corruptBlock
     else case checkedAdd unshared valueLength of
       None \<Rightarrow> corruptBlock
     | Some needed \<Rightarrow>
         if unat needed > entriesEnd - position then corruptBlock
         else case checkedAdd shared unshared of
           None \<Rightarrow> corruptBlock
         | Some keyLength \<Rightarrow>
             if unat keyLength < 9 \<or> unat keyLength > MaxInternalKeySize then corruptBlock
             else let keyBytes = take (unat shared) previous @ slice position (position + unat unshared) payload;
                      position = position + unat unshared;
                      v = slice position (position + unat valueLength) payload;
                      position = position + unat valueLength
               in case decodeInternalKey keyBytes of
                    Inl _ \<Rightarrow> corruptBlock
                  | Inr key \<Rightarrow>
                      if \<not> carriesValue (kind key) \<and> v \<noteq> [] then corruptBlock
                      else Inr (\<lparr>deKey = key, deEncoded = keyBytes, deValue = v\<rparr>, position, unat shared))))"

lemma readCanonicalUvarint_pos: "readCanonicalUvarint data = Inr (v, n) \<Longrightarrow> 0 < n"
  by (auto simp: readCanonicalUvarint_def split: prod.splits if_splits)

lemma decodeDataEntry_next:
  "decodeDataEntry payload position entriesEnd previous = Inr (e, n, shared) \<Longrightarrow> position < n"
  by (fastforce simp: decodeDataEntry_def Let_def elim!: bindR_okE dest!: readCanonicalUvarint_pos
      split: prod.splits if_splits option.splits sum.splits)

record BlockScan =
  bsEntries :: "DecodedEntry list"
  bsRestartEntries :: "DecodedRestart list"
  bsNextRestart :: nat
  bsPosition :: nat

function decodeEntriesLoop :: "bytes \<Rightarrow> nat \<Rightarrow> u32 list \<Rightarrow> bytes \<Rightarrow> BlockScan \<Rightarrow> SstError + BlockScan" where
  "decodeEntriesLoop payload entriesEnd restarts previous s =
     (if bsPosition s < entriesEnd then
        (case decodeDataEntry payload (bsPosition s) entriesEnd previous of
           Inl e \<Rightarrow> Inl e
         | Inr (entry, n, shared) \<Rightarrow>
             let restart = (bsNextRestart s < length restarts \<and> restarts ! bsNextRestart s = word_of_nat (bsPosition s)) in
             if restart \<and> shared \<noteq> 0 then corruptBlock
             else if bsEntries s \<noteq> [] \<and> compareInternal (deKey (last (bsEntries s))) (deKey entry) \<ge> 0 then corruptBlock
             else decodeEntriesLoop payload entriesEnd restarts (deEncoded entry)
               \<lparr>bsEntries = bsEntries s @ [entry],
                bsRestartEntries = bsRestartEntries s @
                  (if restart then [\<lparr>drOffset = word_of_nat (bsPosition s), drEntryIndex = length (bsEntries s), drKey = deKey entry\<rparr>] else []),
                bsNextRestart = bsNextRestart s + (if restart then 1 else 0),
                bsPosition = n\<rparr>)
      else Inr s)"
  by pat_completeness auto
termination
  by (relation "measure (\<lambda>(payload, entriesEnd, restarts, previous, s). entriesEnd - bsPosition s)")
     (auto dest!: decodeDataEntry_next)

declare decodeEntriesLoop.simps [simp del]

definition decodeDataBlock :: "bytes \<Rightarrow> BlockHandle \<Rightarrow> SstError + DecodedBlock" where
  "decodeDataBlock payload handle =
     bindR (decodeRestartLayout payload) (\<lambda>(entriesEnd, restarts).
     bindR (decodeEntriesLoop payload entriesEnd restarts []
              \<lparr>bsEntries = [], bsRestartEntries = [], bsNextRestart = 0, bsPosition = 0\<rparr>) (\<lambda>s.
       if bsPosition s \<noteq> entriesEnd \<or> bsEntries s = [] \<or> bsNextRestart s \<noteq> length restarts then corruptBlock
       else Inr \<lparr>dbHandle = handle, dbRestarts = restarts, dbRestartEntries = bsRestartEntries s, dbEntries = bsEntries s\<rparr>))"

section \<open>Searching a block\<close>

function searchRestarts :: "bytes \<Rightarrow> nat \<Rightarrow> u32 list \<Rightarrow> InternalKey \<Rightarrow> nat \<Rightarrow> nat \<Rightarrow> SstError + nat" where
  "searchRestarts payload entriesEnd restarts target left right =
     (if left < right then
        let middle = left + (right - left) div 2 in
        (case decodeDataEntry payload (unat (restarts ! middle)) entriesEnd [] of
           Inl _ \<Rightarrow> corruptBlock
         | Inr (entry, _, shared) \<Rightarrow>
             if shared \<noteq> 0 then corruptBlock
             else if compareInternal (deKey entry) target < 0
             then searchRestarts payload entriesEnd restarts target (middle + 1) right
             else searchRestarts payload entriesEnd restarts target left middle)
      else Inr left)"
  by pat_completeness auto
termination
  by (relation "measure (\<lambda>(payload, entriesEnd, restarts, target, left, right). right - left)") auto

declare searchRestarts.simps [simp del]

function scanInterval :: "bytes \<Rightarrow> nat \<Rightarrow> InternalKey \<Rightarrow> nat \<Rightarrow> nat \<Rightarrow> bytes \<Rightarrow> SstError + DecodedEntry option" where
  "scanInterval payload entriesEnd target limit position previous =
     (if position < limit then
        (case decodeDataEntry payload position entriesEnd previous of
           Inl _ \<Rightarrow> corruptBlock
         | Inr (entry, n, shared) \<Rightarrow>
             if previous = [] \<and> shared \<noteq> 0 then corruptBlock
             else if compareInternal (deKey entry) target \<ge> 0 then Inr (Some entry)
             else scanInterval payload entriesEnd target limit n (deEncoded entry))
      else Inr None)"
  by pat_completeness auto
termination
  by (relation "measure (\<lambda>(payload, entriesEnd, target, limit, position, previous). limit - position)")
     (auto dest!: decodeDataEntry_next)

declare scanInterval.simps [simp del]

definition seekDataBlock :: "bytes \<Rightarrow> InternalKey \<Rightarrow> SstError + DecodedEntry option" where
  "seekDataBlock payload target =
     bindR (decodeRestartLayout payload) (\<lambda>(entriesEnd, restarts).
     bindR (searchRestarts payload entriesEnd restarts target 0 (length restarts)) (\<lambda>left.
       let restart = left - 1;
           limit = (if restart + 1 < length restarts then unat (restarts ! (restart + 1)) else entriesEnd)
       in bindR (scanInterval payload entriesEnd target limit (unat (restarts ! restart)) []) (\<lambda>found.
         case found of
           Some entry \<Rightarrow> Inr (Some entry)
         | None \<Rightarrow>
             if restart + 1 < length restarts then
               (case decodeDataEntry payload (unat (restarts ! (restart + 1))) entriesEnd [] of
                  Inl _ \<Rightarrow> corruptBlock
                | Inr (entry, _, shared) \<Rightarrow>
                    if shared \<noteq> 0 then corruptBlock
                    else if compareInternal (deKey entry) target \<ge> 0 then Inr (Some entry) else Inr None)
             else Inr None)))"

section \<open>Metadata\<close>

fun metadataFields :: "nat list \<Rightarrow> bytes \<Rightarrow> SstError + (bytes list \<times> bytes)" where
  "metadataFields [] remaining = Inr ([], remaining)"
| "metadataFields (maximum # maximums) remaining =
     (if length remaining < 4 then corruptBlock
      else let len = unat (le_get (slice 0 4 remaining) :: u32); remaining = drop 4 remaining in
        if len > maximum \<or> len > length remaining then corruptBlock
        else bindR (metadataFields maximums (drop len remaining)) (\<lambda>(fields, rest).
          Inr (take len remaining # fields, rest)))"

definition metadataBoundsBad :: "DecodedMetadata \<Rightarrow> bool" where
  "metadataBoundsBad m =
     (case decodeInternalKey (dmSmallestInternal m) of
        Inl _ \<Rightarrow> True
      | Inr smallest \<Rightarrow>
          (case decodeInternalKey (dmLargestInternal m) of
             Inl _ \<Rightarrow> True
           | Inr largest \<Rightarrow>
               compareInternal smallest largest > 0 \<or> compareBytes (dmSmallestUser m) (dmLargestUser m) > 0))"

definition decodeMetadata :: "bytes \<Rightarrow> SstError + DecodedMetadata" where
  "decodeMetadata payload =
     (if length payload < 28 then corruptBlock
      else bindR (metadataFields [MaxInternalKeySize, MaxInternalKeySize, MaxUserKeySize, MaxUserKeySize] (drop 28 payload))
        (\<lambda>(fields, remaining).
          if remaining \<noteq> [] then corruptBlock
          else let m = \<lparr>dmEntryCount = le_get (slice 0 8 payload), dmDeletionCount = le_get (slice 8 16 payload),
                 dmDataBlockCount = le_get (slice 16 20 payload), dmRawKeyValueBytes = le_get (slice 20 28 payload),
                 dmSmallestInternal = fields ! 0, dmLargestInternal = fields ! 1,
                 dmSmallestUser = fields ! 2, dmLargestUser = fields ! 3\<rparr> in
            if dmEntryCount m = 0 \<or> dmDeletionCount m > dmEntryCount m \<or> dmDataBlockCount m = 0 then corruptBlock
            else if metadataBoundsBad m then corruptBlock
            else Inr m))"

end
