(* ===== verification/Sst_Reader.thy ===== *)
theory Sst_Reader
  imports Sst_Decoder
begin

text \<open>
  \<open>sstable/reader.go\<close> and \<open>sstable/iterator.go\<close>: opening a table with its complete validation,
  point reads through the index, and the iterator. The file is what its \<open>ReadAt\<close> answers for an
  offset and a length: a count, the bytes of the buffer and an error, with no assumption on
  their agreement. The path is its base name. Operations hold the lock from the check of the
  closed flag on, so they are single steps.
\<close>

section \<open>Reading blocks\<close>

datatype ReadErr = ReadEOF | ReadOther

type_synonym ReadAt = "u64 \<Rightarrow> nat \<Rightarrow> int \<times> bytes \<times> ReadErr option"

definition maxInt64 :: nat where "maxInt64 = 9223372036854775807"

definition readAtExact :: "ReadAt \<Rightarrow> u64 \<Rightarrow> nat \<Rightarrow> SstError + bytes" where
  "readAtExact f offset len =
     (if unat offset > maxInt64 then Inl (SstCorrupt SstHandle)
      else let (n, buffer, err) = f offset len in
        if n < 0 \<or> n > int len then Inl (SstIO ''impossible count'')
        else if err = Some ReadOther then Inl (SstIO ''read'')
        else if n \<noteq> int len \<or> err \<noteq> None then corruptBlock
        else Inr buffer)"

definition validateHandle :: "BlockHandle \<Rightarrow> u64 \<Rightarrow> nat \<Rightarrow> SstError + unit" where
  "validateHandle h limit minimumLength =
     (if unat (hLength h) < minimumLength \<or> hOffset h > limit \<or> hLength h > limit then Inl (SstCorrupt SstHandle)
      else case checkedAdd (hOffset h) (hLength h) of
        None \<Rightarrow> Inl (SstCorrupt SstHandle)
      | Some end' \<Rightarrow>
          if end' > limit \<or> unat (hOffset h) > maxInt64 \<or> unat (hLength h) > maxInt64 then Inl (SstCorrupt SstHandle)
          else Inr ())"

definition handleEndsAt :: "BlockHandle \<Rightarrow> u64 \<Rightarrow> bool" where
  "handleEndsAt h expected \<longleftrightarrow> checkedAdd (hOffset h) (hLength h) = Some expected"

definition readBlockUnlocked :: "ReadAt \<Rightarrow> BlockHandle \<Rightarrow> BlockKind \<Rightarrow> u64 \<Rightarrow> SstError + bytes" where
  "readBlockUnlocked f h expected regionEnd =
     bindR (validateHandle h regionEnd BlockTrailerSize) (\<lambda>_.
     if expected = BlockData \<and> unat (hLength h) > MaxDataBlockSize + BlockTrailerSize then Inl (SstCorrupt SstHandle)
     else bindR (readAtExact f (hOffset h) (unat (hLength h))) (\<lambda>buffer.
       let payloadEnd = length buffer - BlockTrailerSize in
       if buffer ! payloadEnd \<noteq> compressionNone then Inl SstUnsupportedVersion
       else if buffer ! (payloadEnd + 1) \<noteq> kindByte expected then corruptBlock
       else if buffer ! (payloadEnd + 2) \<noteq> blockVersion then Inl SstUnsupportedVersion
       else if crcUpdate 0 (take (payloadEnd + 3) buffer) \<noteq> le_get (drop (payloadEnd + 3) buffer)
       then Inl (SstCorrupt SstChecksum)
       else Inr (take payloadEnd buffer)))"

definition blockPayloadChecksum :: "bytes \<Rightarrow> BlockKind \<Rightarrow> u32" where
  "blockPayloadChecksum payload k = crcUpdate (crcUpdate 0 payload) [compressionNone, kindByte k, blockVersion]"

section \<open>Opening\<close>

record FooterState =
  fsIndex :: BlockHandle
  fsMetadata :: BlockHandle
  fsFilter :: BlockHandle
  fsDataEnd :: u64

definition decodeFooter :: "bytes \<Rightarrow> u64 \<Rightarrow> SstError + FooterState" where
  "decodeFooter footer footerOffset =
     (if length footer \<noteq> FooterSize then Inl (SstCorrupt SstHandle)
      else if crcUpdate (crcUpdate 0 (slice 0 68 footer)) (slice 72 80 footer) \<noteq> le_get (slice 68 72 footer)
      then Inl (SstCorrupt SstChecksum)
      else if le_get (slice 72 80 footer) \<noteq> fileMagic then corruptBlock
      else if le_get (slice 56 60 footer) \<noteq> FormatVersion then Inl SstUnsupportedVersion
      else let flags = le_get (slice 60 64 footer) :: u32 in
        if flags AND NOT footerFilterPresentFlag \<noteq> 0 \<or> le_get (slice 64 68 footer) \<noteq> (0 :: u32)
        then Inl SstUnsupportedVersion
        else let s = \<lparr>fsIndex = \<lparr>hOffset = le_get (slice 0 8 footer), hLength = le_get (slice 8 16 footer)\<rparr>,
                 fsMetadata = \<lparr>hOffset = le_get (slice 16 24 footer), hLength = le_get (slice 24 32 footer)\<rparr>,
                 fsFilter = \<lparr>hOffset = le_get (slice 32 40 footer), hLength = le_get (slice 40 48 footer)\<rparr>,
                 fsDataEnd = le_get (slice 48 56 footer)\<rparr>;
                 present = (flags AND footerFilterPresentFlag \<noteq> 0);
                 metadataEnd = (if present then hOffset (fsFilter s) else footerOffset)
          in if \<not> present \<and> fsFilter s \<noteq> noHandle \<or> present \<and> fsFilter s = noHandle then Inl (SstCorrupt SstHandle)
             else if fsDataEnd s \<noteq> hOffset (fsIndex s) \<or> \<not> handleEndsAt (fsIndex s) (hOffset (fsMetadata s)) \<or>
                \<not> handleEndsAt (fsMetadata s) metadataEnd \<or> present \<and> \<not> handleEndsAt (fsFilter s) footerOffset
             then Inl (SstCorrupt SstHandle)
             else bindR (validateHandle (fsIndex s) footerOffset BlockTrailerSize) (\<lambda>_.
               bindR (validateHandle (fsMetadata s) footerOffset BlockTrailerSize) (\<lambda>_.
               if present then
                 (if hLength (fsFilter s) > maxBloomBytes + word_of_nat bloomHeaderSize + word_of_nat BlockTrailerSize
                  then Inl SstResourceLimit
                  else bindR (validateHandle (fsFilter s) footerOffset (bloomHeaderSize + BlockTrailerSize)) (\<lambda>_. Inr s))
               else Inr s)))"

fun validateDataHandles :: "u64 \<Rightarrow> DecodedIndexEntry list \<Rightarrow> u64 \<Rightarrow> SstError + unit" where
  "validateDataHandles next' [] dataEnd = (if next' \<noteq> dataEnd then Inl (SstCorrupt SstHandle) else Inr ())"
| "validateDataHandles next' (e # es) dataEnd =
     (if hOffset (diHandle e) \<noteq> next' then Inl (SstCorrupt SstHandle)
      else bindR (validateHandle (diHandle e) dataEnd BlockTrailerSize) (\<lambda>_.
        validateDataHandles (hOffset (diHandle e) + hLength (diHandle e)) es dataEnd))"

record StreamState =
  ssCount :: u64
  ssDeletions :: u64
  ssRaw :: u64
  ssFirst :: "DecodedEntry option"
  ssLast :: "DecodedEntry option"
  ssCRCs :: "u32 list"

fun streamEntries :: "BloomFilter \<Rightarrow> DecodedEntry list \<Rightarrow> StreamState \<Rightarrow> SstError + StreamState" where
  "streamEntries bloom [] s = Inr s"
| "streamEntries bloom (e # es) s =
     (if \<not> mayContain bloom (userKey (deKey e)) then corruptBlock
      else if ssCount s = -1 then corruptBlock
      else
        let s = s\<lparr>ssCount := ssCount s + 1,
                 ssDeletions := ssDeletions s + (if kind (deKey e) = KindDelete then 1 else 0)\<rparr>
        in case checkedAdd (word_of_nat (length (deEncoded e))) (word_of_nat (length (deValue e))) of
             None \<Rightarrow> corruptBlock
           | Some entryRaw \<Rightarrow>
               (case checkedAdd (ssRaw s) entryRaw of
                  None \<Rightarrow> corruptBlock
                | Some raw \<Rightarrow> streamEntries bloom es (s\<lparr>ssRaw := raw\<rparr>)))"

fun streamBlocks :: "ReadAt \<Rightarrow> BloomFilter \<Rightarrow> DecodedIndexEntry list \<Rightarrow> StreamState \<Rightarrow> SstError + StreamState" where
  "streamBlocks f bloom [] s = Inr s"
| "streamBlocks f bloom (ie # index) s =
     bindR (readBlockUnlocked f (diHandle ie) BlockData (hOffset (diHandle ie) + hLength (diHandle ie))) (\<lambda>payload.
     bindR (decodeDataBlock payload (diHandle ie)) (\<lambda>block.
       let blockFirst = hd (dbEntries block); blockLast = last (dbEntries block) in
       if deEncoded blockLast \<noteq> diEncoded ie then corruptBlock
       else if (case ssLast s of None \<Rightarrow> False | Some l \<Rightarrow> compareInternal (deKey l) (deKey blockFirst) \<ge> 0)
       then corruptBlock
       else bindR (streamEntries bloom (dbEntries block)
              (s\<lparr>ssCRCs := ssCRCs s @ [blockPayloadChecksum payload BlockData],
                 ssFirst := (case ssFirst s of None \<Rightarrow> Some blockFirst | Some e \<Rightarrow> Some e),
                 ssLast := Some blockLast\<rparr>))
            (streamBlocks f bloom index)))"

definition cloneInternalKey :: "InternalKey \<Rightarrow> SstError + InternalKey" where
  "cloneInternalKey key =
     (case newInternalKey (userKey key) (sequence key) (kind key) of
        Inl _ \<Rightarrow> Inl (SstPanic ''STORAGE-31'')
      | Inr cloned \<Rightarrow> Inr cloned)"

text \<open>The file number and the size are filled in by \<open>openReader\<close>.\<close>

definition validateDataStream :: "ReadAt \<Rightarrow> BloomFilter \<Rightarrow> DecodedIndexEntry list \<Rightarrow> DecodedMetadata \<Rightarrow>
    SstError + (SstMetadata \<times> u32 list)" where
  "validateDataStream f bloom index disk =
     bindR (streamBlocks f bloom index
       \<lparr>ssCount = 0, ssDeletions = 0, ssRaw = 0, ssFirst = None, ssLast = None, ssCRCs = []\<rparr>) (\<lambda>s.
       case (ssFirst s, ssLast s) of
         (Some first, Some lst) \<Rightarrow>
           if ssCount s \<noteq> dmEntryCount disk \<or> ssDeletions s \<noteq> dmDeletionCount disk \<or> ssRaw s \<noteq> dmRawKeyValueBytes disk \<or>
              deEncoded first \<noteq> dmSmallestInternal disk \<or> deEncoded lst \<noteq> dmLargestInternal disk \<or>
              userKey (deKey first) \<noteq> dmSmallestUser disk \<or> userKey (deKey lst) \<noteq> dmLargestUser disk
           then corruptBlock
           else bindR (cloneInternalKey (deKey first)) (\<lambda>smallest.
             bindR (cloneInternalKey (deKey lst)) (\<lambda>largest.
               Inr (\<lparr>sstSmallestInternal = smallest, sstLargestInternal = largest,
                     sstSmallestUser = dmSmallestUser disk, sstLargestUser = dmLargestUser disk,
                     sstFileNumber = 0, sstFileSize = 0, sstEntryCount = ssCount s, sstDeletionCount = ssDeletions s,
                     sstRawKeyValueBytes = ssRaw s, sstDataBlockCount = word_of_nat (length index)\<rparr>, ssCRCs s)))
       | _ \<Rightarrow> corruptBlock)"

record SstReader =
  srBase :: bytes
  srSize :: u64
  srIndex :: "DecodedIndexEntry list"
  srDataCRCs :: "u32 list"
  srMetadata :: SstMetadata
  srBloom :: BloomFilter
  srMaxIndex :: u64
  srClosed :: bool

definition parseFileNumber :: "bytes \<Rightarrow> u64" where
  "parseFileNumber base =
     (if length base \<noteq> 16 \<or> \<not> hasSuffix base (ascii ''.sst'') \<or> \<not> list_all isDigit (take 12 base) then 0
      else let number = word_of_nat (parseUint (take 12 base)) in
        if number = 0 \<or> number > sstMaxFileNumber then 0 else number)"

definition DefaultMaxIndexBlockSize :: u64 where "DefaultMaxIndexBlockSize = 268435456"

definition maximumMetadata :: nat where
  "maximumMetadata = 28 + 4 * 4 + 2 * MaxInternalKeySize + 2 * MaxUserKeySize + BlockTrailerSize"

definition readFilter :: "ReadAt \<Rightarrow> FooterState \<Rightarrow> u64 \<Rightarrow> SstError + BloomFilter" where
  "readFilter f s footerOffset =
     (if hLength (fsFilter s) \<noteq> 0
      then bindR (readBlockUnlocked f (fsFilter s) BlockFilter footerOffset) decodeBloom
      else Inr noBloom)"

definition openReader :: "ReadAt \<Rightarrow> u64 \<Rightarrow> bytes \<Rightarrow> u64 \<Rightarrow> SstError + SstReader" where
  "openReader f size' base maxIndexOption =
     (let maxIndex = (if maxIndexOption = 0 then DefaultMaxIndexBlockSize else maxIndexOption) in
      if unat maxIndex < BlockTrailerSize then Inl SstResourceLimit
      else if unat size' < FooterSize \<or> unat size' > MaxTableSize then Inl (SstCorrupt SstHandle)
      else let footerOffset = size' - word_of_nat FooterSize in
        bindR (readAtExact f footerOffset FooterSize) (\<lambda>footer.
        bindR (decodeFooter footer footerOffset) (\<lambda>s.
        if hLength (fsIndex s) > maxIndex then Inl SstResourceLimit
        else if unat (hLength (fsMetadata s)) > maximumMetadata then Inl (SstCorrupt SstHandle)
        else bindR (readBlockUnlocked f (fsIndex s) BlockIndex footerOffset) (\<lambda>indexPayload.
        bindR (decodeIndex indexPayload) (\<lambda>index.
        bindR (readBlockUnlocked f (fsMetadata s) BlockMetadata footerOffset) (\<lambda>metadataPayload.
        bindR (decodeMetadata metadataPayload) (\<lambda>disk.
        if length index \<noteq> unat (dmDataBlockCount disk) then corruptBlock
        else bindR (readFilter f s footerOffset) (\<lambda>bloom.
        bindR (if index = [] then Inl (SstCorrupt SstHandle) else validateDataHandles 0 index (fsDataEnd s)) (\<lambda>_.
        bindR (validateDataStream f bloom index disk) (\<lambda>(meta, crcs).
          Inr \<lparr>srBase = base, srSize = size', srIndex = index, srDataCRCs = crcs,
               srMetadata = meta\<lparr>sstFileNumber := parseFileNumber base, sstFileSize := size'\<rparr>,
               srBloom = bloom, srMaxIndex = maxIndex, srClosed = False\<rparr>))))))))))"

definition ValidateAll :: "ReadAt \<Rightarrow> SstReader \<Rightarrow> SstError + unit" where
  "ValidateAll f r =
     (if srClosed r then Inl SstClosed
      else bindR (openReader f (srSize r) (srBase r) (srMaxIndex r)) (\<lambda>_. Inr ()))"

text \<open>The flag is the result of closing the file.\<close>

definition closeReader :: "SstReader \<Rightarrow> bool \<Rightarrow> (SstReader, SstError, unit) outcome" where
  "closeReader r closeFails =
     (if srClosed r then (r, Inr ())
      else (r\<lparr>srClosed := True\<rparr>, if closeFails then Inl (SstIO ''close'') else Inr ()))"

section \<open>Point reads\<close>

function lowerBoundLoop :: "(nat \<Rightarrow> InternalKey) \<Rightarrow> InternalKey \<Rightarrow> nat \<Rightarrow> nat \<Rightarrow> nat" where
  "lowerBoundLoop keys target left right =
     (if left < right then
        let middle = left + (right - left) div 2 in
        if compareInternal (keys middle) target < 0 then lowerBoundLoop keys target (middle + 1) right
        else lowerBoundLoop keys target left middle
      else left)"
  by pat_completeness auto
termination
  by (relation "measure (\<lambda>(keys, target, left, right). right - left)") auto

declare lowerBoundLoop.simps [simp del]

definition lowerBoundIndex :: "DecodedIndexEntry list \<Rightarrow> InternalKey \<Rightarrow> nat" where
  "lowerBoundIndex index target = lowerBoundLoop (\<lambda>i. diKey (index ! i)) target 0 (length index)"

definition readDataPayloadUnlocked :: "ReadAt \<Rightarrow> SstReader \<Rightarrow> nat \<Rightarrow> SstError + bytes" where
  "readDataPayloadUnlocked f r position =
     (let handle = diHandle (srIndex r ! position) in
      bindR (readBlockUnlocked f handle BlockData (hOffset handle + hLength handle)) (\<lambda>payload.
        if length (srDataCRCs r) = length (srIndex r) \<and> blockPayloadChecksum payload BlockData \<noteq> srDataCRCs r ! position
        then Inl (SstCorrupt SstChecksum)
        else Inr payload))"

definition loadDataBlockUnlocked :: "ReadAt \<Rightarrow> SstReader \<Rightarrow> nat \<Rightarrow> SstError + DecodedBlock" where
  "loadDataBlockUnlocked f r position =
     bindR (readDataPayloadUnlocked f r position) (\<lambda>payload. decodeDataBlock payload (diHandle (srIndex r ! position)))"

definition seekEntry :: "ReadAt \<Rightarrow> SstReader \<Rightarrow> InternalKey \<Rightarrow> SstError + DecodedEntry" where
  "seekEntry f r target =
     (if srClosed r then Inl SstClosed
      else let blockIndex = lowerBoundIndex (srIndex r) target in
        if blockIndex = length (srIndex r) then Inl SstNotFound
        else bindR (readDataPayloadUnlocked f r blockIndex) (\<lambda>payload.
          bindR (seekDataBlock payload target) (\<lambda>found.
            case found of
              Some entry \<Rightarrow> Inr entry
            | None \<Rightarrow>
                if blockIndex + 1 = length (srIndex r) then Inl SstNotFound
                else bindR (readDataPayloadUnlocked f r (blockIndex + 1)) (\<lambda>payload.
                  bindR (seekDataBlock payload target) (\<lambda>found.
                    case found of Some entry \<Rightarrow> Inr entry | None \<Rightarrow> Inl SstNotFound)))))"

definition cloneDecodedEntry :: "DecodedEntry \<Rightarrow> SstError + KeyedEntry" where
  "cloneDecodedEntry e = bindR (cloneInternalKey (deKey e)) (\<lambda>key. Inr (KeyedEntry key (deValue e)))"

definition sstSeek :: "ReadAt \<Rightarrow> SstReader \<Rightarrow> InternalKey \<Rightarrow> SstError + KeyedEntry" where
  "sstSeek f r target = bindR (seekEntry f r target) cloneDecodedEntry"

definition sstGet :: "ReadAt \<Rightarrow> SstReader \<Rightarrow> InternalKey \<Rightarrow> SstError + KeyedEntry" where
  "sstGet f r target =
     bindR (sstSeek f r target) (\<lambda>entry.
       if compareInternal (entryKey entry) target \<noteq> 0 then Inl SstNotFound else Inr entry)"

definition sstMayContain :: "SstReader \<Rightarrow> bytes \<Rightarrow> SstError + bool" where
  "sstMayContain r user =
     (if length user > MaxUserKeySize then Inl SstKeyTooLarge
      else if srClosed r then Inl SstClosed
      else Inr (mayContain (srBloom r) user))"

definition candidateSeekKey :: "bytes \<Rightarrow> u64 \<Rightarrow> SstError + InternalKey" where
  "candidateSeekKey user target =
     (if length user > MaxUserKeySize then Inl SstKeyTooLarge
      else case newInternalKey user target KindDelete of
        Inl _ \<Rightarrow> Inl (SstIO ''construct candidate seek key'')
      | Inr key \<Rightarrow> Inr key)"

definition sstGetCandidate :: "ReadAt \<Rightarrow> SstReader \<Rightarrow> bytes \<Rightarrow> u64 \<Rightarrow> SstError + KeyedEntry" where
  "sstGetCandidate f r user target =
     bindR (sstMayContain r user) (\<lambda>may.
     if \<not> may then Inl SstNotFound
     else bindR (candidateSeekKey user target) (\<lambda>seekKey.
       bindR (sstSeek f r seekKey) (\<lambda>entry.
         if userKey (entryKey entry) \<noteq> user then Inl SstNotFound else Inr entry)))"

section \<open>The iterator (\<open>iterator.go\<close>)\<close>

definition emptyBlock :: DecodedBlock where
  "emptyBlock = \<lparr>dbHandle = noHandle, dbRestarts = [], dbRestartEntries = [], dbEntries = []\<rparr>"

record SstIterator =
  siBlock :: DecodedBlock
  siBlockIndex :: int
  siEntryIndex :: int
  siEnd :: "bytes option"
  siStarted :: bool
  siValid :: bool
  siClosed :: bool
  siErr :: "SstError option"

fun firstNotBelow :: "DecodedEntry list \<Rightarrow> InternalKey \<Rightarrow> nat list \<Rightarrow> nat" where
  "firstNotBelow entries target [] = length entries"
| "firstNotBelow entries target (p # ps) =
     (if compareInternal (deKey (entries ! p)) target \<ge> 0 then p else firstNotBelow entries target ps)"

definition blockLowerBound :: "DecodedBlock \<Rightarrow> InternalKey \<Rightarrow> nat" where
  "blockLowerBound b target =
     (let left = lowerBoundLoop (\<lambda>i. drKey (dbRestartEntries b ! i)) target 0 (length (dbRestartEntries b));
          restart = left - 1;
          start = drEntryIndex (dbRestartEntries b ! restart);
          stop = (if restart + 1 < length (dbRestartEntries b) then drEntryIndex (dbRestartEntries b ! (restart + 1)) + 1
                  else length (dbEntries b))
      in firstNotBelow (dbEntries b) target [start..<stop])"

definition freshIterator :: "bytes option \<Rightarrow> SstIterator" where
  "freshIterator end' =
     \<lparr>siBlock = emptyBlock, siBlockIndex = -1, siEntryIndex = -1, siEnd = end', siStarted = False,
      siValid = False, siClosed = False, siErr = None\<rparr>"

definition exhaustedIterator :: "SstReader \<Rightarrow> bytes option \<Rightarrow> SstIterator" where
  "exhaustedIterator r end' = (freshIterator end')\<lparr>siStarted := True, siBlockIndex := int (length (srIndex r))\<rparr>"

definition newIteratorAt :: "ReadAt \<Rightarrow> SstReader \<Rightarrow> InternalKey option \<Rightarrow> bool \<Rightarrow> bytes option \<Rightarrow> SstError + SstIterator" where
  "newIteratorAt f r target rangeMode end' =
     (if srClosed r then Inl SstClosed
      else case target of
        None \<Rightarrow> Inr (freshIterator end')
      | Some t \<Rightarrow>
          let blockIndex = lowerBoundIndex (srIndex r) t in
          if blockIndex = length (srIndex r) then Inr (exhaustedIterator r end')
          else bindR (loadDataBlockUnlocked f r blockIndex) (\<lambda>block.
            bindR
              (if blockLowerBound block t = length (dbEntries block) then
                 (if blockIndex + 1 = length (srIndex r) then Inr None
                  else bindR (loadDataBlockUnlocked f r (blockIndex + 1)) (\<lambda>block. Inr (Some (block, blockIndex + 1, 0))))
               else Inr (Some (block, blockIndex, blockLowerBound block t)))
              (\<lambda>place.
                case place of
                  None \<Rightarrow> Inr (exhaustedIterator r end')
                | Some (block, blockIndex, entryIndex) \<Rightarrow>
                    let it = (freshIterator end')\<lparr>siBlock := block, siBlockIndex := int blockIndex, siEntryIndex := int entryIndex - 1\<rparr> in
                    if rangeMode \<and>
                       (case end' of None \<Rightarrow> False | Some e \<Rightarrow> compareBytes (userKey (deKey (dbEntries block ! entryIndex))) e \<ge> 0)
                    then Inr (it\<lparr>siBlock := emptyBlock, siStarted := True, siBlockIndex := int (length (srIndex r))\<rparr>)
                    else Inr it)))"

definition NewIterator :: "ReadAt \<Rightarrow> SstReader \<Rightarrow> SstError + SstIterator" where
  "NewIterator f r = newIteratorAt f r None False None"

definition IteratorFrom :: "ReadAt \<Rightarrow> SstReader \<Rightarrow> InternalKey \<Rightarrow> SstError + SstIterator" where
  "IteratorFrom f r target = newIteratorAt f r (Some target) False None"

definition sstRange :: "ReadAt \<Rightarrow> SstReader \<Rightarrow> bytes option \<Rightarrow> bytes option \<Rightarrow> SstError + SstIterator" where
  "sstRange f r start end' =
     (if (case start of None \<Rightarrow> False | Some s \<Rightarrow> length s > MaxUserKeySize) \<or>
         (case end' of None \<Rightarrow> False | Some e \<Rightarrow> length e > MaxUserKeySize) then Inl SstKeyTooLarge
      else if (case (start, end') of (Some s, Some e) \<Rightarrow> compareBytes s e > 0 | _ \<Rightarrow> False) then Inl SstInvalidRange
      else case start of
        None \<Rightarrow> newIteratorAt f r None True end'
      | Some s \<Rightarrow>
          (case newInternalKey s (-1) KindDelete of
             Inl _ \<Rightarrow> Inl (SstIO ''construct range seek key'')
           | Inr key \<Rightarrow> newIteratorAt f r (Some key) True end'))"

definition loadBlock :: "ReadAt \<Rightarrow> SstReader \<Rightarrow> int \<Rightarrow> SstIterator \<Rightarrow> SstIterator \<times> bool" where
  "loadBlock f r position it =
     (if srClosed r then (it\<lparr>siErr := Some SstClosed\<rparr>, False)
      else if position \<ge> int (length (srIndex r))
      then (it\<lparr>siBlock := emptyBlock, siBlockIndex := int (length (srIndex r))\<rparr>, False)
      else case loadDataBlockUnlocked f r (nat position) of
        Inl e \<Rightarrow> (it\<lparr>siErr := Some e\<rparr>, False)
      | Inr block \<Rightarrow> (it\<lparr>siBlock := block, siBlockIndex := position\<rparr>, True))"

lemma loadBlock_advances:
  "loadBlock f r position it = (it', True) \<Longrightarrow> siBlockIndex it' = position \<and> position < int (length (srIndex r))"
  by (auto simp: loadBlock_def split: if_splits sum.splits)

function skipBlocks :: "ReadAt \<Rightarrow> SstReader \<Rightarrow> SstIterator \<Rightarrow> SstIterator \<times> bool" where
  "skipBlocks f r it =
     (if siEntryIndex it \<ge> int (length (dbEntries (siBlock it))) then
        (case loadBlock f r (siBlockIndex it + 1) it of
           (it', False) \<Rightarrow> (it', False)
         | (it', True) \<Rightarrow> skipBlocks f r (it'\<lparr>siEntryIndex := 0\<rparr>))
      else (it, True))"
  by pat_completeness auto
termination
  by (relation "measure (\<lambda>(f, r, it). nat (int (length (srIndex r)) - siBlockIndex it))")
     (auto dest!: loadBlock_advances [OF sym])

declare skipBlocks.simps [simp del]

definition siStep :: "ReadAt \<Rightarrow> SstReader \<Rightarrow> SstIterator \<Rightarrow> SstIterator \<times> bool" where
  "siStep f r it =
     (case skipBlocks f r (it\<lparr>siEntryIndex := siEntryIndex it + 1\<rparr>) of
        (it, False) \<Rightarrow> (it, False)
      | (it, True) \<Rightarrow>
          if (case siEnd it of None \<Rightarrow> False
              | Some e \<Rightarrow> compareBytes (userKey (deKey (dbEntries (siBlock it) ! nat (siEntryIndex it)))) e \<ge> 0)
          then (it\<lparr>siBlock := emptyBlock\<rparr>, False)
          else (it\<lparr>siValid := True\<rparr>, True))"

definition siNext :: "ReadAt \<Rightarrow> SstReader \<Rightarrow> SstIterator \<Rightarrow> SstIterator \<times> bool" where
  "siNext f r it =
     (if siClosed it \<or> siErr it \<noteq> None then (it, False)
      else if srClosed r then (it\<lparr>siErr := Some SstClosed, siValid := False\<rparr>, False)
      else let it = it\<lparr>siValid := False\<rparr> in
        if \<not> siStarted it then
          let it = it\<lparr>siStarted := True\<rparr> in
          if dbEntries (siBlock it) = [] then
            (case loadBlock f r 0 it of (it, False) \<Rightarrow> (it, False) | (it, True) \<Rightarrow> siStep f r it)
          else siStep f r it
        else siStep f r it)"

definition siEntry :: "SstIterator \<Rightarrow> SstError + KeyedEntry option" where
  "siEntry it =
     (if \<not> siValid it \<or> siClosed it then Inr None
      else bindR (cloneDecodedEntry (dbEntries (siBlock it) ! nat (siEntryIndex it))) (\<lambda>e. Inr (Some e)))"

definition siClose :: "SstIterator \<Rightarrow> SstIterator" where
  "siClose it = (if siClosed it then it else it\<lparr>siClosed := True, siValid := False, siBlock := emptyBlock\<rparr>)"

end
