(* ===== verification/Sst_Block.thy ===== *)
theory Sst_Block
  imports Sst_Reader
begin

text \<open>
  What the decoder accepts as a data block, and the two searches in it. A block that decodes is
  a chain of entries from the start of the payload to the restart array; the restart points are
  members of the chain that share no prefix. Both the search in the bytes and the search in the
  decoded block find the first entry that is not below the target.
\<close>

section \<open>Varints and entries\<close>

lemma readCanonicalUvarint_iff:
  "readCanonicalUvarint data = Inr (v, n) \<longleftrightarrow> (\<exists>rest. data = putUvarint v @ rest) \<and> n = length (putUvarint v)"
proof
  assume "readCanonicalUvarint data = Inr (v, n)"
  then have "putUvarint v = take n data" "n = length (putUvarint v)"
    by (auto simp: readCanonicalUvarint_def split: prod.splits if_splits)
  then show "(\<exists>rest. data = putUvarint v @ rest) \<and> n = length (putUvarint v)"
    by (metis append_take_drop_id)
next
  assume "(\<exists>rest. data = putUvarint v @ rest) \<and> n = length (putUvarint v)"
  then obtain rest where d: "data = putUvarint v @ rest" and n: "n = length (putUvarint v)" by blast
  have "uvarint data = (v, int n)" using uvarint_putUvarint [of v rest] by (simp add: d n uvarintLen_def)
  then show "readCanonicalUvarint data = Inr (v, n)"
    by (simp add: readCanonicalUvarint_def d n)
qed

lemma decodeDataEntry_alone:
  assumes "decodeDataEntry payload position E previous = Inr (e, n, 0)"
  shows "decodeDataEntry payload position E [] = Inr (e, n, 0)"
proof -
  have "shared = 0" if "unat (shared :: u64) = 0" for shared using that by (simp add: unat_eq_0)
  then show ?thesis
    using assms unfolding decodeDataEntry_def Let_def
    by (auto elim!: bindR_okE split: prod.splits if_splits option.splits sum.splits)
qed

lemma decodeDataEntry_fields:
  assumes "decodeDataEntry payload position E previous = Inr (e, n, shared)"
  shows "decodeInternalKey (deEncoded e) = Inr (deKey e)" and "deEncoded e \<noteq> []"
    and "carriesValue (kind (deKey e)) \<or> deValue e = []"
proof -
  show d: "decodeInternalKey (deEncoded e) = Inr (deKey e)" and "carriesValue (kind (deKey e)) \<or> deValue e = []"
    using assms unfolding decodeDataEntry_def Let_def
    by (auto elim!: bindR_okE split: prod.splits if_splits option.splits sum.splits)
  show "deEncoded e \<noteq> []" using d by (auto simp: decodeInternalKey_def internalKeyTrailerLen_def)
qed

section \<open>Binary search\<close>

definition isLowerBound :: "(nat \<Rightarrow> InternalKey) \<Rightarrow> InternalKey \<Rightarrow> nat \<Rightarrow> nat \<Rightarrow> bool" where
  "isLowerBound keys target n l \<longleftrightarrow> l \<le> n \<and> (\<forall>i<l. keys i < target) \<and> (\<forall>i. l \<le> i \<longrightarrow> i < n \<longrightarrow> \<not> keys i < target)"

lemma lowerBoundLoop_bounds:
  assumes "left \<le> right" "\<And>i. i < left \<Longrightarrow> keys i < target" "\<And>i. right \<le> i \<Longrightarrow> i < n \<Longrightarrow> \<not> keys i < target"
    and mono: "\<And>i j. i \<le> j \<Longrightarrow> j < n \<Longrightarrow> keys i \<le> keys j" and "right \<le> n"
  shows "isLowerBound keys target n (lowerBoundLoop keys target left right)"
  using assms
proof (induction keys target left right rule: lowerBoundLoop.induct)
  case (1 keys target left right)
  let ?middle = "left + (right - left) div 2"
  show ?case
  proof (cases "left < right")
    case True
    then have m: "left \<le> ?middle" "?middle < right" "?middle < n" using "1.prems"(5) by auto
    show ?thesis
    proof (cases "keys ?middle < target")
      case below: True
      have "keys i < target" if "i < ?middle + 1" for i
        using that below "1.prems"(4) [of i ?middle] m(3) le_less_trans by auto
      then have "isLowerBound keys target n (lowerBoundLoop keys target (?middle + 1) right)"
        using below m "1.prems" True by (intro "1.IH"(1) [OF True refl]) auto
      then show ?thesis using True below by (simp add: lowerBoundLoop.simps [of keys target left right] Let_def)
    next
      case above: False
      have "\<not> keys i < target" if "?middle \<le> i" "i < n" for i
        using above "1.prems"(4) [OF that] le_less_trans by blast
      then have "isLowerBound keys target n (lowerBoundLoop keys target left ?middle)"
        using above m "1.prems" True by (intro "1.IH"(2) [OF True refl]) auto
      then show ?thesis using True above by (simp add: lowerBoundLoop.simps [of keys target left right] Let_def)
    qed
  next
    case False
    then have "lowerBoundLoop keys target left right = left" by (simp add: lowerBoundLoop.simps [of keys target left right])
    then show ?thesis using False "1.prems" by (simp add: isLowerBound_def)
  qed
qed

lemma lowerBoundLoop_spec:
  assumes "\<And>i j. i \<le> j \<Longrightarrow> j < n \<Longrightarrow> keys i \<le> keys j"
  shows "lowerBoundLoop keys target 0 n \<le> n"
    and "i < lowerBoundLoop keys target 0 n \<Longrightarrow> keys i < target"
    and "lowerBoundLoop keys target 0 n \<le> i \<Longrightarrow> i < n \<Longrightarrow> \<not> keys i < target"
  using lowerBoundLoop_bounds [where left = 0 and right = n and keys = keys and target = target and n = n] assms
  by (auto simp: isLowerBound_def)

text \<open>The position of the first element that is not below the target in a sorted list.\<close>

definition lowerBoundOf :: "InternalKey \<Rightarrow> InternalKey list \<Rightarrow> nat" where
  "lowerBoundOf target ks = length (takeWhile (\<lambda>k. k < target) ks)"

lemma lowerBoundOf_le: "lowerBoundOf target ks \<le> length ks"
  by (simp add: lowerBoundOf_def length_takeWhile_le)

lemma lowerBoundOf_below: "i < lowerBoundOf target ks \<Longrightarrow> ks ! i < target"
  unfolding lowerBoundOf_def by (metis nth_mem set_takeWhileD takeWhile_nth)

lemma lowerBoundOf_above:
  assumes "sorted_wrt (<) ks" "lowerBoundOf target ks \<le> i" "i < length ks"
  shows "\<not> ks ! i < target"
proof
  assume "ks ! i < target"
  let ?j = "lowerBoundOf target ks"
  have "\<not> ks ! ?j < target"
    using nth_length_takeWhile [of "\<lambda>k. k < target" ks] assms(2,3) by (simp add: lowerBoundOf_def)
  moreover have "?j = i \<or> ks ! ?j < ks ! i"
    using assms sorted_wrt_nth_less [of "(<)" ks ?j i] by (cases "?j = i") auto
  ultimately show False using \<open>ks ! i < target\<close> by auto
qed

lemma lowerBoundOf_unique:
  assumes "sorted_wrt (<) ks" "j \<le> length ks" "\<And>i. i < j \<Longrightarrow> ks ! i < target" "j < length ks \<Longrightarrow> \<not> ks ! j < target"
  shows "j = lowerBoundOf target ks"
proof (rule ccontr)
  assume "j \<noteq> lowerBoundOf target ks"
  then consider "j < lowerBoundOf target ks" | "lowerBoundOf target ks < j" by linarith
  then show False
  proof cases
    case 1
    then show ?thesis using lowerBoundOf_below [OF 1] assms(4) lowerBoundOf_le [of target ks] by auto
  next
    case 2
    then show ?thesis using lowerBoundOf_above [OF assms(1), of target "lowerBoundOf target ks"] assms(2,3) by auto
  qed
qed

lemma lowerBoundLoop_of:
  assumes "sorted_wrt (<) ks"
  shows "lowerBoundLoop (\<lambda>i. ks ! i) target 0 (length ks) = lowerBoundOf target ks"
proof -
  have "ks ! i \<le> ks ! j" if "i \<le> j" "j < length ks" for i j
    using that sorted_wrt_nth_less [OF assms, of i j] by (cases "i = j") (auto intro: less_imp_le)
  then show ?thesis
    using lowerBoundLoop_spec [where n = "length ks" and keys = "\<lambda>i. ks ! i" and target = target] by (intro lowerBoundOf_unique [OF assms]) auto
qed

section \<open>Chains of entries\<close>

text \<open>One link: the offset of an entry, how much of the key it shares, and the entry.\<close>

type_synonym link = "nat \<times> nat \<times> DecodedEntry"

abbreviation linkEntry :: "link \<Rightarrow> DecodedEntry" where
  "linkEntry l \<equiv> snd (snd l)"

fun chain :: "bytes \<Rightarrow> nat \<Rightarrow> nat \<Rightarrow> bytes \<Rightarrow> link list \<Rightarrow> nat \<Rightarrow> bytes \<Rightarrow> bool" where
  "chain p E pos prev [] pos' prev' \<longleftrightarrow> pos' = pos \<and> prev' = prev"
| "chain p E pos prev ((q, shared, e) # ls) pos' prev' \<longleftrightarrow>
     q = pos \<and> pos < E \<and> (\<exists>n. decodeDataEntry p pos E prev = Inr (e, n, shared) \<and> chain p E n (deEncoded e) ls pos' prev')"

lemma chain_snoc:
  "chain p E pos prev (ls @ [(q, shared, e)]) pos' prev' \<longleftrightarrow>
   prev' = deEncoded e \<and> q < E \<and>
   (\<exists>prev1. chain p E pos prev ls q prev1 \<and> decodeDataEntry p q E prev1 = Inr (e, pos', shared))"
  by (induction ls arbitrary: pos prev) (auto, blast+)

lemma chain_append:
  "chain p E pos prev (ls @ ms) pos' prev' \<longleftrightarrow>
   (\<exists>pos1 prev1. chain p E pos prev ls pos1 prev1 \<and> chain p E pos1 prev1 ms pos' prev')"
  by (induction ls arbitrary: pos prev) (auto, blast+)

lemma chain_pos_le: "chain p E pos prev ls pos' prev' \<Longrightarrow> pos \<le> pos'"
  by (induction ls arbitrary: pos prev) (auto dest!: decodeDataEntry_next, fastforce)

lemma chain_offset_le: "chain p E pos prev ls pos' prev' \<Longrightarrow> l \<in> set ls \<Longrightarrow> pos \<le> fst l \<and> fst l < pos' \<and> fst l < E"
proof (induction ls arbitrary: pos prev)
  case (Cons m ls)
  obtain q shared e where m: "m = (q, shared, e)" by (cases m)
  obtain n where n: "decodeDataEntry p pos E prev = Inr (e, n, shared)" "chain p E n (deEncoded e) ls pos' prev'"
    and q: "q = pos" "pos < E" using Cons.prems(1) by (auto simp: m)
  have "pos < n" using n(1) by (rule decodeDataEntry_next)
  moreover have "n \<le> pos'" using n(2) by (rule chain_pos_le)
  ultimately show ?case using Cons.IH [OF n(2)] Cons.prems(2) q by (auto simp: m)
qed simp

lemma chain_offsets_sorted: "chain p E pos prev ls pos' prev' \<Longrightarrow> sorted_wrt (<) (map fst ls)"
proof (induction ls arbitrary: pos prev)
  case (Cons m ls)
  obtain q shared e where m: "m = (q, shared, e)" by (cases m)
  obtain n where n: "decodeDataEntry p pos E prev = Inr (e, n, shared)" "chain p E n (deEncoded e) ls pos' prev'"
    and q: "q = pos" using Cons.prems(1) by (auto simp: m)
  have "pos < n" using n(1) by (rule decodeDataEntry_next)
  then show ?case using Cons.IH [OF n(2)] chain_offset_le [OF n(2)] by (fastforce simp: m q)
qed simp

lemma chain_entry:
  "chain p E pos prev ls pos' prev' \<Longrightarrow> l \<in> set ls \<Longrightarrow>
   \<exists>prev1 n. decodeDataEntry p (fst l) E prev1 = Inr (linkEntry l, n, fst (snd l))"
  by (induction ls arbitrary: pos prev) (auto, blast)

section \<open>Blocks that decode\<close>

definition restartAt :: "link list \<Rightarrow> DecodedRestart \<Rightarrow> bool" where
  "restartAt ls r \<longleftrightarrow> drEntryIndex r < length ls \<and> fst (ls ! drEntryIndex r) = unat (drOffset r) \<and>
     fst (snd (ls ! drEntryIndex r)) = 0 \<and> drKey r = deKey (linkEntry (ls ! drEntryIndex r))"

definition scanOk :: "bytes \<Rightarrow> nat \<Rightarrow> u32 list \<Rightarrow> bytes \<Rightarrow> BlockScan \<Rightarrow> link list \<Rightarrow> bool" where
  "scanOk p E rs prev s ls \<longleftrightarrow>
     chain p E 0 [] ls (bsPosition s) prev \<and> bsEntries s = map linkEntry ls \<and>
     sorted_wrt (<) (map deKey (bsEntries s)) \<and>
     map drOffset (bsRestartEntries s) = take (bsNextRestart s) rs \<and> bsNextRestart s \<le> length rs \<and>
     list_all (restartAt ls) (bsRestartEntries s)"

lemma sorted_snoc: "sorted_wrt (<) (ks @ [k :: 'a :: order]) \<longleftrightarrow> sorted_wrt (<) ks \<and> (ks \<noteq> [] \<longrightarrow> last ks < k)"
proof (induction ks)
  case (Cons a ks)
  then show ?case by (cases ks) (auto intro: less_trans)
qed simp

lemma decodeEntriesLoop_ok:
  assumes "decodeEntriesLoop p E rs prev s = Inr s'" "scanOk p E rs prev s ls" "E < 2 ^ 32"
  shows "\<exists>prev' ls'. scanOk p E rs prev' s' ls' \<and> E \<le> bsPosition s'"
  using assms(1,2)
proof (induction "E - bsPosition s" arbitrary: s prev ls rule: less_induct)
  case less
  note prems = less.prems
  show ?case
  proof (cases "bsPosition s < E")
    case False
    then show ?thesis using prems by (auto simp: decodeEntriesLoop.simps [of p E rs prev s])
  next
    case True
    obtain e n shared where d: "decodeDataEntry p (bsPosition s) E prev = Inr (e, n, shared)"
      using prems(1) True by (auto simp: decodeEntriesLoop.simps [of p E rs prev s] split: sum.splits)
    define restart where "restart = (bsNextRestart s < length rs \<and> rs ! bsNextRestart s = word_of_nat (bsPosition s))"
    define s1 where "s1 = \<lparr>bsEntries = bsEntries s @ [e],
      bsRestartEntries = bsRestartEntries s @
        (if restart then [\<lparr>drOffset = word_of_nat (bsPosition s), drEntryIndex = length (bsEntries s), drKey = deKey e\<rparr>] else []),
      bsNextRestart = bsNextRestart s + (if restart then 1 else 0), bsPosition = n\<rparr>"
    have step: "decodeEntriesLoop p E rs (deEncoded e) s1 = Inr s'"
      and sh: "restart \<longrightarrow> shared = 0"
      and order: "bsEntries s \<noteq> [] \<longrightarrow> deKey (last (bsEntries s)) < deKey e"
      using prems(1) True d
      by (auto simp: decodeEntriesLoop.simps [of p E rs prev s] restart_def s1_def Let_def split: if_splits)
    let ?ls = "ls @ [(bsPosition s, shared, e)]"
    have ok: "chain p E 0 [] ls (bsPosition s) prev" "bsEntries s = map linkEntry ls"
      "sorted_wrt (<) (map deKey (bsEntries s))" "map drOffset (bsRestartEntries s) = take (bsNextRestart s) rs"
      "bsNextRestart s \<le> length rs" "list_all (restartAt ls) (bsRestartEntries s)"
      using prems(2) unfolding scanOk_def by blast+
    have old: "restartAt ?ls r" if "restartAt ls r" for r using that by (auto simp: restartAt_def nth_append)
    have pos: "unat (word_of_nat (bsPosition s) :: u32) = bsPosition s" using True assms(3) by (simp add: unat_of_nat_u32)
    have "scanOk p E rs (deEncoded e) s1 ?ls"
      unfolding scanOk_def
    proof (intro conjI)
      show "chain p E 0 [] ?ls (bsPosition s1) (deEncoded e)" using ok(1) d True by (auto simp: chain_snoc s1_def)
      show "bsEntries s1 = map linkEntry ?ls" using ok(2) by (simp add: s1_def)
      show "sorted_wrt (<) (map deKey (bsEntries s1))"
        using ok(3) order by (auto simp: s1_def sorted_snoc last_map)
      show "map drOffset (bsRestartEntries s1) = take (bsNextRestart s1) rs"
        using ok(4) by (auto simp: s1_def restart_def take_Suc_conv_app_nth)
      show "bsNextRestart s1 \<le> length rs" using ok(5) by (auto simp: s1_def restart_def)
      show "list_all (restartAt ?ls) (bsRestartEntries s1)"
        using ok(2,6) old sh pos by (auto simp: s1_def list_all_iff restartAt_def nth_append)
    qed
    moreover have "E - bsPosition s1 < E - bsPosition s"
      using decodeDataEntry_next [OF d] True by (simp add: s1_def)
    ultimately show ?thesis using less.hyps step by blast
  qed
qed

lemma restartLayout_ok:
  assumes "decodeRestartLayout p = Inr (E, rs)"
  shows "E < 2 ^ 32" "0 < E" "rs \<noteq> []" "rs ! 0 = 0" "sorted_wrt (<) rs" "\<And>x. x \<in> set rs \<Longrightarrow> unat x < E"
proof -
  define n where "n = unat (le_get (drop (length p - 4) p) :: u32)"
  define E' where "E' = length p - 4 - n * 4"
  define bad where "bad i \<longleftrightarrow> unat (restartsOf p E' n ! i) \<ge> E' \<or> i = 0 \<and> restartsOf p E' n ! i \<noteq> 0 \<or>
      i > 0 \<and> restartsOf p E' n ! i \<le> restartsOf p E' n ! (i - 1)" for i
  have "decodeRestartLayout p =
     (if length p < 8 \<or> length p > MaxDataBlockSize then corruptBlock
      else if n = 0 \<or> n > (length p - 4) div 4 then corruptBlock
      else if E' = 0 \<or> E' > 4294967295 then corruptBlock
      else if list_ex bad [0..<n] then corruptBlock else Inr (E', restartsOf p E' n))"
    unfolding decodeRestartLayout_def Let_def n_def [symmetric] E'_def [symmetric] bad_def by (rule refl)
  then have E: "E = E'" and rs: "rs = restartsOf p E n" and n: "n \<noteq> 0" and "E \<noteq> 0" "E \<le> 4294967295"
    and nobad: "\<not> list_ex bad [0..<n]"
    using assms by (simp_all split: if_splits)
  have chk: "unat (rs ! i) < E" "i = 0 \<Longrightarrow> rs ! i = 0" "i > 0 \<Longrightarrow> rs ! (i - 1) < rs ! i" if "i < n" for i
  proof -
    have "\<not> bad i" using nobad that by (simp add: list_ex_iff)
    then show "unat (rs ! i) < E" "i = 0 \<Longrightarrow> rs ! i = 0" "i > 0 \<Longrightarrow> rs ! (i - 1) < rs ! i"
      unfolding bad_def rs E by (simp_all add: not_le)
  qed
  have len: "length rs = n" by (simp add: rs restartsOf_def)
  show "E < 2 ^ 32" "0 < E" using \<open>E \<noteq> 0\<close> \<open>E \<le> 4294967295\<close> by auto
  show "rs \<noteq> []" using len n by auto
  show "rs ! 0 = 0" using chk(2) [of 0] n by simp
  show "unat x < E" if "x \<in> set rs" for x using that chk(1) len by (metis in_set_conv_nth)
  have "rs ! i < rs ! Suc i" if "Suc i < length rs" for i
    using chk(3) [of "Suc i"] that len by simp
  then show "sorted_wrt (<) rs" by (simp add: sorted_wrt_iff_nth_Suc_transp)
qed

definition blockOk :: "bytes \<Rightarrow> nat \<Rightarrow> link list \<Rightarrow> DecodedBlock \<Rightarrow> bool" where
  "blockOk p E ls b \<longleftrightarrow>
     decodeRestartLayout p = Inr (E, dbRestarts b) \<and> (\<exists>prev. chain p E 0 [] ls E prev) \<and> ls \<noteq> [] \<and>
     dbEntries b = map linkEntry ls \<and> sorted_wrt (<) (map deKey (dbEntries b)) \<and>
     map drOffset (dbRestartEntries b) = dbRestarts b \<and> list_all (restartAt ls) (dbRestartEntries b)"

lemma decodeDataBlock_ok:
  assumes "decodeDataBlock p h = Inr b"
  shows "\<exists>E ls. blockOk p E ls b"
proof -
  let ?s0 = "\<lparr>bsEntries = [], bsRestartEntries = [], bsNextRestart = 0, bsPosition = 0\<rparr>"
  obtain E rs s where layout: "decodeRestartLayout p = Inr (E, rs)"
    and loop: "decodeEntriesLoop p E rs [] ?s0 = Inr s"
    and fin: "bsPosition s = E" "bsEntries s \<noteq> []" "bsNextRestart s = length rs"
    and b: "b = \<lparr>dbHandle = h, dbRestarts = rs, dbRestartEntries = bsRestartEntries s, dbEntries = bsEntries s\<rparr>"
    using assms by (auto simp: decodeDataBlock_def elim!: bindR_okE split: prod.splits if_splits)
  have "scanOk p E rs [] ?s0 []" by (simp add: scanOk_def)
  then obtain prev ls where "scanOk p E rs prev s ls"
    using decodeEntriesLoop_ok [OF loop _ restartLayout_ok(1) [OF layout]] by blast
  then have "blockOk p E ls b" using layout fin by (auto simp: scanOk_def blockOk_def b)
  then show ?thesis by blast
qed

text \<open>The restart points of an accepted block, by position in the chain.\<close>

lemma sorted_nth_iff:
  assumes "sorted_wrt (<) (xs :: 'a :: linorder list)" "i < length xs" "j < length xs"
  shows "xs ! i < xs ! j \<longleftrightarrow> i < j"
proof (cases i j rule: linorder_cases)
  case less
  then show ?thesis using sorted_wrt_nth_less [OF assms(1) less assms(3)] by simp
next
  case greater
  then show ?thesis using sorted_wrt_nth_less [OF assms(1) greater assms(2)] by (auto dest: less_asym)
qed simp

lemma restart_indices:
  assumes "blockOk p E ls b"
  shows "dbRestartEntries b \<noteq> []" "length (dbRestarts b) = length (dbRestartEntries b)"
    and "drEntryIndex (dbRestartEntries b ! 0) = 0"
    and "sorted_wrt (<) (map drEntryIndex (dbRestartEntries b))"
    and "sorted_wrt (<) (map drKey (dbRestartEntries b))"
proof -
  let ?re = "dbRestartEntries b" and ?rs = "dbRestarts b"
  obtain prev where layout: "decodeRestartLayout p = Inr (E, ?rs)" and ch: "chain p E 0 [] ls E prev" and ne: "ls \<noteq> []"
    and off: "map drOffset ?re = ?rs" and at: "\<And>i. i < length ?re \<Longrightarrow> restartAt ls (?re ! i)"
    and keys: "sorted_wrt (<) (map deKey (map linkEntry ls))"
    using assms by (auto simp: blockOk_def list_all_length)
  note lay = restartLayout_ok [OF layout]
  show ne': "?re \<noteq> []" using off lay(3) by auto
  show len: "length ?rs = length ?re" using arg_cong [OF off, of length] by simp
  have idx: "drEntryIndex (?re ! i) < length ls" "fst (ls ! drEntryIndex (?re ! i)) = unat (?rs ! i)" if "i < length ?re" for i
    using at [OF that] off that by (auto simp: restartAt_def simp flip: off)
  have so: "sorted_wrt (<) (map fst ls)" using ch by (rule chain_offsets_sorted)
  have "fst (ls ! 0) = 0" using ch ne by (cases ls) auto
  then have "fst (ls ! drEntryIndex (?re ! 0)) = fst (ls ! 0)" using idx(2) [of 0] ne' lay(4) by simp
  then show "drEntryIndex (?re ! 0) = 0"
    using sorted_nth_iff [OF so, of 0 "drEntryIndex (?re ! 0)"] idx(1) [of 0] ne ne' by (cases "drEntryIndex (?re ! 0)") auto
  have mono: "drEntryIndex (?re ! i) < drEntryIndex (?re ! j)" if "i < j" "j < length ?re" for i j
  proof -
    have "unat (?rs ! i) < unat (?rs ! j)"
      using sorted_wrt_nth_less [OF lay(5) that(1)] that(2) len by (simp add: word_less_nat_alt)
    then have "map fst ls ! drEntryIndex (?re ! i) < map fst ls ! drEntryIndex (?re ! j)"
      using idx that by simp
    then show ?thesis using sorted_nth_iff [OF so] idx(1) that by simp
  qed
  then show "sorted_wrt (<) (map drEntryIndex ?re)" by (simp add: sorted_wrt_iff_nth_less)
  have "drKey (?re ! i) < drKey (?re ! j)" if "i < j" "j < length ?re" for i j
    using sorted_wrt_nth_less [OF keys mono [OF that]] idx(1) at that by (simp add: restartAt_def)
  then show "sorted_wrt (<) (map drKey ?re)" by (simp add: sorted_wrt_iff_nth_less)
qed

section \<open>Searching\<close>

lemma segment_first:
  assumes "sorted_wrt (<) (map key xs)" "j \<le> lowerBoundOf t (map key xs)" "k \<le> length xs"
  shows "firstOf (filter (\<lambda>x. \<not> key x < t) (map ((!) xs) [j..<k])) =
    (if lowerBoundOf t (map key xs) < k then Some (xs ! lowerBoundOf t (map key xs)) else None)"
proof -
  let ?L = "lowerBoundOf t (map key xs)"
  have below: "key (xs ! i) < t" if "i < ?L" for i
    using lowerBoundOf_below [OF that] lowerBoundOf_le [of t "map key xs"] that by simp
  have above: "\<not> key (xs ! i) < t" if "?L \<le> i" "i < length xs" for i
    using lowerBoundOf_above [OF assms(1) that(1)] that(2) by simp
  show ?thesis
  proof (cases "?L < k")
    case True
    then have "[j..<k] = [j..<?L] @ ?L # [Suc ?L..<k]"
      using assms(2) by (metis le_add_diff_inverse less_imp_le upt_add_eq_append upt_conv_Cons)
    moreover have "filter (\<lambda>x. \<not> key x < t) (map ((!) xs) [j..<?L]) = []"
      using below by (auto simp: filter_empty_conv)
    ultimately show ?thesis using True above [of ?L] assms(3) by simp
  next
    case False
    then have "filter (\<lambda>x. \<not> key x < t) (map ((!) xs) [j..<k]) = []"
      using below by (auto simp: filter_empty_conv)
    then show ?thesis using False by simp
  qed
qed

lemma scanInterval_chain:
  assumes "chain p E pos prev ls limit prev'" "prev = [] \<Longrightarrow> ls \<noteq> [] \<Longrightarrow> fst (snd (hd ls)) = 0"
  shows "scanInterval p E t limit pos prev = Inr (firstOf (filter (\<lambda>e. \<not> deKey e < t) (map linkEntry ls)))"
  using assms
proof (induction ls arbitrary: pos prev)
  case Nil
  then show ?case by (simp add: scanInterval.simps)
next
  case (Cons m ls)
  obtain q shared e where m: "m = (q, shared, e)" by (cases m)
  obtain n where d: "decodeDataEntry p pos E prev = Inr (e, n, shared)" and rest: "chain p E n (deEncoded e) ls limit prev'"
    using Cons.prems(1) by (auto simp: m)
  have "pos < limit" using decodeDataEntry_next [OF d] chain_pos_le [OF rest] by simp
  moreover have "\<not> (prev = [] \<and> shared \<noteq> 0)" using Cons.prems(2) by (auto simp: m)
  moreover have "deEncoded e \<noteq> []" using decodeDataEntry_fields(2) [OF d] .
  then have "scanInterval p E t limit n (deEncoded e) = Inr (firstOf (filter (\<lambda>e. \<not> deKey e < t) (map linkEntry ls)))"
    using Cons.IH [OF rest] by blast
  ultimately show ?case
    using d by (auto simp: scanInterval.simps [of p E t limit pos prev] m)
qed

lemma searchRestarts_eq:
  assumes at: "\<And>i. i < n \<Longrightarrow> \<exists>e k. decodeDataEntry p (unat (rs ! i)) E [] = Inr (e, k, 0) \<and> deKey e = keys i" and "right \<le> n"
  shows "searchRestarts p E rs t left right = Inr (lowerBoundLoop keys t left right)"
  using assms(2)
proof (induction "right - left" arbitrary: left right rule: less_induct)
  case less
  show ?case
  proof (cases "left < right")
    case True
    let ?middle = "left + (right - left) div 2"
    have m: "left \<le> ?middle" "?middle < right" using True by auto
    obtain e k where "decodeDataEntry p (unat (rs ! ?middle)) E [] = Inr (e, k, 0)" "deKey e = keys ?middle"
      using at [of ?middle] m less.prems by auto
    moreover have "searchRestarts p E rs t (?middle + 1) right = Inr (lowerBoundLoop keys t (?middle + 1) right)"
      using m less.prems by (intro less.hyps) auto
    moreover have "searchRestarts p E rs t left ?middle = Inr (lowerBoundLoop keys t left ?middle)"
      using m less.prems by (intro less.hyps) auto
    ultimately show ?thesis
      using True by (simp add: searchRestarts.simps [of p E rs t left right] lowerBoundLoop.simps [of keys t left right] Let_def)
  next
    case False
    then show ?thesis
      by (simp add: searchRestarts.simps [of p E rs t left right] lowerBoundLoop.simps [of keys t left right])
  qed
qed

text \<open>Where the lower bound lies between the restart points that the search selects.\<close>

lemma restart_interval:
  fixes t :: InternalKey
  assumes ok: "blockOk p E ls b"
  defines "re \<equiv> dbRestartEntries b" and "ks \<equiv> map deKey (dbEntries b)"
  defines "left \<equiv> lowerBoundOf t (map drKey (dbRestartEntries b))"
  defines "j \<equiv> drEntryIndex (dbRestartEntries b ! (left - 1))"
  shows "left - 1 < length re" "j < length ks" "j \<le> lowerBoundOf t ks"
    and "left - 1 + 1 < length re \<Longrightarrow> j < drEntryIndex (re ! (left - 1 + 1))"
    and "left - 1 + 1 < length re \<Longrightarrow> lowerBoundOf t ks \<le> drEntryIndex (re ! (left - 1 + 1))"
proof -
  note ri = restart_indices [OF ok]
  have ks: "sorted_wrt (<) ks" "length ks = length ls" using ok by (auto simp: blockOk_def ks_def)
  have at: "drEntryIndex (re ! i) < length ls" "drKey (re ! i) = ks ! drEntryIndex (re ! i)" if "i < length re" for i
    using ok that by (auto simp: blockOk_def list_all_length restartAt_def re_def ks_def)
  have le: "left \<le> length re" using lowerBoundOf_le [of t "map drKey re"] by (simp add: left_def re_def)
  show l1: "left - 1 < length re" using le ri(1) by (cases left) (auto simp: re_def)
  show "j < length ks" using at(1) [OF l1] ks(2) by (simp add: j_def re_def)
  show "j \<le> lowerBoundOf t ks"
  proof (cases "left = 0")
    case True
    then show ?thesis using ri(3) by (simp add: j_def)
  next
    case False
    then have "drKey (re ! (left - 1)) < t"
      using lowerBoundOf_below [of "left - 1" t "map drKey re"] l1 by (simp add: left_def re_def)
    then have "ks ! j < t" using at(2) [OF l1] by (simp add: j_def re_def)
    then show ?thesis using lowerBoundOf_above [OF ks(1), of t j] \<open>j < length ks\<close> by (meson le_cases)
  qed
  assume nx: "left - 1 + 1 < length re"
  show "j < drEntryIndex (re ! (left - 1 + 1))"
    using sorted_wrt_nth_less [OF ri(4), of "left - 1" "left - 1 + 1"] nx by (simp add: j_def re_def)
  have "\<not> drKey (re ! (left - 1 + 1)) < t"
  proof (cases "left = 0")
    case True
    have "\<not> drKey (re ! 0) < t" using lowerBoundOf_above [OF ri(5), of t 0] True ri(1) by (simp add: left_def re_def)
    moreover have "drKey (re ! 0) < drKey (re ! 1)" using sorted_wrt_nth_less [OF ri(5), of 0 1] True nx ri(1) by (simp add: re_def)
    ultimately show ?thesis using True by auto
  next
    case False
    then show ?thesis using lowerBoundOf_above [OF ri(5), of t left] nx by (simp add: left_def re_def)
  qed
  then have "\<not> ks ! drEntryIndex (re ! (left - 1 + 1)) < t" using at(2) [OF nx] by simp
  then show "lowerBoundOf t ks \<le> drEntryIndex (re ! (left - 1 + 1))"
    using lowerBoundOf_below [of "drEntryIndex (re ! (left - 1 + 1))" t ks] by (meson not_le)
qed

lemma chain_segment:
  assumes "chain p E 0 [] ls E prev" "j < k" "k \<le> length ls" "fst (snd (ls ! j)) = 0"
  shows "\<exists>prev'. chain p E (fst (ls ! j)) [] (map ((!) ls) [j..<k]) (if k < length ls then fst (ls ! k) else E) prev'"
proof -
  have "ls = take j ls @ map ((!) ls) [j..<k] @ drop k ls"
  proof -
    have "map ((!) ls) [j..<k] = take (k - j) (drop j ls)"
      using assms(2,3) by (intro nth_equalityI) auto
    then show ?thesis using assms(2)
      by (metis append_take_drop_id drop_drop le_add_diff_inverse2 less_imp_le)
  qed
  then obtain pos1 prev1 pos2 prev2 where
    c2: "chain p E pos1 prev1 (map ((!) ls) [j..<k]) pos2 prev2" and c3: "chain p E pos2 prev2 (drop k ls) E prev"
    using assms(1) chain_append by metis
  have pos2: "pos2 = (if k < length ls then fst (ls ! k) else E)"
  proof (cases "k < length ls")
    case True
    then obtain q sh e rest where "drop k ls = (q, sh, e) # rest" "ls ! k = (q, sh, e)"
      by (metis Cons_nth_drop_Suc prod_cases3)
    then show ?thesis using c3 True by auto
  qed (use c3 in simp)
  obtain q e where lj: "ls ! j = (q, 0, e)" using assms(4) by (cases "ls ! j") auto
  have seg: "map ((!) ls) [j..<k] = (q, 0, e) # map ((!) ls) [Suc j..<k]" using assms(2) lj by (simp add: upt_conv_Cons)
  have "chain p E q [] (map ((!) ls) [j..<k]) pos2 prev2"
    using c2 decodeDataEntry_alone unfolding seg by auto
  then show ?thesis using pos2 lj by auto
qed

lemma seekDataBlock_ok:
  fixes t :: InternalKey
  assumes ok: "blockOk p E ls b"
  defines "L \<equiv> lowerBoundOf t (map deKey (dbEntries b))"
  shows "seekDataBlock p t = Inr (if L < length (dbEntries b) then Some (dbEntries b ! L) else None)"
proof -
  let ?re = "dbRestartEntries b" and ?rs = "dbRestarts b"
  define left where "left = lowerBoundOf t (map drKey ?re)"
  define j where "j = drEntryIndex (?re ! (left - 1))"
  obtain prev where layout: "decodeRestartLayout p = Inr (E, ?rs)" and ch: "chain p E 0 [] ls E prev"
    and es: "dbEntries b = map linkEntry ls" and so: "sorted_wrt (<) (map deKey (dbEntries b))"
    and off: "map drOffset ?re = ?rs" and at: "\<And>i. i < length ?re \<Longrightarrow> restartAt ls (?re ! i)"
    using ok by (auto simp: blockOk_def list_all_length)
  note ri = restart_indices [OF ok]
  note iv = restart_interval [OF ok, of t, folded left_def, folded j_def L_def]
  have alone: "\<exists>k. decodeDataEntry p (unat (?rs ! i)) E [] = Inr (linkEntry (ls ! drEntryIndex (?re ! i)), k, 0)"
    if "i < length ?re" for i
  proof -
    let ?l = "ls ! drEntryIndex (?re ! i)"
    have l: "?l \<in> set ls" "fst ?l = unat (?rs ! i)" "fst (snd ?l) = 0"
      using at [OF that] off that by (auto simp: restartAt_def simp flip: off)
    then show ?thesis using chain_entry [OF ch l(1)] decodeDataEntry_alone by metis
  qed
  have search: "searchRestarts p E ?rs t 0 (length ?rs) = Inr left"
  proof -
    have "searchRestarts p E ?rs t 0 (length ?rs) = Inr (lowerBoundLoop ((!) (map drKey ?re)) t 0 (length ?rs))"
    proof (rule searchRestarts_eq [where n = "length ?re"])
      fix i assume i: "i < length ?re"
      then show "\<exists>e k. decodeDataEntry p (unat (?rs ! i)) E [] = Inr (e, k, 0) \<and> deKey e = map drKey ?re ! i"
        using alone [OF i] at [OF i] by (auto simp: restartAt_def)
    qed (simp add: ri(2))
    then show ?thesis using lowerBoundLoop_of [OF ri(5), of t] ri(2) by (simp add: left_def)
  qed
  define k where "k = (if left - 1 + 1 < length ?re then drEntryIndex (?re ! (left - 1 + 1)) else length ls)"
  have kl: "k \<le> length ls" "j < k" "L \<le> k"
    using iv(2,4,5) at [of "left - 1 + 1"] es lowerBoundOf_le [of t "map deKey (dbEntries b)"]
    by (auto simp: k_def restartAt_def L_def split: if_splits)
  have offs: "unat (?rs ! i) = fst (ls ! drEntryIndex (?re ! i))" if "i < length ?re" for i
    using at [OF that] that by (simp add: restartAt_def flip: off)
  have limit: "(if left - 1 + 1 < length ?rs then unat (?rs ! (left - 1 + 1)) else E) = (if k < length ls then fst (ls ! k) else E)"
    using offs [of "left - 1 + 1"] at [of "left - 1 + 1"] ri(2) by (auto simp: k_def restartAt_def)
  have "fst (snd (ls ! j)) = 0" using at [OF iv(1)] by (simp add: restartAt_def j_def)
  then obtain prev' where "chain p E (fst (ls ! j)) [] (map ((!) ls) [j..<k]) (if k < length ls then fst (ls ! k) else E) prev'"
    using chain_segment [OF ch kl(2,1)] by blast
  then have sc: "scanInterval p E t (if k < length ls then fst (ls ! k) else E) (fst (ls ! j)) [] =
      Inr (firstOf (filter (\<lambda>e. \<not> deKey e < t) (map linkEntry (map ((!) ls) [j..<k]))))"
    using \<open>fst (snd (ls ! j)) = 0\<close> kl(2) by (intro scanInterval_chain) (auto simp: upt_conv_Cons)
  have eq: "map linkEntry (map ((!) ls) [j..<k]) = map ((!) (dbEntries b)) [j..<k]"
    using kl(1) by (simp add: es)
  have kle: "k \<le> length (dbEntries b)" using kl(1) es by simp
  have scan: "scanInterval p E t (if k < length ls then fst (ls ! k) else E) (unat (?rs ! (left - 1))) [] =
      Inr (if L < k then Some (dbEntries b ! L) else None)"
    unfolding offs [OF iv(1)] j_def [symmetric] sc eq
    using segment_first [OF so iv(3) [unfolded L_def] kle] unfolding L_def by (rule arg_cong)
  note scan = scan [folded limit]
  have body: "seekDataBlock p t = (case (if L < k then Some (dbEntries b ! L) else None) of
      Some entry \<Rightarrow> Inr (Some entry)
    | None \<Rightarrow>
        if left - 1 + 1 < length ?rs then
          (case decodeDataEntry p (unat (?rs ! (left - 1 + 1))) E [] of
             Inl _ \<Rightarrow> corruptBlock
           | Inr (entry, _, shared) \<Rightarrow>
               if shared \<noteq> 0 then corruptBlock
               else if compareInternal (deKey entry) t \<ge> 0 then Inr (Some entry) else Inr None)
        else Inr None)"
    unfolding seekDataBlock_def layout bindR_simps prod.case search Let_def scan by (rule refl)
  show ?thesis
  proof (cases "L < k")
    case True
    then show ?thesis
      using kle by (simp add: body)
  next
    case False
    then have Lk: "L = k" using kl(3) by simp
    show ?thesis
    proof (cases "left - 1 + 1 < length ?re")
      case True
      then have k: "k = drEntryIndex (?re ! (left - 1 + 1))" by (simp add: k_def)
      then have klt: "k < length ls" using at [OF True] by (simp add: restartAt_def)
      obtain n where "decodeDataEntry p (unat (?rs ! (left - 1 + 1))) E [] = Inr (dbEntries b ! k, n, 0)"
        using alone [OF True] k klt es by auto
      moreover have "\<not> deKey (dbEntries b ! k) < t"
        using lowerBoundOf_above [OF so, of t k] Lk klt es by (simp add: L_def)
      ultimately show ?thesis
        using True ri(2) Lk klt es by (simp add: body)
    next
      case last: False
      then have "k = length ls" by (simp add: k_def)
      then show ?thesis
        using last ri(2) Lk es by (simp add: body)
    qed
  qed
qed

lemma restart_keys_mono:
  assumes "blockOk p E ls b" "i \<le> j" "j < length (dbRestartEntries b)"
  shows "drKey (dbRestartEntries b ! i) \<le> drKey (dbRestartEntries b ! j)"
  using sorted_wrt_nth_less [OF restart_indices(5) [OF assms(1)], of i j] assms(2,3)
  by (cases "i = j") (auto intro: less_imp_le)

lemma firstNotBelow_eq:
  "firstNotBelow es t is = (case firstOf (filter (\<lambda>i. \<not> deKey (es ! i) < t) is) of None \<Rightarrow> length es | Some i \<Rightarrow> i)"
  by (induction "is") auto

lemma blockLowerBound_ok:
  fixes t :: InternalKey
  assumes ok: "blockOk p E ls b"
  shows "blockLowerBound b t = lowerBoundOf t (map deKey (dbEntries b))"
proof -
  let ?re = "dbRestartEntries b" and ?es = "dbEntries b"
  define L where "L = lowerBoundOf t (map deKey ?es)"
  define left where "left = lowerBoundOf t (map drKey ?re)"
  define j where "j = drEntryIndex (?re ! (left - 1))"
  define k where "k = (if left - 1 + 1 < length ?re then drEntryIndex (?re ! (left - 1 + 1)) + 1 else length ?es)"
  note ri = restart_indices [OF ok]
  note iv = restart_interval [OF ok, of t, folded left_def, folded j_def L_def]
  have so: "sorted_wrt (<) (map deKey ?es)" and len: "length ?es = length ls"
    and at: "\<And>i. i < length ?re \<Longrightarrow> restartAt ls (?re ! i)"
    using ok by (auto simp: blockOk_def list_all_length)
  have "\<And>i j. i \<le> j \<Longrightarrow> j < length ?re \<Longrightarrow> drKey (?re ! i) \<le> drKey (?re ! j)"
    using restart_keys_mono [OF ok] .
  then have search: "lowerBoundLoop (\<lambda>i. drKey (?re ! i)) t 0 (length ?re) = left"
    unfolding left_def
    using lowerBoundLoop_spec [where n = "length ?re" and keys = "\<lambda>i. drKey (?re ! i)" and target = t]
    by (intro lowerBoundOf_unique [OF ri(5)]) auto
  have kle: "k \<le> length ?es" "L < length ?es \<Longrightarrow> L < k"
    using iv(5) at [of "left - 1 + 1"] len by (auto simp: k_def restartAt_def split: if_splits)
  have "L \<le> length ?es" using lowerBoundOf_le [of t "map deKey ?es"] by (simp add: L_def)
  have keys: "map (\<lambda>i. deKey (?es ! i)) [0..<length ?es] = map deKey ?es"
    by (rule nth_equalityI) auto
  have idx: "map ((!) [0..<length ?es]) [j..<k] = [j..<k]" using kle(1) by (intro nth_equalityI) auto
  have "firstOf (filter (\<lambda>x. \<not> deKey (?es ! x) < t) [j..<k]) = (if L < k then Some L else None)"
    using segment_first [of "\<lambda>i. deKey (?es ! i)" "[0..<length ?es]" j t k] so iv(3) kle
    unfolding keys idx L_def [symmetric] by auto
  moreover have "L = length ?es" if "\<not> L < k" using kle(2) \<open>L \<le> length ?es\<close> that by linarith
  ultimately show ?thesis
    unfolding blockLowerBound_def search Let_def j_def [symmetric] k_def [symmetric]
    by (auto simp: firstNotBelow_eq L_def [symmetric])
qed

end
