(* ===== verification/Sst_Table.thy ===== *)
theory Sst_Table
  imports Sst_Block
begin

text \<open>
  What an accepted table holds and how its reads relate to it. \<open>openReader\<close> reads every data
  block once; the facts it establishes about them are collected in \<open>tableChain\<close>, and every later
  read through the same file is answered from the sorted run of their entries.
\<close>

section \<open>Sums and sizes\<close>

lemma checkedAdd_iff: "checkedAdd a b = Some c \<longleftrightarrow> unat a + unat b < 2 ^ 64 \<and> c = a + b"
proof -
  have "\<not> (-1 - a < b) \<longleftrightarrow> unat b \<le> 2 ^ 64 - 1 - unat a" by (simp add: not_less word_le_nat_alt unat_max_minus)
  also have "\<dots> \<longleftrightarrow> unat a + unat b < 2 ^ 64"
  proof -
    have "unat a < 2 ^ 64" using unsigned_less [of a] by simp
    then show ?thesis by linarith
  qed
  finally show ?thesis by (auto simp: checkedAdd_def)
qed

lemma checkedAdd_unat: "checkedAdd a b = Some c \<Longrightarrow> unat c = unat a + unat b"
  by (auto simp: checkedAdd_iff unat_add_exact)

lemma decodeDataEntry_sizes:
  assumes "decodeDataEntry p position E previous = Inr (e, n, shared)"
  shows "length (deEncoded e) \<le> MaxInternalKeySize" "length (deValue e) \<le> MaxValueSize"
  using assms unfolding decodeDataEntry_def Let_def
  by (auto elim!: bindR_okE dest!: checkedAdd_unat split: prod.splits if_splits option.splits sum.splits)

definition entryOk :: "DecodedEntry \<Rightarrow> bool" where
  "entryOk e \<longleftrightarrow> decodeInternalKey (deEncoded e) = Inr (deKey e) \<and> length (deEncoded e) \<le> MaxInternalKeySize \<and>
     length (deValue e) \<le> MaxValueSize \<and> (carriesValue (kind (deKey e)) \<or> deValue e = [])"

lemma blockOk_entries: "blockOk p E ls b \<Longrightarrow> e \<in> set (dbEntries b) \<Longrightarrow> entryOk e"
  unfolding blockOk_def entryOk_def
  by (auto dest!: chain_entry dest: decodeDataEntry_fields decodeDataEntry_sizes)

lemma decodeDataBlock_facts:
  assumes "decodeDataBlock p h = Inr b"
  shows "dbEntries b \<noteq> []" "sorted_wrt (<) (map deKey (dbEntries b))" "list_all entryOk (dbEntries b)"
proof -
  obtain E ls where ok: "blockOk p E ls b" using decodeDataBlock_ok [OF assms] by blast
  then show "dbEntries b \<noteq> []" "sorted_wrt (<) (map deKey (dbEntries b))" by (auto simp: blockOk_def)
  show "list_all entryOk (dbEntries b)" using blockOk_entries [OF ok] by (simp add: list_all_iff)
qed

section \<open>The blocks of an accepted table\<close>

abbreviation blockEntries :: "(bytes \<times> DecodedBlock) list \<Rightarrow> DecodedEntry list" where
  "blockEntries bs \<equiv> concat (map (\<lambda>b. dbEntries (snd b)) bs)"

text \<open>Payloads and decoded blocks, one for each index entry, with keys above \<open>lst\<close>.\<close>

fun tableChain :: "ReadAt \<Rightarrow> BloomFilter \<Rightarrow> InternalKey option \<Rightarrow> DecodedIndexEntry list \<Rightarrow> (bytes \<times> DecodedBlock) list \<Rightarrow> bool" where
  "tableChain f bloom lst [] [] \<longleftrightarrow> True"
| "tableChain f bloom lst (ie # index) ((p, b) # bs) \<longleftrightarrow>
     readBlockUnlocked f (diHandle ie) BlockData (hOffset (diHandle ie) + hLength (diHandle ie)) = Inr p \<and>
     decodeDataBlock p (diHandle ie) = Inr b \<and> deEncoded (last (dbEntries b)) = diEncoded ie \<and>
     (case lst of None \<Rightarrow> True | Some k \<Rightarrow> k < deKey (hd (dbEntries b))) \<and>
     list_all (\<lambda>e. mayContain bloom (userKey (deKey e))) (dbEntries b) \<and>
     tableChain f bloom (Some (deKey (last (dbEntries b)))) index bs"
| "tableChain f bloom lst _ _ \<longleftrightarrow> False"

lemma tableChain_length: "tableChain f bloom lst index bs \<Longrightarrow> length bs = length index"
  by (induction f bloom lst index bs rule: tableChain.induct) auto

lemma tableChain_nth:
  assumes "tableChain f bloom lst index bs" "i < length index"
  shows "readBlockUnlocked f (diHandle (index ! i)) BlockData (hOffset (diHandle (index ! i)) + hLength (diHandle (index ! i))) = Inr (fst (bs ! i)) \<and>
     decodeDataBlock (fst (bs ! i)) (diHandle (index ! i)) = Inr (snd (bs ! i)) \<and>
     deEncoded (last (dbEntries (snd (bs ! i)))) = diEncoded (index ! i)"
  using assms
proof (induction f bloom lst index bs arbitrary: i rule: tableChain.induct)
  case (2 f bloom lst ie index p b bs)
  then show ?case by (cases i) auto
qed auto

lemma tableChain_all:
  assumes "tableChain f bloom lst index bs"
  shows "sorted_wrt (<) (map deKey (blockEntries bs)) \<and> list_all entryOk (blockEntries bs) \<and>
    list_all (\<lambda>e. mayContain bloom (userKey (deKey e))) (blockEntries bs) \<and>
    (\<forall>k. lst = Some k \<longrightarrow> list_all (\<lambda>e. k < deKey e) (blockEntries bs))"
  using assms
proof (induction f bloom lst index bs rule: tableChain.induct)
  case (2 f bloom lst ie index p b bs)
  let ?es = "dbEntries b"
  have dec: "decodeDataBlock p (diHandle ie) = Inr b" and rest: "tableChain f bloom (Some (deKey (last ?es))) index bs"
    and bl: "list_all (\<lambda>e. mayContain bloom (userKey (deKey e))) ?es"
    and lst: "\<And>k. lst = Some k \<Longrightarrow> k < deKey (hd ?es)"
    using "2.prems" by (auto split: option.splits)
  note facts = decodeDataBlock_facts [OF dec]
  have up: "deKey (hd ?es) \<le> deKey e" "deKey e \<le> deKey (last ?es)" if e: "e \<in> set ?es" for e
  proof -
    obtain i where i: "i < length ?es" "e = ?es ! i" using e by (auto simp: in_set_conv_nth)
    show "deKey (hd ?es) \<le> deKey e" 
      using sorted_wrt_nth_less [OF facts(2), of 0 i] i facts(1) by (cases "i = 0") (auto simp: hd_conv_nth less_imp_le)
    show "deKey e \<le> deKey (last ?es)"
      using sorted_wrt_nth_less [OF facts(2), of i "length ?es - 1"] i facts(1)
      by (cases "i = length ?es - 1") (auto simp: last_conv_nth less_imp_le)
  qed
  have IH: "sorted_wrt (<) (map deKey (blockEntries bs))" "list_all entryOk (blockEntries bs)"
    "list_all (\<lambda>e. mayContain bloom (userKey (deKey e))) (blockEntries bs)"
    "list_all (\<lambda>e. deKey (last ?es) < deKey e) (blockEntries bs)"
    using "2.IH" [OF rest] by simp_all
  have above: "deKey e < deKey e'" if "e \<in> set ?es" "e' \<in> set (blockEntries bs)" for e e'
  proof -
    have "deKey (last ?es) < deKey e'" using IH(4) that(2) by (auto simp: list_all_iff)
    then show ?thesis using up(2) [OF that(1)] by (rule le_less_trans [rotated])
  qed
  have "list_all (\<lambda>e. k < deKey e) (blockEntries ((p, b) # bs))" if "lst = Some k" for k
  proof -
    have here: "k < deKey e" if "e \<in> set ?es" for e using lst [OF \<open>lst = Some k\<close>] up(1) [OF that] by (rule less_le_trans)
    moreover have "k < deKey e" if "e \<in> set (blockEntries bs)" for e
      using above [OF _ that, of "hd ?es"] here [of "hd ?es"] facts(1) by (meson hd_in_set less_trans)
    ultimately show ?thesis by (auto simp: list_all_iff)
  qed
  then show ?case using facts IH bl above by (auto simp: sorted_wrt_append)
qed auto

lemma tableChain_entries:
  assumes "tableChain f bloom lst index bs"
  shows "sorted_wrt (<) (map deKey (blockEntries bs))" "list_all entryOk (blockEntries bs)"
    and "list_all (\<lambda>e. mayContain bloom (userKey (deKey e))) (blockEntries bs)"
  using tableChain_all [OF assms] by simp_all

section \<open>The validating pass\<close>

definition deletionsOf :: "DecodedEntry list \<Rightarrow> nat" where
  "deletionsOf es = length (filter (\<lambda>e. kind (deKey e) = KindDelete) es)"

definition rawBytesOf :: "DecodedEntry list \<Rightarrow> nat" where
  "rawBytesOf es = sum_list (map (\<lambda>e. length (deEncoded e) + length (deValue e)) es)"

lemma tally_simps [simp]:
  "deletionsOf [] = 0" "deletionsOf (e # es) = (if kind (deKey e) = KindDelete then 1 else 0) + deletionsOf es"
  "rawBytesOf [] = 0" "rawBytesOf (e # es) = length (deEncoded e) + length (deValue e) + rawBytesOf es"
  "deletionsOf (es @ es') = deletionsOf es + deletionsOf es'" "rawBytesOf (es @ es') = rawBytesOf es + rawBytesOf es'"
  by (simp_all add: deletionsOf_def rawBytesOf_def)

lemma streamEntries_step:
  assumes "streamEntries bloom (e # es) s = Inr s'" "entryOk e" "ssDeletions s \<le> ssCount s"
  shows "\<exists>s1. streamEntries bloom es s1 = Inr s' \<and> mayContain bloom (userKey (deKey e)) \<and>
    ssFirst s1 = ssFirst s \<and> ssLast s1 = ssLast s \<and> ssCRCs s1 = ssCRCs s \<and> unat (ssCount s1) = unat (ssCount s) + 1 \<and>
    unat (ssDeletions s1) = unat (ssDeletions s) + (if kind (deKey e) = KindDelete then 1 else 0) \<and>
    unat (ssRaw s1) = unat (ssRaw s) + (length (deEncoded e) + length (deValue e))"
proof -
  obtain entryRaw raw where may: "mayContain bloom (userKey (deKey e))" and c: "ssCount s \<noteq> -1"
    and raw: "checkedAdd (word_of_nat (length (deEncoded e))) (word_of_nat (length (deValue e))) = Some entryRaw"
      "checkedAdd (ssRaw s) entryRaw = Some raw"
    and rest: "streamEntries bloom es (s\<lparr>ssCount := ssCount s + 1,
       ssDeletions := ssDeletions s + (if kind (deKey e) = KindDelete then 1 else 0), ssRaw := raw\<rparr>) = Inr s'"
    using assms(1) by (auto simp: Let_def split: if_splits option.splits)
  have "unat entryRaw = length (deEncoded e) + length (deValue e)"
    using checkedAdd_unat [OF raw(1)] assms(2) by (simp add: entryOk_def size_defs)
  moreover have "ssDeletions s \<noteq> -1" using assms(3) c by (metis word_order.extremum_uniqueI)
  ultimately show ?thesis
    using rest may c checkedAdd_unat [OF raw(2)] by (intro exI) (auto simp: unat_inc)
qed

lemma streamEntries_ok:
  assumes "streamEntries bloom es s = Inr s'" "list_all entryOk es" "ssDeletions s \<le> ssCount s"
  shows "list_all (\<lambda>e. mayContain bloom (userKey (deKey e))) es \<and> ssDeletions s' \<le> ssCount s' \<and>
    ssFirst s' = ssFirst s \<and> ssLast s' = ssLast s \<and> ssCRCs s' = ssCRCs s \<and>
    unat (ssCount s') = unat (ssCount s) + length es \<and> unat (ssDeletions s') = unat (ssDeletions s) + deletionsOf es \<and>
    unat (ssRaw s') = unat (ssRaw s) + rawBytesOf es"
  using assms
proof (induction es arbitrary: s)
  case (Cons e es)
  obtain s1 where s1: "streamEntries bloom es s1 = Inr s'" "mayContain bloom (userKey (deKey e))"
    "ssFirst s1 = ssFirst s" "ssLast s1 = ssLast s" "ssCRCs s1 = ssCRCs s" "unat (ssCount s1) = unat (ssCount s) + 1"
    "unat (ssDeletions s1) = unat (ssDeletions s) + (if kind (deKey e) = KindDelete then 1 else 0)"
    "unat (ssRaw s1) = unat (ssRaw s) + (length (deEncoded e) + length (deValue e))"
    using streamEntries_step [OF Cons.prems(1) _ Cons.prems(3)] Cons.prems(2) by auto
  have "ssDeletions s1 \<le> ssCount s1"
    using s1(6,7) Cons.prems(3) by (simp add: word_le_nat_alt)
  then show ?case using Cons.IH [OF s1(1)] Cons.prems(2) s1 by simp
qed simp

lemma streamBlocks_ok:
  assumes "streamBlocks f bloom index s = Inr s'" "ssDeletions s \<le> ssCount s"
  shows "\<exists>bs. tableChain f bloom (map_option deKey (ssLast s)) index bs \<and>
    ssCRCs s' = ssCRCs s @ map (\<lambda>b. blockPayloadChecksum (fst b) BlockData) bs \<and>
    ssFirst s' = (case ssFirst s of None \<Rightarrow> firstOf (blockEntries bs) | Some e \<Rightarrow> Some e) \<and>
    ssLast s' = (if bs = [] then ssLast s else Some (last (blockEntries bs))) \<and>
    unat (ssCount s') = unat (ssCount s) + length (blockEntries bs) \<and>
    unat (ssDeletions s') = unat (ssDeletions s) + deletionsOf (blockEntries bs) \<and>
    unat (ssRaw s') = unat (ssRaw s) + rawBytesOf (blockEntries bs)"
  using assms
proof (induction index arbitrary: s)
  case Nil
  then show ?case by (auto intro!: exI [of _ "[]"] split: option.splits)
next
  case (Cons ie index)
  obtain p b s2 where rd: "readBlockUnlocked f (diHandle ie) BlockData (hOffset (diHandle ie) + hLength (diHandle ie)) = Inr p"
      "decodeDataBlock p (diHandle ie) = Inr b" "deEncoded (last (dbEntries b)) = diEncoded ie"
    and order: "\<not> (case ssLast s of None \<Rightarrow> False | Some l \<Rightarrow> compareInternal (deKey l) (deKey (hd (dbEntries b))) \<ge> 0)"
    and es: "streamEntries bloom (dbEntries b)
              (s\<lparr>ssCRCs := ssCRCs s @ [blockPayloadChecksum p BlockData],
                 ssFirst := (case ssFirst s of None \<Rightarrow> Some (hd (dbEntries b)) | Some e \<Rightarrow> Some e),
                 ssLast := Some (last (dbEntries b))\<rparr>) = Inr s2"
    and rest: "streamBlocks f bloom index s2 = Inr s'"
    using Cons.prems(1) by (auto simp: Let_def elim!: bindR_okE split: if_splits)
  note facts = decodeDataBlock_facts [OF rd(2)]
  note s2 = streamEntries_ok [OF es facts(3), simplified, OF Cons.prems(2)]
  obtain bs where bs: "tableChain f bloom (map_option deKey (ssLast s2)) index bs"
    "ssCRCs s' = ssCRCs s2 @ map (\<lambda>b. blockPayloadChecksum (fst b) BlockData) bs"
    "ssFirst s' = (case ssFirst s2 of None \<Rightarrow> firstOf (blockEntries bs) | Some e \<Rightarrow> Some e)"
    "ssLast s' = (if bs = [] then ssLast s2 else Some (last (blockEntries bs)))"
    "unat (ssCount s') = unat (ssCount s2) + length (blockEntries bs)"
    "unat (ssDeletions s') = unat (ssDeletions s2) + deletionsOf (blockEntries bs)"
    "unat (ssRaw s') = unat (ssRaw s2) + rawBytesOf (blockEntries bs)"
    using Cons.IH [OF rest] s2 by blast
  have ne: "bs \<noteq> [] \<Longrightarrow> blockEntries bs \<noteq> []"
    using bs(1) decodeDataBlock_facts(1) by (cases bs; cases index) auto
  have "tableChain f bloom (map_option deKey (ssLast s)) (ie # index) ((p, b) # bs)"
    using rd order s2 bs(1) by (auto split: option.splits)
  then show ?case
    using s2 bs(2-7) facts(1) ne
    by (intro exI [of _ "(p, b) # bs"]) (auto split: option.splits simp: firstOf_def neq_Nil_conv)
qed

section \<open>Accepted tables\<close>

definition indexOk :: "DecodedIndexEntry list \<Rightarrow> bool" where
  "indexOk index \<longleftrightarrow> list_all (\<lambda>ie. decodeInternalKey (diEncoded ie) = Inr (diKey ie)) index"

lemma decodeIndexLoop_ok: "decodeIndexLoop n es rest = Inr (es', rest') \<Longrightarrow> indexOk es \<Longrightarrow> indexOk es'"
proof (induction n es rest rule: decodeIndexLoop.induct)
  case (2 left es rest)
  then show ?case by (auto simp: Let_def indexOk_def split: sum.splits prod.splits if_splits)
qed simp

lemma decodeIndex_ok: "decodeIndex p = Inr index \<Longrightarrow> indexOk index"
  by (auto simp: decodeIndex_def Let_def elim!: bindR_okE dest!: decodeIndexLoop_ok split: if_splits) (simp add: indexOk_def)

definition readerOk :: "ReadAt \<Rightarrow> SstReader \<Rightarrow> (bytes \<times> DecodedBlock) list \<Rightarrow> bool" where
  "readerOk f r bs \<longleftrightarrow> \<not> srClosed r \<and> tableChain f (srBloom r) None (srIndex r) bs \<and> bs \<noteq> [] \<and> indexOk (srIndex r) \<and>
     srDataCRCs r = map (\<lambda>b. blockPayloadChecksum (fst b) BlockData) bs"

text \<open>What the metadata says about the entries.\<close>

definition metadataOk :: "SstMetadata \<Rightarrow> DecodedEntry list \<Rightarrow> bool" where
  "metadataOk m es \<longleftrightarrow> unat (sstEntryCount m) = length es \<and> unat (sstDeletionCount m) = deletionsOf es \<and>
     unat (sstRawKeyValueBytes m) = rawBytesOf es \<and>
     sstSmallestInternal m = deKey (hd es) \<and> sstLargestInternal m = deKey (last es) \<and>
     sstSmallestUser m = userKey (deKey (hd es)) \<and> sstLargestUser m = userKey (deKey (last es))"

lemma cloneInternalKey_ok: "cloneInternalKey k = Inr k' \<longleftrightarrow> kindValid (kind k) \<and> k' = k"
  by (cases k) (auto simp: cloneInternalKey_def newInternalKey_def)

lemma entryOk_clone: "entryOk e \<Longrightarrow> cloneDecodedEntry e = Inr (KeyedEntry (deKey e) (deValue e))"
  using encode_decode_internal_key [of "deEncoded e" "deKey e"]
  by (simp add: entryOk_def cloneDecodedEntry_def cloneInternalKey_ok [THEN iffD2])

lemma tableChain_nonempty: "tableChain f bloom lst index bs \<Longrightarrow> bs \<noteq> [] \<Longrightarrow> blockEntries bs \<noteq> []"
  using decodeDataBlock_facts(1) by (cases bs; cases index) auto

lemma validateDataStream_ok:
  assumes "validateDataStream f bloom index disk = Inr (meta, crcs)" "index \<noteq> []"
  shows "\<exists>bs. tableChain f bloom None index bs \<and> bs \<noteq> [] \<and> crcs = map (\<lambda>b. blockPayloadChecksum (fst b) BlockData) bs \<and>
    metadataOk meta (blockEntries bs) \<and> sstDataBlockCount meta = word_of_nat (length index)"
proof -
  let ?s0 = "\<lparr>ssCount = 0, ssDeletions = 0, ssRaw = 0, ssFirst = None, ssLast = None, ssCRCs = []\<rparr>"
  obtain s first lst where s: "streamBlocks f bloom index ?s0 = Inr s" and fl: "ssFirst s = Some first" "ssLast s = Some lst"
    and meta: "meta = \<lparr>sstSmallestInternal = deKey first, sstLargestInternal = deKey lst,
       sstSmallestUser = dmSmallestUser disk, sstLargestUser = dmLargestUser disk,
       sstFileNumber = 0, sstFileSize = 0, sstEntryCount = ssCount s, sstDeletionCount = ssDeletions s,
       sstRawKeyValueBytes = ssRaw s, sstDataBlockCount = word_of_nat (length index)\<rparr>" "crcs = ssCRCs s"
    and user: "userKey (deKey first) = dmSmallestUser disk" "userKey (deKey lst) = dmLargestUser disk"
    using assms(1) by (auto simp: validateDataStream_def cloneInternalKey_ok elim!: bindR_okE split: option.splits if_splits)
  obtain bs where bs: "tableChain f bloom None index bs" "ssCRCs s = map (\<lambda>b. blockPayloadChecksum (fst b) BlockData) bs"
    "ssFirst s = firstOf (blockEntries bs)" "ssLast s = (if bs = [] then None else Some (last (blockEntries bs)))"
    "unat (ssCount s) = length (blockEntries bs)" "unat (ssDeletions s) = deletionsOf (blockEntries bs)"
    "unat (ssRaw s) = rawBytesOf (blockEntries bs)"
    using streamBlocks_ok [OF s] by auto
  have ne: "bs \<noteq> []" using fl bs(4) by auto
  then have "blockEntries bs \<noteq> []" using tableChain_nonempty [OF bs(1)] by blast
  then have "first = hd (blockEntries bs)" "lst = last (blockEntries bs)"
    using fl bs(3,4) ne by (auto simp: firstOf_def split: list.splits)
  then show ?thesis using bs ne meta user by (auto simp: metadataOk_def)
qed

lemma openReader_ok:
  assumes "openReader f sz base maxIndex = Inr r"
  shows "\<exists>bs. readerOk f r bs \<and> metadataOk (srMetadata r) (blockEntries bs) \<and>
    sstDataBlockCount (srMetadata r) = word_of_nat (length bs) \<and> sstFileSize (srMetadata r) = sz \<and>
    sstFileNumber (srMetadata r) = parseFileNumber base"
proof -
  obtain ip disk bloom meta crcs where "decodeIndex ip = Inr (srIndex r)" "srIndex r \<noteq> []"
    and v: "validateDataStream f bloom (srIndex r) disk = Inr (meta, crcs)"
    and r: "srBloom r = bloom" "srDataCRCs r = crcs" "\<not> srClosed r"
      "srMetadata r = meta\<lparr>sstFileNumber := parseFileNumber base, sstFileSize := sz\<rparr>"
    using assms unfolding openReader_def Let_def by (auto elim!: bindR_okE split: if_splits prod.splits)
  then obtain bs where bs: "tableChain f bloom None (srIndex r) bs" "bs \<noteq> []"
    "crcs = map (\<lambda>b. blockPayloadChecksum (fst b) BlockData) bs" "metadataOk meta (blockEntries bs)"
    "sstDataBlockCount meta = word_of_nat (length (srIndex r))"
    using validateDataStream_ok by blast
  moreover have "indexOk (srIndex r)" by (rule decodeIndex_ok) fact
  moreover have "length (srIndex r) = length bs" using tableChain_length [OF bs(1)] by simp
  ultimately show ?thesis using r by (auto simp: readerOk_def metadataOk_def intro!: exI [of _ bs])
qed

section \<open>Point reads\<close>

definition keyed :: "DecodedEntry \<Rightarrow> KeyedEntry" where
  "keyed e = KeyedEntry (deKey e) (deValue e)"

lemma keyed_sel [simp]: "entryKey (keyed e) = deKey e" "entryValue (keyed e) = deValue e"
  by (simp_all add: keyed_def)

text \<open>The entries of a table, as its file shows them block by block.\<close>

definition tableEntries :: "ReadAt \<Rightarrow> SstReader \<Rightarrow> KeyedEntry list" where
  "tableEntries f r =
     concat (map (\<lambda>i. case loadDataBlockUnlocked f r i of Inl _ \<Rightarrow> [] | Inr b \<Rightarrow> map keyed (dbEntries b)) [0..<length (srIndex r)])"

lemma readerOk_load:
  assumes "readerOk f r bs" "i < length (srIndex r)"
  shows "readDataPayloadUnlocked f r i = Inr (fst (bs ! i))" "loadDataBlockUnlocked f r i = Inr (snd (bs ! i))"
proof -
  have ch: "tableChain f (srBloom r) None (srIndex r) bs" and crc: "srDataCRCs r = map (\<lambda>b. blockPayloadChecksum (fst b) BlockData) bs"
    using assms(1) by (auto simp: readerOk_def)
  have i: "i < length bs" using tableChain_length [OF ch] assms(2) by simp
  show rd: "readDataPayloadUnlocked f r i = Inr (fst (bs ! i))"
    using tableChain_nth [OF ch assms(2)] i by (simp add: readDataPayloadUnlocked_def crc Let_def)
  show "loadDataBlockUnlocked f r i = Inr (snd (bs ! i))"
    using tableChain_nth [OF ch assms(2)] by (simp add: loadDataBlockUnlocked_def rd)
qed

lemma tableEntries_blocks:
  assumes "readerOk f r bs"
  shows "tableEntries f r = map keyed (blockEntries bs)"
proof -
  have len: "length bs = length (srIndex r)" using assms tableChain_length by (auto simp: readerOk_def)
  have "map (\<lambda>i. case loadDataBlockUnlocked f r i of Inl _ \<Rightarrow> [] | Inr b \<Rightarrow> map keyed (dbEntries b)) [0..<length (srIndex r)] =
     map (\<lambda>b. map keyed (dbEntries (snd b))) bs"
    using readerOk_load(2) [OF assms] len by (intro nth_equalityI) auto
  then show ?thesis by (simp add: tableEntries_def map_concat comp_def)
qed

lemma sorted_lasts:
  assumes "sorted_wrt (<) (map key (concat xss))" "[] \<notin> set xss"
  shows "sorted_wrt (<) (map (\<lambda>xs. key (last xs)) xss)"
  using assms by (induction xss) (auto simp: sorted_wrt_append intro!: last_in_set)

lemma lowerBoundOf_Cons: "lowerBoundOf t (k # ks) = (if k < t then Suc (lowerBoundOf t ks) else 0)"
  by (simp add: lowerBoundOf_def)

text \<open>The entries not below a key start in the first block whose last key is not below it.\<close>

lemma filter_blocks:
  fixes key :: "'a \<Rightarrow> InternalKey" and t :: InternalKey
  assumes "sorted_wrt (<) (map key (concat xss))" "[] \<notin> set xss"
  defines "B \<equiv> lowerBoundOf t (map (\<lambda>xs. key (last xs)) xss)"
  shows "filter (\<lambda>x. \<not> key x < t) (concat xss) =
    (if B < length xss then filter (\<lambda>x. \<not> key x < t) (xss ! B) @ concat (drop (Suc B) xss) else [])"
  using assms(1,2) unfolding B_def
proof (induction xss)
  case (Cons xs xss)
  let ?P = "\<lambda>x. \<not> key x < t"
  have ne: "xs \<noteq> []" using Cons.prems(2) by auto
  have up: "key x \<le> key (last xs)" if "x \<in> set xs" for x
    using Cons.prems(1) that ne by (cases xs rule: rev_cases) (auto simp: sorted_wrt_append less_imp_le)
  show ?case
  proof (cases "key (last xs) < t")
    case True
    then have "filter ?P xs = []" using up by (auto simp: filter_empty_conv intro: le_less_trans)
    then show ?thesis using Cons True by (simp add: lowerBoundOf_Cons sorted_wrt_append)
  next
    case False
    have "\<not> key x < t" if "x \<in> set (concat xss)" for x
    proof -
      have "key (last xs) < key x" using Cons.prems(1) that last_in_set [OF ne] by (auto simp: sorted_wrt_append)
      then show ?thesis using False by (meson less_trans)
    qed
    then have "filter ?P (concat xss) = concat xss" by (simp only: filter_id_conv) blast
    then show ?thesis using False by (simp add: lowerBoundOf_Cons)
  qed
qed (simp add: lowerBoundOf_def)

lemma readerOk_facts:
  assumes "readerOk f r bs"
  shows "length bs = length (srIndex r)" "sorted_wrt (<) (map deKey (blockEntries bs))"
    and "[] \<notin> set (map (\<lambda>b. dbEntries (snd b)) bs)" "list_all entryOk (blockEntries bs)"
    and "map diKey (srIndex r) = map (\<lambda>es. deKey (last es)) (map (\<lambda>b. dbEntries (snd b)) bs)"
proof -
  have ch: "tableChain f (srBloom r) None (srIndex r) bs" and ix: "indexOk (srIndex r)" using assms by (auto simp: readerOk_def)
  show len: "length bs = length (srIndex r)" using tableChain_length [OF ch] .
  show "sorted_wrt (<) (map deKey (blockEntries bs))" "list_all entryOk (blockEntries bs)"
    using tableChain_entries [OF ch] by blast+
  show "[] \<notin> set (map (\<lambda>b. dbEntries (snd b)) bs)"
    using tableChain_nth [OF ch] decodeDataBlock_facts(1) len by (fastforce simp: in_set_conv_nth)
  have "diKey (srIndex r ! i) = deKey (last (dbEntries (snd (bs ! i))))" if i: "i < length bs" for i
  proof -
    note nth = tableChain_nth [OF ch, of i]
    have "entryOk (last (dbEntries (snd (bs ! i))))"
      using nth decodeDataBlock_facts(1,3) i len by (metis last_in_set list_all_iff)
    then show ?thesis using nth ix i len by (auto simp: entryOk_def indexOk_def list_all_length)
  qed
  then show "map diKey (srIndex r) = map (\<lambda>es. deKey (last es)) (map (\<lambda>b. dbEntries (snd b)) bs)"
    using len by (intro nth_equalityI) auto
qed

lemma lowerBoundLoop_cong:
  assumes "\<And>i. i < right \<Longrightarrow> keys i = keys' i"
  shows "lowerBoundLoop keys t left right = lowerBoundLoop keys' t left right"
  using assms
proof (induction "right - left" arbitrary: left right rule: less_induct)
  case less
  let ?m = "left + (right - left) div 2"
  show ?case
  proof (cases "left < right")
    case True
    have "lowerBoundLoop keys t (?m + 1) right = lowerBoundLoop keys' t (?m + 1) right"
      "lowerBoundLoop keys t left ?m = lowerBoundLoop keys' t left ?m"
      using True less.prems by (auto intro!: less.hyps)
    moreover have "keys ?m = keys' ?m" using True by (intro less.prems) auto
    ultimately show ?thesis
      using True by (simp add: lowerBoundLoop.simps [of _ t left right] Let_def)
  qed (simp add: lowerBoundLoop.simps [of _ t left right])
qed

lemma lowerBoundIndex_ok:
  assumes "readerOk f r bs"
  shows "lowerBoundIndex (srIndex r) t = lowerBoundOf t (map (\<lambda>es. deKey (last es)) (map (\<lambda>b. dbEntries (snd b)) bs))"
proof -
  note facts = readerOk_facts [OF assms]
  have "sorted_wrt (<) (map diKey (srIndex r))"
    unfolding facts(5) using sorted_lasts [OF facts(2,3)] .
  from lowerBoundLoop_of [OF this, of t]
  have "lowerBoundLoop ((!) (map diKey (srIndex r))) t 0 (length (srIndex r)) = lowerBoundOf t (map diKey (srIndex r))" by simp
  moreover have "lowerBoundIndex (srIndex r) t = lowerBoundLoop ((!) (map diKey (srIndex r))) t 0 (length (srIndex r))"
    unfolding lowerBoundIndex_def by (rule lowerBoundLoop_cong) simp
  ultimately show ?thesis using facts(5) by simp
qed

lemma block_first:
  fixes t :: InternalKey
  assumes "sorted_wrt (<) (map deKey es)"
  shows "(if lowerBoundOf t (map deKey es) < length es then Some (es ! lowerBoundOf t (map deKey es)) else None) =
    firstOf (filter (\<lambda>e. \<not> deKey e < t) es)"
proof -
  have "map ((!) es) [0..<length es] = es" by (rule map_nth)
  then show ?thesis using segment_first [OF assms, of 0 t "length es"] by simp
qed

lemma seekEntry_ok:
  assumes "readerOk f r bs"
  shows "seekEntry f r t =
    (case firstOf (filter (\<lambda>e. \<not> deKey e < t) (blockEntries bs)) of None \<Rightarrow> Inl SstNotFound | Some e \<Rightarrow> Inr e)"
proof -
  let ?xss = "map (\<lambda>b. dbEntries (snd b)) bs" and ?P = "\<lambda>e. \<not> deKey e < t"
  define B where "B = lowerBoundIndex (srIndex r) t"
  note facts = readerOk_facts [OF assms]
  have open': "\<not> srClosed r" using assms by (simp add: readerOk_def)
  have split: "filter ?P (blockEntries bs) =
      (if B < length bs then filter ?P (dbEntries (snd (bs ! B))) @ concat (drop (Suc B) ?xss) else [])"
    using filter_blocks [OF facts(2,3), of t] by (simp add: B_def lowerBoundIndex_ok [OF assms] cong: if_cong)
  have le: "B \<le> length bs" using lowerBoundOf_le by (metis B_def lowerBoundIndex_ok [OF assms] length_map)
  show ?thesis
  proof (cases "B = length bs")
    case True
    then show ?thesis using facts(1) split open' by (simp add: seekEntry_def Let_def flip: B_def)
  next
    case False
    then have B: "B < length (srIndex r)" using le facts(1) by simp
    let ?es = "dbEntries (snd (bs ! B))"
    have dec: "decodeDataBlock (fst (bs ! B)) (diHandle (srIndex r ! B)) = Inr (snd (bs ! B))"
      using assms tableChain_nth [OF _ B] unfolding readerOk_def by blast
    obtain E ls where ok: "blockOk (fst (bs ! B)) E ls (snd (bs ! B))" using decodeDataBlock_ok [OF dec] by blast
    have seek: "seekDataBlock (fst (bs ! B)) t = Inr (firstOf (filter ?P ?es))"
      using seekDataBlock_ok [OF ok, of t] block_first [OF decodeDataBlock_facts(2) [OF dec], of t] by simp
    have "\<not> deKey (last ?es) < t"
      using lowerBoundOf_above [OF sorted_lasts [OF facts(2,3)], of t B] B facts(1)
      by (simp add: B_def lowerBoundIndex_ok [OF assms])
    then have "filter ?P ?es \<noteq> []"
      using decodeDataBlock_facts(1) [OF dec] last_in_set by (fastforce simp: filter_empty_conv)
    then obtain e es where "filter ?P ?es = e # es" by (auto simp: neq_Nil_conv)
    then show ?thesis
      using seek split B facts(1) open' readerOk_load(1) [OF assms B] by (simp add: seekEntry_def Let_def flip: B_def)
  qed
qed

lemma firstOf_map: "firstOf (map g xs) = map_option g (firstOf xs)"
  by (cases xs) auto

lemma firstOf_set: "firstOf xs = Some x \<Longrightarrow> x \<in> set xs"
  by (cases xs) auto

lemma sstSeek_ok:
  assumes "readerOk f r bs"
  shows "sstSeek f r t =
    (case firstOf (entriesAtLeast t (tableEntries f r)) of None \<Rightarrow> Inl SstNotFound | Some e \<Rightarrow> Inr e)"
proof -
  let ?fs = "filter (\<lambda>e. \<not> deKey e < t) (blockEntries bs)"
  have "entriesAtLeast t (tableEntries f r) = map keyed ?fs"
    by (simp add: entriesAtLeast_def tableEntries_blocks [OF assms] filter_map comp_def)
  moreover have "cloneDecodedEntry e = Inr (keyed e)" if "firstOf ?fs = Some e" for e
    using firstOf_set [OF that] readerOk_facts(4) [OF assms] entryOk_clone by (auto simp: list_all_iff keyed_def)
  ultimately show ?thesis
    by (auto simp: sstSeek_def seekEntry_ok [OF assms] firstOf_map split: option.splits)
qed

lemma tableEntries_sorted: "readerOk f r bs \<Longrightarrow> sortedEntries (tableEntries f r)"
  using readerOk_facts(2) [of f r bs] by (simp add: tableEntries_blocks sortedEntries_def sorted_wrt_map)

lemma entriesOf_from:
  assumes "sortedEntries es"
  shows "entriesOf es t = (case firstOf (entriesAtLeast t es) of None \<Rightarrow> None
      | Some e \<Rightarrow> if entryKey e = t then Some (entryValue e) else None)"
  using assms
proof (induction es)
  case (Cons e es)
  have IH: "entriesOf es t = (case firstOf (entriesAtLeast t es) of None \<Rightarrow> None
      | Some e \<Rightarrow> if entryKey e = t then Some (entryValue e) else None)"
    using Cons by (simp add: sortedEntries_def)
  show ?case
  proof (cases "entryKey e < t")
    case True
    then show ?thesis using IH by (auto simp: entriesOf_def entriesAtLeast_def)
  next
    case False
    have "t \<notin> entryKey ` set es" if "entryKey e \<noteq> t" using Cons.prems that False by (auto simp: sortedEntries_def)
    then have "entriesOf es t = None" if "entryKey e \<noteq> t" using that by (force simp: entriesOf_def map_of_eq_None_iff)
    then show ?thesis using False by (auto simp: entriesOf_def entriesAtLeast_def)
  qed
qed (simp add: entriesOf_def entriesAtLeast_def)

lemma sstGet_ok:
  assumes "readerOk f r bs"
  shows "sstGet f r t = (case entriesOf (tableEntries f r) t of None \<Rightarrow> Inl SstNotFound | Some v \<Rightarrow> Inr (KeyedEntry t v))"
  unfolding sstGet_def sstSeek_ok [OF assms] entriesOf_from [OF tableEntries_sorted [OF assms]]
  by (auto simp: compareInternal_eq_0 split: option.splits)

lemma readerOk_bloom:
  assumes "readerOk f r bs" "e \<in> set (tableEntries f r)"
  shows "mayContain (srBloom r) (userKey (entryKey e))"
  using assms tableChain_entries(3) [of f "srBloom r" None "srIndex r" bs]
  by (auto simp: tableEntries_blocks readerOk_def list_all_iff)

lemma sstGetCandidate_ok:
  assumes ok: "readerOk f r bs"
  shows "sstGetCandidate f r user target =
    (if length user > MaxUserKeySize then Inl SstKeyTooLarge
     else case candidateOf user target (tableEntries f r) of None \<Rightarrow> Inl SstNotFound | Some e \<Rightarrow> Inr e)"
proof -
  let ?es = "tableEntries f r"
  have key: "candidateSeekKey user target = Inr (InternalKey user target KindDelete)" if "\<not> length user > MaxUserKeySize"
    using that by (simp add: candidateSeekKey_def newInternalKey_def kindValid_def kind_defs)
  have none: "candidateOf user target ?es = None" if "\<not> mayContain (srBloom r) user"
  proof -
    have "filter (\<lambda>e. userKey (entryKey e) = user \<and> sequence (entryKey e) \<le> target) ?es = []"
      using readerOk_bloom [OF ok] that by (auto simp: filter_empty_conv)
    then show ?thesis by (simp add: candidateOf_def)
  qed
  have "\<not> srClosed r" using ok by (simp add: readerOk_def)
  then show ?thesis
    using key none candidate_from [OF tableEntries_sorted [OF ok], of user target]
    by (auto simp: sstGetCandidate_def sstMayContain_def sstSeek_ok [OF ok] split: option.splits)
qed

section \<open>Iteration\<close>

text \<open>Calling \<open>Next\<close> and \<open>Entry\<close> until \<open>Next\<close> reports the end, with the error that the iterator then holds.\<close>

partial_function (option) drainSst :: "ReadAt \<Rightarrow> SstReader \<Rightarrow> SstIterator \<Rightarrow> (KeyedEntry list \<times> SstError option) option" where
  [code]: "drainSst f r it =
     (case siNext f r it of (it', found) \<Rightarrow>
        if found then
          (case siEntry it' of
             Inr (Some e) \<Rightarrow> Option.bind (drainSst f r it') (\<lambda>(es, err). Some (e # es, err))
           | _ \<Rightarrow> None)
        else Some ([], siErr it'))"

definition belowEnd :: "bytes option \<Rightarrow> DecodedEntry \<Rightarrow> bool" where
  "belowEnd end' e \<longleftrightarrow> (case end' of None \<Rightarrow> True | Some l \<Rightarrow> userKey (deKey e) < l)"

text \<open>An iterator between two calls and the entries it still has to deliver.\<close>

definition itRest :: "(bytes \<times> DecodedBlock) list \<Rightarrow> SstIterator \<Rightarrow> DecodedEntry list \<Rightarrow> bool" where
  "itRest bs it rest \<longleftrightarrow> \<not> siClosed it \<and> siErr it = None \<and>
     (\<not> siStarted it \<and> dbEntries (siBlock it) = [] \<and> siEntryIndex it = -1 \<and> rest = blockEntries bs \<or>
      (\<exists>k i. k < length bs \<and> siBlock it = snd (bs ! k) \<and> siBlockIndex it = int k \<and> siEntryIndex it = int i - 1 \<and>
         i \<le> length (dbEntries (snd (bs ! k))) \<and> rest = drop i (dbEntries (snd (bs ! k))) @ blockEntries (drop (Suc k) bs)) \<or>
      siStarted it \<and> dbEntries (siBlock it) = [] \<and> siEntryIndex it \<ge> -1 \<and> siBlockIndex it = int (length bs) \<and> rest = [])"

definition delivers :: "ReadAt \<Rightarrow> SstReader \<Rightarrow> (bytes \<times> DecodedBlock) list \<Rightarrow> bytes option \<Rightarrow> DecodedEntry list \<Rightarrow> SstIterator \<times> bool \<Rightarrow> bool" where
  "delivers f r bs end' rest res \<longleftrightarrow>
     (if rest \<noteq> [] \<and> belowEnd end' (hd rest)
      then snd res \<and> siEntry (fst res) = Inr (Some (keyed (hd rest))) \<and> itRest bs (fst res) (tl rest) \<and> siEnd (fst res) = end'
      else \<not> snd res \<and> siErr (fst res) = None)"

lemma siStep_found:
  assumes ok: "readerOk f r bs" and skip: "skipBlocks f r (it\<lparr>siEntryIndex := siEntryIndex it + 1\<rparr>) = (it', True)"
    and m: "m < length bs" "siBlock it' = snd (bs ! m)" "siBlockIndex it' = int m" "siEntryIndex it' = int j"
    and j: "j < length (dbEntries (snd (bs ! m)))" and it: "\<not> siClosed it'" "siErr it' = None"
  shows "delivers f r bs (siEnd it') (drop j (dbEntries (snd (bs ! m))) @ blockEntries (drop (Suc m) bs)) (siStep f r it)"
proof -
  let ?es = "dbEntries (snd (bs ! m))"
  have rest: "drop j ?es @ blockEntries (drop (Suc m) bs) = ?es ! j # drop (Suc j) ?es @ blockEntries (drop (Suc m) bs)"
    using j by (simp add: Cons_nth_drop_Suc [symmetric])
  have "?es ! j \<in> set (blockEntries bs)" using m(1) j by (auto intro!: bexI [of _ "bs ! m"])
  then have cl: "cloneDecodedEntry (?es ! j) = Inr (keyed (?es ! j))"
    using readerOk_facts(4) [OF ok] entryOk_clone by (auto simp: list_all_iff keyed_def)
  have "itRest bs (it'\<lparr>siValid := True\<rparr>) (drop (Suc j) ?es @ blockEntries (drop (Suc m) bs))"
    using m j it unfolding itRest_def by (intro conjI disjI2 disjI1 exI [of _ m] exI [of _ "Suc j"]) auto
  then show ?thesis
    unfolding delivers_def rest siStep_def skip using cl m it
    by (auto simp: belowEnd_def siEntry_def split: option.splits)
qed

lemma siStep_at:
  assumes ok: "readerOk f r bs" and k: "k < length bs" "siBlock it = snd (bs ! k)" "siBlockIndex it = int k"
    and i: "siEntryIndex it = int i - 1" "i \<le> length (dbEntries (snd (bs ! k)))" and it: "\<not> siClosed it" "siErr it = None"
  shows "delivers f r bs (siEnd it) (drop i (dbEntries (snd (bs ! k))) @ blockEntries (drop (Suc k) bs)) (siStep f r it)"
proof -
  note facts = readerOk_facts [OF ok]
  have open': "\<not> srClosed r" using ok by (simp add: readerOk_def)
  let ?it = "it\<lparr>siEntryIndex := siEntryIndex it + 1\<rparr>"
  show ?thesis
  proof (cases "i < length (dbEntries (snd (bs ! k)))")
    case True
    then have "skipBlocks f r ?it = (?it, True)" using k i by (subst skipBlocks.simps) simp
    then show ?thesis using siStep_found [OF ok _ k(1), of it ?it i] True i k it by simp
  next
    case False
    then have rest: "drop i (dbEntries (snd (bs ! k))) @ blockEntries (drop (Suc k) bs) = blockEntries (drop (Suc k) bs)" by simp
    show ?thesis
    proof (cases "Suc k < length bs")
      case True
      let ?it2 = "it\<lparr>siBlock := snd (bs ! Suc k), siBlockIndex := int (Suc k), siEntryIndex := 0\<rparr>"
      have ne: "dbEntries (snd (bs ! Suc k)) \<noteq> []" using facts(3) True by (metis (no_types, lifting) imageI list.set_map nth_mem)
      have "loadBlock f r (int k + 1) ?it = (?it\<lparr>siBlock := snd (bs ! Suc k), siBlockIndex := int (Suc k)\<rparr>, True)"
        using readerOk_load(2) [OF ok, of "Suc k"] True facts(1) open' by (simp add: loadBlock_def nat_add_distrib)
      moreover have "skipBlocks f r ?it2 = (?it2, True)" using ne by (subst skipBlocks.simps) simp
      ultimately have "skipBlocks f r ?it = (?it2, True)"
        using False k i by (subst skipBlocks.simps) simp
      moreover have "blockEntries (drop (Suc k) bs) = drop 0 (dbEntries (snd (bs ! Suc k))) @ blockEntries (drop (Suc (Suc k)) bs)"
        using True by (simp add: Cons_nth_drop_Suc [symmetric])
      ultimately show ?thesis
        using siStep_found [OF ok _ True, of it ?it2 0] ne it unfolding rest by simp
    next
      case last: False
      then have "loadBlock f r (int k + 1) ?it = (?it\<lparr>siBlock := emptyBlock, siBlockIndex := int (length (srIndex r))\<rparr>, False)"
        using facts(1) open' k(1) by (simp add: loadBlock_def)
      then have "skipBlocks f r ?it = (?it\<lparr>siBlock := emptyBlock, siBlockIndex := int (length (srIndex r))\<rparr>, False)"
        using False k i by (subst skipBlocks.simps) simp
      then show ?thesis using last it unfolding rest by (simp add: siStep_def delivers_def)
    qed
  qed
qed

lemma siNext_rest:
  assumes ok: "readerOk f r bs" and rest: "itRest bs it rest"
  shows "delivers f r bs (siEnd it) rest (siNext f r it)"
proof -
  note facts = readerOk_facts [OF ok]
  have open': "\<not> srClosed r" and ne: "bs \<noteq> []" using ok by (auto simp: readerOk_def)
  have it: "\<not> siClosed it" "siErr it = None" using rest by (auto simp: itRest_def)
  consider
      (fresh) "\<not> siStarted it" "dbEntries (siBlock it) = []" "siEntryIndex it = -1" "rest = blockEntries bs"
    | (at) k i where "k < length bs" "siBlock it = snd (bs ! k)" "siBlockIndex it = int k" "siEntryIndex it = int i - 1"
        "i \<le> length (dbEntries (snd (bs ! k)))" "rest = drop i (dbEntries (snd (bs ! k))) @ blockEntries (drop (Suc k) bs)"
    | (finished) "siStarted it" "dbEntries (siBlock it) = []" "siEntryIndex it \<ge> -1" "siBlockIndex it = int (length bs)" "rest = []"
    using rest unfolding itRest_def by blast
  then show ?thesis
  proof cases
    case fresh
    let ?it = "it\<lparr>siValid := False, siStarted := True, siBlock := snd (bs ! 0), siBlockIndex := 0\<rparr>"
    have "loadBlock f r 0 (it\<lparr>siValid := False, siStarted := True\<rparr>) = (?it, True)"
      using readerOk_load(2) [OF ok, of 0] facts(1) open' ne by (auto simp: loadBlock_def)
    then have "siNext f r it = siStep f r ?it" using fresh it open' by (simp add: siNext_def Let_def)
    moreover have "blockEntries bs = drop 0 (dbEntries (snd (bs ! 0))) @ blockEntries (drop (Suc 0) bs)"
      using ne by (cases bs) auto
    ultimately show ?thesis using siStep_at [OF ok, of 0 ?it 0] ne fresh it by simp
  next
    case at
    have "dbEntries (siBlock it) \<noteq> []" using facts(3) at(1,2) by (metis (no_types, lifting) imageI list.set_map nth_mem)
    then have "siNext f r it = siStep f r (it\<lparr>siValid := False, siStarted := True\<rparr>)"
      using it open' by (cases it) (simp add: siNext_def Let_def)
    then show ?thesis using siStep_at [OF ok at(1), of "it\<lparr>siValid := False, siStarted := True\<rparr>" i] at it by simp
  next
    case finished
    let ?it = "it\<lparr>siValid := False, siEntryIndex := siEntryIndex it + 1\<rparr>"
    have "loadBlock f r (int (length bs) + 1) ?it = (?it\<lparr>siBlock := emptyBlock, siBlockIndex := int (length (srIndex r))\<rparr>, False)"
      using facts(1) open' by (simp add: loadBlock_def)
    then have "skipBlocks f r ?it = (?it\<lparr>siBlock := emptyBlock, siBlockIndex := int (length (srIndex r))\<rparr>, False)"
      using finished by (subst skipBlocks.simps) simp
    then show ?thesis using finished it open' by (simp add: siNext_def Let_def siStep_def delivers_def)
  qed
qed

lemma drainSst_rest:
  assumes ok: "readerOk f r bs" and "itRest bs it rest"
  shows "drainSst f r it = Some (map keyed (takeWhile (belowEnd (siEnd it)) rest), None)"
  using assms(2)
proof (induction rest arbitrary: it)
  case Nil
  then show ?case using siNext_rest [OF ok Nil] by (subst drainSst.simps) (auto simp: delivers_def split: prod.splits)
next
  case (Cons e rest)
  note d = siNext_rest [OF ok Cons.prems]
  obtain it' found where n: "siNext f r it = (it', found)" by (cases "siNext f r it")
  show ?case
  proof (cases "belowEnd (siEnd it) e")
    case True
    then have it': "found" "siEntry it' = Inr (Some (keyed e))" "itRest bs it' rest" "siEnd it' = siEnd it"
      using d n by (auto simp: delivers_def)
    then show ?thesis using Cons.IH [OF it'(3)] True n by (subst drainSst.simps) simp
  next
    case False
    then show ?thesis using d n by (subst drainSst.simps) (simp add: delivers_def)
  qed
qed

lemma filter_lowerBound:
  assumes "sorted_wrt (<) (map key xs)"
  shows "filter (\<lambda>x. \<not> key x < t) xs = drop (lowerBoundOf t (map key xs)) xs"
  using assms
proof (induction xs)
  case (Cons x xs)
  have "filter (\<lambda>x. \<not> key x < t) xs = xs" if "\<not> key x < t"
    using Cons.prems that by (auto simp: filter_id_conv dest: less_trans)
  then show ?case using Cons by (simp add: lowerBoundOf_Cons)
qed (simp add: lowerBoundOf_def)

lemma newIteratorAt_ok:
  assumes ok: "readerOk f r bs"
  shows "\<exists>it rest. newIteratorAt f r target rangeMode end' = Inr it \<and> siEnd it = end' \<and> itRest bs it rest \<and>
    takeWhile (belowEnd end') rest = takeWhile (belowEnd end')
      (case target of None \<Rightarrow> blockEntries bs | Some t \<Rightarrow> filter (\<lambda>e. \<not> deKey e < t) (blockEntries bs))"
proof (cases target)
  case None
  have "itRest bs (freshIterator end') (blockEntries bs)" by (simp add: itRest_def freshIterator_def emptyBlock_def)
  then show ?thesis using ok None by (auto simp: newIteratorAt_def readerOk_def freshIterator_def)
next
  case (Some t)
  let ?xss = "map (\<lambda>b. dbEntries (snd b)) bs" and ?P = "\<lambda>e. \<not> deKey e < t"
  define B where "B = lowerBoundIndex (srIndex r) t"
  note facts = readerOk_facts [OF ok]
  have open': "\<not> srClosed r" using ok by (simp add: readerOk_def)
  have split: "filter ?P (blockEntries bs) =
      (if B < length bs then filter ?P (dbEntries (snd (bs ! B))) @ blockEntries (drop (Suc B) bs) else [])"
    using filter_blocks [OF facts(2,3), of t] by (simp add: B_def lowerBoundIndex_ok [OF ok] drop_map cong: if_cong)
  have le: "B \<le> length bs" using lowerBoundOf_le by (metis B_def lowerBoundIndex_ok [OF ok] length_map)
  show ?thesis
  proof (cases "B = length bs")
    case True
    then have "newIteratorAt f r target rangeMode end' = Inr (exhaustedIterator r end')"
      using facts(1) open' by (simp add: newIteratorAt_def Some Let_def flip: B_def)
    moreover have "itRest bs (exhaustedIterator r end') []"
      using facts(1) by (simp add: itRest_def exhaustedIterator_def freshIterator_def emptyBlock_def)
    ultimately show ?thesis using True split Some by (auto simp: exhaustedIterator_def freshIterator_def)
  next
    case False
    then have B: "B < length (srIndex r)" "B < length bs" using le facts(1) by auto
    let ?es = "dbEntries (snd (bs ! B))"
    have dec: "decodeDataBlock (fst (bs ! B)) (diHandle (srIndex r ! B)) = Inr (snd (bs ! B))"
      using ok tableChain_nth [OF _ B(1)] unfolding readerOk_def by blast
    obtain E ls where bok: "blockOk (fst (bs ! B)) E ls (snd (bs ! B))" using decodeDataBlock_ok [OF dec] by blast
    define L where "L = lowerBoundOf t (map deKey ?es)"
    have lb: "blockLowerBound (snd (bs ! B)) t = L" using blockLowerBound_ok [OF bok] by (simp add: L_def)
    have fl: "filter ?P ?es = drop L ?es" using filter_lowerBound decodeDataBlock_facts(2) [OF dec] by (simp add: L_def)
    have "\<not> deKey (last ?es) < t"
      using lowerBoundOf_above [OF sorted_lasts [OF facts(2,3)], of t B] B facts(1)
      by (simp add: B_def lowerBoundIndex_ok [OF ok])
    then have "drop L ?es \<noteq> []"
      unfolding fl [symmetric] using decodeDataBlock_facts(1) [OF dec] last_in_set by (fastforce simp: filter_empty_conv)
    then have L: "L < length ?es" by simp
    define it where "it = (freshIterator end')\<lparr>siBlock := snd (bs ! B), siBlockIndex := int B, siEntryIndex := int L - 1\<rparr>"
    define out where "out \<longleftrightarrow> rangeMode \<and> (case end' of None \<Rightarrow> False | Some e \<Rightarrow> compareBytes (userKey (deKey (?es ! L))) e \<ge> 0)"
    have new: "newIteratorAt f r target rangeMode end' =
        Inr (if out then it\<lparr>siBlock := emptyBlock, siStarted := True, siBlockIndex := int (length (srIndex r))\<rparr> else it)"
      using open' B readerOk_load(2) [OF ok B(1)] lb L
      by (simp add: newIteratorAt_def Some Let_def it_def out_def flip: B_def)
    have rest: "filter ?P (blockEntries bs) = ?es ! L # drop (Suc L) ?es @ blockEntries (drop (Suc B) bs)"
      unfolding split fl using B L by (simp add: Cons_nth_drop_Suc)
    show ?thesis
    proof (cases out)
      case True
      then have "takeWhile (belowEnd end') (filter ?P (blockEntries bs)) = []"
        unfolding rest by (auto simp: out_def belowEnd_def split: option.splits)
      moreover have "itRest bs (it\<lparr>siBlock := emptyBlock, siStarted := True, siBlockIndex := int (length (srIndex r))\<rparr>) []"
        using facts(1) by (simp add: itRest_def it_def freshIterator_def emptyBlock_def)
      ultimately show ?thesis using new True Some by (auto simp: it_def freshIterator_def)
    next
      case False
      have "itRest bs it (drop L ?es @ blockEntries (drop (Suc B) bs))"
        using B L unfolding itRest_def it_def freshIterator_def
        by (intro conjI disjI2 disjI1 exI [of _ B] exI [of _ L]) auto
      moreover have "siEnd it = end'" by (simp add: it_def freshIterator_def)
      ultimately show ?thesis using new False Some split fl B by auto
    qed
  qed
qed

lemma takeWhile_keyed: "map keyed (takeWhile (belowEnd end') es) =
  takeWhile (\<lambda>e. case end' of None \<Rightarrow> True | Some l \<Rightarrow> userKey (entryKey e) < l) (map keyed es)"
  by (cases end') (simp_all add: takeWhile_map comp_def belowEnd_def [abs_def])

lemma sortedEntries_filter: "sortedEntries es \<Longrightarrow> sortedEntries (filter P es)"
  by (simp add: sortedEntries_def sorted_wrt_filter)

definition drains :: "ReadAt \<Rightarrow> SstReader \<Rightarrow> SstError + SstIterator \<Rightarrow> KeyedEntry list \<Rightarrow> bool" where
  "drains f r res es \<longleftrightarrow> (case res of Inl _ \<Rightarrow> False | Inr it \<Rightarrow> drainSst f r it = Some (es, None))"

lemma newIteratorAt_drains:
  assumes ok: "readerOk f r bs"
  shows "drains f r (newIteratorAt f r target rangeMode end')
    (filter (inRange None end') (case target of None \<Rightarrow> tableEntries f r | Some t \<Rightarrow> entriesAtLeast t (tableEntries f r)))"
proof -
  let ?des = "case target of None \<Rightarrow> blockEntries bs | Some t \<Rightarrow> filter (\<lambda>e. \<not> deKey e < t) (blockEntries bs)"
  obtain it rest where it: "newIteratorAt f r target rangeMode end' = Inr it" "siEnd it = end'" "itRest bs it rest"
    "takeWhile (belowEnd end') rest = takeWhile (belowEnd end') ?des"
    using newIteratorAt_ok [OF ok] by blast
  have es: "map keyed ?des = (case target of None \<Rightarrow> tableEntries f r | Some t \<Rightarrow> entriesAtLeast t (tableEntries f r))"
    by (simp add: tableEntries_blocks [OF ok] entriesAtLeast_def filter_map comp_def split: option.splits)
  have so: "sortedEntries (map keyed ?des)"
    unfolding es using tableEntries_sorted [OF ok] by (simp add: entriesAtLeast_def sortedEntries_filter split: option.splits)
  have "drainSst f r it = Some (filter (inRange None end') (map keyed ?des), None)"
    using drainSst_rest [OF ok it(3)] it(2,4) takeWhile_keyed [of end' ?des] takeWhile_limit [OF so, of end'] by simp
  then show ?thesis using it(1) es by (simp add: drains_def)
qed

lemma sstRange_ok:
  assumes ok: "readerOk f r bs"
  shows "if (case start of None \<Rightarrow> False | Some s \<Rightarrow> length s > MaxUserKeySize) \<or>
       (case end' of None \<Rightarrow> False | Some e \<Rightarrow> length e > MaxUserKeySize) then sstRange f r start end' = Inl SstKeyTooLarge
     else if (case (start, end') of (Some s, Some e) \<Rightarrow> e < s | _ \<Rightarrow> False) then sstRange f r start end' = Inl SstInvalidRange
     else drains f r (sstRange f r start end') (filter (inRange start end') (tableEntries f r))"
proof -
  have key: "newInternalKey s (-1) KindDelete = Inr (InternalKey s (-1) KindDelete)" for s
    by (simp add: newInternalKey_def kindValid_def kind_defs)
  have "filter (inRange None end') (entriesAtLeast (InternalKey s (-1) KindDelete) es) = filter (inRange (Some s) end') es" for s es
    unfolding entriesAtLeast_def seek_from filter_filter
    by (rule filter_cong) (auto simp: inRange_def intro: order.not_eq_order_implies_strict split: option.splits)
  then show ?thesis
    using newIteratorAt_drains [OF ok, of "case start of None \<Rightarrow> None | Some s \<Rightarrow> Some (InternalKey s (-1) KindDelete)" True end']
    by (auto simp: sstRange_def key split: option.splits)
qed

end
