(* ===== verification/Sst_Writer.thy ===== *)
theory Sst_Writer
  imports Sst_Reader
begin

text \<open>
  \<open>sstable/writer.go\<close>: one ordered stream of entries into a temporary file that \<open>Finish\<close>
  completes, syncs and renames. The file under the writer takes the results of its
  \<open>Write\<close>, \<open>Sync\<close> and \<open>Close\<close> calls from scripts, as the log's file does; \<open>swOps\<close> is the script of
  the calls on paths and on the directory. \<open>swTemp\<close> and \<open>swFinal\<close> are what the two paths hold.
\<close>

record IndexEntry =
  ixLastKey :: bytes
  ixHandle :: BlockHandle

record SstWriter =
  swFile :: WalFile
  swOps :: "bool list"
  swTemp :: bool
  swFinal :: "bytes option"
  swFileNumber :: u64
  swBlockSize :: nat
  swBlock :: BlockBuilder
  swIndex :: "IndexEntry list"
  swOffset :: u64
  swEntryCount :: u64
  swDeletionCount :: u64
  swRawBytes :: u64
  swLastKey :: InternalKey
  swLastEncoded :: bytes
  swSmallestKey :: InternalKey
  swSmallestUser :: bytes
  swLargestUser :: bytes
  swLastBloomUser :: bytes
  swBloomHashes :: "BloomHash list"
  swHaveBloomUser :: bool
  swEnableBloom :: bool
  swHaveEntry :: bool
  swFailed :: "SstError option"
  swFinished :: bool
  swAborted :: bool
  swFileClosed :: bool
  swMetadata :: "SstMetadata option"
  swAbortErr :: "SstError option"

section \<open>Opening\<close>

record SstOptions =
  soBlockSize :: int
  soRestartInterval :: int
  soDisableBloom :: bool

definition normalizeOptions :: "SstOptions \<Rightarrow> SstError + (nat \<times> nat)" where
  "normalizeOptions options =
     (let blockSize = (if soBlockSize options = 0 then int DefaultBlockSize else soBlockSize options);
          restartInterval = (if soRestartInterval options = 0 then int DefaultRestartInterval else soRestartInterval options)
      in if blockSize < 1 \<or> blockSize > int MaxDataBlockSize \<or> restartInterval < 1 \<or> restartInterval > 65535
         then Inl SstInvalidOptions
         else Inr (nat blockSize, nat restartInterval))"

definition newSstWriter :: "WalFile \<Rightarrow> bool list \<Rightarrow> u64 \<Rightarrow> nat \<Rightarrow> nat \<Rightarrow> SstWriter" where
  "newSstWriter file ops fileNumber blockSize restartInterval =
     \<lparr>swFile = file, swOps = ops, swTemp = True, swFinal = None, swFileNumber = fileNumber, swBlockSize = blockSize,
      swBlock = newDataBlockBuilder restartInterval, swIndex = [], swOffset = 0, swEntryCount = 0, swDeletionCount = 0,
      swRawBytes = 0, swLastKey = InternalKey [] 0 0, swLastEncoded = [], swSmallestKey = InternalKey [] 0 0,
      swSmallestUser = [], swLargestUser = [], swLastBloomUser = [], swBloomHashes = [], swHaveBloomUser = False,
      swEnableBloom = True, swHaveEntry = False, swFailed = None, swFinished = False, swAborted = False,
      swFileClosed = False, swMetadata = None, swAbortErr = None\<rparr>"

datatype PathState = PathAbsent | PathPresent | PathError

text \<open>What the final path holds, what creating the temporary file meets, and the scripts of the new file.\<close>

definition OpenSstWriter :: "PathState \<Rightarrow> PathState \<Rightarrow> (int \<times> bool) list \<Rightarrow> bool list \<Rightarrow> bool list \<Rightarrow> u64 \<Rightarrow> SstOptions \<Rightarrow>
    SstError + SstWriter" where
  "OpenSstWriter finalPath tempPath writes syncs ops fileNumber options =
     (if fileNumber = 0 \<or> fileNumber > sstMaxFileNumber then Inl SstInvalidFileNumber
      else bindR (normalizeOptions options) (\<lambda>(blockSize, restartInterval).
        case finalPath of
          PathPresent \<Rightarrow> Inl SstFileExists
        | PathError \<Rightarrow> Inl (SstIO ''inspect'')
        | PathAbsent \<Rightarrow>
            (case tempPath of
               PathPresent \<Rightarrow> Inl SstFileExists
             | PathError \<Rightarrow> Inl (SstIO ''create'')
             | PathAbsent \<Rightarrow>
                 Inr ((newSstWriter \<lparr>contents = [], fileSynced = 0, fileLinked = False, writePlan = writes, syncPlan = syncs\<rparr> ops fileNumber blockSize restartInterval)
                   \<lparr>swEnableBloom := \<not> soDisableBloom options\<rparr>))))"

section \<open>Writing blocks\<close>

definition stateError :: "SstWriter \<Rightarrow> SstError option" where
  "stateError w =
     (if swFinished w then Some SstFinished else if swAborted w then Some SstAborted else swFailed w)"

definition sstPoison :: "SstError \<Rightarrow> SstWriter \<Rightarrow> (SstWriter, SstError, 'a) outcome" where
  "sstPoison cause w =
     (case swFailed w of
        None \<Rightarrow> (w\<lparr>swFailed := Some (SstWriterFailed cause)\<rparr>, Inl (SstWriterFailed cause))
      | Some e \<Rightarrow> (w, Inl e))"

function sstWriteAll :: "SstWriter \<Rightarrow> bytes \<Rightarrow> (SstWriter, SstError, unit) outcome" where
  "sstWriteAll w data =
     (if data = [] then (w, Inr ())
      else let (f, n, err) = fileWrite (swFile w) data in
        if n < 0 \<or> n > int (length data) then sstPoison (SstIO ''impossible count'') (w\<lparr>swFile := f\<rparr>)
        else let w = w\<lparr>swFile := f, swOffset := swOffset w + word_of_nat (nat n)\<rparr> in
          if err then sstPoison (SstIO ''write'') w
          else if n = 0 then sstPoison (SstIO ''short write'') w
          else sstWriteAll w (drop (nat n) data))"
  by pat_completeness auto
termination
  by (relation "measure (\<lambda>(w, data). length data)") auto

declare sstWriteAll.simps [simp del]

definition writeBlock :: "bytes \<Rightarrow> BlockKind \<Rightarrow> SstWriter \<Rightarrow> (SstWriter, SstError, BlockHandle) outcome" where
  "writeBlock payload k w =
     (let encoded = appendBlockTrailer payload k; len = word_of_nat (length encoded) :: u64 in
      case checkedAdd (swOffset w) len of
        None \<Rightarrow> sstPoison SstTableTooLarge w
      | Some end' \<Rightarrow>
          if unat end' > MaxTableSize - FooterSize then sstPoison SstTableTooLarge w
          else andThen (sstWriteAll w encoded) (\<lambda>w' _. (w', Inr \<lparr>hOffset = swOffset w, hLength = len\<rparr>)))"

definition flushDataBlock :: "SstWriter \<Rightarrow> (SstWriter, SstError, unit) outcome" where
  "flushDataBlock w =
     (if bbEmpty (swBlock w) then (w, Inr ())
      else if length (swIndex w) \<ge> 4294967295 then sstPoison SstTooManyBlocks w
      else let payload = bbFinish (swBlock w) in
        if length payload > MaxDataBlockSize then sstPoison SstEntryTooLarge w
        else andThen (writeBlock payload BlockData w) (\<lambda>w handle.
          (w\<lparr>swIndex := swIndex w @ [\<lparr>ixLastKey = swLastEncoded w, ixHandle = handle\<rparr>],
             swBlock := bbReset (swBlock w)\<rparr>, Inr ())))"

section \<open>Adding entries\<close>

definition entryTooLarge :: "bytes \<Rightarrow> bytes \<Rightarrow> bool" where
  "entryTooLarge encoded v =
     (case checkedAdd (word_of_nat (length encoded)) (word_of_nat (length v)) of
        None \<Rightarrow> True
      | Some entrySize \<Rightarrow>
          unat entrySize > MaxEntrySize \<or>
          (case checkedAdd entrySize 30 of None \<Rightarrow> True | Some entrySize \<Rightarrow> unat entrySize > MaxEntrySize))"

text \<open>The part of \<open>Add\<close> after the entry is in the block.\<close>

definition recordEntry :: "InternalKey \<Rightarrow> bytes \<Rightarrow> bytes \<Rightarrow> SstWriter \<Rightarrow> (SstWriter, SstError, unit) outcome" where
  "recordEntry key encoded v w =
     (let w = w\<lparr>swEntryCount := swEntryCount w + 1,
               swDeletionCount := swDeletionCount w + (if kind key = KindDelete then 1 else 0)\<rparr> in
      case checkedAdd (swRawBytes w) (word_of_nat (length encoded)) of
        None \<Rightarrow> sstPoison SstTableTooLarge (w\<lparr>swRawBytes := 0\<rparr>)
      | Some raw \<Rightarrow>
          (case checkedAdd raw (word_of_nat (length v)) of
             None \<Rightarrow> sstPoison SstTableTooLarge (w\<lparr>swRawBytes := 0\<rparr>)
           | Some raw \<Rightarrow>
               (case cloneInternalKey key of
                  Inl e \<Rightarrow> (w\<lparr>swRawBytes := raw\<rparr>, Inl e)
                | Inr cloned \<Rightarrow>
                    let w = w\<lparr>swRawBytes := raw\<rparr>;
                        w = (if swHaveEntry w then w
                             else w\<lparr>swSmallestKey := cloned, swSmallestUser := userKey key, swHaveEntry := True\<rparr>);
                        w = w\<lparr>swLastKey := cloned, swLastEncoded := encoded, swLargestUser := userKey key\<rparr>
                    in (if \<not> swHaveBloomUser w \<or> swLastBloomUser w \<noteq> userKey key
                        then w\<lparr>swBloomHashes := swBloomHashes w @ [hashBloomKey (userKey key)],
                               swLastBloomUser := userKey key, swHaveBloomUser := True\<rparr>
                        else w, Inr ()))))"

definition sstAdd :: "InternalKey \<Rightarrow> bytes \<Rightarrow> SstWriter \<Rightarrow> (SstWriter, SstError, unit) outcome" where
  "sstAdd key v w =
     (let encoded = encodeInternalKey key in
      case stateError w of
        Some e \<Rightarrow> (w, Inl e)
      | None \<Rightarrow>
          if length (userKey key) > MaxUserKeySize \<or> length encoded > MaxInternalKeySize then (w, Inl SstKeyTooLarge)
          else if length v > MaxValueSize then (w, Inl SstValueTooLarge)
          else if \<not> carriesValue (kind key) \<and> v \<noteq> [] then (w, Inl SstDeleteHasValue)
          else if entryTooLarge encoded v then (w, Inl SstEntryTooLarge)
          else if swHaveEntry w \<and> compareInternal (swLastKey w) key = 0 then (w, Inl SstDuplicateKey)
          else if swHaveEntry w \<and> compareInternal (swLastKey w) key > 0 then (w, Inl SstOutOfOrder)
          else andThen
            (if \<not> bbEmpty (swBlock w) \<and> projectedSize (swBlock w) encoded v > swBlockSize w then flushDataBlock w
             else (w, Inr ())) (\<lambda>w _.
            if projectedSize (swBlock w) encoded v > MaxDataBlockSize then (w, Inl SstEntryTooLarge)
            else if swEntryCount w = -1 \<or> kind key = KindDelete \<and> swDeletionCount w = -1 then sstPoison SstTableTooLarge w
            else recordEntry key encoded v (w\<lparr>swBlock := bbAdd (swBlock w) encoded v\<rparr>)))"

section \<open>Finishing\<close>

definition encodeIndexEntry :: "IndexEntry \<Rightarrow> bytes" where
  "encodeIndexEntry e =
     putUvarint (word_of_nat (length (ixLastKey e))) @ ixLastKey e @ le_put 8 (hOffset (ixHandle e)) @ le_put 8 (hLength (ixHandle e))"

definition encodeIndex :: "SstWriter \<Rightarrow> bytes" where
  "encodeIndex w = le_put 4 (word_of_nat (length (swIndex w)) :: u32) @ concat (map encodeIndexEntry (swIndex w))"

definition appendLengthPrefixed32 :: "bytes \<Rightarrow> bytes" where
  "appendLengthPrefixed32 v = le_put 4 (word_of_nat (length v) :: u32) @ v"

definition encodeMetadata :: "SstWriter \<Rightarrow> bytes" where
  "encodeMetadata w =
     le_put 8 (swEntryCount w) @ le_put 8 (swDeletionCount w) @ le_put 4 (word_of_nat (length (swIndex w)) :: u32) @
     le_put 8 (swRawBytes w) @ appendLengthPrefixed32 (encodeInternalKey (swSmallestKey w)) @
     appendLengthPrefixed32 (encodeInternalKey (swLastKey w)) @ appendLengthPrefixed32 (swSmallestUser w) @
     appendLengthPrefixed32 (swLargestUser w)"

definition takeSstOp :: "SstWriter \<Rightarrow> SstWriter \<times> bool" where
  "takeSstOp w = (case swOps w of [] \<Rightarrow> (w, False) | failed # ops \<Rightarrow> (w\<lparr>swOps := ops\<rparr>, failed))"

definition fileOp :: "SstWriter \<Rightarrow> SstWriter \<times> bool" where
  "fileOp w = (let (f, failed) = fileCall (swFile w) in (w\<lparr>swFile := f\<rparr>, failed))"

definition writeFilter :: "SstWriter \<Rightarrow> (SstWriter, SstError, BlockHandle) outcome" where
  "writeFilter w =
     (if swEnableBloom w then
        (case encodeBloom (swBloomHashes w) of
           Inl e \<Rightarrow> sstPoison e w
         | Inr payload \<Rightarrow> writeBlock payload BlockFilter w)
      else (w, Inr noHandle))"

text \<open>From the sync of the complete file to the sync of its directory.\<close>

definition publishTable :: "SstWriter \<Rightarrow> (SstWriter, SstError, unit) outcome" where
  "publishTable w =
     (let (w, failed) = fileOp w in
      if failed then sstPoison (SstIO ''sync'') w
      else let (w, failed) = fileOp w; w = w\<lparr>swFileClosed := True\<rparr> in
        if failed then sstPoison (SstIO ''close'') w
        else let (w, failed) = takeSstOp w in
          if failed then sstPoison (SstIO ''rename'') w
          else let (w, failed) = takeSstOp (w\<lparr>swTemp := False, swFinal := Some (contents (swFile w))\<rparr>) in
            if failed then sstPoison (SstIO ''open directory'') w
            else let (w, failed) = takeSstOp w in
              if failed
              then (let (w, closed) = takeSstOp w in
                    sstPoison (if closed then SstJoin (SstIO ''sync directory'') (SstIO ''close directory'') else SstIO ''sync directory'') w)
              else let (w, failed) = takeSstOp w in
                if failed then sstPoison (SstIO ''close directory'') w else (w, Inr ()))"

definition tableMetadata :: "SstWriter \<Rightarrow> InternalKey \<Rightarrow> InternalKey \<Rightarrow> SstMetadata" where
  "tableMetadata w smallest largest =
     \<lparr>sstSmallestInternal = smallest, sstLargestInternal = largest, sstSmallestUser = swSmallestUser w,
      sstLargestUser = swLargestUser w, sstFileNumber = swFileNumber w, sstFileSize = swOffset w,
      sstEntryCount = swEntryCount w, sstDeletionCount = swDeletionCount w, sstRawKeyValueBytes = swRawBytes w,
      sstDataBlockCount = word_of_nat (length (swIndex w))\<rparr>"

text \<open>The blocks that follow the data, and the footer.\<close>

definition writeTail :: "SstWriter \<Rightarrow> (SstWriter, SstError, unit) outcome" where
  "writeTail w =
     andThen (writeBlock (encodeIndex w) BlockIndex w) (\<lambda>w1 indexHandle.
     andThen (writeBlock (encodeMetadata w1) BlockMetadata w1) (\<lambda>w2 metadataHandle.
     andThen (writeFilter w2) (\<lambda>w3 filterHandle.
       sstWriteAll w3 (encodeFooter indexHandle metadataHandle filterHandle (swOffset w)))))"

definition finishTable :: "SstWriter \<Rightarrow> (SstWriter, SstError, SstMetadata) outcome" where
  "finishTable w =
     andThen (flushDataBlock w) (\<lambda>w _.
     andThen (writeTail w) (\<lambda>w _.
     andThen (publishTable w) (\<lambda>w _.
       case cloneInternalKey (swSmallestKey w) of
         Inl e \<Rightarrow> (w, Inl e)
       | Inr smallest \<Rightarrow>
           (case cloneInternalKey (swLastKey w) of
              Inl e \<Rightarrow> (w, Inl e)
            | Inr largest \<Rightarrow>
                let meta = tableMetadata w smallest largest
                in (w\<lparr>swMetadata := Some meta, swFinished := True\<rparr>, Inr meta)))))"

definition Finish :: "SstWriter \<Rightarrow> (SstWriter, SstError, SstMetadata) outcome" where
  "Finish w =
     (case (swFinished w, swMetadata w) of
        (True, Some meta) \<Rightarrow> (w, Inr meta)
      | _ \<Rightarrow>
          (case stateError w of
             Some e \<Rightarrow> (w, Inl e)
           | None \<Rightarrow> if \<not> swHaveEntry w then (w, Inl SstEmptyTable) else finishTable w))"

definition joinErrors :: "SstError option \<Rightarrow> SstError option \<Rightarrow> SstError option" where
  "joinErrors a b = (case (a, b) of (Some x, Some y) \<Rightarrow> Some (SstJoin x y) | (None, e) \<Rightarrow> e | (e, None) \<Rightarrow> e)"

definition Abort :: "SstWriter \<Rightarrow> (SstWriter, SstError, unit) outcome" where
  "Abort w =
     (if swFinished w then (w, Inl SstFinished)
      else if swAborted w then (w, case swAbortErr w of None \<Rightarrow> Inr () | Some e \<Rightarrow> Inl e)
      else
        let (w, closeErr) = (if swFileClosed w then (w, None)
              else let (w, failed) = fileOp w in (w\<lparr>swFileClosed := True\<rparr>, if failed then Some (SstIO ''close'') else None));
            (w, removeErr) = (if \<not> swTemp w then (w, None)
              else let (w, failed) = takeSstOp w in
                (if failed then w else w\<lparr>swTemp := False\<rparr>, if failed then Some (SstIO ''remove'') else None));
            e = joinErrors closeErr removeErr
        in (w\<lparr>swAborted := True, swAbortErr := e\<rparr>, case e of None \<Rightarrow> Inr () | Some e \<Rightarrow> Inl e))"

end
