(* ===== verification/Sst_Encode.thy ===== *)
theory Sst_Encode
  imports Sst_Table Sst_Writer
begin

text \<open>
  The encoders of the writer against the decoders of the reader: a block that the builder
  finished decodes to the entries added to it, and the index, the metadata, the filter, the
  footer and the trailer of each block are read back as they were written.
\<close>

section \<open>Data blocks\<close>

lemma slice_from: "slice (pos + c) E p = drop c (slice pos E p)"
  by (simp add: slice_def drop_take add.commute)

lemma decodeDataEntry_built:
  fixes suf v prev :: bytes
  assumes p: "slice pos E p = putUvarint (word_of_nat s) @ putUvarint (word_of_nat (length suf)) @
      putUvarint (word_of_nat (length v)) @ suf @ v @ rest"
    and s: "s \<le> length prev" and key: "decodeInternalKey (take s prev @ suf) = Inr k"
    and sizes: "s + length suf \<le> MaxInternalKeySize" "length v \<le> MaxValueSize" "carriesValue (kind k) \<or> v = []"
    and E: "E \<le> length p" "pos \<le> E"
  shows "decodeDataEntry p pos E prev = Inr (\<lparr>deKey = k, deEncoded = take s prev @ suf, deValue = v\<rparr>, E - length rest, s)"
proof -
  let ?s = "word_of_nat s :: u64" and ?u = "word_of_nat (length suf) :: u64" and ?l = "word_of_nat (length v) :: u64"
  let ?c1 = "length (putUvarint ?s)" and ?c2 = "length (putUvarint ?u)" and ?c3 = "length (putUvarint ?l)"
  have w: "unat ?s = s" "unat ?u = length suf" "unat ?l = length v" using sizes by (simp_all add: size_defs)
  have rd: "readCanonicalUvarint (slice pos E p) = Inr (?s, ?c1)"
    "readCanonicalUvarint (slice (pos + ?c1) E p) = Inr (?u, ?c2)"
    "readCanonicalUvarint (slice (pos + ?c1 + ?c2) E p) = Inr (?l, ?c3)"
    unfolding slice_from p by (auto simp: readCanonicalUvarint_iff)
  have len: "E - pos = ?c1 + ?c2 + ?c3 + length suf + length v + length rest"
    using arg_cong [OF p, of length] E by simp
  have add: "checkedAdd ?u ?l = Some (?u + ?l)" "unat (?u + ?l) = length suf + length v"
    "checkedAdd ?s ?u = Some (?s + ?u)" "unat (?s + ?u) = s + length suf"
    using sizes w by (auto simp: checkedAdd_iff size_defs intro!: trans [OF unat_add_exact])
  have kl: "9 \<le> s + length suf" using key s by (auto simp: decodeInternalKey_def internalKeyTrailerLen_def split: if_splits)
  let ?q = "pos + ?c1 + ?c2 + ?c3"
  have at: "slice ?q E p = suf @ v @ rest" unfolding slice_from p by simp
  have sub: "slice (?q + a) (?q + a + n) p = take n (drop a (suf @ v @ rest))" if "?q + a + n \<le> E" for a n
    using that unfolding at [symmetric] by (simp add: slice_def drop_take add_ac min_def)
  have "slice ?q (?q + length suf) p = suf" using sub [of 0 "length suf"] len E by simp
  moreover have "slice (?q + length suf) (?q + length suf + length v) p = v"
    using sub [of "length suf" "length v"] len E by simp
  moreover have "?q + length suf + length v = E - length rest" using len E by simp
  ultimately show ?thesis
    unfolding decodeDataEntry_def rd bindR_simps prod.case Let_def add(1) option.case add(3)
    using w add sizes kl s len E key by simp
qed

lemma commonPrefix_take: "take (commonPrefix a b) a = take (commonPrefix a b) b"
  by (induction a b rule: commonPrefix.induct) auto

lemma commonPrefix_le: "commonPrefix a b \<le> length a" "commonPrefix a b \<le> length b"
  by (induction a b rule: commonPrefix.induct) auto

text \<open>Entries within the limits of the format, and what the reader makes of them.\<close>

definition entrySized :: "KeyedEntry \<Rightarrow> bool" where
  "entrySized e \<longleftrightarrow> kindValid (kind (entryKey e)) \<and> length (userKey (entryKey e)) \<le> MaxUserKeySize \<and>
     length (entryValue e) \<le> MaxValueSize \<and> (carriesValue (kind (entryKey e)) \<or> entryValue e = [])"

definition decodedOf :: "KeyedEntry \<Rightarrow> DecodedEntry" where
  "decodedOf e = \<lparr>deKey = entryKey e, deEncoded = encodeInternalKey (entryKey e), deValue = entryValue e\<rparr>"

lemma decodedOf_sel [simp]:
  "deKey (decodedOf e) = entryKey e" "deEncoded (decodedOf e) = encodeInternalKey (entryKey e)" "deValue (decodedOf e) = entryValue e"
  "keyed (decodedOf e) = e"
  by (simp_all add: decodedOf_def keyed_def)

definition addEntry :: "BlockBuilder \<Rightarrow> KeyedEntry \<Rightarrow> BlockBuilder" where
  "addEntry b e = bbAdd b (encodeInternalKey (entryKey e)) (entryValue e)"

definition builderOk :: "BlockBuilder \<Rightarrow> KeyedEntry list \<Rightarrow> link list \<Rightarrow> nat set \<Rightarrow> bool" where
  "builderOk b es ls Q \<longleftrightarrow>
     bbEntries b = length es \<and> bbPreviousKey b = (if es = [] then [] else encodeInternalKey (entryKey (last es))) \<and>
     map linkEntry ls = map decodedOf es \<and>
     (\<forall>p E. take (length (bbBuffer b)) p = bbBuffer b \<longrightarrow> length (bbBuffer b) \<le> E \<longrightarrow> E \<le> length p \<longrightarrow>
        chain p E 0 [] ls (length (bbBuffer b)) (bbPreviousKey b)) \<and>
     bbRestarts b = map (\<lambda>l. word_of_nat (fst l)) (filter (\<lambda>l. fst l \<in> Q) ls) \<and> Q \<subseteq> {..<length (bbBuffer b)} \<and>
     list_all (\<lambda>l. fst l \<in> Q \<longrightarrow> fst (snd l) = 0) ls \<and> (ls \<noteq> [] \<longrightarrow> fst (hd ls) = 0 \<and> 0 \<in> Q)"

text \<open>The size that the builder projects is the size of the finished block.\<close>

lemma projectedSize_exact: "projectedSize b key v = length (bbFinish (bbAdd b key v))"
proof -
  have "commonPrefix (bbPreviousKey b) key \<le> length key" by (rule commonPrefix_le)
  moreover have "length (concat (map (le_put 4) rs)) = length rs * 4" for rs :: "u32 list" by (induction rs) auto
  ultimately show ?thesis
    by (auto simp: projectedSize_def bbFinish_def bbAdd_def Let_def uvarintLen_def)
qed

lemma builderOk_new: "builderOk (newDataBlockBuilder ri) [] [] {}"
  by (simp add: builderOk_def newDataBlockBuilder_def)

lemma builderOk_chain:
  "builderOk b es ls Q \<Longrightarrow> take (length (bbBuffer b)) p = bbBuffer b \<Longrightarrow> length (bbBuffer b) \<le> E \<Longrightarrow> E \<le> length p \<Longrightarrow>
   chain p E 0 [] ls (length (bbBuffer b)) (bbPreviousKey b)"
  unfolding builderOk_def by blast

lemma builderOk_offsets:
  assumes "builderOk b es ls Q" "l \<in> set ls"
  shows "fst l < length (bbBuffer b)"
  using builderOk_chain [OF assms(1), of "bbBuffer b" "length (bbBuffer b)"] chain_offset_le assms(2) by fastforce

lemma addEntry_fields:
  fixes b :: BlockBuilder and e :: KeyedEntry
  defines "s \<equiv> (if isRestart b then 0 else commonPrefix (bbPreviousKey b) (encodeInternalKey (entryKey e)))"
  shows "bbEntries (addEntry b e) = bbEntries b + 1" "bbPreviousKey (addEntry b e) = encodeInternalKey (entryKey e)"
    and "bbRestarts (addEntry b e) = bbRestarts b @ (if isRestart b then [word_of_nat (length (bbBuffer b))] else [])"
    and "bbBuffer (addEntry b e) = bbBuffer b @ putUvarint (word_of_nat s) @
      putUvarint (word_of_nat (length (drop s (encodeInternalKey (entryKey e))))) @
      putUvarint (word_of_nat (length (entryValue e))) @ drop s (encodeInternalKey (entryKey e)) @ entryValue e"
    and "s \<le> length (bbPreviousKey b)" "take s (bbPreviousKey b) @ drop s (encodeInternalKey (entryKey e)) = encodeInternalKey (entryKey e)"
    and "isRestart b \<Longrightarrow> s = 0" "s \<le> length (encodeInternalKey (entryKey e))"
  using commonPrefix_take [of "bbPreviousKey b" "encodeInternalKey (entryKey e)"]
    commonPrefix_le [of "bbPreviousKey b" "encodeInternalKey (entryKey e)"]
  by (simp_all add: addEntry_def bbAdd_def s_def Let_def)

lemma take_prefix_append: "take (length xs + length ys) p = xs @ ys \<Longrightarrow> take (length xs) p = xs"
  by (metis append_eq_conv_conj min.absorb1 le_add1 take_take)

lemma builderOk_add:
  assumes ok: "builderOk b es ls Q" and e: "entrySized e" and first: "es = [] \<Longrightarrow> isRestart b"
  shows "\<exists>l Q'. builderOk (addEntry b e) (es @ [e]) (ls @ [l]) Q'"
proof -
  let ?key = "encodeInternalKey (entryKey e)" and ?q = "length (bbBuffer b)" and ?b = "addEntry b e"
  define s where "s = (if isRestart b then 0 else commonPrefix (bbPreviousKey b) ?key)"
  note fields = addEntry_fields [of b e, folded s_def]
  define entry where "entry = putUvarint (word_of_nat s) @ putUvarint (word_of_nat (length (drop s ?key))) @
      putUvarint (word_of_nat (length (entryValue e))) @ drop s ?key @ entryValue e"
  have buf: "bbBuffer ?b = bbBuffer b @ entry" using fields(4) by (simp add: entry_def)
  have ne: "entry \<noteq> []" by (simp add: entry_def)
  define l where "l = (?q, s, decodedOf e)"
  define Q' where "Q' = (if isRestart b then insert ?q Q else Q)"
  have old: "fst m \<in> Q' \<longleftrightarrow> fst m \<in> Q" if "m \<in> set ls" for m
    using builderOk_offsets [OF ok that] by (auto simp: Q'_def)
  have Q: "Q \<subseteq> {..<?q}" using ok by (simp add: builderOk_def)
  have lq: "?q \<in> Q' \<longleftrightarrow> isRestart b" using Q by (auto simp: Q'_def)
  have "chain p E 0 [] (ls @ [l]) (length (bbBuffer ?b)) (bbPreviousKey ?b)"
    if p: "take (length (bbBuffer ?b)) p = bbBuffer ?b" and E: "length (bbBuffer ?b) \<le> E" "E \<le> length p" for p E
  proof -
    have "take ?q p = bbBuffer b" using p unfolding buf length_append by (rule take_prefix_append)
    then have ch: "chain p E 0 [] ls ?q (bbPreviousKey b)" using builderOk_chain [OF ok] E unfolding buf by auto
    obtain rest where rest: "p = bbBuffer b @ entry @ rest" using p unfolding buf by (metis append_assoc append_take_drop_id)
    have sl: "slice ?q E p = entry @ take (E - length (bbBuffer ?b)) rest"
      using E unfolding rest buf by (simp add: slice_def)
    have "length (take (E - length (bbBuffer ?b)) rest) = E - length (bbBuffer ?b)" using E unfolding rest buf by simp
    moreover have "decodeInternalKey ?key = Inr (entryKey e)" using e by (simp add: entrySized_def decode_encode_internal_key)
    ultimately have "decodeDataEntry p ?q E (bbPreviousKey b) = Inr (decodedOf e, length (bbBuffer ?b), s)"
      using decodeDataEntry_built [OF sl [unfolded entry_def append_assoc], of "bbPreviousKey b" "entryKey e"] fields(5,6,8) e E
      unfolding buf by (simp add: decodedOf_def entrySized_def length_encodeInternalKey MaxInternalKeySize_def)
    moreover have "?q < E" using E(1) ne unfolding buf by (cases entry) auto
    ultimately show ?thesis using ch unfolding l_def chain_snoc fields(2) by auto
  qed
  moreover have "filter (\<lambda>l. fst l \<in> Q') ls = filter (\<lambda>l. fst l \<in> Q) ls" using old by (intro filter_cong) auto
  moreover have "Q' \<subseteq> {..<length (bbBuffer ?b)}" using Q ne unfolding buf by (auto simp: Q'_def)
  moreover have "list_all (\<lambda>l. fst l \<in> Q' \<longrightarrow> fst (snd l) = 0) ls"
    using ok old by (auto simp: builderOk_def list_all_iff)
  moreover have "fst (hd (ls @ [l])) = 0 \<and> 0 \<in> Q'"
  proof (cases "ls = []")
    case True
    then have "es = []" using ok by (simp add: builderOk_def)
    moreover have "chain (bbBuffer b) ?q 0 [] ls ?q (bbPreviousKey b)" using builderOk_chain [OF ok] by simp
    ultimately show ?thesis using True first by (auto simp: l_def Q'_def)
  next
    case False
    then show ?thesis using ok by (auto simp: builderOk_def Q'_def)
  qed
  ultimately have "builderOk ?b (es @ [e]) (ls @ [l]) Q'"
    using ok lq fields(1,2,3,7) unfolding builderOk_def by (auto simp: l_def)
  then show ?thesis by blast
qed

lemma restart_here:
  assumes sorted: "sorted_wrt (<) (map fst (l # ls))" and bound: "list_all (\<lambda>l. fst l < 2 ^ 32) (l # ls)"
    and rs: "drop n rs = map (\<lambda>l. word_of_nat (fst l)) (filter (\<lambda>l. fst l \<in> Q) (l # ls))"
  shows "n < length rs \<and> rs ! n = (word_of_nat (fst l) :: u32) \<longleftrightarrow> fst l \<in> Q"
proof
  assume "fst l \<in> Q"
  then obtain tail where "drop n rs = word_of_nat (fst l) # tail" using rs by simp
  then show "n < length rs \<and> rs ! n = word_of_nat (fst l)"
    by (metis drop_all hd_drop_conv_nth list.discI list.sel(1) not_le)
next
  assume n: "n < length rs \<and> rs ! n = word_of_nat (fst l)"
  show "fst l \<in> Q"
  proof (rule ccontr)
    assume no: "fst l \<notin> Q"
    have "rs ! n \<in> set (drop n rs)" using n by (metis Cons_nth_drop_Suc list.set_intros(1))
    then obtain m where m: "m \<in> set ls" "rs ! n = word_of_nat (fst m)" using rs no by auto
    then have "fst l < fst m" "fst m < 2 ^ 32" "fst l < 2 ^ 32" using sorted bound by (auto simp: list_all_iff)
    moreover have "unat (word_of_nat (fst m) :: u32) = unat (word_of_nat (fst l) :: u32)" using n m(2) by simp
    ultimately show False by simp
  qed
qed

lemma decodeEntriesLoop_links:
  assumes "chain p E (bsPosition s) prev ls E prev'" "E < 2 ^ 32" "sorted_wrt (<) (map deKey (bsEntries s @ map linkEntry ls))"
    and "bsNextRestart s \<le> length rs"
    and "drop (bsNextRestart s) rs = map (\<lambda>l. word_of_nat (fst l)) (filter (\<lambda>l. fst l \<in> Q) ls)"
    and "list_all (\<lambda>l. fst l \<in> Q \<longrightarrow> fst (snd l) = 0) ls"
  shows "\<exists>s'. decodeEntriesLoop p E rs prev s = Inr s' \<and> bsPosition s' = E \<and>
    bsEntries s' = bsEntries s @ map linkEntry ls \<and> bsNextRestart s' = length rs"
  using assms
proof (induction ls arbitrary: s prev)
  case Nil
  then show ?case by (subst decodeEntriesLoop.simps) auto
next
  case (Cons m ls)
  obtain q shared e where m: "m = (q, shared, e)" by (cases m)
  obtain n where d: "decodeDataEntry p (bsPosition s) E prev = Inr (e, n, shared)" and q: "q = bsPosition s" "bsPosition s < E"
    and rest: "chain p E n (deEncoded e) ls E prev'" using Cons.prems(1) by (auto simp: m)
  have bound: "list_all (\<lambda>l. fst l < 2 ^ 32) (m # ls)"
    unfolding list_all_iff using chain_offset_le [OF Cons.prems(1)] Cons.prems(2) less_trans by blast
  define restart where "restart = (bsNextRestart s < length rs \<and> rs ! bsNextRestart s = word_of_nat (bsPosition s))"
  have restart: "restart \<longleftrightarrow> fst m \<in> Q"
    unfolding restart_def using restart_here [OF chain_offsets_sorted [OF Cons.prems(1)] bound Cons.prems(5)] by (simp add: m q)
  define s1 where "s1 = \<lparr>bsEntries = bsEntries s @ [e],
      bsRestartEntries = bsRestartEntries s @
        (if restart then [\<lparr>drOffset = word_of_nat (bsPosition s), drEntryIndex = length (bsEntries s), drKey = deKey e\<rparr>] else []),
      bsNextRestart = bsNextRestart s + (if restart then 1 else 0), bsPosition = n\<rparr>"
  have sh: "restart \<Longrightarrow> shared = 0" using restart Cons.prems(6) by (simp add: m)
  have "bsEntries s = [] \<or> deKey (last (bsEntries s)) < deKey e"
    using Cons.prems(3) by (cases "bsEntries s" rule: rev_cases) (auto simp: m sorted_wrt_append)
  then have step: "decodeEntriesLoop p E rs prev s = decodeEntriesLoop p E rs (deEncoded e) s1"
    using d q(2) sh by (auto simp: decodeEntriesLoop.simps [of p E rs prev s] Let_def s1_def simp flip: restart_def)
  have nx: "bsNextRestart s1 \<le> length rs" using Cons.prems(4) by (auto simp: s1_def restart_def)
  have "drop (bsNextRestart s1) rs = map (\<lambda>l. word_of_nat (fst l)) (filter (\<lambda>l. fst l \<in> Q) ls)"
    using Cons.prems(5) restart by (auto simp: s1_def drop_Suc m simp flip: tl_drop)
  then have "\<exists>s'. decodeEntriesLoop p E rs (deEncoded e) s1 = Inr s' \<and> bsPosition s' = E \<and>
      bsEntries s' = bsEntries s1 @ map linkEntry ls \<and> bsNextRestart s' = length rs"
    using Cons.IH [of s1 "deEncoded e"] rest Cons.prems(2,3,6) nx by (simp add: s1_def m)
  then show ?case unfolding step by (auto simp: s1_def m)
qed

lemma le_get_words:
  "i < length rs \<Longrightarrow> (le_get (slice (length a + i * 4) (length a + i * 4 + 4) (a @ concat (map (le_put 4) rs) @ c)) :: u32) = rs ! i"
proof (induction rs arbitrary: a i)
  case (Cons r rs)
  show ?case
  proof (cases i)
    case (Suc j)
    then show ?thesis using Cons.IH [of j "a @ le_put 4 r"] Cons.prems by (simp add: algebra_simps)
  qed simp
qed simp

lemma length_words: "length (concat (map (le_put n) rs)) = length rs * n"
  by (induction rs) auto

lemma bbFinish_layout:
  assumes ok: "builderOk b es ls Q" and ne: "es \<noteq> []" and len: "length (bbFinish b) \<le> MaxDataBlockSize"
  shows "decodeRestartLayout (bbFinish b) = Inr (length (bbBuffer b), bbRestarts b)"
proof -
  let ?p = "bbFinish b" and ?rs = "bbRestarts b" and ?E = "length (bbBuffer b)"
  have p: "?p = bbBuffer b @ concat (map (le_put 4) ?rs) @ le_put 4 (word_of_nat (length ?rs) :: u32)" by (simp add: bbFinish_def)
  have cl: "length (concat (map (le_put 4) ?rs)) = length ?rs * 4" by (rule length_words)
  have lp: "length ?p = ?E + length ?rs * 4 + 4" unfolding p by (simp add: cl)
  have small: "?E < 2 ^ 32" "length ?rs < 2 ^ 32" using len unfolding lp by (simp_all add: size_defs)
  have lsne: "ls \<noteq> []" and rs: "?rs = map (\<lambda>l. word_of_nat (fst l)) (filter (\<lambda>l. fst l \<in> Q) ls)"
    and hd0: "fst (hd ls) = 0" "0 \<in> Q"
    using ok ne by (auto simp: builderOk_def)
  have ch: "chain (bbBuffer b) ?E 0 [] ls ?E (bbPreviousKey b)" using builderOk_chain [OF ok] by simp
  have E0: "0 < ?E" using builderOk_offsets [OF ok, of "hd ls"] lsne by auto
  obtain l ls' where lc: "ls = l # ls'" using lsne by (cases ls) auto
  have r0: "?rs \<noteq> []" "?rs ! 0 = 0" using hd0 unfolding rs lc by auto
  define fs where "fs = map fst (filter (\<lambda>l. fst l \<in> Q) ls)"
  have rsf: "?rs = map word_of_nat fs" unfolding rs fs_def by simp
  have sfs: "sorted_wrt (<) fs" unfolding fs_def using chain_offsets_sorted [OF ch] by (simp add: sorted_wrt_map sorted_wrt_filter)
  have bfs: "fs ! i < ?E" if "i < length fs" for i
  proof -
    have "fs ! i \<in> set fs" using that by simp
    then show ?thesis using builderOk_offsets [OF ok] unfolding fs_def by auto
  qed
  have un: "unat (?rs ! i) = fs ! i" if "i < length ?rs" for i
    using that bfs [of i] small by (simp add: rsf)
  have ro: "restartsOf ?p ?E (length ?rs) = ?rs"
    unfolding restartsOf_def p using le_get_words [of _ ?rs "bbBuffer b"] by (intro nth_equalityI) auto
  have ok': "\<not> list_ex (\<lambda>i. unat (?rs ! i) \<ge> ?E \<or> i = 0 \<and> ?rs ! i \<noteq> 0 \<or> i > 0 \<and> ?rs ! i \<le> ?rs ! (i - 1)) [0..<length ?rs]"
  proof -
    have "unat (?rs ! i) < ?E" if "i < length ?rs" for i using un [OF that] bfs that by (simp add: rsf)
    moreover have "\<not> ?rs ! i \<le> ?rs ! (i - 1)" if "0 < i" "i < length ?rs" for i
      using sorted_wrt_nth_less [OF sfs, of "i - 1" i] un [of i] un [of "i - 1"] that
      by (simp add: word_le_nat_alt not_le) (simp add: rsf)
    ultimately show ?thesis using r0 unfolding list_ex_iff by (metis atLeastLessThan_iff gr_zeroI leD set_upt)
  qed
  have cnt: "unat (le_get (drop (length ?p - 4) ?p) :: u32) = length ?rs"
    unfolding lp unfolding p using small by (simp add: cl)
  have "length ?rs \<noteq> 0" using r0 by simp
  moreover from this have "\<not> ?E + length ?rs * 4 < 4" by linarith
  moreover have "length ?rs \<le> (length ?p - 4) div 4" "length ?p - 4 - length ?rs * 4 = ?E" unfolding lp by auto
  ultimately show ?thesis
    unfolding decodeRestartLayout_def Let_def cnt using len ro ok' small E0 lp by simp
qed

lemma bbFinish_decodes:
  assumes ok: "builderOk b es ls Q" and ne: "es \<noteq> []" and len: "length (bbFinish b) \<le> MaxDataBlockSize"
    and so: "sortedEntries es"
  shows "\<exists>blk. decodeDataBlock (bbFinish b) h = Inr blk \<and> dbEntries blk = map decodedOf es"
proof -
  let ?E = "length (bbBuffer b)" and ?s0 = "\<lparr>bsEntries = [], bsRestartEntries = [], bsNextRestart = 0, bsPosition = 0\<rparr>"
  note lay = bbFinish_layout [OF ok ne len]
  have "take ?E (bbFinish b) = bbBuffer b" by (simp add: bbFinish_def)
  then have ch: "chain (bbFinish b) ?E 0 [] ls ?E (bbPreviousKey b)" using builderOk_chain [OF ok] by (simp add: bbFinish_def)
  have ent: "map linkEntry ls = map decodedOf es" and rs: "bbRestarts b = map (\<lambda>l. word_of_nat (fst l)) (filter (\<lambda>l. fst l \<in> Q) ls)"
    and sh: "list_all (\<lambda>l. fst l \<in> Q \<longrightarrow> fst (snd l) = 0) ls" using ok by (auto simp: builderOk_def)
  have "sorted_wrt (<) (map deKey (map linkEntry ls))" using so unfolding ent by (simp add: sortedEntries_def sorted_wrt_map)
  then obtain s' where "decodeEntriesLoop (bbFinish b) ?E (bbRestarts b) [] ?s0 = Inr s'" "bsPosition s' = ?E"
    "bsEntries s' = map linkEntry ls" "bsNextRestart s' = length (bbRestarts b)"
    using decodeEntriesLoop_links [of "bbFinish b" ?E ?s0 "[]" ls "bbPreviousKey b" "bbRestarts b" Q] ch restartLayout_ok(1) [OF lay] rs sh
    by auto
  then show ?thesis using lay ent ne by (simp add: decodeDataBlock_def)
qed

section \<open>Blocks in a file\<close>

text \<open>\<open>os.File.ReadAt\<close> on a regular file with these bytes: what is there, and \<open>io.EOF\<close> when it is short.\<close>

definition readBytes :: "bytes \<Rightarrow> ReadAt" where
  "readBytes file offset len =
     (let n = min len (length file - unat offset) in
      (int n, slice (unat offset) (unat offset + len) file @ replicate (len - n) 0, if n < len then Some ReadEOF else None))"

lemma readAtExact_bytes:
  assumes "unat offset + len \<le> length file" "length file \<le> MaxTableSize"
  shows "readAtExact (readBytes file) offset len = Inr (slice (unat offset) (unat offset + len) file)"
  using assms by (simp add: readAtExact_def readBytes_def Let_def maxInt64_def size_defs min_def)

lemma length_appendBlockTrailer [simp]: "length (appendBlockTrailer p k) = length p + BlockTrailerSize"
  by (simp add: appendBlockTrailer_def Let_def BlockTrailerSize_def)

lemma validateHandle_ok:
  assumes "unat (hOffset h) + unat (hLength h) \<le> unat limit" "unat limit \<le> MaxTableSize" "minimum \<le> unat (hLength h)"
  shows "validateHandle h limit minimum = Inr ()"
proof -
  have "checkedAdd (hOffset h) (hLength h) = Some (hOffset h + hLength h)"
    "unat (hOffset h + hLength h) = unat (hOffset h) + unat (hLength h)"
    using assms by (auto simp: checkedAdd_iff size_defs intro!: unat_add_exact)
  then show ?thesis
    using assms by (simp add: validateHandle_def word_less_nat_alt maxInt64_def size_defs)
qed

lemma readBlock_written:
  assumes bytes: "file = pre @ appendBlockTrailer p k @ post" "length file \<le> MaxTableSize"
    and h: "unat (hOffset h) = length pre" "unat (hLength h) = length p + BlockTrailerSize"
    and limit: "length pre + length p + BlockTrailerSize \<le> unat regionEnd" "unat regionEnd \<le> MaxTableSize"
    and data: "k = BlockData \<Longrightarrow> length p \<le> MaxDataBlockSize"
  shows "readBlockUnlocked (readBytes file) h k regionEnd = Inr p"
proof -
  have "validateHandle h regionEnd BlockTrailerSize = Inr ()" using h limit by (intro validateHandle_ok) auto
  moreover have "readAtExact (readBytes file) (hOffset h) (unat (hLength h)) = Inr (appendBlockTrailer p k)"
    using h bytes readAtExact_bytes [of "hOffset h" "unat (hLength h)" "file"] by simp
  moreover define header where "header = [compressionNone, kindByte k, blockVersion]"
  have "appendBlockTrailer p k = p @ header @ le_put 4 (crcUpdate 0 (p @ header))"
    by (simp add: appendBlockTrailer_def Let_def header_def)
  moreover have "length header = 3" by (simp add: header_def)
  moreover have "(p @ header @ x) ! length p = compressionNone" "(p @ header @ x) ! (length p + 1) = kindByte k"
    "(p @ header @ x) ! (length p + 2) = blockVersion" for x
    by (simp_all add: header_def nth_append)
  ultimately show ?thesis
    using data h by (simp add: readBlockUnlocked_def BlockTrailerSize_def Let_def not_less)
qed

section \<open>The index\<close>

definition ixEntry :: "InternalKey \<times> BlockHandle \<Rightarrow> IndexEntry" where
  "ixEntry kh = \<lparr>ixLastKey = encodeInternalKey (fst kh), ixHandle = snd kh\<rparr>"

definition diEntry :: "InternalKey \<times> BlockHandle \<Rightarrow> DecodedIndexEntry" where
  "diEntry kh = \<lparr>diKey = fst kh, diEncoded = encodeInternalKey (fst kh), diHandle = snd kh\<rparr>"

definition keySized :: "InternalKey \<Rightarrow> bool" where
  "keySized k \<longleftrightarrow> kindValid (kind k) \<and> length (userKey k) \<le> MaxUserKeySize"

lemma keySized_encoded:
  assumes "keySized k"
  shows "decodeInternalKey (encodeInternalKey k) = Inr k" "9 \<le> length (encodeInternalKey k)"
    "length (encodeInternalKey k) \<le> MaxInternalKeySize" "length (encodeInternalKey k) < 2 ^ 32"
  using assms by (simp_all add: keySized_def decode_encode_internal_key length_encodeInternalKey size_defs)

lemma decodeIndexLoop_encoded:
  assumes "list_all (\<lambda>kh. keySized (fst kh)) khs" "sorted_wrt (<) (map diKey acc @ map fst khs)"
  shows "decodeIndexLoop (length khs) acc (concat (map (\<lambda>kh. encodeIndexEntry (ixEntry kh)) khs) @ rest) = Inr (acc @ map diEntry khs, rest)"
  using assms
proof (induction khs arbitrary: acc)
  case (Cons kh khs)
  let ?k = "encodeInternalKey (fst kh)" and ?h = "snd kh"
  let ?tail = "concat (map (\<lambda>kh. encodeIndexEntry (ixEntry kh)) khs) @ rest"
  have k: "decodeInternalKey ?k = Inr (fst kh)" "9 \<le> length ?k" "length ?k \<le> MaxInternalKeySize" "length ?k < 2 ^ 32"
    using keySized_encoded Cons.prems(1) by auto
  have w: "unat (word_of_nat (length ?k) :: u64) = length ?k" using k(4) by simp
  have bytes: "concat (map (\<lambda>kh. encodeIndexEntry (ixEntry kh)) (kh # khs)) @ rest =
      putUvarint (word_of_nat (length ?k)) @ ?k @ le_put 8 (hOffset ?h) @ le_put 8 (hLength ?h) @ ?tail"
    by (simp add: encodeIndexEntry_def ixEntry_def)
  have rd: "readCanonicalUvarint (putUvarint (word_of_nat (length ?k)) @ x) = Inr (word_of_nat (length ?k), length (putUvarint (word_of_nat (length ?k))))" for x
    by (auto simp: readCanonicalUvarint_iff)
  have order: "acc = [] \<or> diKey (last acc) < fst kh"
    using Cons.prems(2) by (cases acc rule: rev_cases) (auto simp: sorted_wrt_append)
  have entry: "\<lparr>diKey = fst kh, diEncoded = ?k, diHandle = \<lparr>hOffset = hOffset ?h, hLength = hLength ?h\<rparr>\<rparr> = diEntry kh"
    by (simp add: diEntry_def)
  have "decodeIndexLoop (length khs) (acc @ [diEntry kh]) ?tail = Inr ((acc @ [diEntry kh]) @ map diEntry khs, rest)"
    using Cons.prems by (intro Cons.IH) (auto simp: diEntry_def)
  then show ?case
    unfolding bytes list.size(4) add_Suc_right add_0_right decodeIndexLoop.simps rd sum.case prod.case Let_def w
    using k order entry by auto
qed simp

lemma decodeIndex_encoded:
  assumes "swIndex w = map ixEntry khs" "khs \<noteq> []" "length khs < 2 ^ 32"
    and "list_all (\<lambda>kh. keySized (fst kh)) khs" "sorted_wrt (<) (map fst khs)"
  shows "decodeIndex (encodeIndex w) = Inr (map diEntry khs)"
proof -
  let ?body = "concat (map (\<lambda>kh. encodeIndexEntry (ixEntry kh)) khs)"
  have p: "encodeIndex w = le_put 4 (word_of_nat (length khs) :: u32) @ ?body"
    using assms(1) by (simp add: encodeIndex_def comp_def)
  have "26 \<le> length (encodeIndexEntry (ixEntry kh))" for kh
  proof -
    have "1 \<le> length (putUvarint x)" for x using putUvarint_nonempty [of x] by (cases "putUvarint x") auto
    then show ?thesis by (simp add: encodeIndexEntry_def ixEntry_def length_encodeInternalKey add_increasing2)
  qed
  then have "length khs * 26 \<le> length ?body" by (induction khs) (auto simp: add_mono)
  then have "length khs \<le> length ?body div 26" by simp
  then show ?thesis
    using decodeIndexLoop_encoded [of khs "[]" "[]"] assms by (simp add: decodeIndex_def p)
qed

section \<open>Metadata\<close>

lemma metadataFields_encoded:
  assumes "list_all2 (\<lambda>m f. length f \<le> m \<and> length f < 2 ^ 32) ms fs"
  shows "metadataFields ms (concat (map appendLengthPrefixed32 fs) @ rest) = Inr (fs, rest)"
  using assms by (induction rule: list_all2_induct) (simp_all add: appendLengthPrefixed32_def)

definition diskMetadata :: "SstWriter \<Rightarrow> DecodedMetadata" where
  "diskMetadata w =
     \<lparr>dmEntryCount = swEntryCount w, dmDeletionCount = swDeletionCount w, dmDataBlockCount = word_of_nat (length (swIndex w)),
      dmRawKeyValueBytes = swRawBytes w, dmSmallestInternal = encodeInternalKey (swSmallestKey w),
      dmLargestInternal = encodeInternalKey (swLastKey w), dmSmallestUser = swSmallestUser w, dmLargestUser = swLargestUser w\<rparr>"

lemma userKey_mono: "a \<le> b \<Longrightarrow> userKey a \<le> userKey b"
  unfolding le_less InternalKey_less_iff by blast

lemma decodeMetadata_encoded:
  assumes keys: "keySized (swSmallestKey w)" "keySized (swLastKey w)" "swSmallestKey w \<le> swLastKey w"
    and users: "swSmallestUser w = userKey (swSmallestKey w)" "swLargestUser w = userKey (swLastKey w)"
    and counts: "swEntryCount w \<noteq> 0" "swDeletionCount w \<le> swEntryCount w" "swIndex w \<noteq> []" "length (swIndex w) < 2 ^ 32"
  shows "decodeMetadata (encodeMetadata w) = Inr (diskMetadata w)"
proof -
  let ?fs = "[encodeInternalKey (swSmallestKey w), encodeInternalKey (swLastKey w), swSmallestUser w, swLargestUser w]"
  define hd' where "hd' = le_put 8 (swEntryCount w) @ le_put 8 (swDeletionCount w) @ le_put 4 (word_of_nat (length (swIndex w)) :: u32) @ le_put 8 (swRawBytes w)"
  have p: "encodeMetadata w = hd' @ concat (map appendLengthPrefixed32 ?fs)" by (simp add: encodeMetadata_def hd'_def)
  have lh: "length hd' = 28" by (simp add: hd'_def)
  have fields: "metadataFields [MaxInternalKeySize, MaxInternalKeySize, MaxUserKeySize, MaxUserKeySize] (concat (map appendLengthPrefixed32 ?fs) @ []) = Inr (?fs, [])"
    using keys users by (intro metadataFields_encoded) (simp add: keySized_def length_encodeInternalKey size_defs)
  have get: "le_get (slice 0 8 (hd' @ x)) = swEntryCount w" "le_get (slice 8 16 (hd' @ x)) = swDeletionCount w"
    "le_get (slice 16 20 (hd' @ x)) = (word_of_nat (length (swIndex w)) :: u32)" "le_get (slice 20 28 (hd' @ x)) = swRawBytes w" for x
    by (simp_all add: hd'_def)
  have ku: "userKey (swSmallestKey w) \<le> userKey (swLastKey w)" using keys(3) by (rule userKey_mono)
  have bounds: "\<not> metadataBoundsBad (diskMetadata w)"
    unfolding metadataBoundsBad_def diskMetadata_def DecodedMetadata.select_convs users
      keySized_encoded(1) [OF keys(1)] keySized_encoded(1) [OF keys(2)] sum.case
    using keys(3) ku by (simp add: not_less)
  have "(word_of_nat (length (swIndex w)) :: u32) \<noteq> 0" 
  proof
    assume "(word_of_nat (length (swIndex w)) :: u32) = 0"
    then have "unat (word_of_nat (length (swIndex w)) :: u32) = 0" by (rule arg_cong [where f = unat, THEN trans]) simp
    then show False using counts(3,4) unat_of_nat_u32 [OF counts(4)] by simp
  qed
  moreover define body where "body = concat (map appendLengthPrefixed32 ?fs)"
  have "metadataFields [MaxInternalKeySize, MaxInternalKeySize, MaxUserKeySize, MaxUserKeySize] body = Inr (?fs, [])"
    using fields by (simp only: body_def append_Nil2)
  moreover have "drop 28 (hd' @ body) = body" "\<not> length (hd' @ body) < 28" using lh by simp_all
  ultimately show ?thesis
    unfolding decodeMetadata_def p body_def [symmetric] using get [of body] counts(1) leD [OF counts(2)] bounds
    by (simp add: diskMetadata_def Let_def del: drop_append)
qed

section \<open>The footer\<close>

lemma handleEndsAt_iff: "handleEndsAt h e \<longleftrightarrow> unat e = unat (hOffset h) + unat (hLength h)"
proof -
  have "unat (hOffset h) + unat (hLength h) < 2 ^ 64 \<Longrightarrow> unat (hOffset h + hLength h) = unat (hOffset h) + unat (hLength h)"
    by (rule unat_add_exact)
  moreover have "unat e < 2 ^ 64" using unsigned_less [of e] by simp
  ultimately show ?thesis by (auto simp: handleEndsAt_def checkedAdd_iff word_unat_eq_iff)
qed

lemma length_encodeFooter [simp]: "length (encodeFooter ih mh fh dataEnd) = FooterSize"
  by (simp add: encodeFooter_def Let_def FooterSize_def)

lemma encodeFooter_slices:
  fixes ih mh fh :: BlockHandle and dataEnd :: u64
  defines "p \<equiv> encodeFooter ih mh fh dataEnd"
  shows "le_get (slice 0 8 p) = hOffset ih" "le_get (slice 8 16 p) = hLength ih"
    "le_get (slice 16 24 p) = hOffset mh" "le_get (slice 24 32 p) = hLength mh"
    "le_get (slice 32 40 p) = hOffset fh" "le_get (slice 40 48 p) = hLength fh" "le_get (slice 48 56 p) = dataEnd"
    "le_get (slice 56 60 p) = FormatVersion"
    "le_get (slice 60 64 p) = (if hLength fh \<noteq> 0 then footerFilterPresentFlag else 0)" "le_get (slice 64 68 p) = (0 :: u32)"
    "crcUpdate (crcUpdate 0 (slice 0 68 p)) (slice 72 80 p) = le_get (slice 68 72 p)" "le_get (slice 72 80 p) = fileMagic"
proof -
  define front where "front = le_put 8 (hOffset ih) @ le_put 8 (hLength ih) @ le_put 8 (hOffset mh) @ le_put 8 (hLength mh) @
            le_put 8 (hOffset fh) @ le_put 8 (hLength fh) @ le_put 8 dataEnd @ le_put 4 FormatVersion @
            le_put 4 (if hLength fh \<noteq> 0 then footerFilterPresentFlag else 0) @ le_put 4 (0 :: u32)"
  have p: "p = front @ le_put 4 (crcUpdate (crcUpdate 0 front) (le_put 8 fileMagic)) @ le_put 8 fileMagic"
    by (simp add: p_def encodeFooter_def Let_def front_def)
  have len: "length front = 68" by (simp add: front_def)
  show "crcUpdate (crcUpdate 0 (slice 0 68 p)) (slice 72 80 p) = le_get (slice 68 72 p)" "le_get (slice 72 80 p) = fileMagic"
    unfolding p by (simp_all add: len)
  have sl: "slice i j p = slice i j front" if "j \<le> 68" for i j unfolding p using that len by simp
  show "le_get (slice 0 8 p) = hOffset ih" "le_get (slice 8 16 p) = hLength ih"
    "le_get (slice 16 24 p) = hOffset mh" "le_get (slice 24 32 p) = hLength mh"
    "le_get (slice 32 40 p) = hOffset fh" "le_get (slice 40 48 p) = hLength fh" "le_get (slice 48 56 p) = dataEnd"
    "le_get (slice 56 60 p) = FormatVersion"
    "le_get (slice 60 64 p) = (if hLength fh \<noteq> 0 then footerFilterPresentFlag else 0)" "le_get (slice 64 68 p) = (0 :: u32)"
    by (simp_all add: sl front_def)
qed

lemma decodeFooter_encoded:
  fixes ih mh fh :: BlockHandle and dataEnd footerOffset :: u64
  assumes ends: "dataEnd = hOffset ih" "unat (hOffset mh) = unat (hOffset ih) + unat (hLength ih)"
      "unat (if hLength fh \<noteq> 0 then hOffset fh else footerOffset) = unat (hOffset mh) + unat (hLength mh)"
      "hLength fh \<noteq> 0 \<Longrightarrow> unat footerOffset = unat (hOffset fh) + unat (hLength fh)" "hLength fh = 0 \<Longrightarrow> fh = noHandle"
    and sizes: "BlockTrailerSize \<le> unat (hLength ih)" "BlockTrailerSize \<le> unat (hLength mh)"
      "hLength fh \<noteq> 0 \<Longrightarrow> bloomHeaderSize + BlockTrailerSize \<le> unat (hLength fh) \<and>
         unat (hLength fh) \<le> unat maxBloomBytes + bloomHeaderSize + BlockTrailerSize"
      "unat footerOffset \<le> MaxTableSize"
  shows "decodeFooter (encodeFooter ih mh fh dataEnd) footerOffset =
    Inr \<lparr>fsIndex = ih, fsMetadata = mh, fsFilter = fh, fsDataEnd = dataEnd\<rparr>"
proof -
  define flags where "flags = (if hLength fh \<noteq> 0 then footerFilterPresentFlag else 0)"
  have fl: "flags AND NOT footerFilterPresentFlag = 0" "flags AND footerFilterPresentFlag \<noteq> 0 \<longleftrightarrow> hLength fh \<noteq> 0"
    by (simp_all add: flags_def footerFilterPresentFlag_def)
  have up: "unat (hOffset mh) + unat (hLength mh) \<le> unat footerOffset"
    "unat (hOffset ih) + unat (hLength ih) \<le> unat footerOffset"
    using ends by (auto split: if_splits)
  have v: "validateHandle ih footerOffset BlockTrailerSize = Inr ()" "validateHandle mh footerOffset BlockTrailerSize = Inr ()"
    "hLength fh \<noteq> 0 \<Longrightarrow> validateHandle fh footerOffset (bloomHeaderSize + BlockTrailerSize) = Inr ()"
    using up sizes ends by (auto intro!: validateHandle_ok)
  have big: "\<not> hLength fh > maxBloomBytes + word_of_nat bloomHeaderSize + word_of_nat BlockTrailerSize" if "hLength fh \<noteq> 0"
    using sizes(3) [OF that] by (simp add: word_less_nat_alt not_less maxBloomBytes_def bloomHeaderSize_def BlockTrailerSize_def)
  have nh: "fh = noHandle \<longleftrightarrow> hLength fh = 0" using ends(5) by (auto simp: noHandle_def)
  have eta: "\<lparr>hOffset = hOffset h, hLength = hLength h\<rparr> = h" for h :: BlockHandle by simp
  show ?thesis
    unfolding decodeFooter_def encodeFooter_slices Let_def flags_def [symmetric] eta
    using fl v big nh ends sizes by (cases "hLength fh = 0") (simp_all add: handleEndsAt_iff)
qed

section \<open>The Bloom filter\<close>

lemma length_setBloomBit [simp]: "length (setBloomBit bits position) = length bits"
  by (simp add: setBloomBit_def)

lemma bit_push_byte: "k < 8 \<Longrightarrow> bit (push_bit k (1 :: byte)) n \<longleftrightarrow> n = k"
  by (auto simp: bit_simps)

lemma setBloomBit_bit:
  fixes position :: u64
  assumes "unat position < length bits * 8"
  shows "bit (setBloomBit bits position ! i) n \<longleftrightarrow> bit (bits ! i) n \<or> i = unat position div 8 \<and> n = unat position mod 8"
proof -
  have d: "unat (position div 8) = unat position div 8" "unat (position mod 8) = unat position mod 8"
    by (simp_all add: unat_div unat_mod)
  have "unat position mod 8 < 8" by simp
  then have "bit (push_bit (unat position mod 8) (1 :: byte)) n \<longleftrightarrow> n = unat position mod 8" by (rule bit_push_byte)
  moreover have "unat position div 8 < length bits" using assms by simp
  ultimately show ?thesis
    by (simp add: setBloomBit_def d nth_list_update bit_or_iff del: push_bit_of_1)
qed

lemma bloomPosition_less:
  assumes "bits \<noteq> []" "length bits * 8 < 2 ^ 64"
  shows "unat (bloomPosition bits h probe) < length bits * 8"
proof -
  have "unat (word_of_nat (length bits * 8) :: u64) = length bits * 8" using assms(2) by (rule unat_of_nat_u64)
  then show ?thesis using assms(1) by (simp add: bloomPosition_def unat_mod)
qed

lemma mayContain_bits:
  assumes "bits \<noteq> []" "length bits * 8 < 2 ^ 64"
  shows "mayContain \<lparr>bfBits = bits, bfProbes = k\<rparr> key \<longleftrightarrow>
    (\<forall>probe < unat k. bit (bits ! (unat (bloomPosition bits (hashBloomKey key) probe) div 8)) (unat (bloomPosition bits (hashBloomKey key) probe) mod 8))"
proof -
  have "(b AND push_bit (unat (p mod 8)) 1 \<noteq> 0) \<longleftrightarrow> bit b (unat p mod 8)" for b :: byte and p :: u64
    unfolding bit_iff_and_push_bit_not_eq_0 by (simp add: unat_mod)
  then show ?thesis
    using assms(1) unfolding mayContain_def Let_def list_all_iff by (auto simp: unat_div)
qed

definition bitsBelow :: "bytes \<Rightarrow> bytes \<Rightarrow> bool" where
  "bitsBelow xs ys \<longleftrightarrow> length xs = length ys \<and> (\<forall>i n. bit (xs ! i) n \<longrightarrow> bit (ys ! i) n)"

lemma bitsBelow_trans: "bitsBelow xs ys \<Longrightarrow> bitsBelow ys zs \<Longrightarrow> bitsBelow xs zs"
  by (simp add: bitsBelow_def)

lemma mayContain_mono:
  assumes "bitsBelow xs ys" "xs \<noteq> []" "length xs * 8 < 2 ^ 64" "mayContain \<lparr>bfBits = xs, bfProbes = k\<rparr> key"
  shows "mayContain \<lparr>bfBits = ys, bfProbes = k\<rparr> key"
proof -
  have "length ys = length xs" "ys \<noteq> []" using assms by (auto simp: bitsBelow_def)
  then show ?thesis using assms by (simp add: mayContain_bits bitsBelow_def bloomPosition_def)
qed

lemma bloomAdd_probes:
  assumes "bits \<noteq> []" "length bits * 8 < 2 ^ 64"
  shows "let bits' = foldl (\<lambda>bits probe. setBloomBit bits (bloomPosition bits h probe)) bits ps in
    bitsBelow bits bits' \<and> (\<forall>p\<in>set ps. bit (bits' ! (unat (bloomPosition bits h p) div 8)) (unat (bloomPosition bits h p) mod 8))"
  using assms
proof (induction ps arbitrary: bits)
  case Nil
  then show ?case by (simp add: bitsBelow_def)
next
  case (Cons p ps)
  let ?b = "setBloomBit bits (bloomPosition bits h p)"
  note pos = bloomPosition_less [OF Cons.prems, of h p]
  note sb = setBloomBit_bit [OF pos]
  have "length ?b = length bits" by simp
  then have "?b \<noteq> []" "length ?b * 8 < 2 ^ 64" using Cons.prems by (auto simp del: length_setBloomBit)
  note IH = Cons.IH [OF this, unfolded Let_def]
  have bb: "bitsBelow bits ?b" by (simp add: bitsBelow_def sb)
  have eq: "bloomPosition ?b h q = bloomPosition bits h q" for q by (simp add: bloomPosition_def)
  define bits' where "bits' = foldl (\<lambda>bits probe. setBloomBit bits (bloomPosition bits h probe)) ?b ps"
  have below: "bitsBelow ?b bits'" using IH by (simp add: bits'_def)
  have "bit (?b ! (unat (bloomPosition bits h p) div 8)) (unat (bloomPosition bits h p) mod 8)" unfolding sb by simp
  then have here: "bit (bits' ! (unat (bloomPosition bits h p) div 8)) (unat (bloomPosition bits h p) mod 8)"
    using below unfolding bitsBelow_def by blast
  have "bit (bits' ! (unat (bloomPosition bits h q) div 8)) (unat (bloomPosition bits h q) mod 8)" if "q \<in> set ps" for q
    using IH that unfolding eq bits'_def by blast
  then show ?case
    unfolding Let_def foldl.simps bits'_def [symmetric] using here bitsBelow_trans [OF bb below] by auto
qed

lemma bloomAdd_ok:
  assumes "bfBits f \<noteq> []" "length (bfBits f) * 8 < 2 ^ 64"
  shows "bitsBelow (bfBits f) (bfBits (bloomAdd f h))" "bfProbes (bloomAdd f h) = bfProbes f"
    and "h = hashBloomKey key \<Longrightarrow> mayContain (bloomAdd f h) key"
proof -
  note add = bloomAdd_probes [OF assms, of h "[0..<unat (bfProbes f)]", unfolded Let_def]
  show below: "bitsBelow (bfBits f) (bfBits (bloomAdd f h))" and probes: "bfProbes (bloomAdd f h) = bfProbes f"
    using add by (simp_all add: bloomAdd_def)
  define bits where "bits = bfBits (bloomAdd f h)"
  have len: "length bits = length (bfBits f)" using below by (simp add: bitsBelow_def bits_def)
  have eta: "bloomAdd f h = \<lparr>bfBits = bits, bfProbes = bfProbes f\<rparr>" using probes by (simp add: bits_def)
  have "bloomPosition bits h p = bloomPosition (bfBits f) h p" for p by (simp add: bloomPosition_def len)
  then show "mayContain (bloomAdd f h) key" if "h = hashBloomKey key"
    unfolding eta using add that assms len
    by (subst mayContain_bits) (auto simp: bits_def bloomAdd_def)
qed

lemma bloomAdd_fold:
  assumes "bits \<noteq> []" "length bits * 8 < 2 ^ 64"
  shows "\<exists>bits'. foldl bloomAdd \<lparr>bfBits = bits, bfProbes = k\<rparr> hs = \<lparr>bfBits = bits', bfProbes = k\<rparr> \<and> bitsBelow bits bits' \<and>
    (\<forall>key. hashBloomKey key \<in> set hs \<longrightarrow> mayContain \<lparr>bfBits = bits', bfProbes = k\<rparr> key)"
  using assms
proof (induction hs arbitrary: bits)
  case Nil
  then show ?case by (auto simp: bitsBelow_def)
next
  case (Cons h hs)
  let ?f = "\<lparr>bfBits = bits, bfProbes = k\<rparr>"
  define bits1 where "bits1 = bfBits (bloomAdd ?f h)"
  have add: "bitsBelow bits bits1" "bfProbes (bloomAdd ?f h) = k" "h = hashBloomKey key \<Longrightarrow> mayContain (bloomAdd ?f h) key" for key
    using bloomAdd_ok [of ?f h] Cons.prems by (auto simp: bits1_def)
  have f1: "bloomAdd ?f h = \<lparr>bfBits = bits1, bfProbes = k\<rparr>" using add(2) by (simp add: bits1_def)
  have ne: "bits1 \<noteq> []" "length bits1 * 8 < 2 ^ 64" using add(1) Cons.prems by (auto simp: bitsBelow_def)
  then obtain bits' where b: "foldl bloomAdd \<lparr>bfBits = bits1, bfProbes = k\<rparr> hs = \<lparr>bfBits = bits', bfProbes = k\<rparr>" "bitsBelow bits1 bits'"
    "\<forall>key. hashBloomKey key \<in> set hs \<longrightarrow> mayContain \<lparr>bfBits = bits', bfProbes = k\<rparr> key"
    using Cons.IH by blast
  have "mayContain \<lparr>bfBits = bits', bfProbes = k\<rparr> key" if "h = hashBloomKey key" for key
    using mayContain_mono [OF b(2) ne] add(3) [OF that] f1 by simp
  then show ?case using b f1 bitsBelow_trans [OF add(1) b(2)] by auto
qed

lemma round8: "unat ((y :: u64) AND NOT 7) = 8 * (unat y div 8)"
proof -
  have "unat (drop_bit 3 y) = unat y div 8" using unat_drop_bit_eq [of 3 y] drop_bit_eq_div [of 3 "unat y"] by simp
  moreover have "y AND NOT 7 = drop_bit 3 y * 8"
  proof -
    have "y AND NOT (mask 3) = push_bit 3 (drop_bit 3 y)" by (rule bit_word_eqI) (auto simp: bit_simps)
    then show ?thesis by (simp add: mask_eq_exp_minus_1 push_bit_eq_mult)
  qed
  moreover have "unat y div 8 * 8 < 2 ^ 64" using unsigned_less [of y, where ?'a = nat] by simp
  ultimately show ?thesis using unat_mult_lem [of "drop_bit 3 y" 8] by simp
qed

text \<open>The size of the filter: a multiple of eight bits, at least 64, within 32 bits.\<close>

lemma encodeBloom_shape:
  assumes "encodeBloom hs = Inr payload"
  shows "\<exists>bitCount m. payload = [bloomAlgorithm, bloomProbes, 0, 0] @ le_put 4 (ucast bitCount :: u32) @ le_put 8 bloomSeed @
      bfBits (foldl bloomAdd \<lparr>bfBits = replicate m 0, bfProbes = bloomProbes\<rparr> hs) \<and>
    unat (bitCount :: u64) = 8 * m \<and> 8 \<le> m \<and> m \<le> unat maxBloomBytes \<and> 8 * m < 2 ^ 32"
proof -
  define c0 where "c0 = (word_of_nat (length hs) * bloomBitsPerKey :: u64)"
  define c1 where "c1 = (if c0 < 64 then 64 else c0)"
  define c where "c = (c1 + 7) AND NOT 7"
  have bounds: "length hs \<le> 4294967295 div unat bloomBitsPerKey" "c div 8 \<le> maxBloomBytes" "c \<le> 4294967295"
    and p: "payload = [bloomAlgorithm, bloomProbes, 0, 0] @ le_put 4 (ucast c :: u32) @ le_put 8 bloomSeed @
      bfBits (foldl bloomAdd \<lparr>bfBits = replicate (unat (c div 8)) 0, bfProbes = bloomProbes\<rparr> hs)"
    using assms unfolding encodeBloom_def Let_def c0_def [symmetric] c1_def [symmetric] c_def [symmetric]
    by (auto split: if_splits simp: not_less)
  have "length hs \<le> 429496729" using bounds(1) by (simp add: bloomBitsPerKey_def)
  then have "unat c0 \<le> 4294967290" using unat_mult_lem [of "word_of_nat (length hs) :: u64" 10] by (simp add: c0_def bloomBitsPerKey_def)
  then have c1: "64 \<le> unat c1" "unat c1 \<le> 4294967290" by (auto simp: c1_def word_less_nat_alt)
  have "unat (c1 + 7) = unat c1 + 7" using c1(2) by (subst unat_add_exact) auto
  then have c: "unat c = 8 * ((unat c1 + 7) div 8)" unfolding c_def round8 by simp
  moreover have "unat (c div 8) = (unat c1 + 7) div 8" by (simp add: unat_div c)
  moreover have "8 \<le> (unat c1 + 7) div 8" using c1(1) by linarith
  moreover have "unat c < 2 ^ 32" using bounds(3) by (simp add: word_le_nat_alt)
  moreover have "unat (c div 8) \<le> unat maxBloomBytes" using bounds(2) by (simp add: word_le_nat_alt)
  ultimately show ?thesis using p by (intro exI [of _ c] exI [of _ "(unat c1 + 7) div 8"]) simp
qed

lemma decodeBloom_encoded:
  assumes "encodeBloom hs = Inr payload"
  shows "\<exists>f. decodeBloom payload = Inr f \<and> (\<forall>key. hashBloomKey key \<in> set hs \<longrightarrow> mayContain f key)"
    and "bloomHeaderSize \<le> length payload" "length payload \<le> unat maxBloomBytes + bloomHeaderSize"
proof -
  obtain bitCount :: u64 and m where p: "payload = [bloomAlgorithm, bloomProbes, 0, 0] @ le_put 4 (ucast bitCount :: u32) @ le_put 8 bloomSeed @
      bfBits (foldl bloomAdd \<lparr>bfBits = replicate m 0, bfProbes = bloomProbes\<rparr> hs)"
    and c: "unat bitCount = 8 * m" "8 \<le> m" "m \<le> unat maxBloomBytes" "8 * m < 2 ^ 32"
    using encodeBloom_shape [OF assms] by blast
  have "replicate m 0 \<noteq> ([] :: bytes)" "length (replicate m 0 :: bytes) * 8 < 2 ^ 64" using c(2,4) by auto
  from bloomAdd_fold [OF this, of bloomProbes hs]
  obtain bits where bits: "foldl bloomAdd \<lparr>bfBits = replicate m 0, bfProbes = bloomProbes\<rparr> hs = \<lparr>bfBits = bits, bfProbes = bloomProbes\<rparr>"
    "bitsBelow (replicate m 0) bits" "\<forall>key. hashBloomKey key \<in> set hs \<longrightarrow> mayContain \<lparr>bfBits = bits, bfProbes = bloomProbes\<rparr> key" by blast
  have len: "length bits = m" using bits(2) by (simp add: bitsBelow_def)
  define front where "front = [bloomAlgorithm, bloomProbes, 0, 0] @ le_put 4 (ucast bitCount :: u32) @ le_put 8 bloomSeed"
  have p': "payload = front @ bits" using p bits(1) by (simp add: front_def)
  have lf: "length front = 16" by (simp add: front_def)
  define magic where "magic = [bloomAlgorithm, bloomProbes, 0, 0]"
  have fr: "(front @ x) ! 0 = bloomAlgorithm" "(front @ x) ! 1 = bloomProbes" "(front @ x) ! 2 = 0" "(front @ x) ! 3 = 0" for x
    by (simp_all add: front_def numeral_2_eq_2 numeral_3_eq_3)
  have "length magic = 4" by (simp add: magic_def)
  then have fr': "le_get (slice 4 8 (front @ x)) = (ucast bitCount :: u32)" "le_get (slice 8 16 (front @ x)) = bloomSeed" for x
    unfolding front_def magic_def [symmetric] by simp_all
  have bc: "ucast (ucast bitCount :: u32) = bitCount"
    using c(1,4) by (intro word_unat_eq_iff [THEN iffD2]) (simp add: unsigned_ucast_eq unsigned_take_bit_eq take_bit_nat_eq_self)
  have "\<not> bitCount < 64" "bitCount div 8 = word_of_nat m" "bitCount mod 8 = 0" "\<not> bitCount div 8 > maxBloomBytes"
    using c by (auto simp: word_less_nat_alt unat_div word_unat_eq_iff unat_mod maxBloomBytes_def)
  then have "decodeBloom payload = Inr \<lparr>bfBits = bits, bfProbes = bloomProbes\<rparr>"
    unfolding decodeBloom_def Let_def p' fr fr' bc using lf len by (simp add: bloomHeaderSize_def)
  then show "\<exists>f. decodeBloom payload = Inr f \<and> (\<forall>key. hashBloomKey key \<in> set hs \<longrightarrow> mayContain f key)"
    using bits(3) by auto
  show "bloomHeaderSize \<le> length payload" "length payload \<le> unat maxBloomBytes + bloomHeaderSize"
    using c(3) len lf by (simp_all add: p' bloomHeaderSize_def)
qed

end
