(* ===== verification/Sst_Roundtrip.thy ===== *)
theory Sst_Roundtrip
  imports Sst_Encode
begin

text \<open>
  The writer against the reader: the state of a writer that has accepted a list of entries, kept
  by every \<open>Add\<close> whatever the file under it does, and the table that a successful \<open>Finish\<close>
  publishes, which the reader accepts with the same entries and the same metadata.
\<close>

section \<open>What the file of a writer holds\<close>

type_synonym built = "bytes \<times> KeyedEntry list"

definition dataFile :: "built list \<Rightarrow> bytes" where
  "dataFile bts = concat (map (\<lambda>b. appendBlockTrailer (fst b) BlockData) bts)"

fun indexOf :: "nat \<Rightarrow> built list \<Rightarrow> (InternalKey \<times> BlockHandle) list" where
  "indexOf off [] = []"
| "indexOf off (b # bts) =
     (entryKey (last (snd b)), \<lparr>hOffset = word_of_nat off, hLength = word_of_nat (length (fst b) + BlockTrailerSize)\<rparr>)
     # indexOf (off + length (fst b) + BlockTrailerSize) bts"

definition blockBuilt :: "built \<Rightarrow> bool" where
  "blockBuilt b \<longleftrightarrow> snd b \<noteq> [] \<and> length (fst b) \<le> MaxDataBlockSize \<and>
     (\<exists>bb ls Q. builderOk bb (snd b) ls Q \<and> fst b = bbFinish bb)"

definition rawOf :: "KeyedEntry list \<Rightarrow> nat" where
  "rawOf es = sum_list (map (\<lambda>e. length (encodeInternalKey (entryKey e)) + length (entryValue e)) es)"

definition deletesOf :: "KeyedEntry list \<Rightarrow> nat" where
  "deletesOf es = length (filter (\<lambda>e. kind (entryKey e) = KindDelete) es)"

lemma dataFile_simps [simp]:
  "dataFile [] = []" "dataFile (b # bts) = appendBlockTrailer (fst b) BlockData @ dataFile bts"
  "dataFile (bts @ cts) = dataFile bts @ dataFile cts"
  by (simp_all add: dataFile_def)

lemma indexOf_append: "indexOf off (bts @ cts) = indexOf off bts @ indexOf (off + length (dataFile bts)) cts"
  by (induction bts arbitrary: off) (simp_all add: add.assoc)

lemma length_indexOf [simp]: "length (indexOf off bts) = length bts"
  by (induction bts arbitrary: off) simp_all

text \<open>The blocks written, the entries of the open block, and the fields that count and bound them.\<close>

definition countersOk :: "SstWriter \<Rightarrow> KeyedEntry list \<Rightarrow> bool" where
  "countersOk w es \<longleftrightarrow>
     unat (swEntryCount w) = length es \<and> unat (swDeletionCount w) = deletesOf es \<and> unat (swRawBytes w) = rawOf es \<and>
     swHaveEntry w = (es \<noteq> []) \<and>
     (es \<noteq> [] \<longrightarrow> swLastKey w = entryKey (last es) \<and> swLastEncoded w = encodeInternalKey (entryKey (last es)) \<and>
        swSmallestKey w = entryKey (hd es) \<and> swSmallestUser w = userKey (entryKey (hd es)) \<and> swLargestUser w = userKey (entryKey (last es))) \<and>
     (\<forall>e\<in>set es. hashBloomKey (userKey (entryKey e)) \<in> set (swBloomHashes w)) \<and>
     (swHaveBloomUser w \<longrightarrow> hashBloomKey (swLastBloomUser w) \<in> set (swBloomHashes w))"

definition blocksOk :: "SstWriter \<Rightarrow> built list \<Rightarrow> KeyedEntry list \<Rightarrow> bool" where
  "blocksOk w bts cur \<longleftrightarrow>
     contents (swFile w) = dataFile bts \<and> swOffset w = word_of_nat (length (dataFile bts)) \<and>
     length (dataFile bts) \<le> MaxTableSize - FooterSize \<and> swIndex w = map ixEntry (indexOf 0 bts) \<and> length bts < 2 ^ 32 \<and>
     list_all blockBuilt bts \<and> (\<exists>ls Q. builderOk (swBlock w) cur ls Q) \<and> length (bbFinish (swBlock w)) \<le> MaxDataBlockSize"

definition writerOk :: "SstWriter \<Rightarrow> built list \<Rightarrow> KeyedEntry list \<Rightarrow> bool" where
  "writerOk w bts cur \<longleftrightarrow> stateError w = None \<and> blocksOk w bts cur \<and> countersOk w (concat (map snd bts) @ cur) \<and>
     sortedEntries (concat (map snd bts) @ cur) \<and> list_all entrySized (concat (map snd bts) @ cur)"

section \<open>Writing\<close>

lemma sstPoison_fails: "sstPoison e w = (w', r) \<Longrightarrow> stateError w' \<noteq> None \<and> isl r"
  by (auto simp: sstPoison_def stateError_def split: option.splits)

lemma sstWriteAll_ok:
  "sstWriteAll w data = (w', Inr ()) \<Longrightarrow>
   \<exists>f. w' = w\<lparr>swFile := f, swOffset := swOffset w + word_of_nat (length data)\<rparr> \<and> contents f = contents (swFile w) @ data"
proof (induction w data rule: sstWriteAll.induct)
  case (1 w data)
  show ?case
  proof (cases "data = []")
    case True
    then show ?thesis using "1.prems" by (auto simp: sstWriteAll.simps [of w] intro!: exI [of _ "swFile w"])
  next
    case False
    obtain f n err where f: "fileWrite (swFile w) data = (f, n, err)" by (metis prod_cases3)
    have cf: "contents f = contents (swFile w) @ take (nat n) data"
      using f by (auto simp: fileWrite_def split: list.splits)
    let ?w = "w\<lparr>swFile := f, swOffset := swOffset w + word_of_nat (nat n)\<rparr>"
    have ok: "nat n \<le> length data" "0 \<le> n" "n \<le> int (length data)" "\<not> err" "n \<noteq> 0" and rec: "sstWriteAll ?w (drop (nat n) data) = (w', Inr ())"
      using "1.prems" False f by (auto simp: sstWriteAll.simps [of w data] Let_def split: if_splits dest: sstPoison_fails)
    have "\<exists>g. w' = ?w\<lparr>swFile := g, swOffset := swOffset ?w + word_of_nat (length (drop (nat n) data))\<rparr> \<and>
        contents g = contents (swFile ?w) @ drop (nat n) data"
      using "1.IH" [OF False f [symmetric] refl refl] ok rec by simp
    then show ?thesis using cf ok(1) by (auto simp: of_nat_diff)
  qed
qed

lemma sstWriteAll_fails: "sstWriteAll w data = (w', Inl e) \<Longrightarrow> stateError w' \<noteq> None"
proof (induction w data rule: sstWriteAll.induct)
  case (1 w data)
  obtain f n err where f: "fileWrite (swFile w) data = (f, n, err)" by (metis prod_cases3)
  show ?case
    using "1.prems" "1.IH" [OF _ f [symmetric] refl refl] f
    by (auto simp: sstWriteAll.simps [of w data] Let_def split: if_splits dest: sstPoison_fails)
qed

lemma writeBlock_ok:
  assumes "writeBlock p k w = (w', Inr h)" "length p < 2 ^ 60"
  shows "\<exists>f. w' = w\<lparr>swFile := f, swOffset := swOffset w + word_of_nat (length p + BlockTrailerSize)\<rparr> \<and>
    contents f = contents (swFile w) @ appendBlockTrailer p k \<and>
    h = \<lparr>hOffset = swOffset w, hLength = word_of_nat (length p + BlockTrailerSize)\<rparr> \<and>
    unat (swOffset w) + length p + BlockTrailerSize \<le> MaxTableSize - FooterSize"
proof -
  let ?len = "word_of_nat (length p + BlockTrailerSize) :: u64"
  obtain e where e: "checkedAdd (swOffset w) ?len = Some e" "unat e \<le> MaxTableSize - FooterSize"
    and wr: "sstWriteAll w (appendBlockTrailer p k) = (w', Inr ())" and h: "h = \<lparr>hOffset = swOffset w, hLength = ?len\<rparr>"
    using assms(1) by (auto simp: writeBlock_def Let_def elim!: andThen_okE split: option.splits if_splits dest: sstPoison_fails)
  have "unat ?len = length p + BlockTrailerSize" using assms(2) by (intro unat_of_nat_u64) (simp add: BlockTrailerSize_def)
  then have "unat (swOffset w) + length p + BlockTrailerSize \<le> MaxTableSize - FooterSize"
    using checkedAdd_unat [OF e(1)] e(2) by simp
  then show ?thesis using sstWriteAll_ok [OF wr] h by auto
qed

lemma writeBlock_fails: "writeBlock p k w = (w', Inl e) \<Longrightarrow> stateError w' \<noteq> None"
  by (auto simp: writeBlock_def Let_def andThen_def split: option.splits if_splits prod.splits sum.splits
      dest: sstPoison_fails sstWriteAll_fails)

lemma builderOk_reset: "builderOk (bbReset b) [] [] {}"
  by (simp add: builderOk_def bbReset_def)

lemma length_bbFinish_empty: "length (bbFinish (bbReset b)) \<le> MaxDataBlockSize" "length (bbFinish (newDataBlockBuilder ri)) \<le> MaxDataBlockSize"
  by (simp_all add: bbFinish_def bbReset_def newDataBlockBuilder_def size_defs)

lemma bbEmpty_iff: "builderOk b cur ls Q \<Longrightarrow> bbEmpty b \<longleftrightarrow> cur = []"
  by (simp add: builderOk_def bbEmpty_def)

lemma flushDataBlock_ok:
  assumes ok: "writerOk w bts cur" and fl: "flushDataBlock w = (w', Inr ())"
  shows "(cur = [] \<and> w' = w) \<or> writerOk w' (bts @ [(bbFinish (swBlock w), cur)]) []"
proof (cases "cur = []")
  case True
  then show ?thesis using ok fl bbEmpty_iff by (auto simp: writerOk_def blocksOk_def flushDataBlock_def)
next
  case False
  let ?p = "bbFinish (swBlock w)"
  have bl: "blocksOk w bts cur" and co: "countersOk w (concat (map snd bts) @ cur)" and st: "stateError w = None"
    using ok by (auto simp: writerOk_def)
  obtain ls Q where bb: "builderOk (swBlock w) cur ls Q" using bl by (auto simp: blocksOk_def)
  obtain w1 h where len: "length (swIndex w) < 4294967295" "length ?p \<le> MaxDataBlockSize"
    and wb: "writeBlock ?p BlockData w = (w1, Inr h)"
    and w': "w' = w1\<lparr>swIndex := swIndex w1 @ [\<lparr>ixLastKey = swLastEncoded w1, ixHandle = h\<rparr>], swBlock := bbReset (swBlock w1)\<rparr>"
    using fl False bbEmpty_iff [OF bb]
    by (auto simp: flushDataBlock_def Let_def elim!: andThen_okE split: if_splits dest: sstPoison_fails)
  obtain f where f: "w1 = w\<lparr>swFile := f, swOffset := swOffset w + word_of_nat (length ?p + BlockTrailerSize)\<rparr>"
    "contents f = contents (swFile w) @ appendBlockTrailer ?p BlockData"
    "h = \<lparr>hOffset = swOffset w, hLength = word_of_nat (length ?p + BlockTrailerSize)\<rparr>"
    "unat (swOffset w) + length ?p + BlockTrailerSize \<le> MaxTableSize - FooterSize"
    using writeBlock_ok [OF wb] len(2) by (auto simp: size_defs)
  have off: "unat (swOffset w) = length (dataFile bts)" using bl by (auto simp: blocksOk_def size_defs)
  have "swLastEncoded w = encodeInternalKey (entryKey (last cur))" using co False by (simp add: countersOk_def)
  then have "blocksOk w' (bts @ [(?p, cur)]) []"
    unfolding blocksOk_def using bl f len bb False off builderOk_reset length_bbFinish_empty(1)
    by (auto simp: w' blocksOk_def blockBuilt_def indexOf_append ixEntry_def)
  moreover have "stateError w' = stateError w" by (simp add: w' f(1) stateError_def)
  moreover have "countersOk w' es = countersOk w es" for es by (simp add: w' f(1) countersOk_def)
  ultimately show ?thesis using ok by (simp add: writerOk_def)
qed

lemma flushDataBlock_fails: "flushDataBlock w = (w', Inl e) \<Longrightarrow> stateError w' \<noteq> None"
  by (auto simp: flushDataBlock_def Let_def andThen_def split: if_splits prod.splits sum.splits
      dest: sstPoison_fails writeBlock_fails)

section \<open>Adding\<close>

lemma tallies_snoc:
  "rawOf (es @ [e]) = rawOf es + (length (encodeInternalKey (entryKey e)) + length (entryValue e))"
  "deletesOf (es @ [e]) = deletesOf es + (if kind (entryKey e) = KindDelete then 1 else 0)"
  by (simp_all add: rawOf_def deletesOf_def)

lemma sortedEntries_snoc:
  "sortedEntries (es @ [e]) \<longleftrightarrow> sortedEntries es \<and> (es \<noteq> [] \<longrightarrow> entryKey (last es) < entryKey e)"
proof -
  have "sortedEntries es \<longleftrightarrow> sorted_wrt (<) (map entryKey es)" for es by (simp add: sortedEntries_def sorted_wrt_map)
  then show ?thesis by (simp add: sorted_snoc last_map)
qed

lemma recordEntry_ok:
  assumes "recordEntry k (encodeInternalKey k) v w = (w', Inr ())" "countersOk w es"
    and "length (encodeInternalKey k) < 2 ^ 60" "length v < 2 ^ 60"
    and "swEntryCount w \<noteq> -1" "kind k = KindDelete \<Longrightarrow> swDeletionCount w \<noteq> -1"
  shows "countersOk w' (es @ [KeyedEntry k v])"
    and "swFile w' = swFile w" "swOffset w' = swOffset w" "swIndex w' = swIndex w" "swBlock w' = swBlock w" "stateError w' = stateError w"
proof -
  obtain raw1 raw where raw: "checkedAdd (swRawBytes w) (word_of_nat (length (encodeInternalKey k))) = Some raw1"
    "checkedAdd raw1 (word_of_nat (length v)) = Some raw" and kv: "kindValid (kind k)"
    using assms(1) by (auto simp: recordEntry_def Let_def cloneInternalKey_def newInternalKey_def
        split: option.splits sum.splits if_splits dest: sstPoison_fails)
  have clone: "cloneInternalKey k = Inr k" using kv by (simp add: cloneInternalKey_ok)
  have rb: "unat raw = unat (swRawBytes w) + length (encodeInternalKey k) + length v"
    using checkedAdd_unat [OF raw(1)] checkedAdd_unat [OF raw(2)] assms(3,4) by simp
  have cnt: "unat (swEntryCount w + 1) = unat (swEntryCount w) + 1" using assms(5) by (rule unat_inc)
  have del: "unat (swDeletionCount w + (if kind k = KindDelete then 1 else 0)) = unat (swDeletionCount w) + (if kind k = KindDelete then 1 else 0)"
    using assms(6) unat_inc by auto
  have w': "w' = (let u = w\<lparr>swEntryCount := swEntryCount w + 1,
       swDeletionCount := swDeletionCount w + (if kind k = KindDelete then 1 else 0), swRawBytes := raw\<rparr>;
       u = (if swHaveEntry w then u else u\<lparr>swSmallestKey := k, swSmallestUser := userKey k, swHaveEntry := True\<rparr>);
       u = u\<lparr>swLastKey := k, swLastEncoded := encodeInternalKey k, swLargestUser := userKey k\<rparr>
    in if \<not> swHaveBloomUser w \<or> swLastBloomUser w \<noteq> userKey k
       then u\<lparr>swBloomHashes := swBloomHashes w @ [hashBloomKey (userKey k)], swLastBloomUser := userKey k, swHaveBloomUser := True\<rparr>
       else u)"
    using assms(1) raw clone by (cases "swHaveEntry w"; cases "\<not> swHaveBloomUser w \<or> swLastBloomUser w \<noteq> userKey k")
      (simp_all add: recordEntry_def Let_def)
  show "swFile w' = swFile w" "swOffset w' = swOffset w" "swIndex w' = swIndex w" "swBlock w' = swBlock w" "stateError w' = stateError w"
    by (simp_all add: w' Let_def stateError_def)
  have tallies: "unat (swEntryCount w') = unat (swEntryCount w) + 1" "unat (swRawBytes w') = unat (swRawBytes w) + length (encodeInternalKey k) + length v"
    "unat (swDeletionCount w') = unat (swDeletionCount w) + (if kind k = KindDelete then 1 else 0)"
    using cnt rb del by (simp_all add: w' Let_def split: if_splits)
  have bounds: "swHaveEntry w'" "swLastKey w' = k" "swLastEncoded w' = encodeInternalKey k" "swLargestUser w' = userKey k"
    "swSmallestKey w' = (if swHaveEntry w then swSmallestKey w else k)"
    "swSmallestUser w' = (if swHaveEntry w then swSmallestUser w else userKey k)"
    by (simp_all add: w' Let_def)
  have bloom: "set (swBloomHashes w) \<subseteq> set (swBloomHashes w')" "hashBloomKey (swLastBloomUser w') \<in> set (swBloomHashes w')"
    "swLastBloomUser w' = userKey k"
    using assms(2) by (auto simp: w' Let_def countersOk_def)
  show "countersOk w' (es @ [KeyedEntry k v])"
    using assms(2) tallies bounds bloom unfolding countersOk_def tallies_snoc
    by (cases es) auto
qed

lemma sstAdd_last:
  assumes ok: "writerOk w bts cur" and sized: "entrySized (KeyedEntry k v)"
    and above: "concat (map snd bts) @ cur \<noteq> [] \<Longrightarrow> entryKey (last (concat (map snd bts) @ cur)) < k"
    and counts: "swEntryCount w \<noteq> -1" "kind k = KindDelete \<Longrightarrow> swDeletionCount w \<noteq> -1"
    and lens: "length (encodeInternalKey k) < 2 ^ 60" "length v < 2 ^ 60"
    and fits: "projectedSize (swBlock w) (encodeInternalKey k) v \<le> MaxDataBlockSize"
    and rec: "recordEntry k (encodeInternalKey k) v (w\<lparr>swBlock := bbAdd (swBlock w) (encodeInternalKey k) v\<rparr>) = (w', res)"
  shows "stateError w' \<noteq> None \<and> isl res \<or> \<not> isl res \<and> writerOk w' bts (cur @ [KeyedEntry k v])"
proof (cases res)
  case (Inl e)
  have "kindValid (kind k)" using sized by (simp add: entrySized_def)
  then have "cloneInternalKey k = Inr k" by (simp add: cloneInternalKey_ok)
  then have "stateError w' \<noteq> None"
    using rec Inl by (auto simp: recordEntry_def Let_def split: option.splits dest: sstPoison_fails)
  then show ?thesis using Inl by simp
next
  case (Inr u)
  let ?w = "w\<lparr>swBlock := bbAdd (swBlock w) (encodeInternalKey k) v\<rparr>" and ?e = "KeyedEntry k v" and ?es = "concat (map snd bts) @ cur"
  have bl: "blocksOk w bts cur" and co: "countersOk w ?es" using ok by (auto simp: writerOk_def)
  have rec': "recordEntry k (encodeInternalKey k) v ?w = (w', Inr ())" using rec Inr by simp
  have "countersOk ?w ?es" using co by (simp add: countersOk_def)
  note re = recordEntry_ok [OF rec' this lens, simplified]
  obtain ls Q where bb: "builderOk (swBlock w) cur ls Q" using bl by (auto simp: blocksOk_def)
  moreover have "isRestart (swBlock w)" if "cur = []" using bb that by (simp add: builderOk_def isRestart_def)
  ultimately have "\<exists>l Q'. builderOk (addEntry (swBlock w) ?e) (cur @ [?e]) (ls @ [l]) Q'" using builderOk_add sized by blast
  then have "blocksOk w' bts (cur @ [?e])"
    using bl re counts fits by (auto simp: blocksOk_def addEntry_def projectedSize_exact)
  moreover have "stateError ?w = stateError w" by (simp add: stateError_def)
  then have "stateError w' = None" using re(6) counts ok by (simp add: writerOk_def)
  moreover have "sortedEntries (?es @ [?e])" using ok above by (simp add: writerOk_def sortedEntries_snoc del: append_assoc)
  ultimately show ?thesis using re(1) counts ok sized Inr by (simp add: writerOk_def)
qed

lemma sstAdd_ok:
  assumes ok: "writerOk w bts cur" and kv: "kindValid (kind k)" and add: "sstAdd k v w = (w', res)"
  shows "stateError w' \<noteq> None \<and> isl res \<or>
    (\<exists>bts' cur'. writerOk w' bts' cur' \<and>
       concat (map snd bts') @ cur' = concat (map snd bts) @ cur @ (if isl res then [] else [KeyedEntry k v]))"
proof -
  let ?key = "encodeInternalKey k" and ?es = "concat (map snd bts) @ cur"
  have st: "stateError w = None" using ok by (simp add: writerOk_def)
  define guarded where "guarded \<longleftrightarrow> \<not> (length (userKey k) > MaxUserKeySize \<or> length ?key > MaxInternalKeySize) \<and> \<not> length v > MaxValueSize \<and>
    \<not> (\<not> carriesValue (kind k) \<and> v \<noteq> []) \<and> \<not> entryTooLarge ?key v \<and>
    \<not> (swHaveEntry w \<and> compareInternal (swLastKey w) k = 0) \<and> \<not> (swHaveEntry w \<and> compareInternal (swLastKey w) k > 0)"
  show ?thesis
  proof (cases guarded)
    case False
    then have "w' = w \<and> isl res" using add st by (auto simp: sstAdd_def guarded_def Let_def split: if_splits)
    then show ?thesis using ok by auto
  next
    case True
    then have sized: "entrySized (KeyedEntry k v)" using kv by (auto simp: guarded_def entrySized_def)
    have order: "swLastKey w < k" if "swHaveEntry w"
    proof -
      have "compareInternal (swLastKey w) k < 0" using True that unfolding guarded_def by linarith
      then show ?thesis by (simp only: less_InternalKey_def)
    qed
    have lens: "length ?key < 2 ^ 60" "length v < 2 ^ 60" using True by (auto simp: guarded_def size_defs)
    have above: "?es \<noteq> [] \<Longrightarrow> entryKey (last ?es) < k"
      using ok order unfolding writerOk_def countersOk_def by metis
    obtain w1 r1 where w1: "(if \<not> bbEmpty (swBlock w) \<and> projectedSize (swBlock w) ?key v > swBlockSize w then flushDataBlock w else (w, Inr ())) = (w1, r1)"
      by (metis prod.exhaust)
    have add1: "(w', res) = andThen (w1, r1) (\<lambda>w _.
        if projectedSize (swBlock w) ?key v > MaxDataBlockSize then (w, Inl SstEntryTooLarge)
        else if swEntryCount w = -1 \<or> kind k = KindDelete \<and> swDeletionCount w = -1 then sstPoison SstTableTooLarge w
        else recordEntry k ?key v (w\<lparr>swBlock := bbAdd (swBlock w) ?key v\<rparr>))"
    proof -
      have a: "\<not> (length (userKey k) > MaxUserKeySize \<or> length ?key > MaxInternalKeySize)" "\<not> length v > MaxValueSize"
        "\<not> (\<not> carriesValue (kind k) \<and> v \<noteq> [])" "\<not> entryTooLarge ?key v"
        "\<not> (swHaveEntry w \<and> compareInternal (swLastKey w) k = 0)" "\<not> (swHaveEntry w \<and> compareInternal (swLastKey w) k > 0)"
        using True unfolding guarded_def by blast+
      show ?thesis
        using add unfolding sstAdd_def Let_def st option.case(1) if_not_P [OF a(1)] if_not_P [OF a(2)] if_not_P [OF a(3)]
          if_not_P [OF a(4)] if_not_P [OF a(5)] if_not_P [OF a(6)] w1 by (rule sym)
    qed
    show ?thesis
    proof (cases r1)
      case (Inl e)
      then have "stateError w1 \<noteq> None" using w1 flushDataBlock_fails by (auto split: if_splits)
      then show ?thesis using add1 Inl by simp
    next
      case (Inr u)
      have "\<exists>bts' cur'. writerOk w1 bts' cur' \<and> concat (map snd bts') @ cur' = ?es"
        using w1 Inr ok flushDataBlock_ok [OF ok, of w1] by (fastforce split: if_splits)
      then obtain bts' cur' where ok1: "writerOk w1 bts' cur'" and es: "concat (map snd bts') @ cur' = ?es" by blast
      have above': "entryKey (last (concat (map snd bts') @ cur')) < k" if "concat (map snd bts') @ cur' \<noteq> []"
        using above that unfolding es by simp
      let ?full = "projectedSize (swBlock w1) ?key v > MaxDataBlockSize"
      let ?most = "swEntryCount w1 = -1 \<or> kind k = KindDelete \<and> swDeletionCount w1 = -1"
      consider "?full" "(w', res) = (w1, Inl SstEntryTooLarge)" | "\<not> ?full" "?most" "(w', res) = sstPoison SstTableTooLarge w1"
        | "\<not> ?full" "\<not> ?most" "recordEntry k ?key v (w1\<lparr>swBlock := bbAdd (swBlock w1) ?key v\<rparr>) = (w', res)"
        using add1 Inr by (auto split: if_splits)
      then show ?thesis
      proof cases
        case 1
        then show ?thesis using ok1 es by auto
      next
        case 2
        then show ?thesis using sstPoison_fails [of SstTableTooLarge w1 w' res] by simp
      next
        case 3
        then have "stateError w' \<noteq> None \<and> isl res \<or> \<not> isl res \<and> writerOk w' bts' (cur' @ [KeyedEntry k v])"
          using sstAdd_last [OF ok1 sized above' _ _ lens] by (meson not_le)
        moreover have "concat (map snd bts') @ cur' @ [KeyedEntry k v] = concat (map snd bts) @ cur @ [KeyedEntry k v]"
          using es by (metis append_assoc)
        ultimately show ?thesis by (cases "isl res") (simp_all only: if_True if_False, blast+)
      qed
    qed
  qed
qed

text \<open>A sequence of \<open>Add\<close> calls and the entries they accepted.\<close>

fun sstAddAll :: "KeyedEntry list \<Rightarrow> SstWriter \<Rightarrow> SstWriter \<times> KeyedEntry list" where
  "sstAddAll [] w = (w, [])"
| "sstAddAll (e # es) w =
     (case sstAdd (entryKey e) (entryValue e) w of
        (w, Inl _) \<Rightarrow> sstAddAll es w
      | (w, Inr _) \<Rightarrow> (case sstAddAll es w of (w, accepted) \<Rightarrow> (w, e # accepted)))"

lemma sstAddAll_failed: "stateError w \<noteq> None \<Longrightarrow> sstAddAll es w = (w, [])"
proof -
  assume "stateError w \<noteq> None"
  then have "sstAdd k v w = (w, Inl (the (stateError w)))" for k v by (cases "stateError w") (simp_all add: sstAdd_def)
  then show ?thesis by (induction es) simp_all
qed

lemma sstAddAll_ok:
  assumes "writerOk w bts cur" "list_all (\<lambda>e. kindValid (kind (entryKey e))) es" "sstAddAll es w = (w', accepted)"
  shows "stateError w' \<noteq> None \<or>
    (\<exists>bts' cur'. writerOk w' bts' cur' \<and> concat (map snd bts') @ cur' = (concat (map snd bts) @ cur) @ accepted)"
  using assms
proof (induction es arbitrary: w bts cur accepted)
  case Nil
  then show ?case by auto
next
  case (Cons e es)
  obtain w1 res where add: "sstAdd (entryKey e) (entryValue e) w = (w1, res)" by (metis prod.exhaust)
  obtain acc where rest: "sstAddAll es w1 = (w', acc)" and acc: "accepted = (if isl res then acc else e # acc)"
    using Cons.prems(3) add by (cases res) (auto split: prod.splits)
  have kv: "kindValid (kind (entryKey e))" using Cons.prems(2) by simp
  consider "stateError w1 \<noteq> None" | bts1 cur1 where "writerOk w1 bts1 cur1"
      "concat (map snd bts1) @ cur1 = concat (map snd bts) @ cur @ (if isl res then [] else [KeyedEntry (entryKey e) (entryValue e)])"
    using sstAdd_ok [OF Cons.prems(1) kv add] by blast
  then show ?case
  proof cases
    case 1
    then show ?thesis using sstAddAll_failed [OF 1] rest by auto
  next
    case 2
    have "stateError w' \<noteq> None \<or>
        (\<exists>bts' cur'. writerOk w' bts' cur' \<and> concat (map snd bts') @ cur' = (concat (map snd bts1) @ cur1) @ acc)"
      using Cons.IH [OF 2(1) _ rest] Cons.prems(2) by simp
    then show ?thesis unfolding 2(2) acc by (cases "isl res") simp_all
  qed
qed

lemma writerOk_new:
  assumes "OpenSstWriter finalPath tempPath writes syncs ops fileNumber options = Inr w"
  shows "writerOk w [] []"
proof -
  obtain blockSize ri where w: "w = (newSstWriter \<lparr>contents = [], fileSynced = 0, fileLinked = False, writePlan = writes, syncPlan = syncs\<rparr> ops fileNumber blockSize ri)
      \<lparr>swEnableBloom := \<not> soDisableBloom options\<rparr>"
    using assms by (auto simp: OpenSstWriter_def elim!: bindR_okE split: if_splits PathState.splits)
  have "\<exists>ls Q. builderOk (newDataBlockBuilder ri) [] ls Q" using builderOk_new by blast
  then show ?thesis
    by (simp add: w newSstWriter_def writerOk_def blocksOk_def countersOk_def stateError_def sortedEntries_def rawOf_def deletesOf_def
        length_bbFinish_empty)
qed

section \<open>Finishing\<close>

lemma indexOf_keys:
  assumes "list_all (\<lambda>b. snd b \<noteq> []) bts" "list_all entrySized (concat (map snd bts))"
  shows "list_all (\<lambda>kh. keySized (fst kh)) (indexOf off bts)"
  using assms
proof (induction bts arbitrary: off)
  case (Cons b bts)
  have "last (snd b) \<in> set (snd b)" "list_all entrySized (snd b)" using Cons.prems by simp_all
  then have "entrySized (last (snd b))" unfolding list_all_iff by blast
  then have "keySized (entryKey (last (snd b)))" by (simp add: entrySized_def keySized_def)
  then show ?case using Cons by simp
qed simp

lemma indexOf_sorted:
  assumes "list_all (\<lambda>b. snd b \<noteq> []) bts" "sortedEntries (concat (map snd bts))"
  shows "sorted_wrt (<) (map fst (indexOf off bts))"
proof -
  have "map fst (indexOf off bts) = map (\<lambda>es. entryKey (last es)) (map snd bts)" by (induction bts arbitrary: off) auto
  moreover have "sorted_wrt (<) (map (\<lambda>es. entryKey (last es)) (map snd bts))"
    using assms by (intro sorted_lasts) (auto simp: sortedEntries_def sorted_wrt_map list_all_iff)
  ultimately show ?thesis by simp
qed

lemma length_encodeIndex_le:
  assumes "swIndex w = map ixEntry khs" "list_all (\<lambda>kh. keySized (fst kh)) khs"
  shows "length (encodeIndex w) \<le> 4 + length khs * 2 ^ 21"
proof -
  have "length (encodeIndexEntry (ixEntry kh)) \<le> 2 ^ 21" if "keySized (fst kh)" for kh
    using putUvarint_length_max [of "word_of_nat (length (encodeInternalKey (fst kh)))"] that
    by (simp add: encodeIndexEntry_def ixEntry_def keySized_def length_encodeInternalKey size_defs)
  then have "length (concat (map (\<lambda>kh. encodeIndexEntry (ixEntry kh)) khs)) \<le> length khs * 2 ^ 21"
    using assms(2) by (induction khs) (auto intro: add_mono)
  then show ?thesis using assms(1) by (simp add: encodeIndex_def comp_def)
qed

lemma length_encodeIndex:
  assumes "swIndex w = map ixEntry khs" "length khs < 2 ^ 32" "list_all (\<lambda>kh. keySized (fst kh)) khs"
  shows "length (encodeIndex w) < 2 ^ 60"
proof -
  have "length khs * 2 ^ 21 \<le> 2 ^ 32 * 2 ^ 21" using assms(2) by (intro mult_right_mono) auto
  then show ?thesis using length_encodeIndex_le [OF assms(1,3)] by simp
qed

lemma length_encodeMetadata:
  assumes "keySized (swSmallestKey w)" "keySized (swLastKey w)"
    "swSmallestUser w = userKey (swSmallestKey w)" "swLargestUser w = userKey (swLastKey w)"
  shows "length (encodeMetadata w) + BlockTrailerSize \<le> maximumMetadata"
proof -
  have "length (encodeMetadata w) = 28 + 16 + length (userKey (swSmallestKey w)) * 2 + length (userKey (swLastKey w)) * 2 + 18"
    using assms(3,4) by (simp add: encodeMetadata_def appendLengthPrefixed32_def length_encodeInternalKey)
  moreover have "length (userKey (swSmallestKey w)) \<le> MaxUserKeySize" "length (userKey (swLastKey w)) \<le> MaxUserKeySize"
    using assms(1,2) by (simp_all add: keySized_def)
  ultimately show ?thesis by (simp add: maximumMetadata_def size_defs)
qed

lemma counters_bounds:
  assumes co: "countersOk w es" and es: "es \<noteq> []" and so: "sortedEntries es" and sz: "list_all entrySized es"
  shows "keySized (swSmallestKey w)" "keySized (swLastKey w)" "swSmallestKey w \<le> swLastKey w"
    and "swSmallestUser w = userKey (swSmallestKey w)" "swLargestUser w = userKey (swLastKey w)"
proof -
  have keys: "swSmallestKey w = entryKey (hd es)" "swLastKey w = entryKey (last es)"
    "swSmallestUser w = userKey (entryKey (hd es))" "swLargestUser w = userKey (entryKey (last es))"
    using co es by (auto simp: countersOk_def)
  then show "swSmallestUser w = userKey (swSmallestKey w)" "swLargestUser w = userKey (swLastKey w)" by simp_all
  have "entrySized (hd es)" "entrySized (last es)" using sz es by (auto simp: list_all_iff)
  then show "keySized (swSmallestKey w)" "keySized (swLastKey w)" by (simp_all add: keys entrySized_def keySized_def)
  have "entryKey (hd es) \<le> entryKey (last es)"
  proof (cases es)
    case (Cons e rest)
    then show ?thesis using so by (cases rest rule: rev_cases) (auto simp: sortedEntries_def less_imp_le)
  qed (use es in simp)
  then show "swSmallestKey w \<le> swLastKey w" by (simp add: keys)
qed

lemma writerOk_tail:
  assumes ok: "writerOk w bts []" and ne: "bts \<noteq> []"
  shows "countersOk w (concat (map snd bts))" "sortedEntries (concat (map snd bts))" "list_all entrySized (concat (map snd bts))"
    and "concat (map snd bts) \<noteq> []" "list_all (\<lambda>kh. keySized (fst kh)) (indexOf off bts)" "sorted_wrt (<) (map fst (indexOf off bts))"
proof -
  show "countersOk w (concat (map snd bts))" and so: "sortedEntries (concat (map snd bts))"
    and sz: "list_all entrySized (concat (map snd bts))"
    using ok by (simp_all add: writerOk_def)
  have bl: "list_all blockBuilt bts" using ok by (simp add: writerOk_def blocksOk_def)
  then have snd: "list_all (\<lambda>b. snd b \<noteq> []) bts" by (auto simp: list_all_iff blockBuilt_def)
  then show "concat (map snd bts) \<noteq> []" using ne by (cases bts) auto
  show "list_all (\<lambda>kh. keySized (fst kh)) (indexOf off bts)" using snd sz by (rule indexOf_keys)
  show "sorted_wrt (<) (map fst (indexOf off bts))" using snd so by (rule indexOf_sorted)
qed

lemma writeBlock_step:
  assumes wr: "writeBlock p k w = (w', Inr h)" and len: "length p < 2 ^ 60"
    and at: "contents (swFile w) = c" "swOffset w = word_of_nat (length c)" "length c \<le> MaxTableSize - FooterSize"
  shows "\<exists>f. w' = w\<lparr>swFile := f, swOffset := word_of_nat (length (c @ appendBlockTrailer p k))\<rparr> \<and>
    contents f = c @ appendBlockTrailer p k \<and> length (c @ appendBlockTrailer p k) \<le> MaxTableSize - FooterSize \<and>
    unat (hOffset h) = length c \<and> unat (hLength h) = length p + BlockTrailerSize"
proof -
  have off: "unat (swOffset w) = length c" unfolding at(2) using at(3) by (intro unat_of_nat_u64) (simp add: size_defs)
  have hl: "unat (word_of_nat (length p + BlockTrailerSize) :: u64) = length p + BlockTrailerSize"
    using len by (intro unat_of_nat_u64) (simp add: size_defs)
  obtain f where f: "w' = w\<lparr>swFile := f, swOffset := swOffset w + word_of_nat (length p + BlockTrailerSize)\<rparr>"
    "contents f = contents (swFile w) @ appendBlockTrailer p k"
    "h = \<lparr>hOffset = swOffset w, hLength = word_of_nat (length p + BlockTrailerSize)\<rparr>"
    "unat (swOffset w) + length p + BlockTrailerSize \<le> MaxTableSize - FooterSize"
    using writeBlock_ok [OF wr len] by blast
  have "swOffset w + word_of_nat (length p + BlockTrailerSize) = word_of_nat (length (c @ appendBlockTrailer p k))"
    by (simp add: at(2))
  then show ?thesis using f at(1) off hl by (intro exI [of _ f]) simp
qed

definition tableLayout :: "SstWriter \<Rightarrow> built list \<Rightarrow> bytes \<Rightarrow> BlockHandle \<Rightarrow> BlockHandle \<Rightarrow> BlockHandle \<Rightarrow> bytes \<Rightarrow> bool" where
  "tableLayout w bts file ih mh fh fb \<longleftrightarrow>
     file = dataFile bts @ appendBlockTrailer (encodeIndex w) BlockIndex @ appendBlockTrailer (encodeMetadata w) BlockMetadata @
       fb @ encodeFooter ih mh fh (word_of_nat (length (dataFile bts))) \<and> length file \<le> MaxTableSize \<and>
     unat (hOffset ih) = length (dataFile bts) \<and> unat (hLength ih) = length (encodeIndex w) + BlockTrailerSize \<and>
     unat (hOffset mh) = length (dataFile bts) + length (encodeIndex w) + BlockTrailerSize \<and>
     unat (hLength mh) = length (encodeMetadata w) + BlockTrailerSize \<and>
     (if swEnableBloom w
      then \<exists>payload. encodeBloom (swBloomHashes w) = Inr payload \<and> fb = appendBlockTrailer payload BlockFilter \<and>
        unat (hOffset fh) = length (dataFile bts) + length (encodeIndex w) + length (encodeMetadata w) + 2 * BlockTrailerSize \<and>
        unat (hLength fh) = length payload + BlockTrailerSize
      else fb = [] \<and> fh = noHandle)"

lemma writeTail_ok:
  assumes ok: "writerOk w bts []" and ne: "bts \<noteq> []" and tail: "writeTail w = (w', Inr ())"
  shows "\<exists>f ih mh fh fb. w' = w\<lparr>swFile := f, swOffset := word_of_nat (length (contents f))\<rparr> \<and> tableLayout w bts (contents f) ih mh fh fb"
proof -
  let ?d = "dataFile bts" and ?ib = "appendBlockTrailer (encodeIndex w) BlockIndex" and ?mb = "appendBlockTrailer (encodeMetadata w) BlockMetadata"
  note tl = writerOk_tail [OF ok ne]
  note cb = counters_bounds [OF tl(1,4,2,3)]
  have bl: "contents (swFile w) = ?d" "swOffset w = word_of_nat (length ?d)" "length ?d \<le> MaxTableSize - FooterSize"
    "swIndex w = map ixEntry (indexOf 0 bts)" "length bts < 2 ^ 32"
    using ok by (auto simp: writerOk_def blocksOk_def)
  have li: "length (encodeIndex w) < 2 ^ 60" using length_encodeIndex [OF bl(4) _ tl(5)] bl(5) by simp
  have lm: "length (encodeMetadata w) < 2 ^ 60"
    using length_encodeMetadata [OF cb(1,2,4,5)] by (simp add: maximumMetadata_def size_defs)
  obtain w1 w2 w3 ih mh fh where w1: "writeBlock (encodeIndex w) BlockIndex w = (w1, Inr ih)"
    and w2: "writeBlock (encodeMetadata w1) BlockMetadata w1 = (w2, Inr mh)" and w3: "writeFilter w2 = (w3, Inr fh)"
    and foot: "sstWriteAll w3 (encodeFooter ih mh fh (swOffset w)) = (w', Inr ())"
    using tail by (auto simp: writeTail_def elim!: andThen_okE)
  obtain f1 where f1: "w1 = w\<lparr>swFile := f1, swOffset := word_of_nat (length (?d @ ?ib))\<rparr>" "contents f1 = ?d @ ?ib"
    "length (?d @ ?ib) \<le> MaxTableSize - FooterSize" "unat (hOffset ih) = length ?d" "unat (hLength ih) = length (encodeIndex w) + BlockTrailerSize"
    using writeBlock_step [OF w1 li bl(1-3)] by blast
  have em: "encodeMetadata w1 = encodeMetadata w" by (simp add: f1(1) encodeMetadata_def)
  have at1: "contents (swFile w1) = ?d @ ?ib" "swOffset w1 = word_of_nat (length (?d @ ?ib))" using f1(1,2) by simp_all
  obtain f2 where f2: "w2 = w1\<lparr>swFile := f2, swOffset := word_of_nat (length ((?d @ ?ib) @ ?mb))\<rparr>" "contents f2 = (?d @ ?ib) @ ?mb"
    "length ((?d @ ?ib) @ ?mb) \<le> MaxTableSize - FooterSize" "unat (hOffset mh) = length (?d @ ?ib)"
    "unat (hLength mh) = length (encodeMetadata w) + BlockTrailerSize"
    using writeBlock_step [OF w2 _ at1 f1(3)] lm unfolding em by blast
  let ?c = "(?d @ ?ib) @ ?mb"
  have w2e: "w2 = w\<lparr>swFile := f2, swOffset := word_of_nat (length ?c)\<rparr>" using f2(1) f1(1) by simp
  have "\<exists>f3 fb. w3 = w\<lparr>swFile := f3, swOffset := word_of_nat (length (?c @ fb))\<rparr> \<and> contents f3 = ?c @ fb \<and>
      length (?c @ fb) \<le> MaxTableSize - FooterSize \<and>
      (if swEnableBloom w then \<exists>payload. encodeBloom (swBloomHashes w) = Inr payload \<and> fb = appendBlockTrailer payload BlockFilter \<and>
         unat (hOffset fh) = length ?c \<and> unat (hLength fh) = length payload + BlockTrailerSize
       else fb = [] \<and> fh = noHandle)"
  proof (cases "swEnableBloom w")
    case True
    then obtain payload where p: "encodeBloom (swBloomHashes w) = Inr payload" "writeBlock payload BlockFilter w2 = (w3, Inr fh)"
      using w3 by (auto simp: writeFilter_def w2e split: sum.splits dest: sstPoison_fails)
    have lp: "length payload < 2 ^ 60" using decodeBloom_encoded(3) [OF p(1)] by (simp add: maxBloomBytes_def bloomHeaderSize_def)
    have at2: "contents (swFile w2) = ?c" "swOffset w2 = word_of_nat (length ?c)" using f2(2) w2e by simp_all
    obtain f3 where "w3 = w2\<lparr>swFile := f3, swOffset := word_of_nat (length (?c @ appendBlockTrailer payload BlockFilter))\<rparr>"
      "contents f3 = ?c @ appendBlockTrailer payload BlockFilter" "length (?c @ appendBlockTrailer payload BlockFilter) \<le> MaxTableSize - FooterSize"
      "unat (hOffset fh) = length ?c" "unat (hLength fh) = length payload + BlockTrailerSize"
      using writeBlock_step [OF p(2) lp at2 f2(3)] by blast
    then show ?thesis
      using True p(1) w2e by (intro exI [of _ f3] exI [of _ "appendBlockTrailer payload BlockFilter"]) simp
  next
    case False
    then show ?thesis using w3 f2(2,3) by (intro exI [of _ f2] exI [of _ "[]"]) (simp add: writeFilter_def w2e)
  qed
  then obtain f3 fb where f3: "w3 = w\<lparr>swFile := f3, swOffset := word_of_nat (length (?c @ fb))\<rparr>" "contents f3 = ?c @ fb"
    "length (?c @ fb) \<le> MaxTableSize - FooterSize"
    "if swEnableBloom w then \<exists>payload. encodeBloom (swBloomHashes w) = Inr payload \<and> fb = appendBlockTrailer payload BlockFilter \<and>
         unat (hOffset fh) = length ?c \<and> unat (hLength fh) = length payload + BlockTrailerSize
       else fb = [] \<and> fh = noHandle" by blast
  obtain f where f: "w' = w3\<lparr>swFile := f, swOffset := swOffset w3 + word_of_nat (length (encodeFooter ih mh fh (swOffset w)))\<rparr>"
    "contents f = contents (swFile w3) @ encodeFooter ih mh fh (swOffset w)"
    using sstWriteAll_ok [OF foot] by blast
  have cf: "contents f = ?d @ ?ib @ ?mb @ fb @ encodeFooter ih mh fh (word_of_nat (length ?d))" using f(2) f3(1,2) bl(2) by simp
  have "w' = w\<lparr>swFile := f, swOffset := word_of_nat (length (contents f))\<rparr>"
    unfolding f(1) f3(1) cf by (simp add: add_ac)
  moreover have "length (contents f) \<le> MaxTableSize" unfolding cf using f3(3) by (simp add: size_defs)
  then have "tableLayout w bts (contents f) ih mh fh fb"
    unfolding tableLayout_def using cf f1(4,5) f2(4,5) f3(4) by (auto split: if_splits)
  ultimately show ?thesis by blast
qed

section \<open>Reading the table back\<close>

lemma unat_size: "n \<le> MaxTableSize \<Longrightarrow> unat (word_of_nat n :: u64) = n"
  by (intro unat_of_nat_u64) (simp add: size_defs)

lemma diEntry_sel [simp]:
  "diKey (diEntry kh) = fst kh" "diEncoded (diEntry kh) = encodeInternalKey (fst kh)" "diHandle (diEntry kh) = snd kh"
  by (simp_all add: diEntry_def)

lemma validateDataHandles_written:
  assumes "off + length (dataFile bts) \<le> MaxTableSize"
  shows "validateDataHandles (word_of_nat off) (map diEntry (indexOf off bts)) (word_of_nat (off + length (dataFile bts))) = Inr ()"
  using assms
proof (induction bts arbitrary: off)
  case (Cons b bts)
  let ?n = "length (fst b) + BlockTrailerSize"
  let ?h = "\<lparr>hOffset = word_of_nat off, hLength = word_of_nat ?n\<rparr>"
  have le: "off + ?n + length (dataFile bts) \<le> MaxTableSize" using Cons.prems by (simp add: add_ac)
  have u: "unat (hOffset ?h) = off" "unat (hLength ?h) = ?n" using le by (simp_all only: BlockHandle.select_convs) (simp_all add: unat_size del: of_nat_add)
  have "validateHandle ?h (word_of_nat (off + length (dataFile (b # bts)))) BlockTrailerSize = Inr ()"
    using le u Cons.prems unat_size [OF Cons.prems] by (intro validateHandle_ok) (simp_all add: add_ac)
  moreover have "validateDataHandles (word_of_nat (off + ?n)) (map diEntry (indexOf (off + ?n) bts)) (word_of_nat (off + ?n + length (dataFile bts))) = Inr ()"
    using le by (intro Cons.IH) simp
  ultimately show ?case by (simp add: add_ac)
qed simp

lemma streamEntries_succeeds:
  assumes "list_all entryOk es" "list_all (\<lambda>e. mayContain bloom (userKey (deKey e))) es" "ssDeletions s \<le> ssCount s"
    and "unat (ssCount s) + length es < 2 ^ 64" "unat (ssRaw s) + rawBytesOf es < 2 ^ 64"
  shows "\<exists>s'. streamEntries bloom es s = Inr s'"
  using assms
proof (induction es arbitrary: s)
  case (Cons e es)
  have len: "length (deEncoded e) < 2 ^ 60" "length (deValue e) < 2 ^ 60" using Cons.prems(1) by (simp_all add: entryOk_def size_defs)
  define raw where "raw = (word_of_nat (length (deEncoded e)) + word_of_nat (length (deValue e)) :: u64)"
  have raw: "checkedAdd (word_of_nat (length (deEncoded e))) (word_of_nat (length (deValue e))) = Some raw"
    "unat raw = length (deEncoded e) + length (deValue e)"
    using len by (auto simp: raw_def checkedAdd_iff intro!: trans [OF unat_add_exact])
  have raw': "checkedAdd (ssRaw s) raw = Some (ssRaw s + raw)" using Cons.prems(5) raw(2) by (simp add: checkedAdd_iff)
  have c: "ssCount s \<noteq> -1" using Cons.prems(4) unat_max_u64 by auto
  let ?s = "s\<lparr>ssCount := ssCount s + 1, ssDeletions := ssDeletions s + (if kind (deKey e) = KindDelete then 1 else 0), ssRaw := ssRaw s + raw\<rparr>"
  have step: "streamEntries bloom (e # es) s = streamEntries bloom es ?s"
    using Cons.prems(2) c raw raw' by (simp add: Let_def)
  have d: "ssDeletions s \<noteq> -1" using Cons.prems(3) c by (metis word_order.extremum_uniqueI)
  have "ssDeletions ?s \<le> ssCount ?s" using Cons.prems(3) c d by (simp add: word_le_nat_alt unat_inc)
  moreover have "unat (ssRaw s + raw) = unat (ssRaw s) + unat raw" using Cons.prems(5) raw(2) by (intro unat_add_exact) simp
  ultimately show ?case
    unfolding step using Cons.prems c raw(2) by (intro Cons.IH) (simp_all add: unat_inc)
qed simp

lemma streamBlocks_succeeds:
  assumes "tableChain f bloom (map_option deKey (ssLast s)) index bs" "ssDeletions s \<le> ssCount s"
    and "unat (ssCount s) + length (blockEntries bs) < 2 ^ 64" "unat (ssRaw s) + rawBytesOf (blockEntries bs) < 2 ^ 64"
  shows "\<exists>s'. streamBlocks f bloom index s = Inr s'"
  using assms
proof (induction index arbitrary: s bs)
  case (Cons ie index)
  obtain p b bs' where bs: "bs = (p, b) # bs'" using Cons.prems(1) by (cases bs) auto
  have rd: "readBlockUnlocked f (diHandle ie) BlockData (hOffset (diHandle ie) + hLength (diHandle ie)) = Inr p"
    "decodeDataBlock p (diHandle ie) = Inr b" "deEncoded (last (dbEntries b)) = diEncoded ie"
    "list_all (\<lambda>e. mayContain bloom (userKey (deKey e))) (dbEntries b)"
    and rest: "tableChain f bloom (Some (deKey (last (dbEntries b)))) index bs'"
    and order: "\<not> (case ssLast s of None \<Rightarrow> False | Some l \<Rightarrow> compareInternal (deKey l) (deKey (hd (dbEntries b))) \<ge> 0)"
    using Cons.prems(1) by (auto simp: bs split: option.splits)
  note facts = decodeDataBlock_facts [OF rd(2)]
  let ?s = "s\<lparr>ssCRCs := ssCRCs s @ [blockPayloadChecksum p BlockData],
     ssFirst := (case ssFirst s of None \<Rightarrow> Some (hd (dbEntries b)) | Some e \<Rightarrow> Some e), ssLast := Some (last (dbEntries b))\<rparr>"
  obtain s2 where s2: "streamEntries bloom (dbEntries b) ?s = Inr s2"
    using streamEntries_succeeds [OF facts(3) rd(4), of ?s] Cons.prems(2-4) by (auto simp: bs)
  note ok = streamEntries_ok [OF s2 facts(3), simplified, OF Cons.prems(2)]
  have "\<exists>s'. streamBlocks f bloom index s2 = Inr s'"
    using Cons.prems(3,4) ok rest by (intro Cons.IH [of s2 bs']) (simp_all add: bs)
  then show ?case using rd order s2 by (auto simp: Let_def)
qed simp

lemma tableChain_written:
  assumes "list_all blockBuilt bts" "sortedEntries (concat (map snd bts))"
    and "file = pre @ dataFile bts @ post" "length file \<le> MaxTableSize"
    and "list_all (\<lambda>e. mayContain bloom (userKey (entryKey e))) (concat (map snd bts))"
    and "\<And>k. lst = Some k \<Longrightarrow> list_all (\<lambda>e. k < entryKey e) (concat (map snd bts))"
  shows "\<exists>bs. tableChain (readBytes file) bloom lst (map diEntry (indexOf (length pre) bts)) bs \<and> length bs = length bts \<and>
    blockEntries bs = map decodedOf (concat (map snd bts))"
  using assms
proof (induction bts arbitrary: pre lst)
  case Nil
  then show ?case by (intro exI [of _ "[]"]) simp
next
  case (Cons b bts)
  let ?p = "fst b" and ?es = "snd b" and ?rest = "concat (map snd bts)"
  have bb: "?es \<noteq> []" "length ?p \<le> MaxDataBlockSize" using Cons.prems(1) by (auto simp: blockBuilt_def)
  obtain builder ls Q where built: "builderOk builder ?es ls Q" "?p = bbFinish builder" using Cons.prems(1) by (auto simp: blockBuilt_def)
  let ?h = "\<lparr>hOffset = word_of_nat (length pre), hLength = word_of_nat (length ?p + BlockTrailerSize)\<rparr>"
  have so: "sortedEntries ?es" "sortedEntries ?rest" "\<And>x y. x \<in> set ?es \<Longrightarrow> y \<in> set ?rest \<Longrightarrow> entryKey x < entryKey y"
    using Cons.prems(2) by (simp_all only: sortedEntries_def list.map concat.simps sorted_wrt_append)
  obtain blk where blk: "decodeDataBlock ?p ?h = Inr blk" "dbEntries blk = map decodedOf ?es"
    using bbFinish_decodes [OF built(1) bb(1) _ so(1), of ?h] bb(2) built(2) by auto
  have fl: "file = (pre @ appendBlockTrailer ?p BlockData) @ dataFile bts @ post" using Cons.prems(3) by simp
  have le: "length pre + (length ?p + BlockTrailerSize) \<le> MaxTableSize" using Cons.prems(4) unfolding fl by simp
  have u: "unat (word_of_nat (length pre) :: u64) = length pre"
    "unat (word_of_nat (length ?p + BlockTrailerSize) :: u64) = length ?p + BlockTrailerSize"
    "unat (word_of_nat (length pre + (length ?p + BlockTrailerSize)) :: u64) = length pre + (length ?p + BlockTrailerSize)"
    using le by (simp_all add: unat_size del: of_nat_add)
  have rd: "readBlockUnlocked (readBytes file) ?h BlockData (hOffset ?h + hLength ?h) = Inr ?p"
    using readBlock_written [OF Cons.prems(3) [unfolded dataFile_simps append_assoc] Cons.prems(4), of ?h] u le bb(2) by simp
  have above: "list_all (\<lambda>e. entryKey (last ?es) < entryKey e) ?rest"
    unfolding list_all_iff using so(3) last_in_set [OF bb(1)] by blast
  have "\<exists>bs. tableChain (readBytes file) bloom (Some (entryKey (last ?es)))
      (map diEntry (indexOf (length (pre @ appendBlockTrailer ?p BlockData)) bts)) bs \<and> length bs = length bts \<and>
    blockEntries bs = map decodedOf ?rest"
    using Cons.IH [of "pre @ appendBlockTrailer ?p BlockData" "Some (entryKey (last ?es))"] Cons.prems(1,4,5) so(2) fl above by simp
  then obtain bs where bs: "tableChain (readBytes file) bloom (Some (entryKey (last ?es)))
      (map diEntry (indexOf (length (pre @ appendBlockTrailer ?p BlockData)) bts)) bs" "length bs = length bts"
    "blockEntries bs = map decodedOf ?rest" by blast
  have "k < entryKey (hd ?es)" if "lst = Some k" for k
  proof -
    have "list_all (\<lambda>e. k < entryKey e) ?es" using Cons.prems(6) [OF that] by simp
    then show ?thesis using hd_in_set [OF bb(1)] unfolding list_all_iff by blast
  qed
  then have "case lst of None \<Rightarrow> True | Some k \<Rightarrow> k < deKey (hd (dbEntries blk))"
    using bb(1) blk(2) by (simp add: hd_map split: option.splits)
  moreover have "list_all (\<lambda>e. mayContain bloom (userKey (deKey e))) (dbEntries blk)"
    using Cons.prems(5) by (simp add: blk(2) list.pred_map comp_def)
  ultimately have "tableChain (readBytes file) bloom lst (map diEntry (indexOf (length pre) (b # bts))) ((?p, blk) # bs)"
    using rd blk bs(1) bb(1) by (simp add: last_map add.assoc)
  then show ?case using bs(2,3) blk(2) by (intro exI [of _ "(?p, blk) # bs"]) simp
qed

lemma tableChain_unique:
  "tableChain f bloom lst index bs \<Longrightarrow> tableChain f bloom lst' index cs \<Longrightarrow> bs = cs"
proof (induction index arbitrary: bs cs lst lst')
  case Nil
  then show ?case by (cases bs; cases cs) simp_all
next
  case (Cons ie index)
  obtain p b bs' where bs: "bs = (p, b) # bs'" using Cons.prems(1) by (cases bs) auto
  obtain q c cs' where cs: "cs = (q, c) # cs'" using Cons.prems(2) by (cases cs) auto
  have "p = q" "b = c" using Cons.prems by (simp_all add: bs cs)
  then show ?case using Cons.IH [of "Some (deKey (last (dbEntries b)))" bs' "Some (deKey (last (dbEntries c)))" cs'] Cons.prems by (simp add: bs cs)
qed

lemma tallies_decoded: "rawBytesOf (map decodedOf es) = rawOf es" "deletionsOf (map decodedOf es) = deletesOf es"
  by (simp_all add: rawBytesOf_def rawOf_def deletionsOf_def deletesOf_def comp_def filter_map)

text \<open>The metadata of a table with these entries, from the fields of the writer.\<close>

definition streamMetadata :: "SstWriter \<Rightarrow> nat \<Rightarrow> SstMetadata" where
  "streamMetadata w blocks = (tableMetadata w (swSmallestKey w) (swLastKey w))
     \<lparr>sstFileNumber := 0, sstFileSize := 0, sstDataBlockCount := word_of_nat blocks\<rparr>"

lemma validateDataStream_written:
  assumes ch: "tableChain f bloom None index bs" and ent: "blockEntries bs = map decodedOf es" and es: "es \<noteq> []"
    and co: "countersOk w es" and sz: "list_all entrySized es"
  shows "\<exists>crcs. validateDataStream f bloom index (diskMetadata w) = Inr (streamMetadata w (length index), crcs)"
proof -
  let ?s0 = "\<lparr>ssCount = 0, ssDeletions = 0, ssRaw = 0, ssFirst = None, ssLast = None, ssCRCs = []\<rparr>"
  have cnt: "unat (swEntryCount w) = length es" "unat (swDeletionCount w) = deletesOf es" "unat (swRawBytes w) = rawOf es"
    and keys: "swLastKey w = entryKey (last es)" "swSmallestKey w = entryKey (hd es)"
      "swSmallestUser w = userKey (entryKey (hd es))" "swLargestUser w = userKey (entryKey (last es))"
    using co es by (auto simp: countersOk_def)
  have small: "length es < 2 ^ 64" "rawOf es < 2 ^ 64"
    using unsigned_less [of "swEntryCount w", where ?'a = nat] unsigned_less [of "swRawBytes w", where ?'a = nat] cnt by simp_all
  obtain s where s: "streamBlocks f bloom index ?s0 = Inr s"
    using streamBlocks_succeeds [of f bloom ?s0 index bs] ch small by (auto simp: ent tallies_decoded)
  have bne: "bs \<noteq> []" using ent es by auto
  have res: "ssFirst s = firstOf (blockEntries bs)" "ssLast s = Some (last (blockEntries bs))" "unat (ssCount s) = length (blockEntries bs)"
    "unat (ssDeletions s) = deletionsOf (blockEntries bs)" "unat (ssRaw s) = rawBytesOf (blockEntries bs)"
    using streamBlocks_ok [OF s] tableChain_unique [OF ch] bne by force+
  have w: "ssCount s = swEntryCount w" "ssDeletions s = swDeletionCount w" "ssRaw s = swRawBytes w"
    using res(3-5) cnt by (simp_all add: word_unat_eq_iff ent tallies_decoded)
  have fl: "ssFirst s = Some (decodedOf (hd es))" "ssLast s = Some (decodedOf (last es))"
    using res(1,2) es by (auto simp: ent firstOf_map last_map firstOf_def split: list.splits)
  have "entrySized (hd es)" "entrySized (last es)" using sz es by (auto simp: list_all_iff)
  then have cl: "cloneInternalKey (entryKey (hd es)) = Inr (entryKey (hd es))" "cloneInternalKey (entryKey (last es)) = Inr (entryKey (last es))"
    by (simp_all add: cloneInternalKey_ok entrySized_def)
  show ?thesis
    by (simp add: validateDataStream_def s fl w cl keys diskMetadata_def streamMetadata_def tableMetadata_def)
qed

lemma readFilter_written:
  assumes lay: "tableLayout w bts file ih mh fh fb" and bl: "\<forall>e\<in>set es. hashBloomKey (userKey (entryKey e)) \<in> set (swBloomHashes w)"
    and limit: "unat footerOffset = length file - FooterSize"
  shows "\<exists>bloom. readFilter (readBytes file) \<lparr>fsIndex = ih, fsMetadata = mh, fsFilter = fh, fsDataEnd = dataEnd\<rparr> footerOffset = Inr bloom \<and>
    list_all (\<lambda>e. mayContain bloom (userKey (entryKey e))) es"
proof (cases "swEnableBloom w")
  case True
  let ?pre = "dataFile bts @ appendBlockTrailer (encodeIndex w) BlockIndex @ appendBlockTrailer (encodeMetadata w) BlockMetadata"
  let ?foot = "encodeFooter ih mh fh (word_of_nat (length (dataFile bts)))"
  obtain payload where p: "encodeBloom (swBloomHashes w) = Inr payload" "fb = appendBlockTrailer payload BlockFilter"
    "unat (hOffset fh) = length ?pre" "unat (hLength fh) = length payload + BlockTrailerSize"
    using lay True by (auto simp: tableLayout_def)
  have bytes: "file = ?pre @ appendBlockTrailer payload BlockFilter @ ?foot" "length file \<le> MaxTableSize"
    using lay unfolding tableLayout_def p(2) append_assoc by blast+
  have fo: "unat footerOffset = length ?pre + length payload + BlockTrailerSize"
    using limit arg_cong [OF bytes(1), of length] by simp
  then have "unat footerOffset \<le> MaxTableSize" using limit bytes(2) by simp
  then have "readBlockUnlocked (readBytes file) fh BlockFilter footerOffset = Inr payload"
    using readBlock_written [OF bytes p(3,4), of footerOffset] fo by simp
  moreover have "hLength fh \<noteq> 0" using p(4) by (auto simp: BlockTrailerSize_def)
  moreover obtain bloom where "decodeBloom payload = Inr bloom" "\<forall>key. hashBloomKey key \<in> set (swBloomHashes w) \<longrightarrow> mayContain bloom key"
    using decodeBloom_encoded(1) [OF p(1)] by blast
  ultimately show ?thesis using bl by (simp add: readFilter_def list_all_iff)
next
  case False
  then have "fh = noHandle" using lay by (simp add: tableLayout_def)
  then show ?thesis by (simp add: readFilter_def noHandle_def noBloom_def mayContain_def list_all_iff)
qed

lemma footer_written:
  assumes lay: "tableLayout w bts file ih mh fh fb"
  shows "unat (word_of_nat (length file) - word_of_nat FooterSize :: u64) = length file - FooterSize" "FooterSize \<le> length file"
    and "readAtExact (readBytes file) (word_of_nat (length file) - word_of_nat FooterSize) FooterSize =
      Inr (encodeFooter ih mh fh (word_of_nat (length (dataFile bts))))"
    and "decodeFooter (encodeFooter ih mh fh (word_of_nat (length (dataFile bts)))) (word_of_nat (length file) - word_of_nat FooterSize) =
      Inr \<lparr>fsIndex = ih, fsMetadata = mh, fsFilter = fh, fsDataEnd = word_of_nat (length (dataFile bts))\<rparr>"
proof -
  let ?foot = "encodeFooter ih mh fh (word_of_nat (length (dataFile bts)))"
  let ?pre = "dataFile bts @ appendBlockTrailer (encodeIndex w) BlockIndex @ appendBlockTrailer (encodeMetadata w) BlockMetadata @ fb"
  have fl: "file = ?pre @ ?foot" and le: "length file \<le> MaxTableSize" using lay unfolding tableLayout_def append_assoc by blast+
  show F: "FooterSize \<le> length file" unfolding fl by simp
  then have "(word_of_nat (length file) - word_of_nat FooterSize :: u64) = word_of_nat (length file - FooterSize)" by (simp add: of_nat_diff)
  then show off: "unat (word_of_nat (length file) - word_of_nat FooterSize :: u64) = length file - FooterSize"
    using le by (simp only:) (rule unat_size, simp)
  have "slice (length ?pre) (length ?pre + FooterSize) (?pre @ ?foot) = ?foot"
    by (subst slice_append_right) simp_all
  moreover have "length file - FooterSize = length ?pre" using arg_cong [OF fl, of length] by simp
  ultimately have "slice (length file - FooterSize) (length file - FooterSize + FooterSize) file = ?foot" using fl by metis
  then show "readAtExact (readBytes file) (word_of_nat (length file) - word_of_nat FooterSize) FooterSize = Inr ?foot"
    using readAtExact_bytes [of "word_of_nat (length file) - word_of_nat FooterSize" FooterSize "file"] off F le by simp
  have ih: "unat (hOffset ih) = length (dataFile bts)" "unat (hLength ih) = length (encodeIndex w) + BlockTrailerSize"
    "unat (hOffset mh) = length (dataFile bts) + length (encodeIndex w) + BlockTrailerSize"
    "unat (hLength mh) = length (encodeMetadata w) + BlockTrailerSize"
    using lay unfolding tableLayout_def by blast+
  have d: "word_of_nat (length (dataFile bts)) = hOffset ih"
    using unat_size [of "length (dataFile bts)"] ih(1) le unfolding fl by (simp add: word_unat_eq_iff)
  have fo: "unat (word_of_nat (length file) - word_of_nat FooterSize :: u64) =
      length (dataFile bts) + length (encodeIndex w) + length (encodeMetadata w) + 2 * BlockTrailerSize + length fb"
    using off arg_cong [OF fl, of length] by simp
  show "decodeFooter ?foot (word_of_nat (length file) - word_of_nat FooterSize) =
      Inr \<lparr>fsIndex = ih, fsMetadata = mh, fsFilter = fh, fsDataEnd = word_of_nat (length (dataFile bts))\<rparr>"
  proof (cases "swEnableBloom w")
    case True
    then obtain payload where p: "encodeBloom (swBloomHashes w) = Inr payload" "fb = appendBlockTrailer payload BlockFilter"
      "unat (hOffset fh) = length (dataFile bts) + length (encodeIndex w) + length (encodeMetadata w) + 2 * BlockTrailerSize"
      "unat (hLength fh) = length payload + BlockTrailerSize"
      using lay by (auto simp: tableLayout_def)
    have "hLength fh \<noteq> 0" using p(4) by (auto simp: BlockTrailerSize_def)
    then show ?thesis
      using ih p fo d off le decodeBloom_encoded(2,3) [OF p(1)] by (intro decodeFooter_encoded) simp_all
  next
    case False
    then have "fb = []" "fh = noHandle" using lay by (simp_all add: tableLayout_def)
    moreover from this have "hLength fh = 0" by (simp add: noHandle_def)
    ultimately show ?thesis using ih fo d off le by (intro decodeFooter_encoded) simp_all
  qed
qed

lemma counters_positive:
  assumes "countersOk w es" "es \<noteq> []"
  shows "swEntryCount w \<noteq> 0" "swDeletionCount w \<le> swEntryCount w"
  using assms by (auto simp: countersOk_def word_le_nat_alt deletesOf_def)

lemma tableLayout_handles:
  assumes "tableLayout w bts file ih mh fh fb"
  shows "unat (hOffset ih) = length (dataFile bts)" "unat (hLength ih) = length (encodeIndex w) + BlockTrailerSize"
    "unat (hOffset mh) = length (dataFile bts) + length (encodeIndex w) + BlockTrailerSize"
    "unat (hLength mh) = length (encodeMetadata w) + BlockTrailerSize" "length file \<le> MaxTableSize"
    "file = dataFile bts @ appendBlockTrailer (encodeIndex w) BlockIndex @ appendBlockTrailer (encodeMetadata w) BlockMetadata @
       fb @ encodeFooter ih mh fh (word_of_nat (length (dataFile bts)))"
  using assms unfolding tableLayout_def by blast+

lemma written_index:
  assumes ok: "writerOk w bts []" and ne: "bts \<noteq> []" and lay: "tableLayout w bts file ih mh fh fb"
  shows "readBlockUnlocked (readBytes file) ih BlockIndex (word_of_nat (length file) - word_of_nat FooterSize) = Inr (encodeIndex w)"
    and "decodeIndex (encodeIndex w) = Inr (map diEntry (indexOf 0 bts))" "map diEntry (indexOf 0 bts) \<noteq> []"
proof -
  note tl = writerOk_tail [OF ok ne] and foot = footer_written [OF lay] and hs = tableLayout_handles [OF lay]
  show "readBlockUnlocked (readBytes file) ih BlockIndex (word_of_nat (length file) - word_of_nat FooterSize) = Inr (encodeIndex w)"
    using hs foot(1) arg_cong [OF hs(6), of length] by (intro readBlock_written [OF hs(6,5)]) simp_all
  have ix: "indexOf 0 bts \<noteq> []" using ne by (cases bts) auto
  then show "map diEntry (indexOf 0 bts) \<noteq> []" by simp
  have "swIndex w = map ixEntry (indexOf 0 bts)" "length (indexOf 0 bts) < 2 ^ 32" using ok by (auto simp: writerOk_def blocksOk_def)
  then show "decodeIndex (encodeIndex w) = Inr (map diEntry (indexOf 0 bts))"
    using ix tl(5,6) by (intro decodeIndex_encoded) auto
qed

lemma written_metadata:
  assumes ok: "writerOk w bts []" and ne: "bts \<noteq> []" and lay: "tableLayout w bts file ih mh fh fb"
  shows "readBlockUnlocked (readBytes file) mh BlockMetadata (word_of_nat (length file) - word_of_nat FooterSize) = Inr (encodeMetadata w)"
    and "decodeMetadata (encodeMetadata w) = Inr (diskMetadata w)" "unat (hLength mh) \<le> maximumMetadata"
    and "unat (dmDataBlockCount (diskMetadata w)) = length bts"
proof -
  note tl = writerOk_tail [OF ok ne] and foot = footer_written [OF lay] and hs = tableLayout_handles [OF lay]
  note cb = counters_bounds [OF tl(1,4,2,3)]
  have bl: "length (swIndex w) = length bts" "length bts < 2 ^ 32" using ok by (auto simp: writerOk_def blocksOk_def)
  have fl: "file = (dataFile bts @ appendBlockTrailer (encodeIndex w) BlockIndex) @ appendBlockTrailer (encodeMetadata w) BlockMetadata @
      (fb @ encodeFooter ih mh fh (word_of_nat (length (dataFile bts))))" using hs(6) by simp
  show "readBlockUnlocked (readBytes file) mh BlockMetadata (word_of_nat (length file) - word_of_nat FooterSize) = Inr (encodeMetadata w)"
    using hs(1-5) foot(1) arg_cong [OF hs(6), of length] by (intro readBlock_written [OF fl hs(5)]) simp_all
  have "swIndex w \<noteq> []" using bl(1) ne by (metis length_0_conv)
  then show "decodeMetadata (encodeMetadata w) = Inr (diskMetadata w)"
    using cb counters_positive [OF tl(1,4)] bl by (intro decodeMetadata_encoded) auto
  show "unat (hLength mh) \<le> maximumMetadata" using length_encodeMetadata [OF cb(1,2,4,5)] hs(4) by simp
  show "unat (dmDataBlockCount (diskMetadata w)) = length bts" using bl by (simp add: diskMetadata_def)
qed

lemma written_stream:
  assumes ok: "writerOk w bts []" and ne: "bts \<noteq> []" and lay: "tableLayout w bts file ih mh fh fb"
  shows "\<exists>bloom bs crcs.
    readFilter (readBytes file) \<lparr>fsIndex = ih, fsMetadata = mh, fsFilter = fh, fsDataEnd = word_of_nat (length (dataFile bts))\<rparr>
      (word_of_nat (length file) - word_of_nat FooterSize) = Inr bloom \<and>
    validateDataHandles 0 (map diEntry (indexOf 0 bts)) (word_of_nat (length (dataFile bts))) = Inr () \<and>
    tableChain (readBytes file) bloom None (map diEntry (indexOf 0 bts)) bs \<and> blockEntries bs = map decodedOf (concat (map snd bts)) \<and>
    validateDataStream (readBytes file) bloom (map diEntry (indexOf 0 bts)) (diskMetadata w) = Inr (streamMetadata w (length bts), crcs)"
proof -
  note tl = writerOk_tail [OF ok ne] and foot = footer_written [OF lay] and hs = tableLayout_handles [OF lay]
  have bb: "list_all blockBuilt bts" using ok by (simp add: writerOk_def blocksOk_def)
  have "\<forall>e\<in>set (concat (map snd bts)). hashBloomKey (userKey (entryKey e)) \<in> set (swBloomHashes w)"
    using tl(1) unfolding countersOk_def by blast
  then obtain bloom where rf: "readFilter (readBytes file) \<lparr>fsIndex = ih, fsMetadata = mh, fsFilter = fh, fsDataEnd = word_of_nat (length (dataFile bts))\<rparr>
      (word_of_nat (length file) - word_of_nat FooterSize) = Inr bloom"
    "list_all (\<lambda>e. mayContain bloom (userKey (entryKey e))) (concat (map snd bts))"
    using readFilter_written [OF lay _ foot(1)] by blast
  have "length (dataFile bts) \<le> length file" using arg_cong [OF hs(6), of length] by simp
  then have vh: "validateDataHandles 0 (map diEntry (indexOf 0 bts)) (word_of_nat (length (dataFile bts))) = Inr ()"
    using validateDataHandles_written [of 0 bts] hs(5) by simp
  have fl: "file = [] @ dataFile bts @ (appendBlockTrailer (encodeIndex w) BlockIndex @ appendBlockTrailer (encodeMetadata w) BlockMetadata @
       fb @ encodeFooter ih mh fh (word_of_nat (length (dataFile bts))))" using hs(6) by simp
  obtain bs where bs: "tableChain (readBytes file) bloom None (map diEntry (indexOf 0 bts)) bs" "blockEntries bs = map decodedOf (concat (map snd bts))"
    using tableChain_written [OF bb tl(2) fl hs(5) rf(2), of None] by auto
  then show ?thesis using rf(1) vh validateDataStream_written [OF bs tl(4,1,3)] by auto
qed

lemma openReader_written:
  fixes limit :: u64
  assumes ok: "writerOk w bts []" and ne: "bts \<noteq> []" and lay: "tableLayout w bts file ih mh fh fb"
    and limit: "length (encodeIndex w) + BlockTrailerSize \<le> unat (if limit = 0 then DefaultMaxIndexBlockSize else limit)"
  shows "\<exists>r. openReader (readBytes file) (word_of_nat (length file)) base limit = Inr r \<and>
    tableEntries (readBytes file) r = concat (map snd bts) \<and>
    srMetadata r = (streamMetadata w (length bts))\<lparr>sstFileNumber := parseFileNumber base, sstFileSize := word_of_nat (length file)\<rparr>"
proof -
  let ?f = "readBytes file" and ?es = "concat (map snd bts)" and ?index = "map diEntry (indexOf 0 bts)"
  note foot = footer_written [OF lay] and hs = tableLayout_handles [OF lay]
  note ix = written_index [OF ok ne lay] and md = written_metadata [OF ok ne lay]
  obtain bloom bs crcs where st: "readFilter ?f \<lparr>fsIndex = ih, fsMetadata = mh, fsFilter = fh, fsDataEnd = word_of_nat (length (dataFile bts))\<rparr>
      (word_of_nat (length file) - word_of_nat FooterSize) = Inr bloom"
    "validateDataHandles 0 ?index (word_of_nat (length (dataFile bts))) = Inr ()"
    "tableChain ?f bloom None ?index bs" "blockEntries bs = map decodedOf ?es"
    "validateDataStream ?f bloom ?index (diskMetadata w) = Inr (streamMetadata w (length bts), crcs)"
    using written_stream [OF ok ne lay] by blast
  have small: "\<not> unat (word_of_nat (length file) :: u64) < FooterSize" "\<not> unat (word_of_nat (length file) :: u64) > MaxTableSize"
    using unat_size [OF hs(5)] foot(2) hs(5) by simp_all
  have il: "\<not> hLength ih > (if limit = 0 then DefaultMaxIndexBlockSize else limit)"
    "\<not> unat (if limit = 0 then DefaultMaxIndexBlockSize else limit) < BlockTrailerSize"
    using limit hs(2) by (simp_all add: word_less_nat_alt)
  define r where "r = \<lparr>srBase = base, srSize = word_of_nat (length file), srIndex = ?index, srDataCRCs = crcs,
     srMetadata = (streamMetadata w (length bts))\<lparr>sstFileNumber := parseFileNumber base, sstFileSize := word_of_nat (length file)\<rparr>,
     srBloom = bloom, srMaxIndex = (if limit = 0 then DefaultMaxIndexBlockSize else limit), srClosed = False\<rparr>"
  have opn: "openReader ?f (word_of_nat (length file)) base limit = Inr r"
    unfolding openReader_def Let_def foot(3) foot(4) bindR_simps FooterState.select_convs ix(1,2) md(1,2) st(1,2,5) prod.case
    using small il md(3,4) ix(3) st(2) by (simp add: r_def)
  obtain cs where cs: "readerOk ?f r cs" using openReader_ok [OF opn] by blast
  then have "tableChain ?f bloom None ?index cs" by (simp add: readerOk_def r_def)
  then have "cs = bs" using tableChain_unique st(3) by blast
  then have "tableEntries ?f r = map keyed (map decodedOf ?es)" using tableEntries_blocks [OF cs] st(4) by simp
  then have "tableEntries ?f r = ?es" by (simp add: comp_def)
  then show ?thesis using opn by (simp add: r_def)
qed

text \<open>An index block above the reader's limit is refused before anything else is read.\<close>

lemma openReader_large:
  fixes limit :: u64
  assumes lay: "tableLayout w bts file ih mh fh fb"
    and limit: "unat (if limit = 0 then DefaultMaxIndexBlockSize else limit) < length (encodeIndex w) + BlockTrailerSize"
  shows "openReader (readBytes file) (word_of_nat (length file)) base limit = Inl SstResourceLimit"
proof -
  note foot = footer_written [OF lay] and hs = tableLayout_handles [OF lay]
  have "\<not> unat (word_of_nat (length file) :: u64) < FooterSize" "\<not> unat (word_of_nat (length file) :: u64) > MaxTableSize"
    using unat_size [OF hs(5)] foot(2) hs(5) by simp_all
  moreover have "hLength ih > (if limit = 0 then DefaultMaxIndexBlockSize else limit)"
    using limit hs(2) by (simp add: word_less_nat_alt)
  ultimately show ?thesis
    unfolding openReader_def Let_def foot(3) foot(4) bindR_simps FooterState.select_convs by simp
qed

section \<open>Publication\<close>

text \<open>Nothing before the rename touches the final path, the number of the file or the flag of \<open>Finish\<close>.\<close>

definition swPaths :: "SstWriter \<Rightarrow> bytes option \<times> u64 \<times> bool" where
  "swPaths w = (swFinal w, swFileNumber w, swFinished w)"

lemma sstPoison_paths [simp]: "swPaths (fst (sstPoison e w)) = swPaths w"
  by (simp add: sstPoison_def swPaths_def split: option.splits)

lemma sstWriteAll_paths [simp]: "swPaths (fst (sstWriteAll w data)) = swPaths w"
proof (induction w data rule: sstWriteAll.induct)
  case (1 w data)
  obtain f n err where f: "fileWrite (swFile w) data = (f, n, err)" by (metis prod_cases3)
  have "swPaths (w\<lparr>swFile := f\<rparr>) = swPaths w" "swPaths (w\<lparr>swFile := f, swOffset := x\<rparr>) = swPaths w" for x
    by (simp_all add: swPaths_def)
  then show ?case
    using "1.IH" [OF _ f [symmetric] refl refl] f by (simp add: sstWriteAll.simps [of w data] Let_def)
qed

lemma andThen_paths:
  assumes "swPaths (fst r) = x" "\<And>s a. swPaths s = x \<Longrightarrow> swPaths (fst (f s a)) = x"
  shows "swPaths (fst (andThen r f)) = x"
  using assms by (cases r; cases "snd r") auto

lemma writeBlock_paths [simp]: "swPaths (fst (writeBlock p k w)) = swPaths w"
  by (auto simp: writeBlock_def Let_def intro!: andThen_paths split: option.splits)

lemma flushDataBlock_paths [simp]: "swPaths (fst (flushDataBlock w)) = swPaths w"
  by (auto simp: flushDataBlock_def Let_def swPaths_def [of "_\<lparr>swIndex := _, swBlock := _\<rparr>"] intro!: andThen_paths)
     (simp add: swPaths_def)

lemma recordEntry_paths [simp]: "swPaths (fst (recordEntry k enc v w)) = swPaths w"
proof -
  have "swFinal (fst (recordEntry k enc v w)) = swFinal w \<and> swFileNumber (fst (recordEntry k enc v w)) = swFileNumber w \<and>
      swFinished (fst (recordEntry k enc v w)) = swFinished w"
    by (simp add: recordEntry_def Let_def sstPoison_def split: option.splits sum.splits)
  then show ?thesis by (simp add: swPaths_def)
qed

lemma swBlock_paths [simp]: "swPaths (w\<lparr>swBlock := b\<rparr>) = swPaths w"
  by (simp add: swPaths_def)

lemma sstAdd_paths [simp]: "swPaths (fst (sstAdd k v w)) = swPaths w"
  unfolding sstAdd_def Let_def by (auto intro!: andThen_paths split: option.splits)

lemma sstAddAll_paths: "swPaths (fst (sstAddAll es w)) = swPaths w"
proof (induction es arbitrary: w)
  case (Cons e es)
  obtain w1 r where w1: "sstAdd (entryKey e) (entryValue e) w = (w1, r)" by (metis prod.exhaust)
  have "swPaths w1 = swPaths w" using arg_cong [OF w1, of "\<lambda>x. swPaths (fst x)"] by simp
  then show ?case using w1 Cons.IH [of w1] by (auto split: sum.splits prod.splits)
qed simp

lemma writeTail_paths: "swPaths (fst (writeTail w)) = swPaths w"
proof -
  have "swPaths (fst (writeFilter u)) = swPaths u" for u by (simp add: writeFilter_def split: sum.splits)
  then show ?thesis unfolding writeTail_def by (intro andThen_paths) simp_all
qed

text \<open>The calls on paths and on the directory change neither the bytes nor what \<open>Finish\<close> reports.\<close>

definition tableView :: "SstWriter \<Rightarrow> bytes \<times> InternalKey \<times> InternalKey \<times> (InternalKey \<Rightarrow> InternalKey \<Rightarrow> SstMetadata) \<times> bytes" where
  "tableView w = (contents (swFile w), swSmallestKey w, swLastKey w, tableMetadata w, encodeIndex w)"

lemmas tableView_defs = tableView_def tableMetadata_def encodeIndex_def fun_eq_iff

lemma fileOp_view: "fileOp w = (w', failed) \<Longrightarrow> tableView w' = tableView w \<and> swFinal w' = swFinal w"
  by (cases "syncPlan (swFile w)") (auto simp: fileOp_def fileCall_def Let_def tableView_defs)

lemma takeSstOp_view: "takeSstOp w = (w', failed) \<Longrightarrow> tableView w' = tableView w \<and> swFinal w' = swFinal w"
  by (cases "swOps w") (auto simp: takeSstOp_def tableView_defs)

lemma sstPoison_view: "sstPoison e w = (w', r) \<Longrightarrow> tableView w' = tableView w \<and> swFinal w' = swFinal w \<and> isl r"
  by (cases "swFailed w") (auto simp: sstPoison_def tableView_defs)

lemma update_view: "tableView (w\<lparr>swFileClosed := x\<rparr>) = tableView w" "tableView (w\<lparr>swTemp := y, swFinal := z\<rparr>) = tableView w"
  by (simp_all add: tableView_defs)

lemma publishTable_final:
  assumes "swFinal w = None" "publishTable w = (w', res)"
  shows "tableView w' = tableView w \<and> (swFinal w' = None \<and> isl res \<or> swFinal w' = Some (contents (swFile w)))"
proof -
  obtain w1 f1 where w1: "fileOp w = (w1, f1)" by (metis prod.exhaust)
  obtain w2 f2 where w2: "fileOp w1 = (w2, f2)" by (metis prod.exhaust)
  obtain w3 f3 where w3: "takeSstOp (w2\<lparr>swFileClosed := True\<rparr>) = (w3, f3)" by (metis prod.exhaust)
  let ?u = "w3\<lparr>swTemp := False, swFinal := Some (contents (swFile w3))\<rparr>"
  obtain w4 f4 where w4: "takeSstOp ?u = (w4, f4)" by (metis prod.exhaust)
  obtain w5 f5 where w5: "takeSstOp w4 = (w5, f5)" by (metis prod.exhaust)
  obtain w6 f6 where w6: "takeSstOp w5 = (w6, f6)" by (metis prod.exhaust)
  have v: "tableView w1 = tableView w" "swFinal w1 = None" "tableView w2 = tableView w" "swFinal w2 = None"
    "tableView w3 = tableView w" "swFinal w3 = None"
    using fileOp_view [OF w1] fileOp_view [OF w2] takeSstOp_view [OF w3] assms(1) by (simp_all add: update_view)
  then have c: "contents (swFile w3) = contents (swFile w)" by (simp add: tableView_def)
  have v': "tableView w4 = tableView w" "tableView w5 = tableView w" "tableView w6 = tableView w"
    "swFinal w4 = Some (contents (swFile w))" "swFinal w5 = Some (contents (swFile w))" "swFinal w6 = Some (contents (swFile w))"
    using takeSstOp_view [OF w4] takeSstOp_view [OF w5] takeSstOp_view [OF w6] v c by (simp_all add: update_view)
  have pub: "publishTable w =
      (if f1 then sstPoison (SstIO ''sync'') w1
       else if f2 then sstPoison (SstIO ''close'') (w2\<lparr>swFileClosed := True\<rparr>)
       else if f3 then sstPoison (SstIO ''rename'') w3
       else if f4 then sstPoison (SstIO ''open directory'') w4
       else if f5 then sstPoison (if f6 then SstJoin (SstIO ''sync directory'') (SstIO ''close directory'') else SstIO ''sync directory'') w6
       else if f6 then sstPoison (SstIO ''close directory'') w6 else (w6, Inr ()))"
    by (simp add: publishTable_def w1 w2 w3 w4 w5 w6 Let_def)
  show ?thesis
    using assms(2) v v' unfolding pub by (auto split: if_splits dest!: sstPoison_view simp: update_view)
qed

lemma swPaths_step:
  assumes "op = (w', r)" "swPaths (fst op) = swPaths w"
  shows "swFinal w' = swFinal w" "swFileNumber w' = swFileNumber w" "swFinished w' = swFinished w"
  using assms by (simp_all add: swPaths_def)

lemma published_metadata:
  assumes ok: "writerOk w1 bts []" and ne: "bts \<noteq> []" and w2: "w2 = w1\<lparr>swFile := f, swOffset := word_of_nat (length (contents f))\<rparr>"
    and v: "tableView w3 = tableView w2"
  shows "encodeIndex w3 = encodeIndex w1" "cloneInternalKey (swSmallestKey w3) = Inr (swSmallestKey w1)"
    and "cloneInternalKey (swLastKey w3) = Inr (swLastKey w1)"
    and "tableMetadata w3 (swSmallestKey w1) (swLastKey w1) =
      (streamMetadata w1 (length bts))\<lparr>sstFileNumber := swFileNumber w1, sstFileSize := word_of_nat (length (contents f))\<rparr>"
proof -
  note tl = writerOk_tail [OF ok ne]
  note cb = counters_bounds [OF tl(1,4,2,3)]
  have v': "swSmallestKey w3 = swSmallestKey w1" "swLastKey w3 = swLastKey w1" "tableMetadata w3 = tableMetadata w2" "encodeIndex w3 = encodeIndex w2"
    using v by (simp_all add: tableView_def w2)
  show "encodeIndex w3 = encodeIndex w1" using v'(4) by (simp add: w2 encodeIndex_def)
  show "cloneInternalKey (swSmallestKey w3) = Inr (swSmallestKey w1)" "cloneInternalKey (swLastKey w3) = Inr (swLastKey w1)"
    using v' cb(1,2) by (simp_all add: cloneInternalKey_ok keySized_def)
  have "length (swIndex w1) = length bts" using ok by (simp add: writerOk_def blocksOk_def)
  then show "tableMetadata w3 (swSmallestKey w1) (swLastKey w1) =
      (streamMetadata w1 (length bts))\<lparr>sstFileNumber := swFileNumber w1, sstFileSize := word_of_nat (length (contents f))\<rparr>"
    unfolding v'(3) by (simp add: w2 tableMetadata_def streamMetadata_def)
qed

lemma finish_state:
  assumes "writerOk w bts cur" "Finish w = (w', res)"
  shows "Finish w = (if concat (map snd bts) @ cur = [] then (w, Inl SstEmptyTable) else finishTable w)"
proof -
  have "stateError w = None" "swHaveEntry w = (concat (map snd bts) @ cur \<noteq> [])"
    using assms(1) by (auto simp: writerOk_def countersOk_def)
  moreover from this have "\<not> swFinished w" by (auto simp: stateError_def split: if_splits)
  ultimately show ?thesis by (simp add: Finish_def split: option.splits)
qed

lemma finishTable_final:
  assumes ok: "writerOk w bts cur" and es: "concat (map snd bts) @ cur \<noteq> []" and none: "swFinal w = None" and fin: "finishTable w = (w', res)"
  shows "swFinal w' = None \<and> isl res \<or>
    (\<exists>v bts' file ih mh fh fb. writerOk v bts' [] \<and> bts' \<noteq> [] \<and> concat (map snd bts') = concat (map snd bts) @ cur \<and>
       swFinal w' = Some file \<and> tableLayout v bts' file ih mh fh fb \<and> encodeIndex w' = encodeIndex v \<and>
       (\<forall>meta. res = Inr meta \<longrightarrow>
          meta = (streamMetadata v (length bts'))\<lparr>sstFileNumber := swFileNumber w, sstFileSize := word_of_nat (length file)\<rparr>))"
proof -
  obtain w1 r1 where w1: "flushDataBlock w = (w1, r1)" by (metis prod.exhaust)
  have p1: "swFinal w1 = None" "swFileNumber w1 = swFileNumber w"
    using swPaths_step [OF w1] none by simp_all
  show ?thesis
  proof (cases r1)
    case (Inl e)
    then show ?thesis using fin w1 p1 by (auto simp: finishTable_def)
  next
    case (Inr u)
    then have "flushDataBlock w = (w1, Inr ())" using w1 by simp
    then obtain bts' where ok1: "writerOk w1 bts' []" and es1: "concat (map snd bts') = concat (map snd bts) @ cur"
      using flushDataBlock_ok [OF ok] ok by fastforce
    have ne: "bts' \<noteq> []" using es unfolding es1 [symmetric] by (cases bts') simp_all
    obtain w2 r2 where w2: "writeTail w1 = (w2, r2)" by (metis prod.exhaust)
    have p2: "swFinal w2 = None" "swFileNumber w2 = swFileNumber w"
      using swPaths_step [OF w2] writeTail_paths p1 by simp_all
    show ?thesis
    proof (cases r2)
      case (Inl e)
      then show ?thesis using fin w1 w2 Inr p2 by (auto simp: finishTable_def)
    next
      case r2: (Inr u)
      then have "writeTail w1 = (w2, Inr ())" using w2 by simp
      then obtain f ih mh fh fb where f: "w2 = w1\<lparr>swFile := f, swOffset := word_of_nat (length (contents f))\<rparr>"
        and lay: "tableLayout w1 bts' (contents f) ih mh fh fb" using writeTail_ok [OF ok1 ne] by blast
      obtain w3 r3 where w3: "publishTable w2 = (w3, r3)" by (metis prod.exhaust)
      have v3: "tableView w3 = tableView w2" "swFinal w3 = None \<and> isl r3 \<or> swFinal w3 = Some (contents f)"
        using publishTable_final [OF p2(1) w3] f by auto
      note pm = published_metadata [OF ok1 ne f v3(1)]
      have end': "encodeIndex w' = encodeIndex w1 \<and> swFinal w' = swFinal w3 \<and> (isl r3 \<longrightarrow> isl res) \<and> (\<forall>meta. res = Inr meta \<longrightarrow>
          meta = tableMetadata w3 (swSmallestKey w1) (swLastKey w1))"
        using fin w1 Inr w2 r2 w3 pm(1-3) by (cases r3) (auto simp: finishTable_def Let_def encodeIndex_def)
      show ?thesis
      proof (cases "swFinal w3")
        case None
        then show ?thesis using end' v3(2) by auto
      next
        case (Some c)
        then have "swFinal w' = Some (contents f)" using end' v3(2) by simp
        then show ?thesis
          using ok1 ne es1 lay end' pm(4) p1(2)
          by (intro disjI2 exI [of _ w1] exI [of _ bts'] exI [of _ "contents f"] exI [of _ ih] exI [of _ mh] exI [of _ fh] exI [of _ fb]) simp
      qed
    qed
  qed
qed

section \<open>A file system that performs every call\<close>

definition plainFiles :: "SstWriter \<Rightarrow> bool" where
  "plainFiles w \<longleftrightarrow> writePlan (swFile w) = [] \<and> syncPlan (swFile w) = [] \<and> swOps w = []"

lemma sstWriteAll_plain:
  assumes "plainFiles w"
  shows "sstWriteAll w data =
    (w\<lparr>swFile := (swFile w)\<lparr>contents := contents (swFile w) @ data\<rparr>, swOffset := swOffset w + word_of_nat (length data)\<rparr>, Inr ())"
proof (cases "data = []")
  case False
  then show ?thesis using assms
    by (simp add: plainFiles_def sstWriteAll.simps [of w data] sstWriteAll.simps [of _ "[]"] fileWrite_def)
qed (simp add: sstWriteAll.simps [of w])

lemma writeBlock_plain:
  assumes "plainFiles w" "unat (swOffset w) + length p + BlockTrailerSize \<le> MaxTableSize - FooterSize"
  shows "writeBlock p k w =
    (w\<lparr>swFile := (swFile w)\<lparr>contents := contents (swFile w) @ appendBlockTrailer p k\<rparr>,
       swOffset := swOffset w + word_of_nat (length p + BlockTrailerSize)\<rparr>,
     Inr \<lparr>hOffset = swOffset w, hLength = word_of_nat (length p + BlockTrailerSize)\<rparr>)"
proof -
  let ?len = "word_of_nat (length p + BlockTrailerSize) :: u64"
  have "unat ?len = length p + BlockTrailerSize" using assms(2) by (intro unat_of_nat_u64) (simp add: size_defs)
  then have "checkedAdd (swOffset w) ?len = Some (swOffset w + ?len)" "unat (swOffset w + ?len) = unat (swOffset w) + length p + BlockTrailerSize"
    using assms(2) by (auto simp: checkedAdd_iff size_defs intro!: trans [OF unat_add_exact])
  then show ?thesis using assms by (simp add: writeBlock_def Let_def sstWriteAll_plain del: of_nat_add)
qed

lemma andThen_plain:
  assumes "plainFiles (fst r)" "\<And>s a. plainFiles s \<Longrightarrow> plainFiles (fst (f s a))"
  shows "plainFiles (fst (andThen r f))"
  using assms by (cases r; cases "snd r") auto

lemma sstPoison_plain: "plainFiles w \<Longrightarrow> plainFiles (fst (sstPoison e w))"
  by (simp add: sstPoison_def plainFiles_def split: option.splits)

lemma flushDataBlock_plain:
  assumes "plainFiles w"
  shows "plainFiles (fst (flushDataBlock w))"
proof -
  have "plainFiles (fst (sstWriteAll w data))" for data using assms unfolding sstWriteAll_plain [OF assms] by (simp add: plainFiles_def)
  then have "plainFiles (fst (writeBlock p k w))" for p k
    using assms by (auto simp: writeBlock_def Let_def intro!: andThen_plain sstPoison_plain split: option.splits)
  then show ?thesis
    using assms by (auto simp: flushDataBlock_def Let_def plainFiles_def [of "_\<lparr>swIndex := _, swBlock := _\<rparr>"]
        intro!: andThen_plain sstPoison_plain) (simp_all add: plainFiles_def)
qed

lemma recordEntry_plain:
  assumes "plainFiles w"
  shows "plainFiles (fst (recordEntry k enc v w))"
proof -
  have "swFile (fst (recordEntry k enc v w)) = swFile w \<and> swOps (fst (recordEntry k enc v w)) = swOps w"
    by (simp add: recordEntry_def Let_def sstPoison_def split: option.splits sum.splits)
  then show ?thesis using assms by (simp add: plainFiles_def)
qed

lemma sstAdd_plain:
  assumes "plainFiles w"
  shows "plainFiles (fst (sstAdd k v w))"
proof -
  have "plainFiles (w\<lparr>swBlock := b\<rparr>) = plainFiles w" for w b by (simp add: plainFiles_def)
  then show ?thesis
    using assms unfolding sstAdd_def Let_def
    by (auto intro!: andThen_plain sstPoison_plain recordEntry_plain flushDataBlock_plain split: option.splits)
qed

lemma sstAddAll_plain: "plainFiles w \<Longrightarrow> plainFiles (fst (sstAddAll es w))"
proof (induction es arbitrary: w)
  case (Cons e es)
  obtain w1 r where w1: "sstAdd (entryKey e) (entryValue e) w = (w1, r)" by (metis prod.exhaust)
  have "plainFiles w1" using sstAdd_plain [OF Cons.prems, of "entryKey e" "entryValue e"] w1 by simp
  then show ?case using w1 Cons.IH [of w1] by (auto split: sum.splits prod.splits)
qed simp

lemma encodeBloom_fits:
  assumes "length hs \<le> 214748364"
  shows "\<not> isl (encodeBloom hs)"
proof -
  define c0 where "c0 = (word_of_nat (length hs) * bloomBitsPerKey :: u64)"
  define c1 where "c1 = (if c0 < 64 then 64 else c0)"
  define c where "c = (c1 + 7) AND NOT 7"
  have "unat c0 \<le> 2147483640"
    using unat_mult_lem [of "word_of_nat (length hs) :: u64" 10] assms by (simp add: c0_def bloomBitsPerKey_def)
  then have c1: "unat c1 \<le> 2147483640" by (auto simp: c1_def)
  then have "unat (c1 + 7) = unat c1 + 7" by (subst unat_add_exact) auto
  then have c: "unat c = 8 * ((unat c1 + 7) div 8)" unfolding c_def round8 by simp
  have "\<not> c div 8 > maxBloomBytes" "\<not> c > 4294967295"
    using c c1 by (auto simp: word_less_nat_alt unat_div maxBloomBytes_def)
  moreover have "\<not> length hs > 4294967295 div unat bloomBitsPerKey" using assms by (simp add: bloomBitsPerKey_def)
  ultimately show ?thesis
    unfolding encodeBloom_def Let_def c0_def [symmetric] c1_def [symmetric] c_def [symmetric] by simp
qed

lemma flush_plain:
  assumes ok: "writerOk w bts cur" and pl: "plainFiles w" and room: "length bts < 4294967295" "length (dataFile bts) \<le> 2 ^ 61"
  shows "\<exists>w' bts'. flushDataBlock w = (w', Inr ()) \<and> writerOk w' bts' [] \<and> plainFiles w' \<and> length (dataFile bts') \<le> 2 ^ 61 + 2 ^ 30 \<and>
    concat (map snd bts') = concat (map snd bts) @ cur \<and> swEnableBloom w' = swEnableBloom w \<and> swBloomHashes w' = swBloomHashes w"
proof (cases "cur = []")
  case True
  then have "flushDataBlock w = (w, Inr ())" using ok bbEmpty_iff by (auto simp: writerOk_def blocksOk_def flushDataBlock_def)
  then show ?thesis using ok pl room True by (intro exI [of _ w] exI [of _ bts]) simp
next
  case False
  let ?p = "bbFinish (swBlock w)"
  have bl: "blocksOk w bts cur" using ok by (simp add: writerOk_def)
  then have len: "length ?p \<le> MaxDataBlockSize" "length (swIndex w) < 4294967295" "\<not> bbEmpty (swBlock w)"
    using room False bbEmpty_iff by (auto simp: blocksOk_def)
  have off: "unat (swOffset w) = length (dataFile bts)" using bl by (auto simp: blocksOk_def size_defs)
  have "unat (swOffset w) + length ?p + BlockTrailerSize \<le> MaxTableSize - FooterSize" using off len(1) room(2) by (simp add: size_defs)
  note wb = writeBlock_plain [OF pl this, of BlockData]
  define w' where "w' = w\<lparr>swFile := (swFile w)\<lparr>contents := contents (swFile w) @ appendBlockTrailer ?p BlockData\<rparr>,
      swOffset := swOffset w + word_of_nat (length ?p + BlockTrailerSize),
      swIndex := swIndex w @ [\<lparr>ixLastKey = swLastEncoded w, ixHandle = \<lparr>hOffset = swOffset w, hLength = word_of_nat (length ?p + BlockTrailerSize)\<rparr>\<rparr>],
      swBlock := bbReset (swBlock w)\<rparr>"
  have fl: "flushDataBlock w = (w', Inr ())" using len wb by (simp add: flushDataBlock_def Let_def w'_def)
  then have "writerOk w' (bts @ [(?p, cur)]) []" using flushDataBlock_ok [OF ok] False by blast
  moreover have "length (dataFile (bts @ [(?p, cur)])) \<le> 2 ^ 61 + 2 ^ 30" using len(1) room(2) by (simp add: size_defs)
  moreover have "plainFiles w'" using flushDataBlock_plain [OF pl] fl by simp
  ultimately show ?thesis using fl by (intro exI [of _ w'] exI [of _ "bts @ [(?p, cur)]"]) (simp add: w'_def)
qed

lemma writeTail_plain:
  assumes ok: "writerOk w bts []" and ne: "bts \<noteq> []" and pl: "plainFiles w" and room: "length (dataFile bts) \<le> 2 ^ 61 + 2 ^ 30"
    and bloom: "swEnableBloom w \<Longrightarrow> \<not> isl (encodeBloom (swBloomHashes w))"
  shows "\<exists>w'. writeTail w = (w', Inr ()) \<and> plainFiles w'"
proof -
  note tl = writerOk_tail [OF ok ne]
  note cb = counters_bounds [OF tl(1,4,2,3)]
  have bl: "swOffset w = word_of_nat (length (dataFile bts))" "swIndex w = map ixEntry (indexOf 0 bts)" "length bts < 2 ^ 32"
    using ok by (auto simp: writerOk_def blocksOk_def)
  have li: "length (encodeIndex w) < 2 ^ 60" using length_encodeIndex [OF bl(2) _ tl(5)] bl(3) by simp
  have lm: "length (encodeMetadata w) < 2 ^ 30"
    using length_encodeMetadata [OF cb(1,2,4,5)] by (simp add: maximumMetadata_def size_defs)
  let ?d = "length (dataFile bts)" and ?i = "length (encodeIndex w) + BlockTrailerSize" and ?m = "length (encodeMetadata w) + BlockTrailerSize"
  have u: "unat (word_of_nat n :: u64) = n" if "n \<le> 2 ^ 62" for n using that by (intro unat_of_nat_u64) simp
  define w1 where "w1 = w\<lparr>swFile := (swFile w)\<lparr>contents := contents (swFile w) @ appendBlockTrailer (encodeIndex w) BlockIndex\<rparr>, swOffset := word_of_nat (?d + ?i)\<rparr>"
  have "unat (swOffset w) + length (encodeIndex w) + BlockTrailerSize \<le> MaxTableSize - FooterSize"
    using u [of ?d] li room unfolding bl(1) by (simp add: size_defs)
  then have s1: "writeBlock (encodeIndex w) BlockIndex w = (w1, Inr \<lparr>hOffset = swOffset w, hLength = word_of_nat ?i\<rparr>)"
    using writeBlock_plain [OF pl] bl(1) by (simp add: w1_def)
  have p1: "plainFiles w1" "encodeMetadata w1 = encodeMetadata w" using pl by (simp_all add: w1_def plainFiles_def encodeMetadata_def)
  define w2 where "w2 = w1\<lparr>swFile := (swFile w1)\<lparr>contents := contents (swFile w1) @ appendBlockTrailer (encodeMetadata w) BlockMetadata\<rparr>, swOffset := word_of_nat (?d + ?i + ?m)\<rparr>"
  have "unat (swOffset w1) + length (encodeMetadata w) + BlockTrailerSize \<le> MaxTableSize - FooterSize"
    using u [of "?d + ?i"] li lm room by (simp add: w1_def size_defs del: of_nat_add)
  then have s2: "writeBlock (encodeMetadata w1) BlockMetadata w1 = (w2, Inr \<lparr>hOffset = swOffset w1, hLength = word_of_nat ?m\<rparr>)"
    using writeBlock_plain [OF p1(1)] p1(2) by (simp add: w1_def w2_def)
  have p2: "plainFiles w2" "swEnableBloom w2 = swEnableBloom w" "swBloomHashes w2 = swBloomHashes w" "swOffset w2 = word_of_nat (?d + ?i + ?m)"
    using p1(1) by (simp_all add: w2_def w1_def plainFiles_def)
  have "\<exists>w3 fh. writeFilter w2 = (w3, Inr fh) \<and> plainFiles w3"
  proof (cases "swEnableBloom w")
    case True
    then obtain payload where p: "encodeBloom (swBloomHashes w) = Inr payload" using bloom by (cases "encodeBloom (swBloomHashes w)") auto
    have "length payload \<le> 2 ^ 30" using decodeBloom_encoded(3) [OF p] by (simp add: maxBloomBytes_def bloomHeaderSize_def)
    then have "unat (swOffset w2) + length payload + BlockTrailerSize \<le> MaxTableSize - FooterSize"
      using u [of "?d + ?i + ?m"] li lm room unfolding p2(4) by (simp add: size_defs del: of_nat_add)
    from writeBlock_plain [OF p2(1) this, of BlockFilter] show ?thesis
      using True p p2 by (auto simp: writeFilter_def plainFiles_def)
  next
    case False
    then show ?thesis using p2 by (simp add: writeFilter_def)
  qed
  then obtain w3 fh where s3: "writeFilter w2 = (w3, Inr fh)" "plainFiles w3" by blast
  then show ?thesis
    using s1 s2 sstWriteAll_plain [OF s3(2)] by (simp add: writeTail_def plainFiles_def)
qed

lemma publishTable_plain: "plainFiles w \<Longrightarrow> \<exists>w'. publishTable w = (w', Inr ()) \<and> swSmallestKey w' = swSmallestKey w \<and> swLastKey w' = swLastKey w"
  by (simp add: plainFiles_def publishTable_def fileOp_def fileCall_def takeSstOp_def Let_def)

lemma Finish_succeeds:
  assumes ok: "writerOk w bts cur" and es: "concat (map snd bts) @ cur \<noteq> []" and pl: "plainFiles w"
    and room: "length bts < 4294967295" "length (dataFile bts) \<le> 2 ^ 61" "swEnableBloom w \<Longrightarrow> length (swBloomHashes w) \<le> 214748364"
  shows "\<exists>w' meta. Finish w = (w', Inr meta)"
proof -
  obtain w1 bts' where f: "flushDataBlock w = (w1, Inr ())" and ok1: "writerOk w1 bts' []" and pl1: "plainFiles w1"
    and r1: "length (dataFile bts') \<le> 2 ^ 61 + 2 ^ 30" and es1: "concat (map snd bts') = concat (map snd bts) @ cur"
    and b1: "swEnableBloom w1 = swEnableBloom w" "swBloomHashes w1 = swBloomHashes w"
    using flush_plain [OF ok pl room(1,2)] by blast
  have ne: "bts' \<noteq> []" using es unfolding es1 [symmetric] by (cases bts') simp_all
  obtain w2 where w2: "writeTail w1 = (w2, Inr ())" "plainFiles w2"
    using writeTail_plain [OF ok1 ne pl1 r1] encodeBloom_fits room(3) b1 by auto
  then obtain g where "w2 = w1\<lparr>swFile := g, swOffset := word_of_nat (length (contents g))\<rparr>" using writeTail_ok [OF ok1 ne] by blast
  moreover obtain w3 where w3: "publishTable w2 = (w3, Inr ())" "swSmallestKey w3 = swSmallestKey w2" "swLastKey w3 = swLastKey w2"
    using publishTable_plain [OF w2(2)] by blast
  moreover note tl = writerOk_tail [OF ok1 ne]
  ultimately have "keySized (swSmallestKey w3)" "keySized (swLastKey w3)" using counters_bounds(1,2) [OF tl(1,4,2,3)] by simp_all
  then have "cloneInternalKey (swSmallestKey w3) = Inr (swSmallestKey w3)" "cloneInternalKey (swLastKey w3) = Inr (swLastKey w3)"
    by (simp_all add: cloneInternalKey_ok keySized_def)
  then have "\<exists>w' meta. finishTable w = (w', Inr meta)" using f w2(1) w3(1) by (simp add: finishTable_def Let_def)
  then show ?thesis using finish_state [OF ok, of "fst (Finish w)" "snd (Finish w)"] es by simp
qed

text \<open>The index needs at most two megabytes for each accepted entry.\<close>

lemma length_index_bound:
  assumes ok: "writerOk w bts []" and ne: "bts \<noteq> []"
  shows "length (encodeIndex w) \<le> 4 + length (concat (map snd bts)) * 2 ^ 21"
proof -
  have ix: "swIndex w = map ixEntry (indexOf 0 bts)" using ok by (simp add: writerOk_def blocksOk_def)
  have "list_all (\<lambda>b. snd b \<noteq> []) bts" using ok by (auto simp: writerOk_def blocksOk_def blockBuilt_def list_all_iff)
  then have "length bts \<le> length (concat (map snd bts))" by (induction bts) (auto simp: neq_Nil_conv)
  then show ?thesis using length_encodeIndex_le [OF ix writerOk_tail(5) [OF ok ne]] by simp
qed

end
