(* ===== verification/Sst_Properties.thy ===== *)
theory Sst_Properties
  imports Sst_Roundtrip
begin

text \<open>
  The properties of table files: every read of a table that \<open>Open\<close> accepted is determined by the
  sorted run of entries that its blocks hold, and what a writer publishes is such a table, with
  exactly the entries it accepted.
\<close>

section \<open>Names and runs\<close>

lemma parseFileNumber_name:
  assumes "number \<noteq> 0" "number \<le> sstMaxFileNumber"
  shows "parseFileNumber (sstFileName number) = number"
proof -
  let ?ds = "padDecimal 12 (unat number)"
  have n: "unat number < 10 ^ 12" using assms(2) by (simp add: word_le_nat_alt sstMaxFileNumber_def)
  have len: "length ?ds = 12" using length_padDecimal [OF n] by simp
  have "length (ascii ''.sst'') = 4" by (simp add: ascii_def)
  then have "length (sstFileName number) = 16" "hasSuffix (sstFileName number) (ascii ''.sst'')" "take 12 (sstFileName number) = ?ds"
    using len by (simp_all add: sstFileName_def hasSuffix_def)
  then show ?thesis
    using assms padDecimal_digits [of 12 "unat number"]
    by (simp add: parseFileNumber_def Let_def parseUint_padDecimal)
qed

lemma opened_writer:
  assumes "OpenSstWriter finalPath tempPath writes syncs ops number options = Inr w"
  shows "swFinal w = None" "swFileNumber w = number" "\<not> swFinished w" "number \<noteq> 0" "number \<le> sstMaxFileNumber"
    and "writes = [] \<Longrightarrow> syncs = [] \<Longrightarrow> ops = [] \<Longrightarrow> plainFiles w"
  using assms by (auto simp: OpenSstWriter_def newSstWriter_def plainFiles_def elim!: bindR_okE split: if_splits PathState.splits)

text \<open>A run of \<open>Add\<close> calls on a new writer ends in a failed writer or in one that holds what it accepted.\<close>

lemma written_run:
  assumes opn: "OpenSstWriter finalPath tempPath writes syncs ops number options = Inr w0"
    and es: "list_all (\<lambda>e. kindValid (kind (entryKey e))) es" and run: "sstAddAll es w0 = (w, accepted)"
  shows "swFinal w = None" "swFileNumber w = number" "\<not> swFinished w"
    and "stateError w \<noteq> None \<or> (\<exists>bts cur. writerOk w bts cur \<and> concat (map snd bts) @ cur = accepted)"
proof -
  show "swFinal w = None" "swFileNumber w = number" "\<not> swFinished w"
    using swPaths_step [OF run sstAddAll_paths] opened_writer [OF opn] by simp_all
  show "stateError w \<noteq> None \<or> (\<exists>bts cur. writerOk w bts cur \<and> concat (map snd bts) @ cur = accepted)"
    using sstAddAll_ok [OF writerOk_new [OF opn] es run] by simp
qed

lemma readerOk_tallies:
  assumes "readerOk f r bs"
  shows "deletesOf (map keyed (blockEntries bs)) = deletionsOf (blockEntries bs)" "rawOf (map keyed (blockEntries bs)) = rawBytesOf (blockEntries bs)"
proof -
  have "encodeInternalKey (deKey e) = deEncoded e" if "e \<in> set (blockEntries bs)" for e
  proof -
    have "entryOk e" using readerOk_facts(4) [OF assms] that unfolding list_all_iff by blast
    then show ?thesis using encode_decode_internal_key by (simp add: entryOk_def)
  qed
  then show "rawOf (map keyed (blockEntries bs)) = rawBytesOf (blockEntries bs)"
    unfolding rawOf_def rawBytesOf_def by (intro arg_cong [where f = sum_list]) (simp only: map_map comp_def keyed_sel cong: map_cong)
  show "deletesOf (map keyed (blockEntries bs)) = deletionsOf (blockEntries bs)"
    by (simp add: deletesOf_def deletionsOf_def filter_map comp_def)
qed

lemma Finish_failed:
  assumes "stateError w \<noteq> None" "\<not> swFinished w" "swFinal w = None" "Finish w = (w', res)"
  shows "swFinal w' = None \<and> isl res"
  using assms by (auto simp: Finish_def)

lemma published_table:
  assumes opn: "OpenSstWriter finalPath tempPath writes syncs ops number options = Inr w0"
    and es: "list_all (\<lambda>e. kindValid (kind (entryKey e))) es" and run: "sstAddAll es w0 = (w, accepted)"
    and fin: "Finish w = (w', res)"
  shows "swFinal w' = None \<and> isl res \<or>
    (\<exists>tbl. swFinal w' = Some tbl \<and> length (encodeIndex w') \<le> 4 + length accepted * 2 ^ 21 \<and>
      (length (encodeIndex w') + BlockTrailerSize \<le> unat DefaultMaxIndexBlockSize \<longrightarrow>
       (\<exists>r. openReader (readBytes tbl) (word_of_nat (length tbl)) (sstFileName number) 0 = Inr r \<and>
          tableEntries (readBytes tbl) r = accepted \<and> (\<forall>meta. res = Inr meta \<longrightarrow> srMetadata r = meta))) \<and>
      (unat DefaultMaxIndexBlockSize < length (encodeIndex w') + BlockTrailerSize \<longrightarrow>
       openReader (readBytes tbl) (word_of_nat (length tbl)) (sstFileName number) 0 = Inl SstResourceLimit))"
proof -
  note wr = written_run [OF opn es run]
  show ?thesis
  proof (cases "stateError w = None")
    case False
    then show ?thesis using Finish_failed [OF False wr(3,1) fin] by simp
  next
    case True
    then obtain bts cur where ok: "writerOk w bts cur" and acc: "concat (map snd bts) @ cur = accepted" using wr(4) by blast
    note state = finish_state [OF ok fin, unfolded acc fin]
    show ?thesis
    proof (cases "accepted = []")
      case True
      then show ?thesis using state wr(1) by simp
    next
      case False
      then have ft: "finishTable w = (w', res)" using state by simp
      have ne: "concat (map snd bts) @ cur \<noteq> []" using False acc by simp
      show ?thesis
      proof (cases "swFinal w'")
        case None
        then show ?thesis using finishTable_final [OF ok ne wr(1) ft] by auto
      next
        case (Some tbl)
        then obtain v bts' ih mh fh fb where v: "writerOk v bts' []" "bts' \<noteq> []" "concat (map snd bts') = accepted"
          and lay: "tableLayout v bts' tbl ih mh fh fb" and ix: "encodeIndex w' = encodeIndex v"
          and meta: "\<forall>meta. res = Inr meta \<longrightarrow>
            meta = (streamMetadata v (length bts'))\<lparr>sstFileNumber := number, sstFileSize := word_of_nat (length tbl)\<rparr>"
          using finishTable_final [OF ok ne wr(1) ft] wr(2) acc by auto
        note name = parseFileNumber_name [OF opened_writer(4,5) [OF opn]]
        have "\<exists>r. openReader (readBytes tbl) (word_of_nat (length tbl)) (sstFileName number) 0 = Inr r \<and>
            tableEntries (readBytes tbl) r = accepted \<and> (\<forall>meta. res = Inr meta \<longrightarrow> srMetadata r = meta)"
          if "length (encodeIndex w') + BlockTrailerSize \<le> unat DefaultMaxIndexBlockSize"
          using openReader_written [OF v(1,2) lay, of 0 "sstFileName number"] that meta unfolding v(3) ix name by auto
        moreover have "openReader (readBytes tbl) (word_of_nat (length tbl)) (sstFileName number) 0 = Inl SstResourceLimit"
          if "unat DefaultMaxIndexBlockSize < length (encodeIndex w') + BlockTrailerSize"
          using openReader_large [OF lay, of 0] that unfolding ix by simp
        ultimately show ?thesis using length_index_bound [OF v(1,2)] Some ix v(3) by auto
      qed
    qed
  qed
qed

section \<open>A concrete table\<close>

definition exampleOptions :: SstOptions where
  "exampleOptions = \<lparr>soBlockSize = 0, soRestartInterval = 0, soDisableBloom = False\<rparr>"

definition exampleWriter :: SstWriter where
  "exampleWriter = newSstWriter \<lparr>contents = [], fileSynced = 0, fileLinked = False, writePlan = [], syncPlan = []\<rparr> [] 7 4096 16"

text \<open>The second entry is newer than the first, so it sorts before it and \<open>Add\<close> refuses it.\<close>

definition exampleEntries :: "KeyedEntry list" where
  "exampleEntries = [KeyedEntry (InternalKey [1] 9 KindValue) [7], KeyedEntry (InternalKey [1] 10 KindValue) [7]]"

definition exampleFull :: SstWriter where
  "exampleFull = fst (sstAddAll exampleEntries exampleWriter)"

lemma example_open: "OpenSstWriter PathAbsent PathAbsent [] [] [] 7 exampleOptions = Inr exampleWriter"
  by (simp add: OpenSstWriter_def normalizeOptions_def exampleOptions_def exampleWriter_def newSstWriter_def sstMaxFileNumber_def
      DefaultBlockSize_def DefaultRestartInterval_def size_defs Let_def)

lemma example_first:
  "\<exists>w. sstAdd (InternalKey [1] 9 KindValue) [7] exampleWriter = (w, Inr ()) \<and> stateError w = None \<and> swIndex w = [] \<and> swOffset w = 0 \<and>
     length (swBloomHashes w) = 1 \<and> swHaveEntry w \<and> swLastKey w = InternalKey [1] 9 KindValue"
proof -
  have "length (encodeInternalKey (InternalKey [1] 9 KindValue)) = 10" by (simp add: length_encodeInternalKey)
  moreover have "projectedSize (newDataBlockBuilder 16) (encodeInternalKey (InternalKey [1] 9 KindValue)) [7] \<le> MaxDataBlockSize"
    using putUvarint_length_max [of 0] putUvarint_length_max [of 10] putUvarint_length_max [of 1]
    by (simp add: projectedSize_def newDataBlockBuilder_def isRestart_def uvarintLen_def length_encodeInternalKey size_defs)
  moreover have "\<not> entryTooLarge (encodeInternalKey (InternalKey [1] 9 KindValue)) [7]"
    by (simp add: entryTooLarge_def checkedAdd_def length_encodeInternalKey size_defs)
  ultimately show ?thesis
    by (simp add: sstAdd_def exampleWriter_def newSstWriter_def stateError_def MaxUserKeySize_def MaxInternalKeySize_def MaxValueSize_def
        carriesValue_def bbEmpty_def newDataBlockBuilder_def recordEntry_def checkedAdd_def cloneInternalKey_def newInternalKey_def
        kindValid_def kind_defs Let_def)
qed

lemma example_run_state:
  shows "sstAddAll exampleEntries exampleWriter = (exampleFull, [KeyedEntry (InternalKey [1] 9 KindValue) [7]])"
    "stateError exampleFull = None" "length (swIndex exampleFull) = 0" "swOffset exampleFull = 0"
    "length (swBloomHashes exampleFull) = 1"
proof -
  obtain w where w: "sstAdd (InternalKey [1] 9 KindValue) [7] exampleWriter = (w, Inr ())" "stateError w = None" "swIndex w = []"
    "swOffset w = 0" "length (swBloomHashes w) = 1" "swHaveEntry w" "swLastKey w = InternalKey [1] 9 KindValue"
    using example_first by blast
  have "\<not> entryTooLarge (encodeInternalKey (InternalKey [1] 10 KindValue)) [7]"
    by (simp add: entryTooLarge_def checkedAdd_def length_encodeInternalKey size_defs)
  moreover have "compareInternal (InternalKey [1] 9 KindValue) (InternalKey [1] 10 KindValue) = 1" by (simp add: compareInternal_def)
  ultimately have "sstAdd (InternalKey [1] 10 KindValue) [7] w = (w, Inl SstOutOfOrder)"
    using w by (simp add: sstAdd_def Let_def MaxUserKeySize_def MaxInternalKeySize_def MaxValueSize_def carriesValue_def
        length_encodeInternalKey)
  then have run: "sstAddAll exampleEntries exampleWriter = (w, [KeyedEntry (InternalKey [1] 9 KindValue) [7]])"
    using w(1) by (simp add: exampleEntries_def)
  then have "exampleFull = w" by (simp add: exampleFull_def)
  then show "sstAddAll exampleEntries exampleWriter = (exampleFull, [KeyedEntry (InternalKey [1] 9 KindValue) [7]])"
    "stateError exampleFull = None" "length (swIndex exampleFull) = 0" "swOffset exampleFull = 0" "length (swBloomHashes exampleFull) = 1"
    using run w by simp_all
qed

lemmas example_run = example_run_state(1) and example_state = example_run_state(2-5)

lemma example_kinds: "list_all (\<lambda>e. kindValid (kind (entryKey e))) exampleEntries"
  by (simp add: exampleEntries_def kindValid_def kind_defs)

section \<open>The properties\<close>

text \<open>
  C34. Reads of a table that \<open>Open\<close> accepts, whatever its bytes are, in terms of the entries that its
  blocks list. They are strictly sorted, and there are as many entries, deletions and bytes as
  the metadata says, between its bounds. \<open>Seek\<close> finds the first entry not below its key through
  the index and the restart points, \<open>Get\<close> the entry of exactly its key, \<open>GetCandidate\<close> the newest
  entry of a user key at or below a version, with the filter never hiding one. The iterators
  deliver all entries, those from a key on, and those of a range, and end without an error.
\<close>

theorem sst_reads_exact:
  assumes "openReader f size' base maxIndex = Inr r"
  defines "es \<equiv> tableEntries f r"
  shows "sortedEntries es \<and> es \<noteq> [] \<and>
    unat (sstEntryCount (srMetadata r)) = length es \<and> unat (sstDeletionCount (srMetadata r)) = deletesOf es \<and>
    unat (sstRawKeyValueBytes (srMetadata r)) = rawOf es \<and>
    sstSmallestInternal (srMetadata r) = entryKey (hd es) \<and> sstLargestInternal (srMetadata r) = entryKey (last es) \<and>
    sstSeek f r target = (case firstOf (entriesAtLeast target es) of None \<Rightarrow> Inl SstNotFound | Some e \<Rightarrow> Inr e) \<and>
    sstGet f r target = (case entriesOf es target of None \<Rightarrow> Inl SstNotFound | Some v \<Rightarrow> Inr (KeyedEntry target v)) \<and>
    sstGetCandidate f r user version =
      (if length user > MaxUserKeySize then Inl SstKeyTooLarge
       else case candidateOf user version es of None \<Rightarrow> Inl SstNotFound | Some e \<Rightarrow> Inr e) \<and>
    drains f r (NewIterator f r) es \<and> drains f r (IteratorFrom f r target) (entriesAtLeast target es) \<and>
    (if (case start of None \<Rightarrow> False | Some s \<Rightarrow> length s > MaxUserKeySize) \<or>
        (case end' of None \<Rightarrow> False | Some e \<Rightarrow> length e > MaxUserKeySize) then sstRange f r start end' = Inl SstKeyTooLarge
     else if (case (start, end') of (Some s, Some e) \<Rightarrow> e < s | _ \<Rightarrow> False) then sstRange f r start end' = Inl SstInvalidRange
     else drains f r (sstRange f r start end') (filter (inRange start end') es))"
proof -
  obtain bs where ok: "readerOk f r bs" and meta: "metadataOk (srMetadata r) (blockEntries bs)" using openReader_ok [OF assms(1)] by blast
  have es: "es = map keyed (blockEntries bs)" using tableEntries_blocks [OF ok] by (simp add: es_def)
  have ne: "blockEntries bs \<noteq> []" using ok tableChain_nonempty by (auto simp: readerOk_def)
  have tallies: "deletesOf es = deletionsOf (blockEntries bs)" "rawOf es = rawBytesOf (blockEntries bs)"
    using readerOk_tallies [OF ok] by (simp_all add: es)
  have all: "filter (inRange None None) es = es" by (simp add: inRange_def)
  have it: "drains f r (NewIterator f r) es" "drains f r (IteratorFrom f r target) (entriesAtLeast target es)"
    using newIteratorAt_drains [OF ok, of None False None] newIteratorAt_drains [OF ok, of "Some target" False None]
    by (simp_all add: NewIterator_def IteratorFrom_def inRange_def flip: es_def)
  show ?thesis
    using tableEntries_sorted [OF ok] ne meta tallies it sstSeek_ok [OF ok, of target] sstGet_ok [OF ok, of target]
      sstGetCandidate_ok [OF ok, of user version] sstRange_ok [OF ok, of start end'] hd_map [OF ne, of keyed] last_map [OF ne, of keyed]
    unfolding es_def [symmetric] by (simp add: metadataOk_def es)
qed

text \<open>
  C33. What a writer publishes is what it accepted, whatever the results of the writes, syncs and
  path operations under it are. Let \<open>Add\<close> be called with entries of the kinds that the format
  knows. After \<open>Finish\<close> the final path is either empty, and \<open>Finish\<close> reported an error, or it
  holds a complete file. When the index block with its trailer is at most 256 MiB, the default
  limit of the reader, \<open>Open\<close> accepts that file, its entries are exactly those that \<open>Add\<close>
  accepted, and when \<open>Finish\<close> returned metadata the reader derives the same. The writer has no
  such limit: a file with a larger index block is published all the same, and \<open>Open\<close> refuses it
  with \<open>ErrResourceLimit\<close>.
\<close>

theorem sst_roundtrip:
  assumes "OpenSstWriter finalPath tempPath writes syncs ops number options = Inr w0"
    and "list_all (\<lambda>e. kindValid (kind (entryKey e))) es" and "sstAddAll es w0 = (w, accepted)" and "Finish w = (w', res)"
  shows "case swFinal w' of
      None \<Rightarrow> isl res
    | Some tbl \<Rightarrow>
        if length (encodeIndex w') + BlockTrailerSize \<le> unat DefaultMaxIndexBlockSize
        then \<exists>r. openReader (readBytes tbl) (word_of_nat (length tbl)) (sstFileName number) 0 = Inr r \<and>
          tableEntries (readBytes tbl) r = accepted \<and> (case res of Inl _ \<Rightarrow> True | Inr meta \<Rightarrow> srMetadata r = meta)
        else openReader (readBytes tbl) (word_of_nat (length tbl)) (sstFileName number) 0 = Inl SstResourceLimit"
proof (cases "swFinal w'")
  case None
  then show ?thesis using published_table [OF assms] by simp
next
  case (Some tbl)
  show ?thesis
  proof (cases "length (encodeIndex w') + BlockTrailerSize \<le> unat DefaultMaxIndexBlockSize")
    case True
    then obtain r where "openReader (readBytes tbl) (word_of_nat (length tbl)) (sstFileName number) 0 = Inr r"
      "tableEntries (readBytes tbl) r = accepted" "\<forall>meta. res = Inr meta \<longrightarrow> srMetadata r = meta"
      using published_table [OF assms] Some by auto
    then show ?thesis using Some True by (cases res) auto
  next
    case False
    then show ?thesis using published_table [OF assms] Some by auto
  qed
qed

text \<open>
  C35. On a file system that performs every call, a writer without an error that has accepted an
  entry finishes: it publishes a file and returns metadata. The bounds are those of the format:
  the number of blocks, the room below the largest table size, and the keys that the largest
  filter takes.
\<close>

theorem sst_finish_succeeds:
  assumes "OpenSstWriter finalPath tempPath [] [] [] number options = Inr w0"
    and "list_all (\<lambda>e. kindValid (kind (entryKey e))) es" and "sstAddAll es w0 = (w, accepted)"
    and "accepted \<noteq> []" and "stateError w = None"
    and "length (swIndex w) < 4294967295" and "unat (swOffset w) \<le> 2 ^ 61" and "length (swBloomHashes w) \<le> 214748364"
  shows "\<exists>w' meta tbl. Finish w = (w', Inr meta) \<and> swFinal w' = Some tbl"
proof -
  obtain bts cur where ok: "writerOk w bts cur" and acc: "concat (map snd bts) @ cur = accepted"
    using written_run(4) [OF assms(1-3)] assms(5) by blast
  have "length (swIndex w) = length bts" "unat (swOffset w) = length (dataFile bts)"
    using ok by (auto simp: writerOk_def blocksOk_def size_defs)
  moreover have "plainFiles w" using sstAddAll_plain [OF opened_writer(6) [OF assms(1)], of es] assms(3) by simp
  ultimately obtain w' meta where fin: "Finish w = (w', Inr meta)"
    using Finish_succeeds [OF ok] acc assms(4,6-8) by auto
  then show ?thesis using published_table [OF assms(1-3) fin] by auto
qed

section \<open>Witnesses\<close>

lemma example_finishes: "\<exists>w' meta tbl. Finish exampleFull = (w', Inr meta) \<and> swFinal w' = Some tbl \<and>
    length (encodeIndex w') + BlockTrailerSize \<le> unat DefaultMaxIndexBlockSize"
proof -
  obtain bts cur where ok: "writerOk exampleFull bts cur" and acc: "concat (map snd bts) @ cur = [KeyedEntry (InternalKey [1] 9 KindValue) [7]]"
    using written_run(4) [OF example_open example_kinds example_run] example_state(1) by blast
  have "length (swIndex exampleFull) = length bts" "unat (swOffset exampleFull) = length (dataFile bts)"
    using ok by (auto simp: writerOk_def blocksOk_def size_defs)
  moreover have "plainFiles exampleFull" using sstAddAll_plain [OF opened_writer(6) [OF example_open], of exampleEntries] example_run by simp
  ultimately obtain w' meta where fin: "Finish exampleFull = (w', Inr meta)"
    using Finish_succeeds [OF ok] acc example_state by auto
  then show ?thesis
    using published_table [OF example_open example_kinds example_run fin] by (auto simp: DefaultMaxIndexBlockSize_def size_defs)
qed

theorem sst_roundtrip_witness:
  "\<exists>w' meta tbl r. Finish exampleFull = (w', Inr meta) \<and> swFinal w' = Some tbl \<and>
     openReader (readBytes tbl) (word_of_nat (length tbl)) (sstFileName 7) 0 = Inr r \<and> srMetadata r = meta \<and>
     tableEntries (readBytes tbl) r = [KeyedEntry (InternalKey [1] 9 KindValue) [7]]"
proof -
  obtain w' meta tbl where fin: "Finish exampleFull = (w', Inr meta)" "swFinal w' = Some tbl"
    "length (encodeIndex w') + BlockTrailerSize \<le> unat DefaultMaxIndexBlockSize" using example_finishes by blast
  then show ?thesis using fin(3) sst_roundtrip [OF example_open example_kinds example_run fin(1)] by auto
qed

theorem sst_finish_succeeds_witness:
  "\<exists>w' meta tbl. Finish exampleFull = (w', Inr meta) \<and> swFinal w' = Some tbl"
  using sst_finish_succeeds [OF example_open example_kinds example_run] example_state by simp

theorem sst_reads_exact_witness:
  "\<exists>tbl r. openReader (readBytes tbl) (word_of_nat (length tbl)) (sstFileName 7) 0 = Inr r \<and>
     sstGetCandidate (readBytes tbl) r [1] 20 = Inr (KeyedEntry (InternalKey [1] 9 KindValue) [7]) \<and>
     sstGetCandidate (readBytes tbl) r [1] 8 = Inl SstNotFound"
proof -
  obtain w' meta tbl where fin: "Finish exampleFull = (w', Inr meta)" "swFinal w' = Some tbl"
    "length (encodeIndex w') + BlockTrailerSize \<le> unat DefaultMaxIndexBlockSize" using example_finishes by blast
  then obtain r where r: "openReader (readBytes tbl) (word_of_nat (length tbl)) (sstFileName 7) 0 = Inr r"
    "tableEntries (readBytes tbl) r = [KeyedEntry (InternalKey [1] 9 KindValue) [7]]"
    using published_table [OF example_open example_kinds example_run fin(1)] by auto
  show ?thesis
    using sst_reads_exact [OF r(1), of "InternalKey [] 0 0" "[1]" 20 None None] sst_reads_exact [OF r(1), of "InternalKey [] 0 0" "[1]" 8 None None] r
    by (intro exI [of _ "tbl"] exI [of _ r]) (simp add: candidateOf_def MaxUserKeySize_def)
qed

end
