(* ===== verification/Spec2Isabelle.thy ===== *)
theory Spec2Isabelle
  imports
    Internal_Key
    Write_Batch
    Timestamps
    Range_Properties
    Raft_Properties
    Store_Properties
    Wal_Properties
    Mem_Properties
    Sst_Properties
begin

text \<open>
  RivetDB is a distributed key-value store in Go. A range of keys is replicated by a Raft group;
  the committed commands of the group drive a state machine for writes, distributed transactions
  and range splits, which keeps its data in a local log-structured storage engine. This library
  models the deterministic parts of the program and proves what they promise. Paths below are
  relative to \<open>src/internal\<close>.

  \<^bold>\<open>Conventions.\<close> A method is a function from the state of its receiver to an \<open>outcome\<close>, the
  state after the call and an error or a result; stateless code returns a sum. A failed
  assertion or a panic is an error value. Machine integers that are stored, added or compared
  at their width are words; lengths of slices are naturals. A slice or map that the code copies
  on the way in and out is a value. A method that holds a lock from its first to its last access
  is one step. What the environment answers (writes, syncs, renames, the wall clock, random
  numbers, the delivery of messages, crashes) is an argument or a script, and theorems hold for
  all of them.

  \<^bold>\<open>Foundations.\<close> \<open>Prelude\<close> has the types and the outcome type; \<open>Byte_Codec\<close> the integers and varints
  of \<open>encoding/binary\<close> and \<open>bytes.Compare\<close>; \<open>Sort_Func\<close> the contract of \<open>slices.SortFunc\<close> as the
  locales \<open>comparison\<close> and \<open>strict_comparison\<close>; \<open>File_Names\<close> the decimal file numbers.

  \<^bold>\<open>Keys, batches, time.\<close> \<open>Internal_Key\<close> (\<open>storage/internal_key.go\<close>) makes the comparator the linear
  order of versioned keys. \<open>Write_Batch\<close> (\<open>storage/batch.go\<close>) and \<open>Timestamps\<close>
  (\<open>mvcc/timestamp.go\<close>) hold the batch codec and the hybrid logical clock, whose timestamps are
  shown to increase strictly. \<open>Sorted_Entries\<close> is the vocabulary of sorted runs in which all
  reads are specified.

  \<^bold>\<open>Raft.\<close> \<open>Raft_Types\<close> (\<open>raft/types.go\<close>, \<open>membership.go\<close>) has configurations and quorums: quorums
  meet within a configuration and across every admitted transition. \<open>Raft_Node\<close> (\<open>raft/node.go\<close>)
  is the node with every method. \<open>Raft_Store\<close> has the locale \<open>raft_store\<close> for the \<open>Store\<close> interface,
  interpreted by \<open>memory_store.go\<close>, and the durability of the hard state. \<open>Raft_Election\<close> and
  \<open>Raft_Cluster\<close> prove election safety for many nodes with message loss, duplication, reordering,
  crashes and restarts; \<open>Raft_Log\<close> and \<open>Raft_Properties\<close> prove the order of the log, the
  stability of committed entries, the meaning of responses, the commit rule and the apply order.
  Log matching and leader completeness across nodes are not stated.

  \<^bold>\<open>Replicated ranges.\<close> \<open>Txn_Types\<close>, \<open>Txn_Codec\<close> (\<open>txn\<close>) and \<open>Range_Command\<close>
  (\<open>replicatedrange/command.go\<close>, \<open>split.go\<close>) are the commands with exact codecs.
  \<open>Range_Machine\<close> (\<open>replicatedrange/state_machine.go\<close>) is \<open>Apply\<close> for every command; the storage
  engine and SHA-256 are parameters. \<open>Range_Properties\<close> shows that decisions, participant outcomes
  and fences are final, that watermarks are monotone, and where replay and admission go wrong.

  \<^bold>\<open>Write-ahead log.\<close> \<open>Wal_Log\<close> (\<open>storage/wal\<close>) is the writer, the reader, recovery and tail repair,
  with CRC-32C computed. A file is its bytes, how many of them the last sync covered, and the
  results of the coming calls. \<open>Wal_Properties\<close> shows what a scan returns after any pattern of
  failed and short writes followed by a crash that keeps the synced bytes, and for a file cut
  at any byte; the locale \<open>record_log\<close> is the contract that the manifest uses.

  \<^bold>\<open>Manifest.\<close> \<open>Manifest_Version\<close> and \<open>Manifest_Codec\<close> (\<open>storage/manifest/version.go\<close>, \<open>edit.go\<close>) are
  the table set, its edits and their binary form. \<open>Manifest_Invariant\<close>, \<open>Manifest_Properties\<close> and
  \<open>Manifest_Replay\<close> show the shape of all versions, the exactness of the coverage test and that
  snapshots and replay rebuild a version. \<open>Manifest_Store\<close> (\<open>store.go\<close>, \<open>current.go\<close>,
  \<open>recovery.go\<close>) owns the directory; \<open>Store_Properties\<close> shows recovery after a crash between two
  calls and the uniqueness of file numbers. Such a crash keeps the synced bytes and names and
  any part of the others, and \<open>Open\<close> may then fail any number of times, with further crashes,
  before it succeeds. What a crash has left counts as being on disk from then on, so a loss of
  power that follows a mere restart of the process, before anything is synced, is not covered.

  \<^bold>\<open>Memtable.\<close> \<open>Mem_Table\<close> (\<open>storage/memtable\<close>) is the skip list with its links.
  \<open>Mem_Invariant\<close> and \<open>Mem_Properties\<close> show that its loops return and that it refines a map
  whose writes are specified without the code's staging loops.

  \<^bold>\<open>Sorted tables.\<close> \<open>Sst_Format\<close>, \<open>Sst_Decoder\<close>, \<open>Sst_Reader\<close> and \<open>Sst_Writer\<close> (\<open>storage/sstable\<close>) are
  the file format, the decoders, the reader with its iterators, and the writer. \<open>Sst_Block\<close> and
  \<open>Sst_Table\<close> show what an accepted table holds and that reads are exact; \<open>Sst_Encode\<close> and
  \<open>Sst_Roundtrip\<close> that a published table is accepted and holds what was added, unless its index
  block is above the reader's limit; \<open>Sst_Properties\<close> states this.

  \<^bold>\<open>Bounds and loops.\<close> Loops over data are structural or have a termination proof. The loops
  that follow links of the skip list are partial functions whose result is \<open>None\<close> when they do
  not end, and they are shown to end on every reachable table. No fuel is used.

  \<^bold>\<open>Not modelled.\<close> The storage pipeline, compaction, the engine and the file store of Raft, the
  goroutines of a replica, range snapshots, the multi-range layer (routing, metadata, splits,
  migration, rebalancing, transaction coordination), the advisor, and the test and logging
  packages. Contexts, mutexes, loggers and statistics that only observe have no counterpart.
\<close>

end
